(* ===== verification/Prelude.thy ===== *)
theory Prelude
  imports Main "HOL-Library.Word" "HOL-Library.Monad_Syntax" "HOL-Library.Multiset"
begin

text \<open>
  Shared vocabulary of the development.

  C and C++ code reads and writes arrays by index and has undefined behaviour out of
  range. Every array access of the model therefore goes through \<open>rd\<close> and \<open>wr\<close>,
  which return \<open>None\<close> out of range: a theorem that an operation returns \<open>Some\<close>
  includes the absence of out-of-bounds accesses. Fixed-width unsigned arithmetic on
  \<open>nat\<close> is written with the explicit reductions \<open>u8\<close>, \<open>u16\<close>, \<open>u32\<close> and \<open>u64\<close>;
  values that the code handles bitwise are words.
\<close>

section \<open>Types\<close>

type_synonym byte = "8 word"
type_synonym bytes = "8 word list"

section \<open>Collections of facts\<close>

named_theorems mem_simps \<open>array reads and writes inside their bounds\<close>
named_theorems uint_simps \<open>fixed-width reductions that do not wrap\<close>
named_theorems inv_defs \<open>the invariants of the components\<close>

section \<open>Array accesses\<close>

definition rd :: "'a list \<Rightarrow> nat \<Rightarrow> 'a option" where
  "rd xs i = (if i < length xs then Some (xs ! i) else None)"

definition wr :: "'a list \<Rightarrow> nat \<Rightarrow> 'a \<Rightarrow> 'a list option" where
  "wr xs i v = (if i < length xs then Some (xs[i := v]) else None)"

lemma rd_Some_iff [mem_simps]: "rd xs i = Some v \<longleftrightarrow> i < length xs \<and> v = xs ! i"
  by (auto simp: rd_def)

lemma wr_Some_iff [mem_simps]: "wr xs i v = Some ys \<longleftrightarrow> i < length xs \<and> ys = xs[i := v]"
  by (auto simp: wr_def)

lemma rd_in [simp]: "i < length xs \<Longrightarrow> rd xs i = Some (xs ! i)"
  by (simp add: rd_def)

lemma rd_out [simp]: "length xs \<le> i \<Longrightarrow> rd xs i = None"
  by (simp add: rd_def)

lemma wr_in [simp]: "i < length xs \<Longrightarrow> wr xs i v = Some (xs[i := v])"
  by (simp add: wr_def)

lemma wr_out [simp]: "length xs \<le> i \<Longrightarrow> wr xs i v = None"
  by (simp add: wr_def)

text \<open>
  \<open>memcpy (dst + i, src + j, n)\<close> between two different arrays and
  \<open>memmove (a + i, a + j, n)\<close> within one.
\<close>

definition memcpy :: "'a list \<Rightarrow> nat \<Rightarrow> 'a list \<Rightarrow> nat \<Rightarrow> nat \<Rightarrow> 'a list option" where
  "memcpy dst i src j n =
     (if i + n \<le> length dst \<and> j + n \<le> length src
      then Some (take i dst @ take n (drop j src) @ drop (i + n) dst) else None)"

definition memmove :: "'a list \<Rightarrow> nat \<Rightarrow> nat \<Rightarrow> nat \<Rightarrow> 'a list option" where
  "memmove a i j n = memcpy a i a j n"

lemma memcpy_in [simp]:
  "i + n \<le> length dst \<Longrightarrow> j + n \<le> length src \<Longrightarrow>
   memcpy dst i src j n = Some (take i dst @ take n (drop j src) @ drop (i + n) dst)"
  by (simp add: memcpy_def)

lemma length_memcpy: "memcpy dst i src j n = Some r \<Longrightarrow> length r = length dst"
  by (auto simp: memcpy_def split: if_splits)

section \<open>Fixed-width unsigned arithmetic\<close>

definition u8 :: "nat \<Rightarrow> nat" where "u8 n = n mod 2 ^ 8"
definition u16 :: "nat \<Rightarrow> nat" where "u16 n = n mod 2 ^ 16"
definition u32 :: "nat \<Rightarrow> nat" where "u32 n = n mod 2 ^ 32"
definition u64 :: "nat \<Rightarrow> nat" where "u64 n = n mod 2 ^ 64"

lemma u8_id [uint_simps]: "n < 2 ^ 8 \<Longrightarrow> u8 n = n" by (simp add: u8_def)
lemma u16_id [uint_simps]: "n < 2 ^ 16 \<Longrightarrow> u16 n = n" by (simp add: u16_def)
lemma u32_id [uint_simps]: "n < 2 ^ 32 \<Longrightarrow> u32 n = n" by (simp add: u32_def)
lemma u64_id [uint_simps]: "n < 2 ^ 64 \<Longrightarrow> u64 n = n" by (simp add: u64_def)

lemma u32_less [simp]: "u32 n < 2 ^ 32" by (simp add: u32_def)
lemma u64_less [simp]: "u64 n < 2 ^ 64" by (simp add: u64_def)

lemma unat_bound: "unat (w :: 'a::len word) < 2 ^ LENGTH('a)"
  by (rule unsigned_less)

lemma unat_ucast_up:
  fixes w :: "'a::len word"
  assumes "LENGTH('a) \<le> LENGTH('b::len)"
  shows "unat (ucast w :: 'b word) = unat w"
proof -
  have "unat w < 2 ^ LENGTH('b)"
    by (rule less_le_trans [OF unsigned_less]) (use assms in simp)
  then show ?thesis by (simp add: unsigned_ucast_eq take_bit_nat_eq_self)
qed

section \<open>Lists\<close>

lemma nth_drop_take_range:
  "i < n \<Longrightarrow> j + n \<le> length xs \<Longrightarrow> take n (drop j xs) ! i = xs ! (j + i)"
  by simp

text \<open>Arrays whose cell 0 is a count and whose elements start at cell 1.\<close>

lemma take_tl_nth:
  "n < length xs \<Longrightarrow> 1 \<le> c \<Longrightarrow> c \<le> n \<Longrightarrow> take n (tl xs) ! (c - 1) = xs ! c"
  by (cases xs) (auto simp: nth_tl)

lemma sorted_wrt_take_tl_nth:
  assumes "sorted_wrt R (take n (tl xs))" "n < length xs" "1 \<le> c" "c < d" "d \<le> n"
  shows "R (xs ! c) (xs ! d)"
proof -
  have "R (take n (tl xs) ! (c - 1)) (take n (tl xs) ! (d - 1))"
    using assms by (auto simp: sorted_wrt_iff_nth_less)
  then show ?thesis
    using assms take_tl_nth [of n xs c] take_tl_nth [of n xs d] by simp
qed

lemma mset_swap_nth:
  "i < length xs \<Longrightarrow> j < length xs \<Longrightarrow> mset (xs[i := xs ! j, j := xs ! i]) = mset xs"
  by (metis mset_swap)

section \<open>Sequences of operations and simulation\<close>

text \<open>
  An operation that may use an invalid pointer or index is a partial step with an output. A
  component that is specified by an abstract state machine is an instance of \<open>simulation\<close>; the
  locale lifts the step-by-step refinement to every sequence of operations.
\<close>

fun run :: "('s \<Rightarrow> 'o \<Rightarrow> ('r \<times> 's) option) \<Rightarrow> 's \<Rightarrow> 'o list \<Rightarrow> ('r list \<times> 's) option" where
  "run step s [] = Some ([], s)"
| "run step s (opn # ops) = do { (r, s) \<leftarrow> step s opn; (rs, s) \<leftarrow> run step s ops; Some (r # rs, s) }"

fun spec_run :: "('s \<Rightarrow> 'o \<Rightarrow> 'r \<times> 's) \<Rightarrow> 's \<Rightarrow> 'o list \<Rightarrow> 'r list \<times> 's" where
  "spec_run step s [] = ([], s)"
| "spec_run step s (opn # ops) = (let (r, s) = step s opn; (rs, s) = spec_run step s ops in (r # rs, s))"

lemma spec_run_append:
  "spec_run f s (xs @ ys) = (let (rs, s) = spec_run f s xs; (rs', s) = spec_run f s ys in (rs @ rs', s))"
  by (induction xs arbitrary: s) (auto simp: Let_def split: prod.split)

locale simulation_on =
  fixes step :: "'s \<Rightarrow> 'o \<Rightarrow> ('r \<times> 's) option"
    and spec :: "'a \<Rightarrow> 'o \<Rightarrow> 'r \<times> 'a"
    and abs :: "'s \<Rightarrow> 'a"
    and ok :: "'s \<Rightarrow> bool"
    and allowed :: "'o \<Rightarrow> bool"
  assumes step_simulates_on:
    "ok s \<Longrightarrow> allowed opn \<Longrightarrow> \<exists>r s'. step s opn = Some (r, s') \<and> ok s' \<and> spec (abs s) opn = (r, abs s')"
begin

lemma run_simulates_on:
  "ok s \<Longrightarrow> list_all allowed ops \<Longrightarrow>
   \<exists>rs s'. run step s ops = Some (rs, s') \<and> ok s' \<and> spec_run spec (abs s) ops = (rs, abs s')"
proof (induction ops arbitrary: s)
  case (Cons opn ops)
  obtain r s' where s': "step s opn = Some (r, s')" "ok s'" "spec (abs s) opn = (r, abs s')"
    using step_simulates_on [OF Cons.prems(1), of opn] Cons.prems(2) by auto
  then show ?case using Cons.IH [OF s'(2)] Cons.prems(2) by auto
qed simp

end

text \<open>The common case: every operation is allowed.\<close>

locale simulation =
  fixes step :: "'s \<Rightarrow> 'o \<Rightarrow> ('r \<times> 's) option"
    and spec :: "'a \<Rightarrow> 'o \<Rightarrow> 'r \<times> 'a"
    and abs :: "'s \<Rightarrow> 'a"
    and ok :: "'s \<Rightarrow> bool"
  assumes step_simulates: "ok s \<Longrightarrow> \<exists>r s'. step s opn = Some (r, s') \<and> ok s' \<and> spec (abs s) opn = (r, abs s')"

sublocale simulation \<subseteq> total: simulation_on step spec abs ok "\<lambda>opn. True"
  by unfold_locales (rule step_simulates)

context simulation
begin

lemma run_simulates:
  "ok s \<Longrightarrow> \<exists>rs s'. run step s ops = Some (rs, s') \<and> ok s' \<and> spec_run spec (abs s) ops = (rs, abs s')"
  by (rule total.run_simulates_on) (simp_all add: list_all_iff)

end

end
