(* ===== verification/Rb_Heap.thy ===== *)
theory Rb_Heap
  imports Prelude
begin

text \<open>
  The red-black trees of \<^verbatim>\<open>src/core/hash_map.h\<close> on an explicit heap: \<^verbatim>\<open>TreeMapUtility\<close> (rotations
  and the two fix-up loops) and \<^verbatim>\<open>SmallTreeMap\<close> (search, insertion, removal). A \<^verbatim>\<open>Node *\<close> is a
  \<open>nat option\<close>, \<open>None\<close> the null pointer. \<^verbatim>\<open>fld\<close> and \<^verbatim>\<open>upd\<close> are the reads and writes through a
  pointer; they return \<open>None\<close> for the null pointer and for an address that holds no node. The
  loops follow pointers and may not end on a cyclic heap, so they are
  \<^theory_text>\<open>partial_function (option)\<close>: \<open>None\<close> also stands for not returning. A result \<open>Some\<close> therefore
  means that the code terminates and only dereferences live nodes.

  The payload of a node (array index, hash value, key and value) is not touched by the tree
  algorithms, which are polymorphic in it.
\<close>

section \<open>Nodes and the heap\<close>

type_synonym ptr = "nat option"

record 'd rbnode =
  parent :: ptr
  left :: ptr
  right :: ptr
  color :: bool
  payload :: 'd

type_synonym 'd heap = "nat \<Rightarrow> 'd rbnode option"

definition fld :: "'d heap \<Rightarrow> ptr \<Rightarrow> ('d rbnode \<Rightarrow> 'b) \<Rightarrow> 'b option" where
  "fld h p f = (case p of None \<Rightarrow> None | Some a \<Rightarrow> map_option f (h a))"

definition upd :: "'d heap \<Rightarrow> ptr \<Rightarrow> ('d rbnode \<Rightarrow> 'd rbnode) \<Rightarrow> 'd heap option" where
  "upd h p f = (case p of None \<Rightarrow> None | Some a \<Rightarrow> (case h a of None \<Rightarrow> None | Some n \<Rightarrow> Some (h(a \<mapsto> f n))))"

definition set_parent :: "'d heap \<Rightarrow> ptr \<Rightarrow> ptr \<Rightarrow> 'd heap option" where
  "set_parent h p q = upd h p (\<lambda>n. n\<lparr>parent := q\<rparr>)"

definition set_left :: "'d heap \<Rightarrow> ptr \<Rightarrow> ptr \<Rightarrow> 'd heap option" where
  "set_left h p q = upd h p (\<lambda>n. n\<lparr>left := q\<rparr>)"

definition set_right :: "'d heap \<Rightarrow> ptr \<Rightarrow> ptr \<Rightarrow> 'd heap option" where
  "set_right h p q = upd h p (\<lambda>n. n\<lparr>right := q\<rparr>)"

definition set_color :: "'d heap \<Rightarrow> ptr \<Rightarrow> bool \<Rightarrow> 'd heap option" where
  "set_color h p c = upd h p (\<lambda>n. n\<lparr>color := c\<rparr>)"

section \<open>\<^verbatim>\<open>TreeMapUtility\<close>\<close>

definition left_rotate :: "'d heap \<Rightarrow> ptr \<Rightarrow> ptr \<Rightarrow> ('d heap \<times> ptr) option" where
  "left_rotate h x root =
     do {
       y \<leftarrow> fld h x right;
       yl \<leftarrow> fld h y left;
       h \<leftarrow> set_right h x yl;
       h \<leftarrow> (if yl \<noteq> None then set_parent h yl x else Some h);
       xp \<leftarrow> fld h x parent;
       h \<leftarrow> set_parent h y xp;
       (h, root) \<leftarrow>
         (if xp = None then Some (h, y)
          else do {
            xpl \<leftarrow> fld h xp left;
            h \<leftarrow> (if x = xpl then set_left h xp y else set_right h xp y);
            Some (h, root)
          });
       h \<leftarrow> set_left h y x;
       h \<leftarrow> set_parent h x y;
       Some (h, root)
     }"

definition right_rotate :: "'d heap \<Rightarrow> ptr \<Rightarrow> ptr \<Rightarrow> ('d heap \<times> ptr) option" where
  "right_rotate h x root =
     do {
       y \<leftarrow> fld h x left;
       yr \<leftarrow> fld h y right;
       h \<leftarrow> set_left h x yr;
       h \<leftarrow> (if yr \<noteq> None then set_parent h yr x else Some h);
       xp \<leftarrow> fld h x parent;
       h \<leftarrow> set_parent h y xp;
       (h, root) \<leftarrow>
         (if xp = None then Some (h, y)
          else do {
            xpr \<leftarrow> fld h xp right;
            h \<leftarrow> (if x = xpr then set_right h xp y else set_left h xp y);
            Some (h, root)
          });
       h \<leftarrow> set_right h y x;
       h \<leftarrow> set_parent h x y;
       Some (h, root)
     }"

text \<open>
  \<^verbatim>\<open>fix_insert\<close>. The body of the loop for a parent that is a right child and for one that is a
  left child; the result is the new \<open>k\<close>.
\<close>

definition fix_insert_right :: "'d heap \<Rightarrow> ptr \<Rightarrow> ptr \<Rightarrow> ('d heap \<times> ptr \<times> ptr) option" where
  "fix_insert_right h k root =
     do {
       kp \<leftarrow> fld h k parent;
       kpp \<leftarrow> fld h kp parent;
       u \<leftarrow> fld h kpp left;
       uc \<leftarrow> (if u \<noteq> None then fld h u color else Some False);
       if u \<noteq> None \<and> uc then do {
         h \<leftarrow> set_color h u False;
         h \<leftarrow> set_color h kp False;
         h \<leftarrow> set_color h kpp True;
         Some (h, kpp, root)
       } else do {
         kpl \<leftarrow> fld h kp left;
         (h, k, root) \<leftarrow> (if k = kpl then do { (h, root) \<leftarrow> right_rotate h kp root; Some (h, kp, root) }
                          else Some (h, k, root));
         kp \<leftarrow> fld h k parent;
         h \<leftarrow> set_color h kp False;
         kpp \<leftarrow> fld h kp parent;
         h \<leftarrow> set_color h kpp True;
         (h, root) \<leftarrow> left_rotate h kpp root;
         Some (h, k, root)
       }
     }"

definition fix_insert_left :: "'d heap \<Rightarrow> ptr \<Rightarrow> ptr \<Rightarrow> ('d heap \<times> ptr \<times> ptr) option" where
  "fix_insert_left h k root =
     do {
       kp \<leftarrow> fld h k parent;
       kpp \<leftarrow> fld h kp parent;
       u \<leftarrow> fld h kpp right;
       uc \<leftarrow> (if u \<noteq> None then fld h u color else Some False);
       if u \<noteq> None \<and> uc then do {
         h \<leftarrow> set_color h u False;
         h \<leftarrow> set_color h kp False;
         h \<leftarrow> set_color h kpp True;
         Some (h, kpp, root)
       } else do {
         kpr \<leftarrow> fld h kp right;
         (h, k, root) \<leftarrow> (if k = kpr then do { (h, root) \<leftarrow> left_rotate h kp root; Some (h, kp, root) }
                          else Some (h, k, root));
         kp \<leftarrow> fld h k parent;
         h \<leftarrow> set_color h kp False;
         kpp \<leftarrow> fld h kp parent;
         h \<leftarrow> set_color h kpp True;
         (h, root) \<leftarrow> right_rotate h kpp root;
         Some (h, k, root)
       }
     }"

partial_function (option) fix_insert_loop :: "'d heap \<Rightarrow> ptr \<Rightarrow> ptr \<Rightarrow> ('d heap \<times> ptr) option" where
  "fix_insert_loop h k root =
     do {
       kp \<leftarrow> fld h k parent;
       c \<leftarrow> fld h kp color;
       if c then do {
         kpp \<leftarrow> fld h kp parent;
         kppr \<leftarrow> fld h kpp right;
         (h, k, root) \<leftarrow> (if kp = kppr then fix_insert_right h k root else fix_insert_left h k root);
         if k = root then Some (h, root) else fix_insert_loop h k root
       } else Some (h, root)
     }"

definition fix_insert :: "'d heap \<Rightarrow> ptr \<Rightarrow> ptr \<Rightarrow> ('d heap \<times> ptr) option" where
  "fix_insert h k root =
     do {
       (h, root) \<leftarrow> fix_insert_loop h k root;
       h \<leftarrow> set_color h root False;
       Some (h, root)
     }"

text \<open>
  \<^verbatim>\<open>_fix_delete\<close>. \<^verbatim>\<open>auto &&x_parent\<close> is a reference to \<^verbatim>\<open>x->parent\<close> or, for a null \<open>x\<close>, to
  \<^verbatim>\<open>t_null_parent\<close>; \<open>x_parent_of\<close> reads it. The bodies are split where the sibling is
  known to be black (cases 3.2 to 3.4) and where its far child is known to be red (case 3.4).
\<close>

definition x_parent_of :: "'d heap \<Rightarrow> ptr \<Rightarrow> ptr \<Rightarrow> ptr option" where
  "x_parent_of h x t_null_parent = (if x = None then Some t_null_parent else fld h x parent)"

definition is_black :: "'d heap \<Rightarrow> ptr \<Rightarrow> bool option" where
  "is_black h p = (if p = None then Some True else map_option Not (fld h p color))"

definition fix_delete_left_far :: "'d heap \<Rightarrow> ptr \<Rightarrow> ptr \<Rightarrow> ptr \<Rightarrow> ptr \<Rightarrow> ('d heap \<times> ptr \<times> ptr \<times> bool) option" where
  "fix_delete_left_far h x s root tnp =
     do {
       xp \<leftarrow> x_parent_of h x tnp;
       xpc \<leftarrow> fld h xp color;
       h \<leftarrow> set_color h s xpc;
       h \<leftarrow> set_color h xp False;
       sr \<leftarrow> fld h s right;
       h \<leftarrow> set_color h sr False;
       (h, root) \<leftarrow> left_rotate h xp root;
       Some (h, root, root, True)
     }"

definition fix_delete_left_black :: "'d heap \<Rightarrow> ptr \<Rightarrow> ptr \<Rightarrow> ptr \<Rightarrow> ptr \<Rightarrow> ('d heap \<times> ptr \<times> ptr \<times> bool) option" where
  "fix_delete_left_black h x s root tnp =
     do {
       sl \<leftarrow> fld h s left;
       left_null \<leftarrow> is_black h sl;
       sr \<leftarrow> fld h s right;
       right_null \<leftarrow> is_black h sr;
       if left_null \<and> right_null then do {
         h \<leftarrow> set_color h s True;
         xp \<leftarrow> x_parent_of h x tnp;
         Some (h, xp, root, False)
       } else do {
         (h, s, root) \<leftarrow>
           (if right_null then do {
              h \<leftarrow> set_color h sl False;
              h \<leftarrow> set_color h s True;
              (h, root) \<leftarrow> right_rotate h s root;
              xp \<leftarrow> x_parent_of h x tnp;
              s \<leftarrow> fld h xp right;
              Some (h, s, root)
            } else Some (h, s, root));
         fix_delete_left_far h x s root tnp
       }
     }"

definition fix_delete_left :: "'d heap \<Rightarrow> ptr \<Rightarrow> ptr \<Rightarrow> ptr \<Rightarrow> ('d heap \<times> ptr \<times> ptr \<times> bool) option" where
  "fix_delete_left h x root tnp =
     do {
       xp \<leftarrow> x_parent_of h x tnp;
       s \<leftarrow> fld h xp right;
       sc \<leftarrow> fld h s color;
       (h, s, root) \<leftarrow>
         (if sc then do {
            h \<leftarrow> set_color h s False;
            h \<leftarrow> set_color h xp True;
            (h, root) \<leftarrow> left_rotate h xp root;
            xp \<leftarrow> x_parent_of h x tnp;
            s \<leftarrow> fld h xp right;
            Some (h, s, root)
          } else Some (h, s, root));
       fix_delete_left_black h x s root tnp
     }"

definition fix_delete_right_far :: "'d heap \<Rightarrow> ptr \<Rightarrow> ptr \<Rightarrow> ptr \<Rightarrow> ptr \<Rightarrow> ('d heap \<times> ptr \<times> ptr \<times> bool) option" where
  "fix_delete_right_far h x s root tnp =
     do {
       xp \<leftarrow> x_parent_of h x tnp;
       xpc \<leftarrow> fld h xp color;
       h \<leftarrow> set_color h s xpc;
       h \<leftarrow> set_color h xp False;
       sl \<leftarrow> fld h s left;
       h \<leftarrow> set_color h sl False;
       (h, root) \<leftarrow> right_rotate h xp root;
       Some (h, root, root, True)
     }"

definition fix_delete_right_black :: "'d heap \<Rightarrow> ptr \<Rightarrow> ptr \<Rightarrow> ptr \<Rightarrow> ptr \<Rightarrow> ('d heap \<times> ptr \<times> ptr \<times> bool) option" where
  "fix_delete_right_black h x s root tnp =
     do {
       sl \<leftarrow> fld h s left;
       left_null \<leftarrow> is_black h sl;
       sr \<leftarrow> fld h s right;
       right_null \<leftarrow> is_black h sr;
       if left_null \<and> right_null then do {
         h \<leftarrow> set_color h s True;
         xp \<leftarrow> x_parent_of h x tnp;
         Some (h, xp, root, False)
       } else do {
         (h, s, root) \<leftarrow>
           (if left_null then do {
              h \<leftarrow> set_color h sr False;
              h \<leftarrow> set_color h s True;
              (h, root) \<leftarrow> left_rotate h s root;
              xp \<leftarrow> x_parent_of h x tnp;
              s \<leftarrow> fld h xp left;
              Some (h, s, root)
            } else Some (h, s, root));
         fix_delete_right_far h x s root tnp
       }
     }"

definition fix_delete_right :: "'d heap \<Rightarrow> ptr \<Rightarrow> ptr \<Rightarrow> ptr \<Rightarrow> ('d heap \<times> ptr \<times> ptr \<times> bool) option" where
  "fix_delete_right h x root tnp =
     do {
       xp \<leftarrow> x_parent_of h x tnp;
       s \<leftarrow> fld h xp left;
       sc \<leftarrow> fld h s color;
       (h, s, root) \<leftarrow>
         (if sc then do {
            h \<leftarrow> set_color h s False;
            h \<leftarrow> set_color h xp True;
            (h, root) \<leftarrow> right_rotate h xp root;
            xp \<leftarrow> x_parent_of h x tnp;
            s \<leftarrow> fld h xp left;
            Some (h, s, root)
          } else Some (h, s, root));
       fix_delete_right_black h x s root tnp
     }"

text \<open>The Boolean of a loop body is the \<^verbatim>\<open>break\<close>.\<close>

partial_function (option) fix_delete_loop :: "'d heap \<Rightarrow> ptr \<Rightarrow> ptr \<Rightarrow> ptr \<Rightarrow> ('d heap \<times> ptr \<times> ptr) option" where
  "fix_delete_loop h x root tnp =
     (if x = root then Some (h, x, root)
      else do {
        b \<leftarrow> is_black h x;
        if \<not> b then Some (h, x, root)
        else do {
          xp \<leftarrow> x_parent_of h x tnp;
          xpl \<leftarrow> fld h xp left;
          (h, x, root, brk) \<leftarrow>
            (if x = xpl then fix_delete_left h x root tnp else fix_delete_right h x root tnp);
          if brk then Some (h, x, root) else fix_delete_loop h x root tnp
        }
      })"

definition fix_delete :: "'d heap \<Rightarrow> ptr \<Rightarrow> ptr \<Rightarrow> ptr \<Rightarrow> ('d heap \<times> ptr) option" where
  "fix_delete h x root tnp =
     do {
       (h, x, root) \<leftarrow> fix_delete_loop h x root tnp;
       h \<leftarrow> (if x \<noteq> None then set_color h x False else Some h);
       Some (h, root)
     }"

partial_function (option) minimum :: "'d heap \<Rightarrow> ptr \<Rightarrow> ptr option" where
  "minimum h node = do { l \<leftarrow> fld h node left; if l \<noteq> None then minimum h l else Some node }"

definition rb_transplant :: "'d heap \<Rightarrow> ptr \<Rightarrow> ptr \<Rightarrow> ptr \<Rightarrow> ptr \<Rightarrow> ('d heap \<times> ptr \<times> ptr) option" where
  "rb_transplant h u v root tnp =
     do {
       up \<leftarrow> fld h u parent;
       (h, root) \<leftarrow>
         (if up = None then Some (h, v)
          else do {
            upl \<leftarrow> fld h up left;
            h \<leftarrow> (if u = upl then set_left h up v else set_right h up v);
            Some (h, root)
          });
       up \<leftarrow> fld h u parent;
       if v = None then Some (h, root, up)
       else do { h \<leftarrow> set_parent h v up; Some (h, root, tnp) }
     }"

text \<open>
  \<^verbatim>\<open>delete_one_node\<close>: the branch in which \<open>z\<close> has two children and its in-order successor \<open>y\<close> takes
  its place, then the whole splicing. The results are the heap, the root, \<^verbatim>\<open>t_null_parent\<close>, \<open>x\<close> and
  \<^verbatim>\<open>y_original_color\<close>.
\<close>

definition splice_min :: "'d heap \<Rightarrow> ptr \<Rightarrow> ptr \<Rightarrow> ptr \<Rightarrow> ('d heap \<times> ptr \<times> ptr \<times> ptr \<times> bool) option" where
  "splice_min h z zr root =
     do {
       y \<leftarrow> minimum h zr;
       yc \<leftarrow> fld h y color;
       x \<leftarrow> fld h y right;
       yp \<leftarrow> fld h y parent;
       (h, root, tnp) \<leftarrow>
         (if yp = z then
            (if x \<noteq> None then do { h \<leftarrow> set_parent h x y; Some (h, root, None) } else Some (h, root, y))
          else do {
            (h, root, tnp) \<leftarrow> rb_transplant h y x root None;
            zr \<leftarrow> fld h z right;
            h \<leftarrow> set_right h y zr;
            yr \<leftarrow> fld h y right;
            h \<leftarrow> set_parent h yr y;
            Some (h, root, tnp)
          });
       (h, root, tnp) \<leftarrow> rb_transplant h z y root tnp;
       zl \<leftarrow> fld h z left;
       h \<leftarrow> set_left h y zl;
       yl \<leftarrow> fld h y left;
       h \<leftarrow> set_parent h yl y;
       zc \<leftarrow> fld h z color;
       h \<leftarrow> set_color h y zc;
       Some (h, root, tnp, x, yc)
     }"

definition splice_out :: "'d heap \<Rightarrow> ptr \<Rightarrow> ptr \<Rightarrow> ('d heap \<times> ptr \<times> ptr \<times> ptr \<times> bool) option" where
  "splice_out h z root =
     do {
       zc \<leftarrow> fld h z color;
       zl \<leftarrow> fld h z left;
       zr \<leftarrow> fld h z right;
       if zl = None then do {
         (h, root, tnp) \<leftarrow> rb_transplant h z zr root None;
         Some (h, root, tnp, zr, zc)
       } else if zr = None then do {
         (h, root, tnp) \<leftarrow> rb_transplant h z zl root None;
         Some (h, root, tnp, zl, zc)
       } else splice_min h z zr root
     }"

definition delete_one_node :: "'d heap \<Rightarrow> ptr \<Rightarrow> ptr \<Rightarrow> ('d heap \<times> ptr) option" where
  "delete_one_node h z root =
     do {
       (h, root, tnp, x, y_original_color) \<leftarrow> splice_out h z root;
       if \<not> y_original_color then fix_delete h x root tnp else Some (h, root)
     }"

end
