(* ===== verification/Rb_Rep.thy ===== *)
theory Rb_Rep
  imports Rb_Heap
begin

text \<open>
  What the heap of \<open>Rb_Heap\<close> represents. A tree carries the address, the colour and the payload of
  each node; a path is the way from a subtree up to the root, innermost frame first. \<open>rep\<close> and
  \<open>repp\<close> say that the nodes of a tree and of a path are in the heap with exactly the links the
  shape demands, parent pointers included. The pointer operations are then characterised by what
  they do to a subtree in its path, with everything else unchanged.
\<close>

section \<open>Trees and paths\<close>

datatype 'd rt = Lf | Nd "'d rt" nat bool 'd "'d rt"

datatype 'd frame = InL nat bool 'd "'d rt" | InR "'d rt" nat bool 'd

type_synonym 'd path = "'d frame list"

fun pt :: "'d rt \<Rightarrow> ptr" where
  "pt Lf = None"
| "pt (Nd l a c d r) = Some a"

fun addrs :: "'d rt \<Rightarrow> nat list" where
  "addrs Lf = []"
| "addrs (Nd l a c d r) = addrs l @ a # addrs r"

fun items :: "'d rt \<Rightarrow> (nat \<times> 'd) list" where
  "items Lf = []"
| "items (Nd l a c d r) = items l @ (a, d) # items r"

fun red :: "'d rt \<Rightarrow> bool" where
  "red Lf = False"
| "red (Nd l a c d r) = c"

fun fad :: "'d frame \<Rightarrow> nat" where
  "fad (InL a c d r) = a"
| "fad (InR l a c d) = a"

fun fcol :: "'d frame \<Rightarrow> bool" where
  "fcol (InL a c d r) = c"
| "fcol (InR l a c d) = c"

fun ppar :: "'d path \<Rightarrow> ptr" where
  "ppar [] = None"
| "ppar (f # p) = Some (fad f)"

fun pred_col :: "'d path \<Rightarrow> bool" where
  "pred_col [] = False"
| "pred_col (f # p) = fcol f"

fun faddrs :: "'d frame \<Rightarrow> nat list" where
  "faddrs (InL a c d r) = a # addrs r"
| "faddrs (InR l a c d) = a # addrs l"

fun paddrs :: "'d path \<Rightarrow> nat list" where
  "paddrs [] = []"
| "paddrs (f # p) = faddrs f @ paddrs p"

fun plug :: "'d rt \<Rightarrow> 'd path \<Rightarrow> 'd rt" where
  "plug t [] = t"
| "plug t (InL a c d r # p) = plug (Nd t a c d r) p"
| "plug t (InR l a c d # p) = plug (Nd l a c d t) p"

definition rootp :: "ptr \<Rightarrow> 'd path \<Rightarrow> ptr" where
  "rootp q p = (if p = [] then q else Some (fad (last p)))"

lemma rootp_simps [simp]:
  "rootp q [] = q" "rootp q (f # p) = rootp (Some (fad f)) p"
  by (auto simp: rootp_def)

lemma map_fst_items [simp]: "map fst (items t) = addrs t"
  by (induction t) auto

lemma pt_plug: "pt (plug t p) = rootp (pt t) p"
  by (induction t p rule: plug.induct) auto

lemma pt_None [simp]: "pt t = None \<longleftrightarrow> t = Lf"
  by (cases t) auto

lemma plug_Lf: "plug t p = Lf \<longleftrightarrow> t = Lf \<and> p = []"
  by (induction t p rule: plug.induct) auto

lemma pt_Some_in: "pt t = Some a \<Longrightarrow> a \<in> set (addrs t)"
  by (cases t) auto

fun pleft :: "'d path \<Rightarrow> (nat \<times> 'd) list" where
  "pleft [] = []"
| "pleft (InL a c d r # p) = pleft p"
| "pleft (InR l a c d # p) = pleft p @ items l @ [(a, d)]"

fun pright :: "'d path \<Rightarrow> (nat \<times> 'd) list" where
  "pright [] = []"
| "pright (InL a c d r # p) = (a, d) # items r @ pright p"
| "pright (InR l a c d # p) = pright p"

lemma items_plug: "items (plug t p) = pleft p @ items t @ pright p"
  by (induction t p rule: plug.induct) auto

lemma set_addrs_plug: "set (addrs (plug t p)) = set (addrs t) \<union> set (paddrs p)"
  by (induction t p rule: plug.induct) auto

lemma distinct_plug:
  "distinct (addrs (plug t p)) \<longleftrightarrow>
     distinct (addrs t) \<and> distinct (paddrs p) \<and> set (addrs t) \<inter> set (paddrs p) = {}"
  by (induction t p rule: plug.induct) auto

section \<open>Representation\<close>

fun rep :: "'d heap \<Rightarrow> ptr \<Rightarrow> 'd rt \<Rightarrow> bool" where
  "rep h q Lf = True"
| "rep h q (Nd l a c d r) \<longleftrightarrow>
     h a = Some \<lparr>parent = q, left = pt l, right = pt r, color = c, payload = d\<rparr> \<and>
     rep h (Some a) l \<and> rep h (Some a) r"

fun repp :: "'d heap \<Rightarrow> ptr \<Rightarrow> 'd path \<Rightarrow> bool" where
  "repp h q [] = True"
| "repp h q (InL a c d r # p) \<longleftrightarrow>
     h a = Some \<lparr>parent = ppar p, left = q, right = pt r, color = c, payload = d\<rparr> \<and>
     rep h (Some a) r \<and> repp h (Some a) p"
| "repp h q (InR l a c d # p) \<longleftrightarrow>
     h a = Some \<lparr>parent = ppar p, left = pt l, right = q, color = c, payload = d\<rparr> \<and>
     rep h (Some a) l \<and> repp h (Some a) p"

definition zip_rep :: "'d heap \<Rightarrow> 'd rt \<Rightarrow> 'd path \<Rightarrow> bool" where
  "zip_rep h t p \<longleftrightarrow> rep h (ppar p) t \<and> repp h (pt t) p \<and> distinct (addrs (plug t p))"

lemma rep_upd [simp]: "z \<notin> set (addrs t) \<Longrightarrow> rep (h(z := v)) q t = rep h q t"
  by (induction t arbitrary: q) auto

lemma repp_upd [simp]: "z \<notin> set (paddrs p) \<Longrightarrow> repp (h(z := v)) q p = repp h q p"
  by (induction h q p rule: repp.induct) auto

lemma rep_cong: "(\<And>a. a \<in> set (addrs t) \<Longrightarrow> h' a = h a) \<Longrightarrow> rep h' q t = rep h q t"
  by (induction t arbitrary: q) auto

lemma repp_cong: "(\<And>a. a \<in> set (paddrs p) \<Longrightarrow> h' a = h a) \<Longrightarrow> repp h' q p = repp h q p"
  by (induction h q p rule: repp.induct) (auto cong: rep_cong)

lemma rep_plug: "rep h None (plug t p) \<longleftrightarrow> rep h (ppar p) t \<and> repp h (pt t) p"
  by (induction t p rule: plug.induct) auto

lemma zip_rep_plug: "zip_rep h t p \<longleftrightarrow> rep h None (plug t p) \<and> distinct (addrs (plug t p))"
  by (simp add: zip_rep_def rep_plug)

text \<open>Nothing outside a tree changes.\<close>

definition same_out :: "'d rt \<Rightarrow> 'd heap \<Rightarrow> 'd heap \<Rightarrow> bool" where
  "same_out t h h' \<longleftrightarrow> (\<forall>z. z \<notin> set (addrs t) \<longrightarrow> h' z = h z)"

lemma same_out_trans:
  "same_out t h h' \<Longrightarrow> same_out t' h' h'' \<Longrightarrow> set (addrs t') = set (addrs t) \<Longrightarrow> same_out t h h''"
  by (simp add: same_out_def)

lemma same_out_refl [simp]: "same_out t h h"
  by (simp add: same_out_def)

lemma fld_Some [simp]: "h a = Some n \<Longrightarrow> fld h (Some a) f = Some (f n)"
  by (simp add: fld_def)

lemma upd_Some [simp]: "h a = Some n \<Longrightarrow> upd h (Some a) f = Some (h(a \<mapsto> f n))"
  by (simp add: upd_def)

lemmas setters = set_parent_def set_left_def set_right_def set_color_def

section \<open>Rotations\<close>

lemma left_rotate_rep:
  assumes "zip_rep h (Nd l x cx dx (Nd m y cy dy r)) p"
  shows "\<exists>h'. left_rotate h (Some x) (rootp (Some x) p) = Some (h', rootp (Some y) p) \<and>
     zip_rep h' (Nd (Nd l x cx dx m) y cy dy r) p \<and>
     same_out (plug (Nd l x cx dx (Nd m y cy dy r)) p) h h'"
proof (cases p)
  case Nil
  then show ?thesis
    using assms by (cases m) (auto simp: zip_rep_def left_rotate_def setters same_out_def)
next
  case (Cons f q)
  show ?thesis
  proof (cases f)
    case (InL a c d t)
    then show ?thesis
      using assms Cons by (cases m) (auto simp: zip_rep_def left_rotate_def setters same_out_def distinct_plug set_addrs_plug)
  next
    case (InR t a c d)
    then show ?thesis
      using assms Cons
      by (cases m; cases t) (auto simp: zip_rep_def left_rotate_def setters same_out_def distinct_plug set_addrs_plug)
  qed
qed


lemma right_rotate_rep:
  assumes "zip_rep h (Nd (Nd l y cy dy m) x cx dx r) p"
  shows "\<exists>h'. right_rotate h (Some x) (rootp (Some x) p) = Some (h', rootp (Some y) p) \<and>
     zip_rep h' (Nd l y cy dy (Nd m x cx dx r)) p \<and>
     same_out (plug (Nd (Nd l y cy dy m) x cx dx r) p) h h'"
proof (cases p)
  case Nil
  then show ?thesis
    using assms by (cases m) (auto simp: zip_rep_def right_rotate_def setters same_out_def)
next
  case (Cons f q)
  show ?thesis
  proof (cases f)
    case (InR t a c d)
    then show ?thesis
      using assms Cons by (cases m) (auto simp: zip_rep_def right_rotate_def setters same_out_def distinct_plug set_addrs_plug)
  next
    case (InL a c d t)
    then show ?thesis
      using assms Cons
      by (cases m; cases t) (auto simp: zip_rep_def right_rotate_def setters same_out_def distinct_plug set_addrs_plug)
  qed
qed

section \<open>The body of \<^verbatim>\<open>fix_insert\<close>\<close>

fun blacken :: "'d frame \<Rightarrow> 'd frame" where
  "blacken (InL a c d r) = InL a False d r"
| "blacken (InR l a c d) = InR l a False d"

lemma fix_insert_right_red_uncle:
  assumes "zip_rep h t (f # InR (Nd ul u True ud ur) g cg dg # p)" "t \<noteq> Lf"
  shows "\<exists>h'. fix_insert_right h (pt t) root = Some (h', Some g, root) \<and>
     zip_rep h' (plug t [blacken f, InR (Nd ul u False ud ur) g True dg]) p \<and>
     same_out (plug t (f # InR (Nd ul u True ud ur) g cg dg # p)) h h'"
  using assms
  by (cases t; cases f) (auto simp: zip_rep_def fix_insert_right_def setters same_out_def distinct_plug set_addrs_plug)

lemma fix_insert_left_red_uncle:
  assumes "zip_rep h t (f # InL g cg dg (Nd ul u True ud ur) # p)" "t \<noteq> Lf"
  shows "\<exists>h'. fix_insert_left h (pt t) root = Some (h', Some g, root) \<and>
     zip_rep h' (plug t [blacken f, InL g True dg (Nd ul u False ud ur)]) p \<and>
     same_out (plug t (f # InL g cg dg (Nd ul u True ud ur) # p)) h h'"
  using assms
  by (cases t; cases f) (auto simp: zip_rep_def fix_insert_left_def setters same_out_def distinct_plug set_addrs_plug)

text \<open>Recolouring two nodes and rotating at the upper one, the end of both bodies.\<close>

lemma recolor_rotate_left:
  assumes "zip_rep h t (InR s q cq dq # InR u g cg dg # p)"
  shows "\<exists>h1 h2 h'. set_color h (Some q) False = Some h1 \<and> fld h1 (Some q) parent = Some (Some g) \<and>
     set_color h1 (Some g) True = Some h2 \<and>
     left_rotate h2 (Some g) (rootp (Some g) p) = Some (h', rootp (Some q) p) \<and>
     zip_rep h' (Nd (Nd u g True dg s) q False dq t) p \<and>
     same_out (plug t (InR s q cq dq # InR u g cg dg # p)) h h'"
proof -
  obtain h1 h2 where h: "set_color h (Some q) False = Some h1" "fld h1 (Some q) parent = Some (Some g)"
    "set_color h1 (Some g) True = Some h2" "zip_rep h2 (Nd u g True dg (Nd s q False dq t)) p"
    "same_out (plug t (InR s q cq dq # InR u g cg dg # p)) h h2"
    using assms by (auto simp: zip_rep_def setters same_out_def distinct_plug set_addrs_plug)
  obtain h' where h': "left_rotate h2 (Some g) (rootp (Some g) p) = Some (h', rootp (Some q) p)"
    "zip_rep h' (Nd (Nd u g True dg s) q False dq t) p" "same_out (plug (Nd u g True dg (Nd s q False dq t)) p) h2 h'"
    using left_rotate_rep [OF h(4)] by blast
  show ?thesis
    using h h' same_out_trans [OF h(5) h'(3)] by (auto simp: set_addrs_plug)
qed

lemma recolor_rotate_right:
  assumes "zip_rep h t (InL q cq dq s # InL g cg dg u # p)"
  shows "\<exists>h1 h2 h'. set_color h (Some q) False = Some h1 \<and> fld h1 (Some q) parent = Some (Some g) \<and>
     set_color h1 (Some g) True = Some h2 \<and>
     right_rotate h2 (Some g) (rootp (Some g) p) = Some (h', rootp (Some q) p) \<and>
     zip_rep h' (Nd t q False dq (Nd s g True dg u)) p \<and>
     same_out (plug t (InL q cq dq s # InL g cg dg u # p)) h h'"
proof -
  obtain h1 h2 where h: "set_color h (Some q) False = Some h1" "fld h1 (Some q) parent = Some (Some g)"
    "set_color h1 (Some g) True = Some h2" "zip_rep h2 (Nd (Nd t q False dq s) g True dg u) p"
    "same_out (plug t (InL q cq dq s # InL g cg dg u # p)) h h2"
    using assms by (auto simp: zip_rep_def setters same_out_def distinct_plug set_addrs_plug)
  obtain h' where h': "right_rotate h2 (Some g) (rootp (Some g) p) = Some (h', rootp (Some q) p)"
    "zip_rep h' (Nd t q False dq (Nd s g True dg u)) p" "same_out (plug (Nd (Nd t q False dq s) g True dg u) p) h2 h'"
    using right_rotate_rep [OF h(4)] by blast
  show ?thesis
    using h h' same_out_trans [OF h(5) h'(3)] by (auto simp: set_addrs_plug)
qed

section \<open>Colours and black heights\<close>

fun bh :: "'d rt \<Rightarrow> nat" where
  "bh Lf = 0"
| "bh (Nd l a c d r) = (if c then bh l else bh l + 1)"

fun invc :: "'d rt \<Rightarrow> bool" where
  "invc Lf = True"
| "invc (Nd l a c d r) \<longleftrightarrow> (c \<longrightarrow> \<not> red l \<and> \<not> red r) \<and> invc l \<and> invc r"

fun invh :: "'d rt \<Rightarrow> bool" where
  "invh Lf = True"
| "invh (Nd l a c d r) \<longleftrightarrow> bh l = bh r \<and> invh l \<and> invh r"

definition rbt :: "'d rt \<Rightarrow> bool" where
  "rbt t \<longleftrightarrow> invc t \<and> invh t \<and> \<not> red t"

text \<open>A path into which a subtree of black height \<open>n\<close> fits.\<close>

fun fits_path :: "nat \<Rightarrow> 'd path \<Rightarrow> bool" where
  "fits_path n [] = True"
| "fits_path n (InL a c d r # p) \<longleftrightarrow>
     bh r = n \<and> invc r \<and> invh r \<and> (c \<longrightarrow> \<not> red r \<and> \<not> pred_col p) \<and> fits_path (if c then n else n + 1) p"
| "fits_path n (InR l a c d # p) \<longleftrightarrow>
     bh l = n \<and> invc l \<and> invh l \<and> (c \<longrightarrow> \<not> red l \<and> \<not> pred_col p) \<and> fits_path (if c then n else n + 1) p"

lemma plug_inv:
  assumes "fits_path (bh t) p" "invh t" "invc t" "red t \<longrightarrow> \<not> pred_col p"
  shows "invc (plug t p) \<and> invh (plug t p)"
  using assms
proof (induction p arbitrary: t)
  case (Cons f p)
  show ?case
  proof (cases f)
    case (InL a c d r) then show ?thesis using Cons.prems Cons.IH [of "Nd t a c d r"] by (auto split: if_splits)
  next
    case (InR l a c d) then show ?thesis using Cons.prems Cons.IH [of "Nd l a c d t"] by (auto split: if_splits)
  qed
qed simp

lemma plug_invD:
  assumes "invc (plug t p)" "invh (plug t p)"
  shows "fits_path (bh t) p \<and> invh t \<and> invc t \<and> (red t \<longrightarrow> \<not> pred_col p)"
  using assms
proof (induction p arbitrary: t)
  case (Cons f p)
  show ?case
  proof (cases f)
    case (InL a c d r) then show ?thesis using Cons.prems Cons.IH [of "Nd t a c d r"] by (auto split: if_splits)
  next
    case (InR l a c d) then show ?thesis using Cons.prems Cons.IH [of "Nd l a c d t"] by (auto split: if_splits)
  qed
qed simp

lemma red_plug: "red (plug t p) = (if p = [] then red t else fcol (last p))"
  by (induction t p rule: plug.induct) auto

fun paint :: "bool \<Rightarrow> 'd rt \<Rightarrow> 'd rt" where
  "paint c Lf = Lf"
| "paint c (Nd l a _ d r) = Nd l a c d r"

lemma paint_simps [simp]:
  "items (paint c t) = items t" "addrs (paint c t) = addrs t" "pt (paint c t) = pt t" "\<not> red (paint False t)"
  "invh (paint c t) = invh t"
  by (cases t; simp)+

lemma paint_invc: "invc t \<Longrightarrow> invc (paint False t)"
  by (cases t) auto

lemma set_color_root:
  assumes "rep h None t" "distinct (addrs t)" "t \<noteq> Lf"
  shows "\<exists>h'. set_color h (pt t) c = Some h' \<and> rep h' None (paint c t) \<and> same_out t h h'"
  using assms by (cases t) (auto simp: setters same_out_def)

end
