(* ===== verification/Rb_Insert.thy ===== *)
theory Rb_Insert
  imports Rb_Rep
begin

text \<open>
  Insertion into the red-black trees: the loop of \<^verbatim>\<open>fix_insert\<close> ends, keeps the in-order sequence
  of nodes and restores the colour and height invariants.
\<close>

section \<open>Black uncle\<close>

lemma zip_rep_parent:
  assumes "zip_rep h t (f # p)" "t \<noteq> Lf"
  shows "fld h (pt t) parent = Some (Some (fad f))" "fld h (Some (fad f)) color = Some (fcol f)"
    "fld h (Some (fad f)) parent = Some (ppar p)"
  using assms by (cases t; cases f; simp add: zip_rep_def)+

lemma fix_insert_right_outer:
  assumes z: "zip_rep h t (InR s q cq dq # InR u g cg dg # p)" and t: "t \<noteq> Lf" and u: "\<not> red u"
  shows "\<exists>h'. fix_insert_right h (pt t) (rootp (Some g) p) = Some (h', pt t, rootp (Some q) p) \<and>
     zip_rep h' (Nd (Nd u g True dg s) q False dq t) p \<and>
     same_out (plug t (InR s q cq dq # InR u g cg dg # p)) h h'"
proof -
  have pre: "fld h (pt t) parent = Some (Some q)" "fld h (Some q) parent = Some (Some g)"
    "fld h (Some g) left = Some (pt u)" "pt u \<noteq> None \<longrightarrow> fld h (pt u) color = Some False"
    "fld h (Some q) left = Some (pt s)"
    using zip_rep_parent [OF z t] z u by (auto simp: zip_rep_def) (cases u; simp)
  have ne: "pt t \<noteq> pt s" using z t by (cases t; cases s) (auto simp: zip_rep_def distinct_plug)
  obtain h1 h2 h' where h: "set_color h (Some q) False = Some h1" "fld h1 (Some q) parent = Some (Some g)"
    "set_color h1 (Some g) True = Some h2"
    "left_rotate h2 (Some g) (rootp (Some g) p) = Some (h', rootp (Some q) p)"
    "zip_rep h' (Nd (Nd u g True dg s) q False dq t) p"
    "same_out (plug t (InR s q cq dq # InR u g cg dg # p)) h h'"
    using recolor_rotate_left [OF z] by blast
  show ?thesis
  proof (intro exI conjI)
    show "fix_insert_right h (pt t) (rootp (Some g) p) = Some (h', pt t, rootp (Some q) p)"
      unfolding fix_insert_right_def using pre ne h(1-4) by (cases "pt u") simp_all
  qed (use h in auto)
qed

lemma fix_insert_left_outer:
  assumes z: "zip_rep h t (InL q cq dq s # InL g cg dg u # p)" and t: "t \<noteq> Lf" and u: "\<not> red u"
  shows "\<exists>h'. fix_insert_left h (pt t) (rootp (Some g) p) = Some (h', pt t, rootp (Some q) p) \<and>
     zip_rep h' (Nd t q False dq (Nd s g True dg u)) p \<and>
     same_out (plug t (InL q cq dq s # InL g cg dg u # p)) h h'"
proof -
  have pre: "fld h (pt t) parent = Some (Some q)" "fld h (Some q) parent = Some (Some g)"
    "fld h (Some g) right = Some (pt u)" "pt u \<noteq> None \<longrightarrow> fld h (pt u) color = Some False"
    "fld h (Some q) right = Some (pt s)"
    using zip_rep_parent [OF z t] z u by (auto simp: zip_rep_def) (cases u; simp)
  have ne: "pt t \<noteq> pt s" using z t by (cases t; cases s) (auto simp: zip_rep_def distinct_plug)
  obtain h1 h2 h' where h: "set_color h (Some q) False = Some h1" "fld h1 (Some q) parent = Some (Some g)"
    "set_color h1 (Some g) True = Some h2"
    "right_rotate h2 (Some g) (rootp (Some g) p) = Some (h', rootp (Some q) p)"
    "zip_rep h' (Nd t q False dq (Nd s g True dg u)) p"
    "same_out (plug t (InL q cq dq s # InL g cg dg u # p)) h h'"
    using recolor_rotate_right [OF z] by blast
  show ?thesis
  proof (intro exI conjI)
    show "fix_insert_left h (pt t) (rootp (Some g) p) = Some (h', pt t, rootp (Some q) p)"
      unfolding fix_insert_left_def using pre ne h(1-4) by (cases "pt u") simp_all
  qed (use h in auto)
qed

lemma fix_insert_right_inner:
  assumes z: "zip_rep h (Nd l k ck dk r) (InL q cq dq s # InR u g cg dg # p)" and u: "\<not> red u"
  shows "\<exists>h'. fix_insert_right h (Some k) (rootp (Some g) p) = Some (h', Some q, rootp (Some k) p) \<and>
     zip_rep h' (Nd (Nd u g True dg l) k False dk (Nd r q cq dq s)) p \<and>
     same_out (plug (Nd l k ck dk r) (InL q cq dq s # InR u g cg dg # p)) h h'"
proof -
  have pre: "fld h (Some k) parent = Some (Some q)" "fld h (Some q) parent = Some (Some g)"
    "fld h (Some g) left = Some (pt u)" "pt u \<noteq> None \<longrightarrow> fld h (pt u) color = Some False"
    "fld h (Some q) left = Some (Some k)"
    using z u by (auto simp: zip_rep_def) (cases u; simp)
  have z': "zip_rep h (Nd (Nd l k ck dk r) q cq dq s) (InR u g cg dg # p)" using z by (simp add: zip_rep_plug)
  obtain h0 where h0: "right_rotate h (Some q) (rootp (Some g) p) = Some (h0, rootp (Some g) p)"
    "zip_rep h0 (Nd l k ck dk (Nd r q cq dq s)) (InR u g cg dg # p)"
    "same_out (plug (Nd (Nd l k ck dk r) q cq dq s) (InR u g cg dg # p)) h h0"
    using right_rotate_rep [OF z'] by auto
  have z0: "zip_rep h0 (Nd r q cq dq s) (InR l k ck dk # InR u g cg dg # p)" using h0(2) by (simp add: zip_rep_plug)
  have pre0: "fld h0 (Some q) parent = Some (Some k)" using zip_rep_parent(1) [OF z0] by simp
  obtain h1 h2 h' where h: "set_color h0 (Some k) False = Some h1" "fld h1 (Some k) parent = Some (Some g)"
    "set_color h1 (Some g) True = Some h2"
    "left_rotate h2 (Some g) (rootp (Some g) p) = Some (h', rootp (Some k) p)"
    "zip_rep h' (Nd (Nd u g True dg l) k False dk (Nd r q cq dq s)) p"
    "same_out (plug (Nd r q cq dq s) (InR l k ck dk # InR u g cg dg # p)) h0 h'"
    using recolor_rotate_left [OF z0] by blast
  show ?thesis
  proof (intro exI conjI)
    show "fix_insert_right h (Some k) (rootp (Some g) p) = Some (h', Some q, rootp (Some k) p)"
      unfolding fix_insert_right_def using pre pre0 h0(1) h(1-4) by (cases "pt u") simp_all
    show "same_out (plug (Nd l k ck dk r) (InL q cq dq s # InR u g cg dg # p)) h h'"
      using same_out_trans [OF h0(3) h(6)] by (auto simp: set_addrs_plug)
  qed (use h in auto)
qed

lemma fix_insert_left_inner:
  assumes z: "zip_rep h (Nd l k ck dk r) (InR s q cq dq # InL g cg dg u # p)" and u: "\<not> red u"
  shows "\<exists>h'. fix_insert_left h (Some k) (rootp (Some g) p) = Some (h', Some q, rootp (Some k) p) \<and>
     zip_rep h' (Nd (Nd s q cq dq l) k False dk (Nd r g True dg u)) p \<and>
     same_out (plug (Nd l k ck dk r) (InR s q cq dq # InL g cg dg u # p)) h h'"
proof -
  have pre: "fld h (Some k) parent = Some (Some q)" "fld h (Some q) parent = Some (Some g)"
    "fld h (Some g) right = Some (pt u)" "pt u \<noteq> None \<longrightarrow> fld h (pt u) color = Some False"
    "fld h (Some q) right = Some (Some k)"
    using z u by (auto simp: zip_rep_def) (cases u; simp)
  have z': "zip_rep h (Nd s q cq dq (Nd l k ck dk r)) (InL g cg dg u # p)" using z by (simp add: zip_rep_plug)
  obtain h0 where h0: "left_rotate h (Some q) (rootp (Some g) p) = Some (h0, rootp (Some g) p)"
    "zip_rep h0 (Nd (Nd s q cq dq l) k ck dk r) (InL g cg dg u # p)"
    "same_out (plug (Nd s q cq dq (Nd l k ck dk r)) (InL g cg dg u # p)) h h0"
    using left_rotate_rep [OF z'] by auto
  have z0: "zip_rep h0 (Nd s q cq dq l) (InL k ck dk r # InL g cg dg u # p)" using h0(2) by (simp add: zip_rep_plug)
  have pre0: "fld h0 (Some q) parent = Some (Some k)" using zip_rep_parent(1) [OF z0] by simp
  obtain h1 h2 h' where h: "set_color h0 (Some k) False = Some h1" "fld h1 (Some k) parent = Some (Some g)"
    "set_color h1 (Some g) True = Some h2"
    "right_rotate h2 (Some g) (rootp (Some g) p) = Some (h', rootp (Some k) p)"
    "zip_rep h' (Nd (Nd s q cq dq l) k False dk (Nd r g True dg u)) p"
    "same_out (plug (Nd s q cq dq l) (InL k ck dk r # InL g cg dg u # p)) h0 h'"
    using recolor_rotate_right [OF z0] by blast
  show ?thesis
  proof (intro exI conjI)
    show "fix_insert_left h (Some k) (rootp (Some g) p) = Some (h', Some q, rootp (Some k) p)"
      unfolding fix_insert_left_def using pre pre0 h0(1) h(1-4) by (cases "pt u") simp_all
    show "same_out (plug (Nd l k ck dk r) (InR s q cq dq # InL g cg dg u # p)) h h'"
      using same_out_trans [OF h0(3) h(6)] by (auto simp: set_addrs_plug)
  qed (use h in auto)
qed

lemma fad_in: "f \<in> set p \<Longrightarrow> fad f \<in> set (paddrs p)"
proof (induction p)
  case (Cons g p)
  have "fad g \<in> set (faddrs g)" by (cases g) auto
  then show ?case using Cons by auto
qed simp

lemma rootp_in: "p \<noteq> [] \<Longrightarrow> rootp q p \<in> Some ` set (paddrs p)"
  using fad_in [of "last p" p] by (simp add: rootp_def)

lemma zip_not_root:
  assumes "zip_rep h t (f # p)" "t \<noteq> Lf"
  shows "pt t \<noteq> rootp (Some (fad f)) p"
proof -
  obtain a where a: "pt t = Some a" "a \<in> set (addrs t)" using assms(2) by (cases t) auto
  have "rootp q (f # p) \<in> Some ` set (paddrs (f # p))" for q by (rule rootp_in) simp
  then have "rootp (Some (fad f)) p \<in> Some ` set (paddrs (f # p))" by simp
  moreover have "set (addrs t) \<inter> set (paddrs (f # p)) = {}" using assms(1) by (simp add: zip_rep_def distinct_plug)
  ultimately show ?thesis using a by auto
qed

section \<open>The loop\<close>

text \<open>
  The state of the loop: a red subtree whose own children are black, in a path in which only the
  pair of this subtree and its parent may both be red; the root is black.
\<close>

definition ins_state :: "'d heap \<Rightarrow> 'd rt \<Rightarrow> 'd path \<Rightarrow> bool" where
  "ins_state h t p \<longleftrightarrow>
     zip_rep h t p \<and> red t \<and> invc t \<and> invh t \<and> fits_path (bh t) p \<and> p \<noteq> [] \<and> \<not> fcol (last p)"

text \<open>What one iteration of the loop gives: it is done, or it continues two levels up.\<close>

lemma ins_step_right:
  assumes "zip_rep h t (f # InR u g False dg # p)" "red t" "invc t" "invh t" "fcol f"
    and fit: "fits_path (bh t) (f # InR u g False dg # p)"
  shows "\<exists>h' t' k. fix_insert_right h (pt t) (rootp (Some g) p) = Some (h', k, rootp (pt t') p) \<and>
     zip_rep h' t' p \<and> same_out (plug t (f # InR u g False dg # p)) h h' \<and>
     items (plug t' p) = items (plug t (f # InR u g False dg # p)) \<and>
     invc t' \<and> invh t' \<and> fits_path (bh t') p \<and>
     (k = pt t' \<and> red t' \<or> \<not> red t' \<and> k \<noteq> None \<and> k \<noteq> rootp (pt t') p \<and>
      (\<exists>q. fld h' k parent = Some q \<and> fld h' q color = Some False))"
proof (cases "red u")
  case True
  then obtain ul ua ud ur where u: "u = Nd ul ua True ud ur" by (cases u) auto
  have t: "t \<noteq> Lf" using assms(2) by auto
  obtain h' where h': "fix_insert_right h (pt t) (rootp (Some g) p) = Some (h', Some g, rootp (Some g) p)"
     "zip_rep h' (plug t [blacken f, InR (Nd ul ua False ud ur) g True dg]) p"
     "same_out (plug t (f # InR (Nd ul ua True ud ur) g False dg # p)) h h'"
    using fix_insert_right_red_uncle [OF assms(1) [unfolded u] t] by blast
  show ?thesis
    using h' fit assms(2-5) unfolding u
    by (intro exI [of _ h'] exI [of _ "plug t [blacken f, InR (Nd ul ua False ud ur) g True dg]"] exI [of _ "Some g"])
      (cases f; auto simp: items_plug)
next
  case False
  show ?thesis
  proof (cases f)
    case (InR s q c d)
    have t: "t \<noteq> Lf" using assms(2) by auto
    obtain h' where h': "fix_insert_right h (pt t) (rootp (Some g) p) = Some (h', pt t, rootp (Some q) p)"
       "zip_rep h' (Nd (Nd u g True dg s) q False d t) p"
       "same_out (plug t (InR s q c d # InR u g False dg # p)) h h'"
      using fix_insert_right_outer [OF assms(1) [unfolded InR] t False] by blast
    have z': "zip_rep h' t (InR (Nd u g True dg s) q False d # p)" using h'(2) by (simp add: zip_rep_plug)
    have "pt t \<noteq> rootp (Some q) p" using zip_not_root [OF z' t] by simp
    then show ?thesis
      using h' fit assms(2-5) zip_rep_parent [OF z' t] False t unfolding InR
      by (intro exI [of _ h'] exI [of _ "Nd (Nd u g True dg s) q False d t"] exI [of _ "pt t"])
        (auto simp: items_plug)
  next
    case (InL q c d s)
    obtain l k dk r where t: "t = Nd l k True dk r" using assms(2) by (cases t) auto
    obtain h' where h': "fix_insert_right h (Some k) (rootp (Some g) p) = Some (h', Some q, rootp (Some k) p)"
       "zip_rep h' (Nd (Nd u g True dg l) k False dk (Nd r q c d s)) p"
       "same_out (plug (Nd l k True dk r) (InL q c d s # InR u g False dg # p)) h h'"
      using fix_insert_right_inner [OF assms(1) [unfolded InL t] False] by blast
    have z': "zip_rep h' (Nd r q c d s) (InR (Nd u g True dg l) k False dk # p)" using h'(2) by (simp add: zip_rep_plug)
    have "Some q \<noteq> rootp (Some k) p" using zip_not_root [OF z'] by simp
    then show ?thesis
      using h' fit assms(2-5) zip_rep_parent [OF z'] False unfolding InL t
      by (intro exI [of _ h'] exI [of _ "Nd (Nd u g True dg l) k False dk (Nd r q c d s)"] exI [of _ "Some q"])
        (auto simp: items_plug)
  qed
qed

lemma ins_step_left:
  assumes "zip_rep h t (f # InL g False dg u # p)" "red t" "invc t" "invh t" "fcol f"
    and fit: "fits_path (bh t) (f # InL g False dg u # p)"
  shows "\<exists>h' t' k. fix_insert_left h (pt t) (rootp (Some g) p) = Some (h', k, rootp (pt t') p) \<and>
     zip_rep h' t' p \<and> same_out (plug t (f # InL g False dg u # p)) h h' \<and>
     items (plug t' p) = items (plug t (f # InL g False dg u # p)) \<and>
     invc t' \<and> invh t' \<and> fits_path (bh t') p \<and>
     (k = pt t' \<and> red t' \<or> \<not> red t' \<and> k \<noteq> None \<and> k \<noteq> rootp (pt t') p \<and>
      (\<exists>q. fld h' k parent = Some q \<and> fld h' q color = Some False))"
proof (cases "red u")
  case True
  then obtain ul ua ud ur where u: "u = Nd ul ua True ud ur" by (cases u) auto
  have t: "t \<noteq> Lf" using assms(2) by auto
  obtain h' where h': "fix_insert_left h (pt t) (rootp (Some g) p) = Some (h', Some g, rootp (Some g) p)"
     "zip_rep h' (plug t [blacken f, InL g True dg (Nd ul ua False ud ur)]) p"
     "same_out (plug t (f # InL g False dg (Nd ul ua True ud ur) # p)) h h'"
    using fix_insert_left_red_uncle [OF assms(1) [unfolded u] t] by blast
  show ?thesis
    using h' fit assms(2-5) unfolding u
    by (intro exI [of _ h'] exI [of _ "plug t [blacken f, InL g True dg (Nd ul ua False ud ur)]"] exI [of _ "Some g"])
      (cases f; auto simp: items_plug)
next
  case False
  show ?thesis
  proof (cases f)
    case (InL q c d s)
    have t: "t \<noteq> Lf" using assms(2) by auto
    obtain h' where h': "fix_insert_left h (pt t) (rootp (Some g) p) = Some (h', pt t, rootp (Some q) p)"
       "zip_rep h' (Nd t q False d (Nd s g True dg u)) p"
       "same_out (plug t (InL q c d s # InL g False dg u # p)) h h'"
      using fix_insert_left_outer [OF assms(1) [unfolded InL] t False] by blast
    have z': "zip_rep h' t (InL q False d (Nd s g True dg u) # p)" using h'(2) by (simp add: zip_rep_plug)
    have "pt t \<noteq> rootp (Some q) p" using zip_not_root [OF z' t] by simp
    then show ?thesis
      using h' fit assms(2-5) zip_rep_parent [OF z' t] False t unfolding InL
      by (intro exI [of _ h'] exI [of _ "Nd t q False d (Nd s g True dg u)"] exI [of _ "pt t"])
        (auto simp: items_plug)
  next
    case (InR s q c d)
    obtain l k dk r where t: "t = Nd l k True dk r" using assms(2) by (cases t) auto
    obtain h' where h': "fix_insert_left h (Some k) (rootp (Some g) p) = Some (h', Some q, rootp (Some k) p)"
       "zip_rep h' (Nd (Nd s q c d l) k False dk (Nd r g True dg u)) p"
       "same_out (plug (Nd l k True dk r) (InR s q c d # InL g False dg u # p)) h h'"
      using fix_insert_left_inner [OF assms(1) [unfolded InR t] False] by blast
    have z': "zip_rep h' (Nd s q c d l) (InL k False dk (Nd r g True dg u) # p)" using h'(2) by (simp add: zip_rep_plug)
    have "Some q \<noteq> rootp (Some k) p" using zip_not_root [OF z'] by simp
    then show ?thesis
      using h' fit assms(2-5) zip_rep_parent [OF z'] False unfolding InR t
      by (intro exI [of _ h'] exI [of _ "Nd (Nd s q c d l) k False dk (Nd r g True dg u)"] exI [of _ "Some q"])
        (auto simp: items_plug)
  qed
qed

lemma fix_insert_loop_stop:
  assumes "fld h k parent = Some q" "fld h q color = Some False"
  shows "fix_insert_loop h k root = Some (h, root)"
  using assms by (simp add: fix_insert_loop.simps)

lemma fix_insert_loop_ok:
  assumes "ins_state h t p"
  shows "\<exists>h' t'. fix_insert_loop h (pt t) (rootp (pt t) p) = Some (h', pt t') \<and>
     rep h' None t' \<and> distinct (addrs t') \<and> same_out (plug t p) h h' \<and>
     items t' = items (plug t p) \<and> invc t' \<and> invh t' \<and> t' \<noteq> Lf"
  using assms
proof (induction "length p" arbitrary: h t p rule: less_induct)
  case less
  have z: "zip_rep h t p" and t: "red t" "invc t" "invh t" "t \<noteq> Lf" and fit: "fits_path (bh t) p"
    and rt: "p \<noteq> []" "\<not> fcol (last p)" using less.prems by (auto simp: ins_state_def)
  obtain f p1 where p1: "p = f # p1" using rt by (cases p) auto
  note par = zip_rep_parent [OF z [unfolded p1] t(4)]
  show ?case
  proof (cases "fcol f")
    case False
    have "invc (plug t p) \<and> invh (plug t p)" using plug_inv [OF fit t(3,2)] False p1 by simp
    then show ?thesis
      using fix_insert_loop_stop [OF par(1)] par(2) False z t(4)
      by (intro exI [of _ h] exI [of _ "plug t p"]) (auto simp: zip_rep_plug pt_plug plug_Lf)
  next
    case True
    then obtain g p2 where p2: "p1 = g # p2" using rt p1 by (cases p1) auto
    have gb: "\<not> fcol g" using fit True unfolding p1 p2 by (cases f) auto
    define root where "root = rootp (Some (fad g)) p2"
    have root: "rootp (pt t) p = root" by (simp add: p1 p2 root_def)
    have fld2: "fld h (Some (fad f)) parent = Some (Some (fad g))" using par(3) p2 by simp
    obtain h' t' k where step: "(case g of InR _ _ _ _ \<Rightarrow> fix_insert_right h (pt t) root | InL _ _ _ _ \<Rightarrow> fix_insert_left h (pt t) root)
         = Some (h', k, rootp (pt t') p2)"
      and z': "zip_rep h' t' p2" and same: "same_out (plug t p) h h'" and it: "items (plug t' p2) = items (plug t p)"
      and inv: "invc t'" "invh t'" "fits_path (bh t') p2"
      and kk: "k = pt t' \<and> red t' \<or> \<not> red t' \<and> k \<noteq> None \<and> k \<noteq> rootp (pt t') p2 \<and>
        (\<exists>q. fld h' k parent = Some q \<and> fld h' q color = Some False)"
    proof (cases g)
      case (InR u a c d)
      then show ?thesis
        using ins_step_right [of h t f u a d p2] z t(1-3) True fit gb that unfolding p1 p2 root_def by auto
    next
      case (InL a c d u)
      then show ?thesis
        using ins_step_left [of h t f a d u p2] z t(1-3) True fit gb that unfolding p1 p2 root_def by auto
    qed
    have side: "fld h (Some (fad g)) right = Some (case g of InR _ _ _ _ \<Rightarrow> Some (fad f) | InL _ _ _ u \<Rightarrow> pt u)"
      using z unfolding p1 p2 zip_rep_def by (cases f; cases g) auto
    have side': "Some (fad f) \<noteq> pt u" if "g = InL a c d u" for a c d u
    proof
      assume "Some (fad f) = pt u"
      then have "fad f \<in> set (addrs u)" using pt_Some_in by metis
      then show False using z unfolding p1 p2 zip_rep_def that by (cases f) (auto simp: distinct_plug)
    qed
    have unf: "fix_insert_loop h (pt t) (rootp (pt t) p) =
       (if k = rootp (pt t') p2 then Some (h', rootp (pt t') p2) else fix_insert_loop h' k (rootp (pt t') p2))"
      using par(1,2) fld2 side side' True step
      by (subst fix_insert_loop.simps) (cases g; simp add: root)
    have same_set: "set (addrs (plug t' p2)) = set (addrs (plug t p))" using it by (metis map_fst_items)
    have len: "length p2 < length p" by (simp add: p1 p2)
    show ?thesis
    proof (cases "k = pt t' \<and> red t'")
      case again: True
      then have ne: "t' \<noteq> Lf" by auto
      show ?thesis
      proof (cases "p2 = []")
        case True
        then have "fix_insert_loop h (pt t) (rootp (pt t) p) = Some (h', pt t')" using unf again by simp
        then show ?thesis using True z' same it inv ne
          by (intro exI [of _ h'] exI [of _ t']) (auto simp: zip_rep_plug)
      next
        case False
        have st: "ins_state h' t' p2" using z' again inv False rt(2) by (simp add: ins_state_def p1 p2)
        obtain f3 p3 where "p2 = f3 # p3" using False by (cases p2) auto
        then have "k \<noteq> rootp (pt t') p2" using again zip_not_root [of h' t' f3 p3] z' ne by simp
        then have "fix_insert_loop h (pt t) (rootp (pt t) p) = fix_insert_loop h' (pt t') (rootp (pt t') p2)"
          using unf again by simp
        then show ?thesis using less.hyps [OF len st] it same_out_trans [OF same _ same_set] by auto
      qed
    next
      case False
      then have nr: "\<not> red t'" "k \<noteq> rootp (pt t') p2" and stop: "\<exists>q. fld h' k parent = Some q \<and> fld h' q color = Some False"
        using kk by auto
      have "fix_insert_loop h (pt t) (rootp (pt t) p) = Some (h', rootp (pt t') p2)"
        using unf nr stop fix_insert_loop_stop by auto
      moreover have "invc (plug t' p2) \<and> invh (plug t' p2)" using plug_inv inv nr(1) by blast
      moreover have "items (plug t p) \<noteq> []" using t(4) by (cases t) (auto simp: items_plug)
      ultimately show ?thesis using z' same it
        by (intro exI [of _ h'] exI [of _ "plug t' p2"]) (auto simp: zip_rep_plug pt_plug)
    qed
  qed
qed

lemma fix_insert_ok:
  assumes "ins_state h t p"
  shows "\<exists>h' t'. fix_insert h (pt t) (rootp (pt t) p) = Some (h', pt t') \<and> rep h' None t' \<and> distinct (addrs t') \<and>
     same_out (plug t p) h h' \<and> items t' = items (plug t p) \<and> rbt t'"
proof -
  obtain h1 t1 where l: "fix_insert_loop h (pt t) (rootp (pt t) p) = Some (h1, pt t1)"
     "rep h1 None t1" "distinct (addrs t1)" "same_out (plug t p) h h1" "items t1 = items (plug t p)" "invc t1" "invh t1" "t1 \<noteq> Lf"
    using fix_insert_loop_ok [OF assms] by blast
  obtain h2 where h2: "set_color h1 (pt t1) False = Some h2" "rep h2 None (paint False t1)" "same_out t1 h1 h2"
    using set_color_root [OF l(2,3,8)] by blast
  have "set (addrs t1) = set (addrs (plug t p))" using l(5) by (metis map_fst_items)
  then have "same_out (plug t p) h h2" using same_out_trans [OF l(4) h2(3)] by simp
  moreover have "fix_insert h (pt t) (rootp (pt t) p) = Some (h2, pt t1)" using l(1) h2(1) by (simp add: fix_insert_def)
  ultimately show ?thesis
    using h2(2) l(3,5-7) paint_invc
    by (intro exI [of _ h2] exI [of _ "paint False t1"]) (auto simp: rbt_def)
qed

end
