(* ===== verification/Rb_Delete.thy ===== *)
theory Rb_Delete
  imports Rb_Insert
begin

text \<open>
  Removal from the red-black trees: splicing a node out of the tree and the loop of \<^verbatim>\<open>_fix_delete\<close>,
  which needs the height invariant already to know that the sibling it reads is not null.
\<close>

section \<open>The body of \<^verbatim>\<open>_fix_delete\<close>, black sibling\<close>

lemma x_parent_rep:
  assumes "zip_rep h x (f # p)" "x = Lf \<longrightarrow> tnp = Some (fad f)"
  shows "x_parent_of h (pt x) tnp = Some (Some (fad f))"
  using assms zip_rep_parent(1) [OF assms(1)] by (auto simp: x_parent_of_def)

lemma is_black_rep: "rep h q t \<Longrightarrow> is_black h (pt t) = Some (\<not> red t)"
  by (cases t) (auto simp: is_black_def)

lemma is_black_Some: "h a = Some n \<Longrightarrow> is_black h (Some a) = Some (\<not> color n)"
  by (simp add: is_black_def)

lemma left_far_ok:
  assumes z: "zip_rep h x (InL a c d (Nd sl s cs ds (Nd rl r cr dr rr)) # p)"
    and n: "x = Lf \<longrightarrow> tnp = Some a"
  shows "\<exists>h'. fix_delete_left_far h (pt x) (Some s) (rootp (Some a) p) tnp =
       Some (h', rootp (Some s) p, rootp (Some s) p, True) \<and>
     zip_rep h' (Nd (Nd x a False d sl) s c ds (Nd rl r False dr rr)) p \<and>
     same_out (plug x (InL a c d (Nd sl s cs ds (Nd rl r cr dr rr)) # p)) h h'"
proof -
  have xp: "x_parent_of h (pt x) tnp = Some (Some a)" using x_parent_rep [OF z] n by simp
  obtain h1 h2 h3 where h: "fld h (Some a) color = Some c" "set_color h (Some s) c = Some h1"
    "set_color h1 (Some a) False = Some h2" "fld h2 (Some s) right = Some (Some r)"
    "set_color h2 (Some r) False = Some h3"
    "zip_rep h3 (Nd x a False d (Nd sl s c ds (Nd rl r False dr rr))) p"
    "same_out (plug x (InL a c d (Nd sl s cs ds (Nd rl r cr dr rr)) # p)) h h3"
    using z by (auto simp: zip_rep_def setters same_out_def distinct_plug set_addrs_plug)
  obtain h' where h': "left_rotate h3 (Some a) (rootp (Some a) p) = Some (h', rootp (Some s) p)"
    "zip_rep h' (Nd (Nd x a False d sl) s c ds (Nd rl r False dr rr)) p"
    "same_out (plug (Nd x a False d (Nd sl s c ds (Nd rl r False dr rr))) p) h3 h'"
    using left_rotate_rep [OF h(6)] by blast
  have "same_out (plug x (InL a c d (Nd sl s cs ds (Nd rl r cr dr rr)) # p)) h h'"
    using same_out_trans [OF h(7) h'(3)] by (auto simp: set_addrs_plug)
  then show ?thesis using xp h(1-5) h' by (auto simp: fix_delete_left_far_def)
qed

lemma right_far_ok:
  assumes z: "zip_rep h x (InR (Nd (Nd ll l cl dl lr) s cs ds sr) a c d # p)"
    and n: "x = Lf \<longrightarrow> tnp = Some a"
  shows "\<exists>h'. fix_delete_right_far h (pt x) (Some s) (rootp (Some a) p) tnp =
       Some (h', rootp (Some s) p, rootp (Some s) p, True) \<and>
     zip_rep h' (Nd (Nd ll l False dl lr) s c ds (Nd sr a False d x)) p \<and>
     same_out (plug x (InR (Nd (Nd ll l cl dl lr) s cs ds sr) a c d # p)) h h'"
proof -
  have xp: "x_parent_of h (pt x) tnp = Some (Some a)" using x_parent_rep [OF z] n by simp
  obtain h1 h2 h3 where h: "fld h (Some a) color = Some c" "set_color h (Some s) c = Some h1"
    "set_color h1 (Some a) False = Some h2" "fld h2 (Some s) left = Some (Some l)"
    "set_color h2 (Some l) False = Some h3"
    "zip_rep h3 (Nd (Nd (Nd ll l False dl lr) s c ds sr) a False d x) p"
    "same_out (plug x (InR (Nd (Nd ll l cl dl lr) s cs ds sr) a c d # p)) h h3"
    using z by (auto simp: zip_rep_def setters same_out_def distinct_plug set_addrs_plug)
  obtain h' where h': "right_rotate h3 (Some a) (rootp (Some a) p) = Some (h', rootp (Some s) p)"
    "zip_rep h' (Nd (Nd ll l False dl lr) s c ds (Nd sr a False d x)) p"
    "same_out (plug (Nd (Nd (Nd ll l False dl lr) s c ds sr) a False d x) p) h3 h'"
    using right_rotate_rep [OF h(6)] by blast
  have "same_out (plug x (InR (Nd (Nd ll l cl dl lr) s cs ds sr) a c d # p)) h h'"
    using same_out_trans [OF h(7) h'(3)] by (auto simp: set_addrs_plug)
  then show ?thesis using xp h(1-5) h' by (auto simp: fix_delete_right_far_def)
qed

text \<open>Case 3.2: both nephews are black.\<close>

lemma left_black_recolor:
  assumes z: "zip_rep h x (InL a c d (Nd sl s cs ds sr) # p)" and n: "x = Lf \<longrightarrow> tnp = Some a"
    and b: "\<not> red sl" "\<not> red sr"
  shows "\<exists>h'. fix_delete_left_black h (pt x) (Some s) root tnp = Some (h', Some a, root, False) \<and>
     zip_rep h' (Nd x a c d (Nd sl s True ds sr)) p \<and>
     same_out (plug x (InL a c d (Nd sl s cs ds sr) # p)) h h'"
proof -
  obtain h1 where h: "set_color h (Some s) True = Some h1" "zip_rep h1 x (InL a c d (Nd sl s True ds sr) # p)"
    "same_out (plug x (InL a c d (Nd sl s cs ds sr) # p)) h h1" "fld h (Some s) left = Some (pt sl)" "fld h (Some s) right = Some (pt sr)"
    "is_black h (pt sl) = Some True" "is_black h (pt sr) = Some True"
    using z b by (auto simp: zip_rep_def setters same_out_def distinct_plug set_addrs_plug is_black_rep)
  have "x_parent_of h1 (pt x) tnp = Some (Some a)" using x_parent_rep [OF h(2)] n by simp
  then show ?thesis using h by (auto simp: fix_delete_left_black_def zip_rep_plug)
qed

lemma right_black_recolor:
  assumes z: "zip_rep h x (InR (Nd sl s cs ds sr) a c d # p)" and n: "x = Lf \<longrightarrow> tnp = Some a"
    and b: "\<not> red sl" "\<not> red sr"
  shows "\<exists>h'. fix_delete_right_black h (pt x) (Some s) root tnp = Some (h', Some a, root, False) \<and>
     zip_rep h' (Nd (Nd sl s True ds sr) a c d x) p \<and>
     same_out (plug x (InR (Nd sl s cs ds sr) a c d # p)) h h'"
proof -
  obtain h1 where h: "set_color h (Some s) True = Some h1" "zip_rep h1 x (InR (Nd sl s True ds sr) a c d # p)"
    "same_out (plug x (InR (Nd sl s cs ds sr) a c d # p)) h h1" "fld h (Some s) left = Some (pt sl)" "fld h (Some s) right = Some (pt sr)"
    "is_black h (pt sl) = Some True" "is_black h (pt sr) = Some True"
    using z b by (auto simp: zip_rep_def setters same_out_def distinct_plug set_addrs_plug is_black_rep)
  have "x_parent_of h1 (pt x) tnp = Some (Some a)" using x_parent_rep [OF h(2)] n by simp
  then show ?thesis using h by (auto simp: fix_delete_right_black_def zip_rep_plug)
qed

text \<open>Case 3.4 and case 3.3, which leads to it.\<close>

lemma left_black_far:
  assumes z: "zip_rep h x (InL a c d (Nd sl s cs ds (Nd rl r True dr rr)) # p)" and n: "x = Lf \<longrightarrow> tnp = Some a"
  shows "\<exists>h'. fix_delete_left_black h (pt x) (Some s) (rootp (Some a) p) tnp =
       Some (h', rootp (Some s) p, rootp (Some s) p, True) \<and>
     zip_rep h' (Nd (Nd x a False d sl) s c ds (Nd rl r False dr rr)) p \<and>
     same_out (plug x (InL a c d (Nd sl s cs ds (Nd rl r True dr rr)) # p)) h h'"
proof -
  have "fld h (Some s) left = Some (pt sl)" "fld h (Some s) right = Some (Some r)"
    "is_black h (pt sl) = Some (\<not> red sl)" "is_black h (Some r) = Some False"
    using z by (auto simp: zip_rep_def is_black_rep is_black_Some)
  then show ?thesis using left_far_ok [OF z n] by (simp add: fix_delete_left_black_def)
qed

lemma right_black_far:
  assumes z: "zip_rep h x (InR (Nd (Nd ll l True dl lr) s cs ds sr) a c d # p)" and n: "x = Lf \<longrightarrow> tnp = Some a"
  shows "\<exists>h'. fix_delete_right_black h (pt x) (Some s) (rootp (Some a) p) tnp =
       Some (h', rootp (Some s) p, rootp (Some s) p, True) \<and>
     zip_rep h' (Nd (Nd ll l False dl lr) s c ds (Nd sr a False d x)) p \<and>
     same_out (plug x (InR (Nd (Nd ll l True dl lr) s cs ds sr) a c d # p)) h h'"
proof -
  have "fld h (Some s) right = Some (pt sr)" "fld h (Some s) left = Some (Some l)"
    "is_black h (pt sr) = Some (\<not> red sr)" "is_black h (Some l) = Some False"
    using z by (auto simp: zip_rep_def is_black_rep is_black_Some)
  then show ?thesis using right_far_ok [OF z n] by (simp add: fix_delete_right_black_def)
qed

lemma left_black_near:
  assumes z: "zip_rep h x (InL a c d (Nd (Nd ll l True dl lr) s cs ds sr) # p)" and n: "x = Lf \<longrightarrow> tnp = Some a"
    and b: "\<not> red sr"
  shows "\<exists>h'. fix_delete_left_black h (pt x) (Some s) (rootp (Some a) p) tnp =
       Some (h', rootp (Some l) p, rootp (Some l) p, True) \<and>
     zip_rep h' (Nd (Nd x a False d ll) l c dl (Nd lr s False ds sr)) p \<and>
     same_out (plug x (InL a c d (Nd (Nd ll l True dl lr) s cs ds sr) # p)) h h'"
proof -
  have f: "fld h (Some s) left = Some (Some l)" "fld h (Some s) right = Some (pt sr)"
    "is_black h (Some l) = Some False" "is_black h (pt sr) = Some True"
    using z b by (auto simp: zip_rep_def is_black_rep is_black_Some)
  obtain h1 h2 where h: "set_color h (Some l) False = Some h1" "set_color h1 (Some s) True = Some h2"
    "zip_rep h2 (Nd (Nd ll l False dl lr) s True ds sr) (InR x a c d # p)"
    "same_out (plug x (InL a c d (Nd (Nd ll l True dl lr) s cs ds sr) # p)) h h2"
    using z by (auto simp: zip_rep_def setters same_out_def distinct_plug set_addrs_plug)
  obtain h3 where h3: "right_rotate h2 (Some s) (rootp (Some a) p) = Some (h3, rootp (Some a) p)"
    "zip_rep h3 (Nd ll l False dl (Nd lr s True ds sr)) (InR x a c d # p)"
    "same_out (plug (Nd (Nd ll l False dl lr) s True ds sr) (InR x a c d # p)) h2 h3"
    using right_rotate_rep [OF h(3)] by auto
  have z3: "zip_rep h3 x (InL a c d (Nd ll l False dl (Nd lr s True ds sr)) # p)" using h3(2) by (simp add: zip_rep_plug)
  have g: "x_parent_of h3 (pt x) tnp = Some (Some a)" "fld h3 (Some a) right = Some (Some l)"
    using x_parent_rep [OF z3] n z3 by (auto simp: zip_rep_def)
  obtain h' where h': "fix_delete_left_far h3 (pt x) (Some l) (rootp (Some a) p) tnp =
       Some (h', rootp (Some l) p, rootp (Some l) p, True)"
    "zip_rep h' (Nd (Nd x a False d ll) l c dl (Nd lr s False ds sr)) p"
    "same_out (plug x (InL a c d (Nd ll l False dl (Nd lr s True ds sr)) # p)) h3 h'"
    using left_far_ok [OF z3 n] by blast
  have "same_out (plug x (InL a c d (Nd (Nd ll l True dl lr) s cs ds sr) # p)) h h3"
    by (rule same_out_trans [OF h(4) h3(3)]) (auto simp: set_addrs_plug)
  then have "same_out (plug x (InL a c d (Nd (Nd ll l True dl lr) s cs ds sr) # p)) h h'"
    by (rule same_out_trans [OF _ h'(3)]) (auto simp: set_addrs_plug)
  then show ?thesis using f h(1,2) h3(1) g h' by (auto simp: fix_delete_left_black_def)
qed

lemma right_black_near:
  assumes z: "zip_rep h x (InR (Nd sl s cs ds (Nd rl r True dr rr)) a c d # p)" and n: "x = Lf \<longrightarrow> tnp = Some a"
    and b: "\<not> red sl"
  shows "\<exists>h'. fix_delete_right_black h (pt x) (Some s) (rootp (Some a) p) tnp =
       Some (h', rootp (Some r) p, rootp (Some r) p, True) \<and>
     zip_rep h' (Nd (Nd sl s False ds rl) r c dr (Nd rr a False d x)) p \<and>
     same_out (plug x (InR (Nd sl s cs ds (Nd rl r True dr rr)) a c d # p)) h h'"
proof -
  have f: "fld h (Some s) right = Some (Some r)" "fld h (Some s) left = Some (pt sl)"
    "is_black h (Some r) = Some False" "is_black h (pt sl) = Some True"
    using z b by (auto simp: zip_rep_def is_black_rep is_black_Some)
  obtain h1 h2 where h: "set_color h (Some r) False = Some h1" "set_color h1 (Some s) True = Some h2"
    "zip_rep h2 (Nd sl s True ds (Nd rl r False dr rr)) (InL a c d x # p)"
    "same_out (plug x (InR (Nd sl s cs ds (Nd rl r True dr rr)) a c d # p)) h h2"
    using z by (auto simp: zip_rep_def setters same_out_def distinct_plug set_addrs_plug)
  obtain h3 where h3: "left_rotate h2 (Some s) (rootp (Some a) p) = Some (h3, rootp (Some a) p)"
    "zip_rep h3 (Nd (Nd sl s True ds rl) r False dr rr) (InL a c d x # p)"
    "same_out (plug (Nd sl s True ds (Nd rl r False dr rr)) (InL a c d x # p)) h2 h3"
    using left_rotate_rep [OF h(3)] by auto
  have z3: "zip_rep h3 x (InR (Nd (Nd sl s True ds rl) r False dr rr) a c d # p)" using h3(2) by (simp add: zip_rep_plug)
  have g: "x_parent_of h3 (pt x) tnp = Some (Some a)" "fld h3 (Some a) left = Some (Some r)"
    using x_parent_rep [OF z3] n z3 by (auto simp: zip_rep_def)
  obtain h' where h': "fix_delete_right_far h3 (pt x) (Some r) (rootp (Some a) p) tnp =
       Some (h', rootp (Some r) p, rootp (Some r) p, True)"
    "zip_rep h' (Nd (Nd sl s False ds rl) r c dr (Nd rr a False d x)) p"
    "same_out (plug x (InR (Nd (Nd sl s True ds rl) r False dr rr) a c d # p)) h3 h'"
    using right_far_ok [OF z3 n] by blast
  have "same_out (plug x (InR (Nd sl s cs ds (Nd rl r True dr rr)) a c d # p)) h h3"
    by (rule same_out_trans [OF h(4) h3(3)]) (auto simp: set_addrs_plug)
  then have "same_out (plug x (InR (Nd sl s cs ds (Nd rl r True dr rr)) a c d # p)) h h'"
    by (rule same_out_trans [OF _ h'(3)]) (auto simp: set_addrs_plug)
  then show ?thesis using f h(1,2) h3(1) g h' by (auto simp: fix_delete_right_black_def)
qed

section \<open>One iteration\<close>

text \<open>
  What an iteration promises about the tree \<open>t0\<close> it started from: either it is done with a whole
  tree that satisfies the invariants, or it continues at the parent, which is one level up or, if
  \<open>up\<close>, red and at the same level; if \<open>c\<close>, it is red.
\<close>

definition del_result :: "bool \<Rightarrow> bool \<Rightarrow> 'd rt \<Rightarrow> 'd heap \<Rightarrow> 'd path \<Rightarrow> 'd heap \<times> ptr \<times> ptr \<times> bool \<Rightarrow> bool" where
  "del_result up c t0 h p res \<longleftrightarrow>
     (\<exists>h' x' p' brk. res = (h', if brk then rootp (pt x') p' else pt x', rootp (pt x') p', brk) \<and>
        zip_rep h' x' p' \<and> same_out t0 h h' \<and> items (plug x' p') = items t0 \<and> x' \<noteq> Lf \<and>
        invc (paint False x') \<and> invh x' \<and>
        (if brk then invc x' \<and> fits_path (bh x') p' \<and> (red x' \<longrightarrow> \<not> pred_col p') \<and> p' = p
         else fits_path (bh x' + 1) p' \<and> (c \<longrightarrow> red x') \<and>
           (p' = p \<or> up \<and> red x' \<and> (\<exists>f. p' = f # p \<and> \<not> fcol f))))"

lemma left_black_ok:
  assumes z: "zip_rep h x (InL a c d S # p)" and n: "x = Lf \<longrightarrow> tnp = Some a" and S: "S \<noteq> Lf" "\<not> red S"
    and x: "\<not> red x" "invc x" "invh x" and fit: "fits_path (bh x + 1) (InL a c d S # p)"
  shows "\<exists>res. fix_delete_left_black h (pt x) (pt S) (rootp (Some a) p) tnp = Some res \<and>
     del_result False c (plug x (InL a c d S # p)) h p res"
proof -
  obtain sl s ds sr where s: "S = Nd sl s False ds sr" using S by (cases S) auto
  consider "\<not> red sl" "\<not> red sr" | rl r dr rr where "sr = Nd rl r True dr rr"
    | ll l dl lr where "sl = Nd ll l True dl lr" "\<not> red sr"
    by (metis (full_types) red.elims(1))
  then show ?thesis
  proof cases
    case 1
    obtain h' where h': "fix_delete_left_black h (pt x) (Some s) (rootp (Some a) p) tnp = Some (h', Some a, rootp (Some a) p, False)"
      "zip_rep h' (Nd x a c d (Nd sl s True ds sr)) p" "same_out (plug x (InL a c d S # p)) h h'"
      using left_black_recolor [OF z [unfolded s] n 1, of "rootp (Some a) p"] s by blast
    show ?thesis
      using h' fit x 1 unfolding s del_result_def
      by (intro exI [of _ "(h', Some a, rootp (Some a) p, False)"] conjI exI [of _ h']
          exI [of _ "Nd x a c d (Nd sl s True ds sr)"] exI [of _ p] exI [of _ False]) (auto simp: items_plug)
  next
    case (2 rl r dr rr)
    obtain h' where h': "fix_delete_left_black h (pt x) (Some s) (rootp (Some a) p) tnp = Some (h', rootp (Some s) p, rootp (Some s) p, True)"
      "zip_rep h' (Nd (Nd x a False d sl) s c ds (Nd rl r False dr rr)) p" "same_out (plug x (InL a c d S # p)) h h'"
      using left_black_far [OF z [unfolded s 2] n] s 2 by blast
    show ?thesis
      using h' fit x unfolding s 2 del_result_def
      by (intro exI [of _ "(h', rootp (Some s) p, rootp (Some s) p, True)"] conjI exI [of _ h']
          exI [of _ "Nd (Nd x a False d sl) s c ds (Nd rl r False dr rr)"] exI [of _ p] exI [of _ True])
        (auto simp: items_plug split: if_splits)
  next
    case (3 ll l dl lr)
    obtain h' where h': "fix_delete_left_black h (pt x) (Some s) (rootp (Some a) p) tnp = Some (h', rootp (Some l) p, rootp (Some l) p, True)"
      "zip_rep h' (Nd (Nd x a False d ll) l c dl (Nd lr s False ds sr)) p" "same_out (plug x (InL a c d S # p)) h h'"
      using left_black_near [OF z [unfolded s 3(1)] n 3(2)] s 3(1) by blast
    show ?thesis
      using h' fit x 3(2) unfolding s 3(1) del_result_def
      by (intro exI [of _ "(h', rootp (Some l) p, rootp (Some l) p, True)"] conjI exI [of _ h']
          exI [of _ "Nd (Nd x a False d ll) l c dl (Nd lr s False ds sr)"] exI [of _ p] exI [of _ True])
        (auto simp: items_plug split: if_splits)
  qed
qed

lemma right_black_ok:
  assumes z: "zip_rep h x (InR S a c d # p)" and n: "x = Lf \<longrightarrow> tnp = Some a" and S: "S \<noteq> Lf" "\<not> red S"
    and x: "\<not> red x" "invc x" "invh x" and fit: "fits_path (bh x + 1) (InR S a c d # p)"
  shows "\<exists>res. fix_delete_right_black h (pt x) (pt S) (rootp (Some a) p) tnp = Some res \<and>
     del_result False c (plug x (InR S a c d # p)) h p res"
proof -
  obtain sl s ds sr where s: "S = Nd sl s False ds sr" using S by (cases S) auto
  consider "\<not> red sl" "\<not> red sr" | ll l dl lr where "sl = Nd ll l True dl lr"
    | rl r dr rr where "sr = Nd rl r True dr rr" "\<not> red sl"
    by (metis (full_types) red.elims(1))
  then show ?thesis
  proof cases
    case 1
    obtain h' where h': "fix_delete_right_black h (pt x) (Some s) (rootp (Some a) p) tnp = Some (h', Some a, rootp (Some a) p, False)"
      "zip_rep h' (Nd (Nd sl s True ds sr) a c d x) p" "same_out (plug x (InR S a c d # p)) h h'"
      using right_black_recolor [OF z [unfolded s] n 1, of "rootp (Some a) p"] s by blast
    show ?thesis
      using h' fit x 1 unfolding s del_result_def
      by (intro exI [of _ "(h', Some a, rootp (Some a) p, False)"] conjI exI [of _ h']
          exI [of _ "Nd (Nd sl s True ds sr) a c d x"] exI [of _ p] exI [of _ False]) (auto simp: items_plug)
  next
    case (2 ll l dl lr)
    obtain h' where h': "fix_delete_right_black h (pt x) (Some s) (rootp (Some a) p) tnp = Some (h', rootp (Some s) p, rootp (Some s) p, True)"
      "zip_rep h' (Nd (Nd ll l False dl lr) s c ds (Nd sr a False d x)) p" "same_out (plug x (InR S a c d # p)) h h'"
      using right_black_far [OF z [unfolded s 2] n] s 2 by blast
    show ?thesis
      using h' fit x unfolding s 2 del_result_def
      by (intro exI [of _ "(h', rootp (Some s) p, rootp (Some s) p, True)"] conjI exI [of _ h']
          exI [of _ "Nd (Nd ll l False dl lr) s c ds (Nd sr a False d x)"] exI [of _ p] exI [of _ True])
        (auto simp: items_plug split: if_splits)
  next
    case (3 rl r dr rr)
    obtain h' where h': "fix_delete_right_black h (pt x) (Some s) (rootp (Some a) p) tnp = Some (h', rootp (Some r) p, rootp (Some r) p, True)"
      "zip_rep h' (Nd (Nd sl s False ds rl) r c dr (Nd rr a False d x)) p" "same_out (plug x (InR S a c d # p)) h h'"
      using right_black_near [OF z [unfolded s 3(1)] n 3(2)] s 3(1) by blast
    show ?thesis
      using h' fit x 3(2) unfolding s 3(1) del_result_def
      by (intro exI [of _ "(h', rootp (Some r) p, rootp (Some r) p, True)"] conjI exI [of _ h']
          exI [of _ "Nd (Nd sl s False ds rl) r c dr (Nd rr a False d x)"] exI [of _ p] exI [of _ True])
        (auto simp: items_plug split: if_splits)
  qed
qed

section \<open>One iteration, any sibling\<close>

lemma sibling_nonempty:
  "fits_path (bh x + 1) (InL a c d S # p) \<Longrightarrow> S \<noteq> Lf" "fits_path (bh x + 1) (InR S a c d # p) \<Longrightarrow> S \<noteq> Lf"
  by auto

lemma del_result_mono: "del_result False c t h p res \<Longrightarrow> del_result True False t h p res"
  unfolding del_result_def by (elim ex_forward) (auto split: if_splits)

lemma del_result_red:
  assumes r: "del_result False True t1 h1 (f # p) res" and so: "same_out t0 h0 h1"
    and eq: "items t1 = items t0" "set (addrs t1) = set (addrs t0)" and f: "\<not> fcol f"
  shows "del_result True False t0 h0 p res"
proof -
  obtain h' x' brk where R: "res = (h', if brk then rootp (pt x') (f # p) else pt x', rootp (pt x') (f # p), brk)"
    "zip_rep h' x' (f # p)" "same_out t1 h1 h'" "items (plug x' (f # p)) = items t1" "x' \<noteq> Lf"
    "invc (paint False x')" "invh x'"
    "if brk then invc x' \<and> fits_path (bh x') (f # p) \<and> (red x' \<longrightarrow> \<not> pred_col (f # p))
     else fits_path (bh x' + 1) (f # p) \<and> red x'"
    using r unfolding del_result_def by (fastforce split: if_splits)
  have so': "same_out t0 h0 h'" using same_out_trans [OF so R(3) eq(2)] .
  show ?thesis
  proof (cases brk)
    case False
    then show ?thesis using R so' eq f unfolding del_result_def
      by (intro exI [of _ h'] exI [of _ x'] exI [of _ "f # p"] exI [of _ False]) auto
  next
    case True
    let ?x = "plug x' [f]"
    have "zip_rep h' ?x p" "items (plug ?x p) = items t0" using R(2,4) eq(1) by (cases f; simp add: zip_rep_plug)+
    moreover have "?x \<noteq> Lf" "\<not> red ?x" "invc ?x" "invh ?x" "fits_path (bh ?x) p" "pt ?x = Some (fad f)"
      using R(7,8) True f by (cases f; auto)+
    ultimately show ?thesis using R(1) True so' paint_invc unfolding del_result_def
      by (intro exI [of _ h'] exI [of _ ?x] exI [of _ p] exI [of _ True]) auto
  qed
qed

lemma fix_delete_left_ok:
  assumes z: "zip_rep h x (InL a c d S # p)" and n: "x = Lf \<longrightarrow> tnp = Some a"
    and x: "\<not> red x" "invc x" "invh x" and fit: "fits_path (bh x + 1) (InL a c d S # p)"
  shows "\<exists>res. fix_delete_left h (pt x) (rootp (Some a) p) tnp = Some res \<and>
     del_result True False (plug x (InL a c d S # p)) h p res"
proof -
  have S: "S \<noteq> Lf" using sibling_nonempty(1) [OF fit] .
  have xp: "x_parent_of h (pt x) tnp = Some (Some a)" "fld h (Some a) right = Some (pt S)"
    using x_parent_rep [OF z] n z by (auto simp: zip_rep_def)
  have sc: "fld h (pt S) color = Some (red S)" using z S by (cases S) (auto simp: zip_rep_def)
  show ?thesis
  proof (cases "red S")
    case False
    then show ?thesis using left_black_ok [OF z n S False x fit] xp sc del_result_mono by (fastforce simp: fix_delete_left_def)
  next
    case True
    then obtain sl s ds sr where s: "S = Nd sl s True ds sr" by (cases S) auto
    have c: "\<not> c" using fit s by auto
    have slb: "sl \<noteq> Lf" "\<not> red sl" using fit unfolding s by (auto split: if_splits)
    obtain h1 h2 where h: "set_color h (Some s) False = Some h1" "set_color h1 (Some a) True = Some h2"
      "zip_rep h2 (Nd x a True d (Nd sl s False ds sr)) p" "same_out (plug x (InL a c d S # p)) h h2"
      using z unfolding s by (auto simp: zip_rep_def setters same_out_def distinct_plug set_addrs_plug)
    obtain h3 where h3: "left_rotate h2 (Some a) (rootp (Some a) p) = Some (h3, rootp (Some s) p)"
      "zip_rep h3 (Nd (Nd x a True d sl) s False ds sr) p" "same_out (plug (Nd x a True d (Nd sl s False ds sr)) p) h2 h3"
      using left_rotate_rep [OF h(3)] by blast
    let ?p = "InL s False ds sr # p"
    have z3: "zip_rep h3 x (InL a True d sl # ?p)" using h3(2) by (simp add: zip_rep_plug)
    have g: "x_parent_of h3 (pt x) tnp = Some (Some a)" "fld h3 (Some a) right = Some (pt sl)"
      using x_parent_rep [OF z3] n z3 by (auto simp: zip_rep_def)
    have fit3: "fits_path (bh x + 1) (InL a True d sl # ?p)" using fit slb(2) c unfolding s by (auto split: if_splits)
    obtain res where res: "fix_delete_left_black h3 (pt x) (pt sl) (rootp (Some a) ?p) tnp = Some res"
      "del_result False True (plug x (InL a True d sl # ?p)) h3 ?p res"
      using left_black_ok [OF z3 n slb x fit3] by blast
    have run: "fix_delete_left h (pt x) (rootp (Some a) p) tnp = Some res"
      using xp sc s h(1,2) h3(1) g res(1) by (simp add: fix_delete_left_def)
    have so: "same_out (plug x (InL a c d S # p)) h h3"
      by (rule same_out_trans [OF h(4) h3(3)]) (auto simp: set_addrs_plug s)
    have eq: "items (plug x (InL a True d sl # ?p)) = items (plug x (InL a c d S # p))"
      "set (addrs (plug x (InL a True d sl # ?p))) = set (addrs (plug x (InL a c d S # p)))"
      by (auto simp: items_plug set_addrs_plug s)
    show ?thesis using run del_result_red [OF res(2) so eq] by simp
  qed
qed


lemma fix_delete_right_ok:
  assumes z: "zip_rep h x (InR S a c d # p)" and n: "x = Lf \<longrightarrow> tnp = Some a"
    and x: "\<not> red x" "invc x" "invh x" and fit: "fits_path (bh x + 1) (InR S a c d # p)"
  shows "\<exists>res. fix_delete_right h (pt x) (rootp (Some a) p) tnp = Some res \<and>
     del_result True False (plug x (InR S a c d # p)) h p res"
proof -
  have S: "S \<noteq> Lf" using sibling_nonempty(2) [OF fit] .
  have xp: "x_parent_of h (pt x) tnp = Some (Some a)" "fld h (Some a) left = Some (pt S)"
    using x_parent_rep [OF z] n z by (auto simp: zip_rep_def)
  have sc: "fld h (pt S) color = Some (red S)" using z S by (cases S) (auto simp: zip_rep_def)
  show ?thesis
  proof (cases "red S")
    case False
    then show ?thesis using right_black_ok [OF z n S False x fit] xp sc del_result_mono by (fastforce simp: fix_delete_right_def)
  next
    case True
    then obtain sl s ds sr where s: "S = Nd sl s True ds sr" by (cases S) auto
    have c: "\<not> c" using fit s by auto
    have slb: "sr \<noteq> Lf" "\<not> red sr" using fit unfolding s by (auto split: if_splits)
    obtain h1 h2 where h: "set_color h (Some s) False = Some h1" "set_color h1 (Some a) True = Some h2"
      "zip_rep h2 (Nd (Nd sl s False ds sr) a True d x) p" "same_out (plug x (InR S a c d # p)) h h2"
      using z unfolding s by (auto simp: zip_rep_def setters same_out_def distinct_plug set_addrs_plug)
    obtain h3 where h3: "right_rotate h2 (Some a) (rootp (Some a) p) = Some (h3, rootp (Some s) p)"
      "zip_rep h3 (Nd sl s False ds (Nd sr a True d x)) p" "same_out (plug (Nd (Nd sl s False ds sr) a True d x) p) h2 h3"
      using right_rotate_rep [OF h(3)] by blast
    let ?p = "InR sl s False ds # p"
    have z3: "zip_rep h3 x (InR sr a True d # ?p)" using h3(2) by (simp add: zip_rep_plug)
    have g: "x_parent_of h3 (pt x) tnp = Some (Some a)" "fld h3 (Some a) left = Some (pt sr)"
      using x_parent_rep [OF z3] n z3 by (auto simp: zip_rep_def)
    have fit3: "fits_path (bh x + 1) (InR sr a True d # ?p)" using fit slb(2) c unfolding s by (auto split: if_splits)
    obtain res where res: "fix_delete_right_black h3 (pt x) (pt sr) (rootp (Some a) ?p) tnp = Some res"
      "del_result False True (plug x (InR sr a True d # ?p)) h3 ?p res"
      using right_black_ok [OF z3 n slb x fit3] by blast
    have run: "fix_delete_right h (pt x) (rootp (Some a) p) tnp = Some res"
      using xp sc s h(1,2) h3(1) g res(1) by (simp add: fix_delete_right_def)
    have so: "same_out (plug x (InR S a c d # p)) h h3"
      by (rule same_out_trans [OF h(4) h3(3)]) (auto simp: set_addrs_plug s)
    have eq: "items (plug x (InR sr a True d # ?p)) = items (plug x (InR S a c d # p))"
      "set (addrs (plug x (InR sr a True d # ?p))) = set (addrs (plug x (InR S a c d # p)))"
      by (auto simp: items_plug set_addrs_plug s)
    show ?thesis using run del_result_red [OF res(2) so eq] by simp
  qed
qed


section \<open>The loop\<close>

definition del_state :: "'d heap \<Rightarrow> 'd rt \<Rightarrow> 'd path \<Rightarrow> ptr \<Rightarrow> bool" where
  "del_state h x p tnp \<longleftrightarrow>
     zip_rep h x p \<and> (x = Lf \<longrightarrow> tnp = ppar p) \<and> invc (paint False x) \<and> invh x \<and> fits_path (bh x + 1) p \<and>
     (p \<noteq> [] \<longrightarrow> \<not> fcol (last p))"

text \<open>What the loop leaves behind: painting the last \<open>x\<close> black gives a red-black tree.\<close>

definition del_done :: "'d rt \<Rightarrow> 'd heap \<Rightarrow> 'd heap \<times> ptr \<times> ptr \<Rightarrow> bool" where
  "del_done t0 h res \<longleftrightarrow>
     (\<exists>h' x p. res = (h', pt x, rootp (pt x) p) \<and> zip_rep h' x p \<and> same_out t0 h h' \<and> items (plug x p) = items t0 \<and>
        rbt (plug (paint False x) p))"

lemma last_black_red: "p \<noteq> [] \<Longrightarrow> \<not> fcol (last p) \<Longrightarrow> \<not> red (plug t p)"
  by (simp add: red_plug)

lemma plug_rbt:
  assumes "fits_path (bh t) p" "invh t" "invc t" "red t \<longrightarrow> \<not> pred_col p" "p \<noteq> [] \<longrightarrow> \<not> fcol (last p)" "p = [] \<longrightarrow> \<not> red t"
  shows "rbt (plug t p)"
  using plug_inv [OF assms(1-4)] last_black_red [of p t] assms(5,6) by (cases "p = []") (auto simp: rbt_def)

lemma paint_red_bh: "red t \<Longrightarrow> bh (paint False t) = bh t + 1"
  by (cases t) auto

lemma paint_black_id: "\<not> red t \<Longrightarrow> paint False t = t"
  by (cases t) auto

lemma rootp_ne: "zip_rep h x p \<Longrightarrow> p \<noteq> [] \<Longrightarrow> pt x \<noteq> rootp (pt x) p"
proof (cases p)
  case (Cons f q)
  assume z: "zip_rep h x p"
  show ?thesis
  proof (cases "x = Lf")
    case True then show ?thesis using Cons by (simp add: rootp_def)
  next
    case False then show ?thesis using zip_not_root z Cons by fastforce
  qed
qed simp

lemma fix_delete_loop_ok:
  assumes "del_state h x p tnp"
  shows "\<exists>res. fix_delete_loop h (pt x) (rootp (pt x) p) tnp = Some res \<and> del_done (plug x p) h res"
  using assms
proof (induction "length p" arbitrary: h x p tnp rule: less_induct)
  case less
  have z: "zip_rep h x p" and n: "x = Lf \<longrightarrow> tnp = ppar p" and inv: "invc (paint False x)" "invh x"
    and fit: "fits_path (bh x + 1) p" and rt: "p \<noteq> [] \<longrightarrow> \<not> fcol (last p)" using less.prems by (auto simp: del_state_def)
  have stop: "del_done (plug x p) h (h, pt x, rootp (pt x) p)" if "p = [] \<or> red x"
  proof -
    have "rbt (plug (paint False x) p)"
    proof (cases "p = []")
      case True then show ?thesis using inv by (simp add: rbt_def)
    next
      case False
      then have "red x" using that by simp
      then show ?thesis using plug_rbt [of "paint False x" p] fit inv rt by (simp add: paint_red_bh)
    qed
    then show ?thesis using z unfolding del_done_def by (intro exI [of _ h] exI [of _ x] exI [of _ p]) auto
  qed
  show ?case
  proof (cases "p = []")
    case True
    then show ?thesis using stop by (subst fix_delete_loop.simps) simp
  next
    case p0: False
    have ne: "pt x \<noteq> rootp (pt x) p" using rootp_ne [OF z p0] .
    have blk: "is_black h (pt x) = Some (\<not> red x)" using z is_black_rep by (auto simp: zip_rep_def)
    show ?thesis
    proof (cases "red x")
      case True
      then show ?thesis using stop ne blk by (subst fix_delete_loop.simps) simp
    next
      case False
      then have invx: "invc x" using inv(1) by (simp add: paint_black_id)
      obtain f q where p: "p = f # q" using p0 by (cases p) auto
      have xp: "x_parent_of h (pt x) tnp = Some (Some (fad f))" using x_parent_rep [of h x f q tnp] z n p by simp
      obtain res where res: "(if pt x = (case f of InL _ _ _ _ \<Rightarrow> pt x | InR l _ _ _ \<Rightarrow> pt l)
            then fix_delete_left h (pt x) (rootp (pt x) p) tnp else fix_delete_right h (pt x) (rootp (pt x) p) tnp) = Some res"
        "del_result True False (plug x p) h q res"
      proof (cases f)
        case (InL a c d S)
        then show ?thesis
          using fix_delete_left_ok [of h x a c d S q tnp] z n False invx inv(2) fit that unfolding p by auto
      next
        case (InR S a c d)
        have "pt x \<noteq> pt S"
          using sibling_nonempty(2) [of x S a c d q] fit z unfolding p InR
          by (cases x; cases S) (auto simp: zip_rep_def distinct_plug)
        then show ?thesis
          using fix_delete_right_ok [of h x S a c d q tnp] z n False invx inv(2) fit that InR unfolding p by auto
      qed
      have xpl: "fld h (Some (fad f)) left = Some (case f of InL _ _ _ _ \<Rightarrow> pt x | InR l _ _ _ \<Rightarrow> pt l)"
        using z unfolding p zip_rep_def by (cases f) auto
      obtain h' x' p' brk where R: "res = (h', if brk then rootp (pt x') p' else pt x', rootp (pt x') p', brk)"
        "zip_rep h' x' p'" "same_out (plug x p) h h'" "items (plug x' p') = items (plug x p)" "x' \<noteq> Lf"
        "invc (paint False x')" "invh x'"
        "if brk then invc x' \<and> fits_path (bh x') p' \<and> (red x' \<longrightarrow> \<not> pred_col p') \<and> p' = q
         else fits_path (bh x' + 1) p' \<and> (p' = q \<or> red x' \<and> (\<exists>f. p' = f # q \<and> \<not> fcol f))"
        using res(2) unfolding del_result_def simp_thms by metis
      have unf: "fix_delete_loop h (pt x) (rootp (pt x) p) tnp =
          (if brk then Some (h', rootp (pt x') p', rootp (pt x') p') else fix_delete_loop h' (pt x') (rootp (pt x') p') tnp)"
        using ne blk False xp xpl res(1) R(1) by (subst fix_delete_loop.simps) (auto split: if_splits)
      have rt': "q \<noteq> [] \<longrightarrow> \<not> fcol (last q)" using rt p by auto
      have addr: "set (addrs (plug x' p')) = set (addrs (plug x p))" using R(4) by (metis map_fst_items)
      show ?thesis
      proof (cases brk)
        case True
        have whole: "invc (plug x' q)" "invh (plug x' q)" using plug_inv [of x' q] R(7,8) True by auto
        have "rbt (paint False (plug x' q))" using whole paint_invc by (auto simp: rbt_def)
        then have "del_done (plug x p) h (h', rootp (pt x') p', rootp (pt x') p')"
          using R(2-4,8) True unfolding del_done_def
          by (intro exI [of _ h'] exI [of _ "plug x' q"] exI [of _ "[]"]) (auto simp: pt_plug zip_rep_plug)
        then show ?thesis using unf True by simp
      next
        case nb: False
        show ?thesis
        proof (cases "red x'")
          case True
          have lp: "p' \<noteq> [] \<longrightarrow> \<not> fcol (last p')" using R(8) nb rt' by (cases "p' = q") (auto split: if_splits)
          have fitp: "fits_path (bh x' + 1) p'" using R(8) nb by auto
          have "rbt (plug (paint False x') p')"
            using plug_rbt [of "paint False x'" p'] fitp R(6,7) lp True by (simp add: paint_red_bh)
          then have d: "del_done (plug x p) h (h', pt x', rootp (pt x') p')"
            using R(2-4) unfolding del_done_def by (intro exI [of _ h'] exI [of _ x'] exI [of _ p']) auto
          have "is_black h' (pt x') = Some False" using R(2) True is_black_rep [of h' "ppar p'" x'] by (simp add: zip_rep_def)
          then have "fix_delete_loop h' (pt x') (rootp (pt x') p') tnp = Some (h', pt x', rootp (pt x') p')"
            by (subst fix_delete_loop.simps) simp
          then show ?thesis using unf nb d by simp
        next
          case False
          then have pq: "p' = q" "fits_path (bh x' + 1) q" using R(8) nb by auto
          have st: "del_state h' x' q tnp" using R(2,5-7) pq rt' by (simp add: del_state_def)
          have len: "length q < length p" by (simp add: p)
          obtain r where r: "fix_delete_loop h' (pt x') (rootp (pt x') q) tnp = Some r" "del_done (plug x' q) h' r"
            using less.hyps [OF len st] by blast
          have "del_done (plug x p) h r"
            using r(2) R(4) same_out_trans [OF R(3) _ addr] pq(1) unfolding del_done_def by fastforce
          then show ?thesis using unf nb r(1) pq(1) by simp
        qed
      qed
    qed
  qed
qed

lemma set_color_zip:
  assumes "zip_rep h x p" "x \<noteq> Lf"
  shows "\<exists>h'. set_color h (pt x) c = Some h' \<and> zip_rep h' (paint c x) p \<and> same_out (plug x p) h h'"
  using assms by (cases x) (auto simp: zip_rep_def setters same_out_def distinct_plug set_addrs_plug)

lemma items_plug_paint: "items (plug (paint c x) p) = items (plug x p)"
  by (simp add: items_plug)

lemma fix_delete_ok:
  assumes "del_state h x p tnp"
  shows "\<exists>h' t'. fix_delete h (pt x) (rootp (pt x) p) tnp = Some (h', pt t') \<and> rep h' None t' \<and> distinct (addrs t') \<and>
     same_out (plug x p) h h' \<and> items t' = items (plug x p) \<and> rbt t'"
proof -
  obtain h1 x1 p1 where l: "fix_delete_loop h (pt x) (rootp (pt x) p) tnp = Some (h1, pt x1, rootp (pt x1) p1)"
    "zip_rep h1 x1 p1" "same_out (plug x p) h h1" "items (plug x1 p1) = items (plug x p)" "rbt (plug (paint False x1) p1)"
    using fix_delete_loop_ok [OF assms] unfolding del_done_def by auto
  have addr: "set (addrs (plug x1 p1)) = set (addrs (plug x p))" using l(4) by (metis map_fst_items)
  obtain h2 where h2: "(if pt x1 \<noteq> None then set_color h1 (pt x1) False else Some h1) = Some h2"
    "zip_rep h2 (paint False x1) p1" "same_out (plug x1 p1) h1 h2"
    using set_color_zip [OF l(2), of False] l(2) by (cases "x1 = Lf") auto
  have "same_out (plug x p) h h2" using same_out_trans [OF l(3) h2(3) addr] .
  moreover have "fix_delete h (pt x) (rootp (pt x) p) tnp = Some (h2, rootp (pt x1) p1)"
    using l(1) h2(1) by (simp add: fix_delete_def split: if_splits)
  ultimately show ?thesis
    using l(4,5) h2(2) by (intro exI [of _ h2] exI [of _ "plug (paint False x1) p1"])
      (auto simp: pt_plug zip_rep_plug items_plug_paint)
qed


section \<open>Splicing a node out\<close>

lemma plug_append: "plug t (p @ q) = plug (plug t p) q"
  by (induction t p rule: plug.induct) auto

lemma pleft_append: "pleft (p @ q) = pleft q @ pleft p"
  by (induction p rule: pleft.induct) auto

lemma pright_append: "pright (p @ q) = pright p @ pright q"
  by (induction p rule: pright.induct) auto

lemma paddrs_append [simp]: "paddrs (p @ q) = paddrs p @ paddrs q"
  by (induction p) auto

lemma transplant_rep:
  assumes "repp h (Some u) p" "fld h (Some u) parent = Some (ppar p)" "rep h q v"
    and "distinct (addrs v)" "distinct (paddrs p)" "set (addrs v) \<inter> set (paddrs p) = {}"
    and "u \<notin> set (addrs v)" "u \<notin> set (paddrs p)"
  shows "\<exists>h'. rb_transplant h (Some u) (pt v) (rootp (Some u) p) tnp =
       Some (h', rootp (pt v) p, if v = Lf then ppar p else tnp) \<and>
     rep h' (ppar p) v \<and> repp h' (pt v) p \<and>
     (\<forall>z. z \<notin> set (addrs v) \<union> set (paddrs p) \<longrightarrow> h' z = h z)"
proof -
  obtain nu where nu: "h u = Some nu" "parent nu = ppar p" using assms(2) by (cases "h u") (auto simp: fld_def)
  show ?thesis
  proof (cases p)
    case Nil
    then show ?thesis using assms nu by (cases v) (auto simp: rb_transplant_def setters)
  next
    case (Cons f q')
    show ?thesis
    proof (cases f)
      case (InL a c d r)
      then show ?thesis using assms nu Cons by (cases v) (auto simp: rb_transplant_def setters)
    next
      case (InR l a c d)
      have "pt l \<noteq> Some u" using assms(8) Cons InR pt_Some_in by fastforce
      then show ?thesis using assms nu Cons InR by (cases v) (auto simp: rb_transplant_def setters)
    qed
  qed
qed

lemma minimum_ok:
  assumes "rep h s (Nd l a c d r)"
  shows "\<exists>y cy dy x q. Nd l a c d r = plug (Nd Lf y cy dy x) q \<and> minimum h (Some a) = Some (Some y) \<and> pleft q = []"
  using assms
proof (induction l arbitrary: s a c d r)
  case Lf
  then have "minimum h (Some a) = Some (Some a)" by (subst minimum.simps) simp
  then show ?case by (intro exI [of _ a] exI [of _ c] exI [of _ d] exI [of _ r] exI [of _ "[]"]) simp
next
  case (Nd ll la lc ld lr)
  have rl: "rep h (Some a) (rt.Nd ll la lc ld lr)" using Nd.prems by simp
  obtain y cy dy x q where IH: "rt.Nd ll la lc ld lr = plug (rt.Nd Lf y cy dy x) q" "minimum h (Some la) = Some (Some y)" "pleft q = []"
    using Nd.IH(1) [OF rl] by blast
  have "minimum h (Some a) = Some (Some y)" using Nd.prems IH(2) by (subst minimum.simps) simp
  moreover have "rt.Nd (rt.Nd ll la lc ld lr) a c d r = plug (rt.Nd Lf y cy dy x) (q @ [InL a c d r])"
    unfolding IH(1) plug_append by simp
  moreover have "pleft (q @ [InL a c d r]) = []" using IH(3) by (simp add: pleft_append)
  ultimately show ?case by blast
qed


text \<open>
  The result of splicing: the node \<open>z\<close> is gone and the subtree \<open>x\<close> sits where a node of colour
  \<open>yc\<close> is missing.
\<close>

definition spliced :: "'d heap \<Rightarrow> 'd rt \<Rightarrow> nat \<Rightarrow> 'd heap \<times> ptr \<times> ptr \<times> ptr \<times> bool \<Rightarrow> bool" where
  "spliced h t0 z res \<longleftrightarrow>
     (\<exists>h' x p tnp yc. res = (h', rootp (pt x) p, tnp, pt x, yc) \<and> zip_rep h' x p \<and> (x = Lf \<longrightarrow> tnp = ppar p) \<and>
        items (plug x p) = filter (\<lambda>n. fst n \<noteq> z) (items t0) \<and> same_out t0 h h' \<and>
        invc x \<and> invh x \<and> fits_path (if yc then bh x else bh x + 1) p \<and> (yc \<longrightarrow> \<not> red x) \<and>
        (p \<noteq> [] \<longrightarrow> \<not> fcol (last p)) \<and> (p = [] \<longrightarrow> \<not> yc))"

lemma filter_other: "z \<notin> fst ` set xs \<Longrightarrow> filter (\<lambda>n. fst n \<noteq> z) xs = xs"
  by (metis (mono_tags, lifting) filter_True image_eqI)

lemma fst_items: "fst ` set (items t) = set (addrs t)"
  by (metis list.set_map map_fst_items)

lemma fst_pleft_pright: "fst ` set (pleft p) \<union> fst ` set (pright p) = set (paddrs p)"
proof (induction p rule: pleft.induct)
  case (2 a c d r p)
  then show ?case by (simp add: image_Un fst_items) blast
next
  case (3 l a c d p)
  then show ?case by (simp add: image_Un fst_items) blast
qed simp

lemma filter_items_plug:
  assumes "distinct (addrs (plug (Nd l z c d r) p))"
  shows "filter (\<lambda>n. fst n \<noteq> z) (items (plug (Nd l z c d r) p)) = pleft p @ items l @ items r @ pright p"
proof -
  have "z \<notin> set (paddrs p)" "z \<notin> set (addrs l)" "z \<notin> set (addrs r)" using assms by (auto simp: distinct_plug)
  then have "z \<notin> fst ` set (pleft p)" "z \<notin> fst ` set (pright p)" "z \<notin> fst ` set (items l)" "z \<notin> fst ` set (items r)"
    using fst_pleft_pright [of p] by (auto simp: fst_items)
  then show ?thesis by (simp add: items_plug filter_other)
qed

lemma rbt_path:
  assumes "rbt (plug t p)"
  shows "fits_path (bh t) p" "invh t" "invc t" "red t \<longrightarrow> \<not> pred_col p" "p \<noteq> [] \<longrightarrow> \<not> fcol (last p)" "p = [] \<longrightarrow> \<not> red t"
  using plug_invD [of t p] assms by (auto simp: rbt_def red_plug split: if_splits)

lemma splice_one:
  assumes t0: "t0 = plug (Nd l z c d r) p" and z: "rep h None t0" "distinct (addrs t0)" and rb: "rbt t0"
    and one: "l = Lf \<or> r = Lf"
  shows "\<exists>res. splice_out h (Some z) (pt t0) = Some res \<and> spliced h t0 z res"
proof -
  define v where "v = (if l = Lf then r else l)"
  have Z: "zip_rep h (Nd l z c d r) p" using z t0 by (simp add: zip_rep_plug)
  have hz: "h z = Some \<lparr>parent = ppar p, left = pt l, right = pt r, color = c, payload = d\<rparr>" using Z by (simp add: zip_rep_def)
  have dis: "distinct (addrs v)" "distinct (paddrs p)" "set (addrs v) \<inter> set (paddrs p) = {}" "z \<notin> set (addrs v)" "z \<notin> set (paddrs p)"
    using z(2) unfolding t0 v_def by (auto simp: distinct_plug)
  have rv: "rep h (Some z) v" "repp h (Some z) p" using Z by (auto simp: zip_rep_def v_def)
  obtain h' where h': "rb_transplant h (Some z) (pt v) (rootp (Some z) p) None =
       Some (h', rootp (pt v) p, if v = Lf then ppar p else None)"
     "rep h' (ppar p) v" "repp h' (pt v) p" "\<forall>a. a \<notin> set (addrs v) \<union> set (paddrs p) \<longrightarrow> h' a = h a"
    using transplant_rep [OF rv(2) _ rv(1) dis(1-3) dis(4,5), of None] hz by auto
  have root: "pt t0 = rootp (Some z) p" by (simp add: t0 pt_plug)
  have run: "splice_out h (Some z) (pt t0) = Some (h', rootp (pt v) p, if v = Lf then ppar p else None, pt v, c)"
    using hz h'(1) one unfolding root splice_out_def v_def by (auto split: if_splits)
  have it: "items (plug v p) = filter (\<lambda>n. fst n \<noteq> z) (items t0)"
    using filter_items_plug [of l z c d r p] z(2) one unfolding t0 v_def by (auto simp: items_plug)
  note I = rbt_path [OF rb [unfolded t0]]
  have inv: "invc v" "invh v" "fits_path (if c then bh v else bh v + 1) p" "c \<longrightarrow> \<not> red v"
    using I(1-3) one by (auto simp: v_def)
  have "zip_rep h' v p" using h'(2,3) dis by (auto simp: zip_rep_def distinct_plug)
  moreover have "same_out t0 h h'" using h'(4) unfolding same_out_def t0 v_def set_addrs_plug by auto
  ultimately show ?thesis
    using run it inv I(5,6) unfolding spliced_def
    by (intro exI [of _ "(h', rootp (pt v) p, if v = Lf then ppar p else None, pt v, c)"] conjI exI [of _ h'] exI [of _ v]
        exI [of _ p] exI [of _ "if v = Lf then ppar p else None"] exI [of _ c]) auto
qed


text \<open>The two ways in which the successor is detached, both ending with it in the place of \<open>z\<close>.\<close>

lemma splice_min_direct:
  assumes Z: "zip_rep h (Nd l z c d (Nd Lf y cy dy x)) p" and l: "l \<noteq> Lf"
  shows "\<exists>h' tnp. splice_min h (Some z) (Some y) (rootp (Some z) p) = Some (h', rootp (Some y) p, tnp, pt x, cy) \<and>
     zip_rep h' (Nd l y c dy x) p \<and> (x = Lf \<longrightarrow> tnp = Some y) \<and>
     same_out (plug (Nd l z c d (Nd Lf y cy dy x)) p) h h'"
proof -
  define tnp where "tnp = (if x = Lf then Some y else None)"
  have hz: "h z = Some \<lparr>parent = ppar p, left = pt l, right = Some y, color = c, payload = d\<rparr>"
    and hy: "h y = Some \<lparr>parent = Some z, left = None, right = pt x, color = cy, payload = dy\<rparr>"
    and rx: "rep h (Some y) x" and rl: "rep h (Some z) l" and rp: "repp h (Some z) p" using Z by (auto simp: zip_rep_def)
  have min: "minimum h (Some y) = Some (Some y)" using hy by (subst minimum.simps) simp
  have dis: "distinct (addrs x)" "distinct (addrs l)" "distinct (paddrs p)" "z \<noteq> y" "y \<notin> set (addrs x)" "z \<notin> set (addrs x)"
    "y \<notin> set (addrs l)" "z \<notin> set (addrs l)" "y \<notin> set (paddrs p)" "z \<notin> set (paddrs p)"
    "set (addrs x) \<inter> set (paddrs p) = {}" "set (addrs l) \<inter> set (paddrs p) = {}" "set (addrs l) \<inter> set (addrs x) = {}"
    using Z by (auto simp: zip_rep_def distinct_plug)
  have setp: "set_parent h (pt x) (Some y) = Some h" if "x \<noteq> Lf"
    using rx that by (cases x) (auto simp: set_parent_def fun_upd_idem)
  have tr: "repp h (Some z) p" "fld h (Some z) parent = Some (ppar p)" "rep h (Some z) (Nd Lf y cy dy x)"
    using rp hz hy rx by auto
  obtain h1 where h1: "rb_transplant h (Some z) (Some y) (rootp (Some z) p) tnp = Some (h1, rootp (Some y) p, tnp)"
    "rep h1 (ppar p) (Nd Lf y cy dy x)" "repp h1 (Some y) p"
    "\<forall>a. a \<notin> insert y (set (addrs x)) \<union> set (paddrs p) \<longrightarrow> h1 a = h a"
    using transplant_rep [OF tr, of tnp] dis by auto
  have keep: "h1 z = h z" "\<And>a. a \<in> set (addrs l) \<Longrightarrow> h1 a = h a" using h1(4) dis by auto
  have rl1: "rep h1 (Some z) l" using rl rep_cong [of l h h1 "Some z"] keep(2) by simp
  obtain ll la lc ld lr where L: "l = Nd ll la lc ld lr" using l by (cases l) auto
  obtain h2 h3 h' where h: "set_left h1 (Some y) (Some la) = Some h2" "fld h2 (Some y) left = Some (Some la)"
    "set_parent h2 (Some la) (Some y) = Some h3" "fld h3 (Some z) color = Some c" "set_color h3 (Some y) c = Some h'"
    "rep h' (ppar p) (Nd l y c dy x)" "repp h' (Some y) p" "\<forall>a. a \<noteq> y \<and> a \<noteq> la \<longrightarrow> h' a = h1 a"
    using h1(2,3) rl1 keep(1) hz dis L by (auto simp: setters)
  have "zip_rep h' (Nd l y c dy x) p" using h(6,7) dis by (auto simp: zip_rep_def distinct_plug)
  moreover have "same_out (plug (Nd l z c d (Nd Lf y cy dy x)) p) h h'"
    using h(8) h1(4) L unfolding same_out_def set_addrs_plug by auto
  moreover have "splice_min h (Some z) (Some y) (rootp (Some z) p) = Some (h', rootp (Some y) p, tnp, pt x, cy)"
    using min hy setp h1(1) keep(1) hz h(1-5) L unfolding splice_min_def tnp_def by (cases "x = Lf") simp_all
  ultimately show ?thesis by (auto simp: tnp_def)
qed


lemma splice_min_deep:
  assumes Z: "zip_rep h (Nd Lf y cy dy x) (q @ InR l z c d # p)" and l: "l \<noteq> Lf" and q: "q \<noteq> []"
    and min: "minimum h (pt (plug (Nd Lf y cy dy x) q)) = Some (Some y)"
  shows "\<exists>h' tnp. splice_min h (Some z) (pt (plug (Nd Lf y cy dy x) q)) (rootp (Some z) p) =
       Some (h', rootp (Some y) p, tnp, pt x, cy) \<and>
     zip_rep h' (Nd l y c dy (plug x q)) p \<and> (x = Lf \<longrightarrow> tnp = ppar q) \<and>
     same_out (plug (Nd Lf y cy dy x) (q @ InR l z c d # p)) h h'"
proof -
  let ?P = "q @ InR l z c d # p"
  define R where "R = plug x q"
  have ppq: "ppar ?P = ppar q" "rootp s ?P = rootp (Some z) p" for s using q by (cases q; simp add: rootp_def)+
  have hy: "h y = Some \<lparr>parent = ppar q, left = None, right = pt x, color = cy, payload = dy\<rparr>"
    using Z ppq by (simp add: zip_rep_def)
  have dis: "distinct (addrs x)" "distinct (paddrs ?P)" "set (addrs x) \<inter> set (paddrs ?P) = {}" "y \<notin> set (addrs x)"
    "y \<notin> set (paddrs ?P)" using Z by (auto simp: zip_rep_def distinct_plug)
  have yz: "ppar q \<noteq> Some z"
  proof -
    obtain f where f: "f \<in> set q" "ppar q = Some (fad f)" using q by (cases q) auto
    then have "fad f \<in> set (paddrs q)" using fad_in by metis
    then show ?thesis using f(2) dis(2) by auto
  qed
  have tr: "repp h (Some y) ?P" "fld h (Some y) parent = Some (ppar ?P)" "rep h (Some y) x"
    using Z hy ppq by (auto simp: zip_rep_def)
  define tnp where "tnp = (if x = Lf then ppar q else None)"
  obtain h1 where h1: "rb_transplant h (Some y) (pt x) (rootp (Some z) p) None = Some (h1, rootp (Some z) p, tnp)"
    "rep h1 (ppar q) x" "repp h1 (pt x) ?P" "\<forall>a. a \<notin> set (addrs x) \<union> set (paddrs ?P) \<longrightarrow> h1 a = h a"
    using transplant_rep [OF tr dis, of None] ppq by (auto simp: tnp_def)
  have y1: "h1 y = h y" using h1(4) dis by auto
  have "zip_rep h1 x ?P" using h1(2,3) dis ppq by (auto simp: zip_rep_def distinct_plug)
  then have Z1: "zip_rep h1 (Nd l z c d R) p" by (simp add: zip_rep_plug plug_append R_def)
  have yR: "y \<notin> set (addrs R)" "R \<noteq> Lf" using dis q by (auto simp: R_def set_addrs_plug plug_Lf)
  obtain Rl ra Rc Rd Rr where RR: "R = Nd Rl ra Rc Rd Rr" using yR(2) by (cases R) auto
  have disR: "distinct (addrs R)" "distinct (addrs l)" "distinct (paddrs p)" "z \<notin> set (addrs R)" "z \<notin> set (addrs l)"
    "z \<notin> set (paddrs p)" "set (addrs R) \<inter> set (paddrs p) = {}" "set (addrs l) \<inter> set (paddrs p) = {}"
    "set (addrs l) \<inter> set (addrs R) = {}" "y \<noteq> z" "y \<notin> set (addrs l)" "y \<notin> set (paddrs p)"
    using Z1 dis by (auto simp: zip_rep_def distinct_plug)
  have hz: "h1 z = Some \<lparr>parent = ppar p, left = pt l, right = Some ra, color = c, payload = d\<rparr>"
    "rep h1 (Some z) R" "rep h1 (Some z) l" "repp h1 (Some z) p" using Z1 RR by (auto simp: zip_rep_def)
  obtain h2 h3 where h: "set_right h1 (Some y) (Some ra) = Some h2" "fld h2 (Some y) right = Some (Some ra)"
    "set_parent h2 (Some ra) (Some y) = Some h3"
    "rep h3 (ppar q) (Nd Lf y cy dy R)" "rep h3 (Some z) l" "repp h3 (Some z) p" "h3 z = h1 z"
    "\<forall>a. a \<noteq> y \<and> a \<noteq> ra \<longrightarrow> h3 a = h1 a"
    using hz y1 hy disR yR RR by (auto simp: setters)
  have tr2: "fld h3 (Some z) parent = Some (ppar p)" using h(7) hz(1) by simp
  obtain h4 where h4: "rb_transplant h3 (Some z) (Some y) (rootp (Some z) p) tnp = Some (h4, rootp (Some y) p, tnp)"
    "rep h4 (ppar p) (Nd Lf y cy dy R)" "repp h4 (Some y) p"
    "\<forall>a. a \<notin> insert y (set (addrs R)) \<union> set (paddrs p) \<longrightarrow> h4 a = h3 a"
    using transplant_rep [OF h(6) tr2 h(4), of tnp] disR yR by auto
  have keep: "h4 z = h1 z" "\<And>a. a \<in> set (addrs l) \<Longrightarrow> h4 a = h3 a" using h4(4) disR h(7) by auto
  have rl1: "rep h4 (Some z) l" using h(5) rep_cong [of l h3 h4 "Some z"] keep(2) by simp
  obtain ll la lc ld lr where L: "l = Nd ll la lc ld lr" using l by (cases l) auto
  obtain h5 h6 h' where H: "set_left h4 (Some y) (Some la) = Some h5" "fld h5 (Some y) left = Some (Some la)"
    "set_parent h5 (Some la) (Some y) = Some h6" "fld h6 (Some z) color = Some c" "set_color h6 (Some y) c = Some h'"
    "rep h' (ppar p) (Nd l y c dy R)" "repp h' (Some y) p" "\<forall>a. a \<noteq> y \<and> a \<noteq> la \<longrightarrow> h' a = h4 a"
    using h4(2,3) rl1 keep(1) hz(1) disR yR(1) L by (auto simp: setters)
  have "zip_rep h' (Nd l y c dy R) p" using H(6,7) disR yR by (auto simp: zip_rep_def distinct_plug)
  moreover have "same_out (plug (Nd Lf y cy dy x) ?P) h h'"
  proof -
    have "h' a = h a" if "a \<notin> set (addrs (plug (Nd Lf y cy dy x) ?P))" for a
    proof -
      have "set (addrs R) = set (addrs x) \<union> set (paddrs q)" "ra \<in> set (addrs R)" 
        by (simp add: R_def set_addrs_plug) (simp add: RR)
      then have "a \<noteq> y" "a \<noteq> la" "a \<notin> set (addrs R)" "a \<notin> set (paddrs p)" "a \<noteq> ra" "a \<notin> set (addrs x) \<union> set (paddrs ?P)"
        using that L unfolding set_addrs_plug by auto
      then show ?thesis using H(8) h4(4) h(8) h1(4) by auto
    qed
    then show ?thesis by (simp add: same_out_def)
  qed
  moreover have "splice_min h (Some z) (pt (plug (Nd Lf y cy dy x) q)) (rootp (Some z) p) =
       Some (h', rootp (Some y) p, tnp, pt x, cy)"
    using min hy yz h1(1) keep(1) hz(1) h(1-3,7) h4(1) H(1-5) L unfolding splice_min_def by simp
  ultimately show ?thesis by (auto simp: tnp_def R_def)
qed


lemma fits_path_frame:
  "fits_path n (q @ InR l z c d # p) = fits_path n (q @ InR l y c e # p)"
proof (induction q arbitrary: n)
  case (Cons f q)
  have "pred_col (q @ InR l z c d # p) = pred_col (q @ InR l y c e # p)" by (cases q) auto
  then show ?case using Cons by (cases f) auto
qed simp

lemma splice_two:
  assumes t0: "t0 = plug (Nd l z c d r) p" and z: "rep h None t0" "distinct (addrs t0)" and rb: "rbt t0"
    and two: "l \<noteq> Lf" "r \<noteq> Lf"
  shows "\<exists>res. splice_out h (Some z) (pt t0) = Some res \<and> spliced h t0 z res"
proof -
  have Z: "zip_rep h (Nd l z c d r) p" using z t0 by (simp add: zip_rep_plug)
  have hz: "h z = Some \<lparr>parent = ppar p, left = pt l, right = pt r, color = c, payload = d\<rparr>" "rep h (Some z) r"
    using Z by (auto simp: zip_rep_def)
  obtain y cy dy x q where m: "r = plug (Nd Lf y cy dy x) q" "minimum h (pt r) = Some (Some y)" "pleft q = []"
  proof -
    obtain rl ra rc rd rr where r: "r = Nd rl ra rc rd rr" using two(2) by (cases r) auto
    show ?thesis using minimum_ok [OF hz(2) [unfolded r]] that unfolding r pt.simps by blast
  qed
  have root: "pt t0 = rootp (Some z) p" by (simp add: t0 pt_plug)
  have whole: "t0 = plug (Nd Lf y cy dy x) (q @ InR l z c d # p)" by (simp add: t0 m(1) plug_append)
  have Zy: "zip_rep h (Nd Lf y cy dy x) (q @ InR l z c d # p)" using z whole by (simp add: zip_rep_plug)
  obtain h' tnp where S: "splice_min h (Some z) (pt r) (rootp (Some z) p) = Some (h', rootp (Some y) p, tnp, pt x, cy)"
    "zip_rep h' (Nd l y c dy (plug x q)) p" "x = Lf \<longrightarrow> tnp = ppar (q @ InR l y c dy # p)" "same_out t0 h h'"
  proof (cases "q = []")
    case True
    then show ?thesis using splice_min_direct [of h l z c d y cy dy x p] Z two(1) m(1) t0 that by auto
  next
    case False
    have pp: "ppar (q @ InR l y c dy # p) = ppar q" using False by (cases q) auto
    show ?thesis
      using splice_min_deep [OF Zy two(1) False m(2) [unfolded m(1)]] that unfolding whole m(1) [symmetric] pp by blast
  qed
  let ?P = "q @ InR l y c dy # p"
  have run: "splice_out h (Some z) (pt t0) = Some (h', rootp (pt x) ?P, tnp, pt x, cy)"
    using hz(1) two S(1) unfolding root splice_out_def by (simp add: rootp_def)
  have zip: "zip_rep h' x ?P" using S(2) by (simp add: zip_rep_plug plug_append)
  have it: "items (plug x ?P) = filter (\<lambda>n. fst n \<noteq> z) (items t0)"
    using filter_items_plug [of l z c d r p] z(2) m(3)
    by (simp add: t0 items_plug m(1) pleft_append pright_append)
  note I = rbt_path [OF rb [unfolded whole]]
  have fit: "fits_path (bh (Nd Lf y cy dy x)) ?P" using I(1) fits_path_frame by metis
  have inv: "invc x" "invh x" "fits_path (if cy then bh x else bh x + 1) ?P" "cy \<longrightarrow> \<not> red x" "\<not> fcol (last ?P)"
    using I(2,3,5) fit by auto
  show ?thesis
    using run zip it inv S(3,4) unfolding spliced_def
    by (intro exI [of _ "(h', rootp (pt x) ?P, tnp, pt x, cy)"] conjI exI [of _ h'] exI [of _ x]
        exI [of _ ?P] exI [of _ tnp] exI [of _ cy]) auto
qed

lemma delete_one_node_ok:
  assumes t0: "t0 = plug (Nd l z c d r) p" and z: "rep h None t0" "distinct (addrs t0)" and rb: "rbt t0"
  shows "\<exists>h' t'. delete_one_node h (Some z) (pt t0) = Some (h', pt t') \<and> rep h' None t' \<and> distinct (addrs t') \<and>
     same_out t0 h h' \<and> items t' = filter (\<lambda>n. fst n \<noteq> z) (items t0) \<and> rbt t'"
proof -
  obtain h1 x q tnp yc where S: "splice_out h (Some z) (pt t0) = Some (h1, rootp (pt x) q, tnp, pt x, yc)" "zip_rep h1 x q"
    "x = Lf \<longrightarrow> tnp = ppar q" "items (plug x q) = filter (\<lambda>n. fst n \<noteq> z) (items t0)" "same_out t0 h h1" "invc x" "invh x"
    "fits_path (if yc then bh x else bh x + 1) q" "yc \<longrightarrow> \<not> red x" "q \<noteq> [] \<longrightarrow> \<not> fcol (last q)" "q = [] \<longrightarrow> \<not> yc"
    using splice_one [OF t0 z rb] splice_two [OF t0 z rb] unfolding spliced_def by blast
  have sub: "set (addrs (plug x q)) \<subseteq> set (addrs t0)"
    using S(4) fst_items [of "plug x q"] fst_items [of t0] by auto
  show ?thesis
  proof (cases yc)
    case True
    have "rbt (plug x q)" using plug_rbt [of x q] S(6-11) True by auto
    then show ?thesis
      using S(1,2,4,5) True by (intro exI [of _ h1] exI [of _ "plug x q"])
        (auto simp: delete_one_node_def pt_plug zip_rep_plug)
  next
    case False
    have st: "del_state h1 x q tnp" using S(2,3,6-8,10) False paint_invc by (auto simp: del_state_def)
    obtain h' t' where F: "fix_delete h1 (pt x) (rootp (pt x) q) tnp = Some (h', pt t')" "rep h' None t'" "distinct (addrs t')"
       "same_out (plug x q) h1 h'" "items t' = items (plug x q)" "rbt t'"
      using fix_delete_ok [OF st] by blast
    have "same_out t0 h h'" using S(5) F(4) sub by (auto simp: same_out_def)
    then show ?thesis using F S(1,4) False by (intro exI [of _ h'] exI [of _ t']) (auto simp: delete_one_node_def)
  qed
qed

end
