(* ===== verification/Pool.thy ===== *)
theory Pool
  imports Prelude
begin

text \<open>
  \<^verbatim>\<open>kimix::Pool\<close> (\<^verbatim>\<open>src/core/pool.h\<close>): blocks of 64 objects and a LIFO free list that is threaded
  through the free objects. An object is the number of its address; the chain of free objects is the
  list \<open>pl_free\<close>, head first. \<open>pl_brk\<close> is the first address that no block uses: \<^verbatim>\<open>operator new\<close>
  returns it. The counter is a 64-bit unsigned number. The lock of the thread-safe variant makes
  every operation atomic and has no counterpart here.
\<close>

section \<open>Model\<close>

record pool =
  pl_free :: "nat list"
  pl_blocks :: "nat list"
  pl_allocated :: "64 word"
  pl_brk :: nat

definition block_size :: nat where "block_size = 64"

definition pool_new :: "nat \<Rightarrow> pool" where
  "pool_new brk = \<lparr>pl_free = [], pl_blocks = [], pl_allocated = 0, pl_brk = brk\<rparr>"

definition deallocate_impl :: "pool \<Rightarrow> nat \<Rightarrow> pool" where
  "deallocate_impl p a = p\<lparr>pl_free := a # pl_free p, pl_allocated := pl_allocated p - 1\<rparr>"

text \<open>\<^verbatim>\<open>for (size_t i = 0; i < block_size; ++i) deallocate_impl(&block[i]);\<close>\<close>

fun thread_block :: "pool \<Rightarrow> nat \<Rightarrow> nat \<Rightarrow> nat \<Rightarrow> pool" where
  "thread_block p block i 0 = p"
| "thread_block p block i (Suc left) = thread_block (deallocate_impl p (block + i)) block (i + 1) left"

definition pop_free :: "pool \<Rightarrow> (nat \<times> pool) option" where
  "pop_free p =
     (case pl_free p of [] \<Rightarrow> None | a # free \<Rightarrow> Some (a, p\<lparr>pl_free := free, pl_allocated := pl_allocated p + 1\<rparr>))"

text \<open>The recursive call of \<^verbatim>\<open>allocate_impl\<close> finds the free list non-empty.\<close>

definition allocate_impl :: "pool \<Rightarrow> (nat \<times> pool) option" where
  "allocate_impl p =
     (if pl_free p \<noteq> [] then pop_free p
      else (let block = pl_brk p;
                p = p\<lparr>pl_blocks := pl_blocks p @ [block], pl_brk := block + block_size\<rparr>
            in pop_free (thread_block p block 0 block_size)))"

definition allocate :: "pool \<Rightarrow> (nat \<times> pool) option" where "allocate = allocate_impl"
definition deallocate :: "pool \<Rightarrow> nat \<Rightarrow> pool" where "deallocate = deallocate_impl"
definition allocated_count :: "pool \<Rightarrow> 64 word" where "allocated_count p = pl_allocated p"

section \<open>Allocation is fresh\<close>

text \<open>
  The invariant relates the pool to the set of objects its clients hold: free and live objects
  together are exactly the cells of the blocks, below \<open>pl_brk\<close>, and none is both.
\<close>

definition pool_ok :: "pool \<Rightarrow> nat set \<Rightarrow> bool" where
  "pool_ok p live \<longleftrightarrow>
     distinct (pl_free p) \<and> set (pl_free p) \<inter> live = {} \<and> finite live \<and>
     (\<forall>a \<in> set (pl_free p) \<union> live. a < pl_brk p) \<and>
     card live + length (pl_free p) = block_size * length (pl_blocks p) \<and>
     pl_allocated p = of_nat (card live) - of_nat (block_size * length (pl_blocks p))"

lemma thread_block_eq:
  "thread_block p b i n = p\<lparr>pl_free := rev (map (\<lambda>j. b + i + j) [0..<n]) @ pl_free p, pl_allocated := pl_allocated p - of_nat n\<rparr>"
proof (induction n arbitrary: p i)
  case (Suc n)
  have "rev (map (\<lambda>j. b + i + j) [0..<Suc n]) = rev (map (\<lambda>j. b + (i + 1) + j) [0..<n]) @ [b + i]"
    by (subst upt_conv_Cons) (simp_all add: map_Suc_upt [symmetric] del: upt_Suc)
  then show ?case using Suc by (simp add: deallocate_impl_def del: upt_Suc)
qed simp

lemma pop_free_ok:
  assumes "distinct (pl_free p)" "set (pl_free p) \<inter> live = {}" "finite live" "\<forall>a \<in> set (pl_free p) \<union> live. a < pl_brk p"
    "card live + length (pl_free p) = block_size * length (pl_blocks p)"
    "pl_allocated p = of_nat (card live) - of_nat (block_size * length (pl_blocks p))" "pl_free p \<noteq> []"
  shows "\<exists>a p'. pop_free p = Some (a, p') \<and> a \<notin> live \<and> pool_ok p' (insert a live) \<and> pl_brk p' = pl_brk p"
  using assms by (cases "pl_free p") (auto simp: pop_free_def pool_ok_def)

lemma allocate_fresh:
  assumes "pool_ok p live"
  shows "\<exists>a p'. allocate p = Some (a, p') \<and> a \<notin> live \<and> pool_ok p' (insert a live) \<and> pl_brk p \<le> pl_brk p'"
proof (cases "pl_free p = []")
  case False
  then show ?thesis using pop_free_ok [of p live] assms by (auto simp: allocate_def allocate_impl_def pool_ok_def)
next
  case True
  define q where "q = thread_block (p\<lparr>pl_blocks := pl_blocks p @ [pl_brk p], pl_brk := pl_brk p + block_size\<rparr>) (pl_brk p) 0 block_size"
  have fr: "pl_free q = rev (map (\<lambda>j. pl_brk p + j) [0..<block_size])" using True by (simp add: q_def thread_block_eq)
  have rest: "pl_blocks q = pl_blocks p @ [pl_brk p]" "pl_brk q = pl_brk p + block_size"
    "pl_allocated q = pl_allocated p - of_nat block_size" by (simp_all add: q_def thread_block_eq)
  have lt: "a < pl_brk p" if "a \<in> live" for a using assms that by (auto simp: pool_ok_def)
  have "\<exists>a p'. pop_free q = Some (a, p') \<and> a \<notin> live \<and> pool_ok p' (insert a live) \<and> pl_brk p' = pl_brk q"
  proof (rule pop_free_ok)
    show "distinct (pl_free q)" unfolding fr by (simp add: distinct_map inj_on_def)
    show "set (pl_free q) \<inter> live = {}" unfolding fr by (auto dest: lt)
    show "\<forall>a \<in> set (pl_free q) \<union> live. a < pl_brk q" unfolding fr rest by (auto dest: lt)
    show "card live + length (pl_free q) = block_size * length (pl_blocks q)"
      using assms True unfolding fr rest pool_ok_def by simp
    show "pl_allocated q = of_nat (card live) - of_nat (block_size * length (pl_blocks q))"
      using assms unfolding rest pool_ok_def by simp
    show "pl_free q \<noteq> []" unfolding fr by (simp add: block_size_def)
  qed (use assms in \<open>simp add: pool_ok_def\<close>)
  then show ?thesis using True rest(2) by (auto simp: allocate_def allocate_impl_def q_def Let_def)
qed

lemma deallocate_ok:
  assumes "pool_ok p live" "a \<in> live"
  shows "pool_ok (deallocate p a) (live - {a})"
proof -
  obtain m where m: "card live = Suc m" "card (live - {a}) = m"
    using assms card_Suc_Diff1 [of live a] by (metis pool_ok_def)
  show ?thesis
    using assms unfolding pool_ok_def m by (auto simp: deallocate_def deallocate_impl_def m)
qed

lemma pool_new_ok: "pool_ok (pool_new b) {}"
  by (simp add: pool_ok_def pool_new_def)

section \<open>Sequences of operations\<close>

text \<open>
  A client keeps the list of the objects it holds; \<open>Pool_free i\<close> returns the one at index \<open>i\<close>. The number of
  objects in use and the largest number so far are computed from the operations alone.
\<close>

datatype pool_op = Pool_alloc | Pool_free nat

definition pool_step :: "pool \<times> nat list \<Rightarrow> pool_op \<Rightarrow> (pool \<times> nat list) option" where
  "pool_step s opn =
     (case (s, opn) of
        ((p, held), Pool_alloc) \<Rightarrow> do { (a, p) \<leftarrow> allocate p; Some (p, a # held) }
      | ((p, held), Pool_free i) \<Rightarrow>
          if i < length held then Some (deallocate p (held ! i), take i held @ drop (Suc i) held) else None)"

fun pool_run :: "pool \<times> nat list \<Rightarrow> pool_op list \<Rightarrow> (pool \<times> nat list) option" where
  "pool_run s [] = Some s"
| "pool_run s (opn # ops) = do { s \<leftarrow> pool_step s opn; pool_run s ops }"

fun pool_use :: "nat \<times> nat \<Rightarrow> pool_op list \<Rightarrow> nat \<times> nat" where
  "pool_use nm [] = nm"
| "pool_use (n, m) (Pool_alloc # ops) = pool_use (n + 1, max m (n + 1)) ops"
| "pool_use (n, m) (Pool_free i # ops) = pool_use (n - 1, m) ops"

fun pool_ops_ok :: "nat \<Rightarrow> pool_op list \<Rightarrow> bool" where
  "pool_ops_ok n [] = True"
| "pool_ops_ok n (Pool_alloc # ops) = pool_ops_ok (n + 1) ops"
| "pool_ops_ok n (Pool_free i # ops) = (i < n \<and> pool_ops_ok (n - 1) ops)"

definition use_ok :: "pool \<times> nat list \<Rightarrow> nat \<times> nat \<Rightarrow> bool" where
  "use_ok s nm \<longleftrightarrow>
     (case (s, nm) of ((p, held), (n, m)) \<Rightarrow>
        pool_ok p (set held) \<and> distinct held \<and> length held = n \<and> n \<le> m \<and> length (pl_blocks p) = (m + 63) div 64)"

lemma allocate_blocks:
  assumes "allocate p = Some (a, p')"
  shows "length (pl_blocks p') = length (pl_blocks p) + (if pl_free p = [] then 1 else 0)"
  using assms
  by (auto simp: allocate_def allocate_impl_def pop_free_def thread_block_eq Let_def split: if_splits list.splits)

lemma use_alloc:
  assumes "use_ok (p, held) (n, m)"
  shows "\<exists>s'. pool_step (p, held) Pool_alloc = Some s' \<and> use_ok s' (n + 1, max m (n + 1))"
proof -
  have I: "pool_ok p (set held)" "distinct held" "length held = n" "n \<le> m" "length (pl_blocks p) = (m + 63) div 64"
    using assms by (simp_all add: use_ok_def)
  obtain a p' where a: "allocate p = Some (a, p')" "a \<notin> set held" "pool_ok p' (insert a (set held))"
    using allocate_fresh [OF I(1)] by blast
  have c: "n + length (pl_free p) = 64 * ((m + 63) div 64)"
    using I(1,2,3,5) by (simp add: pool_ok_def distinct_card block_size_def)
  have "(max m (n + 1) + 63) div 64 = (m + 63) div 64 + (if pl_free p = [] then 1 else 0)"
  proof (cases "pl_free p = []")
    case True
    then have "m = n" using c I(4) by simp
    then show ?thesis using True c by simp
  next
    case False
    then have "n + 1 \<le> 64 * ((m + 63) div 64)" using c by (cases "pl_free p") auto
    then have "(n + 1 + 63) div 64 \<le> (m + 63) div 64" by simp
    moreover have "(m + 63) div 64 \<le> (n + 1 + 63) div 64" if "m \<le> n + 1" using that by (intro div_le_mono) simp
    ultimately show ?thesis using False by (cases "m \<le> n + 1") auto
  qed
  then show ?thesis
    using I a allocate_blocks [OF a(1)] by (simp add: pool_step_def use_ok_def)
qed

lemma use_free:
  assumes "use_ok (p, held) (n, m)" "i < n"
  shows "\<exists>s'. pool_step (p, held) (Pool_free i) = Some s' \<and> use_ok s' (n - 1, m)"
proof -
  have I: "pool_ok p (set held)" "distinct held" "length held = n" "n \<le> m" "length (pl_blocks p) = (m + 63) div 64"
    using assms by (simp_all add: use_ok_def)
  have h: "held = take i held @ held ! i # drop (Suc i) held" using assms(2) I(3) by (simp add: id_take_nth_drop)
  then have d: "distinct (take i held @ held ! i # drop (Suc i) held)" using I(2) by simp
  have "set held = insert (held ! i) (set (take i held @ drop (Suc i) held))" by (subst h) auto
  then have "set (take i held @ drop (Suc i) held) = set held - {held ! i}" using d by auto
  then show ?thesis
    using deallocate_ok [OF I(1), of "held ! i"] I d assms(2)
    by (simp add: pool_step_def use_ok_def deallocate_def deallocate_impl_def)
qed

lemma pool_run_use:
  "pool_ops_ok n ops \<Longrightarrow> use_ok s (n, m) \<Longrightarrow> \<exists>s'. pool_run s ops = Some s' \<and> use_ok s' (pool_use (n, m) ops)"
proof (induction ops arbitrary: s n m)
  case (Cons opn ops)
  obtain p held where s: "s = (p, held)" by (cases s)
  show ?case
  proof (cases opn)
    case Pool_alloc
    obtain s' where "pool_step s opn = Some s'" "use_ok s' (n + 1, max m (n + 1))"
      using use_alloc [of p held n m] Cons.prems(2) s Pool_alloc by auto
    then show ?thesis using Cons.IH [of "n + 1" s'] Cons.prems(1) Pool_alloc by simp
  next
    case (Pool_free i)
    obtain s' where "pool_step s opn = Some s'" "use_ok s' (n - 1, m)"
      using use_free [of p held n m i] Cons.prems s Pool_free by auto
    then show ?thesis using Cons.IH [of "n - 1" s'] Cons.prems(1) Pool_free by simp
  qed
qed simp

section \<open>Properties\<close>

text \<open>
  Property C36.
  In every state of the pool reached by its own operations, \<^verbatim>\<open>allocate\<close> returns an object that no
  client holds, and the invariant holds again; returning an object keeps the invariant; and an object that
  is returned is the next one that is handed out, with the pool as it was.
\<close>

theorem pool_allocate_fresh:
  assumes "pool_ok p live"
  shows "(\<exists>a p'. allocate p = Some (a, p') \<and> a \<notin> live \<and> pool_ok p' (insert a live)) \<and>
     (\<forall>a\<in>live. pool_ok (deallocate p a) (live - {a}) \<and> allocate (deallocate p a) = Some (a, p))"
  using allocate_fresh [OF assms] deallocate_ok [OF assms]
  by (auto simp: allocate_def allocate_impl_def pop_free_def deallocate_def deallocate_impl_def)

theorem pool_allocate_fresh_witness:
  "\<exists>a p'. allocate (pool_new 0) = Some (a, p') \<and> pool_ok p' {a}"
  using pool_allocate_fresh [OF pool_new_ok [of 0]] by auto

text \<open>
  Property C37.
  \<^verbatim>\<open>allocated_count\<close> is not the number of objects in use. After any sequence of allocations and returns on a new
  pool the objects held are distinct and the counter is their number minus 64 for every
  block, where the number of blocks is the largest number of objects held at once, divided by
  64 and rounded up: threading a new block through \<^verbatim>\<open>deallocate_impl\<close> decrements the counter 64
  times, so already the first allocation leaves it wrapped around at \<open>1 - 64\<close>.
\<close>

theorem pool_allocated_count_off:
  assumes "pool_ops_ok 0 ops"
  shows "\<exists>p held. pool_run (pool_new b, []) ops = Some (p, held) \<and> distinct held \<and>
     length held = fst (pool_use (0, 0) ops) \<and>
     allocated_count p = of_nat (length held) - of_nat (64 * ((snd (pool_use (0, 0) ops) + 63) div 64))"
proof -
  have "use_ok (pool_new b, []) (0, 0)" using pool_new_ok [of b] by (simp add: use_ok_def pool_new_def)
  then obtain s' where r: "pool_run (pool_new b, []) ops = Some s'" and ok: "use_ok s' (pool_use (0, 0) ops)"
    using pool_run_use [OF assms, of "(pool_new b, [])" 0] by auto
  obtain p held where s': "s' = (p, held)" by (cases s')
  obtain n m where nm: "pool_use (0, 0) ops = (n, m)" by (cases "pool_use (0, 0) ops")
  have "pool_ok p (set held)" "distinct held" "length held = n" "length (pl_blocks p) = (m + 63) div 64"
    using ok by (simp_all add: s' nm use_ok_def)
  then show ?thesis using r by (simp add: s' nm allocated_count_def pool_ok_def distinct_card block_size_def)
qed

theorem pool_allocated_count_off_witness:
  "\<exists>p a b c. pool_run (pool_new 0, []) [Pool_alloc, Pool_alloc, Pool_free 0, Pool_alloc, Pool_alloc] = Some (p, [a, b, c]) \<and>
     distinct [a, b, c] \<and> allocated_count p = - 61"
proof -
  let ?ops = "[Pool_alloc, Pool_alloc, Pool_free 0, Pool_alloc, Pool_alloc]"
  have "pool_ops_ok 0 ?ops" by simp
  then obtain p held where r: "pool_run (pool_new 0, []) ?ops = Some (p, held)" "distinct held" "length held = 3"
    "allocated_count p = of_nat (length held) - 64"
    using pool_allocated_count_off [of ?ops 0] by auto
  obtain a b c where "held = [a, b, c]" using r(3) by (metis length_0_conv length_Suc_conv numeral_3_eq_3)
  then show ?thesis using r by auto
qed

end
