(* ===== verification/Tree_Map.thy ===== *)
theory Tree_Map
  imports Rb_Delete Pool
begin

text \<open>
  \<^verbatim>\<open>kimix::SmallTreeMap\<close> of \<^verbatim>\<open>src/core/hash_map.h\<close>, the per-bucket ordered map of \<^verbatim>\<open>HashMap\<close>: search,
  insertion and removal by key on the red-black trees of \<open>Rb_Heap\<close>, with nodes from the pool. The
  map object is only the root pointer.
\<close>

section \<open>Model\<close>

text \<open>\<^verbatim>\<open>compare<T>\<close> of \<^verbatim>\<open>src/core/compare.h\<close>.\<close>

definition compare :: "'k::linorder \<Rightarrow> 'k \<Rightarrow> int" where
  "compare a b = (if a = b then 0 else if a < b then -1 else 1)"

record ('k, 'v) elem =
  array_index :: nat
  hash_value :: "64 word"
  first :: 'k
  second :: 'v

type_synonym ('k, 'v) node_heap = "('k, 'v) elem heap"

partial_function (option) search_tree :: "('k::linorder, 'v) node_heap \<Rightarrow> ptr \<Rightarrow> 'k \<Rightarrow> ptr option" where
  "search_tree h node key =
     (if node = None then Some None
      else do {
        e \<leftarrow> fld h node payload;
        let comp_result = compare (first e) key;
        if comp_result = 0 then Some node
        else if comp_result > 0 then do { l \<leftarrow> fld h node left; search_tree h l key }
        else do { r \<leftarrow> fld h node right; search_tree h r key }
      })"

definition find :: "('k::linorder, 'v) node_heap \<Rightarrow> ptr \<Rightarrow> 'k \<Rightarrow> ptr option" where
  "find h root key = search_tree h root key"

text \<open>
  The loop of the three insertions, \<^verbatim>\<open>while (x != nullptr)\<close>: the result is the node with the key
  (\<open>Inl\<close>) or the last node and comparison before the loop fell off the tree (\<open>Inr\<close>).
\<close>

partial_function (option) insert_point ::
    "('k::linorder, 'v) node_heap \<Rightarrow> ptr \<Rightarrow> ptr \<Rightarrow> int \<Rightarrow> 'k \<Rightarrow> (ptr + ptr \<times> int) option" where
  "insert_point h x y comp_result key =
     (if x = None then Some (Inr (y, comp_result))
      else do {
        e \<leftarrow> fld h x payload;
        let comp_result = compare (first e) key;
        if comp_result > 0 then do { l \<leftarrow> fld h x left; insert_point h l x comp_result key }
        else if comp_result = 0 then Some (Inl x)
        else do { r \<leftarrow> fld h x right; insert_point h r x comp_result key }
      })"

text \<open>From \<^verbatim>\<open>node->left = nullptr\<close> to the end of the three insertions.\<close>

definition link_node :: "('k, 'v) node_heap \<Rightarrow> ptr \<Rightarrow> ptr \<Rightarrow> int \<Rightarrow> ptr \<Rightarrow> (('k, 'v) node_heap \<times> ptr) option" where
  "link_node h node y comp_result root =
     do {
       h \<leftarrow> set_left h node None;
       h \<leftarrow> set_right h node None;
       h \<leftarrow> set_color h node True;
       h \<leftarrow> set_parent h node y;
       (h, root) \<leftarrow>
         (if y = None then Some (h, node)
          else if comp_result > 0 then do { h \<leftarrow> set_left h y node; Some (h, root) }
          else do { h \<leftarrow> set_right h y node; Some (h, root) });
       np \<leftarrow> fld h node parent;
       if np = None then do { h \<leftarrow> set_color h node False; Some (h, root) }
       else do {
         npp \<leftarrow> fld h np parent;
         if npp = None then Some (h, root) else fix_insert h node root
       }
     }"

text \<open>
  \<^verbatim>\<open>pool.create\<close>: the constructor of \<^verbatim>\<open>Node\<close> only initialises the key and the value; the links, the
  colour, the array index and the hash value are written before they are read.
\<close>

definition create :: "('k, 'v) node_heap \<Rightarrow> pool \<Rightarrow> 'k \<Rightarrow> 'v \<Rightarrow> (ptr \<times> ('k, 'v) node_heap \<times> pool) option" where
  "create h pl k v =
     do {
       (a, pl) \<leftarrow> allocate pl;
       Some (Some a, h(a \<mapsto> \<lparr>parent = None, left = None, right = None, color = False,
                      payload = \<lparr>array_index = 0, hash_value = 0, first = k, second = v\<rparr>\<rparr>), pl)
     }"

definition destroy :: "('k, 'v) node_heap \<Rightarrow> pool \<Rightarrow> ptr \<Rightarrow> ('k, 'v) node_heap \<times> pool" where
  "destroy h pl p = (case p of None \<Rightarrow> (h, pl) | Some a \<Rightarrow> (h(a := None), deallocate pl a))"

record ('k, 'v) tree_state =
  ts_heap :: "('k, 'v) node_heap"
  ts_pool :: pool
  ts_root :: ptr

definition try_insert :: "('k::linorder, 'v) tree_state \<Rightarrow> 'k \<Rightarrow> 'v \<Rightarrow> (ptr \<times> bool \<times> ('k, 'v) tree_state) option" where
  "try_insert s key v =
     do {
       r \<leftarrow> insert_point (ts_heap s) (ts_root s) None 0 key;
       case r of
         Inl x \<Rightarrow> Some (x, False, s)
       | Inr (y, comp_result) \<Rightarrow> do {
           (node, h, pl) \<leftarrow> create (ts_heap s) (ts_pool s) key v;
           (h, root) \<leftarrow> link_node h node y comp_result (ts_root s);
           Some (node, True, \<lparr>ts_heap = h, ts_pool = pl, ts_root = root\<rparr>)
         }
     }"

definition insert_or_assign :: "('k::linorder, 'v) tree_state \<Rightarrow> 'k \<Rightarrow> 'v \<Rightarrow> (ptr \<times> bool \<times> ('k, 'v) tree_state) option" where
  "insert_or_assign s key v =
     do {
       r \<leftarrow> insert_point (ts_heap s) (ts_root s) None 0 key;
       case r of
         Inl x \<Rightarrow> do {
           h \<leftarrow> upd (ts_heap s) x (\<lambda>n. n\<lparr>payload := (payload n)\<lparr>second := v\<rparr>\<rparr>);
           Some (x, False, s\<lparr>ts_heap := h\<rparr>)
         }
       | Inr (y, comp_result) \<Rightarrow> do {
           (node, h, pl) \<leftarrow> create (ts_heap s) (ts_pool s) key v;
           (h, root) \<leftarrow> link_node h node y comp_result (ts_root s);
           Some (node, True, \<lparr>ts_heap = h, ts_pool = pl, ts_root = root\<rparr>)
         }
     }"

definition weak_insert :: "('k::linorder, 'v) node_heap \<Rightarrow> ptr \<Rightarrow> ptr \<Rightarrow> (ptr \<times> ('k, 'v) node_heap \<times> ptr) option" where
  "weak_insert h root node =
     do {
       e \<leftarrow> fld h node payload;
       r \<leftarrow> insert_point h root None 0 (first e);
       case r of
         Inl x \<Rightarrow> Some (x, h, root)
       | Inr (y, comp_result) \<Rightarrow> do {
           (h, root) \<leftarrow> link_node h node y comp_result root;
           Some (node, h, root)
         }
     }"

definition remove_node :: "('k, 'v) tree_state \<Rightarrow> ptr \<Rightarrow> ('k, 'v) tree_state option" where
  "remove_node s z =
     do {
       (h, root) \<leftarrow> delete_one_node (ts_heap s) z (ts_root s);
       let (h, pl) = destroy h (ts_pool s) z;
       Some \<lparr>ts_heap = h, ts_pool = pl, ts_root = root\<rparr>
     }"

text \<open>
  \<^verbatim>\<open>_delete_node\<close>: the search for \<open>z\<close> is the loop of \<^verbatim>\<open>_search_tree\<close>. The result is the array index of
  the removed node, \<open>None\<close> if there is none.
\<close>

definition remove_key :: "('k::linorder, 'v) tree_state \<Rightarrow> 'k \<Rightarrow> (nat option \<times> ('k, 'v) tree_state) option" where
  "remove_key s key =
     do {
       z \<leftarrow> search_tree (ts_heap s) (ts_root s) key;
       if z = None then Some (None, s)
       else do {
         e \<leftarrow> fld (ts_heap s) z payload;
         s \<leftarrow> remove_node s z;
         Some (Some (array_index e), s)
       }
     }"

section \<open>Searching\<close>

lemma compare_sign [simp]:
  "compare a b = 0 \<longleftrightarrow> a = b" "compare a b > 0 \<longleftrightarrow> b < a" "compare a b < 0 \<longleftrightarrow> a < b"
  by (auto simp: compare_def)

definition keys :: "('k, 'v) elem rt \<Rightarrow> 'k list" where
  "keys t = map (first \<circ> snd) (items t)"

lemma keys_simps [simp]: "keys Lf = []" "keys (Nd l a c d r) = keys l @ first d # keys r"
  by (simp_all add: keys_def)

text \<open>The item with a key.\<close>

definition item_of :: "('k, 'v) elem rt \<Rightarrow> 'k \<Rightarrow> (nat \<times> ('k, 'v) elem) option" where
  "item_of t k = List.find (\<lambda>n. first (snd n) = k) (items t)"

lemma find_append: "List.find P (xs @ ys) = (case List.find P xs of None \<Rightarrow> List.find P ys | Some x \<Rightarrow> Some x)"
  by (induction xs) auto

lemma item_of_Node:
  fixes k :: "'k::linorder"
  assumes "sorted_wrt (<) (keys (Nd l a c d r))"
  shows "item_of (Nd l a c d r) k =
     (if first d = k then Some (a, d) else if k < first d then item_of l k else item_of r k)"
proof -
  have lt: "\<forall>n\<in>set (items l). first (snd n) < first d" "\<forall>n\<in>set (items r). first d < first (snd n)"
    using assms by (auto simp: keys_def sorted_wrt_append)
  have "List.find (\<lambda>n. first (snd n) = k) (items l) = None" if "first d \<le> k"
    using lt(1) that unfolding find_None_iff by (metis leD)
  moreover have "List.find (\<lambda>n. first (snd n) = k) (items r) = None" if "k < first d"
    using lt(2) that unfolding find_None_iff by (metis less_asym)
  ultimately show ?thesis by (auto simp: item_of_def find_append split: option.splits)
qed

lemma search_tree_ok:
  assumes "rep h q t" "sorted_wrt (<) (keys t)"
  shows "search_tree h (pt t) k = Some (map_option fst (item_of t k))"
  using assms
proof (induction t arbitrary: q)
  case Lf
  then show ?case by (subst search_tree.simps) (simp add: item_of_def)
next
  case (Nd l a c d r)
  have s: "sorted_wrt (<) (keys l)" "sorted_wrt (<) (keys r)" using Nd.prems(2) by (auto simp: sorted_wrt_append)
  have R: "h a = Some \<lparr>parent = q, left = pt l, right = pt r, color = c, payload = d\<rparr>" "rep h (Some a) l" "rep h (Some a) r"
    using Nd.prems(1) by auto
  show ?case
    using R(1) Nd.IH(1) [OF R(2) s(1)] Nd.IH(2) [OF R(3) s(2)] item_of_Node [OF Nd.prems(2), of k]
    by (subst search_tree.simps) (auto simp: Let_def)
qed


section \<open>Insertion\<close>

text \<open>The place where a missing key belongs.\<close>

definition belongs :: "'k::linorder \<Rightarrow> ('k, 'v) elem path \<Rightarrow> bool" where
  "belongs k p \<longleftrightarrow> (\<forall>n\<in>set (pleft p). first (snd n) < k) \<and> (\<forall>n\<in>set (pright p). k < first (snd n))"

lemma keys_plug: "keys (plug t p) = map (first \<circ> snd) (pleft p) @ keys t @ map (first \<circ> snd) (pright p)"
  by (simp add: keys_def items_plug)

lemma insert_point_ok:
  assumes "rep h q t" "sorted_wrt (<) (keys (plug t p))" "belongs k p"
    and y: "y = ppar p" "\<And>f p'. p = f # p' \<Longrightarrow> (0 < cr) = (case f of InL _ _ _ _ \<Rightarrow> True | InR _ _ _ _ \<Rightarrow> False)"
  shows "(case item_of t k of
      Some n \<Rightarrow> insert_point h (pt t) y cr k = Some (Inl (Some (fst n)))
    | None \<Rightarrow> \<exists>p' cr'. insert_point h (pt t) y cr k = Some (Inr (ppar p', cr')) \<and> plug Lf p' = plug t p \<and> belongs k p' \<and>
        (\<forall>f p''. p' = f # p'' \<longrightarrow> (0 < cr') = (case f of InL _ _ _ _ \<Rightarrow> True | InR _ _ _ _ \<Rightarrow> False)))"
  using assms
proof (induction t arbitrary: q p y cr)
  case Lf
  then show ?case by (subst insert_point.simps) (auto simp: item_of_def)
next
  case (Nd l a c d r)
  have st: "sorted_wrt (<) (keys (rt.Nd l a c d r))" using Nd.prems(2) by (simp add: keys_plug sorted_wrt_append)
  have lt: "\<forall>n\<in>set (items l). first (snd n) < first d" "\<forall>n\<in>set (items r). first d < first (snd n)"
    using st by (auto simp: keys_def sorted_wrt_append)
  have R: "h a = Some \<lparr>parent = q, left = pt l, right = pt r, color = c, payload = d\<rparr>" "rep h (Some a) l" "rep h (Some a) r"
    using Nd.prems(1) by auto
  consider "first d = k" | "k < first d" | "first d < k" by fastforce
  then show ?case
  proof cases
    case 1
    then show ?thesis using R(1) item_of_Node [OF st, of k] by (subst insert_point.simps) simp
  next
    case 2
    have b: "belongs k (InL a c d r # p)" using Nd.prems(3) 2 lt(2) unfolding belongs_def by force
    have step: "insert_point h (Some a) y cr k = insert_point h (pt l) (Some a) (compare (first d) k) k"
      using R(1) 2 by (subst insert_point.simps) (simp add: Let_def)
    have e: "item_of (rt.Nd l a c d r) k = item_of l k" using item_of_Node [OF st, of k] 2 by auto
    have pre: "sorted_wrt (<) (keys (plug l (InL a c d r # p)))" "Some a = ppar (InL a c d r # p)"
      "\<And>f p'. InL a c d r # p = f # p' \<Longrightarrow> (0 < compare (first d) k) = (case f of InL _ _ _ _ \<Rightarrow> True | InR _ _ _ _ \<Rightarrow> False)"
      using Nd.prems(2) 2 by auto
    show ?thesis using Nd.IH(1) [OF R(2) pre(1) b pre(2,3)] unfolding e pt.simps step plug.simps .
  next
    case 3
    have b: "belongs k (InR l a c d # p)" using Nd.prems(3) 3 lt(1) unfolding belongs_def by force
    have step: "insert_point h (Some a) y cr k = insert_point h (pt r) (Some a) (compare (first d) k) k"
      using R(1) 3 by (subst insert_point.simps) (auto simp: Let_def)
    have e: "item_of (rt.Nd l a c d r) k = item_of r k" using item_of_Node [OF st, of k] 3 by auto
    have pre: "sorted_wrt (<) (keys (plug r (InR l a c d # p)))" "Some a = ppar (InR l a c d # p)"
      "\<And>f p'. InR l a c d # p = f # p' \<Longrightarrow> (0 < compare (first d) k) = (case f of InL _ _ _ _ \<Rightarrow> True | InR _ _ _ _ \<Rightarrow> False)"
      using Nd.prems(2) 3 by auto
    show ?thesis using Nd.IH(2) [OF R(3) pre(1) b pre(2,3)] unfolding e pt.simps step plug.simps .
  qed
qed

text \<open>Linking a node that is in the heap, but not in the tree, at such a place.\<close>

lemma link_node_ok:
  assumes t: "rep h None t" "distinct (addrs t)" "rbt t" "t = plug Lf p"
    and a: "a \<notin> set (addrs t)" "h a = Some n"
    and cr: "\<forall>f p'. p = f # p' \<longrightarrow> (0 < cr) = (case f of InL _ _ _ _ \<Rightarrow> True | InR _ _ _ _ \<Rightarrow> False)"
  shows "\<exists>h' t'. link_node h (Some a) (ppar p) cr (pt t) = Some (h', pt t') \<and> rep h' None t' \<and> distinct (addrs t') \<and>
     rbt t' \<and> items t' = pleft p @ (a, payload n) # pright p \<and> (\<forall>z. z \<noteq> a \<and> z \<notin> set (addrs t) \<longrightarrow> h' z = h z)"
proof -
  let ?n = "Nd Lf a True (payload n) Lf"
  have rp: "repp h None p" "distinct (paddrs p)" "a \<notin> set (paddrs p)" "pt t = rootp None p"
    using t a(1) by (auto simp: rep_plug distinct_plug set_addrs_plug pt_plug)
  define h1 where "h1 = h(a \<mapsto> \<lparr>parent = ppar p, left = None, right = None, color = True, payload = payload n\<rparr>)"
  have pre: "do { h \<leftarrow> set_left h (Some a) None; h \<leftarrow> set_right h (Some a) None; h \<leftarrow> set_color h (Some a) True;
                  set_parent h (Some a) (ppar p) } = Some h1"
    using a(2) by (cases n) (simp add: setters h1_def)
  show ?thesis
  proof (cases p)
    case Nil
    define h2 where "h2 = h1(a \<mapsto> \<lparr>parent = None, left = None, right = None, color = False, payload = payload n\<rparr>)"
    have "link_node h (Some a) (ppar p) cr (pt t) = Some (h2, Some a)"
      using a(2) Nil by (cases n) (simp add: link_node_def setters h2_def h1_def)
    then show ?thesis
      using Nil t(4) by (intro exI [of _ h2] exI [of _ "Nd Lf a False (payload n) Lf"]) (auto simp: h2_def h1_def rbt_def)
  next
    case (Cons f q)
    define h2 where "h2 = (case f of InL b _ _ _ \<Rightarrow> h1(b \<mapsto> (the (h b))\<lparr>left := Some a\<rparr>) | InR _ b _ _ \<Rightarrow> h1(b \<mapsto> (the (h b))\<lparr>right := Some a\<rparr>))"
    have z2: "zip_rep h2 ?n p"
      using rp unfolding Cons zip_rep_def h2_def h1_def by (cases f) (auto simp: distinct_plug)
    have out: "\<forall>z. z \<noteq> a \<and> z \<notin> set (addrs t) \<longrightarrow> h2 z = h z"
      unfolding t(4) set_addrs_plug Cons h2_def h1_def by (cases f) auto
    have link: "link_node h (Some a) (ppar p) cr (pt t) =
       (if q = [] then Some (h2, rootp (Some a) p) else fix_insert h2 (Some a) (rootp (Some a) p))"
      using a(2) rp cr unfolding Cons h2_def h1_def link_node_def
      by (cases f; cases q; cases n) (auto simp: setters)
    note I = rbt_path [OF t(3) [unfolded t(4)]]
    have it: "items (plug ?n p) = pleft p @ (a, payload n) # pright p" by (simp add: items_plug)
    show ?thesis
    proof (cases "q = []")
      case True
      have "rbt (plug ?n p)" using plug_rbt [of ?n p] I(1,5) Cons True by auto
      then show ?thesis
        using link True z2 it out by (intro exI [of _ h2] exI [of _ "plug ?n p"]) (auto simp: zip_rep_plug pt_plug)
    next
      case False
      have st: "ins_state h2 ?n p" using z2 I(1,5) Cons by (auto simp: ins_state_def)
      obtain h' t' where F: "fix_insert h2 (Some a) (rootp (Some a) p) = Some (h', pt t')" "rep h' None t'" "distinct (addrs t')"
         "same_out (plug ?n p) h2 h'" "items t' = items (plug ?n p)" "rbt t'"
        using fix_insert_ok [OF st] by auto
      have "\<forall>z. z \<noteq> a \<and> z \<notin> set (addrs t) \<longrightarrow> h' z = h z"
        using F(4) out unfolding same_out_def t(4) set_addrs_plug by auto
      then show ?thesis using link False F it by (intro exI [of _ h'] exI [of _ t']) auto
    qed
  qed
qed

section \<open>The map as a whole\<close>

text \<open>
  \<open>tm_ok s t live\<close>: the map represents the sorted red-black tree \<open>t\<close>; \<open>live\<close> are the objects that the
  pool has handed out, to this map and to others.
\<close>

definition tm_ok :: "('k::linorder, 'v) tree_state \<Rightarrow> ('k, 'v) elem rt \<Rightarrow> nat set \<Rightarrow> bool" where
  "tm_ok s t live \<longleftrightarrow>
     ts_root s = pt t \<and> rep (ts_heap s) None t \<and> distinct (addrs t) \<and> rbt t \<and> sorted_wrt (<) (keys t) \<and>
     pool_ok (ts_pool s) live \<and> set (addrs t) \<subseteq> live"

lemma item_of_SomeD: "item_of t k = Some (a, e) \<Longrightarrow> (a, e) \<in> set (items t) \<and> first e = k"
  unfolding item_of_def find_Some_iff by (metis nth_mem snd_conv)

lemma item_of_NoneD: "item_of t k = None \<longleftrightarrow> k \<notin> set (keys t)"
  unfolding item_of_def find_None_iff keys_def by force

lemma item_of_set:
  assumes "distinct (keys t)"
  shows "item_of t k = Some (a, e) \<longleftrightarrow> (a, e) \<in> set (items t) \<and> first e = k"
proof
  assume r: "(a, e) \<in> set (items t) \<and> first e = k"
  then have "k \<in> set (keys t)" by (force simp: keys_def)
  then obtain a' e' where "item_of t k = Some (a', e')" using item_of_NoneD [of t k] by (cases "item_of t k") auto
  then show "item_of t k = Some (a, e)"
    using r item_of_SomeD assms unfolding keys_def distinct_map by (metis (no_types, lifting) comp_apply inj_on_def snd_conv)
next
  assume "item_of t k = Some (a, e)"
  then show "(a, e) \<in> set (items t) \<and> first e = k" by (rule item_of_SomeD)
qed

lemma belongs_split:
  assumes "belongs k p"
  shows "pleft p = filter (\<lambda>n. first (snd n) < k) (pleft p @ pright p)"
    "pright p = filter (\<lambda>n. k < first (snd n)) (pleft p @ pright p)"
proof -
  have "filter (\<lambda>n. first (snd n) < k) (pleft p) = pleft p" "filter (\<lambda>n. k < first (snd n)) (pright p) = pright p"
    "filter (\<lambda>n. first (snd n) < k) (pright p) = []" "filter (\<lambda>n. k < first (snd n)) (pleft p) = []"
    using assms unfolding belongs_def by (auto simp: filter_id_conv filter_empty_conv)
  then show "pleft p = filter (\<lambda>n. first (snd n) < k) (pleft p @ pright p)"
    "pright p = filter (\<lambda>n. k < first (snd n)) (pleft p @ pright p)" by simp_all
qed

definition item_insert :: "(nat \<times> ('k::linorder, 'v) elem) list \<Rightarrow> nat \<Rightarrow> ('k, 'v) elem \<Rightarrow> (nat \<times> ('k, 'v) elem) list" where
  "item_insert xs a e = filter (\<lambda>n. first (snd n) < first e) xs @ (a, e) # filter (\<lambda>n. first e < first (snd n)) xs"

lemma tree_link_ok:
  assumes "rep h None t" "distinct (addrs t)" "rbt t" "sorted_wrt (<) (keys t)" "first (payload n) \<notin> set (keys t)"
    and a: "a \<notin> set (addrs t)" "h a = Some n"
  shows "\<exists>y cr h' t'. insert_point h (pt t) None 0 (first (payload n)) = Some (Inr (y, cr)) \<and>
     link_node h (Some a) y cr (pt t) = Some (h', pt t') \<and> rep h' None t' \<and> distinct (addrs t') \<and> rbt t' \<and>
     sorted_wrt (<) (keys t') \<and> items t' = item_insert (items t) a (payload n) \<and>
     (\<forall>z. z \<noteq> a \<and> z \<notin> set (addrs t) \<longrightarrow> h' z = h z)"
proof -
  let ?k = "first (payload n)"
  have none: "item_of t ?k = None" using assms(5) by (simp add: item_of_NoneD)
  have b0: "belongs ?k []" by (simp add: belongs_def)
  obtain p cr where p: "insert_point h (pt t) None 0 ?k = Some (Inr (ppar p, cr))" "plug Lf p = t" "belongs ?k p"
    "\<forall>f p'. p = f # p' \<longrightarrow> (0 < cr) = (case f of InL _ _ _ _ \<Rightarrow> True | InR _ _ _ _ \<Rightarrow> False)"
    using insert_point_ok [of h None t "[]" ?k None 0] assms(1,4) b0 none by auto
  obtain h' t' where l: "link_node h (Some a) (ppar p) cr (pt t) = Some (h', pt t')" "rep h' None t'" "distinct (addrs t')"
    "rbt t'" "items t' = pleft p @ (a, payload n) # pright p" "\<forall>z. z \<noteq> a \<and> z \<notin> set (addrs t) \<longrightarrow> h' z = h z"
    using link_node_ok [OF assms(1-3) p(2) [symmetric] a p(4)] by blast
  have it: "items t = pleft p @ pright p" using p(2) items_plug [of Lf p] by simp
  have "items t' = item_insert (items t) a (payload n)"
    unfolding l(5) item_insert_def it using belongs_split [OF p(3)] by simp
  moreover have "sorted_wrt (<) (keys t')"
    using assms(4) p(3) unfolding keys_def l(5) it belongs_def by (auto simp: sorted_wrt_append)
  ultimately show ?thesis using p(1) l by blast
qed

lemma items_in_heap: "rep h q t \<Longrightarrow> (a, e) \<in> set (items t) \<Longrightarrow> \<exists>n. h a = Some n \<and> payload n = e"
  by (induction t arbitrary: q) auto

lemma insert_point_frame:
  "rep h q t \<Longrightarrow> a \<notin> set (addrs t) \<Longrightarrow> insert_point (h(a := v)) (pt t) y cr k = insert_point h (pt t) y cr k"
proof (induction t arbitrary: q y cr)
  case Lf
  show ?case by (subst (1 2) insert_point.simps) simp
next
  case (Nd l b c d r)
  have n: "h b = Some \<lparr>parent = q, left = pt l, right = pt r, color = c, payload = d\<rparr>" "a \<noteq> b"
    "rep h (Some b) l" "rep h (Some b) r" "a \<notin> set (addrs l)" "a \<notin> set (addrs r)" using Nd.prems by auto
  show ?case
    using n(1,2) by (subst (1 2) insert_point.simps) (simp add: Let_def Nd.IH(1) [OF n(3,5)] Nd.IH(2) [OF n(4,6)])
qed

lemma fresh_insert_ok:
  assumes ok: "tm_ok s t live" and k: "k \<notin> set (keys t)"
  shows "\<exists>y cr a h pl h' t'. insert_point (ts_heap s) (ts_root s) None 0 k = Some (Inr (y, cr)) \<and>
     create (ts_heap s) (ts_pool s) k v = Some (Some a, h, pl) \<and>
     link_node h (Some a) y cr (ts_root s) = Some (h', pt t') \<and> a \<notin> live \<and>
     tm_ok \<lparr>ts_heap = h', ts_pool = pl, ts_root = pt t'\<rparr> t' (insert a live) \<and>
     items t' = item_insert (items t) a \<lparr>array_index = 0, hash_value = 0, first = k, second = v\<rparr> \<and>
     (\<forall>z. z \<noteq> a \<and> z \<notin> set (addrs t) \<longrightarrow> h' z = ts_heap s z)"
proof -
  obtain a pl where a: "allocate (ts_pool s) = Some (a, pl)" "a \<notin> live" "pool_ok pl (insert a live)"
    using allocate_fresh ok unfolding tm_ok_def by blast
  let ?n = "\<lparr>parent = None, left = None, right = None, color = False,
                      payload = \<lparr>array_index = 0, hash_value = 0, first = k, second = v\<rparr>\<rparr>"
  define h where "h = (ts_heap s)(a \<mapsto> ?n)"
  have at: "a \<notin> set (addrs t)" using a(2) ok by (auto simp: tm_ok_def)
  have R: "rep h None t" "distinct (addrs t)" "rbt t" "sorted_wrt (<) (keys t)" "h a = Some ?n" "rep (ts_heap s) None t"
    using ok at by (auto simp: tm_ok_def h_def)
  obtain y cr h' t' where L: "insert_point h (pt t) None 0 k = Some (Inr (y, cr))"
     "link_node h (Some a) y cr (pt t) = Some (h', pt t')" "rep h' None t'" "distinct (addrs t')" "rbt t'"
     "sorted_wrt (<) (keys t')" "items t' = item_insert (items t) a (payload ?n)"
     "\<forall>z. z \<noteq> a \<and> z \<notin> set (addrs t) \<longrightarrow> h' z = h z"
    using tree_link_ok [OF R(1-4) _ at R(5)] k by auto
  have same: "insert_point (ts_heap s) (pt t) None 0 k = insert_point h (pt t) None 0 k"
    using insert_point_frame [OF R(6) at] by (simp add: h_def)
  have "set (addrs t') \<subseteq> insert a (set (addrs t))"
    using arg_cong [OF L(7), of set] unfolding fst_items [symmetric] item_insert_def by auto
  then show ?thesis
    using a L same ok unfolding tm_ok_def create_def h_def by auto
qed


lemma node_path: "(a, e) \<in> set (items t) \<Longrightarrow> \<exists>l c r p. t = plug (Nd l a c e r) p"
proof (induction t)
  case (Nd l b c d r)
  consider "(a, e) \<in> set (items l)" | "(a, e) = (b, d)" | "(a, e) \<in> set (items r)" using Nd.prems by auto
  then show ?case
  proof cases
    case 1
    then obtain l' c' r' p where "l = plug (rt.Nd l' a c' e r') p" using Nd.IH(1) by blast
    then have "rt.Nd l b c d r = plug (rt.Nd l' a c' e r') (p @ [InL b c d r])" by (simp add: plug_append)
    then show ?thesis by blast
  next
    case 2 then show ?thesis by (metis fst_conv plug.simps(1) snd_conv)
  next
    case 3
    then obtain l' c' r' p where "r = plug (rt.Nd l' a c' e r') p" using Nd.IH(2) by blast
    then have "rt.Nd l b c d r = plug (rt.Nd l' a c' e r') (p @ [InR l b c d])" by (simp add: plug_append)
    then show ?thesis by blast
  qed
qed simp

lemma remove_node_ok:
  assumes ok: "tm_ok s t live" and a: "(a, e) \<in> set (items t)"
  shows "\<exists>s' t'. remove_node s (Some a) = Some s' \<and> tm_ok s' t' (live - {a}) \<and>
     items t' = filter (\<lambda>n. fst n \<noteq> a) (items t) \<and> ts_heap s' a = None \<and>
     (\<forall>z. z \<notin> set (addrs t) \<longrightarrow> ts_heap s' z = ts_heap s z)"
proof -
  obtain l c d r p where t: "t = plug (Nd l a c d r) p" using node_path [OF a] by blast
  obtain h' t' where D: "delete_one_node (ts_heap s) (Some a) (pt t) = Some (h', pt t')" "rep h' None t'" "distinct (addrs t')"
     "same_out t (ts_heap s) h'" "items t' = filter (\<lambda>n. fst n \<noteq> a) (items t)" "rbt t'"
    using delete_one_node_ok [OF t] ok unfolding tm_ok_def by blast
  have al: "a \<in> live" "a \<in> set (addrs t)" using ok a fst_items [of t] by (force simp: tm_ok_def)+
  have ad: "set (addrs t') = set (addrs t) - {a}"
    using arg_cong [OF D(5), of "\<lambda>x. fst ` set x"] unfolding fst_items [symmetric] by auto
  have "sorted_wrt (<) (keys t')"
    using ok unfolding tm_ok_def keys_def D(5) by (metis (no_types, lifting) sorted_wrt_filter sorted_wrt_map)
  then have "tm_ok \<lparr>ts_heap = h'(a := None), ts_pool = deallocate (ts_pool s) a, ts_root = pt t'\<rparr> t' (live - {a})"
    using D(2,3,6) ad ok deallocate_ok [of "ts_pool s" live a] al unfolding tm_ok_def by auto
  then show ?thesis
    using D(1,4,5) ok al unfolding tm_ok_def remove_node_def destroy_def same_out_def by auto
qed

text \<open>Writing the payload of one node.\<close>

definition set_item :: "nat \<Rightarrow> 'd \<Rightarrow> (nat \<times> 'd) list \<Rightarrow> (nat \<times> 'd) list" where
  "set_item a e' xs = map (\<lambda>m. if fst m = a then (a, e') else m) xs"

lemma set_item_other: "a \<notin> fst ` set xs \<Longrightarrow> set_item a e' xs = xs"
  unfolding set_item_def by (rule map_idI) force

lemma set_item_append: "set_item a e' (xs @ ys) = set_item a e' xs @ set_item a e' ys"
  by (simp add: set_item_def)

lemma set_item_Cons: "set_item a e' (m # xs) = (if fst m = a then (a, e') else m) # set_item a e' xs"
  by (simp add: set_item_def)

lemma map_fst_set_item: "map fst (set_item a e' xs) = map fst xs"
  by (auto simp: set_item_def)

lemma rbt_plug:
  "rbt (plug t p) \<longleftrightarrow> fits_path (bh t) p \<and> invh t \<and> invc t \<and> (red t \<longrightarrow> \<not> pred_col p) \<and>
     \<not> (if p = [] then red t else fcol (last p))"
  unfolding rbt_def red_plug using plug_inv plug_invD by blast

lemma payload_rep:
  assumes "rep h None t" "distinct (addrs t)" "(a, e) \<in> set (items t)"
  shows "\<exists>n t'. h a = Some n \<and> payload n = e \<and> rep (h(a \<mapsto> n\<lparr>payload := e'\<rparr>)) None t' \<and> pt t' = pt t \<and>
     addrs t' = addrs t \<and> rbt t' = rbt t \<and> items t' = set_item a e' (items t)"
proof -
  obtain l c r p where t: "t = plug (Nd l a c e r) p" using node_path [OF assms(3)] by blast
  let ?t = "plug (Nd l a c e' r) p"
  have z: "zip_rep h (Nd l a c e r) p" using assms(1,2) by (simp add: zip_rep_plug t)
  then obtain n where n: "h a = Some n" "payload n = e" by (auto simp: zip_rep_def)
  have "zip_rep (h(a \<mapsto> n\<lparr>payload := e'\<rparr>)) (Nd l a c e' r) p"
    using z n by (auto simp: zip_rep_def distinct_plug)
  then have rp: "rep (h(a \<mapsto> n\<lparr>payload := e'\<rparr>)) None ?t" by (simp add: zip_rep_plug)
  have inv: "rbt ?t = rbt t"
    unfolding t rbt_plug by simp
  have d: "a \<notin> set (paddrs p)" "a \<notin> set (addrs l)" "a \<notin> set (addrs r)" using assms(2) by (auto simp: t distinct_plug)
  then have "a \<notin> fst ` set (pleft p)" "a \<notin> fst ` set (pright p)" "a \<notin> fst ` set (items l)" "a \<notin> fst ` set (items r)"
    using fst_pleft_pright [of p] by (auto simp: fst_items)
  then have so: "set_item a e' (pleft p) = pleft p" "set_item a e' (pright p) = pright p" "set_item a e' (items l) = items l"
    "set_item a e' (items r) = items r" by (simp_all add: set_item_other)
  have it: "items ?t = set_item a e' (items t)" unfolding t items_plug items.simps set_item_append set_item_Cons so by simp
  have "addrs ?t = addrs t" using map_fst_set_item [of a e' "items t"] unfolding it [symmetric] by simp
  then show ?thesis using n rp inv it by (intro exI [of _ n] exI [of _ ?t]) (auto simp: pt_plug t)
qed

section \<open>Balance\<close>

fun height :: "'d rt \<Rightarrow> nat" where
  "height Lf = 0"
| "height (Nd l a c d r) = max (height l) (height r) + 1"

lemma height_bh: "invc t \<Longrightarrow> invh t \<Longrightarrow> height t \<le> 2 * bh t + (if red t then 1 else 0)"
  by (induction t) (auto split: if_splits)

lemma bh_size: "invh t \<Longrightarrow> 2 ^ bh t \<le> length (items t) + 1"
  by (induction t) auto

text \<open>Twice the logarithm of the number of nodes bounds every descent.\<close>

lemma rbt_height: "rbt t \<Longrightarrow> 2 ^ height t \<le> (length (items t) + 1) ^ 2"
proof -
  assume t: "rbt t"
  have "(2::nat) ^ height t \<le> 2 ^ (2 * bh t)" using height_bh [of t] t by (intro power_increasing) (auto simp: rbt_def)
  also have "\<dots> = (2 ^ bh t) ^ 2" by (simp add: power_mult [symmetric] mult.commute)
  also have "\<dots> \<le> (length (items t) + 1) ^ 2" using bh_size [of t] t by (intro power_mono) (auto simp: rbt_def)
  finally show ?thesis .
qed

text \<open>The pairs of the map in key order, and the specification of an insertion.\<close>

definition pairs :: "('k, 'v) elem rt \<Rightarrow> ('k \<times> 'v) list" where
  "pairs t = map (\<lambda>n. (first (snd n), second (snd n))) (items t)"

definition ins_pair :: "'k::linorder \<Rightarrow> 'v \<Rightarrow> ('k \<times> 'v) list \<Rightarrow> ('k \<times> 'v) list" where
  "ins_pair k v xs = filter (\<lambda>p. fst p < k) xs @ (k, v) # filter (\<lambda>p. k < fst p) xs"

lemma pairs_item_insert: "items t' = item_insert (items t) a e \<Longrightarrow> pairs t' = ins_pair (first e) (second e) (pairs t)"
  by (simp add: pairs_def ins_pair_def item_insert_def filter_map o_def)

lemma keys_pairs: "keys t = map fst (pairs t)"
  by (simp add: keys_def pairs_def o_def)

section \<open>Properties\<close>

text \<open>
  Property C8.
  \<^verbatim>\<open>SmallTreeMap::try_insert\<close> always returns. A key that is present is left alone and its node returned; a
  missing key is inserted at its place in the key order, in a fresh node. The tree is again a sorted red-black
  tree, properly linked in both directions, so that no descent is longer than twice the binary logarithm of
  the number of nodes plus one; nodes outside the tree are untouched.
\<close>

theorem tree_map_try_insert:
  assumes ok: "tm_ok s t live"
  shows "\<exists>a new s' t' live'. try_insert s k v = Some (Some a, new, s') \<and> new = (k \<notin> set (keys t)) \<and> tm_ok s' t' live' \<and>
     pairs t' = (if new then ins_pair k v (pairs t) else pairs t) \<and> live' = insert a live \<and> (new = (a \<notin> live)) \<and>
     2 ^ height t' \<le> (length (items t') + 1) ^ 2 \<and>
     (\<forall>z. z \<noteq> a \<and> z \<notin> set (addrs t) \<longrightarrow> ts_heap s' z = ts_heap s z)"
proof (cases "item_of t k")
  case None
  then have k: "k \<notin> set (keys t)" by (simp add: item_of_NoneD)
  obtain y cr a h pl h' t' where F: "insert_point (ts_heap s) (ts_root s) None 0 k = Some (Inr (y, cr))"
     "create (ts_heap s) (ts_pool s) k v = Some (Some a, h, pl)"
     "link_node h (Some a) y cr (ts_root s) = Some (h', pt t')" "a \<notin> live"
     "tm_ok \<lparr>ts_heap = h', ts_pool = pl, ts_root = pt t'\<rparr> t' (insert a live)"
     "items t' = item_insert (items t) a \<lparr>array_index = 0, hash_value = 0, first = k, second = v\<rparr>"
     "\<forall>z. z \<noteq> a \<and> z \<notin> set (addrs t) \<longrightarrow> h' z = ts_heap s z"
    using fresh_insert_ok [OF ok k] by blast
  have "try_insert s k v = Some (Some a, True, \<lparr>ts_heap = h', ts_pool = pl, ts_root = pt t'\<rparr>)"
    using F(1-3) by (simp add: try_insert_def)
  moreover have "rbt t'" using F(5) by (simp add: tm_ok_def)
  ultimately show ?thesis using F(4,5,7) k pairs_item_insert [OF F(6)] rbt_height [of t']
    by (intro exI [of _ a] exI [of _ True] exI [of _ "\<lparr>ts_heap = h', ts_pool = pl, ts_root = pt t'\<rparr>"] exI [of _ t'])
      (auto simp: tm_ok_def)
next
  case (Some n)
  obtain a e where n: "n = (a, e)" by (cases n)
  have m: "(a, e) \<in> set (items t)" "first e = k" using item_of_SomeD [of t k a e] Some n by auto
  then have a: "k \<in> set (keys t)" "a \<in> live" using ok fst_items [of t] by (force simp: keys_def tm_ok_def)+
  have "insert_point (ts_heap s) (ts_root s) None 0 k = Some (Inl (Some a))"
    using insert_point_ok [of "ts_heap s" None t "[]" k None 0] ok Some n by (simp add: tm_ok_def belongs_def)
  then have "try_insert s k v = Some (Some a, False, s)" by (simp add: try_insert_def)
  then show ?thesis using a ok rbt_height [of t] by (intro exI [of _ a] exI [of _ False] exI [of _ s] exI [of _ t])
    (auto simp: insert_absorb tm_ok_def)
qed

lemma tm_ok_empty: "tm_ok \<lparr>ts_heap = \<lambda>_. None, ts_pool = pool_new b, ts_root = None\<rparr> Lf {}"
  using pool_new_ok by (simp add: tm_ok_def rbt_def)

theorem tree_map_try_insert_witness:
  "\<exists>a s'. try_insert \<lparr>ts_heap = \<lambda>_. None, ts_pool = pool_new 0, ts_root = None\<rparr> (5 :: nat) ''x'' = Some (Some a, True, s')"
  using tree_map_try_insert [OF tm_ok_empty [of 0], of "5 :: nat" "''x''"] by auto

text \<open>
  Property C7.
  \<^verbatim>\<open>SmallTreeMap::remove\<close> always returns. It finds the node with the key if there is one, reports its array index,
  unlinks it, rebalances and gives the node back to the pool; the other pairs stay in key order and the tree
  is again a sorted red-black tree. Without such a node nothing changes.
\<close>

theorem tree_map_remove:
  assumes ok: "tm_ok s t live"
  shows "\<exists>s' t' live'. remove_key s k = Some (map_option (\<lambda>n. array_index (snd n)) (item_of t k), s') \<and> tm_ok s' t' live' \<and>
     pairs t' = filter (\<lambda>p. fst p \<noteq> k) (pairs t) \<and> (k \<notin> set (keys t) \<longrightarrow> s' = s) \<and>
     live' = live - fst ` set (filter (\<lambda>n. first (snd n) = k) (items t)) \<and>
     2 ^ height t' \<le> (length (items t') + 1) ^ 2"
proof -
  have T: "rep (ts_heap s) None t" "sorted_wrt (<) (keys t)" "ts_root s = pt t" using ok by (auto simp: tm_ok_def)
  have dk: "distinct (keys t)" using T(2) by (simp add: strict_sorted_iff)
  show ?thesis
  proof (cases "item_of t k")
    case None
    then have "remove_key s k = Some (None, s)" using search_tree_ok [OF T(1,2), of k] T(3) by (simp add: remove_key_def)
    moreover have no: "\<forall>n\<in>set (items t). first (snd n) \<noteq> k" using None unfolding item_of_def find_None_iff by blast
    then have "filter (\<lambda>p. fst p \<noteq> k) (pairs t) = pairs t" "filter (\<lambda>n. first (snd n) = k) (items t) = []"
      by (auto simp: pairs_def filter_id_conv filter_empty_conv)
    ultimately show ?thesis using None ok rbt_height [of t]
      by (intro exI [of _ s] exI [of _ t] exI [of _ live]) (auto simp: tm_ok_def)
  next
    case (Some n)
    obtain a e where n: "n = (a, e)" by (cases n)
    have m: "(a, e) \<in> set (items t)" "first e = k" using item_of_SomeD [of t k a e] Some n by auto
    obtain h where h: "ts_heap s a = Some h" "payload h = e" using items_in_heap [OF T(1) m(1)] by blast
    obtain s' t' where D: "remove_node s (Some a) = Some s'" "tm_ok s' t' (live - {a})" "items t' = filter (\<lambda>n. fst n \<noteq> a) (items t)"
      using remove_node_ok [OF ok m(1)] by blast
    have iff: "fst x = a \<longleftrightarrow> first (snd x) = k" if "x \<in> set (items t)" for x
    proof
      assume "fst x = a"
      then show "first (snd x) = k" using items_in_heap [OF T(1), of "fst x" "snd x"] that h m(2) by auto
    next
      assume "first (snd x) = k"
      then have "item_of t k = Some (fst x, snd x)" using item_of_set [OF dk, of k "fst x" "snd x"] that by simp
      then show "fst x = a" using Some n by auto
    qed
    have fs: "filter (\<lambda>n. fst n \<noteq> a) (items t) = filter (\<lambda>n. first (snd n) \<noteq> k) (items t)" by (rule filter_cong) (auto simp: iff)
    have "remove_key s k = Some (Some (array_index e), s')"
      using search_tree_ok [OF T(1,2), of k] T(3) Some n h D(1) by (simp add: remove_key_def)
    moreover have "pairs t' = filter (\<lambda>p. fst p \<noteq> k) (pairs t)"
      unfolding pairs_def D(3) fs filter_map by (simp add: o_def)
    moreover have "fst ` set (filter (\<lambda>n. first (snd n) = k) (items t)) = {a}"
      using iff m by force
    moreover have "k \<in> set (keys t)" using m by (force simp: keys_def)
    moreover have "rbt t'" using D(2) by (simp add: tm_ok_def)
    ultimately show ?thesis using Some n D(2) rbt_height [of t'] by (intro exI [of _ s'] exI [of _ t'] exI [of _ "live - {a}"]) simp
  qed
qed

theorem tree_map_remove_witness:
  "\<exists>a s s'. try_insert \<lparr>ts_heap = \<lambda>_. None, ts_pool = pool_new 0, ts_root = None\<rparr> (5 :: nat) ''x'' = Some (Some a, True, s) \<and>
     remove_key s 5 = Some (Some 0, s') \<and> ts_root s' = None"
proof -
  obtain y cr a h pl h' t' where F:
     "insert_point ((\<lambda>_. None) :: (nat, string) node_heap) None None 0 (5 :: nat) = Some (Inr (y, cr))"
     "create (\<lambda>_. None) (pool_new 0) (5 :: nat) ''x'' = Some (Some a, h, pl)" "link_node h (Some a) y cr None = Some (h', pt t')"
     "tm_ok \<lparr>ts_heap = h', ts_pool = pl, ts_root = pt t'\<rparr> t' (insert a {})"
     "items t' = item_insert [] a \<lparr>array_index = 0, hash_value = 0, first = 5, second = ''x''\<rparr>"
    using fresh_insert_ok [OF tm_ok_empty [of 0], of "5 :: nat" "''x''"] unfolding tree_state.simps items.simps by auto
  let ?s = "\<lparr>ts_heap = h', ts_pool = pl, ts_root = pt t'\<rparr>"
  have it: "item_of t' 5 = Some (a, \<lparr>array_index = 0, hash_value = 0, first = 5, second = ''x''\<rparr>)" "pairs t' = [(5, ''x'')]"
    using F(5) by (simp_all add: item_of_def item_insert_def pairs_def)
  obtain s' t2 where R: "remove_key ?s 5 = Some (Some 0, s')" "tm_ok s' t2 {}" "pairs t2 = []"
    using tree_map_remove [OF F(4), of 5] it F(5) by (auto simp: item_insert_def)
  then have "t2 = Lf" by (cases t2) (auto simp: pairs_def)
  then show ?thesis using F(1-3) R by (auto simp: try_insert_def tm_ok_def)
qed

end
