(* ===== verification/Hash_Map.thy ===== *)
theory Hash_Map
  imports Tree_Map
begin

text \<open>
  \<^verbatim>\<open>kimix::HashMap\<close> of \<^verbatim>\<open>src/core/hash_map.h\<close>: a power-of-two number of buckets, each a \<^verbatim>\<open>SmallTreeMap\<close>,
  and an array with the nodes in iteration order. Both live in one allocation of \<open>2 * capacity\<close>
  pointers, the field \<open>hm_array\<close> (\<open>None\<close> before the first use): the first half is the node list, the
  second half holds the roots of the bucket trees. The hash function is an argument. A
  capacity hint of the caller is computed with in 64 bits, with the wrap-around of \<^verbatim>\<open>size_t\<close>, and a node array whose
  size in bytes does not fit 64 bits is \<open>None\<close>. The sizes that depend on the number of elements only are
  not cut: that many elements exist, so they are far from the width of \<^verbatim>\<open>size_t\<close>.
\<close>

section \<open>Model\<close>

record ('k, 'v) hash_map =
  hm_array :: "ptr list option"
  hm_heap :: "('k, 'v) node_heap"
  hm_pool :: pool
  hm_size :: nat
  hm_capacity :: nat

definition hm_new :: "nat \<Rightarrow> ('k, 'v) hash_map" where
  "hm_new brk = \<lparr>hm_array = None, hm_heap = (\<lambda>_. None), hm_pool = pool_new brk, hm_size = 0, hm_capacity = 0\<rparr>"

function pow2_loop :: "nat \<Rightarrow> nat \<Rightarrow> nat" where
  "pow2_loop ssize capacity = (if 0 < ssize \<and> ssize < capacity then pow2_loop (2 * ssize) capacity else ssize)"
  by auto
termination by (relation "measure (\<lambda>(s, c). c - s)") auto

declare pow2_loop.simps [simp del]

definition get_pow2_size :: "nat \<Rightarrow> nat" where "get_pow2_size capacity = pow2_loop 1 capacity"

text \<open>\<^verbatim>\<open>_get_pow2_size ((capacity * 4 + 2) / 3)\<close>; the quotient is below \<open>2 ^ 63\<close>, so the loop stops.\<close>

definition hint_capacity :: "nat \<Rightarrow> nat" where
  "hint_capacity capacity = get_pow2_size (u64 (u64 (capacity * 4) + 2) div 3)"

text \<open>The size in bytes of the \<open>2 * capacity\<close> pointers that \<^verbatim>\<open>allocate\<close> is asked for fits \<^verbatim>\<open>size_t\<close>.\<close>

definition array_fits :: "nat \<Rightarrow> bool" where
  "array_fits capacity \<longleftrightarrow> capacity * 2 * 8 < 2 ^ 64"

definition hm_new_capacity :: "nat \<Rightarrow> nat \<Rightarrow> ('k, 'v) hash_map option" where
  "hm_new_capacity brk capacity =
     (let capacity = hint_capacity (if capacity < 16 then 16 else capacity)
      in if array_fits capacity
         then Some \<lparr>hm_array = Some (replicate (capacity * 2) None), hm_heap = (\<lambda>_. None), hm_pool = pool_new brk,
                    hm_size = 0, hm_capacity = capacity\<rparr>
         else None)"

text \<open>\<^verbatim>\<open>hash & (size - 1)\<close> for a power of two \<open>size\<close>.\<close>

definition get_hash :: "64 word \<Rightarrow> nat \<Rightarrow> nat" where
  "get_hash hv sz = unat (and hv (of_nat sz - 1))"

definition get_new_link_node :: "('k, 'v) hash_map \<Rightarrow> 64 word \<Rightarrow> ptr \<Rightarrow> ('k, 'v) hash_map option" where
  "get_new_link_node m hv node =
     do {
       arr \<leftarrow> hm_array m;
       h \<leftarrow> upd (hm_heap m) node (\<lambda>n. n\<lparr>payload := (payload n)\<lparr>hash_value := hv\<rparr>\<rparr>);
       h \<leftarrow> upd h node (\<lambda>n. n\<lparr>payload := (payload n)\<lparr>array_index := hm_size m\<rparr>\<rparr>);
       arr \<leftarrow> wr arr (hm_size m) node;
       Some (m\<lparr>hm_heap := h, hm_array := Some arr, hm_size := hm_size m + 1\<rparr>)
     }"

definition delete_link_node :: "('k, 'v) hash_map \<Rightarrow> nat \<Rightarrow> ('k, 'v) hash_map option" where
  "delete_link_node m i =
     do {
       arr \<leftarrow> hm_array m;
       if i \<noteq> hm_size m - 1 then do {
         ite \<leftarrow> rd arr (hm_size m - 1);
         h \<leftarrow> upd (hm_heap m) ite (\<lambda>n. n\<lparr>payload := (payload n)\<lparr>array_index := i\<rparr>\<rparr>);
         arr \<leftarrow> wr arr i ite;
         Some (m\<lparr>hm_heap := h, hm_array := Some arr, hm_size := hm_size m - 1\<rparr>)
       } else Some (m\<lparr>hm_size := hm_size m - 1\<rparr>)
     }"

definition try_init :: "('k, 'v) hash_map \<Rightarrow> ('k, 'v) hash_map" where
  "try_init m =
     (case hm_array m of
        Some _ \<Rightarrow> m
      | None \<Rightarrow>
          (let capacity = get_pow2_size (if hm_capacity m < 16 then 16 else hm_capacity m)
           in m\<lparr>hm_array := Some (replicate (capacity * 2) None), hm_capacity := capacity, hm_size := 0\<rparr>))"

text \<open>The loop of \<^verbatim>\<open>_resize\<close>: every node is linked into its bucket of the new array.\<close>

fun rehash :: "('k::linorder, 'v) node_heap \<Rightarrow> ptr list \<Rightarrow> nat \<Rightarrow> ptr list \<Rightarrow> (('k, 'v) node_heap \<times> ptr list) option" where
  "rehash h new cap [] = Some (h, new)"
| "rehash h new cap (node # nodes) =
     do {
       e \<leftarrow> fld h node payload;
       let b = cap + get_hash (hash_value e) cap;
       root \<leftarrow> rd new b;
       (_, h, root) \<leftarrow> weak_insert h root node;
       new \<leftarrow> wr new b root;
       rehash h new cap nodes
     }"

definition resize :: "('k::linorder, 'v) hash_map \<Rightarrow> nat \<Rightarrow> ('k, 'v) hash_map option" where
  "resize m new_capacity =
     (if new_capacity \<le> hm_capacity m then Some m
      else do {
        arr \<leftarrow> hm_array m;
        let new = replicate (new_capacity * 2) None;
        new \<leftarrow> memcpy new 0 arr 0 (hm_size m);
        (h, new) \<leftarrow> rehash (hm_heap m) new new_capacity (take (hm_size m) arr);
        Some (m\<lparr>hm_heap := h, hm_array := Some new, hm_capacity := new_capacity\<rparr>)
      })"

definition try_resize :: "('k::linorder, 'v) hash_map \<Rightarrow> ('k, 'v) hash_map option" where
  "try_resize m =
     (let m = try_init m;
          target_capacity = ((hm_size m + 1) * 4 + 2) div 3;
          target_capacity = (if target_capacity < 16 then 16 else target_capacity)
      in if hm_capacity m < target_capacity then resize m (get_pow2_size target_capacity) else Some m)"

text \<open>An operation of the bucket tree whose root is at index \<open>b\<close> of the array.\<close>

definition bucket :: "('k, 'v) hash_map \<Rightarrow> nat \<Rightarrow> ('k, 'v) tree_state option" where
  "bucket m b =
     do { arr \<leftarrow> hm_array m; root \<leftarrow> rd arr b; Some \<lparr>ts_heap = hm_heap m, ts_pool = hm_pool m, ts_root = root\<rparr> }"

definition put_bucket :: "('k, 'v) hash_map \<Rightarrow> nat \<Rightarrow> ('k, 'v) tree_state \<Rightarrow> ('k, 'v) hash_map option" where
  "put_bucket m b s =
     do {
       arr \<leftarrow> hm_array m;
       arr \<leftarrow> wr arr b (ts_root s);
       Some (m\<lparr>hm_array := Some arr, hm_heap := ts_heap s, hm_pool := ts_pool s\<rparr>)
     }"

definition force_emplace :: "('k::linorder \<Rightarrow> 64 word) \<Rightarrow> ('k, 'v) hash_map \<Rightarrow> 'k \<Rightarrow> 'v \<Rightarrow> (ptr \<times> ('k, 'v) hash_map) option" where
  "force_emplace hasher m key v =
     do {
       m \<leftarrow> try_resize m;
       let hv = hasher key;
       let b = hm_capacity m + get_hash hv (hm_capacity m);
       s \<leftarrow> bucket m b;
       (node, new, s) \<leftarrow> insert_or_assign s key v;
       m \<leftarrow> put_bucket m b s;
       m \<leftarrow> (if new then get_new_link_node m hv node else Some m);
       Some (node, m)
     }"

definition try_emplace :: "('k::linorder \<Rightarrow> 64 word) \<Rightarrow> ('k, 'v) hash_map \<Rightarrow> 'k \<Rightarrow> 'v \<Rightarrow> (ptr \<times> bool \<times> ('k, 'v) hash_map) option" where
  "try_emplace hasher m key v =
     do {
       m \<leftarrow> try_resize m;
       let hv = hasher key;
       let b = hm_capacity m + get_hash hv (hm_capacity m);
       s \<leftarrow> bucket m b;
       (node, new, s) \<leftarrow> try_insert s key v;
       m \<leftarrow> put_bucket m b s;
       m \<leftarrow> (if new then get_new_link_node m hv node else Some m);
       Some (node, new, m)
     }"

definition emplace :: "('k::linorder \<Rightarrow> 64 word) \<Rightarrow> ('k, 'v) hash_map \<Rightarrow> 'k \<Rightarrow> 'v \<Rightarrow> (ptr \<times> ('k, 'v) hash_map) option" where
  "emplace hasher m key v = do { (node, _, m) \<leftarrow> try_emplace hasher m key v; Some (node, m) }"

definition reserve :: "('k::linorder, 'v) hash_map \<Rightarrow> nat \<Rightarrow> ('k, 'v) hash_map option" where
  "reserve m capacity =
     (let m = try_init m; new_capacity = hint_capacity capacity
      in if hm_capacity m < new_capacity \<and> \<not> array_fits new_capacity then None else resize m new_capacity)"

definition hm_find :: "('k::linorder \<Rightarrow> 64 word) \<Rightarrow> ('k, 'v) hash_map \<Rightarrow> 'k \<Rightarrow> ptr option" where
  "hm_find hasher m key =
     (case hm_array m of
        None \<Rightarrow> Some None
      | Some arr \<Rightarrow> do {
          root \<leftarrow> rd arr (hm_capacity m + get_hash (hasher key) (hm_capacity m));
          find (hm_heap m) root key
        })"

definition hm_remove :: "('k::linorder \<Rightarrow> 64 word) \<Rightarrow> ('k, 'v) hash_map \<Rightarrow> 'k \<Rightarrow> ('k, 'v) hash_map option" where
  "hm_remove hasher m key =
     (case hm_array m of
        None \<Rightarrow> Some m
      | Some _ \<Rightarrow> do {
          let b = hm_capacity m + get_hash (hasher key) (hm_capacity m);
          s \<leftarrow> bucket m b;
          (i, s) \<leftarrow> remove_key s key;
          m \<leftarrow> put_bucket m b s;
          case i of None \<Rightarrow> Some m | Some i \<Rightarrow> delete_link_node m i
        })"

text \<open>The private \<^verbatim>\<open>remove(LinkNode *)\<close> behind the removals by index and by iterator.\<close>

definition hm_remove_node :: "('k, 'v) hash_map \<Rightarrow> ptr \<Rightarrow> ('k, 'v) hash_map option" where
  "hm_remove_node m node =
     do {
       e \<leftarrow> fld (hm_heap m) node payload;
       let b = hm_capacity m + get_hash (hash_value e) (hm_capacity m);
       s \<leftarrow> bucket m b;
       s \<leftarrow> remove_node s node;
       m \<leftarrow> put_bucket m b s;
       delete_link_node m (array_index e)
     }"

fun destroy_all :: "('k, 'v) node_heap \<Rightarrow> pool \<Rightarrow> ptr list \<Rightarrow> ('k, 'v) node_heap \<times> pool" where
  "destroy_all h pl [] = (h, pl)"
| "destroy_all h pl (p # ps) = (let (h, pl) = destroy h pl p in destroy_all h pl ps)"

definition hm_clear :: "('k, 'v) hash_map \<Rightarrow> ('k, 'v) hash_map option" where
  "hm_clear m =
     (if hm_size m = 0 then Some m
      else do {
        arr \<leftarrow> hm_array m;
        let arr' = take (hm_capacity m) arr @ replicate (hm_capacity m) None;
        let (h, pl) = destroy_all (hm_heap m) (hm_pool m) (take (hm_size m) arr);
        Some (m\<lparr>hm_array := Some arr', hm_heap := h, hm_pool := pl, hm_size := 0\<rparr>)
      })"

text \<open>
  The move constructor: every node of the source, at heap \<open>src\<close>, is recreated in the pool of the new
  map at the same array index and linked into its bucket; then the source's nodes are destructed in
  place (its pool keeps their cells) and the source is left without an array.
\<close>

fun move_nodes :: "('k::linorder, 'v) node_heap \<Rightarrow> ('k, 'v) hash_map \<Rightarrow> nat \<Rightarrow> ptr list \<Rightarrow> ('k, 'v) hash_map option" where
  "move_nodes src m i [] = Some m"
| "move_nodes src m i (p # ps) =
     do {
       e \<leftarrow> fld src p payload;
       (dst, h, pl) \<leftarrow> create (hm_heap m) (hm_pool m) (first e) (second e);
       h \<leftarrow> upd h dst (\<lambda>n. n\<lparr>payload := (payload n)\<lparr>hash_value := hash_value e\<rparr>\<rparr>);
       h \<leftarrow> upd h dst (\<lambda>n. n\<lparr>payload := (payload n)\<lparr>array_index := i\<rparr>\<rparr>);
       arr \<leftarrow> hm_array m;
       arr \<leftarrow> wr arr i dst;
       let b = hm_capacity m + get_hash (hash_value e) (hm_capacity m);
       root \<leftarrow> rd arr b;
       (_, h, root) \<leftarrow> weak_insert h root dst;
       arr \<leftarrow> wr arr b root;
       move_nodes src (m\<lparr>hm_array := Some arr, hm_heap := h, hm_pool := pl\<rparr>) (i + 1) ps
     }"

fun destruct_all :: "('k, 'v) node_heap \<Rightarrow> ptr list \<Rightarrow> ('k, 'v) node_heap" where
  "destruct_all h [] = h"
| "destruct_all h (p # ps) = destruct_all (case p of None \<Rightarrow> h | Some a \<Rightarrow> h(a := None)) ps"

definition hm_move :: "nat \<Rightarrow> ('k::linorder, 'v) hash_map \<Rightarrow> (('k, 'v) hash_map \<times> ('k, 'v) hash_map) option" where
  "hm_move brk m =
     (let new = \<lparr>hm_array = None, hm_heap = (\<lambda>_. None), hm_pool = pool_new brk, hm_size = hm_size m, hm_capacity = hm_capacity m\<rparr>
      in case hm_array m of
           None \<Rightarrow> Some (new, m)
         | Some arr \<Rightarrow> do {
             let new = new\<lparr>hm_array := Some (replicate (hm_capacity m * 2) None)\<rparr>;
             new \<leftarrow> move_nodes (hm_heap m) new 0 (take (hm_size m) arr);
             let h = destruct_all (hm_heap m) (take (hm_size m) arr);
             Some (new, m\<lparr>hm_array := None, hm_heap := h, hm_size := 0, hm_capacity := 0\<rparr>)
           })"

text \<open>The value behind an index (\<^verbatim>\<open>Index::value\<close>) and the pairs an iteration visits.\<close>

definition index_value :: "('k, 'v) hash_map \<Rightarrow> ptr \<Rightarrow> 'v option" where
  "index_value m p = fld (hm_heap m) p (second \<circ> payload)"

definition iterate :: "('k, 'v) hash_map \<Rightarrow> ('k \<times> 'v) option list" where
  "iterate m =
     (case hm_array m of
        None \<Rightarrow> []
      | Some arr \<Rightarrow> map (\<lambda>p. fld (hm_heap m) p (\<lambda>n. (first (payload n), second (payload n)))) (take (hm_size m) arr))"

section \<open>Powers of two\<close>

lemma pow2_loop_ok: "\<exists>j. pow2_loop (2 ^ i) c = 2 ^ j \<and> c \<le> 2 ^ j"
proof (induction "c - 2 ^ i" arbitrary: i rule: less_induct)
  case less
  show ?case
  proof (cases "(2::nat) ^ i < c")
    case True
    have "c - 2 ^ Suc i < c - 2 ^ i" using True by (intro diff_less_mono2) auto
    then show ?thesis using less [of "Suc i"] True by (subst pow2_loop.simps) simp
  qed (use pow2_loop.simps [of "2 ^ i" c] in auto)
qed

lemma pow2_loop_le: "i \<le> k \<Longrightarrow> c \<le> 2 ^ k \<Longrightarrow> pow2_loop (2 ^ i) c \<le> 2 ^ k"
proof (induction "k - i" arbitrary: i)
  case 0
  then show ?case by (subst pow2_loop.simps) simp
next
  case (Suc n)
  have "pow2_loop (2 ^ Suc i) c \<le> 2 ^ k" using Suc.hyps(2) Suc.prems by (intro Suc.hyps(1)) auto
  moreover have "(2 :: nat) ^ i \<le> 2 ^ k" using Suc.prems(1) by (intro power_increasing) auto
  ultimately show ?case by (subst pow2_loop.simps) simp
qed

text \<open>Hints up to this bound are computed with without wrap-around.\<close>

lemma hint_capacity_fits:
  assumes "c < 2 ^ 58"
  shows "hint_capacity c = get_pow2_size ((c * 4 + 2) div 3)" "array_fits (hint_capacity c)"
proof -
  show e: "hint_capacity c = get_pow2_size ((c * 4 + 2) div 3)" using assms by (simp add: hint_capacity_def u64_id)
  have "(c * 4 + 2) div 3 \<le> 2 ^ 59" using assms by simp
  then have "get_pow2_size ((c * 4 + 2) div 3) \<le> 2 ^ 59" using pow2_loop_le [of 0 59 "(c * 4 + 2) div 3"] by (simp add: get_pow2_size_def)
  then show "array_fits (hint_capacity c)" unfolding e array_fits_def by simp
qed

lemma get_pow2_size_ok: "\<exists>j. get_pow2_size c = 2 ^ j \<and> c \<le> 2 ^ j"
  using pow2_loop_ok [of 0 c] by (simp add: get_pow2_size_def)

lemma get_hash_less: "get_hash hv (2 ^ j) < 2 ^ j"
proof (cases "j < 64")
  case True
  have "and hv (of_nat (2 ^ j) - 1) = take_bit j hv" by (simp add: take_bit_eq_mask mask_eq_exp_minus_1)
  then show ?thesis unfolding get_hash_def using True by (simp add: unsigned_take_bit_eq)
next
  case False
  have "unat (and hv (of_nat (2 ^ j) - 1)) < 2 ^ 64" by (rule less_le_trans [OF unsigned_less]) simp
  also have "(2::nat) ^ 64 \<le> 2 ^ j" using False by (intro power_increasing) auto
  finally show ?thesis by (simp add: get_hash_def)
qed

section \<open>Buckets\<close>

text \<open>A bucket tree: a sorted red-black tree whose keys hash to the bucket.\<close>

definition bt_ok :: "('k::linorder \<Rightarrow> 64 word) \<Rightarrow> ('k, 'v) node_heap \<Rightarrow> nat \<Rightarrow> nat \<Rightarrow> ('k, 'v) elem rt \<Rightarrow> bool" where
  "bt_ok hasher h cap b t \<longleftrightarrow>
     rep h None t \<and> distinct (addrs t) \<and> rbt t \<and> sorted_wrt (<) (keys t) \<and>
     (\<forall>n\<in>set (items t). hash_value (snd n) = hasher (first (snd n)) \<and> get_hash (hash_value (snd n)) cap = b)"

definition bk_ok :: "('k::linorder \<Rightarrow> 64 word) \<Rightarrow> ('k, 'v) node_heap \<Rightarrow> nat \<Rightarrow> ('k, 'v) elem rt list \<Rightarrow> bool" where
  "bk_ok hasher h cap ts \<longleftrightarrow>
     length ts = cap \<and> (\<forall>b<cap. bt_ok hasher h cap b (ts ! b)) \<and>
     (\<forall>b<cap. \<forall>c<cap. b \<noteq> c \<longrightarrow> set (addrs (ts ! b)) \<inter> set (addrs (ts ! c)) = {})"

lemma bkD:
  assumes "bk_ok hasher h cap ts" "b < cap"
  shows "bt_ok hasher h cap b (ts ! b)" "length ts = cap"
    "\<And>c z. c < cap \<Longrightarrow> c \<noteq> b \<Longrightarrow> z \<in> set (addrs (ts ! c)) \<Longrightarrow> z \<notin> set (addrs (ts ! b))"
proof -
  show "bt_ok hasher h cap b (ts ! b)" "length ts = cap" using assms by (auto simp: bk_ok_def)
  show "z \<notin> set (addrs (ts ! b))" if "c < cap" "c \<noteq> b" "z \<in> set (addrs (ts ! c))" for c z
  proof -
    have "\<forall>b<cap. \<forall>c<cap. b \<noteq> c \<longrightarrow> set (addrs (ts ! b)) \<inter> set (addrs (ts ! c)) = {}" using assms(1) by (simp add: bk_ok_def)
    then have "set (addrs (ts ! c)) \<inter> set (addrs (ts ! b)) = {}" using that(1,2) assms(2) by simp
    then show ?thesis using that(3) by auto
  qed
qed

definition all_addrs :: "('k, 'v) elem rt list \<Rightarrow> nat set" where
  "all_addrs ts = (\<Union>t\<in>set ts. set (addrs t))"

lemma all_addrs_nth: "a \<in> all_addrs ts \<longleftrightarrow> (\<exists>b<length ts. a \<in> set (addrs (ts ! b)))"
  unfolding all_addrs_def set_conv_nth [of ts] by blast

lemma bt_cong: "bt_ok hasher h cap b t \<Longrightarrow> (\<And>a. a \<in> set (addrs t) \<Longrightarrow> h' a = h a) \<Longrightarrow> bt_ok hasher h' cap b t"
  using rep_cong [of t h' h None] by (auto simp: bt_ok_def)

text \<open>Replacing one bucket tree, with the heap changed only in it and in new nodes.\<close>

lemma bk_update:
  assumes ok: "bk_ok hasher h cap ts" and b: "b < cap" and t': "bt_ok hasher h' cap b t'"
    and new: "set (addrs t') \<subseteq> set (addrs (ts ! b)) \<union> N" "N \<inter> all_addrs ts = {}"
    and frame: "\<forall>z. z \<notin> set (addrs (ts ! b)) \<union> N \<longrightarrow> h' z = h z"
  shows "bk_ok hasher h' cap (ts[b := t'])"
proof -
  note D = bkD [OF ok]
  have other: "z \<notin> set (addrs (ts ! b)) \<union> N" if "c < cap" "c \<noteq> b" "z \<in> set (addrs (ts ! c))" for c z
  proof -
    have "z \<in> all_addrs ts" using that D(2) [OF b] all_addrs_nth by auto
    then show ?thesis using D(3) [OF b that] new(2) by auto
  qed
  show ?thesis unfolding bk_ok_def
  proof (intro conjI allI impI)
    show "bt_ok hasher h' cap c (ts[b := t'] ! c)" if "c < cap" for c
    proof (cases "c = b")
      case False
      have "bt_ok hasher h' cap c (ts ! c)" by (rule bt_cong [OF D(1) [OF that]]) (use frame other [OF that False] in blast)
      then show ?thesis using False by simp
    qed (use t' that D(2) [OF b] in simp)
    show "set (addrs (ts[b := t'] ! c)) \<inter> set (addrs (ts[b := t'] ! e)) = {}" if ce: "c < cap" "e < cap" "c \<noteq> e" for c e
    proof -
      consider "c = b" "e \<noteq> b" | "e = b" "c \<noteq> b" | "c \<noteq> b" "e \<noteq> b" using ce(3) by auto
      then show ?thesis
      proof cases
        case 1 then show ?thesis using new(1) other [OF ce(2)] D(2) [OF b] b by auto
      next
        case 2 then show ?thesis using new(1) other [OF ce(1)] D(2) [OF b] b by auto
      next
        case 3 then show ?thesis using D(3) [OF ce(2,1,3)] by auto
      qed
    qed
  qed (use D(2) [OF b] in simp)
qed

lemma all_addrs_update:
  assumes "bk_ok hasher h cap ts" "b < cap"
  shows "all_addrs (ts[b := t']) = (all_addrs ts - set (addrs (ts ! b))) \<union> set (addrs t')"
proof (intro set_eqI iffI)
  note D = bkD [OF assms]
  fix z assume "z \<in> all_addrs (ts[b := t'])"
  then obtain c where c: "c < length ts" "z \<in> set (addrs (ts[b := t'] ! c))" by (auto simp: all_addrs_nth)
  then show "z \<in> all_addrs ts - set (addrs (ts ! b)) \<union> set (addrs t')"
    using D(2) D(3) [of c z] by (cases "c = b") (auto simp: all_addrs_nth)
next
  note D = bkD [OF assms]
  fix z assume "z \<in> all_addrs ts - set (addrs (ts ! b)) \<union> set (addrs t')"
  then consider "z \<in> set (addrs t')" | c where "c < length ts" "c \<noteq> b" "z \<in> set (addrs (ts ! c))"
    by (auto simp: all_addrs_nth)
  then show "z \<in> all_addrs (ts[b := t'])"
  proof cases
    case 1 then show ?thesis using assms(2) D(2) by (auto simp: all_addrs_nth intro!: exI [of _ b])
  next
    case (2 c) then show ?thesis by (auto simp: all_addrs_nth intro!: exI [of _ c])
  qed
qed

lemma bk_empty: "bk_ok hasher h cap (replicate cap Lf)" "all_addrs (replicate cap Lf) = {}"
  by (auto simp: bk_ok_def bt_ok_def all_addrs_def rbt_def)

lemma bk_payload:
  assumes "bk_ok hasher h cap ts" "a \<in> all_addrs ts"
  shows "\<exists>n. h a = Some n \<and> hash_value (payload n) = hasher (first (payload n)) \<and>
     get_hash (hash_value (payload n)) cap < cap \<and>
     (a, payload n) \<in> set (items (ts ! get_hash (hash_value (payload n)) cap))"
proof -
  obtain b where b: "b < cap" "a \<in> set (addrs (ts ! b))" using assms by (auto simp: all_addrs_nth bk_ok_def)
  note T = bkD(1) [OF assms(1) b(1), unfolded bt_ok_def]
  obtain e where e: "(a, e) \<in> set (items (ts ! b))" using b(2) unfolding fst_items [symmetric] by auto
  obtain n where n: "h a = Some n" "payload n = e" using items_in_heap [OF conjunct1 [OF T] e] by blast
  have "hash_value e = hasher (first e)" "get_hash (hash_value e) cap = b" using T e by force+
  then show ?thesis using n b(1) e by (intro exI [of _ n]) simp
qed

text \<open>A key is found exactly in the bucket its hash selects.\<close>

lemma bk_lookup:
  assumes "bk_ok hasher h cap ts" "get_hash (hasher k) cap < cap"
  shows "item_of (ts ! get_hash (hasher k) cap) k = Some (a, e) \<longleftrightarrow>
     a \<in> all_addrs ts \<and> (\<exists>n. h a = Some n \<and> payload n = e) \<and> first e = k"
proof -
  let ?b = "get_hash (hasher k) cap"
  note T = bkD(1) [OF assms, unfolded bt_ok_def]
  have s: "sorted_wrt (<) (keys (ts ! ?b))" using T by blast
  then have "distinct (keys (ts ! ?b))" by (simp add: strict_sorted_iff)
  then have "item_of (ts ! ?b) k = Some (a, e) \<longleftrightarrow> (a, e) \<in> set (items (ts ! ?b)) \<and> first e = k" by (rule item_of_set)
  also have "\<dots> \<longleftrightarrow> a \<in> all_addrs ts \<and> (\<exists>n. h a = Some n \<and> payload n = e) \<and> first e = k"
  proof (intro iffI)
    assume l: "(a, e) \<in> set (items (ts ! ?b)) \<and> first e = k"
    then have "a \<in> set (addrs (ts ! ?b))" unfolding fst_items [symmetric] by force
    then show "a \<in> all_addrs ts \<and> (\<exists>n. h a = Some n \<and> payload n = e) \<and> first e = k"
      using l assms(2) bkD(2) [OF assms] items_in_heap [OF conjunct1 [OF T], of a e] all_addrs_nth [of a ts] by auto
  next
    assume r: "a \<in> all_addrs ts \<and> (\<exists>n. h a = Some n \<and> payload n = e) \<and> first e = k"
    then show "(a, e) \<in> set (items (ts ! ?b)) \<and> first e = k" using bk_payload [OF assms(1), of a] by auto
  qed
  finally show ?thesis .
qed

section \<open>Payloads\<close>

definition pay :: "('k, 'v) node_heap \<Rightarrow> nat \<Rightarrow> ('k, 'v) elem option" where
  "pay h a = map_option payload (h a)"

lemma pay_items: "rep h q t \<Longrightarrow> (a, e) \<in> set (items t) \<Longrightarrow> pay h a = Some e"
  using items_in_heap [of h q t a e] by (auto simp: pay_def)

lemma pay_tree: "rep h q t \<Longrightarrow> a \<in> set (addrs t) \<Longrightarrow> \<exists>e. (a, e) \<in> set (items t) \<and> pay h a = Some e"
  using pay_items [of h q t a] unfolding fst_items [symmetric] by fastforce

definition nkey :: "('k, 'v) node_heap \<Rightarrow> nat \<Rightarrow> 'k option" where
  "nkey h a = map_option first (pay h a)"

lemma bk_nkey_inj:
  assumes "bk_ok hasher h cap ts"
  shows "inj_on (nkey h) (all_addrs ts)"
proof (rule inj_onI)
  fix x y assume xy: "x \<in> all_addrs ts" "y \<in> all_addrs ts" "nkey h x = nkey h y"
  obtain n where n: "h x = Some n" "hash_value (payload n) = hasher (first (payload n))" "get_hash (hash_value (payload n)) cap < cap"
    using bk_payload [OF assms xy(1)] by blast
  obtain n' where n': "h y = Some n'" using bk_payload [OF assms xy(2)] by blast
  have k: "first (payload n') = first (payload n)" using xy(3) n n' by (simp add: nkey_def pay_def)
  have b: "get_hash (hasher (first (payload n))) cap < cap" using n by simp
  have "item_of (ts ! get_hash (hasher (first (payload n))) cap) (first (payload n)) = Some (x, payload n)"
    using bk_lookup [OF assms b] xy(1) n by auto
  moreover have "item_of (ts ! get_hash (hasher (first (payload n))) cap) (first (payload n)) = Some (y, payload n')"
    using bk_lookup [OF assms b] xy(2) n' k by auto
  ultimately show "x = y" by simp
qed

lemma item_insert_set:
  assumes "first e \<notin> (\<lambda>n. first (snd n)) ` set xs"
  shows "set (item_insert xs a e) = insert (a, e) (set (xs :: (nat \<times> ('k::linorder, 'v) elem) list))"
proof -
  have "first (snd n) < first e \<or> first e < first (snd n)" if "n \<in> set xs" for n using assms that by force
  then show ?thesis unfolding item_insert_def by auto
qed

lemma set_keys: "set (keys t) = (\<lambda>n. first (snd n)) ` set (items t)"
  by (simp add: keys_def image_comp o_def)

text \<open>Rehashing: one node more in its bucket, every payload as before.\<close>

lemma weak_insert_ok:
  assumes ok: "bk_ok hasher h cap ts" and a: "a \<notin> all_addrs ts" "h a = Some n"
    and hv: "hash_value (payload n) = hasher (first (payload n))" and b: "b = get_hash (hash_value (payload n)) cap" "b < cap"
    and key: "nkey h a \<notin> nkey h ` all_addrs ts"
  shows "\<exists>h' t'. weak_insert h (pt (ts ! b)) (Some a) = Some (Some a, h', pt t') \<and>
     bk_ok hasher h' cap (ts[b := t']) \<and> all_addrs (ts[b := t']) = insert a (all_addrs ts) \<and> (\<forall>z. pay h' z = pay h z)"
proof -
  let ?t = "ts ! b"
  note T = bkD(1) [OF ok b(2), unfolded bt_ok_def]
  have sub: "set (addrs ?t) \<subseteq> all_addrs ts" using b(2) bkD(2) [OF ok b(2)] by (auto simp: all_addrs_nth)
  have at: "a \<notin> set (addrs ?t)" using a(1) sub by blast
  have nk: "first (payload n) \<notin> set (keys ?t)"
  proof
    assume "first (payload n) \<in> set (keys ?t)"
    then obtain x e where x: "(x, e) \<in> set (items ?t)" "first e = first (payload n)" unfolding set_keys by auto
    then have "nkey h x = nkey h a" "x \<in> set (addrs ?t)"
      using pay_items [OF conjunct1 [OF T] x(1)] a(2) fst_items [of ?t] by (force simp: nkey_def pay_def)+
    then show False using key sub by (metis image_eqI subsetD)
  qed
  obtain y cr h' t' where L: "insert_point h (pt ?t) None 0 (first (payload n)) = Some (Inr (y, cr))"
     "link_node h (Some a) y cr (pt ?t) = Some (h', pt t')" "rep h' None t'" "distinct (addrs t')" "rbt t'"
     "sorted_wrt (<) (keys t')" "items t' = item_insert (items ?t) a (payload n)" "\<forall>z. z \<noteq> a \<and> z \<notin> set (addrs ?t) \<longrightarrow> h' z = h z"
    using tree_link_ok [of h ?t n a] nk at a(2) T by blast
  have it: "set (items t') = insert (a, payload n) (set (items ?t))"
    using item_insert_set [of "payload n" "items ?t" a] nk unfolding L(7) set_keys by blast
  have ad: "set (addrs t') = insert a (set (addrs ?t))" unfolding fst_items [symmetric] it by simp
  have bt: "bt_ok hasher h' cap b t'" using L(3-6) T hv b(1) unfolding bt_ok_def it by auto
  have "bk_ok hasher h' cap (ts[b := t'])"
    by (rule bk_update [OF ok b(2) bt, of "{a}"]) (use ad a(1) L(8) in auto)
  moreover have "all_addrs (ts[b := t']) = insert a (all_addrs ts)"
    unfolding all_addrs_update [OF ok b(2)] ad using sub by auto
  moreover have "pay h' z = pay h z" for z
  proof (cases "z \<in> set (addrs t')")
    case True
    then obtain e where e: "(z, e) \<in> set (items t')" "pay h' z = Some e" using pay_tree [OF L(3)] by blast
    then have "z = a \<and> e = payload n \<or> (z, e) \<in> set (items ?t)" unfolding it by auto
    then show ?thesis using e(2) a(2) pay_items [OF conjunct1 [OF T], of z e] by (auto simp: pay_def)
  next
    case False
    then show ?thesis using L(8) ad by (simp add: pay_def)
  qed
  ultimately show ?thesis using L(1,2) a(2) unfolding weak_insert_def by auto
qed

lemma rehash_ok:
  assumes "bk_ok hasher h cap ts" "cap = 2 ^ j" "length new = 2 * cap" "drop cap new = map pt ts" "distinct nodes"
    "set nodes \<inter> all_addrs ts = {}" "\<forall>a\<in>set nodes. \<exists>e. pay h a = Some e \<and> hash_value e = hasher (first e)"
    "inj_on (nkey h) (all_addrs ts \<union> set nodes)"
  shows "\<exists>h' ts' new'. rehash h new cap (map Some nodes) = Some (h', new') \<and> bk_ok hasher h' cap ts' \<and>
     all_addrs ts' = all_addrs ts \<union> set nodes \<and> length new' = 2 * cap \<and> take cap new' = take cap new \<and>
     drop cap new' = map pt ts' \<and> (\<forall>z. pay h' z = pay h z)"
  using assms
proof (induction nodes arbitrary: h ts new)
  case (Cons a nodes)
  obtain n where n: "h a = Some n" "hash_value (payload n) = hasher (first (payload n))"
    using Cons.prems(7) by (auto simp: pay_def)
  define b where "b = get_hash (hash_value (payload n)) cap"
  have b: "b < cap" using get_hash_less Cons.prems(2) by (simp add: b_def)
  have len: "length ts = cap" using Cons.prems(1) by (simp add: bk_ok_def)
  have root: "rd new (cap + b) = Some (pt (ts ! b))"
    using Cons.prems(3) b len arg_cong [OF Cons.prems(4), of "\<lambda>l. l ! b"] by simp
  have key: "nkey h a \<notin> nkey h ` all_addrs ts"
    using Cons.prems(6,8) unfolding inj_on_def by auto
  have an: "a \<notin> all_addrs ts" using Cons.prems(6) by simp
  obtain h1 t1 where W: "weak_insert h (pt (ts ! b)) (Some a) = Some (Some a, h1, pt t1)" "bk_ok hasher h1 cap (ts[b := t1])"
    "all_addrs (ts[b := t1]) = insert a (all_addrs ts)" "\<forall>z. pay h1 z = pay h z"
    using weak_insert_ok [OF Cons.prems(1) an n b_def b key] by blast
  have pe: "pay h1 = pay h" "nkey h1 = nkey h" using W(4) by (auto simp: nkey_def)
  let ?new = "new[cap + b := pt t1]"
  have "\<exists>h' ts' new'. rehash h1 ?new cap (map Some nodes) = Some (h', new') \<and> bk_ok hasher h' cap ts' \<and>
     all_addrs ts' = all_addrs (ts[b := t1]) \<union> set nodes \<and> length new' = 2 * cap \<and> take cap new' = take cap ?new \<and>
     drop cap new' = map pt ts' \<and> (\<forall>z. pay h' z = pay h1 z)"
  proof (rule Cons.IH [OF W(2) Cons.prems(2)])
    show "length ?new = 2 * cap" using Cons.prems(3) by simp
    show "drop cap ?new = map pt (ts[b := t1])" using Cons.prems(4) by (simp add: drop_update_swap map_update)
  qed (use Cons.prems W(3) pe in auto)
  moreover have "rehash h new cap (map Some (a # nodes)) = rehash h1 ?new cap (map Some nodes)"
    using n(1) root W(1) Cons.prems(3) b by (simp add: Let_def b_def [symmetric])
  ultimately show ?case using W(3,4) by auto
qed auto

end
