(* ===== verification/Hash_Map_Ok.thy ===== *)
theory Hash_Map_Ok
  imports Hash_Map "HOL-Library.AList"
begin

text \<open>
  The invariant of \<^verbatim>\<open>kimix::HashMap\<close>, and its refinement of an ordered association list: the pairs in
  the order of iteration.
\<close>

section \<open>Invariant and abstraction\<close>

definition hm_rep :: "('k::linorder \<Rightarrow> 64 word) \<Rightarrow> ('k, 'v) hash_map \<Rightarrow> ptr list \<Rightarrow> nat list \<Rightarrow> ('k, 'v) elem rt list \<Rightarrow> nat \<Rightarrow> bool" where
  "hm_rep hasher m arr nodes ts j \<longleftrightarrow>
     hm_array m = Some arr \<and> hm_capacity m = 2 ^ j \<and> length arr = 2 * 2 ^ j \<and>
     hm_size m = length nodes \<and> length nodes \<le> 2 ^ j \<and> take (length nodes) arr = map Some nodes \<and>
     drop (2 ^ j) arr = map pt ts \<and> bk_ok hasher (hm_heap m) (2 ^ j) ts \<and> all_addrs ts = set nodes \<and> distinct nodes \<and>
     (\<forall>i<length nodes. \<exists>e. pay (hm_heap m) (nodes ! i) = Some e \<and> array_index e = i) \<and>
     (\<exists>live. set nodes \<subseteq> live \<and> pool_ok (hm_pool m) live) \<and> 16 \<le> hm_capacity m"

definition hm_ok :: "('k::linorder \<Rightarrow> 64 word) \<Rightarrow> ('k, 'v) hash_map \<Rightarrow> bool" where
  "hm_ok hasher m \<longleftrightarrow>
     (hm_array m = None \<and> hm_size m = 0 \<and> hm_capacity m = 0 \<and> (\<exists>live. pool_ok (hm_pool m) live)) \<or>
     (\<exists>arr nodes ts j. hm_rep hasher m arr nodes ts j)"

text \<open>The pairs in the order of iteration.\<close>

definition hm_abs :: "('k, 'v) hash_map \<Rightarrow> ('k \<times> 'v) list" where
  "hm_abs m = map the (iterate m)"

definition kv :: "('k, 'v) node_heap \<Rightarrow> nat \<Rightarrow> 'k \<times> 'v" where
  "kv h a = (first (the (pay h a)), second (the (pay h a)))"

lemma hm_abs_rep:
  assumes "hm_rep hasher m arr nodes ts j"
  shows "hm_abs m = map (kv (hm_heap m)) nodes"
proof -
  have "the (fld (hm_heap m) (Some a) (\<lambda>n. (first (payload n), second (payload n)))) = kv (hm_heap m) a" if "a \<in> set nodes" for a
  proof -
    obtain i where "i < length nodes" "nodes ! i = a" using \<open>a \<in> set nodes\<close> by (metis in_set_conv_nth)
    then obtain e where "pay (hm_heap m) a = Some e" using assms unfolding hm_rep_def by blast
    then show ?thesis by (auto simp: kv_def pay_def)
  qed
  then show ?thesis using assms by (simp add: hm_abs_def iterate_def hm_rep_def)
qed

lemma hm_cap16: "hm_rep hasher m arr nodes ts j \<Longrightarrow> (16::nat) \<le> 2 ^ j"
  by (simp add: hm_rep_def)

lemma hm_abs_empty: "hm_array m = None \<Longrightarrow> hm_abs m = []"
  by (simp add: hm_abs_def iterate_def)

lemma hm_node:
  assumes "hm_rep hasher m arr nodes ts j" "i < length nodes"
  shows "\<exists>e. pay (hm_heap m) (nodes ! i) = Some e \<and> array_index e = i \<and> hash_value e = hasher (first e) \<and>
    hm_abs m ! i = (first e, second e)"
proof -
  obtain e where e: "pay (hm_heap m) (nodes ! i) = Some e" "array_index e = i" using assms unfolding hm_rep_def by blast
  have "nodes ! i \<in> all_addrs ts" using assms by (simp add: hm_rep_def)
  then have "hash_value e = hasher (first e)" using bk_payload [of hasher "hm_heap m" "2 ^ j" ts "nodes ! i"] assms(1) e(1)
    by (auto simp: hm_rep_def pay_def)
  then show ?thesis using e assms(2) hm_abs_rep [OF assms(1)] by (simp add: kv_def)
qed

text \<open>Keys are unique, and the tree of a key's bucket finds its position.\<close>

lemma hm_abs_distinct:
  assumes "hm_rep hasher m arr nodes ts j"
  shows "distinct (map fst (hm_abs m))"
proof -
  have "inj_on (nkey (hm_heap m)) (set nodes)" using bk_nkey_inj assms unfolding hm_rep_def by metis
  moreover have "nkey (hm_heap m) a = Some (fst (kv (hm_heap m) a))" if "a \<in> set nodes" for a
  proof -
    obtain i where "i < length nodes" "nodes ! i = a" using \<open>a \<in> set nodes\<close> by (metis in_set_conv_nth)
    then show ?thesis using hm_node [OF assms, of i] by (auto simp: nkey_def kv_def)
  qed
  ultimately have "inj_on (\<lambda>a. fst (kv (hm_heap m) a)) (set nodes)" by (simp add: inj_on_def)
  then show ?thesis using assms hm_abs_rep [OF assms] by (simp add: distinct_map hm_rep_def o_def)
qed

lemma hm_lookup:
  assumes "hm_rep hasher m arr nodes ts j"
  shows "item_of (ts ! get_hash (hasher k) (2 ^ j)) k = Some (a, e) \<longleftrightarrow>
     array_index e < length nodes \<and> nodes ! array_index e = a \<and> pay (hm_heap m) a = Some e \<and> first e = k"
    (is "?l \<longleftrightarrow> ?r")
proof -
  have "?l \<longleftrightarrow> a \<in> set nodes \<and> pay (hm_heap m) a = Some e \<and> first e = k"
    using bk_lookup [of hasher "hm_heap m" "2 ^ j" ts k a e] get_hash_less [of "hasher k" j] assms
    by (auto simp: hm_rep_def pay_def)
  also have "\<dots> \<longleftrightarrow> ?r"
  proof (intro iffI)
    assume l: "a \<in> set nodes \<and> pay (hm_heap m) a = Some e \<and> first e = k"
    then obtain i where "i < length nodes" "nodes ! i = a" by (metis in_set_conv_nth)
    then show ?r using l hm_node [OF assms, of i] by auto
  qed auto
  finally show ?thesis .
qed

lemma hm_lookup_None:
  assumes "hm_rep hasher m arr nodes ts j"
  shows "item_of (ts ! get_hash (hasher k) (2 ^ j)) k = None \<longleftrightarrow> k \<notin> fst ` set (hm_abs m)"
proof
  assume n: "item_of (ts ! get_hash (hasher k) (2 ^ j)) k = None"
  show "k \<notin> fst ` set (hm_abs m)"
  proof
    assume "k \<in> fst ` set (hm_abs m)"
    then obtain i where i: "i < length nodes" "fst (hm_abs m ! i) = k"
      using hm_abs_rep [OF assms] by (auto simp: in_set_conv_nth)
    obtain e where e: "pay (hm_heap m) (nodes ! i) = Some e" "array_index e = i" "first e = k"
      using hm_node [OF assms i(1)] i(2) by auto
    then show False using hm_lookup [OF assms, of k "nodes ! i" e] n i(1) by auto
  qed
next
  assume n: "k \<notin> fst ` set (hm_abs m)"
  have False if "item_of (ts ! get_hash (hasher k) (2 ^ j)) k = Some (a, e)" for a e
  proof -
    have "array_index e < length nodes" "first e = k" "pay (hm_heap m) (nodes ! array_index e) = Some e"
      using that hm_lookup [OF assms] by auto
    then have "hm_abs m ! array_index e = (k, second e)" "array_index e < length (hm_abs m)"
      using hm_node [OF assms, of "array_index e"] hm_abs_rep [OF assms] by auto
    then have "(k, second e) \<in> set (hm_abs m)" by (metis nth_mem)
    then show False using n by force
  qed
  then show "item_of (ts ! get_hash (hasher k) (2 ^ j)) k = None" by (cases "item_of (ts ! get_hash (hasher k) (2 ^ j)) k") auto
qed


section \<open>Growing\<close>

lemma hm_resize_ok:
  fixes m :: "('k::linorder, 'v) hash_map"
  assumes R: "hm_rep hasher m arr nodes ts j"
  shows "\<exists>m' arr' ts' j'. resize m (2 ^ i) = Some m' \<and> hm_rep hasher m' arr' nodes ts' j' \<and> hm_abs m' = hm_abs m \<and>
     hm_capacity m' = max (hm_capacity m) (2 ^ i)"
proof (cases "(2::nat) ^ i \<le> hm_capacity m")
  case True
  then show ?thesis using R by (auto simp: resize_def max_def)
next
  case False
  let ?c = "(2::nat) ^ i"
  have lt: "2 ^ j < ?c" using False R by (simp add: hm_rep_def)
  have "length nodes \<le> 2 ^ j" using R by (simp add: hm_rep_def)
  then have len: "length nodes \<le> ?c" using lt by linarith
  let ?new = "map Some nodes @ drop (length nodes) (replicate (?c * 2) None)"
  have pre: "memcpy (replicate (?c * 2) None) 0 arr 0 (hm_size m) = Some ?new"
    using R len by (simp add: hm_rep_def)
  have d: "drop ?c ?new = map pt (replicate ?c (Lf :: ('k, 'v) elem rt))" using len by (simp add: map_replicate_const)
  have pays: "\<forall>a\<in>set nodes. \<exists>e. pay (hm_heap m) a = Some e \<and> hash_value e = hasher (first e)"
    using hm_node [OF R] by (metis in_set_conv_nth)
  have inj: "inj_on (nkey (hm_heap m)) (set nodes)" using bk_nkey_inj R unfolding hm_rep_def by metis
  obtain h' ts' new' where H: "rehash (hm_heap m) ?new ?c (map Some nodes) = Some (h', new')" "bk_ok hasher h' ?c ts'"
     "all_addrs ts' = set nodes" "length new' = 2 * ?c" "take ?c new' = take ?c ?new" "drop ?c new' = map pt ts'"
     "\<forall>z. pay h' z = pay (hm_heap m) z"
  proof -
    have "distinct nodes" using R by (simp add: hm_rep_def)
    then have "\<exists>h' ts' new'. rehash (hm_heap m) ?new ?c (map Some nodes) = Some (h', new') \<and> bk_ok hasher h' ?c ts' \<and>
      all_addrs ts' = all_addrs (replicate ?c (Lf :: ('k, 'v) elem rt)) \<union> set nodes \<and> length new' = 2 * ?c \<and> take ?c new' = take ?c ?new \<and>
      drop ?c new' = map pt ts' \<and> (\<forall>z. pay h' z = pay (hm_heap m) z)"
      using pays inj len by (intro rehash_ok [OF bk_empty(1) refl _ d]) (simp_all add: bk_empty(2))
    then show ?thesis using that unfolding bk_empty(2) by blast
  qed
  let ?m = "m\<lparr>hm_heap := h', hm_array := Some new', hm_capacity := ?c\<rparr>"
  have "take (length nodes) (take ?c new') = map Some nodes" unfolding H(5) using len by simp
  then have tk: "take (length nodes) new' = map Some nodes" using len by (simp add: min_absorb1)
  have R': "hm_rep hasher ?m new' nodes ts' i" using R H tk len less_imp_le [OF le_less_trans [OF hm_cap16 [OF R] lt]] unfolding hm_rep_def by simp
  have kv_same: "kv h' = kv (hm_heap m)" using H(7) by (auto simp: kv_def fun_eq_iff)
  have F: "hm_array m = Some arr" "take (hm_size m) arr = map Some nodes" using R by (auto simp: hm_rep_def)
  have "resize m ?c = Some ?m" unfolding resize_def F(1) Let_def bind.bind_lunit pre F(2) H(1) using False by simp
  then show ?thesis
    using R' hm_abs_rep [OF R'] hm_abs_rep [OF R] kv_same lt R by (intro exI [of _ ?m] exI [of _ new'] exI [of _ ts'] exI [of _ i]) (simp add: hm_rep_def)
qed

lemma hm_empty_rep:
  assumes "pool_ok pl live" "length arr = 2 * 2 ^ j" "drop (2 ^ j) arr = replicate (2 ^ j) None" "(16::nat) \<le> 2 ^ j"
  shows "hm_rep hasher \<lparr>hm_array = Some arr, hm_heap = h, hm_pool = pl, hm_size = 0, hm_capacity = 2 ^ j\<rparr> arr []
    (replicate (2 ^ j) Lf) j"
  using assms bk_empty(1) [of hasher h "2 ^ j"] by (auto simp: hm_rep_def bk_empty(2))

lemma hm_try_init_ok:
  assumes "hm_ok hasher m"
  shows "\<exists>arr nodes ts j. hm_rep hasher (try_init m) arr nodes ts j \<and> hm_abs (try_init m) = hm_abs m"
proof (cases "hm_array m")
  case None
  obtain live where live: "pool_ok (hm_pool m) live" "hm_capacity m = 0"
    using assms None by (auto simp: hm_ok_def hm_rep_def)
  obtain j where j: "get_pow2_size 16 = 2 ^ j" "(16::nat) \<le> 2 ^ j" using get_pow2_size_ok by blast
  let ?arr = "replicate (2 ^ j * 2) None"
  have e: "try_init m = \<lparr>hm_array = Some ?arr, hm_heap = hm_heap m, hm_pool = hm_pool m, hm_size = 0, hm_capacity = 2 ^ j\<rparr>"
    using None live(2) j by (cases m) (simp add: try_init_def Let_def)
  have R: "hm_rep hasher (try_init m) ?arr [] (replicate (2 ^ j) Lf) j"
    unfolding e by (rule hm_empty_rep [OF live(1)]) (use j in simp_all)
  then show ?thesis using hm_abs_rep [OF R] hm_abs_empty [OF None] by auto
next
  case (Some arr)
  then show ?thesis using assms by (auto simp: hm_ok_def try_init_def)
qed

lemma hm_try_resize_ok:
  assumes "hm_ok hasher m"
  shows "\<exists>m' arr nodes ts j. try_resize m = Some m' \<and> hm_rep hasher m' arr nodes ts j \<and> hm_abs m' = hm_abs m \<and> length nodes < 2 ^ j"
proof -
  obtain arr nodes ts j where R: "hm_rep hasher (try_init m) arr nodes ts j" "hm_abs (try_init m) = hm_abs m"
    using hm_try_init_ok [OF assms] by blast
  let ?t = "((hm_size (try_init m) + 1) * 4 + 2) div 3"
  let ?t' = "if ?t < 16 then 16 else ?t"
  have "hm_size (try_init m) = length nodes" using R(1) by (simp add: hm_rep_def)
  then have sz: "length nodes < ?t'" by auto
  show ?thesis
  proof (cases "hm_capacity (try_init m) < ?t'")
    case False
    then have "try_resize m = Some (try_init m)" by (auto simp: try_resize_def Let_def)
    moreover have "hm_capacity (try_init m) = 2 ^ j" using R(1) by (simp add: hm_rep_def)
    then have "length nodes < 2 ^ j" using sz False by linarith
    ultimately show ?thesis using R by blast
  next
    case True
    obtain i where i: "get_pow2_size ?t' = 2 ^ i" "?t' \<le> 2 ^ i" using get_pow2_size_ok by blast
    obtain m' arr' ts' j' where m': "resize (try_init m) (2 ^ i) = Some m'" "hm_rep hasher m' arr' nodes ts' j'"
       "hm_abs m' = hm_abs (try_init m)" "hm_capacity m' = max (hm_capacity (try_init m)) (2 ^ i)"
      using hm_resize_ok [OF R(1)] by blast
    have "try_resize m = Some m'" unfolding try_resize_def Let_def i(1) m'(1) using True by simp
    moreover have "length nodes < 2 ^ j'" using sz i(2) m'(2,4) by (auto simp: hm_rep_def)
    ultimately show ?thesis using m' R(2) by auto
  qed
qed

section \<open>Insertion\<close>

lemma pay_frame:
  assumes "rep h q t" "rep h' q' t'" "\<And>y. y \<notin> set (addrs t) \<Longrightarrow> y \<notin> N \<Longrightarrow> h' y = h y" "z \<notin> N"
    "\<And>e. (z, e) \<in> set (items t') \<Longrightarrow> (z, e) \<in> set (items t)" "z \<in> set (addrs t) \<Longrightarrow> z \<in> set (addrs t')"
  shows "pay h' z = pay h z"
proof (cases "z \<in> set (addrs t)")
  case True
  then obtain e where e: "(z, e) \<in> set (items t')" "pay h' z = Some e" using pay_tree [OF assms(2)] assms(6) by blast
  then show ?thesis using pay_items [OF assms(1) assms(5)] by simp
next
  case False
  then show ?thesis using assms(3,4) by (simp add: pay_def)
qed

lemma hm_bucket:
  assumes R: "hm_rep hasher m arr nodes ts j" and b: "b < 2 ^ j"
  shows "arr ! (2 ^ j + b) = pt (ts ! b)" "length ts = 2 ^ j"
    "bucket m (2 ^ j + b) = Some \<lparr>ts_heap = hm_heap m, ts_pool = hm_pool m, ts_root = pt (ts ! b)\<rparr>"
    "rd arr (2 ^ j + b) = Some (pt (ts ! b))"
proof -
  have d: "drop (2 ^ j) arr = map pt ts" "length arr = 2 * 2 ^ j" "hm_array m = Some arr" using R by (auto simp: hm_rep_def)
  show l: "length ts = 2 ^ j" using R by (simp add: hm_rep_def bk_ok_def)
  show "arr ! (2 ^ j + b) = pt (ts ! b)" using arg_cong [OF d(1), of "\<lambda>l. l ! b"] b d(2) l by simp
  then show "bucket m (2 ^ j + b) = Some \<lparr>ts_heap = hm_heap m, ts_pool = hm_pool m, ts_root = pt (ts ! b)\<rparr>"
    "rd arr (2 ^ j + b) = Some (pt (ts ! b))"
    using d b by (simp_all add: bucket_def)
qed

lemma hm_tree:
  assumes R: "hm_rep hasher m arr nodes ts j" and b: "b < 2 ^ j"
  shows "\<exists>live. set nodes \<subseteq> live \<and> tm_ok \<lparr>ts_heap = hm_heap m, ts_pool = hm_pool m, ts_root = pt (ts ! b)\<rparr> (ts ! b) live"
    "set (addrs (ts ! b)) \<subseteq> set nodes"
proof -
  have bk: "bk_ok hasher (hm_heap m) (2 ^ j) ts" using R by (simp add: hm_rep_def)
  show sub: "set (addrs (ts ! b)) \<subseteq> set nodes"
    using R b hm_bucket(2) [OF R b] all_addrs_nth [of _ ts] by (auto simp: hm_rep_def)
  show "\<exists>live. set nodes \<subseteq> live \<and> tm_ok \<lparr>ts_heap = hm_heap m, ts_pool = hm_pool m, ts_root = pt (ts ! b)\<rparr> (ts ! b) live"
  proof -
    obtain live where "set nodes \<subseteq> live" "pool_ok (hm_pool m) live" using R by (auto simp: hm_rep_def)
    then show ?thesis using bkD(1) [OF bk b] sub unfolding tm_ok_def bt_ok_def by (intro exI [of _ live]) auto
  qed
qed

text \<open>A key that is missing: the new node becomes the last of the array.\<close>

lemma hm_insert_new:
  assumes R: "hm_rep hasher m arr nodes ts j" and sz: "length nodes < 2 ^ j"
    and k: "k \<notin> fst ` set (hm_abs m)" and b: "b = get_hash (hasher k) (2 ^ j)"
  shows "\<exists>y cr a h pl h' root m1 m2 arr' ts'.
     insert_point (hm_heap m) (pt (ts ! b)) None 0 k = Some (Inr (y, cr)) \<and>
     create (hm_heap m) (hm_pool m) k v = Some (Some a, h, pl) \<and>
     link_node h (Some a) y cr (pt (ts ! b)) = Some (h', root) \<and>
     put_bucket m (2 ^ j + b) \<lparr>ts_heap = h', ts_pool = pl, ts_root = root\<rparr> = Some m1 \<and>
     get_new_link_node m1 (hasher k) (Some a) = Some m2 \<and>
     hm_rep hasher m2 arr' (nodes @ [a]) ts' j \<and> hm_abs m2 = hm_abs m @ [(k, v)] \<and> index_value m2 (Some a) = Some v"
proof -
  let ?t = "ts ! b" and ?s = "\<lparr>ts_heap = hm_heap m, ts_pool = hm_pool m, ts_root = pt (ts ! b)\<rparr>"
  have bl: "b < 2 ^ j" using get_hash_less b by simp
  have bk: "bk_ok hasher (hm_heap m) (2 ^ j) ts" and al: "all_addrs ts = set nodes" and arr: "hm_array m = Some arr" "length arr = 2 * 2 ^ j"
    and sizes: "hm_size m = length nodes" "hm_capacity m = 2 ^ j" "take (length nodes) arr = map Some nodes" "drop (2 ^ j) arr = map pt ts" "distinct nodes"
    using R by (auto simp: hm_rep_def)
  note T = bkD(1) [OF bk bl, unfolded bt_ok_def]
  obtain live where live: "set nodes \<subseteq> live" "tm_ok ?s ?t live" using hm_tree [OF R bl] by blast
  have sub: "set (addrs ?t) \<subseteq> set nodes" by (rule hm_tree(2) [OF R bl])
  have kt: "k \<notin> set (keys ?t)"
  proof
    assume "k \<in> set (keys ?t)"
    then have "item_of ?t k \<noteq> None" unfolding set_keys item_of_def find_None_iff by force
    then show False using hm_lookup_None [OF R, of k] k b by simp
  qed
  obtain y cr a h pl h' t' where F: "insert_point (hm_heap m) (pt ?t) None 0 k = Some (Inr (y, cr))"
     "create (hm_heap m) (hm_pool m) k v = Some (Some a, h, pl)" "link_node h (Some a) y cr (pt ?t) = Some (h', pt t')" "a \<notin> live"
     "tm_ok \<lparr>ts_heap = h', ts_pool = pl, ts_root = pt t'\<rparr> t' (insert a live)"
     "items t' = item_insert (items ?t) a \<lparr>array_index = 0, hash_value = 0, first = k, second = v\<rparr>"
     "\<forall>z. z \<noteq> a \<and> z \<notin> set (addrs ?t) \<longrightarrow> h' z = hm_heap m z"
    using fresh_insert_ok [OF live(2) kt, of v] unfolding tree_state.simps by blast
  have it: "set (items t') = insert (a, \<lparr>array_index = 0, hash_value = 0, first = k, second = v\<rparr>) (set (items ?t))"
    unfolding F(6) by (rule item_insert_set) (use kt in \<open>simp add: set_keys\<close>)
  have an: "a \<notin> set nodes" "a \<notin> set (addrs ?t)" using F(4) live(1) sub by auto
  define e' where "e' = \<lparr>array_index = length nodes, hash_value = hasher k, first = k, second = v\<rparr>"
  have rp: "rep h' None t'" "distinct (addrs t')" using F(5) by (auto simp: tm_ok_def)
  obtain n t2 where n: "h' a = Some n" "payload n = \<lparr>array_index = 0, hash_value = 0, first = k, second = v\<rparr>"
     "rep (h'(a \<mapsto> n\<lparr>payload := e'\<rparr>)) None t2" "pt t2 = pt t'" "addrs t2 = addrs t'" "rbt t2 = rbt t'" "items t2 = set_item a e' (items t')"
    using payload_rep [OF rp, of a] it by blast
  define h2 where "h2 = h'(a \<mapsto> n\<lparr>payload := e'\<rparr>)"
  have it2: "set (items t2) = insert (a, e') (set (items ?t))"
  proof -
    have "fst x \<noteq> a" if "x \<in> set (items ?t)" for x using an(2) that fst_items [of ?t] by force
    then show ?thesis unfolding n(7) set_item_def set_map it by force
  qed
  have ks: "keys t2 = keys t'" unfolding keys_def n(7) set_item_def using rp it an(2) fst_items [of ?t] by (auto simp: e'_def)
  have ad: "set (addrs t2) = insert a (set (addrs ?t))" unfolding fst_items [symmetric] it2 by simp
  have bt: "bt_ok hasher h2 (2 ^ j) b t2"
    using n(3,5,6) F(5) T it2 ks b unfolding bt_ok_def h2_def tm_ok_def by (auto simp: e'_def)
  have fr: "h2 z = hm_heap m z" if "z \<noteq> a" "z \<notin> set (addrs ?t)" for z using F(7) that by (simp add: h2_def)
  have bk2: "bk_ok hasher h2 (2 ^ j) (ts[b := t2])"
    by (rule bk_update [OF bk bl bt, of "{a}"]) (use ad an(1) al fr in auto)
  have al2: "all_addrs (ts[b := t2]) = set (nodes @ [a])"
    unfolding all_addrs_update [OF bk bl] ad al using sub by auto
  have pay2: "pay h2 z = pay (hm_heap m) z" if "z \<noteq> a" for z
    by (rule pay_frame [OF conjunct1 [OF T] n(3) [folded h2_def], of "{a}"]) (use that it2 ad fr in auto)
  have paya: "pay h2 a = Some e'" by (simp add: pay_def h2_def)
  let ?m1 = "m\<lparr>hm_array := Some (arr[2 ^ j + b := pt t']), hm_heap := h', hm_pool := pl\<rparr>"
  let ?arr = "arr[2 ^ j + b := pt t', length nodes := Some a]"
  let ?m2 = "m\<lparr>hm_array := Some ?arr, hm_heap := h2, hm_pool := pl, hm_size := length nodes + 1\<rparr>"
  have s1: "put_bucket m (2 ^ j + b) \<lparr>ts_heap = h', ts_pool = pl, ts_root = pt t'\<rparr> = Some ?m1"
    using arr bl by (simp add: put_bucket_def)
  have s2: "get_new_link_node ?m1 (hasher k) (Some a) = Some ?m2"
    using n(1,2) arr sz sizes(1) by (simp add: get_new_link_node_def h2_def e'_def)
  have R2: "hm_rep hasher ?m2 ?arr (nodes @ [a]) (ts[b := t2]) j"
    unfolding hm_rep_def
  proof (intro conjI allI impI)
    show "take (length (nodes @ [a])) ?arr = map Some (nodes @ [a])"
      using sizes(3) arr(2) sz by (simp add: take_Suc_conv_app_nth take_update_swap list_update_append split: nat.split)
    show "drop (2 ^ j) ?arr = map pt (ts[b := t2])" using sizes(4) n(4) sz by (simp add: drop_update_swap map_update)
    show "\<exists>live. set (nodes @ [a]) \<subseteq> live \<and> pool_ok (hm_pool ?m2) live"
      using F(5) live(1) by (intro exI [of _ "insert a live"]) (auto simp: tm_ok_def)
    fix i assume i: "i < length (nodes @ [a])"
    show "\<exists>e. pay (hm_heap ?m2) ((nodes @ [a]) ! i) = Some e \<and> array_index e = i"
    proof (cases "i < length nodes")
      case True
      then have "nodes ! i \<noteq> a" using an(1) nth_mem by blast
      then show ?thesis using pay2 hm_node [OF R True] True by (simp add: nth_append) metis
    next
      case False
      then show ?thesis using i paya by (simp add: nth_append e'_def less_Suc_eq)
    qed
  qed (use bk2 al2 an(1) arr sz sizes(2,5) hm_cap16 [OF R] in auto)
  have "kv h2 z = kv (hm_heap m) z" if "z \<in> set nodes" for z using pay2 that an(1) by (metis kv_def)
  then have "hm_abs ?m2 = hm_abs m @ [(k, v)]"
    using hm_abs_rep [OF R2] hm_abs_rep [OF R] paya by (simp add: kv_def e'_def)
  moreover have "index_value ?m2 (Some a) = Some v" by (simp add: index_value_def h2_def e'_def)
  ultimately show ?thesis using F(1-3) s1 s2 R2 by blast
qed

section \<open>Assignment and removal\<close>

text \<open>Writing the payload of a node, with its key and hash value kept.\<close>

lemma bk_set_payload:
  assumes bk: "bk_ok hasher h cap ts" and a: "a \<in> all_addrs ts" "h a = Some n"
    and e': "first e' = first (payload n)" "hash_value e' = hash_value (payload n)"
  shows "\<exists>ts'. bk_ok hasher (h(a \<mapsto> n\<lparr>payload := e'\<rparr>)) cap ts' \<and> map pt ts' = map pt ts \<and> all_addrs ts' = all_addrs ts"
proof -
  let ?h = "h(a \<mapsto> n\<lparr>payload := e'\<rparr>)"
  define b where "b = get_hash (hash_value (payload n)) cap"
  have b: "b < cap" and it: "(a, payload n) \<in> set (items (ts ! b))" using bk_payload [OF bk a(1)] a(2) by (auto simp: b_def)
  note T = bkD(1) [OF bk b, unfolded bt_ok_def]
  have ad: "a \<in> set (addrs (ts ! b))" using it fst_items by force
  obtain t' where t': "rep ?h None t'" "pt t' = pt (ts ! b)" "addrs t' = addrs (ts ! b)" "rbt t' = rbt (ts ! b)"
     "items t' = set_item a e' (items (ts ! b))"
    using payload_rep [of h "ts ! b" a "payload n" e'] T it a(2) by auto
  have same: "first (snd x) = first (payload n) \<and> hash_value (snd x) = hash_value (payload n)" if "x \<in> set (items (ts ! b))" "fst x = a" for x
    using that items_in_heap [OF conjunct1 [OF T], of "fst x" "snd x"] a(2) by auto
  have ks: "keys t' = keys (ts ! b)" unfolding keys_def t'(5) set_item_def using same e' by auto
  have "hash_value (snd x) = hasher (first (snd x)) \<and> get_hash (hash_value (snd x)) cap = b" if "x \<in> set (items t')" for x
    using that T e' it unfolding t'(5) set_item_def by (auto split: if_splits)
  then have bt: "bt_ok hasher ?h cap b t'" using t'(1) T unfolding bt_ok_def t'(3,4) ks by blast
  have "bk_ok hasher ?h cap (ts[b := t'])" by (rule bk_update [OF bk b bt, of "{}"]) (use t'(3) ad in auto)
  moreover have "all_addrs (ts[b := t']) = all_addrs ts"
    unfolding all_addrs_update [OF bk b] t'(3) using b bkD(2) [OF bk b] all_addrs_nth [of _ ts] by auto
  moreover have "map pt (ts[b := t']) = map pt ts" unfolding map_update t'(2) by (rule list_update_same_conv [THEN iffD2]) (use b bkD(2) [OF bk b] in auto)
  ultimately show ?thesis by blast
qed

lemma bk_remove:
  assumes bk: "bk_ok hasher h cap ts" and a: "pay h a = Some e" "a \<in> all_addrs ts"
    and pool: "pool_ok pl live" "all_addrs ts \<subseteq> live" and b: "b = get_hash (hash_value e) cap"
  shows "\<exists>s t'. remove_node \<lparr>ts_heap = h, ts_pool = pl, ts_root = pt (ts ! b)\<rparr> (Some a) = Some s \<and> ts_root s = pt t' \<and>
     bk_ok hasher (ts_heap s) cap (ts[b := t']) \<and> all_addrs (ts[b := t']) = all_addrs ts - {a} \<and>
     pool_ok (ts_pool s) (live - {a}) \<and> (\<forall>z. z \<noteq> a \<longrightarrow> pay (ts_heap s) z = pay h z)"
proof -
  have bl: "b < cap" and it: "(a, e) \<in> set (items (ts ! b))" using bk_payload [OF bk a(2)] a(1) b by (auto simp: pay_def)
  note T = bkD(1) [OF bk bl, unfolded bt_ok_def]
  have sub: "set (addrs (ts ! b)) \<subseteq> all_addrs ts" using bl bkD(2) [OF bk bl] by (auto simp: all_addrs_nth)
  have tm: "tm_ok \<lparr>ts_heap = h, ts_pool = pl, ts_root = pt (ts ! b)\<rparr> (ts ! b) live"
    using T pool sub unfolding tm_ok_def by auto
  obtain s t' where s: "remove_node \<lparr>ts_heap = h, ts_pool = pl, ts_root = pt (ts ! b)\<rparr> (Some a) = Some s" "tm_ok s t' (live - {a})"
     "items t' = filter (\<lambda>n. fst n \<noteq> a) (items (ts ! b))" "\<forall>z. z \<notin> set (addrs (ts ! b)) \<longrightarrow> ts_heap s z = h z"
    using remove_node_ok [OF tm it] by auto
  have ad: "set (addrs t') = set (addrs (ts ! b)) - {a}" unfolding fst_items [symmetric] s(3) by auto
  have rt: "rep (ts_heap s) None t'" using s(2) by (simp add: tm_ok_def)
  have bt: "bt_ok hasher (ts_heap s) cap b t'" using s(2,3) T unfolding bt_ok_def tm_ok_def by auto
  have "bk_ok hasher (ts_heap s) cap (ts[b := t'])" by (rule bk_update [OF bk bl bt, of "{}"]) (use ad s(4) in auto)
  moreover have "all_addrs (ts[b := t']) = all_addrs ts - {a}"
  proof -
    have "a \<in> set (addrs (ts ! b))" using it fst_items by force
    then show ?thesis unfolding all_addrs_update [OF bk bl] ad using sub by auto
  qed
  moreover have "pay (ts_heap s) z = pay h z" if "z \<noteq> a" for z
    by (rule pay_frame [OF conjunct1 [OF T] rt, of "{}"]) (use s(3,4) ad that in auto)
  ultimately show ?thesis using s(1,2) by (auto simp: tm_ok_def)
qed

definition swap_remove :: "nat \<Rightarrow> 'a list \<Rightarrow> 'a list" where
  "swap_remove i xs = butlast (xs[i := last xs])"

lemma swap_remove_nodes:
  assumes "i < length xs" "distinct xs"
  shows "set (swap_remove i xs) = set xs - {xs ! i}" "distinct (swap_remove i xs)" "length (swap_remove i xs) = length xs - 1"
    "\<And>k. k < length xs - 1 \<Longrightarrow> swap_remove i xs ! k = (if k = i then last xs else xs ! k)"
proof -
  show n: "swap_remove i xs ! k = (if k = i then last xs else xs ! k)" if "k < length xs - 1" for k
    using that assms(1) by (simp add: swap_remove_def nth_butlast)
  show l: "length (swap_remove i xs) = length xs - 1" by (simp add: swap_remove_def)
  obtain ys z where xs: "xs = ys @ [z]" using assms(1) by (cases xs rule: rev_cases) auto
  show "set (swap_remove i xs) = set xs - {xs ! i}"
    using assms unfolding xs swap_remove_def
    by (cases "i < length ys") (auto simp: list_update_append butlast_append nth_append set_update_distinct less_Suc_eq)
  show "distinct (swap_remove i xs)"
    using assms unfolding xs swap_remove_def
    by (cases "i < length ys") (auto simp: list_update_append butlast_append distinct_list_update less_Suc_eq)
qed

lemma hm_remove_at:
  assumes R: "hm_rep hasher m arr nodes ts j" and i: "i < length nodes"
    and e: "pay (hm_heap m) (nodes ! i) = Some e" and b: "b = get_hash (hash_value e) (2 ^ j)"
  shows "\<exists>s m1 m2 arr' ts'. remove_node \<lparr>ts_heap = hm_heap m, ts_pool = hm_pool m, ts_root = pt (ts ! b)\<rparr> (Some (nodes ! i)) = Some s \<and>
     put_bucket m (2 ^ j + b) s = Some m1 \<and> delete_link_node m1 i = Some m2 \<and>
     hm_rep hasher m2 arr' (swap_remove i nodes) ts' j \<and> hm_abs m2 = swap_remove i (hm_abs m)"
proof -
  let ?a = "nodes ! i" and ?n = "length nodes - 1"
  have bl: "b < 2 ^ j" using get_hash_less b by simp
  have bk: "bk_ok hasher (hm_heap m) (2 ^ j) ts" and al: "all_addrs ts = set nodes" and arr: "hm_array m = Some arr" "length arr = 2 * 2 ^ j"
    and sizes: "hm_size m = length nodes" "hm_capacity m = 2 ^ j" "take (length nodes) arr = map Some nodes" "drop (2 ^ j) arr = map pt ts" "distinct nodes"
      "length nodes \<le> 2 ^ j"
    using R by (auto simp: hm_rep_def)
  obtain live where live: "set nodes \<subseteq> live" "pool_ok (hm_pool m) live" using R by (auto simp: hm_rep_def)
  obtain s t' where s: "remove_node \<lparr>ts_heap = hm_heap m, ts_pool = hm_pool m, ts_root = pt (ts ! b)\<rparr> (Some ?a) = Some s" "ts_root s = pt t'"
     "bk_ok hasher (ts_heap s) (2 ^ j) (ts[b := t'])" "all_addrs (ts[b := t']) = set nodes - {?a}"
     "pool_ok (ts_pool s) (live - {?a})" "\<forall>z. z \<noteq> ?a \<longrightarrow> pay (ts_heap s) z = pay (hm_heap m) z"
    using bk_remove [OF bk e _ live(2) _ b] al live(1) i by auto
  let ?arr1 = "arr[2 ^ j + b := pt t']"
  let ?m1 = "m\<lparr>hm_array := Some ?arr1, hm_heap := ts_heap s, hm_pool := ts_pool s\<rparr>"
  have s1: "put_bucket m (2 ^ j + b) s = Some ?m1" using arr bl s(2) by (simp add: put_bucket_def)
  note sr = swap_remove_nodes [OF i sizes(5)]
  have d1: "drop (2 ^ j) ?arr1 = map pt (ts[b := t'])" using sizes(4) by (simp add: drop_update_swap map_update)
  have cell: "arr ! k = Some (nodes ! k)" if "k < length nodes" for k
    using arg_cong [OF sizes(3), of "\<lambda>l. l ! k"] that by simp
  have abs: "hm_abs m2 = swap_remove i (hm_abs m)"
    if "hm_rep hasher m2 arr2 (swap_remove i nodes) ts2 j" "\<And>z. z \<in> set nodes \<Longrightarrow> z \<noteq> ?a \<Longrightarrow> kv (hm_heap m2) z = kv (hm_heap m) z" for m2 arr2 ts2
  proof -
    have "hm_abs m2 = map (kv (hm_heap m)) (swap_remove i nodes)"
      unfolding hm_abs_rep [OF that(1)] using that(2) sr(1) by simp
    also have "\<dots> = swap_remove i (hm_abs m)"
      unfolding hm_abs_rep [OF R] swap_remove_def using i by (simp add: map_butlast map_update last_map) (metis last_map length_0_conv not_less0)
    finally show ?thesis .
  qed
  show ?thesis
  proof (cases "i = ?n")
    case True
    let ?m2 = "?m1\<lparr>hm_size := ?n\<rparr>"
    have s2: "delete_link_node ?m1 i = Some ?m2" using True sizes(1) by (simp add: delete_link_node_def)
    have nd: "swap_remove i nodes = butlast nodes" using True i by (simp add: swap_remove_def butlast_list_update)
    have R2: "hm_rep hasher ?m2 ?arr1 (swap_remove i nodes) (ts[b := t']) j"
      unfolding hm_rep_def
    proof (intro conjI allI impI)
      show "take (length (swap_remove i nodes)) ?arr1 = map Some (swap_remove i nodes)"
        using sizes(3,6) butlast_take [of "length nodes" arr] arr(2) i unfolding nd by (simp add: map_butlast)
      show "\<exists>live. set (swap_remove i nodes) \<subseteq> live \<and> pool_ok (hm_pool ?m2) live"
        using s(5) live(1) sr(1) by (intro exI [of _ "live - {?a}"]) auto
      fix k assume "k < length (swap_remove i nodes)"
      then have k: "k < ?n" "k < length nodes" using sr(3) by simp_all
      then have "nodes ! k \<noteq> ?a" using True i sizes(5) nth_eq_iff_index_eq by fastforce
      then show "\<exists>e. pay (hm_heap ?m2) (swap_remove i nodes ! k) = Some e \<and> array_index e = k"
        using hm_node [OF R k(2)] k True s(6) sr(4) [OF k(1)] by auto
    qed (use s(3,4) sr sizes arr d1 hm_cap16 [OF R] in auto)
    have "kv (hm_heap ?m2) z = kv (hm_heap m) z" if "z \<noteq> ?a" for z using s(6) that by (simp add: kv_def)
    then show ?thesis using s(1) s1 s2 R2 abs [OF R2] by blast
  next
    case False
    let ?l = "nodes ! ?n"
    have il: "i < ?n" using False i by simp
    have la: "last nodes = ?l" using i last_conv_nth [of nodes] by force
    have ne: "?l \<noteq> ?a" using il i sizes(5) by (simp add: nth_eq_iff_index_eq)
    obtain el where el: "pay (hm_heap m) ?l = Some el" using hm_node [OF R, of ?n] i by (metis diff_less less_one not_less_zero less_nat_zero_code gr_zeroI)
    then have "pay (ts_heap s) ?l = Some el" using s(6) ne by simp
    then obtain n where n: "ts_heap s ?l = Some n" "payload n = el" by (auto simp: pay_def)
    let ?e' = "el\<lparr>array_index := i\<rparr>"
    let ?h2 = "(ts_heap s)(?l \<mapsto> n\<lparr>payload := ?e'\<rparr>)"
    have "?l \<in> all_addrs (ts[b := t'])" using s(4) ne i by simp
    then obtain ts2 where ts2: "bk_ok hasher ?h2 (2 ^ j) ts2" "map pt ts2 = map pt (ts[b := t'])" "all_addrs ts2 = set nodes - {?a}"
      using bk_set_payload [OF s(3) _ n(1), of ?e'] n(2) s(4) by auto
    let ?arr2 = "?arr1[i := Some ?l]"
    let ?m2 = "?m1\<lparr>hm_array := Some ?arr2, hm_heap := ?h2, hm_size := ?n\<rparr>"
    have rdl: "rd ?arr1 ?n = Some (Some ?l)" using cell [of ?n] sizes(6) arr(2) i by simp
    have s2: "delete_link_node ?m1 i = Some ?m2"
      using False sizes(1,6) rdl n arr(2) i by (simp add: delete_link_node_def)
    have pay2: "pay ?h2 z = (if z = ?l then Some ?e' else pay (hm_heap m) z)" if "z \<noteq> ?a" for z
      using s(6) that by (auto simp: pay_def)
    have R2: "hm_rep hasher ?m2 ?arr2 (swap_remove i nodes) ts2 j"
      unfolding hm_rep_def
    proof (intro conjI allI impI)
      show "take (length (swap_remove i nodes)) ?arr2 = map Some (swap_remove i nodes)"
      proof (rule nth_equalityI)
        fix k assume "k < length (take (length (swap_remove i nodes)) ?arr2)"
        then have k: "k < ?n" using sr(3) by simp
        then show "take (length (swap_remove i nodes)) ?arr2 ! k = map Some (swap_remove i nodes) ! k"
          using sr(3,4) la cell [of k] sizes(6) arr(2) by (auto simp: nth_list_update)
      qed (use sr(3) sizes(6) arr(2) in simp)
      show "drop (2 ^ j) ?arr2 = map pt ts2" using d1 ts2(2) il sizes(6) by simp
      show "\<exists>live. set (swap_remove i nodes) \<subseteq> live \<and> pool_ok (hm_pool ?m2) live"
        using s(5) live(1) sr(1) by (intro exI [of _ "live - {?a}"]) auto
      fix k assume "k < length (swap_remove i nodes)"
      then have k: "k < ?n" using sr(3) by simp
      show "\<exists>e. pay (hm_heap ?m2) (swap_remove i nodes ! k) = Some e \<and> array_index e = k"
      proof (cases "k = i")
        case True
        then show ?thesis using pay2 [OF ne] sr(4) [OF k] la by simp
      next
        case ki: False
        have "nodes ! k \<noteq> ?a" "nodes ! k \<noteq> ?l" using ki k i sizes(5) by (auto simp: nth_eq_iff_index_eq)
        moreover have "k < length nodes" using k by simp
        ultimately show ?thesis using hm_node [OF R, of k] ki pay2 sr(4) [OF k] by auto
      qed
    qed (use ts2 sr sizes arr hm_cap16 [OF R] in auto)
    have "kv ?h2 z = kv (hm_heap m) z" if "z \<noteq> ?a" for z using pay2 [OF that] el by (auto simp: kv_def)
    then have "hm_abs ?m2 = swap_remove i (hm_abs m)" using abs [OF R2] by simp
    then show ?thesis using s(1) s1 s2 R2 by blast
  qed
qed


section \<open>The operations\<close>

lemma hm_present:
  assumes R: "hm_rep hasher m arr nodes ts j" and it: "item_of (ts ! b) k = Some (a, e)" and b: "b = get_hash (hasher k) (2 ^ j)"
  shows "insert_point (hm_heap m) (pt (ts ! b)) None 0 k = Some (Inl (Some a))"
    "search_tree (hm_heap m) (pt (ts ! b)) k = Some (Some a)"
    "put_bucket m (2 ^ j + b) \<lparr>ts_heap = hm_heap m, ts_pool = hm_pool m, ts_root = pt (ts ! b)\<rparr> = Some m"
proof -
  have bl: "b < 2 ^ j" using get_hash_less b by simp
  have T: "rep (hm_heap m) None (ts ! b)" "sorted_wrt (<) (keys (ts ! b))"
    using R bkD(1) [of hasher "hm_heap m" "2 ^ j" ts b] bl by (auto simp: hm_rep_def bt_ok_def)
  have "belongs k []" by (simp add: belongs_def)
  then show "insert_point (hm_heap m) (pt (ts ! b)) None 0 k = Some (Inl (Some a))"
    using insert_point_ok [OF T(1), of "[]" k None 0] T(2) it by simp
  show "search_tree (hm_heap m) (pt (ts ! b)) k = Some (Some a)" using search_tree_ok [OF T] it by simp
  have arr: "hm_array m = Some arr" "length arr = 2 * 2 ^ j" using R by (auto simp: hm_rep_def)
  have "arr[2 ^ j + b := pt (ts ! b)] = arr" using hm_bucket(1) [OF R bl] by (metis list_update_id)
  then show "put_bucket m (2 ^ j + b) \<lparr>ts_heap = hm_heap m, ts_pool = hm_pool m, ts_root = pt (ts ! b)\<rparr> = Some m"
    using arr bl by (cases m) (simp add: put_bucket_def)
qed

lemma hm_item:
  assumes "hm_rep hasher m arr nodes ts j" "k \<in> fst ` set (hm_abs m)"
  shows "\<exists>e. item_of (ts ! get_hash (hasher k) (2 ^ j)) k = Some (nodes ! array_index e, e) \<and> array_index e < length nodes \<and>
     pay (hm_heap m) (nodes ! array_index e) = Some e \<and> first e = k \<and> hash_value e = hasher k \<and>
     hm_abs m ! array_index e = (k, second e)"
proof -
  obtain a e where ae: "item_of (ts ! get_hash (hasher k) (2 ^ j)) k = Some (a, e)"
    using hm_lookup_None [OF assms(1), of k] assms(2) by (cases "item_of (ts ! get_hash (hasher k) (2 ^ j)) k") auto
  then have l: "array_index e < length nodes" "nodes ! array_index e = a" "pay (hm_heap m) a = Some e" "first e = k"
    using hm_lookup [OF assms(1)] by auto
  then show ?thesis using ae hm_node [OF assms(1) l(1)] by auto
qed

text \<open>Assigning the value of a key that is present.\<close>

lemma hm_assign_ok:
  assumes R: "hm_rep hasher m arr nodes ts j" and i: "i < length nodes" and e: "pay (hm_heap m) (nodes ! i) = Some e"
  shows "\<exists>h' ts'. upd (hm_heap m) (Some (nodes ! i)) (\<lambda>n. n\<lparr>payload := (payload n)\<lparr>second := v\<rparr>\<rparr>) = Some h' \<and>
     hm_rep hasher (m\<lparr>hm_heap := h'\<rparr>) arr nodes ts' j \<and> map pt ts' = map pt ts \<and>
     hm_abs (m\<lparr>hm_heap := h'\<rparr>) = (hm_abs m)[i := (first e, v)] \<and>
     index_value (m\<lparr>hm_heap := h'\<rparr>) (Some (nodes ! i)) = Some v"
proof -
  let ?a = "nodes ! i" and ?e = "e\<lparr>second := v\<rparr>"
  obtain n where n: "hm_heap m ?a = Some n" "payload n = e" using e by (auto simp: pay_def)
  let ?h = "(hm_heap m)(?a \<mapsto> n\<lparr>payload := ?e\<rparr>)"
  have bk: "bk_ok hasher (hm_heap m) (2 ^ j) ts" and al: "all_addrs ts = set nodes" and dn: "distinct nodes" using R by (auto simp: hm_rep_def)
  obtain ts' where ts': "bk_ok hasher ?h (2 ^ j) ts'" "map pt ts' = map pt ts" "all_addrs ts' = set nodes"
    using bk_set_payload [OF bk _ n(1), of ?e] n(2) al i by auto
  have py: "pay ?h z = (if z = ?a then Some ?e else pay (hm_heap m) z)" for z by (simp add: pay_def)
  have idx: "\<exists>e. pay ?h (nodes ! k) = Some e \<and> array_index e = k" if "k < length nodes" for k
    using hm_node [OF R that] py [of "nodes ! k"] e by auto
  have R': "hm_rep hasher (m\<lparr>hm_heap := ?h\<rparr>) arr nodes ts' j"
    unfolding hm_rep_def using R ts' idx by (simp add: hm_rep_def)
  have "hm_abs (m\<lparr>hm_heap := ?h\<rparr>) = (hm_abs m)[i := (first e, v)]"
    unfolding hm_abs_rep [OF R] hm_abs_rep [OF R']
  proof (rule nth_equalityI)
    fix k assume "k < length (map (kv (hm_heap (m\<lparr>hm_heap := ?h\<rparr>))) nodes)"
    then have k: "k < length nodes" by simp
    have "nodes ! k = ?a \<longleftrightarrow> k = i" using k i dn by (simp add: nth_eq_iff_index_eq)
    then show "map (kv (hm_heap (m\<lparr>hm_heap := ?h\<rparr>))) nodes ! k = (map (kv (hm_heap m)) nodes)[i := (first e, v)] ! k"
      using k py [of "nodes ! k"] by (auto simp: kv_def nth_list_update)
  qed simp
  then show ?thesis using R' ts'(2) n by (intro exI [of _ ?h] exI [of _ ts']) (simp add: index_value_def)
qed

lemma destroy_all_ok:
  "pool_ok pl live \<Longrightarrow> set nodes \<subseteq> live \<Longrightarrow> distinct nodes \<Longrightarrow>
   \<exists>h' pl'. destroy_all h pl (map Some nodes) = (h', pl') \<and> pool_ok pl' (live - set nodes)"
proof (induction nodes arbitrary: h pl live)
  case (Cons a nodes)
  have "pool_ok (deallocate pl a) (live - {a})" using deallocate_ok Cons.prems by simp
  moreover have "live - {a} - set nodes = live - set (a # nodes)" by auto
  moreover have "set nodes \<subseteq> live - {a}" "distinct nodes" using Cons.prems by auto
  moreover define h1 where "h1 = h(a := None)"
  moreover have "destroy_all h pl (map Some (a # nodes)) = destroy_all h1 (deallocate pl a) (map Some nodes)"
    by (simp add: destroy_def h1_def)
  ultimately show ?case using Cons.IH [of "deallocate pl a" "live - {a}" h1] by metis
qed simp

lemma hm_clear_ok:
  assumes "hm_ok hasher m"
  shows "\<exists>m'. hm_clear m = Some m' \<and> hm_ok hasher m' \<and> hm_abs m' = []"
proof (cases "hm_size m = 0")
  case True
  then have "hm_abs m = []" by (simp add: hm_abs_def iterate_def split: option.split)
  then show ?thesis using True assms by (simp add: hm_clear_def)
next
  case False
  then obtain arr nodes ts j where R: "hm_rep hasher m arr nodes ts j" using assms by (auto simp: hm_ok_def)
  obtain live where live: "set nodes \<subseteq> live" "pool_ok (hm_pool m) live" using R by (auto simp: hm_rep_def)
  have F: "hm_array m = Some arr" "hm_capacity m = 2 ^ j" "length arr = 2 * 2 ^ j" "take (hm_size m) arr = map Some nodes" "distinct nodes"
    using R by (auto simp: hm_rep_def)
  obtain h' pl' where D: "destroy_all (hm_heap m) (hm_pool m) (map Some nodes) = (h', pl')" "pool_ok pl' (live - set nodes)"
    using destroy_all_ok [OF live(2,1) F(5)] by blast
  let ?arr = "take (2 ^ j) arr @ replicate (2 ^ j) None"
  let ?m = "\<lparr>hm_array = Some ?arr, hm_heap = h', hm_pool = pl', hm_size = 0, hm_capacity = 2 ^ j\<rparr>"
  have R': "hm_rep hasher ?m ?arr [] (replicate (2 ^ j) Lf) j" by (rule hm_empty_rep [OF D(2)]) (use F(3) R in \<open>simp_all add: hm_rep_def\<close>)
  have "hm_clear m = Some ?m" unfolding hm_clear_def F(1,2,4) Let_def bind.bind_lunit D(1) using False F(2) by (cases m) simp
  then show ?thesis using R' hm_abs_rep [OF R'] by (auto simp: hm_ok_def)
qed

text \<open>The specification of a key's position and of the operations.\<close>

fun key_index :: "'k \<Rightarrow> ('k \<times> 'v) list \<Rightarrow> nat option" where
  "key_index k [] = None"
| "key_index k (x # xs) = (if fst x = k then Some 0 else map_option Suc (key_index k xs))"

lemma key_index_at: "distinct (map fst xs) \<Longrightarrow> i < length xs \<Longrightarrow> fst (xs ! i) = k \<Longrightarrow> key_index k xs = Some i"
proof (induction xs arbitrary: i)
  case (Cons x xs)
  have "fst x \<noteq> k" if "i = Suc i'" for i'
    using Cons.prems that nth_mem [of i' "map fst xs"] by auto
  then show ?case using Cons by (cases i) auto
qed simp

lemma key_index_None: "k \<notin> fst ` set xs \<Longrightarrow> key_index k xs = None"
  by (induction xs) auto

lemma update_at: "distinct (map fst xs) \<Longrightarrow> i < length xs \<Longrightarrow> fst (xs ! i) = k \<Longrightarrow> AList.update k v xs = xs[i := (k, v)]"
proof (induction xs arbitrary: i)
  case (Cons x xs)
  have "fst x \<noteq> k" if "i = Suc i'" for i'
    using Cons.prems that nth_mem [of i' "map fst xs"] by auto
  then show ?case using Cons by (cases x; cases i) auto
qed simp

lemma update_new: "k \<notin> fst ` set xs \<Longrightarrow> AList.update k v xs = xs @ [(k, v)]"
  by (induction xs) auto

lemma hm_force_ok:
  assumes "hm_ok hasher m"
  shows "\<exists>p m'. force_emplace hasher m k v = Some (p, m') \<and> hm_ok hasher m' \<and> hm_abs m' = AList.update k v (hm_abs m) \<and>
     index_value m' p = Some v"
proof -
  obtain m1 arr nodes ts j where R: "try_resize m = Some m1" "hm_rep hasher m1 arr nodes ts j" "hm_abs m1 = hm_abs m" "length nodes < 2 ^ j"
    using hm_try_resize_ok [OF assms] by blast
  define b where "b = get_hash (hasher k) (2 ^ j)"
  have bl: "b < 2 ^ j" using get_hash_less b_def by simp
  have cap: "hm_capacity m1 = 2 ^ j" "hm_array m1 = Some arr" "length arr = 2 * 2 ^ j" using R(2) by (auto simp: hm_rep_def)
  note [simp] = R(1) cap(1) b_def [symmetric] hm_bucket(3) [OF R(2) bl]
  show ?thesis
  proof (cases "k \<in> fst ` set (hm_abs m1)")
    case False
    obtain y cr a h pl h' root m1' m2 arr' ts' where N: "insert_point (hm_heap m1) (pt (ts ! b)) None 0 k = Some (Inr (y, cr))"
     "create (hm_heap m1) (hm_pool m1) k v = Some (Some a, h, pl)" "link_node h (Some a) y cr (pt (ts ! b)) = Some (h', root)"
     "put_bucket m1 (2 ^ j + b) \<lparr>ts_heap = h', ts_pool = pl, ts_root = root\<rparr> = Some m1'"
     "get_new_link_node m1' (hasher k) (Some a) = Some m2" "hm_rep hasher m2 arr' (nodes @ [a]) ts' j" "hm_abs m2 = hm_abs m1 @ [(k, v)]"
     "index_value m2 (Some a) = Some v"
      using hm_insert_new [OF R(2,4) False b_def, of v] by blast
    have "force_emplace hasher m k v = Some (Some a, m2)"
      using N(1-5) by (simp add: force_emplace_def insert_or_assign_def Let_def)
    then show ?thesis using N(6-8) R(3) update_new [OF False, of v] by (auto simp: hm_ok_def)
  next
    case True
    obtain e where e: "item_of (ts ! b) k = Some (nodes ! array_index e, e)" "array_index e < length nodes"
     "pay (hm_heap m1) (nodes ! array_index e) = Some e" "first e = k" "hm_abs m1 ! array_index e = (k, second e)"
      using hm_item [OF R(2) True] unfolding b_def [symmetric] by blast
    obtain h' ts' where h': "upd (hm_heap m1) (Some (nodes ! array_index e)) (\<lambda>n. n\<lparr>payload := (payload n)\<lparr>second := v\<rparr>\<rparr>) = Some h'"
      "hm_rep hasher (m1\<lparr>hm_heap := h'\<rparr>) arr nodes ts' j" "map pt ts' = map pt ts"
      "hm_abs (m1\<lparr>hm_heap := h'\<rparr>) = (hm_abs m1)[array_index e := (k, v)]"
      "index_value (m1\<lparr>hm_heap := h'\<rparr>) (Some (nodes ! array_index e)) = Some v"
      using hm_assign_ok [OF R(2) e(2,3)] e(4) by blast
    have "arr[2 ^ j + b := pt (ts ! b)] = arr" using hm_bucket(1) [OF R(2) bl] by (metis list_update_id)
    then have "put_bucket m1 (2 ^ j + b) \<lparr>ts_heap = h', ts_pool = hm_pool m1, ts_root = pt (ts ! b)\<rparr> = Some (m1\<lparr>hm_heap := h'\<rparr>)"
      using cap bl by (cases m1) (simp add: put_bucket_def)
    then have "force_emplace hasher m k v = Some (Some (nodes ! array_index e), m1\<lparr>hm_heap := h'\<rparr>)"
      using hm_present(1) [OF R(2) e(1) b_def] h'(1) by (simp add: force_emplace_def insert_or_assign_def Let_def)
    moreover have "AList.update k v (hm_abs m) = (hm_abs m1)[array_index e := (k, v)]"
      unfolding R(3) [symmetric] by (rule update_at [OF hm_abs_distinct [OF R(2)]]) (use e hm_abs_rep [OF R(2)] in auto)
    ultimately show ?thesis using h' by (auto simp: hm_ok_def)
  qed
qed

lemma hm_try_ok:
  assumes "hm_ok hasher m"
  shows "\<exists>p m'. try_emplace hasher m k v = Some (p, k \<notin> fst ` set (hm_abs m), m') \<and> hm_ok hasher m' \<and>
     hm_abs m' = (if k \<in> fst ` set (hm_abs m) then hm_abs m else hm_abs m @ [(k, v)]) \<and>
     index_value m' p = map_of (hm_abs m') k"
proof -
  obtain m1 arr nodes ts j where R: "try_resize m = Some m1" "hm_rep hasher m1 arr nodes ts j" "hm_abs m1 = hm_abs m" "length nodes < 2 ^ j"
    using hm_try_resize_ok [OF assms] by blast
  define b where "b = get_hash (hasher k) (2 ^ j)"
  have bl: "b < 2 ^ j" using get_hash_less b_def by simp
  have cap: "hm_capacity m1 = 2 ^ j" using R(2) by (auto simp: hm_rep_def)
  note [simp] = R(1) cap(1) b_def [symmetric] hm_bucket(3) [OF R(2) bl]
  show ?thesis
  proof (cases "k \<in> fst ` set (hm_abs m1)")
    case False
    obtain y cr a h pl h' root m1' m2 arr' ts' where N: "insert_point (hm_heap m1) (pt (ts ! b)) None 0 k = Some (Inr (y, cr))"
     "create (hm_heap m1) (hm_pool m1) k v = Some (Some a, h, pl)" "link_node h (Some a) y cr (pt (ts ! b)) = Some (h', root)"
     "put_bucket m1 (2 ^ j + b) \<lparr>ts_heap = h', ts_pool = pl, ts_root = root\<rparr> = Some m1'"
     "get_new_link_node m1' (hasher k) (Some a) = Some m2" "hm_rep hasher m2 arr' (nodes @ [a]) ts' j" "hm_abs m2 = hm_abs m1 @ [(k, v)]"
     "index_value m2 (Some a) = Some v"
      using hm_insert_new [OF R(2,4) False b_def, of v] by blast
    have "try_emplace hasher m k v = Some (Some a, True, m2)"
      using N(1-5) by (simp add: try_emplace_def try_insert_def Let_def)
    moreover have "map_of (hm_abs m2) k = Some v" using N(7) False map_of_eq_None_iff [of "hm_abs m1" k] by (simp add: map_add_def)
    ultimately show ?thesis using N(6-8) R(3) False by (auto simp: hm_ok_def)
  next
    case True
    obtain e where e: "item_of (ts ! b) k = Some (nodes ! array_index e, e)" "array_index e < length nodes"
     "pay (hm_heap m1) (nodes ! array_index e) = Some e" "first e = k" "hm_abs m1 ! array_index e = (k, second e)"
      using hm_item [OF R(2) True] unfolding b_def [symmetric] by blast
    have "try_emplace hasher m k v = Some (Some (nodes ! array_index e), False, m1)"
      using hm_present(1,3) [OF R(2) e(1) b_def] by (simp add: try_emplace_def try_insert_def Let_def)
    moreover have "(k, second e) \<in> set (hm_abs m1)" using e(2,5) hm_abs_rep [OF R(2)] by (metis length_map nth_mem)
    then have "map_of (hm_abs m1) k = Some (second e)" using hm_abs_distinct [OF R(2)] by simp
    moreover have "index_value m1 (Some (nodes ! array_index e)) = Some (second e)" using e(3) by (auto simp: index_value_def pay_def)
    ultimately show ?thesis using True R by (auto simp: hm_ok_def)
  qed
qed

lemma hm_find_ok:
  assumes "hm_ok hasher m"
  shows "\<exists>p. hm_find hasher m k = Some p \<and> (p = None \<longleftrightarrow> k \<notin> fst ` set (hm_abs m)) \<and> index_value m p = map_of (hm_abs m) k"
proof (cases "hm_array m")
  case None
  then show ?thesis using hm_abs_empty [OF None] by (simp add: hm_find_def index_value_def fld_def)
next
  case (Some arr)
  then obtain arr nodes ts j where R: "hm_rep hasher m arr nodes ts j" using assms by (auto simp: hm_ok_def)
  define b where "b = get_hash (hasher k) (2 ^ j)"
  have bl: "b < 2 ^ j" using get_hash_less b_def by simp
  have cap: "hm_capacity m = 2 ^ j" "hm_array m = Some arr" using R by (auto simp: hm_rep_def)
  have T: "rep (hm_heap m) None (ts ! b)" "sorted_wrt (<) (keys (ts ! b))"
    using R bkD(1) [of hasher "hm_heap m" "2 ^ j" ts b] bl by (auto simp: hm_rep_def bt_ok_def)
  have f: "hm_find hasher m k = Some (map_option fst (item_of (ts ! b) k))"
    using cap search_tree_ok [OF T] hm_bucket(4) [OF R bl] by (simp add: hm_find_def find_def b_def)
  show ?thesis
  proof (cases "k \<in> fst ` set (hm_abs m)")
    case False
    then show ?thesis using f hm_lookup_None [OF R, of k] by (simp add: b_def index_value_def fld_def map_of_eq_None_iff [THEN iffD2])
  next
    case True
    obtain e where e: "item_of (ts ! b) k = Some (nodes ! array_index e, e)" "array_index e < length nodes"
     "pay (hm_heap m) (nodes ! array_index e) = Some e" "hm_abs m ! array_index e = (k, second e)"
      using hm_item [OF R True] unfolding b_def [symmetric] by blast
    have "(k, second e) \<in> set (hm_abs m)" using e(2,4) hm_abs_rep [OF R] by (metis length_map nth_mem)
    then have "map_of (hm_abs m) k = Some (second e)" using hm_abs_distinct [OF R] by simp
    then show ?thesis using f e(1,3) True by (auto simp: index_value_def pay_def)
  qed
qed

definition spec_remove :: "'k \<Rightarrow> ('k \<times> 'v) list \<Rightarrow> ('k \<times> 'v) list" where
  "spec_remove k xs = (case key_index k xs of None \<Rightarrow> xs | Some i \<Rightarrow> swap_remove i xs)"

lemma hm_remove_ok:
  assumes "hm_ok hasher m"
  shows "\<exists>m'. hm_remove hasher m k = Some m' \<and> hm_ok hasher m' \<and> hm_abs m' = spec_remove k (hm_abs m)"
proof (cases "hm_array m")
  case None
  then show ?thesis using hm_abs_empty [OF None] assms by (simp add: hm_remove_def spec_remove_def)
next
  case (Some arr)
  then obtain arr nodes ts j where R: "hm_rep hasher m arr nodes ts j" using assms by (auto simp: hm_ok_def)
  define b where "b = get_hash (hasher k) (2 ^ j)"
  have bl: "b < 2 ^ j" using get_hash_less b_def by simp
  have cap: "hm_capacity m = 2 ^ j" "hm_array m = Some arr" using R by (auto simp: hm_rep_def)
  have T: "rep (hm_heap m) None (ts ! b)" "sorted_wrt (<) (keys (ts ! b))"
    using R bkD(1) [of hasher "hm_heap m" "2 ^ j" ts b] bl by (auto simp: hm_rep_def bt_ok_def)
  note [simp] = cap b_def [symmetric] hm_bucket(3) [OF R bl]
  show ?thesis
  proof (cases "k \<in> fst ` set (hm_abs m)")
    case False
    have "search_tree (hm_heap m) (pt (ts ! b)) k = Some None"
      using search_tree_ok [OF T, of k] hm_lookup_None [OF R, of k, folded b_def] False by simp
    moreover have "put_bucket m (2 ^ j + b) \<lparr>ts_heap = hm_heap m, ts_pool = hm_pool m, ts_root = pt (ts ! b)\<rparr> = Some m"
    proof -
      have "length arr = 2 * 2 ^ j" using R by (simp add: hm_rep_def)
      moreover have "arr[2 ^ j + b := pt (ts ! b)] = arr" using hm_bucket(1) [OF R bl] by (metis list_update_id)
      ultimately show ?thesis using cap bl by (cases m) (simp add: put_bucket_def)
    qed
    ultimately have "hm_remove hasher m k = Some m" by (simp add: hm_remove_def remove_key_def Let_def)
    then show ?thesis using assms key_index_None [OF False] by (simp add: spec_remove_def)
  next
    case True
    obtain e where e: "item_of (ts ! b) k = Some (nodes ! array_index e, e)" "array_index e < length nodes"
     "pay (hm_heap m) (nodes ! array_index e) = Some e" "hash_value e = hasher k" "hm_abs m ! array_index e = (k, second e)"
      using hm_item [OF R True] unfolding b_def [symmetric] by blast
    obtain s m1 m2 arr' ts' where D: "remove_node \<lparr>ts_heap = hm_heap m, ts_pool = hm_pool m, ts_root = pt (ts ! b)\<rparr> (Some (nodes ! array_index e)) = Some s"
     "put_bucket m (2 ^ j + b) s = Some m1" "delete_link_node m1 (array_index e) = Some m2"
     "hm_rep hasher m2 arr' (swap_remove (array_index e) nodes) ts' j" "hm_abs m2 = swap_remove (array_index e) (hm_abs m)"
      using hm_remove_at [OF R e(2,3) refl] unfolding e(4) b_def [symmetric] by blast
    have "fld (hm_heap m) (Some (nodes ! array_index e)) payload = Some e" using e(3) by (auto simp: pay_def)
    then have "hm_remove hasher m k = Some m2"
      using hm_present(2) [OF R e(1) b_def] D(1-3) by (simp add: hm_remove_def remove_key_def Let_def)
    moreover have "key_index k (hm_abs m) = Some (array_index e)"
      by (rule key_index_at [OF hm_abs_distinct [OF R]]) (use e hm_abs_rep [OF R] in auto)
    ultimately show ?thesis using D(4,5) by (auto simp: spec_remove_def hm_ok_def)
  qed
qed

lemma hm_remove_node_ok:
  assumes "hm_ok hasher m" "hm_find hasher m k = Some p" "p \<noteq> None"
  shows "\<exists>m'. hm_remove_node m p = Some m' \<and> hm_ok hasher m' \<and> hm_abs m' = spec_remove k (hm_abs m)"
proof -
  obtain arr nodes ts j where R: "hm_rep hasher m arr nodes ts j" using assms by (auto simp: hm_ok_def hm_find_def)
  have k: "k \<in> fst ` set (hm_abs m)" using hm_find_ok [OF assms(1), of k] assms(2,3) by auto
  define b where "b = get_hash (hasher k) (2 ^ j)"
  have bl: "b < 2 ^ j" using get_hash_less b_def by simp
  have cap: "hm_capacity m = 2 ^ j" "hm_array m = Some arr" using R by (auto simp: hm_rep_def)
  have T: "rep (hm_heap m) None (ts ! b)" "sorted_wrt (<) (keys (ts ! b))"
    using R bkD(1) [of hasher "hm_heap m" "2 ^ j" ts b] bl by (auto simp: hm_rep_def bt_ok_def)
  obtain e where e: "item_of (ts ! b) k = Some (nodes ! array_index e, e)" "array_index e < length nodes"
     "pay (hm_heap m) (nodes ! array_index e) = Some e" "hash_value e = hasher k" "hm_abs m ! array_index e = (k, second e)"
    using hm_item [OF R k] unfolding b_def [symmetric] by blast
  have p: "p = Some (nodes ! array_index e)"
    using assms(2) cap search_tree_ok [OF T] hm_bucket(4) [OF R bl] e(1) by (simp add: hm_find_def find_def b_def)
  obtain s m1 m2 arr' ts' where D: "remove_node \<lparr>ts_heap = hm_heap m, ts_pool = hm_pool m, ts_root = pt (ts ! b)\<rparr> p = Some s"
     "put_bucket m (2 ^ j + b) s = Some m1" "delete_link_node m1 (array_index e) = Some m2"
     "hm_rep hasher m2 arr' (swap_remove (array_index e) nodes) ts' j" "hm_abs m2 = swap_remove (array_index e) (hm_abs m)"
    using hm_remove_at [OF R e(2,3) refl] unfolding e(4) b_def [symmetric] p by blast
  have "fld (hm_heap m) p payload = Some e" using e(3) p by (auto simp: pay_def)
  then have "hm_remove_node m p = Some m2"
    using cap hm_bucket(3) [OF R bl] D(1-3) e(4) by (simp add: hm_remove_node_def Let_def b_def)
  moreover have "key_index k (hm_abs m) = Some (array_index e)"
    by (rule key_index_at [OF hm_abs_distinct [OF R]]) (use e hm_abs_rep [OF R] in auto)
  ultimately show ?thesis using D(4,5) by (auto simp: spec_remove_def hm_ok_def)
qed

lemma hm_reserve_ok:
  assumes "hm_ok hasher m" "c < 2 ^ 58"
  shows "\<exists>m'. reserve m c = Some m' \<and> hm_ok hasher m' \<and> hm_abs m' = hm_abs m"
proof -
  obtain arr nodes ts j where R: "hm_rep hasher (try_init m) arr nodes ts j" "hm_abs (try_init m) = hm_abs m"
    using hm_try_init_ok [OF assms(1)] by blast
  note h = hint_capacity_fits [OF assms(2)]
  obtain i where i: "hint_capacity c = 2 ^ i" using get_pow2_size_ok unfolding h(1) by blast
  have "reserve m c = resize (try_init m) (2 ^ i)" using h(2) unfolding reserve_def Let_def i by simp
  then show ?thesis using hm_resize_ok [OF R(1), of i] R(2) unfolding hm_ok_def by metis
qed


section \<open>Moving\<close>

lemma move_nodes_ok:
  assumes "\<forall>a\<in>set todo. \<exists>e. pay src a = Some e \<and> hash_value e = hasher (first e)"
    and "bk_ok hasher (hm_heap m) (2 ^ j) ts" "all_addrs ts = set done" "distinct done" "length done + length todo \<le> 2 ^ j" "(16::nat) \<le> 2 ^ j"
    "hm_array m = Some arr" "hm_capacity m = 2 ^ j" "length arr = 2 * 2 ^ j" "take (length done) arr = map Some done"
    "drop (2 ^ j) arr = map pt ts" "\<forall>i<length done. \<exists>e. pay (hm_heap m) (done ! i) = Some e \<and> array_index e = i"
    "pool_ok (hm_pool m) (set done)" "distinct (map fst (map (kv (hm_heap m)) done @ map (kv src) todo))"
    "hm_size m = length done + length todo"
  shows "\<exists>m' arr' nodes' ts'. move_nodes src m (length done) (map Some todo) = Some m' \<and> hm_rep hasher m' arr' nodes' ts' j \<and>
     map (kv (hm_heap m')) nodes' = map (kv (hm_heap m)) done @ map (kv src) todo"
  using assms
proof (induction todo arbitrary: m ts "done" arr)
  case Nil
  then have "hm_rep hasher m arr done ts j" unfolding hm_rep_def by auto
  then show ?case by auto
next
  case (Cons p todo)
  note bk = Cons.prems(2) and al = Cons.prems(3)
  obtain e where e: "pay src p = Some e" "hash_value e = hasher (first e)" using Cons.prems(1) by auto
  obtain a pl where a: "allocate (hm_pool m) = Some (a, pl)" "a \<notin> set done" "pool_ok pl (insert a (set done))"
    using allocate_fresh [OF Cons.prems(13)] by blast
  define e' where "e' = \<lparr>array_index = length done, hash_value = hash_value e, first = first e, second = second e\<rparr>"
  define n where "n = \<lparr>parent = None, left = None, right = None, color = False, payload = e'\<rparr>"
  define h where "h = (hm_heap m)(a \<mapsto> n)"
  define b where "b = get_hash (hash_value e) (2 ^ j)"
  have bl: "b < 2 ^ j" using get_hash_less b_def by simp
  have pyh: "pay h z = (if z = a then Some e' else pay (hm_heap m) z)" for z by (simp add: pay_def h_def n_def)
  have bkh: "bk_ok hasher h (2 ^ j) ts"
    unfolding bk_ok_def
  proof (intro conjI allI impI)
    show "bt_ok hasher h (2 ^ j) c (ts ! c)" if "c < 2 ^ j" for c
    proof (rule bt_cong [OF bkD(1) [OF bk that]])
      fix z assume "z \<in> set (addrs (ts ! c))"
      then have "z \<in> set done" using al that bkD(2) [OF bk that] all_addrs_nth [of z ts] by auto
      then show "h z = hm_heap m z" using a(2) by (auto simp: h_def)
    qed
  qed (use bk in \<open>auto simp: bk_ok_def\<close>)
  have dk: "first e \<notin> (\<lambda>z. fst (kv (hm_heap m) z)) ` set done"
    using Cons.prems(14) e(1) by (auto simp: kv_def)
  have key: "nkey h a \<notin> nkey h ` all_addrs ts"
  proof
    assume "nkey h a \<in> nkey h ` all_addrs ts"
    then obtain z where z: "z \<in> set done" "nkey h z = nkey h a" unfolding al by (metis imageE)
    moreover have "nkey h a = Some (first e)" using pyh [of a] by (simp add: nkey_def e'_def)
    ultimately have z: "z \<in> set done" "nkey h z = Some (first e)" by simp_all
    then have "fst (kv (hm_heap m) z) = first e" using pyh [of z] a(2) by (auto simp: nkey_def kv_def split: if_splits)
    then show False using dk z(1) by force
  qed
  have ha: "h a = Some n" "hash_value (payload n) = hasher (first (payload n))" "b = get_hash (hash_value (payload n)) (2 ^ j)"
    using e(2) by (auto simp: h_def n_def e'_def b_def)
  obtain h2 t2 where W: "weak_insert h (pt (ts ! b)) (Some a) = Some (Some a, h2, pt t2)" "bk_ok hasher h2 (2 ^ j) (ts[b := t2])"
     "all_addrs (ts[b := t2]) = insert a (all_addrs ts)" "\<forall>z. pay h2 z = pay h z"
    using weak_insert_ok [OF bkh _ ha(1,2,3) bl key] a(2) al by auto
  let ?arr1 = "arr[length done := Some a]"
  let ?arr = "?arr1[2 ^ j + b := pt t2]"
  let ?m = "m\<lparr>hm_array := Some ?arr, hm_heap := h2, hm_pool := pl\<rparr>"
  have len: "length done < 2 ^ j" using Cons.prems(5) by simp
  have root: "?arr1 ! (2 ^ j + b) = pt (ts ! b)"
    using arg_cong [OF Cons.prems(11), of "\<lambda>l. l ! b"] Cons.prems(9) bl bkD(2) [OF bk bl] len by (simp add: nth_list_update)
  have cr: "create (hm_heap m) (hm_pool m) (first e) (second e) =
     Some (Some a, (hm_heap m)(a \<mapsto> n\<lparr>payload := \<lparr>array_index = 0, hash_value = 0, first = first e, second = second e\<rparr>\<rparr>), pl)"
    using a(1) by (simp add: create_def n_def)
  have step: "move_nodes src m (length done) (map Some (p # todo)) = move_nodes src ?m (length (done @ [a])) (map Some todo)"
  proof -
    have "fld src (Some p) payload = Some e" using e(1) by (auto simp: pay_def)
    moreover have "(hm_heap m)(a \<mapsto> n\<lparr>payload := e'\<rparr>) = h" by (simp add: h_def n_def)
    ultimately show ?thesis
      using cr Cons.prems(7-9) len bl root W(1) by (simp add: Let_def b_def [symmetric] e'_def)
  qed
  have py2: "pay h2 z = (if z = a then Some e' else pay (hm_heap m) z)" for z using W(4) pyh by simp
  have "map (kv h2) (done @ [a]) = map (kv (hm_heap m)) done @ [kv src p]"
    using py2 a(2) e(1) by (auto simp: kv_def e'_def)
  then have kvs: "map (kv (hm_heap ?m)) (done @ [a]) @ map (kv src) todo = map (kv (hm_heap m)) done @ map (kv src) (p # todo)" by simp
  have "\<exists>m' arr' nodes' ts'. move_nodes src ?m (length (done @ [a])) (map Some todo) = Some m' \<and> hm_rep hasher m' arr' nodes' ts' j \<and>
     map (kv (hm_heap m')) nodes' = map (kv (hm_heap ?m)) (done @ [a]) @ map (kv src) todo"
  proof (rule Cons.IH)
    show "take (length (done @ [a])) ?arr = map Some (done @ [a])"
      using Cons.prems(9,10) len by (simp add: take_Suc_conv_app_nth take_update_swap list_update_append split: nat.split)
    show "drop (2 ^ j) ?arr = map pt (ts[b := t2])" using Cons.prems(11) len by (simp add: drop_update_swap map_update)
    show "\<forall>i<length (done @ [a]). \<exists>e. pay (hm_heap ?m) ((done @ [a]) ! i) = Some e \<and> array_index e = i"
    proof (intro allI impI)
      fix i assume i: "i < length (done @ [a])"
      show "\<exists>e. pay (hm_heap ?m) ((done @ [a]) ! i) = Some e \<and> array_index e = i"
      proof (cases "i < length done")
        case True
        then have "done ! i \<noteq> a" using a(2) nth_mem by blast
        then show ?thesis using True Cons.prems(12) py2 by (simp add: nth_append)
      next
        case False
        then show ?thesis using i py2 by (simp add: nth_append e'_def less_Suc_eq)
      qed
    qed
    show "distinct (map fst (map (kv (hm_heap ?m)) (done @ [a]) @ map (kv src) todo))" unfolding kvs by (rule Cons.prems(14))
  qed (use Cons.prems W a al in auto)
  then show ?case unfolding step kvs .
qed

lemma hm_move_ok:
  assumes "hm_ok hasher m"
  shows "\<exists>m1 m2. hm_move brk m = Some (m1, m2) \<and> hm_ok hasher m1 \<and> hm_ok hasher m2 \<and> hm_abs m1 = hm_abs m \<and> hm_abs m2 = []"
proof (cases "hm_array m")
  case None
  then have "hm_move brk m = Some (hm_new brk, m)" using assms by (auto simp: hm_move_def hm_ok_def hm_rep_def hm_new_def)
  then show ?thesis using assms None pool_new_ok by (auto simp: hm_ok_def hm_new_def hm_abs_def iterate_def)
next
  case (Some arr)
  then obtain nodes ts j where R: "hm_rep hasher m arr nodes ts j" using assms by (auto simp: hm_ok_def hm_rep_def)
  let ?new = "\<lparr>hm_array = Some (replicate (2 ^ j * 2) None), hm_heap = (\<lambda>_. None), hm_pool = pool_new brk, hm_size = length nodes,
    hm_capacity = 2 ^ j\<rparr>"
  have F: "hm_size m = length nodes" "take (length nodes) arr = map Some nodes" "hm_capacity m = 2 ^ j" "length nodes \<le> 2 ^ j" "(16::nat) \<le> 2 ^ j"
    using R by (auto simp: hm_rep_def)
  have pays: "\<forall>a\<in>set nodes. \<exists>e. pay (hm_heap m) a = Some e \<and> hash_value e = hasher (first e)"
    using hm_node [OF R] by (metis in_set_conv_nth)
  have ds: "distinct (map fst (map (kv (hm_heap m)) nodes))" using hm_abs_distinct [OF R] hm_abs_rep [OF R] by simp
  obtain m' arr' nodes' ts' where M: "move_nodes (hm_heap m) ?new (length ([] :: nat list)) (map Some nodes) = Some m'" "hm_rep hasher m' arr' nodes' ts' j"
    "map (kv (hm_heap m')) nodes' = map (kv (hm_heap m)) nodes"
  proof -
    have "\<exists>m' arr' nodes' ts'. move_nodes (hm_heap m) ?new (length ([] :: nat list)) (map Some nodes) = Some m' \<and> hm_rep hasher m' arr' nodes' ts' j \<and>
      map (kv (hm_heap m')) nodes' = map (kv (hm_heap ?new)) [] @ map (kv (hm_heap m)) nodes"
    proof (rule move_nodes_ok [OF pays])
      show "bk_ok hasher (hm_heap ?new) (2 ^ j) (replicate (2 ^ j) Lf)" by (rule bk_empty(1))
    qed (use F ds pool_new_ok in \<open>auto simp: bk_empty(2)\<close>)
    then show ?thesis using that by auto
  qed
  let ?old = "m\<lparr>hm_array := None, hm_heap := destruct_all (hm_heap m) (map Some nodes), hm_size := 0, hm_capacity := 0\<rparr>"
  have "hm_move brk m = Some (m', ?old)" using Some F M(1) by (simp add: hm_move_def)
  moreover have "hm_ok hasher ?old" using R by (auto simp: hm_ok_def hm_rep_def)
  moreover have "hm_abs m' = hm_abs m" using hm_abs_rep [OF R] hm_abs_rep [OF M(2)] M(3) by simp
  ultimately show ?thesis using M(2) by (auto simp: hm_ok_def hm_abs_def iterate_def)
qed


section \<open>Sequences of operations\<close>

datatype ('k, 'v) hm_op =
    TryEmplace 'k 'v | Emplace 'k 'v | ForceEmplace 'k 'v | Find 'k | Remove 'k | RemoveFound 'k | Clear | Reserve nat

text \<open>The answer of an operation: the value behind the returned index and whether it is new.\<close>

datatype 'v hm_out = Done | Index "'v option" | Inserted "'v option" bool

definition hm_step :: "('k::linorder \<Rightarrow> 64 word) \<Rightarrow> ('k, 'v) hash_map \<Rightarrow> ('k, 'v) hm_op \<Rightarrow> ('v hm_out \<times> ('k, 'v) hash_map) option" where
  "hm_step hasher m opn =
     (case opn of
        TryEmplace k v \<Rightarrow> do { (p, new, m) \<leftarrow> try_emplace hasher m k v; Some (Inserted (index_value m p) new, m) }
      | Emplace k v \<Rightarrow> do { (p, m) \<leftarrow> emplace hasher m k v; Some (Index (index_value m p), m) }
      | ForceEmplace k v \<Rightarrow> do { (p, m) \<leftarrow> force_emplace hasher m k v; Some (Index (index_value m p), m) }
      | Find k \<Rightarrow> do { p \<leftarrow> hm_find hasher m k; Some (Index (index_value m p), m) }
      | Remove k \<Rightarrow> do { m \<leftarrow> hm_remove hasher m k; Some (Done, m) }
      | RemoveFound k \<Rightarrow> do {
          p \<leftarrow> hm_find hasher m k;
          if p = None then Some (Done, m) else do { m \<leftarrow> hm_remove_node m p; Some (Done, m) }
        }
      | Clear \<Rightarrow> do { m \<leftarrow> hm_clear m; Some (Done, m) }
      | Reserve c \<Rightarrow> do { m \<leftarrow> reserve m c; Some (Done, m) })"

definition spec_try :: "'k \<Rightarrow> 'v \<Rightarrow> ('k \<times> 'v) list \<Rightarrow> ('k \<times> 'v) list" where
  "spec_try k v xs = (if k \<in> fst ` set xs then xs else xs @ [(k, v)])"

definition hm_spec :: "('k \<times> 'v) list \<Rightarrow> ('k, 'v) hm_op \<Rightarrow> 'v hm_out \<times> ('k \<times> 'v) list" where
  "hm_spec xs opn =
     (case opn of
        TryEmplace k v \<Rightarrow> (Inserted (map_of (spec_try k v xs) k) (k \<notin> fst ` set xs), spec_try k v xs)
      | Emplace k v \<Rightarrow> (Index (map_of (spec_try k v xs) k), spec_try k v xs)
      | ForceEmplace k v \<Rightarrow> (Index (Some v), AList.update k v xs)
      | Find k \<Rightarrow> (Index (map_of xs k), xs)
      | Remove k \<Rightarrow> (Done, spec_remove k xs)
      | RemoveFound k \<Rightarrow> (Done, spec_remove k xs)
      | Clear \<Rightarrow> (Done, [])
      | Reserve c \<Rightarrow> (Done, xs))"

text \<open>A hint that is computed with without wrap-around.\<close>

definition hint_ok :: "('k, 'v) hm_op \<Rightarrow> bool" where
  "hint_ok opn \<longleftrightarrow> (case opn of Reserve c \<Rightarrow> c < 2 ^ 58 | _ \<Rightarrow> True)"

lemma hm_step_ok:
  assumes "hm_ok hasher m" and hint: "hint_ok opn"
  shows "\<exists>r m'. hm_step hasher m opn = Some (r, m') \<and> hm_ok hasher m' \<and> hm_spec (hm_abs m) opn = (r, hm_abs m')"
proof (cases opn)
  case (TryEmplace k v)
  obtain p m' where "try_emplace hasher m k v = Some (p, k \<notin> fst ` set (hm_abs m), m')" "hm_ok hasher m'"
    "hm_abs m' = spec_try k v (hm_abs m)" "index_value m' p = map_of (hm_abs m') k"
    using hm_try_ok [OF assms(1), of k v] unfolding spec_try_def by blast
  then show ?thesis using TryEmplace by (simp add: hm_step_def hm_spec_def)
next
  case (Emplace k v)
  obtain p m' where "try_emplace hasher m k v = Some (p, k \<notin> fst ` set (hm_abs m), m')" "hm_ok hasher m'"
    "hm_abs m' = spec_try k v (hm_abs m)" "index_value m' p = map_of (hm_abs m') k"
    using hm_try_ok [OF assms(1), of k v] unfolding spec_try_def by blast
  then show ?thesis using Emplace by (simp add: hm_step_def hm_spec_def emplace_def)
next
  case (ForceEmplace k v)
  then show ?thesis using hm_force_ok [OF assms(1), of k v] by (auto simp: hm_step_def hm_spec_def)
next
  case (Find k)
  then show ?thesis using hm_find_ok [OF assms(1), of k] assms by (auto simp: hm_step_def hm_spec_def)
next
  case (Remove k)
  then show ?thesis using hm_remove_ok [OF assms(1), of k] by (auto simp: hm_step_def hm_spec_def)
next
  case (RemoveFound k)
  obtain p where p: "hm_find hasher m k = Some p" "p = None \<longleftrightarrow> k \<notin> fst ` set (hm_abs m)" using hm_find_ok [OF assms(1)] by blast
  then show ?thesis using RemoveFound hm_remove_node_ok [OF assms(1) p(1)] key_index_None [of k "hm_abs m"] assms
    by (cases p) (auto simp: hm_step_def hm_spec_def spec_remove_def)
next
  case Clear
  then show ?thesis using hm_clear_ok [OF assms(1)] by (auto simp: hm_step_def hm_spec_def)
next
  case (Reserve c)
  then show ?thesis using hm_reserve_ok [OF assms(1), of c] hint by (auto simp: hm_step_def hm_spec_def hint_ok_def)
qed

interpretation hm: simulation_on "hm_step hasher" hm_spec hm_abs "hm_ok hasher" hint_ok for hasher
  by unfold_locales (rule hm_step_ok)

lemma hm_new_ok: "hm_ok hasher (hm_new brk)" "hm_abs (hm_new brk) = []"
  using pool_new_ok by (auto simp: hm_ok_def hm_new_def hm_abs_def iterate_def)

lemma hm_new_capacity_ok:
  assumes "c < 2 ^ 58"
  shows "\<exists>m. hm_new_capacity brk c = Some m \<and> hm_ok hasher m \<and> hm_abs m = []"
proof -
  let ?c = "if c < 16 then 16 else c"
  have "?c < 2 ^ 58" using assms by simp
  note h = hint_capacity_fits [OF this]
  obtain j where j: "get_pow2_size ((?c * 4 + 2) div 3) = 2 ^ j" "(?c * 4 + 2) div 3 \<le> 2 ^ j" using get_pow2_size_ok by blast
  have "16 \<le> (?c * 4 + 2) div 3" by auto
  then have c16: "(16::nat) \<le> 2 ^ j" using j(2) by (rule le_trans)
  let ?m = "\<lparr>hm_array = Some (replicate (2 ^ j * 2) None), hm_heap = (\<lambda>_. None), hm_pool = pool_new brk, hm_size = 0, hm_capacity = 2 ^ j\<rparr>"
  have "hm_rep hasher ?m (replicate (2 ^ j * 2) None) [] (replicate (2 ^ j) Lf) j"
    by (rule hm_empty_rep [OF pool_new_ok _ _ c16]) simp_all
  then have "hm_ok hasher ?m" unfolding hm_ok_def by blast
  moreover have "hm_new_capacity brk c = Some ?m" using h(2) unfolding hm_new_capacity_def Let_def h(1) j(1) by simp
  moreover have "hm_abs ?m = []" by (simp add: hm_abs_def iterate_def)
  ultimately show ?thesis by blast
qed

text \<open>The capacity never shrinks, and an allocated array stays allocated.\<close>

definition grows :: "('k, 'v) hash_map \<Rightarrow> ('k, 'v) hash_map \<Rightarrow> bool" where
  "grows m m' \<longleftrightarrow> hm_capacity m \<le> hm_capacity m' \<and> (hm_array m \<noteq> None \<longrightarrow> hm_array m' \<noteq> None)"


lemma grows_refl [simp]: "grows m m"
  by (simp add: grows_def)









section \<open>Properties\<close>

text \<open>
  Property C6.
  For every hash function and every sequence of \<^verbatim>\<open>try_emplace\<close>, \<^verbatim>\<open>emplace\<close>, \<^verbatim>\<open>force_emplace\<close>, \<^verbatim>\<open>find\<close>, \<^verbatim>\<open>remove\<close>
  (by key and by index), \<^verbatim>\<open>clear\<close> and \<^verbatim>\<open>reserve\<close> on a new hash map, default-constructed or with a
  capacity hint (hints below \<open>2 ^ 58\<close>), no operation dereferences an invalid pointer or runs forever, every answer is that of
  the association list in iteration order, and the iteration visits exactly that list: a new key is
  appended, an assignment keeps the position, and a removal moves the last pair to the removed position.
\<close>

theorem hash_map_refines_alist:
  fixes ops :: "('k::linorder, 'v) hm_op list"
  assumes "hint \<longrightarrow> c < 2 ^ 58" "list_all hint_ok ops"
  shows "\<exists>m rs m'. (if hint then hm_new_capacity brk c else Some (hm_new brk)) = Some m \<and>
     run (hm_step hasher) m ops = Some (rs, m') \<and> spec_run hm_spec [] ops = (rs, hm_abs m') \<and> iterate m' = map Some (hm_abs m') \<and> distinct (map fst (hm_abs m'))"
proof -
  obtain m :: "('k, 'v) hash_map" where m: "(if hint then hm_new_capacity brk c else Some (hm_new brk)) = Some m" "hm_ok hasher m" "hm_abs m = []"
    using hm_new_ok(1) [of hasher brk] hm_new_ok(2) [of brk] hm_new_capacity_ok [of c brk hasher] assms(1) by (cases hint) auto
  obtain rs m' where r: "run (hm_step hasher) m ops = Some (rs, m')" "hm_ok hasher m'" "spec_run hm_spec [] ops = (rs, hm_abs m')"
    using hm.run_simulates_on [OF m(2) assms(2)] unfolding m(3) by blast
  have "iterate m' = map Some (hm_abs m') \<and> distinct (map fst (hm_abs m'))"
  proof (cases "hm_array m'")
    case None then show ?thesis by (simp add: hm_abs_def iterate_def)
  next
    case (Some arr)
    then obtain arr nodes ts j where R: "hm_rep hasher m' arr nodes ts j" using r(2) by (auto simp: hm_ok_def)
    have "fld (hm_heap m') (Some a) (\<lambda>n. (first (payload n), second (payload n))) = Some (kv (hm_heap m') a)" if "a \<in> set nodes" for a
    proof -
      obtain i where "i < length nodes" "nodes ! i = a" using \<open>a \<in> set nodes\<close> by (metis in_set_conv_nth)
      then show ?thesis using hm_node [OF R, of i] by (auto simp: kv_def pay_def)
    qed
    then have "iterate m' = map Some (map (kv (hm_heap m')) nodes)" using R by (simp add: iterate_def hm_rep_def)
    then show ?thesis using hm_abs_rep [OF R] hm_abs_distinct [OF R] by simp
  qed
  then show ?thesis using r m(1) by blast
qed

theorem hash_map_refines_alist_witness:
  "\<exists>m rs m'. hm_new_capacity 0 20 = Some m \<and>
     run (hm_step (\<lambda>_. 7)) m [TryEmplace (3::nat) ''a'', Reserve 100, TryEmplace 1 ''b'', Remove 3, Find 1] = Some (rs, m') \<and>
     rs = [Inserted (Some ''a'') True, Done, Inserted (Some ''b'') True, Done, Index (Some ''b'')] \<and> iterate m' = [Some (1, ''b'')]"
proof -
  let ?ops = "[TryEmplace (3::nat) ''a'', Reserve 100, TryEmplace 1 ''b'', Remove 3, Find 1]"
  have "list_all hint_ok ?ops" by (simp add: hint_ok_def)
  then obtain m rs m' where r: "hm_new_capacity 0 20 = Some m" "run (hm_step (\<lambda>_. 7)) m ?ops = Some (rs, m')"
    "spec_run hm_spec [] ?ops = (rs, hm_abs m')" "iterate m' = map Some (hm_abs m')"
    using hash_map_refines_alist [of True 20 ?ops 0 "\<lambda>_. 7"] by auto
  have spec: "spec_run hm_spec [] ?ops =
      ([Inserted (Some ''a'') True, Done, Inserted (Some ''b'') True, Done, Index (Some ''b'')], [(1, ''b'')])"
    by (simp add: hm_spec_def spec_try_def spec_remove_def swap_remove_def)
  have rs: "rs = [Inserted (Some ''a'') True, Done, Inserted (Some ''b'') True, Done, Index (Some ''b'')]" "hm_abs m' = [(1, ''b'')]"
    using r(3) unfolding spec by simp_all
  have "iterate m' = [Some (1, ''b'')]" using r(4) rs(2) by simp
  then show ?thesis using r(1,2) rs(1) by blast
qed

text \<open>
  Moving from a map in any reachable state gives a map with the same pairs in the same iteration order, and
  leaves the source empty; both satisfy the invariant again.
\<close>

lemma hash_map_move:
  assumes "run (hm_step hasher) (hm_new brk) ops = Some (rs, m)" "list_all hint_ok ops"
  shows "\<exists>m1 m2. hm_move brk' m = Some (m1, m2) \<and> hm_abs m1 = hm_abs m \<and> hm_abs m2 = [] \<and> hm_ok hasher m1 \<and> hm_ok hasher m2"
proof -
  have "hm_ok hasher m" using hm.run_simulates_on [OF hm_new_ok(1) assms(2), of hasher brk] assms(1) by auto
  then show ?thesis using hm_move_ok by metis
qed



end
