(* ===== verification/Byte_Mem.thy ===== *)
theory Byte_Mem
  imports Prelude
begin

text \<open>
  Byte arrays as C code sees them: reading a block (\<open>block\<close>), overwriting a block (\<open>blit\<close>)
  and the loads and stores of little-endian integers, which is the host order the storage
  engine assumes and the order the runtime's and the graph database's codecs spell out byte by
  byte. The laws are the frame rules of such an array: a block read back is the block written,
  and a write leaves every disjoint block alone.
\<close>

named_theorems blk_simps \<open>reads of blocks after writes of blocks\<close>

section \<open>Blocks\<close>

definition block :: "'a list \<Rightarrow> nat \<Rightarrow> nat \<Rightarrow> 'a list" where
  "block b p n = take n (drop p b)"

definition blit :: "'a list \<Rightarrow> nat \<Rightarrow> 'a list \<Rightarrow> 'a list" where
  "blit b p bs = take p b @ bs @ drop (p + length bs) b"

lemma length_block [simp]: "p + n \<le> length b \<Longrightarrow> length (block b p n) = n"
  by (simp add: block_def)

lemma length_blit [simp]: "p + length bs \<le> length b \<Longrightarrow> length (blit b p bs) = length b"
  by (simp add: blit_def)

lemma nth_block: "i < n \<Longrightarrow> p + n \<le> length b \<Longrightarrow> block b p n ! i = b ! (p + i)"
  by (simp add: block_def)

lemma nth_blit:
  "p + length bs \<le> length b \<Longrightarrow> i < length b \<Longrightarrow>
   blit b p bs ! i = (if p \<le> i \<and> i < p + length bs then bs ! (i - p) else b ! i)"
  by (auto simp: blit_def nth_append min_def)

lemma block_eqI:
  assumes "p + n \<le> length b" "length c = n" "\<And>i. i < n \<Longrightarrow> b ! (p + i) = c ! i"
  shows "block b p n = c"
  using assms by (intro nth_equalityI) (auto simp: nth_block)

lemma block_blit_same [blk_simps]:
  "p + length bs \<le> length b \<Longrightarrow> n = length bs \<Longrightarrow> block (blit b p bs) p n = bs"
  by (intro block_eqI) (auto simp: nth_blit)

lemma block_blit_inside [blk_simps]:
  "p + length bs \<le> length b \<Longrightarrow> p \<le> q \<Longrightarrow> q + n \<le> p + length bs \<Longrightarrow>
   block (blit b p bs) q n = block bs (q - p) n"
  by (intro block_eqI) (auto simp: nth_blit nth_block)

lemma block_blit_disjoint [blk_simps]:
  "p + length bs \<le> length b \<Longrightarrow> q + n \<le> p \<or> p + length bs \<le> q \<Longrightarrow> q + n \<le> length b \<Longrightarrow>
   block (blit b p bs) q n = block b q n"
  by (intro block_eqI) (auto simp: nth_blit nth_block)

lemma block_block:
  "q + m \<le> n \<Longrightarrow> p + n \<le> length b \<Longrightarrow> block (block b p n) q m = block b (p + q) m"
  by (intro nth_equalityI) (auto simp: nth_block add.assoc)

lemma block_append_left: "p + n \<le> length xs \<Longrightarrow> block (xs @ ys) p n = block xs p n"
  by (simp add: block_def)

lemma block_append_right: "length xs \<le> p \<Longrightarrow> block (xs @ ys) p n = block ys (p - length xs) n"
  by (simp add: block_def)

lemma block_full: "block b 0 (length b) = b"
  by (simp add: block_def)

lemma block_0 [simp]: "block b p 0 = []"
  by (simp add: block_def)

lemma memcpy_blit:
  "memcpy dst i src j n =
     (if i + n \<le> length dst \<and> j + n \<le> length src then Some (blit dst i (block src j n)) else None)"
  by (auto simp: memcpy_def blit_def block_def)

declare memcpy_in [simp del]

lemma memcpy_all:
  "i + length src \<le> length dst \<Longrightarrow> memcpy dst i src 0 (length src) = Some (blit dst i src)"
  by (simp add: memcpy_blit block_def)

lemma wr_blit: "i < length b \<Longrightarrow> wr b i v = Some (blit b i [v])"
  by (simp add: blit_def upd_conv_take_nth_drop)

lemma blit_blit_adjacent:
  "p + length xs + length ys \<le> length b \<Longrightarrow>
   blit (blit b p xs) (p + length xs) ys = blit b p (xs @ ys)"
  by (intro nth_equalityI) (auto simp: nth_blit nth_append)

lemma blit_block [simp]: "p + n \<le> length b \<Longrightarrow> blit b p (block b p n) = b"
  by (intro nth_equalityI) (auto simp: nth_blit nth_block)

lemma blit_Cons:
  assumes "p + length (x # xs) \<le> length b"
  shows "blit b p (x # xs) = blit (b[p := x]) (p + 1) xs"
proof -
  have "blit b p [x] = b[p := x]" using assms by (simp add: blit_def upd_conv_take_nth_drop)
  then show ?thesis using blit_blit_adjacent [of p "[x]" xs b] assms by simp
qed

lemma blit_Nil [simp]: "blit b p [] = b"
  by (simp add: blit_def)

section \<open>Little-endian integers\<close>

fun enc_le :: "nat \<Rightarrow> nat \<Rightarrow> bytes" where
  "enc_le 0 v = []"
| "enc_le (Suc n) v = of_nat v # enc_le n (v div 256)"

lemma enc_le_numeral: "enc_le (numeral k) v = of_nat v # enc_le (pred_numeral k) (v div 256)"
  by (simp only: numeral_eq_Suc [of k] enc_le.simps)

fun dec_le :: "bytes \<Rightarrow> nat" where
  "dec_le [] = 0"
| "dec_le (b # bs) = unat b + 256 * dec_le bs"

lemma length_enc_le [simp]: "length (enc_le n v) = n"
  by (induction n v rule: enc_le.induct) auto

lemma dec_le_less: "dec_le bs < 256 ^ length bs"
proof (induction bs)
  case (Cons b bs)
  have "unat b < 256" using unsigned_less [of b] by simp
  moreover have "dec_le bs + 1 \<le> 256 ^ length bs" using Cons by simp
  then have "256 * dec_le bs + 256 \<le> 256 * 256 ^ length bs" by linarith
  ultimately show ?case by simp
qed simp

lemma dec_enc_le: "dec_le (enc_le n v) = v mod 256 ^ n"
proof (induction n v rule: enc_le.induct)
  case (2 n v)
  have "unat (of_nat v :: byte) = v mod 256" by (simp add: unat_of_nat)
  then show ?case using 2 mod_mult2_eq [of v 256 "256 ^ n"] by simp
qed simp

lemma enc_dec_le: "enc_le (length bs) (dec_le bs) = bs"
proof (induction bs)
  case (Cons b bs)
  have lt: "unat b < 256" using unsigned_less [of b] by simp
  then have "(unat b + 256 * dec_le bs) div 256 = dec_le bs" by simp
  moreover have "of_nat (unat b + 256 * dec_le bs) = b"
  proof -
    have "unat (of_nat (256 * dec_le bs) :: byte) = 0" unfolding unat_of_nat by simp
    then have "(of_nat (256 * dec_le bs) :: byte) = 0" by (simp only: unat_eq_0)
    then show ?thesis by simp
  qed
  ultimately show ?case using Cons by simp
qed simp

lemma enc_le_add: "enc_le (m + n) v = enc_le m v @ enc_le n (v div 256 ^ m)"
  by (induction m v rule: enc_le.induct) (simp_all add: div_mult2_eq)

lemma enc_le_mod: "enc_le n (v mod 256 ^ n) = enc_le n v"
  using enc_dec_le [of "enc_le n v"] by (simp add: dec_enc_le)

text \<open>Loads and stores of an \<open>n\<close>-byte integer at offset \<open>p\<close>.\<close>

definition ld :: "bytes \<Rightarrow> nat \<Rightarrow> nat \<Rightarrow> nat option" where
  "ld b p n = (if p + n \<le> length b then Some (dec_le (block b p n)) else None)"

definition st :: "bytes \<Rightarrow> nat \<Rightarrow> nat \<Rightarrow> nat \<Rightarrow> bytes option" where
  "st b p n v = (if p + n \<le> length b then Some (blit b p (enc_le n v)) else None)"

lemma ld_in [simp]: "p + n \<le> length b \<Longrightarrow> ld b p n = Some (dec_le (block b p n))"
  by (simp add: ld_def)

lemma st_in [simp]: "p + n \<le> length b \<Longrightarrow> st b p n v = Some (blit b p (enc_le n v))"
  by (simp add: st_def)

lemma ld_st:
  "p + n \<le> length b \<Longrightarrow> ld (blit b p (enc_le n v)) p n = Some (v mod 256 ^ n)"
  by (simp add: blk_simps dec_enc_le)

end
