(* ===== verification/Le_Bytes.thy ===== *)
theory Le_Bytes
  imports Byte_Mem
begin

text \<open>
  The two families of little-endian helpers: \<^verbatim>\<open>src/runtime/common/le_bytes.h\<close> (the runtime's
  binary blobs) and \<^verbatim>\<open>src/graph_db/binary_le.h\<close> (the graph database's record codecs). Both write
  an integer byte by byte and read it back by shifting and or-ing. A pointer into a buffer is the
  buffer with an offset; \<open>None\<close> is an access outside it.

  The contract of such a pair is the locale \<open>fixed_codec\<close>: a put of the value's fixed-width
  encoding and a get that decodes it. Its lemmas (round trip, frame, exact width) are proved
  once and every pair of both headers is an instance.
\<close>

unbundle bit_operations_syntax

section \<open>The codec contract\<close>

locale fixed_codec =
  fixes enc :: "'v \<Rightarrow> bytes"
    and dec :: "bytes \<Rightarrow> 'v"
    and width :: nat
    and put :: "bytes \<Rightarrow> nat \<Rightarrow> 'v \<Rightarrow> bytes option"
    and get :: "bytes \<Rightarrow> nat \<Rightarrow> 'v option"
  assumes length_enc: "length (enc v) = width"
    and dec_enc: "dec (enc v) = v"
    and enc_dec: "length bs = width \<Longrightarrow> enc (dec bs) = bs"
    and put_eq: "put b p v = (if p + width \<le> length b then Some (blit b p (enc v)) else None)"
    and get_eq: "get b p = (if p + width \<le> length b then Some (dec (block b p width)) else None)"
begin

lemma get_after_put: "put b p v = Some b' \<Longrightarrow> get b' p = Some v"
  by (auto simp: put_eq get_eq length_enc dec_enc blk_simps split: if_splits)

lemma get_after_put_elsewhere:
  "put b p v = Some b' \<Longrightarrow> q + width \<le> p \<or> p + width \<le> q \<Longrightarrow> get b' q = get b q"
  by (auto simp: put_eq get_eq length_enc blk_simps split: if_splits)

lemma put_block_elsewhere:
  "put b p v = Some b' \<Longrightarrow> q + n \<le> p \<or> p + width \<le> q \<Longrightarrow> q + n \<le> length b \<Longrightarrow>
   block b' q n = block b q n"
  by (auto simp: put_eq length_enc blk_simps split: if_splits)

lemma put_defined: "(put b p v \<noteq> None) = (p + width \<le> length b)"
  by (simp add: put_eq)

lemma put_length: "put b p v = Some b' \<Longrightarrow> length b' = length b"
  by (auto simp: put_eq length_enc split: if_splits)

text \<open>Writing back what was read changes nothing.\<close>

lemma put_get: "get b p = Some v \<Longrightarrow> put b p v = Some b"
  by (auto simp: put_eq get_eq enc_dec split: if_splits)

end

section \<open>Bytes of a word\<close>

abbreviation byte0 :: "'a::len word \<Rightarrow> byte" where
  "byte0 w \<equiv> ucast (w AND 0xFF)"

lemma byte0_drop_bit:
  fixes w :: "'a::len word"
  assumes "8 \<le> LENGTH('a)"
  shows "byte0 (drop_bit n w) = of_nat (unat w div 2 ^ n)"
proof -
  have "byte0 (drop_bit n w) = ucast (drop_bit n w)"
  proof (rule bit_word_eqI)
    fix i assume "i < LENGTH(8)"
    then have "i < 8" by simp
    then have m: "bit (0xFF :: 'a word) i \<longleftrightarrow> i < LENGTH('a)"
      using bit_mask_iff [where ?'a = "'a word" and m = 8 and n = i] assms by (simp add: mask_eq_exp_minus_1)
    show "bit (byte0 (drop_bit n w)) i = bit (ucast (drop_bit n w) :: byte) i"
      using \<open>i < 8\<close> m assms by (auto simp: bit_simps)
  qed
  also have "\<dots> = of_nat (unat (drop_bit n w))" by simp
  also have "unat (drop_bit n w) = unat w div 2 ^ n" unfolding unat_drop_bit_eq by (rule drop_bit_eq_div)
  finally show ?thesis .
qed

lemma byte0_eq: "8 \<le> LENGTH('a) \<Longrightarrow> byte0 (w :: 'a::len word) = of_nat (unat w)"
  using byte0_drop_bit [of 0 w] by simp

lemma or_push_bit_add:
  fixes x y :: "'a::len word"
  assumes "unat x < 2 ^ n"
  shows "x OR push_bit n y = of_nat (unat x + 2 ^ n * unat y)"
proof -
  have "\<not> (bit x i \<and> bit (push_bit n y) i)" for i
  proof
    assume b: "bit x i \<and> bit (push_bit n y) i"
    then have "n \<le> i" by (simp add: bit_simps)
    moreover have "bit (unat x) i" using b by (simp add: bit_unsigned_iff)
    moreover have "take_bit n (unat x) = unat x" using assms by (simp add: take_bit_nat_eq_self)
    ultimately show False by (metis bit_take_bit_iff not_le)
  qed
  then have "x OR push_bit n y = x + push_bit n y"
    by (intro disjunctive_add_eq_or [symmetric]) (auto simp: bit_eq_iff bit_simps)
  then show ?thesis by (simp add: push_bit_eq_mult)
qed


section \<open>The helpers of the runtime\<close>

definition put_le8 :: "bytes \<Rightarrow> nat \<Rightarrow> 8 word \<Rightarrow> bytes option" where
  "put_le8 b p v = wr b p v"

definition put_le16 :: "bytes \<Rightarrow> nat \<Rightarrow> 16 word \<Rightarrow> bytes option" where
  "put_le16 b p v =
     do { b \<leftarrow> wr b p (ucast (v AND 0xFF)); wr b (p + 1) (ucast (drop_bit 8 v AND 0xFF)) }"

definition put_le32 :: "bytes \<Rightarrow> nat \<Rightarrow> 32 word \<Rightarrow> bytes option" where
  "put_le32 b p v =
     do {
       b \<leftarrow> wr b p (ucast (v AND 0xFF));
       b \<leftarrow> wr b (p + 1) (ucast (drop_bit 8 v AND 0xFF));
       b \<leftarrow> wr b (p + 2) (ucast (drop_bit 16 v AND 0xFF));
       wr b (p + 3) (ucast (drop_bit 24 v AND 0xFF))
     }"

definition put_le64 :: "bytes \<Rightarrow> nat \<Rightarrow> 64 word \<Rightarrow> bytes option" where
  "put_le64 b p v =
     do {
       b \<leftarrow> put_le32 b p (ucast (v AND 0xFFFFFFFF));
       put_le32 b (p + 4) (ucast (drop_bit 32 v AND 0xFFFFFFFF))
     }"

definition read_le8 :: "bytes \<Rightarrow> nat \<Rightarrow> 8 word option" where
  "read_le8 b p = rd b p"

definition read_le16 :: "bytes \<Rightarrow> nat \<Rightarrow> 16 word option" where
  "read_le16 b p =
     do { x \<leftarrow> read_le8 b p; y \<leftarrow> read_le8 b (p + 1); Some (ucast x OR push_bit 8 (ucast y)) }"

definition read_le32 :: "bytes \<Rightarrow> nat \<Rightarrow> 32 word option" where
  "read_le32 b p =
     do {
       x0 \<leftarrow> read_le8 b p;
       x1 \<leftarrow> read_le8 b (p + 1);
       x2 \<leftarrow> read_le8 b (p + 2);
       x3 \<leftarrow> read_le8 b (p + 3);
       Some (((ucast x0 OR push_bit 8 (ucast x1)) OR push_bit 16 (ucast x2)) OR push_bit 24 (ucast x3))
     }"

definition read_le64 :: "bytes \<Rightarrow> nat \<Rightarrow> 64 word option" where
  "read_le64 b p =
     do {
       lo \<leftarrow> read_le32 b p;
       hi \<leftarrow> read_le32 b (p + 4);
       Some (ucast lo OR push_bit 32 (ucast hi))
     }"

definition put_le_i32 :: "bytes \<Rightarrow> nat \<Rightarrow> 32 word \<Rightarrow> bytes option" where
  "put_le_i32 b p v = put_le32 b p v"

definition read_le_i32 :: "bytes \<Rightarrow> nat \<Rightarrow> int option" where
  "read_le_i32 b p = map_option sint (read_le32 b p)"

definition le_span_ok :: "int \<Rightarrow> int \<Rightarrow> nat \<Rightarrow> bool" where
  "le_span_ok start fin len \<longleftrightarrow> 0 \<le> start \<and> start \<le> fin \<and> nat fin \<le> len"

section \<open>Interpretations\<close>

definition enc_w :: "nat \<Rightarrow> 'a::len word \<Rightarrow> bytes" where
  "enc_w n v = enc_le n (unat v)"

definition dec_w :: "bytes \<Rightarrow> 'a::len word" where
  "dec_w bs = of_nat (dec_le bs)"

lemma length_enc_w [simp]: "length (enc_w n v) = n"
  by (simp add: enc_w_def)

lemma pow256: "(256::nat) ^ n = 2 ^ (8 * n)"
  by (simp add: power_mult)

lemma dec_enc_w: "LENGTH('a) = 8 * n \<Longrightarrow> dec_w (enc_w n (v :: 'a::len word)) = v"
  using unat_bound [of v] by (simp add: enc_w_def dec_w_def dec_enc_le pow256)

lemma enc_dec_w: "LENGTH('a) = 8 * n \<Longrightarrow> length bs = n \<Longrightarrow> enc_w n (dec_w bs :: 'a::len word) = bs"
  using dec_le_less [of bs] enc_dec_le [of bs] by (simp add: enc_w_def dec_w_def unat_of_nat flip: pow256)

lemma block_Cons: "p < length b \<Longrightarrow> block b p (Suc n) = b ! p # block b (p + 1) n"
  by (simp add: block_def flip: Cons_nth_drop_Suc)

lemma put_le8_eq: "put_le8 b p v = (if p + 1 \<le> length b then Some (blit b p (enc_w 1 v)) else None)"
  by (simp add: put_le8_def enc_w_def blit_Cons)

lemma enc_w_2: "enc_w 2 (v :: 16 word) = [byte0 v, byte0 (drop_bit 8 v)]"
proof -
  have le: "8 \<le> LENGTH(16)" by simp
  show ?thesis unfolding byte0_drop_bit [OF le] byte0_eq [of v, OF le] by (simp add: enc_w_def enc_le_numeral)
qed

lemma put_le16_eq: "put_le16 b p v = (if p + 2 \<le> length b then Some (blit b p (enc_w 2 v)) else None)"
  by (simp add: put_le16_def enc_w_2 blit_Cons wr_def bind_eq_None_conv)

lemma enc_w_4: "enc_w 4 (v :: 32 word) =
   [byte0 v, byte0 (drop_bit 8 v), byte0 (drop_bit 16 v), byte0 (drop_bit 24 v)]"
proof -
  have le: "8 \<le> LENGTH(32)" by simp
  show ?thesis unfolding byte0_drop_bit [OF le] byte0_eq [of v, OF le]
    by (simp add: enc_w_def enc_le_numeral div_mult2_eq [symmetric])
qed

lemma put_le32_eq: "put_le32 b p v = (if p + 4 \<le> length b then Some (blit b p (enc_w 4 v)) else None)"
  by (simp add: put_le32_def enc_w_4 blit_Cons wr_def bind_eq_None_conv numeral_3_eq_3)

lemma enc_w_8:
  "enc_w 8 (v :: 64 word) = enc_w 4 (ucast (v AND 0xFFFFFFFF) :: 32 word) @
     enc_w 4 (ucast (drop_bit 32 v AND 0xFFFFFFFF) :: 32 word)"
proof -
  have lo: "(ucast (w AND 0xFFFFFFFF) :: 32 word) = of_nat (unat w)" for w :: "64 word"
  proof -
    have "(ucast (w AND 0xFFFFFFFF) :: 32 word) = ucast w"
    proof (rule bit_word_eqI)
      fix i assume "i < LENGTH(32)"
      moreover have "bit (0xFFFFFFFF :: 64 word) i \<longleftrightarrow> i < 32"
        using bit_mask_iff [where ?'a = "64 word" and m = 32 and n = i] by (auto simp: mask_eq_exp_minus_1)
      ultimately show "bit (ucast (w AND 0xFFFFFFFF) :: 32 word) i = bit (ucast w :: 32 word) i"
        by (auto simp: bit_simps)
    qed
    then show ?thesis by simp
  qed
  have hi: "unat (drop_bit 32 v) = unat v div 2 ^ 32"
    unfolding unat_drop_bit_eq by (rule drop_bit_eq_div)
  have m: "enc_le 4 (n mod 2 ^ 32) = enc_le 4 n" for n
    using enc_le_mod [of 4 n] by (simp add: pow256)
  show ?thesis
    unfolding enc_w_def lo hi unat_of_nat
    using enc_le_add [of 4 4 "unat v"] by (simp add: m [simplified])
qed

lemma put_le64_eq: "put_le64 b p v = (if p + 8 \<le> length b then Some (blit b p (enc_w 8 v)) else None)"
proof (cases "p + 8 \<le> length b")
  case True
  then show ?thesis
    using blit_blit_adjacent [of p "enc_w 4 (ucast (v AND 0xFFFFFFFF) :: 32 word)" _ b]
    by (simp add: put_le64_def put_le32_eq enc_w_8 length_enc_w)
next
  case False
  then show ?thesis by (auto simp: put_le64_def put_le32_eq)
qed

lemma block_1: "p + 1 \<le> length b \<Longrightarrow> block b p 1 = [b ! p]"
  using block_Cons [of p b 0] by simp

lemma read_le8_eq: "read_le8 b p = (if p + 1 \<le> length b then Some (dec_w (block b p 1)) else None)"
  by (simp add: read_le8_def rd_def block_Cons dec_w_def)

lemma unat_ucast_byte: "8 \<le> LENGTH('a) \<Longrightarrow> unat (ucast (b :: byte) :: 'a::len word) = unat b"
  by (rule unat_ucast_up) simp

lemma read_le16_eq: "read_le16 b p = (if p + 2 \<le> length b then Some (dec_w (block b p 2)) else None)"
proof (cases "p + 2 \<le> length b")
  case True
  have "unat x < 2 ^ 8" for x :: byte using unat_bound [of x] by simp
  moreover have "block b p 2 = [b ! p, b ! (p + 1)]" using True by (simp add: block_Cons numeral_2_eq_2)
  ultimately show ?thesis
    using True by (simp add: read_le16_def read_le8_def or_push_bit_add unat_ucast_byte dec_w_def)
next
  case False
  then show ?thesis by (auto simp: read_le16_def read_le8_def rd_def)
qed

lemma or_push_bit_nat:
  assumes "m < 2 ^ n" "n \<le> LENGTH('a)"
  shows "(of_nat m :: 'a::len word) OR push_bit n y = of_nat (m + 2 ^ n * unat y)"
proof -
  have "m < 2 ^ LENGTH('a)" using assms by (meson less_le_trans one_le_numeral power_increasing)
  then have "unat (of_nat m :: 'a word) = m" by (simp add: unat_of_nat)
  then show ?thesis using or_push_bit_add [of "of_nat m :: 'a word" n y] assms(1) by simp
qed

lemma read_le32_eq: "read_le32 b p = (if p + 4 \<le> length b then Some (dec_w (block b p 4)) else None)"
proof (cases "p + 4 \<le> length b")
  case True
  let ?u = "\<lambda>i. unat (b ! (p + i))"
  have B: "unat x < 256" for x :: byte using unat_bound [of x] by simp
  have U: "unat (ucast x :: 32 word) = unat x" for x :: byte by (simp add: unat_ucast_byte)
  have "ucast (b ! p) OR push_bit 8 (ucast (b ! (p + 1))) = (of_nat (?u 0 + 2 ^ 8 * ?u 1) :: 32 word)"
    using or_push_bit_nat [where ?'a = 32, of "?u 0" 8 "ucast (b ! (p + 1))"] B U by simp
  moreover have "of_nat (?u 0 + 2 ^ 8 * ?u 1) OR push_bit 16 (ucast (b ! (p + 2)) :: 32 word) =
      of_nat (?u 0 + 2 ^ 8 * ?u 1 + 2 ^ 16 * ?u 2)"
  proof -
    have "?u 0 + 2 ^ 8 * ?u 1 < 2 ^ 16" using B [of "b ! (p + 0)"] B [of "b ! (p + 1)"] by simp
    from or_push_bit_nat [OF this, where ?'a = 32, of "ucast (b ! (p + 2))"] U show ?thesis by simp
  qed
  moreover have "of_nat (?u 0 + 2 ^ 8 * ?u 1 + 2 ^ 16 * ?u 2) OR push_bit 24 (ucast (b ! (p + 3)) :: 32 word) =
      of_nat (?u 0 + 2 ^ 8 * ?u 1 + 2 ^ 16 * ?u 2 + 2 ^ 24 * ?u 3)"
  proof -
    have "?u 0 + 2 ^ 8 * ?u 1 + 2 ^ 16 * ?u 2 < 2 ^ 24"
      using B [of "b ! (p + 0)"] B [of "b ! (p + 1)"] B [of "b ! (p + 2)"] by simp
    from or_push_bit_nat [OF this, where ?'a = 32, of "ucast (b ! (p + 3))"] U show ?thesis by simp
  qed
  moreover have "block b p 4 = [b ! p, b ! (p + 1), b ! (p + 2), b ! (p + 3)]"
    using True by (intro block_eqI) (auto simp: nth_Cons less_Suc_eq numeral_eq_Suc split: nat.splits)
  ultimately show ?thesis
    using True by (simp add: read_le32_def read_le8_def dec_w_def)
next
  case False
  then show ?thesis by (auto simp: read_le32_def read_le8_def rd_def)
qed

lemma dec_le_append: "dec_le (xs @ ys) = dec_le xs + 256 ^ length xs * dec_le ys"
  by (induction xs) (simp_all add: algebra_simps)

lemma block_split: "p + (m + n) \<le> length b \<Longrightarrow> block b p (m + n) = block b p m @ block b (p + m) n"
  by (simp add: block_def take_add add.commute)

lemma read_le64_eq: "read_le64 b p = (if p + 8 \<le> length b then Some (dec_w (block b p 8)) else None)"
proof (cases "p + 8 \<le> length b")
  case True
  let ?lo = "dec_le (block b p 4)" and ?hi = "dec_le (block b (p + 4) 4)"
  have lt: "?lo < 2 ^ 32" "?hi < 2 ^ 32"
    using dec_le_less [of "block b p 4"] dec_le_less [of "block b (p + 4) 4"] True by simp_all
  have "unat (of_nat ?lo :: 32 word) = ?lo" using lt by (simp add: unat_of_nat)
  then have "(ucast (of_nat ?lo :: 32 word) :: 64 word) = of_nat ?lo" by (metis of_nat_unat)
  moreover have "unat (ucast (of_nat ?hi :: 32 word) :: 64 word) = ?hi"
    using lt by (simp add: unat_ucast_up unat_of_nat)
  ultimately have "ucast (of_nat ?lo :: 32 word) OR push_bit 32 (ucast (of_nat ?hi :: 32 word)) =
      (of_nat (?lo + 2 ^ 32 * ?hi) :: 64 word)"
    using or_push_bit_nat [where ?'a = 64, of ?lo 32 "ucast (of_nat ?hi :: 32 word)"] lt by simp
  moreover have "block b p 8 = block b p 4 @ block b (p + 4) 4"
    using block_split [of p 4 4 b] True by simp
  ultimately show ?thesis
    using True by (simp add: read_le64_def read_le32_eq dec_w_def dec_le_append)
next
  case False
  then show ?thesis by (auto simp: read_le64_def read_le32_eq)
qed

interpretation le8: fixed_codec "enc_w 1" dec_w 1 put_le8 read_le8
  by unfold_locales (simp_all add: put_le8_eq read_le8_eq dec_enc_w enc_dec_w)

interpretation le16: fixed_codec "enc_w 2" dec_w 2 put_le16 read_le16
  by unfold_locales (simp_all add: put_le16_eq read_le16_eq dec_enc_w enc_dec_w)

interpretation le32: fixed_codec "enc_w 4" dec_w 4 put_le32 read_le32
  by unfold_locales (simp_all add: put_le32_eq read_le32_eq dec_enc_w enc_dec_w)

interpretation le64: fixed_codec "enc_w 8" dec_w 8 put_le64 read_le64
  by unfold_locales (simp_all add: put_le64_eq read_le64_eq dec_enc_w enc_dec_w)

text \<open>A span that passes the check can be read: it lies inside the buffer and is not inverted.\<close>

lemma le_span_ok_block:
  "le_span_ok s e (length b) \<Longrightarrow> length (block b (nat s) (nat (e - s))) = nat e - nat s"
  by (auto simp: le_span_ok_def nat_diff_distrib)

end
