(* ===== verification/Kmb2.thy ===== *)
theory Kmb2
  imports Le_Bytes
begin

text \<open>
  \<^verbatim>\<open>src/runtime/soul/kmb2.h\<close> and \<^verbatim>\<open>kmb2.cpp\<close>: the packed message structure "KMB2". A message history is a
  pair of byte strings: the text of all messages in one buffer and a structure of fixed-size records that
  refer to it by spans. The writer accumulates records and emits the structure; the parser validates every
  count and span of an untrusted pair.

  A \<^verbatim>\<open>string_view\<close> whose null data pointer means "absent" (the tool call id and the arguments of a call) is an
  optional byte string; everywhere else a null view is the empty string. \<^verbatim>\<open>int32_t\<close> values are integers, with the
  conversion \<open>i32\<close> from a size. Record tables are offsets into the structure. The outer option of a result is
  \<open>None\<close> for a read or write outside its buffer.
\<close>

section \<open>Data\<close>

datatype part_kind = TEXT | THINK | TOOL_CALL | IMAGE | AUDIO | FILE | OTHER

definition kind_byte :: "part_kind \<Rightarrow> byte" where
  "kind_byte k = (case k of TEXT \<Rightarrow> 0 | THINK \<Rightarrow> 1 | TOOL_CALL \<Rightarrow> 2 | IMAGE \<Rightarrow> 3 | AUDIO \<Rightarrow> 4 | FILE \<Rightarrow> 5 | OTHER \<Rightarrow> 6)"

record part_view =
  pv_kind :: part_kind
  pv_text :: bytes

record tool_call_view =
  tc_id :: bytes
  tc_name :: bytes
  tc_arguments :: "bytes option"

record message_view =
  mv_role :: byte
  mv_tool_call_id :: "bytes option"
  mv_parts :: "part_view list"
  mv_tool_calls :: "tool_call_view list"

record kmb2_message_record =
  mr_role :: byte
  mr_flags :: byte
  mr_part_first :: "32 word"
  mr_part_count :: "32 word"
  mr_call_first :: "32 word"
  mr_call_count :: "32 word"
  mr_tcid_start :: int
  mr_tcid_end :: int

record kmb2_part_record =
  pr_start :: int
  pr_end :: int
  pr_kind :: byte
  pr_flags :: byte

record kmb2_call_record =
  cr_id_s :: int
  cr_id_e :: int
  cr_name_s :: int
  cr_name_e :: int
  cr_args_s :: int
  cr_args_e :: int

record kmb2_view =
  kv_structure :: bytes
  kv_history :: bytes
  kv_message_table :: nat
  kv_part_table :: nat
  kv_call_table :: nat
  kv_msg_count :: "32 word"
  kv_part_total :: "32 word"
  kv_call_total :: "32 word"
  kv_flags :: "32 word"

definition kKmb2Magic :: "32 word" where "kKmb2Magic = 0x32424D4B"
definition kKmb2Version :: "32 word" where "kKmb2Version = 1"
definition kKmb2HeaderBytes :: nat where "kKmb2HeaderBytes = 32"
definition kKmb2MessageBytes :: nat where "kKmb2MessageBytes = 32"
definition kKmb2PartBytes :: nat where "kKmb2PartBytes = 12"
definition kKmb2CallBytes :: nat where "kKmb2CallBytes = 24"
definition kKmb2MsgHasToolCallId :: byte where "kKmb2MsgHasToolCallId = 1"
definition kKmb2MsgHasToolCalls :: byte where "kKmb2MsgHasToolCalls = 2"
definition kKmb2MsgHasThink :: byte where "kKmb2MsgHasThink = 4"
definition kKmb2FlagUtf8 :: "32 word" where "kKmb2FlagUtf8 = 1"
definition kRoleTool :: byte where "kRoleTool = 3"
definition INT32_MAX :: nat where "INT32_MAX = 2 ^ 31 - 1"

definition i32 :: "nat \<Rightarrow> int" where "i32 n = sint (of_nat n :: 32 word)"

lemmas kmb2_sizes = kKmb2HeaderBytes_def kKmb2MessageBytes_def kKmb2PartBytes_def kKmb2CallBytes_def

definition table_bytes :: "32 word \<Rightarrow> 32 word \<Rightarrow> 32 word \<Rightarrow> bool \<times> nat" where
  "table_bytes msgs parts calls =
     (let total = u64 (kKmb2HeaderBytes + unat msgs * kKmb2MessageBytes + unat parts * kKmb2PartBytes + unat calls * kKmb2CallBytes);
          ok = total \<le> 2 ^ 64 - 1
      in (ok, if ok then total else 0))"

section \<open>Reading\<close>

text \<open>\<^verbatim>\<open>kmb2_view::message\<close>, \<^verbatim>\<open>part\<close>, \<^verbatim>\<open>call\<close> and \<^verbatim>\<open>span\<close>; the inner option is the Boolean result.\<close>

definition view_message :: "kmb2_view \<Rightarrow> nat \<Rightarrow> kmb2_message_record option option" where
  "view_message v index =
     (if unat (kv_msg_count v) \<le> index then Some None
      else let s = kv_structure v; p = kv_message_table v + index * kKmb2MessageBytes in do {
        role \<leftarrow> read_le8 s p;
        flags \<leftarrow> read_le8 s (p + 1);
        _ \<leftarrow> read_le16 s (p + 2);
        part_first \<leftarrow> read_le32 s (p + 4);
        part_count \<leftarrow> read_le32 s (p + 8);
        call_first \<leftarrow> read_le32 s (p + 12);
        call_count \<leftarrow> read_le32 s (p + 16);
        tcid_start \<leftarrow> read_le_i32 s (p + 20);
        tcid_end \<leftarrow> read_le_i32 s (p + 24);
        _ \<leftarrow> read_le32 s (p + 28);
        Some (Some \<lparr>mr_role = role, mr_flags = flags, mr_part_first = part_first, mr_part_count = part_count,
          mr_call_first = call_first, mr_call_count = call_count, mr_tcid_start = tcid_start, mr_tcid_end = tcid_end\<rparr>)
      })"

definition view_part :: "kmb2_view \<Rightarrow> nat \<Rightarrow> kmb2_part_record option option" where
  "view_part v index =
     (if unat (kv_part_total v) \<le> index then Some None
      else let s = kv_structure v; p = kv_part_table v + index * kKmb2PartBytes in do {
        start \<leftarrow> read_le_i32 s p;
        e \<leftarrow> read_le_i32 s (p + 4);
        kind \<leftarrow> read_le8 s (p + 8);
        flags \<leftarrow> read_le8 s (p + 9);
        _ \<leftarrow> read_le16 s (p + 10);
        Some (Some \<lparr>pr_start = start, pr_end = e, pr_kind = kind, pr_flags = flags\<rparr>)
      })"

definition view_call :: "kmb2_view \<Rightarrow> nat \<Rightarrow> kmb2_call_record option option" where
  "view_call v index =
     (if unat (kv_call_total v) \<le> index then Some None
      else let s = kv_structure v; p = kv_call_table v + index * kKmb2CallBytes in do {
        id_s \<leftarrow> read_le_i32 s p;
        id_e \<leftarrow> read_le_i32 s (p + 4);
        name_s \<leftarrow> read_le_i32 s (p + 8);
        name_e \<leftarrow> read_le_i32 s (p + 12);
        args_s \<leftarrow> read_le_i32 s (p + 16);
        args_e \<leftarrow> read_le_i32 s (p + 20);
        Some (Some \<lparr>cr_id_s = id_s, cr_id_e = id_e, cr_name_s = name_s, cr_name_e = name_e, cr_args_s = args_s, cr_args_e = args_e\<rparr>)
      })"

definition view_span :: "kmb2_view \<Rightarrow> int \<Rightarrow> int \<Rightarrow> bytes option" where
  "view_span v s e =
     (if s < 0 \<or> e < s then Some []
      else if nat e \<le> length (kv_history v) then Some (block (kv_history v) (nat s) (nat (e - s))) else None)"

definition kmb2_is_packed :: "bytes \<Rightarrow> bool option" where
  "kmb2_is_packed s =
     (if length s < kKmb2HeaderBytes then Some False
      else do {
        magic \<leftarrow> read_le32 s 0;
        version \<leftarrow> read_le32 s 4;
        Some (magic = kKmb2Magic \<and> version = kKmb2Version)
      })"

text \<open>The three validation loops; the second argument counts the records that are left.\<close>

fun check_parts :: "kmb2_view \<Rightarrow> nat \<Rightarrow> nat \<Rightarrow> bool option" where
  "check_parts v 0 i = Some True"
| "check_parts v (Suc n) i =
     do {
       r \<leftarrow> view_part v i;
       case r of None \<Rightarrow> Some False
       | Some p \<Rightarrow>
           if \<not> le_span_ok (pr_start p) (pr_end p) (length (kv_history v)) then Some False
           else if kind_byte OTHER < pr_kind p then Some False
           else check_parts v n (i + 1)
     }"

fun check_calls :: "kmb2_view \<Rightarrow> nat \<Rightarrow> nat \<Rightarrow> bool option" where
  "check_calls v 0 i = Some True"
| "check_calls v (Suc n) i =
     do {
       r \<leftarrow> view_call v i;
       case r of None \<Rightarrow> Some False
       | Some c \<Rightarrow>
           if \<not> le_span_ok (cr_id_s c) (cr_id_e c) (length (kv_history v)) \<or>
              \<not> le_span_ok (cr_name_s c) (cr_name_e c) (length (kv_history v)) then Some False
           else if 0 \<le> cr_args_s c \<and> \<not> le_span_ok (cr_args_s c) (cr_args_e c) (length (kv_history v)) then Some False
           else check_calls v n (i + 1)
     }"

fun check_messages :: "kmb2_view \<Rightarrow> nat \<Rightarrow> nat \<Rightarrow> bool option" where
  "check_messages v 0 i = Some True"
| "check_messages v (Suc n) i =
     do {
       r \<leftarrow> view_message v i;
       case r of None \<Rightarrow> Some False
       | Some m \<Rightarrow>
           if kRoleTool < mr_role m then Some False
           else if unat (kv_part_total v) < unat (mr_part_first m) + unat (mr_part_count m) then Some False
           else if unat (kv_call_total v) < unat (mr_call_first m) + unat (mr_call_count m) then Some False
           else if mr_flags m AND kKmb2MsgHasToolCallId \<noteq> 0 then
             (if \<not> le_span_ok (mr_tcid_start m) (mr_tcid_end m) (length (kv_history v)) then Some False
              else check_messages v n (i + 1))
           else if mr_tcid_start m \<noteq> -1 \<or> mr_tcid_end m \<noteq> -1 then Some False
           else check_messages v n (i + 1)
     }"

definition kmb2_parse :: "bytes \<Rightarrow> bytes \<Rightarrow> kmb2_view option option" where
  "kmb2_parse s hist =
     do {
       packed \<leftarrow> kmb2_is_packed s;
       if \<not> packed then Some None
       else do {
         msg_count \<leftarrow> read_le32 s 8;
         part_total \<leftarrow> read_le32 s 12;
         call_total \<leftarrow> read_le32 s 16;
         flags \<leftarrow> read_le32 s 20;
         let (size_ok, required) = table_bytes msg_count part_total call_total;
         if \<not> size_ok \<or> length s < required then Some None
         else do {
           let mt = kKmb2HeaderBytes;
           let pt = mt + unat msg_count * kKmb2MessageBytes;
           let ct = pt + unat part_total * kKmb2PartBytes;
           let v = \<lparr>kv_structure = s, kv_history = hist, kv_message_table = mt, kv_part_table = pt, kv_call_table = ct,
                    kv_msg_count = msg_count, kv_part_total = part_total, kv_call_total = call_total, kv_flags = flags\<rparr>;
           ok \<leftarrow> check_parts v (unat part_total) 0;
           if \<not> ok then Some None
           else do {
             ok \<leftarrow> check_calls v (unat call_total) 0;
             if \<not> ok then Some None
             else do {
               ok \<leftarrow> check_messages v (unat msg_count) 0;
               Some (if ok then Some v else None)
             }
           }
         }
       }
     }"

section \<open>Writing\<close>

record kmb2_writer =
  w_history :: bytes
  w_msgs :: "kmb2_message_record list"
  w_parts :: "kmb2_part_record list"
  w_calls :: "kmb2_call_record list"
  w_msg_count :: "32 word"
  w_part_total :: "32 word"
  w_call_total :: "32 word"
  w_overflow :: bool

definition kmb2_writer_new :: "bytes \<Rightarrow> kmb2_writer" where
  "kmb2_writer_new hist = \<lparr>w_history = hist, w_msgs = [], w_parts = [], w_calls = [], w_msg_count = 0, w_part_total = 0,
     w_call_total = 0, w_overflow = False\<rparr>"

definition kmb2_put :: "kmb2_writer \<Rightarrow> bytes \<Rightarrow> int \<times> kmb2_writer" where
  "kmb2_put w v =
     (if v = [] then (if w_overflow w then -1 else i32 (length (w_history w)), w)
      else if INT32_MAX < length (w_history w) + length v then (-1, w\<lparr>w_overflow := True\<rparr>)
      else (i32 (length (w_history w)), w\<lparr>w_history := w_history w @ v\<rparr>))"

text \<open>The end of a span that starts at \<open>s\<close>.\<close>

definition span_end :: "int \<Rightarrow> bytes \<Rightarrow> int" where
  "span_end s v = (if 0 \<le> s then s + i32 (length v) else -1)"

fun add_parts :: "kmb2_writer \<Rightarrow> byte \<Rightarrow> part_view list \<Rightarrow> kmb2_writer \<times> byte" where
  "add_parts w flags [] = (w, flags)"
| "add_parts w flags (p # ps) =
     (let (s, w) = kmb2_put w (pv_text p);
          rec = \<lparr>pr_start = s, pr_end = span_end s (pv_text p), pr_kind = kind_byte (pv_kind p), pr_flags = 0\<rparr>;
          flags = (if pv_kind p = THINK then flags OR kKmb2MsgHasThink else flags)
      in add_parts (w\<lparr>w_parts := w_parts w @ [rec], w_part_total := w_part_total w + 1\<rparr>) flags ps)"

definition put_args :: "kmb2_writer \<Rightarrow> bytes option \<Rightarrow> int \<times> int \<times> kmb2_writer" where
  "put_args w args =
     (case args of None \<Rightarrow> (-1, -1, w) | Some a \<Rightarrow> (let (s, w) = kmb2_put w a in (s, span_end s a, w)))"

fun add_calls :: "kmb2_writer \<Rightarrow> tool_call_view list \<Rightarrow> kmb2_writer" where
  "add_calls w [] = w"
| "add_calls w (c # cs) =
     (let (id_s, w) = kmb2_put w (tc_id c);
          (name_s, w) = kmb2_put w (tc_name c);
          (args_s, args_e, w) = put_args w (tc_arguments c);
          rec = \<lparr>cr_id_s = id_s, cr_id_e = span_end id_s (tc_id c), cr_name_s = name_s, cr_name_e = span_end name_s (tc_name c),
                 cr_args_s = args_s, cr_args_e = args_e\<rparr>
      in add_calls (w\<lparr>w_calls := w_calls w @ [rec], w_call_total := w_call_total w + 1\<rparr>) cs)"

text \<open>
  \<^verbatim>\<open>kmb2_writer::add\<close>; the tool call id is present when it is \<open>Some\<close>, as in \<^verbatim>\<open>kmb2_encode_message\<close>. An end of a
  span is only computed for a non-negative start.
\<close>

definition kmb2_add :: "kmb2_writer \<Rightarrow> byte \<Rightarrow> part_view list \<Rightarrow> tool_call_view list \<Rightarrow> bytes option \<Rightarrow> kmb2_writer" where
  "kmb2_add w role parts calls tool_call_id =
     (let part_first = w_part_total w;
          call_first = w_call_total w;
          (tcid_start, tcid_end, flags, w) =
            (case tool_call_id of None \<Rightarrow> (-1, -1, 0, w)
             | Some t \<Rightarrow> (let (s, w) = kmb2_put w t in
                 if 0 \<le> s then (s, s + i32 (length t), kKmb2MsgHasToolCallId, w) else (-1, -1, 0, w)));
          (w, flags) = add_parts w flags parts;
          flags = (if calls \<noteq> [] then flags OR kKmb2MsgHasToolCalls else flags);
          w = add_calls w calls;
          m = \<lparr>mr_role = role, mr_flags = flags, mr_part_first = part_first, mr_part_count = of_nat (length parts),
               mr_call_first = call_first, mr_call_count = of_nat (length calls), mr_tcid_start = tcid_start, mr_tcid_end = tcid_end\<rparr>
      in w\<lparr>w_msgs := w_msgs w @ [m], w_msg_count := w_msg_count w + 1\<rparr>)"

definition kmb2_add_raw :: "kmb2_writer \<Rightarrow> byte \<Rightarrow> kmb2_part_record list \<Rightarrow> kmb2_call_record list \<Rightarrow> int \<Rightarrow> int \<Rightarrow> kmb2_writer" where
  "kmb2_add_raw w role parts calls tcid_start tcid_end =
     (let flags = (if 0 \<le> tcid_start then kKmb2MsgHasToolCallId else 0);
          flags = (if calls \<noteq> [] then flags OR kKmb2MsgHasToolCalls else flags);
          flags = (if \<exists>p\<in>set parts. pr_kind p = kind_byte THINK then flags OR kKmb2MsgHasThink else flags);
          m = \<lparr>mr_role = role, mr_flags = flags, mr_part_first = w_part_total w, mr_part_count = of_nat (length parts),
               mr_call_first = w_call_total w, mr_call_count = of_nat (length calls), mr_tcid_start = tcid_start, mr_tcid_end = tcid_end\<rparr>
      in w\<lparr>w_parts := w_parts w @ parts, w_part_total := w_part_total w + of_nat (length parts),
            w_calls := w_calls w @ calls, w_call_total := w_call_total w + of_nat (length calls),
            w_msgs := w_msgs w @ [m], w_msg_count := w_msg_count w + 1\<rparr>)"

definition write_header :: "bytes \<Rightarrow> 32 word \<Rightarrow> 32 word \<Rightarrow> 32 word \<Rightarrow> bytes option" where
  "write_header h msgs parts calls =
     do {
       h \<leftarrow> put_le32 h 0 kKmb2Magic;
       h \<leftarrow> put_le32 h 4 kKmb2Version;
       h \<leftarrow> put_le32 h 8 msgs;
       h \<leftarrow> put_le32 h 12 parts;
       h \<leftarrow> put_le32 h 16 calls;
       h \<leftarrow> put_le32 h 20 kKmb2FlagUtf8;
       h \<leftarrow> put_le32 h 24 0;
       put_le32 h 28 0
     }"

definition write_message :: "bytes \<Rightarrow> nat \<Rightarrow> kmb2_message_record \<Rightarrow> bytes option" where
  "write_message h mp m =
     do {
       h \<leftarrow> put_le8 h mp (mr_role m);
       h \<leftarrow> put_le8 h (mp + 1) (mr_flags m);
       h \<leftarrow> put_le16 h (mp + 2) 0;
       h \<leftarrow> put_le32 h (mp + 4) (mr_part_first m);
       h \<leftarrow> put_le32 h (mp + 8) (mr_part_count m);
       h \<leftarrow> put_le32 h (mp + 12) (mr_call_first m);
       h \<leftarrow> put_le32 h (mp + 16) (mr_call_count m);
       h \<leftarrow> put_le_i32 h (mp + 20) (of_int (mr_tcid_start m));
       h \<leftarrow> put_le_i32 h (mp + 24) (of_int (mr_tcid_end m));
       put_le32 h (mp + 28) 0
     }"

definition write_part :: "bytes \<Rightarrow> nat \<Rightarrow> kmb2_part_record \<Rightarrow> bytes option" where
  "write_part h pp p =
     do {
       h \<leftarrow> put_le_i32 h pp (of_int (pr_start p));
       h \<leftarrow> put_le_i32 h (pp + 4) (of_int (pr_end p));
       h \<leftarrow> put_le8 h (pp + 8) (pr_kind p);
       h \<leftarrow> put_le8 h (pp + 9) (pr_flags p);
       put_le16 h (pp + 10) 0
     }"

definition write_call :: "bytes \<Rightarrow> nat \<Rightarrow> kmb2_call_record \<Rightarrow> bytes option" where
  "write_call h cp c =
     do {
       h \<leftarrow> put_le_i32 h cp (of_int (cr_id_s c));
       h \<leftarrow> put_le_i32 h (cp + 4) (of_int (cr_id_e c));
       h \<leftarrow> put_le_i32 h (cp + 8) (of_int (cr_name_s c));
       h \<leftarrow> put_le_i32 h (cp + 12) (of_int (cr_name_e c));
       h \<leftarrow> put_le_i32 h (cp + 16) (of_int (cr_args_s c));
       put_le_i32 h (cp + 20) (of_int (cr_args_e c))
     }"

text \<open>A loop over records of a fixed size.\<close>

fun write_all :: "(bytes \<Rightarrow> nat \<Rightarrow> 'r \<Rightarrow> bytes option) \<Rightarrow> nat \<Rightarrow> bytes \<Rightarrow> nat \<Rightarrow> 'r list \<Rightarrow> bytes option" where
  "write_all wrt width h p [] = Some h"
| "write_all wrt width h p (r # rs) = do { h \<leftarrow> wrt h p r; write_all wrt width h (p + width) rs }"

definition resize_bytes :: "bytes \<Rightarrow> nat \<Rightarrow> bytes" where
  "resize_bytes b n = take n b @ replicate (n - length b) 0"

definition kmb2_finish :: "kmb2_writer \<Rightarrow> bytes \<Rightarrow> bytes option" where
  "kmb2_finish w structure =
     (let msgs = of_nat (length (w_msgs w)); parts = of_nat (length (w_parts w)); calls = of_nat (length (w_calls w));
          (size_ok, total) = table_bytes msgs parts calls
      in if \<not> size_ok then Some []
         else do {
           h \<leftarrow> write_header (resize_bytes structure total) msgs parts calls;
           let mp = kKmb2HeaderBytes;
           h \<leftarrow> write_all write_message kKmb2MessageBytes h mp (w_msgs w);
           let pp = mp + length (w_msgs w) * kKmb2MessageBytes;
           h \<leftarrow> write_all write_part kKmb2PartBytes h pp (w_parts w);
           let cp = pp + length (w_parts w) * kKmb2PartBytes;
           write_all write_call kKmb2CallBytes h cp (w_calls w)
         })"

definition kmb2_encode_message :: "kmb2_writer \<Rightarrow> message_view \<Rightarrow> kmb2_writer" where
  "kmb2_encode_message w mv = kmb2_add w (mv_role mv) (mv_parts mv) (mv_tool_calls mv) (mv_tool_call_id mv)"

text \<open>\<^verbatim>\<open>kmb2_build\<close>: the structure and the history.\<close>

definition kmb2_build :: "message_view list \<Rightarrow> (bytes \<times> bytes) option" where
  "kmb2_build msgs =
     (let w = fold (\<lambda>mv w. kmb2_encode_message w mv) msgs (kmb2_writer_new [])
      in do { s \<leftarrow> kmb2_finish w []; Some (s, w_history w) })"

section \<open>The layout of the structure\<close>

lemma blit_adj:
  "q = p + length xs \<Longrightarrow> p + length xs + length ys \<le> length b \<Longrightarrow> blit (blit b p xs) q ys = blit b p (xs @ ys)"
  using blit_blit_adjacent by blast

definition enc_i32 :: "int \<Rightarrow> bytes" where "enc_i32 i = enc_w 4 (of_int i :: 32 word)"

lemma length_enc_i32 [simp]: "length (enc_i32 i) = 4"
  by (simp add: enc_i32_def)

definition enc_header :: "32 word \<Rightarrow> 32 word \<Rightarrow> 32 word \<Rightarrow> bytes" where
  "enc_header msgs parts calls =
     enc_w 4 kKmb2Magic @ enc_w 4 kKmb2Version @ enc_w 4 msgs @ enc_w 4 parts @ enc_w 4 calls @ enc_w 4 kKmb2FlagUtf8 @
     enc_w 4 (0 :: 32 word) @ enc_w 4 (0 :: 32 word)"

definition enc_message :: "kmb2_message_record \<Rightarrow> bytes" where
  "enc_message m =
     enc_w 1 (mr_role m) @ enc_w 1 (mr_flags m) @ enc_w 2 (0 :: 16 word) @ enc_w 4 (mr_part_first m) @ enc_w 4 (mr_part_count m) @
     enc_w 4 (mr_call_first m) @ enc_w 4 (mr_call_count m) @ enc_i32 (mr_tcid_start m) @ enc_i32 (mr_tcid_end m) @ enc_w 4 (0 :: 32 word)"

definition enc_part :: "kmb2_part_record \<Rightarrow> bytes" where
  "enc_part p = enc_i32 (pr_start p) @ enc_i32 (pr_end p) @ enc_w 1 (pr_kind p) @ enc_w 1 (pr_flags p) @ enc_w 2 (0 :: 16 word)"

definition enc_call :: "kmb2_call_record \<Rightarrow> bytes" where
  "enc_call c = enc_i32 (cr_id_s c) @ enc_i32 (cr_id_e c) @ enc_i32 (cr_name_s c) @ enc_i32 (cr_name_e c) @ enc_i32 (cr_args_s c) @
     enc_i32 (cr_args_e c)"

lemma length_records [simp]:
  "length (enc_header a b c) = 32" "length (enc_message m) = 32" "length (enc_part p) = 12" "length (enc_call r) = 24"
  by (simp_all add: enc_header_def enc_message_def enc_part_def enc_call_def)

lemma write_header_eq: "32 \<le> length h \<Longrightarrow> write_header h a b c = Some (blit h 0 (enc_header a b c))"
  by (simp add: write_header_def put_le32_eq blit_adj enc_header_def)

lemma write_message_eq: "p + 32 \<le> length h \<Longrightarrow> write_message h p m = Some (blit h p (enc_message m))"
  by (simp add: write_message_def put_le8_eq put_le16_eq put_le32_eq put_le_i32_def enc_i32_def blit_adj enc_message_def)

lemma write_part_eq: "p + 12 \<le> length h \<Longrightarrow> write_part h p r = Some (blit h p (enc_part r))"
  by (simp add: write_part_def put_le8_eq put_le16_eq put_le32_eq put_le_i32_def enc_i32_def blit_adj enc_part_def)

lemma write_call_eq: "p + 24 \<le> length h \<Longrightarrow> write_call h p r = Some (blit h p (enc_call r))"
  by (simp add: write_call_def put_le32_eq put_le_i32_def enc_i32_def blit_adj enc_call_def)

lemma length_concat_records: "\<forall>r\<in>set rs. length (enc r) = width \<Longrightarrow> length (concat (map enc rs)) = length rs * width"
  by (induction rs) auto

lemma write_all_eq:
  assumes "\<And>h p r. p + width \<le> length h \<Longrightarrow> wrt h p r = Some (blit h p (enc r))" "\<And>r. length (enc r) = width"
    "p + length rs * width \<le> length h"
  shows "write_all wrt width h p rs = Some (blit h p (concat (map enc rs)))"
  using assms(3)
proof (induction rs arbitrary: h p)
  case (Cons r rs)
  have l: "length (concat (map enc rs)) = length rs * width" by (rule length_concat_records) (simp add: assms(2))
  have "write_all wrt width h p (r # rs) = write_all wrt width (blit h p (enc r)) (p + width) rs"
    using assms(1) Cons.prems by simp
  also have "\<dots> = Some (blit (blit h p (enc r)) (p + width) (concat (map enc rs)))"
    using Cons.prems assms(2) by (intro Cons.IH) simp
  also have "blit (blit h p (enc r)) (p + width) (concat (map enc rs)) = blit h p (enc r @ concat (map enc rs))"
    using Cons.prems assms(2) l by (intro blit_adj) auto
  finally show ?case by simp
qed simp

definition structure_of :: "kmb2_message_record list \<Rightarrow> kmb2_part_record list \<Rightarrow> kmb2_call_record list \<Rightarrow> bytes" where
  "structure_of ms ps cs = enc_header (of_nat (length ms)) (of_nat (length ps)) (of_nat (length cs)) @
     concat (map enc_message ms) @ concat (map enc_part ps) @ concat (map enc_call cs)"

lemma table_bytes_eq: "table_bytes m p c = (True, 32 + unat m * 32 + unat p * 12 + unat c * 24)"
proof -
  have "unat m < 2 ^ 32" "unat p < 2 ^ 32" "unat c < 2 ^ 32" using unat_bound [of m] unat_bound [of p] unat_bound [of c] by simp_all
  then have "32 + unat m * 32 + unat p * 12 + unat c * 24 < 2 ^ 64" by simp
  then show ?thesis by (simp add: table_bytes_def kmb2_sizes u64_id)
qed

lemma unat_of_nat32: "n < 2 ^ 32 \<Longrightarrow> unat (of_nat n :: 32 word) = n"
  by (simp add: unat_of_nat)

lemma finish_eq:
  assumes "length (w_msgs w) < 2 ^ 32" "length (w_parts w) < 2 ^ 32" "length (w_calls w) < 2 ^ 32"
  shows "kmb2_finish w s = Some (structure_of (w_msgs w) (w_parts w) (w_calls w))"
proof -
  let ?ms = "w_msgs w" and ?ps = "w_parts w" and ?cs = "w_calls w"
  let ?n = "32 + length ?ms * 32 + length ?ps * 12 + length ?cs * 24"
  let ?hd = "enc_header (of_nat (length ?ms)) (of_nat (length ?ps)) (of_nat (length ?cs))"
  let ?M = "concat (map enc_message ?ms)" and ?P = "concat (map enc_part ?ps)" and ?C = "concat (map enc_call ?cs)"
  define b where "b = resize_bytes s ?n"
  have lb: "length b = ?n" by (simp add: b_def resize_bytes_def)
  have lens: "length ?M = length ?ms * 32" "length ?P = length ?ps * 12" "length ?C = length ?cs * 24"
    by (rule length_concat_records, simp)+
  have t: "table_bytes (of_nat (length ?ms)) (of_nat (length ?ps)) (of_nat (length ?cs)) = (True, ?n)"
    unfolding table_bytes_eq using assms by (simp add: unat_of_nat32)
  have 1: "write_header b (of_nat (length ?ms)) (of_nat (length ?ps)) (of_nat (length ?cs)) = Some (blit b 0 ?hd)"
    by (rule write_header_eq) (simp add: lb)
  have 2: "write_all write_message 32 (blit b 0 ?hd) 32 ?ms = Some (blit b 0 (?hd @ ?M))"
    using write_all_eq [of 32 write_message enc_message 32 ?ms "blit b 0 ?hd", OF write_message_eq] lb
      blit_adj [of 32 0 ?hd ?M b] by (simp add: lens)
  have 3: "write_all write_part 12 (blit b 0 (?hd @ ?M)) (32 + length ?ms * 32) ?ps = Some (blit b 0 ((?hd @ ?M) @ ?P))"
    using write_all_eq [of 12 write_part enc_part "32 + length ?ms * 32" ?ps "blit b 0 (?hd @ ?M)", OF write_part_eq] lb
      blit_adj [of "32 + length ?ms * 32" 0 "?hd @ ?M" ?P b] by (simp add: lens)
  have 4: "write_all write_call 24 (blit b 0 ((?hd @ ?M) @ ?P)) (32 + length ?ms * 32 + length ?ps * 12) ?cs =
      Some (blit b 0 (((?hd @ ?M) @ ?P) @ ?C))"
    using write_all_eq [of 24 write_call enc_call "32 + length ?ms * 32 + length ?ps * 12" ?cs "blit b 0 ((?hd @ ?M) @ ?P)", OF write_call_eq] lb
      blit_adj [of "32 + length ?ms * 32 + length ?ps * 12" 0 "(?hd @ ?M) @ ?P" ?C b] by (simp add: lens)
  have "blit b 0 (((?hd @ ?M) @ ?P) @ ?C) = structure_of ?ms ?ps ?cs"
    by (simp add: blit_def lens lb structure_of_def)
  then show ?thesis
    using 1 2 3 4 unfolding kmb2_finish_def Let_def t kmb2_sizes b_def by simp
qed

section \<open>Reading records\<close>

definition i32_ok :: "int \<Rightarrow> bool" where "i32_ok i \<longleftrightarrow> - (2 ^ 31) \<le> i \<and> i < 2 ^ 31"

lemma sint_of_int32: "i32_ok i \<Longrightarrow> sint (of_int i :: 32 word) = i"
  by (simp add: i32_ok_def signed_of_int signed_take_bit_int_eq_self)

lemma read_le_i32_eq: "p + 4 \<le> length b \<Longrightarrow> block b p 4 = enc_i32 i \<Longrightarrow> i32_ok i \<Longrightarrow> read_le_i32 b p = Some i"
  by (simp add: read_le_i32_def read_le32_eq enc_i32_def dec_enc_w sint_of_int32)

lemma block_mid: "length xs = p \<Longrightarrow> length ys = n \<Longrightarrow> block (xs @ ys @ zs) p n = ys"
  by (simp add: block_def)

lemma block_concat:
  assumes "i < length rs" "\<And>r. length (enc r) = width" "p = length pre + i * width"
  shows "block (pre @ concat (map enc rs) @ post) p width = enc (rs ! i)"
proof -
  have l: "length (concat (map enc (take i rs))) = i * width"
    using length_concat_records [of "take i rs" enc width] assms by simp
  have "rs = take i rs @ rs ! i # drop (Suc i) rs" using assms(1) by (rule id_take_nth_drop)
  then have "concat (map enc rs) = concat (map enc (take i rs)) @ enc (rs ! i) @ concat (map enc (drop (Suc i) rs))"
    by (metis concat.simps(2) concat_append list.simps(9) map_append)
  then show ?thesis
    using block_mid [of "pre @ concat (map enc (take i rs))" p "enc (rs ! i)" width "concat (map enc (drop (Suc i) rs)) @ post"] l assms by simp
qed

lemma sub_block:
  "block s p w = e \<Longrightarrow> p + w \<le> length s \<Longrightarrow> q + n \<le> w \<Longrightarrow> block s (p + q) n = block e q n"
  using block_block [of q n w p s] by simp

lemmas record_blocks = block_append_left block_append_right block_def

lemma view_message_eq:
  assumes "i < unat (kv_msg_count v)" "p = kv_message_table v + i * 32" "p + 32 \<le> length (kv_structure v)"
    "block (kv_structure v) p 32 = enc_message m" "i32_ok (mr_tcid_start m)" "i32_ok (mr_tcid_end m)"
  shows "view_message v i = Some (Some m)"
proof -
  let ?s = "kv_structure v"
  note sb = sub_block [OF assms(4,3)]
  have "block ?s p 1 = enc_w 1 (mr_role m)" "block ?s (p + 1) 1 = enc_w 1 (mr_flags m)"
    using sb [of 0 1] sb [of 1 1] by (simp_all add: enc_message_def block_def)
  moreover have "block ?s (p + 4) 4 = enc_w 4 (mr_part_first m)" "block ?s (p + 8) 4 = enc_w 4 (mr_part_count m)"
      "block ?s (p + 12) 4 = enc_w 4 (mr_call_first m)" "block ?s (p + 16) 4 = enc_w 4 (mr_call_count m)"
    using sb [of 4 4] sb [of 8 4] sb [of 12 4] sb [of 16 4] by (simp_all add: enc_message_def block_def)
  moreover have "block ?s (p + 20) 4 = enc_i32 (mr_tcid_start m)" "block ?s (p + 24) 4 = enc_i32 (mr_tcid_end m)"
    using sb [of 20 4] sb [of 24 4] by (simp_all add: enc_message_def block_def)
  ultimately show ?thesis
    using assms(1-3,5,6) by (simp add: view_message_def Let_def kmb2_sizes read_le8_eq read_le16_eq read_le32_eq read_le_i32_eq dec_enc_w)
qed

lemma view_part_eq:
  assumes "i < unat (kv_part_total v)" "p = kv_part_table v + i * 12" "p + 12 \<le> length (kv_structure v)"
    "block (kv_structure v) p 12 = enc_part m" "i32_ok (pr_start m)" "i32_ok (pr_end m)"
  shows "view_part v i = Some (Some m)"
proof -
  let ?s = "kv_structure v"
  note sb = sub_block [OF assms(4,3)]
  have "block ?s p 4 = enc_i32 (pr_start m)" "block ?s (p + 4) 4 = enc_i32 (pr_end m)"
    "block ?s (p + 8) 1 = enc_w 1 (pr_kind m)" "block ?s (p + 9) 1 = enc_w 1 (pr_flags m)"
    using sb [of 0 4] sb [of 4 4] sb [of 8 1] sb [of 9 1] by (simp_all add: enc_part_def block_def)
  then show ?thesis
    using assms(1-3,5,6) by (simp add: view_part_def Let_def kmb2_sizes read_le8_eq read_le16_eq read_le_i32_eq dec_enc_w)
qed

lemma view_call_eq:
  assumes "i < unat (kv_call_total v)" "p = kv_call_table v + i * 24" "p + 24 \<le> length (kv_structure v)"
    "block (kv_structure v) p 24 = enc_call m" "i32_ok (cr_id_s m)" "i32_ok (cr_id_e m)" "i32_ok (cr_name_s m)" "i32_ok (cr_name_e m)"
    "i32_ok (cr_args_s m)" "i32_ok (cr_args_e m)"
  shows "view_call v i = Some (Some m)"
proof -
  let ?s = "kv_structure v"
  note sb = sub_block [OF assms(4,3)]
  have "block ?s p 4 = enc_i32 (cr_id_s m)" "block ?s (p + 4) 4 = enc_i32 (cr_id_e m)"
    "block ?s (p + 8) 4 = enc_i32 (cr_name_s m)" "block ?s (p + 12) 4 = enc_i32 (cr_name_e m)"
    "block ?s (p + 16) 4 = enc_i32 (cr_args_s m)" "block ?s (p + 20) 4 = enc_i32 (cr_args_e m)"
    using sb [of 0 4] sb [of 4 4] sb [of 8 4] sb [of 12 4] sb [of 16 4] sb [of 20 4] by (simp_all add: enc_call_def block_def)
  then show ?thesis
    using assms(1-3,5-) by (simp add: view_call_def Let_def kmb2_sizes read_le_i32_eq)
qed

section \<open>Safety of the parser\<close>

text \<open>A view whose tables lie inside the structure.\<close>

definition tables_ok :: "kmb2_view \<Rightarrow> bool" where
  "tables_ok v \<longleftrightarrow>
     kv_message_table v + unat (kv_msg_count v) * 32 \<le> length (kv_structure v) \<and>
     kv_part_table v + unat (kv_part_total v) * 12 \<le> length (kv_structure v) \<and>
     kv_call_table v + unat (kv_call_total v) * 24 \<le> length (kv_structure v)"

lemma record_in_table: "i < n \<Longrightarrow> t + n * w \<le> l \<Longrightarrow> t + i * w + w \<le> (l :: nat)"
  using mult_le_mono1 [of "Suc i" n w] by simp

lemma views_defined:
  assumes "tables_ok v"
  shows "i < unat (kv_msg_count v) \<Longrightarrow> \<exists>m. view_message v i = Some (Some m)"
    "i < unat (kv_part_total v) \<Longrightarrow> \<exists>p. view_part v i = Some (Some p)"
    "i < unat (kv_call_total v) \<Longrightarrow> \<exists>c. view_call v i = Some (Some c)"
proof -
  show "\<exists>m. view_message v i = Some (Some m)" if "i < unat (kv_msg_count v)"
    using record_in_table [OF that, of "kv_message_table v" 32] assms that
    by (simp add: view_message_def tables_ok_def Let_def kmb2_sizes read_le8_eq read_le16_eq read_le32_eq read_le_i32_def)
  show "\<exists>p. view_part v i = Some (Some p)" if "i < unat (kv_part_total v)"
    using record_in_table [OF that, of "kv_part_table v" 12] assms that
    by (simp add: view_part_def tables_ok_def Let_def kmb2_sizes read_le8_eq read_le16_eq read_le32_eq read_le_i32_def)
  show "\<exists>c. view_call v i = Some (Some c)" if "i < unat (kv_call_total v)"
    using record_in_table [OF that, of "kv_call_table v" 24] assms that
    by (simp add: view_call_def tables_ok_def Let_def kmb2_sizes read_le32_eq read_le_i32_def)
qed

text \<open>What each loop checks of a record.\<close>

definition part_valid :: "nat \<Rightarrow> kmb2_part_record \<Rightarrow> bool" where
  "part_valid len p \<longleftrightarrow> le_span_ok (pr_start p) (pr_end p) len \<and> pr_kind p \<le> kind_byte OTHER"

definition call_valid :: "nat \<Rightarrow> kmb2_call_record \<Rightarrow> bool" where
  "call_valid len c \<longleftrightarrow> le_span_ok (cr_id_s c) (cr_id_e c) len \<and> le_span_ok (cr_name_s c) (cr_name_e c) len \<and>
     (0 \<le> cr_args_s c \<longrightarrow> le_span_ok (cr_args_s c) (cr_args_e c) len)"

definition message_valid :: "kmb2_view \<Rightarrow> kmb2_message_record \<Rightarrow> bool" where
  "message_valid v m \<longleftrightarrow> mr_role m \<le> kRoleTool \<and>
     unat (mr_part_first m) + unat (mr_part_count m) \<le> unat (kv_part_total v) \<and>
     unat (mr_call_first m) + unat (mr_call_count m) \<le> unat (kv_call_total v) \<and>
     (if mr_flags m AND kKmb2MsgHasToolCallId \<noteq> 0 then le_span_ok (mr_tcid_start m) (mr_tcid_end m) (length (kv_history v))
      else mr_tcid_start m = -1 \<and> mr_tcid_end m = -1)"

lemma all_range_Suc:
  "(\<forall>k. i \<le> k \<and> k < i + Suc n \<longrightarrow> Q k) \<longleftrightarrow> Q i \<and> (\<forall>k. i + 1 \<le> k \<and> k < i + 1 + n \<longrightarrow> Q k)"
  by (auto simp: Suc_le_eq) (metis le_neq_implies_less)

lemma check_parts_eq:
  assumes "tables_ok v" "i + n \<le> unat (kv_part_total v)"
  shows "check_parts v n i = Some (\<forall>k. i \<le> k \<and> k < i + n \<longrightarrow> (\<forall>p. view_part v k = Some (Some p) \<longrightarrow> part_valid (length (kv_history v)) p))"
  using assms(2)
proof (induction n arbitrary: i)
  case (Suc n)
  have "i < unat (kv_part_total v)" using Suc.prems by simp
  then obtain p where p: "view_part v i = Some (Some p)" using views_defined(2) [OF assms(1)] by blast
  show ?case using Suc.IH [of "i + 1"] Suc.prems p unfolding all_range_Suc by (auto simp: part_valid_def not_less)
qed auto

lemma check_calls_eq:
  assumes "tables_ok v" "i + n \<le> unat (kv_call_total v)"
  shows "check_calls v n i = Some (\<forall>k. i \<le> k \<and> k < i + n \<longrightarrow> (\<forall>c. view_call v k = Some (Some c) \<longrightarrow> call_valid (length (kv_history v)) c))"
  using assms(2)
proof (induction n arbitrary: i)
  case (Suc n)
  have "i < unat (kv_call_total v)" using Suc.prems by simp
  then obtain p where p: "view_call v i = Some (Some p)" using views_defined(3) [OF assms(1)] by blast
  show ?case using Suc.IH [of "i + 1"] Suc.prems p unfolding all_range_Suc by (auto simp: call_valid_def)
qed auto

lemma check_messages_eq:
  assumes "tables_ok v" "i + n \<le> unat (kv_msg_count v)"
  shows "check_messages v n i = Some (\<forall>k. i \<le> k \<and> k < i + n \<longrightarrow> (\<forall>m. view_message v k = Some (Some m) \<longrightarrow> message_valid v m))"
  using assms(2)
proof (induction n arbitrary: i)
  case (Suc n)
  have "i < unat (kv_msg_count v)" using Suc.prems by simp
  then obtain p where p: "view_message v i = Some (Some p)" using views_defined(1) [OF assms(1)] by blast
  show ?case using Suc.IH [of "i + 1"] Suc.prems p unfolding all_range_Suc by (auto simp: message_valid_def not_less)
qed auto

lemma check_all:
  assumes "tables_ok v"
  shows "check_parts v (unat (kv_part_total v)) 0 =
      Some (\<forall>i<unat (kv_part_total v). \<exists>p. view_part v i = Some (Some p) \<and> part_valid (length (kv_history v)) p)"
    "check_calls v (unat (kv_call_total v)) 0 =
      Some (\<forall>i<unat (kv_call_total v). \<exists>c. view_call v i = Some (Some c) \<and> call_valid (length (kv_history v)) c)"
    "check_messages v (unat (kv_msg_count v)) 0 =
      Some (\<forall>i<unat (kv_msg_count v). \<exists>m. view_message v i = Some (Some m) \<and> message_valid v m)"
proof -
  have eq: "(\<forall>k. 0 \<le> k \<and> k < 0 + n \<longrightarrow> (\<forall>p. f k = Some (Some p) \<longrightarrow> Q p)) \<longleftrightarrow> (\<forall>i<n. \<exists>p. f i = Some (Some p) \<and> Q p)"
    if "\<And>i. i < n \<Longrightarrow> \<exists>p. f i = Some (Some p)" for f :: "nat \<Rightarrow> 'r option option" and n Q
    using that by fastforce
  show "check_parts v (unat (kv_part_total v)) 0 =
      Some (\<forall>i<unat (kv_part_total v). \<exists>p. view_part v i = Some (Some p) \<and> part_valid (length (kv_history v)) p)"
    using check_parts_eq [OF assms, of 0 "unat (kv_part_total v)"] eq [OF views_defined(2) [OF assms]] by simp
  show "check_calls v (unat (kv_call_total v)) 0 =
      Some (\<forall>i<unat (kv_call_total v). \<exists>c. view_call v i = Some (Some c) \<and> call_valid (length (kv_history v)) c)"
    using check_calls_eq [OF assms, of 0 "unat (kv_call_total v)"] eq [OF views_defined(3) [OF assms]] by simp
  show "check_messages v (unat (kv_msg_count v)) 0 =
      Some (\<forall>i<unat (kv_msg_count v). \<exists>m. view_message v i = Some (Some m) \<and> message_valid v m)"
    using check_messages_eq [OF assms, of 0 "unat (kv_msg_count v)"] eq [OF views_defined(1) [OF assms]] by simp
qed

text \<open>What an accepted pair satisfies.\<close>

definition view_valid :: "kmb2_view \<Rightarrow> bool" where
  "view_valid v \<longleftrightarrow> tables_ok v \<and>
     (\<forall>i<unat (kv_part_total v). \<exists>p. view_part v i = Some (Some p) \<and> part_valid (length (kv_history v)) p) \<and>
     (\<forall>i<unat (kv_call_total v). \<exists>c. view_call v i = Some (Some c) \<and> call_valid (length (kv_history v)) c) \<and>
     (\<forall>i<unat (kv_msg_count v). \<exists>m. view_message v i = Some (Some m) \<and> message_valid v m)"

definition parsed_view :: "bytes \<Rightarrow> bytes \<Rightarrow> kmb2_view" where
  "parsed_view s hist =
     (let n = dec_w (block s 8 4) :: 32 word; p = dec_w (block s 12 4) :: 32 word; c = dec_w (block s 16 4) :: 32 word
      in \<lparr>kv_structure = s, kv_history = hist, kv_message_table = 32, kv_part_table = 32 + unat n * 32,
          kv_call_table = 32 + unat n * 32 + unat p * 12, kv_msg_count = n, kv_part_total = p, kv_call_total = c,
          kv_flags = dec_w (block s 20 4)\<rparr>)"

lemma kmb2_parse_eq:
  "kmb2_parse s hist =
     Some (if 32 \<le> length s \<and> dec_w (block s 0 4) = kKmb2Magic \<and> dec_w (block s 4 4) = kKmb2Version \<and> view_valid (parsed_view s hist)
           then Some (parsed_view s hist) else None)"
proof (cases "32 \<le> length s \<and> dec_w (block s 0 4) = kKmb2Magic \<and> dec_w (block s 4 4) = kKmb2Version")
  case False
  then have "kmb2_is_packed s = Some False" by (auto simp: kmb2_is_packed_def kmb2_sizes read_le32_eq)
  then show ?thesis using False by (auto simp: kmb2_parse_def)
next
  case True
  let ?v = "parsed_view s hist"
  let ?n = "dec_w (block s 8 4) :: 32 word" and ?p = "dec_w (block s 12 4) :: 32 word" and ?c = "dec_w (block s 16 4) :: 32 word"
  have v: "kv_structure ?v = s" "kv_history ?v = hist" "kv_message_table ?v = 32" "kv_part_table ?v = 32 + unat ?n * 32"
     "kv_call_table ?v = 32 + unat ?n * 32 + unat ?p * 12" "kv_msg_count ?v = ?n" "kv_part_total ?v = ?p" "kv_call_total ?v = ?c"
    by (simp_all add: parsed_view_def Let_def)
  have pk: "kmb2_is_packed s = Some True" using True by (auto simp: kmb2_is_packed_def kmb2_sizes read_le32_eq)
  have t: "tables_ok ?v \<longleftrightarrow> 32 + unat ?n * 32 + unat ?p * 12 + unat ?c * 24 \<le> length s"
    unfolding tables_ok_def v by auto
  show ?thesis
  proof (cases "tables_ok ?v")
    case False
    then show ?thesis using True pk t
      by (simp add: kmb2_parse_def read_le32_eq table_bytes_eq view_valid_def)
  next
    case ok: True
    have "kmb2_parse s hist = do {
        ok \<leftarrow> check_parts ?v (unat ?p) 0;
        if \<not> ok then Some None
        else do {
          ok \<leftarrow> check_calls ?v (unat ?c) 0;
          if \<not> ok then Some None else do { ok \<leftarrow> check_messages ?v (unat ?n) 0; Some (if ok then Some ?v else None) } } }"
      using True pk t [THEN iffD1, OF ok] unfolding kmb2_parse_def parsed_view_def Let_def kmb2_sizes by (simp add: read_le32_eq table_bytes_eq)
    also have "\<dots> = Some (if view_valid ?v then Some ?v else None)"
      unfolding check_all [OF ok, unfolded v(6-8)] view_valid_def v(6-8) bind.bind_lunit using ok
      by (cases "\<forall>i<unat ?p. \<exists>p. view_part ?v i = Some (Some p) \<and> part_valid (length (kv_history ?v)) p";
          cases "\<forall>i<unat ?c. \<exists>c. view_call ?v i = Some (Some c) \<and> call_valid (length (kv_history ?v)) c") simp_all
    finally show ?thesis using True by simp
  qed
qed

section \<open>What the writer records\<close>

definition span_is :: "bytes \<Rightarrow> int \<Rightarrow> int \<Rightarrow> bytes \<Rightarrow> bool" where
  "span_is hist s e t \<longleftrightarrow> 0 \<le> s \<and> e = s + int (length t) \<and> nat e \<le> length hist \<and> block hist (nat s) (length t) = t"

definition part_rep :: "bytes \<Rightarrow> kmb2_part_record \<Rightarrow> part_view \<Rightarrow> bool" where
  "part_rep hist r p \<longleftrightarrow> span_is hist (pr_start r) (pr_end r) (pv_text p) \<and> pr_kind r = kind_byte (pv_kind p)"

definition call_rep :: "bytes \<Rightarrow> kmb2_call_record \<Rightarrow> tool_call_view \<Rightarrow> bool" where
  "call_rep hist r c \<longleftrightarrow> span_is hist (cr_id_s r) (cr_id_e r) (tc_id c) \<and> span_is hist (cr_name_s r) (cr_name_e r) (tc_name c) \<and>
     (case tc_arguments c of None \<Rightarrow> cr_args_s r = -1 \<and> cr_args_e r = -1 | Some a \<Rightarrow> span_is hist (cr_args_s r) (cr_args_e r) a)"

definition tcid_rep :: "bytes \<Rightarrow> kmb2_message_record \<Rightarrow> bytes option \<Rightarrow> bool" where
  "tcid_rep hist m t \<longleftrightarrow>
     (case t of None \<Rightarrow> mr_flags m AND kKmb2MsgHasToolCallId = 0 \<and> mr_tcid_start m = -1 \<and> mr_tcid_end m = -1
      | Some t \<Rightarrow> mr_flags m AND kKmb2MsgHasToolCallId \<noteq> 0 \<and> span_is hist (mr_tcid_start m) (mr_tcid_end m) t)"

definition msg_rep :: "bytes \<Rightarrow> kmb2_part_record list \<Rightarrow> kmb2_call_record list \<Rightarrow> kmb2_message_record \<Rightarrow> message_view \<Rightarrow> bool" where
  "msg_rep hist ps cs m mv \<longleftrightarrow> mr_role m = mv_role mv \<and> tcid_rep hist m (mv_tool_call_id mv) \<and>
     unat (mr_part_count m) = length (mv_parts mv) \<and> unat (mr_part_first m) + length (mv_parts mv) \<le> length ps \<and>
     list_all2 (part_rep hist) (block ps (unat (mr_part_first m)) (length (mv_parts mv))) (mv_parts mv) \<and>
     unat (mr_call_count m) = length (mv_tool_calls mv) \<and> unat (mr_call_first m) + length (mv_tool_calls mv) \<le> length cs \<and>
     list_all2 (call_rep hist) (block cs (unat (mr_call_first m)) (length (mv_tool_calls mv))) (mv_tool_calls mv)"

text \<open>Everything recorded stays valid when the history and the tables grow.\<close>

lemma span_is_mono: "span_is hist s e t \<Longrightarrow> span_is (hist @ rest) s e t"
  unfolding span_is_def by (auto simp: block_append_left)

lemma part_rep_mono: "part_rep hist r p \<Longrightarrow> part_rep (hist @ rest) r p"
  by (auto simp: part_rep_def span_is_mono)

lemma call_rep_mono: "call_rep hist r c \<Longrightarrow> call_rep (hist @ rest) r c"
  by (auto simp: call_rep_def span_is_mono split: option.splits)

lemma tcid_rep_mono: "tcid_rep hist m t \<Longrightarrow> tcid_rep (hist @ rest) m t"
  by (auto simp: tcid_rep_def span_is_mono split: option.splits)

lemma msg_rep_mono: "msg_rep hist ps cs m mv \<Longrightarrow> msg_rep (hist @ h') (ps @ p') (cs @ c') m mv"
  unfolding msg_rep_def
  by (auto simp: block_append_left tcid_rep_mono elim!: list_all2_mono intro: part_rep_mono call_rep_mono)

section \<open>The writer\<close>

lemma i32_small: "n \<le> INT32_MAX \<Longrightarrow> i32 n = int n"
  using sint_of_int32 [of "int n"] by (simp add: i32_def i32_ok_def INT32_MAX_def)

text \<open>A write that fits: the history grows by the text, at the span that is returned.\<close>

lemma kmb2_put_ok:
  assumes "\<not> w_overflow w" "length (w_history w) + length t \<le> INT32_MAX"
  shows "kmb2_put w t = (int (length (w_history w)), w\<lparr>w_history := w_history w @ t\<rparr>)"
  using assms by (auto simp: kmb2_put_def i32_small)

lemma span_is_put:
  "length hist + length t \<le> INT32_MAX \<Longrightarrow> span_is (hist @ t @ rest) (int (length hist)) (span_end (int (length hist)) t) t"
  by (simp add: span_is_def span_end_def i32_small block_def)

definition parts_size :: "part_view list \<Rightarrow> nat" where "parts_size ps = (\<Sum>p\<leftarrow>ps. length (pv_text p))"

definition args_size :: "bytes option \<Rightarrow> nat" where "args_size a = (case a of None \<Rightarrow> 0 | Some b \<Rightarrow> length b)"

definition calls_size :: "tool_call_view list \<Rightarrow> nat" where
  "calls_size cs = (\<Sum>c\<leftarrow>cs. length (tc_id c) + length (tc_name c) + args_size (tc_arguments c))"

definition message_size :: "message_view \<Rightarrow> nat" where
  "message_size mv = args_size (mv_tool_call_id mv) + parts_size (mv_parts mv) + calls_size (mv_tool_calls mv)"

lemma sizes_simps [simp]:
  "parts_size [] = 0" "parts_size (p # ps) = length (pv_text p) + parts_size ps" "calls_size [] = 0"
  "calls_size (c # cs) = length (tc_id c) + length (tc_name c) + args_size (tc_arguments c) + calls_size cs"
  by (simp_all add: parts_size_def calls_size_def)

lemma think_flag: "(flags OR kKmb2MsgHasThink) AND kKmb2MsgHasToolCallId = flags AND kKmb2MsgHasToolCallId"
  "(flags OR kKmb2MsgHasToolCalls) AND kKmb2MsgHasToolCallId = flags AND kKmb2MsgHasToolCallId"
  by (simp_all add: kKmb2MsgHasThink_def kKmb2MsgHasToolCalls_def kKmb2MsgHasToolCallId_def bit.conj_disj_distrib2)

lemma add_parts_ok:
  assumes "\<not> w_overflow w" "length (w_history w) + parts_size ps \<le> INT32_MAX"
  shows "\<exists>h rs flags'. add_parts w flags ps =
      (w\<lparr>w_history := w_history w @ h, w_parts := w_parts w @ rs, w_part_total := w_part_total w + of_nat (length rs)\<rparr>, flags') \<and>
      length h = parts_size ps \<and> list_all2 (part_rep (w_history w @ h)) rs ps \<and>
      flags' AND kKmb2MsgHasToolCallId = flags AND kKmb2MsgHasToolCallId"
  using assms
proof (induction ps arbitrary: w flags)
  case Nil
  then show ?case by (intro exI [of _ "[]"] exI [of _ "[]"] exI [of _ flags]) simp
next
  case (Cons p ps)
  let ?n = "length (w_history w)"
  define r where "r = \<lparr>pr_start = int ?n, pr_end = span_end (int ?n) (pv_text p), pr_kind = kind_byte (pv_kind p), pr_flags = 0\<rparr>"
  define w1 where "w1 = w\<lparr>w_history := w_history w @ pv_text p, w_parts := w_parts w @ [r], w_part_total := w_part_total w + 1\<rparr>"
  define f1 where "f1 = (if pv_kind p = THINK then flags OR kKmb2MsgHasThink else flags)"
  have step: "add_parts w flags (p # ps) = add_parts w1 f1 ps"
    using Cons.prems kmb2_put_ok [of w "pv_text p"] by (simp add: w1_def r_def f1_def Let_def)
  have "\<not> w_overflow w1" "length (w_history w1) + parts_size ps \<le> INT32_MAX" using Cons.prems by (simp_all add: w1_def)
  from Cons.IH [OF this, of f1] obtain h rs flags' where ih: "add_parts w1 f1 ps =
      (w1\<lparr>w_history := w_history w1 @ h, w_parts := w_parts w1 @ rs, w_part_total := w_part_total w1 + of_nat (length rs)\<rparr>, flags')"
      "length h = parts_size ps" "list_all2 (part_rep (w_history w1 @ h)) rs ps" "flags' AND kKmb2MsgHasToolCallId = f1 AND kKmb2MsgHasToolCallId"
    by blast
  have "part_rep (w_history w @ pv_text p @ h) r p"
    unfolding part_rep_def r_def using span_is_put [of "w_history w" "pv_text p" h] Cons.prems by simp
  then show ?case unfolding step ih(1) using ih(2-4)
    by (intro exI [of _ "pv_text p @ h"] exI [of _ "r # rs"] exI [of _ flags']) (simp add: w1_def f1_def think_flag add.assoc)
qed

lemma put_args_ok:
  assumes "\<not> w_overflow w" "length (w_history w) + args_size a \<le> INT32_MAX"
  shows "\<exists>s e h. put_args w a = (s, e, w\<lparr>w_history := w_history w @ h\<rparr>) \<and> length h = args_size a \<and>
      (\<forall>rest. case a of None \<Rightarrow> s = -1 \<and> e = -1 | Some b \<Rightarrow> span_is (w_history w @ h @ rest) s e b)"
proof (cases a)
  case None
  then show ?thesis by (intro exI [of _ "-1"] exI [of _ "[]"]) (simp add: put_args_def args_size_def)
next
  case (Some b)
  then show ?thesis using assms kmb2_put_ok [of w b] span_is_put [of "w_history w" b]
    by (auto simp: put_args_def args_size_def intro!: exI [of _ b])
qed

lemma add_calls_ok:
  assumes "\<not> w_overflow w" "length (w_history w) + calls_size cs \<le> INT32_MAX"
  shows "\<exists>h rs. add_calls w cs =
      w\<lparr>w_history := w_history w @ h, w_calls := w_calls w @ rs, w_call_total := w_call_total w + of_nat (length rs)\<rparr> \<and>
      length h = calls_size cs \<and> list_all2 (call_rep (w_history w @ h)) rs cs"
  using assms
proof (induction cs arbitrary: w)
  case Nil
  then show ?case by (intro exI [of _ "[]"]) simp
next
  case (Cons c cs)
  let ?H = "w_history w"
  define H1 where "H1 = ?H @ tc_id c"
  define H2 where "H2 = H1 @ tc_name c"
  have len: "length ?H + length (tc_id c) \<le> INT32_MAX" "length H1 + length (tc_name c) \<le> INT32_MAX"
    "length H2 + args_size (tc_arguments c) \<le> INT32_MAX"
    using Cons.prems by (simp_all add: H1_def H2_def)
  have p1: "kmb2_put w (tc_id c) = (int (length ?H), w\<lparr>w_history := H1\<rparr>)"
    using kmb2_put_ok [OF Cons.prems(1) len(1)] by (simp add: H1_def)
  have p2: "kmb2_put (w\<lparr>w_history := H1\<rparr>) (tc_name c) = (int (length H1), w\<lparr>w_history := H2\<rparr>)"
    using kmb2_put_ok [of "w\<lparr>w_history := H1\<rparr>" "tc_name c"] Cons.prems(1) len(2) by (simp add: H2_def)
  obtain s e h3 where p3: "put_args (w\<lparr>w_history := H2\<rparr>) (tc_arguments c) = (s, e, w\<lparr>w_history := H2 @ h3\<rparr>)"
    "length h3 = args_size (tc_arguments c)"
    "\<And>rest. case tc_arguments c of None \<Rightarrow> s = -1 \<and> e = -1 | Some b \<Rightarrow> span_is (H2 @ h3 @ rest) s e b"
  proof -
    have "\<exists>s e h. put_args (w\<lparr>w_history := H2\<rparr>) (tc_arguments c) = (s, e, w\<lparr>w_history := H2 @ h\<rparr>) \<and> length h = args_size (tc_arguments c) \<and>
      (\<forall>rest. case tc_arguments c of None \<Rightarrow> s = -1 \<and> e = -1 | Some b \<Rightarrow> span_is (H2 @ h @ rest) s e b)"
      using put_args_ok [of "w\<lparr>w_history := H2\<rparr>" "tc_arguments c"] Cons.prems(1) len(3) by (cases "tc_arguments c") simp_all
    then show ?thesis using that by blast
  qed
  define r where "r = \<lparr>cr_id_s = int (length ?H), cr_id_e = span_end (int (length ?H)) (tc_id c), cr_name_s = int (length H1),
     cr_name_e = span_end (int (length H1)) (tc_name c), cr_args_s = s, cr_args_e = e\<rparr>"
  define w1 where "w1 = w\<lparr>w_history := H2 @ h3, w_calls := w_calls w @ [r], w_call_total := w_call_total w + 1\<rparr>"
  have step: "add_calls w (c # cs) = add_calls w1 cs" using p1 p2 p3(1) by (simp add: w1_def r_def Let_def)
  have "\<not> w_overflow w1" "length (w_history w1) + calls_size cs \<le> INT32_MAX"
    using Cons.prems p3(2) by (simp_all add: w1_def H1_def H2_def)
  from Cons.IH [OF this] obtain h rs where ih: "add_calls w1 cs =
      w1\<lparr>w_history := w_history w1 @ h, w_calls := w_calls w1 @ rs, w_call_total := w_call_total w1 + of_nat (length rs)\<rparr>"
      "length h = calls_size cs" "list_all2 (call_rep (w_history w1 @ h)) rs cs" by blast
  have "call_rep (H2 @ h3 @ h) r c"
    unfolding call_rep_def r_def
    using span_is_put [OF len(1), of "tc_name c @ h3 @ h"] span_is_put [OF len(2), of "h3 @ h"] p3(3) [of h]
    by (cases "tc_arguments c") (simp_all add: H1_def H2_def)
  then show ?case unfolding step ih(1) using ih(2,3) p3(2)
    by (intro exI [of _ "tc_id c @ tc_name c @ h3 @ h"] exI [of _ "r # rs"]) (simp add: w1_def H1_def H2_def add.assoc)
qed

text \<open>The invariant of a writer that has encoded \<open>mvs\<close>.\<close>

definition writer_ok :: "kmb2_writer \<Rightarrow> message_view list \<Rightarrow> bool" where
  "writer_ok w mvs \<longleftrightarrow> \<not> w_overflow w \<and> length (w_history w) \<le> INT32_MAX \<and>
     w_part_total w = of_nat (length (w_parts w)) \<and> w_call_total w = of_nat (length (w_calls w)) \<and>
     list_all2 (msg_rep (w_history w) (w_parts w) (w_calls w)) (w_msgs w) mvs \<and>
     (\<forall>r\<in>set (w_parts w). \<exists>p. part_rep (w_history w) r p) \<and> (\<forall>r\<in>set (w_calls w). \<exists>c. call_rep (w_history w) r c)"

lemma list_all2_exists: "list_all2 P xs ys \<Longrightarrow> x \<in> set xs \<Longrightarrow> \<exists>y. P x y"
  by (auto simp: in_set_conv_nth list_all2_conv_all_nth)

text \<open>The tool call id at the start of \<^verbatim>\<open>add\<close>.\<close>

lemma put_tcid_ok:
  assumes "\<not> w_overflow w" "length (w_history w) + args_size t \<le> INT32_MAX"
  shows "\<exists>s e f h. (case t of None \<Rightarrow> (-1, -1, 0, w)
      | Some t \<Rightarrow> (let (s, w) = kmb2_put w t in if 0 \<le> s then (s, s + i32 (length t), kKmb2MsgHasToolCallId, w) else (-1, -1, 0, w))) =
      (s, e, f, w\<lparr>w_history := w_history w @ h\<rparr>) \<and> length h = args_size t \<and>
      (\<forall>rest m. mr_flags m AND kKmb2MsgHasToolCallId = f AND kKmb2MsgHasToolCallId \<longrightarrow> mr_tcid_start m = s \<longrightarrow> mr_tcid_end m = e \<longrightarrow>
         tcid_rep (w_history w @ h @ rest) m t)"
proof (cases t)
  case None
  then show ?thesis by (intro exI [of _ "-1"] exI [of _ "0"] exI [of _ "[]"]) (simp add: args_size_def tcid_rep_def)
next
  case (Some b)
  have "kKmb2MsgHasToolCallId AND kKmb2MsgHasToolCallId \<noteq> 0" by (simp add: kKmb2MsgHasToolCallId_def)
  then show ?thesis using assms Some kmb2_put_ok [of w b] span_is_put [of "w_history w" b]
    by (auto simp: args_size_def tcid_rep_def span_end_def intro!: exI [of _ b])
qed

lemma encode_message_ok:
  assumes ok: "writer_ok w mvs" and size: "length (w_history w) + message_size mv \<le> INT32_MAX"
    and n: "length (w_parts w) + length (mv_parts mv) < 2 ^ 32" "length (w_calls w) + length (mv_tool_calls mv) < 2 ^ 32"
  shows "writer_ok (kmb2_encode_message w mv) (mvs @ [mv])"
    "length (w_history (kmb2_encode_message w mv)) = length (w_history w) + message_size mv"
    "length (w_parts (kmb2_encode_message w mv)) = length (w_parts w) + length (mv_parts mv)"
    "length (w_calls (kmb2_encode_message w mv)) = length (w_calls w) + length (mv_tool_calls mv)"
proof -
  have ov: "\<not> w_overflow w" using ok by (simp add: writer_ok_def)
  have sz: "length (w_history w) + args_size (mv_tool_call_id mv) \<le> INT32_MAX" using size by (simp add: message_size_def)
  obtain s e f h0 where T: "(case mv_tool_call_id mv of None \<Rightarrow> (-1, -1, 0, w)
      | Some t \<Rightarrow> (let (s, w) = kmb2_put w t in if 0 \<le> s then (s, s + i32 (length t), kKmb2MsgHasToolCallId, w) else (-1, -1, 0, w))) =
      (s, e, f, w\<lparr>w_history := w_history w @ h0\<rparr>)" "length h0 = args_size (mv_tool_call_id mv)"
      "\<And>rest m. mr_flags m AND kKmb2MsgHasToolCallId = f AND kKmb2MsgHasToolCallId \<Longrightarrow> mr_tcid_start m = s \<Longrightarrow> mr_tcid_end m = e \<Longrightarrow>
         tcid_rep (w_history w @ h0 @ rest) m (mv_tool_call_id mv)"
    using put_tcid_ok [OF ov sz] by blast
  define w1 where "w1 = w\<lparr>w_history := w_history w @ h0\<rparr>"
  have "\<not> w_overflow w1" "length (w_history w1) + parts_size (mv_parts mv) \<le> INT32_MAX"
    using ov size T(2) by (simp_all add: w1_def message_size_def)
  from add_parts_ok [OF this, of f] obtain h1 rs f1 where P: "add_parts w1 f (mv_parts mv) =
      (w1\<lparr>w_history := w_history w1 @ h1, w_parts := w_parts w1 @ rs, w_part_total := w_part_total w1 + of_nat (length rs)\<rparr>, f1)"
      "length h1 = parts_size (mv_parts mv)" "list_all2 (part_rep (w_history w1 @ h1)) rs (mv_parts mv)"
      "f1 AND kKmb2MsgHasToolCallId = f AND kKmb2MsgHasToolCallId" by blast
  define w2 where "w2 = w1\<lparr>w_history := w_history w1 @ h1, w_parts := w_parts w1 @ rs, w_part_total := w_part_total w1 + of_nat (length rs)\<rparr>"
  have "\<not> w_overflow w2" "length (w_history w2) + calls_size (mv_tool_calls mv) \<le> INT32_MAX"
    using ov size T(2) P(2) by (simp_all add: w1_def w2_def message_size_def)
  from add_calls_ok [OF this] obtain h2 cs where C: "add_calls w2 (mv_tool_calls mv) =
      w2\<lparr>w_history := w_history w2 @ h2, w_calls := w_calls w2 @ cs, w_call_total := w_call_total w2 + of_nat (length cs)\<rparr>"
      "length h2 = calls_size (mv_tool_calls mv)" "list_all2 (call_rep (w_history w2 @ h2)) cs (mv_tool_calls mv)" by blast
  define f2 where "f2 = (if mv_tool_calls mv \<noteq> [] then f1 OR kKmb2MsgHasToolCalls else f1)"
  define m where "m = \<lparr>mr_role = mv_role mv, mr_flags = f2, mr_part_first = w_part_total w, mr_part_count = of_nat (length (mv_parts mv)),
     mr_call_first = w_call_total w, mr_call_count = of_nat (length (mv_tool_calls mv)), mr_tcid_start = s, mr_tcid_end = e\<rparr>"
  let ?H = "w_history w @ h0 @ h1 @ h2" and ?w = "kmb2_encode_message w mv"
  have w': "?w = w\<lparr>w_history := ?H, w_parts := w_parts w @ rs, w_part_total := w_part_total w + of_nat (length rs),
      w_calls := w_calls w @ cs, w_call_total := w_call_total w + of_nat (length cs), w_msgs := w_msgs w @ [m], w_msg_count := w_msg_count w + 1\<rparr>"
    unfolding kmb2_encode_message_def kmb2_add_def Let_def T(1) [unfolded Let_def] prod.case w1_def [symmetric] P(1) w2_def [symmetric] C(1)
    by (simp add: w1_def w2_def m_def f2_def)
  have ln: "length rs = length (mv_parts mv)" "length cs = length (mv_tool_calls mv)" using P(3) C(3) by (auto dest: list_all2_lengthD)
  show "length (w_history ?w) = length (w_history w) + message_size mv" using T(2) P(2) C(2) by (simp add: w' message_size_def)
  show "length (w_parts ?w) = length (w_parts w) + length (mv_parts mv)" "length (w_calls ?w) = length (w_calls w) + length (mv_tool_calls mv)"
    using ln by (simp_all add: w')
  have pr: "list_all2 (part_rep ?H) rs (mv_parts mv)"
    using P(3) part_rep_mono [of "w_history w @ h0 @ h1" _ _ h2] by (auto simp: w1_def elim!: list_all2_mono)
  have cr: "list_all2 (call_rep ?H) cs (mv_tool_calls mv)" using C(3) by (simp add: w1_def w2_def)
  have tot: "unat (w_part_total w) = length (w_parts w)" "unat (w_call_total w) = length (w_calls w)"
    using ok n by (auto simp: writer_ok_def unat_of_nat32)
  have tc: "tcid_rep ?H m (mv_tool_call_id mv)"
    by (rule T(3) [of m "h1 @ h2"]) (simp_all add: m_def f2_def think_flag P(4))
  have m_rep: "msg_rep ?H (w_parts w @ rs) (w_calls w @ cs) m mv"
    unfolding msg_rep_def using tc pr cr ln tot n by (simp add: m_def unat_of_nat32 block_def)
  have old: "list_all2 (msg_rep ?H (w_parts w @ rs) (w_calls w @ cs)) (w_msgs w) mvs"
    using ok msg_rep_mono [of "w_history w" "w_parts w" "w_calls w" _ _ "h0 @ h1 @ h2" rs cs]
    by (auto simp: writer_ok_def elim!: list_all2_mono)
  have ps: "\<exists>p. part_rep ?H r p" if "r \<in> set (w_parts w @ rs)" for r
  proof (cases "r \<in> set (w_parts w)")
    case True
    then obtain p where "part_rep (w_history w) r p" using ok unfolding writer_ok_def by blast
    then show ?thesis using part_rep_mono by blast
  qed (use that list_all2_exists [OF pr] in auto)
  have cl: "\<exists>c. call_rep ?H r c" if "r \<in> set (w_calls w @ cs)" for r
  proof (cases "r \<in> set (w_calls w)")
    case True
    then obtain c where "call_rep (w_history w) r c" using ok unfolding writer_ok_def by blast
    then show ?thesis using call_rep_mono by blast
  qed (use that list_all2_exists [OF cr] in auto)
  show "writer_ok ?w (mvs @ [mv])"
    using ok old m_rep ps cl size T(2) P(2) C(2) ov unfolding w' writer_ok_def
    by (auto simp: message_size_def intro: list_all2_appendI)
qed

lemma encode_all_ok:
  assumes "writer_ok w mvs0" "length (w_history w) + sum_list (map message_size mvs) \<le> INT32_MAX"
    "length (w_parts w) + sum_list (map (length \<circ> mv_parts) mvs) < 2 ^ 32"
    "length (w_calls w) + sum_list (map (length \<circ> mv_tool_calls) mvs) < 2 ^ 32"
  shows "\<exists>w'. fold (\<lambda>mv w. kmb2_encode_message w mv) mvs w = w' \<and> writer_ok w' (mvs0 @ mvs) \<and> length (w_parts w') < 2 ^ 32 \<and> length (w_calls w') < 2 ^ 32"
  using assms
proof (induction mvs arbitrary: w mvs0)
  case (Cons mv mvs)
  have E: "writer_ok (kmb2_encode_message w mv) (mvs0 @ [mv])"
    "length (w_history (kmb2_encode_message w mv)) = length (w_history w) + message_size mv"
    "length (w_parts (kmb2_encode_message w mv)) = length (w_parts w) + length (mv_parts mv)"
    "length (w_calls (kmb2_encode_message w mv)) = length (w_calls w) + length (mv_tool_calls mv)"
    using encode_message_ok [OF Cons.prems(1), of mv] Cons.prems(2-4) by auto
  show ?case using Cons.IH [OF E(1)] E(2-4) Cons.prems(2-4) by (simp add: add.assoc)
qed auto

section \<open>The round trip\<close>

text \<open>What a reader of an accepted pair gets for a message: its role, id, parts and calls.\<close>

definition decode_part :: "kmb2_view \<Rightarrow> nat \<Rightarrow> (byte \<times> bytes) option" where
  "decode_part v i =
     do { r \<leftarrow> view_part v i; p \<leftarrow> r; t \<leftarrow> view_span v (pr_start p) (pr_end p); Some (pr_kind p, t) }"

definition decode_call :: "kmb2_view \<Rightarrow> nat \<Rightarrow> (bytes \<times> bytes \<times> bytes option) option" where
  "decode_call v i =
     do {
       r \<leftarrow> view_call v i;
       c \<leftarrow> r;
       i \<leftarrow> view_span v (cr_id_s c) (cr_id_e c);
       n \<leftarrow> view_span v (cr_name_s c) (cr_name_e c);
       a \<leftarrow> view_span v (cr_args_s c) (cr_args_e c);
       Some (i, n, if 0 \<le> cr_args_s c then Some a else None)
     }"

definition decode_message :: "kmb2_view \<Rightarrow> nat \<Rightarrow>
    (byte \<times> bytes option \<times> (byte \<times> bytes) option list \<times> (bytes \<times> bytes \<times> bytes option) option list) option" where
  "decode_message v i =
     do {
       r \<leftarrow> view_message v i;
       m \<leftarrow> r;
       t \<leftarrow> view_span v (mr_tcid_start m) (mr_tcid_end m);
       Some (mr_role m, if mr_flags m AND kKmb2MsgHasToolCallId \<noteq> 0 then Some t else None,
             map (decode_part v) [unat (mr_part_first m) ..< unat (mr_part_first m) + unat (mr_part_count m)],
             map (decode_call v) [unat (mr_call_first m) ..< unat (mr_call_first m) + unat (mr_call_count m)])
     }"

definition contents :: "message_view \<Rightarrow> byte \<times> bytes option \<times> (byte \<times> bytes) option list \<times> (bytes \<times> bytes \<times> bytes option) option list" where
  "contents mv = (mv_role mv, mv_tool_call_id mv, map (\<lambda>p. Some (kind_byte (pv_kind p), pv_text p)) (mv_parts mv),
     map (\<lambda>c. Some (tc_id c, tc_name c, tc_arguments c)) (mv_tool_calls mv))"

lemma view_span_is: "span_is (kv_history v) s e t \<Longrightarrow> view_span v s e = Some t"
  by (auto simp: span_is_def view_span_def)

lemma span_is_le_ok: "span_is hist s e t \<Longrightarrow> le_span_ok s e (length hist)"
  by (auto simp: span_is_def le_span_ok_def)

lemma span_is_i32: "span_is hist s e t \<Longrightarrow> length hist \<le> INT32_MAX \<Longrightarrow> i32_ok s \<and> i32_ok e"
  by (auto simp: span_is_def i32_ok_def INT32_MAX_def)

lemma i32_ok_minus1 [simp]: "i32_ok (-1)" by (simp add: i32_ok_def)

lemma kind_byte_le: "kind_byte k \<le> kind_byte OTHER"
  by (cases k) (simp_all add: kind_byte_def)

text \<open>A writer that has encoded \<open>mvs\<close> within the limits of the format, its structure and the view of it.\<close>

definition written :: "kmb2_writer \<Rightarrow> message_view list \<Rightarrow> bool" where
  "written w mvs \<longleftrightarrow> writer_ok w mvs \<and> length mvs < 2 ^ 32 \<and> length (w_parts w) < 2 ^ 32 \<and> length (w_calls w) < 2 ^ 32 \<and>
     (\<forall>mv\<in>set mvs. mv_role mv \<le> kRoleTool)"

definition w_structure :: "kmb2_writer \<Rightarrow> bytes" where "w_structure w = structure_of (w_msgs w) (w_parts w) (w_calls w)"
definition w_view :: "kmb2_writer \<Rightarrow> kmb2_view" where "w_view w = parsed_view (w_structure w) (w_history w)"

lemma record_tables_length: "length (concat (map enc_message ms)) = length ms * 32"
  "length (concat (map enc_part ps)) = length ps * 12" "length (concat (map enc_call cs)) = length cs * 24"
  by (rule length_concat_records, simp)+

lemma writtenD:
  assumes "written w mvs"
  shows "writer_ok w mvs" "length mvs < 2 ^ 32" "length (w_parts w) < 2 ^ 32" "length (w_calls w) < 2 ^ 32"
    "mv \<in> set mvs \<Longrightarrow> mv_role mv \<le> kRoleTool" "length (w_msgs w) = length mvs" "length (w_history w) \<le> INT32_MAX"
  using assms by (auto simp: written_def writer_ok_def dest: list_all2_lengthD)

lemma w_structure_length:
  "written w mvs \<Longrightarrow> length (w_structure w) = 32 + length mvs * 32 + length (w_parts w) * 12 + length (w_calls w) * 24"
  using writtenD(6) by (simp add: w_structure_def structure_of_def record_tables_length)

lemma w_header:
  assumes "written w mvs"
  shows "dec_w (block (w_structure w) 0 4) = kKmb2Magic" "dec_w (block (w_structure w) 4 4) = kKmb2Version"
    "dec_w (block (w_structure w) 8 4) = (of_nat (length mvs) :: 32 word)"
    "dec_w (block (w_structure w) 12 4) = (of_nat (length (w_parts w)) :: 32 word)"
    "dec_w (block (w_structure w) 16 4) = (of_nat (length (w_calls w)) :: 32 word)"
  using writtenD(6) [OF assms] by (simp_all add: w_structure_def structure_of_def enc_header_def block_def dec_enc_w)

lemma w_view_sel:
  assumes "written w mvs"
  shows "kv_structure (w_view w) = w_structure w" "kv_history (w_view w) = w_history w" "kv_message_table (w_view w) = 32"
    "kv_part_table (w_view w) = 32 + length mvs * 32" "kv_call_table (w_view w) = 32 + length mvs * 32 + length (w_parts w) * 12"
    "unat (kv_msg_count (w_view w)) = length mvs" "unat (kv_part_total (w_view w)) = length (w_parts w)"
    "unat (kv_call_total (w_view w)) = length (w_calls w)"
  using writtenD(2-4) [OF assms] by (simp_all add: w_view_def parsed_view_def w_header [OF assms] unat_of_nat32)

lemma message_at:
  assumes W: "written w mvs" and i: "i < length mvs"
  shows "view_message (w_view w) i = Some (Some (w_msgs w ! i))" "msg_rep (w_history w) (w_parts w) (w_calls w) (w_msgs w ! i) (mvs ! i)"
proof -
  note D = writtenD [OF W]
  show rep: "msg_rep (w_history w) (w_parts w) (w_calls w) (w_msgs w ! i) (mvs ! i)"
    using D(1,6) i by (auto simp: writer_ok_def list_all2_conv_all_nth)
  then have "i32_ok (mr_tcid_start (w_msgs w ! i))" "i32_ok (mr_tcid_end (w_msgs w ! i))"
    using span_is_i32 D(7) by (auto simp: msg_rep_def tcid_rep_def split: option.splits)
  moreover have "block (w_structure w) (32 + i * 32) 32 = enc_message (w_msgs w ! i)"
    unfolding w_structure_def structure_of_def by (rule block_concat) (use i D(6) in simp_all)
  ultimately show "view_message (w_view w) i = Some (Some (w_msgs w ! i))"
    using view_message_eq [of i "w_view w" "32 + i * 32"] i record_in_table [OF i, of 32 32 "length (w_structure w)"]
    unfolding w_view_sel [OF W] w_structure_length [OF W] by simp
qed

lemma part_at:
  assumes W: "written w mvs" and i: "i < length (w_parts w)"
  shows "view_part (w_view w) i = Some (Some (w_parts w ! i))" "\<exists>p. part_rep (w_history w) (w_parts w ! i) p"
proof -
  note D = writtenD [OF W]
  show "\<exists>p. part_rep (w_history w) (w_parts w ! i) p" using D(1) i nth_mem unfolding writer_ok_def by metis
  then have "i32_ok (pr_start (w_parts w ! i))" "i32_ok (pr_end (w_parts w ! i))"
    using span_is_i32 D(7) by (auto simp: part_rep_def)
  moreover have "block (w_structure w) (32 + length mvs * 32 + i * 12) 12 = enc_part (w_parts w ! i)"
  proof -
    let ?pre = "enc_header (of_nat (length (w_msgs w))) (of_nat (length (w_parts w))) (of_nat (length (w_calls w))) @ concat (map enc_message (w_msgs w))"
    have "block (?pre @ concat (map enc_part (w_parts w)) @ concat (map enc_call (w_calls w))) (32 + length mvs * 32 + i * 12) 12 = enc_part (w_parts w ! i)"
      by (rule block_concat) (use i D(6) record_tables_length in simp_all)
    then show ?thesis by (simp add: w_structure_def structure_of_def)
  qed
  ultimately show "view_part (w_view w) i = Some (Some (w_parts w ! i))"
    using view_part_eq [of i "w_view w" "32 + length mvs * 32 + i * 12"] i
      record_in_table [OF i, of "32 + length mvs * 32" 12 "length (w_structure w)"]
    unfolding w_view_sel [OF W] w_structure_length [OF W] by simp
qed

lemma call_at:
  assumes W: "written w mvs" and i: "i < length (w_calls w)"
  shows "view_call (w_view w) i = Some (Some (w_calls w ! i))" "\<exists>c. call_rep (w_history w) (w_calls w ! i) c"
proof -
  note D = writtenD [OF W]
  let ?r = "w_calls w ! i"
  show "\<exists>c. call_rep (w_history w) ?r c" using D(1) i nth_mem unfolding writer_ok_def by metis
  then have "i32_ok (cr_id_s ?r)" "i32_ok (cr_id_e ?r)" "i32_ok (cr_name_s ?r)" "i32_ok (cr_name_e ?r)" "i32_ok (cr_args_s ?r)" "i32_ok (cr_args_e ?r)"
    using span_is_i32 D(7) by (auto simp: call_rep_def split: option.splits)
  moreover have "block (w_structure w) (32 + length mvs * 32 + length (w_parts w) * 12 + i * 24) 24 = enc_call ?r"
  proof -
    let ?pre = "enc_header (of_nat (length (w_msgs w))) (of_nat (length (w_parts w))) (of_nat (length (w_calls w))) @
      concat (map enc_message (w_msgs w)) @ concat (map enc_part (w_parts w))"
    have "block (?pre @ concat (map enc_call (w_calls w)) @ []) (32 + length mvs * 32 + length (w_parts w) * 12 + i * 24) 24 = enc_call ?r"
      by (rule block_concat) (use i D(6) record_tables_length in simp_all)
    then show ?thesis by (simp add: w_structure_def structure_of_def)
  qed
  ultimately show "view_call (w_view w) i = Some (Some ?r)"
    using view_call_eq [of i "w_view w" "32 + length mvs * 32 + length (w_parts w) * 12 + i * 24"] i
      record_in_table [OF i, of "32 + length mvs * 32 + length (w_parts w) * 12" 24 "length (w_structure w)"]
    unfolding w_view_sel [OF W] w_structure_length [OF W] by simp
qed

lemma w_view_valid:
  assumes W: "written w mvs"
  shows "view_valid (w_view w)"
  unfolding view_valid_def w_view_sel [OF W]
proof (intro conjI allI impI)
  show "tables_ok (w_view w)" unfolding tables_ok_def w_view_sel [OF W] w_structure_length [OF W] by simp
  show "\<exists>p. view_part (w_view w) i = Some (Some p) \<and> part_valid (length (w_history w)) p" if i: "i < length (w_parts w)" for i
    using part_at [OF W i] span_is_le_ok kind_byte_le by (auto simp: part_rep_def part_valid_def)
  show "\<exists>c. view_call (w_view w) i = Some (Some c) \<and> call_valid (length (w_history w)) c" if i: "i < length (w_calls w)" for i
    using call_at [OF W i] span_is_le_ok by (auto simp: call_rep_def call_valid_def split: option.splits)
  show "\<exists>m. view_message (w_view w) i = Some (Some m) \<and> message_valid (w_view w) m" if i: "i < length mvs" for i
  proof -
    have "mv_role (mvs ! i) \<le> kRoleTool" using writtenD(5) [OF W] i by simp
    then show ?thesis using message_at [OF W i] span_is_le_ok
      unfolding message_valid_def w_view_sel [OF W] by (auto simp: msg_rep_def tcid_rep_def split: option.splits)
  qed
qed

lemma w_parse: "written w mvs \<Longrightarrow> kmb2_parse (w_structure w) (w_history w) = Some (Some (w_view w))"
  unfolding kmb2_parse_eq w_view_def [symmetric] using w_view_valid w_header(1,2) w_structure_length by simp

lemma decode_parts:
  assumes W: "written w mvs" and "list_all2 (part_rep (w_history w)) (block (w_parts w) k n) ps" "n = length ps" "k + n \<le> length (w_parts w)"
  shows "map (decode_part (w_view w)) [k..<k + n] = map (\<lambda>p. Some (kind_byte (pv_kind p), pv_text p)) ps"
proof (rule nth_equalityI)
  fix i assume "i < length (map (decode_part (w_view w)) [k..<k + n])"
  then have i: "i < n" by simp
  have "part_rep (w_history w) (w_parts w ! (k + i)) (ps ! i)"
    using assms(2-4) i list_all2_nthD [OF assms(2), of i] by (simp add: nth_block)
  then show "map (decode_part (w_view w)) [k..<k + n] ! i = map (\<lambda>p. Some (kind_byte (pv_kind p), pv_text p)) ps ! i"
    using i assms(3,4) part_at(1) [OF W, of "k + i"] view_span_is [of "w_view w"] w_view_sel(2) [OF W]
    by (auto simp: decode_part_def part_rep_def)
qed (use assms(3) in simp)

lemma decode_calls:
  assumes W: "written w mvs" and "list_all2 (call_rep (w_history w)) (block (w_calls w) k n) cs" "n = length cs" "k + n \<le> length (w_calls w)"
  shows "map (decode_call (w_view w)) [k..<k + n] = map (\<lambda>c. Some (tc_id c, tc_name c, tc_arguments c)) cs"
proof (rule nth_equalityI)
  fix i assume "i < length (map (decode_call (w_view w)) [k..<k + n])"
  then have i: "i < n" by simp
  have r: "call_rep (w_history w) (w_calls w ! (k + i)) (cs ! i)"
    using assms(2-4) i list_all2_nthD [OF assms(2), of i] by (simp add: nth_block)
  have "decode_call (w_view w) (k + i) = Some (tc_id (cs ! i), tc_name (cs ! i), tc_arguments (cs ! i))"
    using r i assms(3,4) call_at(1) [OF W, of "k + i"] view_span_is [of "w_view w"] w_view_sel(2) [OF W]
    by (cases "tc_arguments (cs ! i)") (auto simp: decode_call_def call_rep_def view_span_def span_is_def)
  then show "map (decode_call (w_view w)) [k..<k + n] ! i = map (\<lambda>c. Some (tc_id c, tc_name c, tc_arguments c)) cs ! i"
    using i assms(3) by simp
qed (use assms(3) in simp)

lemma w_decode:
  assumes W: "written w mvs" and i: "i < length mvs"
  shows "decode_message (w_view w) i = Some (contents (mvs ! i))"
proof -
  let ?m = "w_msgs w ! i" and ?mv = "mvs ! i"
  note rep = message_at(2) [OF W i, unfolded msg_rep_def]
  have t: "\<exists>t. view_span (w_view w) (mr_tcid_start ?m) (mr_tcid_end ?m) = Some t \<and>
     (if mr_flags ?m AND kKmb2MsgHasToolCallId \<noteq> 0 then Some t else None) = mv_tool_call_id ?mv"
    using rep view_span_is [of "w_view w"] w_view_sel(2) [OF W]
    by (cases "mv_tool_call_id ?mv") (auto simp: tcid_rep_def view_span_def)
  have ps: "map (decode_part (w_view w)) [unat (mr_part_first ?m) ..< unat (mr_part_first ?m) + unat (mr_part_count ?m)] =
      map (\<lambda>p. Some (kind_byte (pv_kind p), pv_text p)) (mv_parts ?mv)"
    using decode_parts [OF W, of "unat (mr_part_first ?m)" "length (mv_parts ?mv)" "mv_parts ?mv"] rep by simp
  have cs: "map (decode_call (w_view w)) [unat (mr_call_first ?m) ..< unat (mr_call_first ?m) + unat (mr_call_count ?m)] =
      map (\<lambda>c. Some (tc_id c, tc_name c, tc_arguments c)) (mv_tool_calls ?mv)"
    using decode_calls [OF W, of "unat (mr_call_first ?m)" "length (mv_tool_calls ?mv)" "mv_tool_calls ?mv"] rep by simp
  have "mr_role ?m = mv_role ?mv" using rep by simp
  then show ?thesis using t unfolding decode_message_def message_at(1) [OF W i] bind.bind_lunit ps cs contents_def by auto
qed

lemma build_parse_ok:
  assumes "length msgs < 2 ^ 32" "sum_list (map (length \<circ> mv_parts) msgs) < 2 ^ 32" "sum_list (map (length \<circ> mv_tool_calls) msgs) < 2 ^ 32"
    "sum_list (map message_size msgs) \<le> INT32_MAX" "\<forall>mv\<in>set msgs. mv_role mv \<le> kRoleTool"
  shows "\<exists>s hist v. kmb2_build msgs = Some (s, hist) \<and> kmb2_parse s hist = Some (Some v) \<and>
     unat (kv_msg_count v) = length msgs \<and> (\<forall>i<length msgs. decode_message v i = Some (contents (msgs ! i)))"
proof -
  have "writer_ok (kmb2_writer_new []) []" by (simp add: writer_ok_def kmb2_writer_new_def)
  from encode_all_ok [OF this, of msgs] assms(2-4)
  obtain w where w: "fold (\<lambda>mv w. kmb2_encode_message w mv) msgs (kmb2_writer_new []) = w" "writer_ok w msgs"
    "length (w_parts w) < 2 ^ 32" "length (w_calls w) < 2 ^ 32"
    by (auto simp: kmb2_writer_new_def)
  then have W: "written w msgs" using assms(1,5) by (simp add: written_def)
  have "kmb2_finish w [] = Some (w_structure w)" unfolding w_structure_def using finish_eq w(3,4) writtenD(2,6) [OF W] by simp
  then have "kmb2_build msgs = Some (w_structure w, w_history w)" by (simp add: kmb2_build_def w(1))
  then show ?thesis using w_parse [OF W] w_view_sel(6) [OF W] w_decode [OF W] by blast
qed

section \<open>Properties\<close>

text \<open>
  Property C9.
  A history within the limits of the format (roles 0 to 3, fewer than \<open>2 ^ 32\<close> messages, parts and calls, at most
  \<^verbatim>\<open>INT32_MAX\<close> bytes of text) survives the packed form: \<^verbatim>\<open>kmb2_build\<close> succeeds, \<^verbatim>\<open>kmb2_parse\<close> accepts the pair, and
  reading the view gives back every message with its role, tool call id, parts and calls, absent ids and
  arguments included.
\<close>

theorem kmb2_round_trip:
  assumes "length msgs < 2 ^ 32" "sum_list (map (length \<circ> mv_parts) msgs) < 2 ^ 32" "sum_list (map (length \<circ> mv_tool_calls) msgs) < 2 ^ 32"
    "sum_list (map message_size msgs) \<le> INT32_MAX" "\<forall>mv\<in>set msgs. mv_role mv \<le> kRoleTool"
  shows "\<exists>s hist v. kmb2_build msgs = Some (s, hist) \<and> kmb2_parse s hist = Some (Some v) \<and>
     unat (kv_msg_count v) = length msgs \<and> (\<forall>i<length msgs. decode_message v i = Some (contents (msgs ! i)))"
  by (rule build_parse_ok [OF assms])

theorem kmb2_round_trip_witness:
  "let mv = \<lparr>mv_role = 2, mv_tool_call_id = None, mv_parts = [\<lparr>pv_kind = THINK, pv_text = [104, 105]\<rparr>],
      mv_tool_calls = [\<lparr>tc_id = [49], tc_name = [108, 115], tc_arguments = Some []\<rparr>]\<rparr>
   in \<exists>s hist v. kmb2_build [mv] = Some (s, hist) \<and> kmb2_parse s hist = Some (Some v) \<and> decode_message v 0 = Some (contents mv)"
  unfolding Let_def
  using kmb2_round_trip [of "[\<lparr>mv_role = 2, mv_tool_call_id = None, mv_parts = [\<lparr>pv_kind = THINK, pv_text = [104, 105]\<rparr>],
      mv_tool_calls = [\<lparr>tc_id = [49], tc_name = [108, 115], tc_arguments = Some []\<rparr>]\<rparr>]"]
  by (auto simp: message_size_def args_size_def INT32_MAX_def kRoleTool_def)

text \<open>
  Property C16.
  \<^verbatim>\<open>kmb2_parse\<close> never reads outside the structure, whatever the two byte strings are; and if it accepts them, every
  record of the three tables can be read, every span the records refer to (the text of a part, the
  id, the name and the arguments of a call, the tool call id of a message, the latter two unless
  absent) lies inside the history, and the ranges of every message lie inside the part and call
  tables.
\<close>

theorem kmb2_parse_safe:
  "kmb2_parse s hist \<noteq> None \<and>
   (\<forall>v. kmb2_parse s hist = Some (Some v) \<longrightarrow> kv_history v = hist \<and>
      (\<forall>i<unat (kv_part_total v). \<exists>p. view_part v i = Some (Some p) \<and>
         le_span_ok (pr_start p) (pr_end p) (length hist) \<and> pr_kind p \<le> kind_byte OTHER) \<and>
      (\<forall>i<unat (kv_call_total v). \<exists>c. view_call v i = Some (Some c) \<and>
         le_span_ok (cr_id_s c) (cr_id_e c) (length hist) \<and> le_span_ok (cr_name_s c) (cr_name_e c) (length hist) \<and>
         (cr_args_s c < 0 \<or> le_span_ok (cr_args_s c) (cr_args_e c) (length hist))) \<and>
      (\<forall>i<unat (kv_msg_count v). \<exists>m. view_message v i = Some (Some m) \<and> mr_role m \<le> kRoleTool \<and>
         (if mr_flags m AND kKmb2MsgHasToolCallId \<noteq> 0 then le_span_ok (mr_tcid_start m) (mr_tcid_end m) (length hist)
          else mr_tcid_start m = -1 \<and> mr_tcid_end m = -1) \<and>
         unat (mr_part_first m) + unat (mr_part_count m) \<le> unat (kv_part_total v) \<and>
         unat (mr_call_first m) + unat (mr_call_count m) \<le> unat (kv_call_total v)) \<and>
      (\<forall>a b. le_span_ok a b (length hist) \<longrightarrow> view_span v a b = Some (block hist (nat a) (nat (b - a)))))"
proof -
  have "kv_history v = hist" "view_valid v" if "kmb2_parse s hist = Some (Some v)" for v
    using that unfolding kmb2_parse_eq by (auto simp: parsed_view_def Let_def split: if_splits)
  moreover have "view_span v a b = Some (block (kv_history v) (nat a) (nat (b - a)))" if "le_span_ok a b (length (kv_history v))" for v a b
    using that by (auto simp: view_span_def le_span_ok_def)
  moreover have "kmb2_parse s hist \<noteq> None" unfolding kmb2_parse_eq by simp
  ultimately show ?thesis
    unfolding view_valid_def part_valid_def call_valid_def message_valid_def not_less [symmetric] by blast
qed

theorem kmb2_parse_safe_witness:
  "\<exists>s hist v m. kmb2_build [\<lparr>mv_role = 3, mv_tool_call_id = Some [7], mv_parts = [], mv_tool_calls = []\<rparr>] = Some (s, hist) \<and>
     kmb2_parse s hist = Some (Some v) \<and> view_message v 0 = Some (Some m) \<and> mr_role m \<le> kRoleTool"
proof -
  obtain s hist v where b: "kmb2_build [\<lparr>mv_role = 3, mv_tool_call_id = Some [7], mv_parts = [], mv_tool_calls = []\<rparr>] = Some (s, hist)"
     "kmb2_parse s hist = Some (Some v)" "unat (kv_msg_count v) = 1"
    using build_parse_ok [of "[\<lparr>mv_role = 3, mv_tool_call_id = Some [7], mv_parts = [], mv_tool_calls = []\<rparr>]"]
    by (auto simp: message_size_def args_size_def INT32_MAX_def kRoleTool_def)
  then show ?thesis using kmb2_parse_safe [of s hist] by (metis zero_less_one)
qed

text \<open>
  Property C38.
  Arguments that no longer fit the history are dropped without a trace: the record of the call is the one of a call
  without arguments, and \<^verbatim>\<open>kmb2_finish\<close> does not look at the overflow flag the writer has set, so
  both writers produce the same structure. (\<^verbatim>\<open>put\<close> reads the flag when a later view is empty.)
\<close>

theorem kmb2_args_overflow_dropped:
  assumes "args \<noteq> []" "\<not> w_overflow w" "length (w_history w) + length i + length n \<le> INT32_MAX"
    "INT32_MAX < length (w_history w) + length i + length n + length args"
  shows "w_calls (add_calls w [\<lparr>tc_id = i, tc_name = n, tc_arguments = Some args\<rparr>]) =
         w_calls (add_calls w [\<lparr>tc_id = i, tc_name = n, tc_arguments = None\<rparr>]) \<and>
     kmb2_finish (add_calls w [\<lparr>tc_id = i, tc_name = n, tc_arguments = Some args\<rparr>]) s =
         kmb2_finish (add_calls w [\<lparr>tc_id = i, tc_name = n, tc_arguments = None\<rparr>]) s"
proof -
  have p: "kmb2_put (w\<lparr>w_history := (w_history w @ i) @ n\<rparr>) args = (-1, w\<lparr>w_history := (w_history w @ i) @ n, w_overflow := True\<rparr>)"
    using assms by (simp add: kmb2_put_def)
  have 1: "kmb2_put w i = (int (length (w_history w)), w\<lparr>w_history := w_history w @ i\<rparr>)" using kmb2_put_ok [of w i] assms by simp
  have 2: "kmb2_put (w\<lparr>w_history := w_history w @ i\<rparr>) n =
     (int (length (w_history w @ i)), w\<lparr>w_history := (w_history w @ i) @ n\<rparr>)"
    using kmb2_put_ok [of "w\<lparr>w_history := w_history w @ i\<rparr>" n] assms by simp
  let ?a = "add_calls w [\<lparr>tc_id = i, tc_name = n, tc_arguments = Some args\<rparr>]"
  let ?b = "add_calls w [\<lparr>tc_id = i, tc_name = n, tc_arguments = None\<rparr>]"
  have "w_calls ?a = w_calls ?b" "w_parts ?a = w_parts ?b" "w_msgs ?a = w_msgs ?b"
    using 1 2 p by (simp_all add: put_args_def span_end_def)
  then show ?thesis by (simp only: kmb2_finish_def)
qed

theorem kmb2_args_overflow_dropped_witness:
  "\<exists>w. w_calls (add_calls w [\<lparr>tc_id = [1], tc_name = [2], tc_arguments = Some [3]\<rparr>]) =
       w_calls (add_calls w [\<lparr>tc_id = [1], tc_name = [2], tc_arguments = None\<rparr>])"
  using kmb2_args_overflow_dropped [of "[3]" "kmb2_writer_new (replicate (2 ^ 31 - 3) 0)" "[1]" "[2]"]
  by (intro exI [of _ "kmb2_writer_new (replicate (2 ^ 31 - 3) 0)"]) (simp add: kmb2_writer_new_def INT32_MAX_def)

end
