(* ===== verification/Binary_Search.thy ===== *)
theory Binary_Search
  imports Prelude
begin

text \<open>
  The binary search that \<^verbatim>\<open>src/core/lmdb/midl.c\<close> spells out three times
  (\<^verbatim>\<open>mdb_midl_search\<close>, \<^verbatim>\<open>mdb_mid2l_search\<close>, \<^verbatim>\<open>mdb_mid3l_search\<close>). The three bodies
  differ only in how they compare the probed element with the key, so the loop is
  defined once over a probing function, and its contract is the locale
  \<open>probed_array\<close>: an array of \<open>count a\<close> elements whose probes are positive, then
  zero at most once, then negative.
\<close>

definition CMP :: "'a::linorder \<Rightarrow> 'a \<Rightarrow> int" where
  "CMP x y = (if x < y then -1 else if x > y then 1 else 0)"

lemma CMP_sign [simp]:
  "CMP x y < 0 \<longleftrightarrow> x < y" "0 < CMP x y \<longleftrightarrow> y < x" "CMP x y = 0 \<longleftrightarrow> x = y"
  by (auto simp: CMP_def)

text \<open>
  \<open>search_loop probe base cursor val n\<close> is the \<^verbatim>\<open>while (0 < n)\<close> loop together with the
  adjustment of the cursor after it; \<open>None\<close> is a probe outside the array.
\<close>

function search_loop :: "(nat \<Rightarrow> int option) \<Rightarrow> nat \<Rightarrow> nat \<Rightarrow> int \<Rightarrow> nat \<Rightarrow> nat option" where
  "search_loop probe base cursor val n =
     (if 0 < n then
        (let pivot = n div 2; cur = u32 (base + pivot + 1) in
         case probe cur of
           None \<Rightarrow> None
         | Some v \<Rightarrow>
             if v < 0 then search_loop probe base cur v pivot
             else if 0 < v then search_loop probe cur cur v (n - (pivot + 1))
             else Some cur)
      else Some (if 0 < val then u32 (cursor + 1) else cursor))"
  by pat_completeness auto
termination
  by (relation "measure (\<lambda>(probe, base, cursor, val, n). n)") auto

declare search_loop.simps [simp del]

text \<open>The result of a search: a hit, or the position where the probes change sign.\<close>

definition search_result :: "(nat \<Rightarrow> int option) \<Rightarrow> nat \<Rightarrow> nat \<Rightarrow> bool" where
  "search_result probe n0 r \<longleftrightarrow>
     1 \<le> r \<and> r \<le> n0 + 1 \<and>
     (r \<le> n0 \<and> probe r = Some 0 \<or>
      (\<forall>c. 1 \<le> c \<and> c < r \<longrightarrow> (\<exists>v. probe c = Some v \<and> 0 < v)) \<and>
      (\<forall>c. r \<le> c \<and> c \<le> n0 \<longrightarrow> (\<exists>v. probe c = Some v \<and> v < 0)))"

locale probed_array =
  fixes probe :: "'a \<Rightarrow> 'k \<Rightarrow> nat \<Rightarrow> int option"
    and count :: "'a \<Rightarrow> nat"
    and wf :: "'a \<Rightarrow> bool"
  assumes count_bound: "wf a \<Longrightarrow> count a + 1 < 2 ^ 32"
    and probe_defined: "wf a \<Longrightarrow> 1 \<le> c \<Longrightarrow> c \<le> count a \<Longrightarrow> probe a k c \<noteq> None"
    and probe_pos_before:
      "wf a \<Longrightarrow> 1 \<le> c \<Longrightarrow> c < d \<Longrightarrow> d \<le> count a \<Longrightarrow> probe a k d = Some w \<Longrightarrow> 0 \<le> w \<Longrightarrow>
       \<exists>v. probe a k c = Some v \<and> 0 < v"
    and probe_neg_after:
      "wf a \<Longrightarrow> 1 \<le> c \<Longrightarrow> c < d \<Longrightarrow> d \<le> count a \<Longrightarrow> probe a k c = Some v \<Longrightarrow> v \<le> 0 \<Longrightarrow>
       \<exists>w. probe a k d = Some w \<and> w < 0"
begin

text \<open>
  The loop invariant: everything up to \<open>base\<close> is positive, everything after
  \<open>base + n\<close> is negative, and the pair of \<open>cursor\<close> and \<open>val\<close> is adjusted to
  \<open>base + 1\<close> when the window is empty.
\<close>

lemma search_loop_result:
  assumes "wf a" and "base + n \<le> count a"
    and "\<And>c. 1 \<le> c \<Longrightarrow> c \<le> base \<Longrightarrow> \<exists>v. probe a k c = Some v \<and> 0 < v"
    and "\<And>c. base + n < c \<Longrightarrow> c \<le> count a \<Longrightarrow> \<exists>v. probe a k c = Some v \<and> v < 0"
    and "n = 0 \<Longrightarrow> (if 0 < val then cursor + 1 else cursor) = base + 1"
  shows "\<exists>r. search_loop (probe a k) base cursor val n = Some r \<and>
             search_result (probe a k) (count a) r"
  using assms
proof (induction n arbitrary: base cursor val rule: less_induct)
  case (less n)
  note small = count_bound [OF less.prems(1)]
  show ?case
  proof (cases "n = 0")
    case True
    have r: "search_loop (probe a k) base cursor val n = Some (base + 1)"
      using True less.prems(2,5) small
      by (subst search_loop.simps) (auto simp: u32_id split: if_splits)
    moreover have "search_result (probe a k) (count a) (base + 1)"
      using less.prems True unfolding search_result_def by force
    ultimately show ?thesis by blast
  next
    case False
    let ?p = "n div 2" and ?c = "base + n div 2 + 1"
    have lt: "?p < n" using False by simp
    have c: "1 \<le> ?c" "?c \<le> count a" using lt less.prems(2) by auto
    have cur: "u32 ?c = ?c" using c(2) small by (simp add: u32_id)
    obtain v where v: "probe a k ?c = Some v"
      using probe_defined [OF less.prems(1) c] by blast
    have unf: "search_loop (probe a k) base cursor val n =
        (if v < 0 then search_loop (probe a k) base ?c v ?p
         else if 0 < v then search_loop (probe a k) ?c ?c v (n - (?p + 1))
         else Some ?c)"
      using False v cur by (subst search_loop.simps) (simp add: Let_def)
    consider "v < 0" | "0 < v" | "v = 0" by linarith
    then show ?thesis
    proof cases
      case 1
      have "\<exists>r. search_loop (probe a k) base ?c v ?p = Some r \<and>
                search_result (probe a k) (count a) r"
      proof (rule less.IH [OF lt less.prems(1) _ less.prems(3)])
        show "base + ?p \<le> count a" using c(2) by simp
        show "\<exists>v. probe a k c = Some v \<and> v < 0" if "base + ?p < c" "c \<le> count a" for c
        proof (cases "c = ?c")
          case False
          with that have "?c < c" by simp
          then show ?thesis using probe_neg_after [OF less.prems(1) c(1) _ that(2) v] 1 by simp
        qed (use v 1 in simp)
        show "(if 0 < v then ?c + 1 else ?c) = base + 1" if "?p = 0" using that 1 by simp
      qed
      then show ?thesis using unf 1 by simp
    next
      case 2
      have "\<exists>r. search_loop (probe a k) ?c ?c v (n - (?p + 1)) = Some r \<and>
                search_result (probe a k) (count a) r"
      proof (rule less.IH [OF _ less.prems(1)])
        show "n - (?p + 1) < n" using False by simp
        have sum: "?c + (n - (?p + 1)) = base + n" using lt by simp
        show "?c + (n - (?p + 1)) \<le> count a" using sum less.prems(2) by simp
        show "\<exists>v. probe a k c = Some v \<and> 0 < v" if "1 \<le> c" "c \<le> ?c" for c
        proof (cases "c = ?c")
          case False
          with that have "c < ?c" by simp
          then show ?thesis using probe_pos_before [OF less.prems(1) that(1) _ c(2) v] 2 by simp
        qed (use v 2 in simp)
        show "\<exists>v. probe a k c = Some v \<and> v < 0"
          if "?c + (n - (?p + 1)) < c" "c \<le> count a" for c
          using less.prems(4) that sum by simp
        show "(if 0 < v then ?c + 1 else ?c) = ?c + 1" using 2 by simp
      qed
      then show ?thesis using unf 2 by simp
    next
      case 3
      then show ?thesis using unf v c by (auto simp: search_result_def)
    qed
  qed
qed

text \<open>The search as the callers start it: \<open>base = 0\<close>, \<open>cursor = 1\<close>, \<open>val = 0\<close>.\<close>

lemma search_total:
  assumes "wf a"
  shows "\<exists>r. search_loop (probe a k) 0 1 0 (count a) = Some r \<and>
             search_result (probe a k) (count a) r"
  by (rule search_loop_result) (use assms in auto)

lemma search_hit:
  assumes "wf a" and "1 \<le> c" and "c \<le> count a" and "probe a k c = Some 0"
  shows "search_loop (probe a k) 0 1 0 (count a) = Some c"
proof -
  obtain r where r: "search_loop (probe a k) 0 1 0 (count a) = Some r"
    and res: "search_result (probe a k) (count a) r"
    using search_total [OF assms(1)] by blast
  have "r = c"
  proof (rule ccontr)
    assume ne: "r \<noteq> c"
    from res consider (hit) "r \<le> count a" "1 \<le> r" "probe a k r = Some 0"
      | (miss) "\<And>c. 1 \<le> c \<Longrightarrow> c < r \<Longrightarrow> \<exists>v. probe a k c = Some v \<and> 0 < v"
               "\<And>c. r \<le> c \<Longrightarrow> c \<le> count a \<Longrightarrow> \<exists>v. probe a k c = Some v \<and> v < 0"
      unfolding search_result_def by blast
    then show False
    proof cases
      case hit
      from ne consider "r < c" | "c < r" by linarith
      then show False
      proof cases
        case 1
        then show False using probe_neg_after [OF assms(1) hit(2) _ assms(3) hit(3)] assms(4) by auto
      next
        case 2
        then show False using probe_neg_after [OF assms(1,2) _ hit(1) assms(4)] hit(3) by auto
      qed
    next
      case miss
      show False using miss(1) [of c] miss(2) [of c] assms(2-4) by (cases "c < r") auto
    qed
  qed
  with r show ?thesis by simp
qed

end

end
