(* ===== verification/Midl.thy ===== *)
theory Midl
  imports Binary_Search
begin

text \<open>
  The ID lists of \<^verbatim>\<open>src/core/lmdb/midl.h\<close> and \<^verbatim>\<open>midl.c\<close>: the lists of free,
  loose and spilled page numbers of the storage engine. An \<^verbatim>\<open>MDB_IDL\<close> points into an
  allocated array: cell 0 counts the IDs, the cells after it hold them in descending
  order, and the cell before it (\<^verbatim>\<open>ids[-1]\<close>) records how many IDs the allocation has room
  for. The record \<open>midl\<close> keeps that hidden cell as \<open>alloc_len\<close> and the rest as the
  list \<open>ids\<close>. Allocation can fail and leaves new cells uninitialised: both are parameters
  (\<open>ok\<close> and \<open>junk\<close>) of the operations that allocate. \<open>None\<close> is an access outside the
  allocation.
\<close>

section \<open>Data\<close>

type_synonym mdb_id = "64 word"
type_synonym idl = "64 word list"

record midl =
  alloc_len :: mdb_id
  ids :: idl

definition MDB_IDL_LOGN :: nat where "MDB_IDL_LOGN = 16"
definition MDB_IDL_UM_MAX :: nat where "MDB_IDL_UM_MAX = 2 ^ (MDB_IDL_LOGN + 1) - 1"
definition ENOMEM :: int where "ENOMEM = 12"

lemma MDB_IDL_UM_MAX_eq [simp]: "MDB_IDL_UM_MAX = 131071"
  by (simp add: MDB_IDL_UM_MAX_def MDB_IDL_LOGN_def)

text \<open>The IDs an array holds: as many cells after cell 0 as cell 0 says.\<close>

definition elems :: "idl \<Rightarrow> mdb_id list" where
  "elems xs = take (unat (xs ! 0)) (tl xs)"

definition idl_wf :: "idl \<Rightarrow> bool" where
  "idl_wf xs \<longleftrightarrow> xs \<noteq> [] \<and> unat (xs ! 0) < length xs"

definition idl_sorted :: "idl \<Rightarrow> bool" where
  "idl_sorted xs \<longleftrightarrow> idl_wf xs \<and> sorted_wrt (>) (elems xs) \<and> unat (xs ! 0) + 1 < 2 ^ 32"

definition midl_ok :: "midl \<Rightarrow> bool" where
  "midl_ok m \<longleftrightarrow> length (ids m) = unat (alloc_len m) + 1 \<and> idl_wf (ids m)"

lemmas midl_inv_defs [inv_defs] = idl_wf_def idl_sorted_def midl_ok_def

section \<open>Searching\<close>

definition mdb_midl_probe :: "idl \<Rightarrow> mdb_id \<Rightarrow> nat \<Rightarrow> int option" where
  "mdb_midl_probe xs i c = map_option (\<lambda>x. CMP x i) (rd xs c)"

definition mdb_midl_search :: "idl \<Rightarrow> mdb_id \<Rightarrow> nat option" where
  "mdb_midl_search xs i =
     do { n \<leftarrow> rd xs 0; search_loop (mdb_midl_probe xs i) 0 1 0 (u32 (unat n)) }"

section \<open>Allocation and growth\<close>

text \<open>
  \<^verbatim>\<open>realloc (p, k * sizeof (MDB_ID))\<close>: the byte count wraps at 64 bits, the cells kept are
  those that fit, and the cells beyond the old size hold \<open>junk\<close>.
\<close>

definition realloc_cells :: "bool \<Rightarrow> (nat \<Rightarrow> 'a) \<Rightarrow> 'a list \<Rightarrow> nat \<Rightarrow> nat \<Rightarrow> 'a list option" where
  "realloc_cells ok junk xs sz k =
     (if ok then (let n = u64 (k * sz) div sz in Some (take n xs @ map junk [length xs..<n]))
      else None)"

text \<open>
  The array passed to \<^verbatim>\<open>realloc\<close> starts at \<^verbatim>\<open>ids[-1]\<close>; its first cell is overwritten with
  the new capacity, so the model reallocates \<open>alloc_len # ids\<close> and drops that cell.
\<close>

definition realloc_ids :: "bool \<Rightarrow> (nat \<Rightarrow> mdb_id) \<Rightarrow> midl \<Rightarrow> nat \<Rightarrow> mdb_id \<Rightarrow> midl option" where
  "realloc_ids ok junk m k cap =
     map_option (\<lambda>cells. m\<lparr>alloc_len := cap, ids := tl cells\<rparr>)
       (realloc_cells ok junk (alloc_len m # ids m) 8 k)"

definition mdb_midl_alloc :: "bool \<Rightarrow> (nat \<Rightarrow> mdb_id) \<Rightarrow> 31 word \<Rightarrow> midl option" where
  "mdb_midl_alloc ok junk num =
     (if ok then Some \<lparr>alloc_len = ucast num, ids = 0 # map junk [2..<unat num + 2]\<rparr> else None)"

definition mdb_midl_shrink :: "bool \<Rightarrow> (nat \<Rightarrow> mdb_id) \<Rightarrow> midl \<Rightarrow> midl" where
  "mdb_midl_shrink ok junk m =
     (if MDB_IDL_UM_MAX < unat (alloc_len m)
      then (case realloc_ids ok junk m (MDB_IDL_UM_MAX + 2) (of_nat MDB_IDL_UM_MAX) of
              None \<Rightarrow> m | Some m' \<Rightarrow> m')
      else m)"

definition mdb_midl_grow :: "bool \<Rightarrow> (nat \<Rightarrow> mdb_id) \<Rightarrow> midl \<Rightarrow> 32 word \<Rightarrow> int \<times> midl" where
  "mdb_midl_grow ok junk m num =
     (let cap = alloc_len m + scast num in
      case realloc_ids ok junk m (unat (cap + 2)) cap of
        None \<Rightarrow> (ENOMEM, m)
      | Some m' \<Rightarrow> (0, m'))"

definition mdb_midl_need :: "bool \<Rightarrow> (nat \<Rightarrow> mdb_id) \<Rightarrow> midl \<Rightarrow> nat \<Rightarrow> (int \<times> midl) option" where
  "mdb_midl_need ok junk m num0 =
     do {
       cnt \<leftarrow> rd (ids m) 0;
       let num = u32 (num0 + unat cnt);
       if unat (alloc_len m) < num
       then (let num' = u32 (num + num div 4 + (256 + 2)) div 256 * 256 in
             case realloc_ids ok junk m num' (of_nat (u32 (num' + 2 ^ 32 - 2))) of
               None \<Rightarrow> Some (ENOMEM, m)
             | Some m' \<Rightarrow> Some (0, m'))
       else Some (0, m)
     }"

section \<open>Appending\<close>

definition mdb_midl_xappend :: "idl \<Rightarrow> mdb_id \<Rightarrow> idl option" where
  "mdb_midl_xappend xs i =
     do { n \<leftarrow> rd xs 0; xs \<leftarrow> wr xs 0 (n + 1); wr xs (unat (n + 1)) i }"

definition mdb_midl_append :: "bool \<Rightarrow> (nat \<Rightarrow> mdb_id) \<Rightarrow> midl \<Rightarrow> mdb_id \<Rightarrow> (int \<times> midl) option" where
  "mdb_midl_append ok junk m i =
     do {
       n \<leftarrow> rd (ids m) 0;
       let (rc, m) = (if alloc_len m \<le> n
                      then mdb_midl_grow ok junk m (of_nat MDB_IDL_UM_MAX) else (0, m));
       if rc \<noteq> 0 then Some (ENOMEM, m)
       else do {
         n \<leftarrow> rd (ids m) 0;
         xs \<leftarrow> wr (ids m) 0 (n + 1);
         xs \<leftarrow> wr xs (unat (n + 1)) i;
         Some (0, m\<lparr>ids := xs\<rparr>)
       }
     }"

definition mdb_midl_append_list :: "bool \<Rightarrow> (nat \<Rightarrow> mdb_id) \<Rightarrow> midl \<Rightarrow> idl \<Rightarrow> (int \<times> midl) option" where
  "mdb_midl_append_list ok junk m app =
     do {
       n \<leftarrow> rd (ids m) 0;
       a \<leftarrow> rd app 0;
       let (rc, m) = (if alloc_len m \<le> n + a
                      then mdb_midl_grow ok junk m (ucast a) else (0, m));
       if rc \<noteq> 0 then Some (ENOMEM, m)
       else do {
         n \<leftarrow> rd (ids m) 0;
         xs \<leftarrow> memcpy (ids m) (unat (n + 1)) app 1 (unat a);
         xs \<leftarrow> wr xs 0 (n + a);
         Some (0, m\<lparr>ids := xs\<rparr>)
       }
     }"

text \<open>The fill loop \<^verbatim>\<open>while (n) ids[n--] = id++\<close>, with \<open>ids\<close> advanced by \<open>len\<close>.\<close>

fun append_range_fill :: "idl \<Rightarrow> nat \<Rightarrow> mdb_id \<Rightarrow> nat \<Rightarrow> idl option" where
  "append_range_fill xs len i 0 = Some xs"
| "append_range_fill xs len i (Suc n) =
     do { xs \<leftarrow> wr xs (len + Suc n) i; append_range_fill xs len (i + 1) n }"

definition mdb_midl_append_range :: "bool \<Rightarrow> (nat \<Rightarrow> mdb_id) \<Rightarrow> midl \<Rightarrow> mdb_id \<Rightarrow> 32 word \<Rightarrow> (int \<times> midl) option" where
  "mdb_midl_append_range ok junk m i n =
     do {
       len \<leftarrow> rd (ids m) 0;
       let (rc, m) = (if alloc_len m < len + ucast n
                      then mdb_midl_grow ok junk m (or n (of_nat MDB_IDL_UM_MAX)) else (0, m));
       if rc \<noteq> 0 then Some (ENOMEM, m)
       else do {
         xs \<leftarrow> wr (ids m) 0 (len + ucast n);
         xs \<leftarrow> append_range_fill xs (unat len) i (unat n);
         Some (0, m\<lparr>ids := xs\<rparr>)
       }
     }"

section \<open>Merging two sorted lists in place\<close>

text \<open>
  \<open>xmerge_scan\<close> is the inner \<^verbatim>\<open>for (; old_id < merge_id; old_id = idl[--j]) idl[k--] = old_id\<close>,
  \<open>xmerge_loop\<close> the outer \<^verbatim>\<open>while (i)\<close>. The counters are \<^verbatim>\<open>MDB_ID\<close>s; decrementing 0 wraps.
\<close>

definition dec64 :: "nat \<Rightarrow> nat" where
  "dec64 n = (if n = 0 then 2 ^ 64 - 1 else n - 1)"

partial_function (option) xmerge_scan ::
  "idl \<Rightarrow> mdb_id \<Rightarrow> mdb_id \<Rightarrow> nat \<Rightarrow> nat \<Rightarrow> (idl \<times> mdb_id \<times> nat \<times> nat) option" where
  "xmerge_scan xs old_id merge_id j k =
     (if old_id < merge_id
      then do {
        xs \<leftarrow> wr xs k old_id;
        old_id \<leftarrow> rd xs (dec64 j);
        xmerge_scan xs old_id merge_id (dec64 j) (dec64 k)
      }
      else Some (xs, old_id, j, k))"

fun xmerge_loop :: "idl \<Rightarrow> idl \<Rightarrow> mdb_id \<Rightarrow> nat \<Rightarrow> nat \<Rightarrow> nat \<Rightarrow> idl option" where
  "xmerge_loop merge xs old_id j k 0 = Some xs"
| "xmerge_loop merge xs old_id j k (Suc i) =
     do {
       merge_id \<leftarrow> rd merge (Suc i);
       (xs, old_id, j, k) \<leftarrow> xmerge_scan xs old_id merge_id j k;
       xs \<leftarrow> wr xs k merge_id;
       xmerge_loop merge xs old_id j (dec64 k) i
     }"

definition mdb_midl_xmerge :: "idl \<Rightarrow> idl \<Rightarrow> idl option" where
  "mdb_midl_xmerge xs merge =
     do {
       i \<leftarrow> rd merge 0;
       j \<leftarrow> rd xs 0;
       let total = i + j;
       xs \<leftarrow> wr xs 0 (- 1);
       old_id \<leftarrow> rd xs (unat j);
       xs \<leftarrow> xmerge_loop merge xs old_id (unat j) (unat total) (unat i);
       wr xs 0 total
     }"

section \<open>The search contract on the two array shapes\<close>

lemma length_elems [simp]: "idl_wf xs \<Longrightarrow> length (elems xs) = unat (xs ! 0)"
  by (auto simp: elems_def idl_wf_def)

lemma idl_sorted_less:
  "idl_sorted xs \<Longrightarrow> 1 \<le> c \<Longrightarrow> c < d \<Longrightarrow> d \<le> unat (xs ! 0) \<Longrightarrow> xs ! d < xs ! c"
  unfolding idl_sorted_def idl_wf_def elems_def by (blast dest: sorted_wrt_take_tl_nth)

interpretation midl_probe: probed_array mdb_midl_probe "\<lambda>xs. unat (xs ! 0)" idl_sorted
proof
  fix a :: idl and k :: mdb_id and c d :: nat and v w :: int
  assume wf: "idl_sorted a"
  then have len: "unat (a ! 0) < length a" by (simp add: idl_sorted_def idl_wf_def)
  show "unat (a ! 0) + 1 < 2 ^ 32" using wf by (simp add: idl_sorted_def)
  show "mdb_midl_probe a k c \<noteq> None" if "1 \<le> c" "c \<le> unat (a ! 0)"
    using that len by (simp add: mdb_midl_probe_def)
  show "\<exists>v. mdb_midl_probe a k c = Some v \<and> 0 < v"
    if "1 \<le> c" "c < d" "d \<le> unat (a ! 0)" "mdb_midl_probe a k d = Some w" "0 \<le> w"
    using that len idl_sorted_less [OF wf that(1-3)]
    by (auto simp: mdb_midl_probe_def rd_Some_iff not_less [symmetric])
  show "\<exists>w. mdb_midl_probe a k d = Some w \<and> w < 0"
    if "1 \<le> c" "c < d" "d \<le> unat (a ! 0)" "mdb_midl_probe a k c = Some v" "v \<le> 0"
    using that len idl_sorted_less [OF wf that(1-3)]
    by (auto simp: mdb_midl_probe_def rd_Some_iff not_less [symmetric])
qed

lemma mdb_midl_search_loop:
  "idl_sorted xs \<Longrightarrow>
   mdb_midl_search xs i = search_loop (mdb_midl_probe xs i) 0 1 0 (unat (xs ! 0))"
  by (auto simp: mdb_midl_search_def idl_sorted_def idl_wf_def u32_id)

text \<open>
  On a strictly descending list the binary search returns the position of the first ID
  that is not greater than the key (one past the end when there is none), without reading
  outside the array.
\<close>

lemma mdb_midl_search_correct:
  assumes "idl_sorted xs"
  shows "\<exists>r. mdb_midl_search xs i = Some r \<and> 1 \<le> r \<and> r \<le> unat (xs ! 0) + 1 \<and>
           (\<forall>c. 1 \<le> c \<and> c < r \<longrightarrow> i < xs ! c) \<and>
           (\<forall>c. r \<le> c \<and> c \<le> unat (xs ! 0) \<longrightarrow> xs ! c \<le> i)"
proof -
  let ?n = "unat (xs ! 0)"
  have len: "?n < length xs" using assms by (simp add: idl_sorted_def idl_wf_def)
  obtain r where r: "mdb_midl_search xs i = Some r"
    and res: "search_result (mdb_midl_probe xs i) ?n r"
    using midl_probe.search_total [OF assms, of i] mdb_midl_search_loop [OF assms] by auto
  have "1 \<le> r \<and> r \<le> ?n + 1" using res by (simp add: search_result_def)
  moreover have "(\<forall>c. 1 \<le> c \<and> c < r \<longrightarrow> i < xs ! c) \<and> (\<forall>c. r \<le> c \<and> c \<le> ?n \<longrightarrow> xs ! c \<le> i)"
    using res len idl_sorted_less [OF assms]
    by (fastforce simp: search_result_def mdb_midl_probe_def rd_Some_iff order_le_less)
  ultimately show ?thesis using r by blast
qed

section \<open>Growth\<close>

lemma realloc_ids_grow:
  assumes "length (ids m) + 1 \<le> k" "k < 2 ^ 61"
  shows "realloc_ids True junk m k cap =
    Some (m\<lparr>alloc_len := cap, ids := ids m @ map junk [length (ids m) + 1..<k]\<rparr>)"
proof -
  have "u64 (k * 8) div 8 = k" using assms(2) by (simp add: u64_id)
  then show ?thesis using assms(1) by (cases k) (simp_all add: realloc_ids_def realloc_cells_def)
qed

lemma realloc_ids_fail [simp]: "realloc_ids False junk m k cap = None"
  by (simp add: realloc_ids_def realloc_cells_def)

text \<open>An array that is longer but starts with the same cells holds the same IDs.\<close>

lemma elems_append [simp]: "idl_wf xs \<Longrightarrow> elems (xs @ ys) = elems xs"
  by (auto simp: elems_def idl_wf_def nth_append)

lemma elems_Cons: "elems (c # xs) = take (unat c) xs"
  by (simp add: elems_def)

lemma unat_scast_nonneg:
  fixes num :: "32 word"
  assumes "unat num < 2 ^ 31"
  shows "unat (scast num :: 64 word) = unat num"
proof -
  from assms have "int (unat num) < int (2 ^ 31)"
    by (simp only: of_nat_less_iff)
  then have "uint num < 2 ^ 31" by simp
  then have "sint num = int (unat num)"
    unfolding sint_uint using uint_ge_0 [of num]
    by (subst signed_take_bit_int_eq_self) (auto intro: order_trans [of _ 0])
  then have "(scast num :: 64 word) = of_nat (unat num)"
    by (simp add: scast_eq)
  then show ?thesis by (simp add: unat_ucast_up)
qed

lemma mdb_midl_grow_ok:
  assumes "midl_ok m" "unat (alloc_len m) < 2 ^ 60" "unat num < 2 ^ 31"
  obtains m' where "mdb_midl_grow True junk m num = (0, m')" "midl_ok m'"
    "unat (alloc_len m') = unat (alloc_len m) + unat num" "\<exists>ys. ids m' = ids m @ ys"
proof -
  let ?cap = "alloc_len m + scast num"
  have sc: "unat (scast num :: 64 word) = unat num"
    by (rule unat_scast_nonneg) (use assms(3) in simp)
  have cap: "unat ?cap = unat (alloc_len m) + unat num"
    using assms sc by (simp add: unat_word_ariths)
  have cap2: "unat (?cap + 2) = unat (alloc_len m) + unat num + 2"
    using assms cap by (simp add: unat_word_ariths)
  let ?m' = "m\<lparr>alloc_len := ?cap, ids := ids m @ map junk [length (ids m) + 1..<unat (?cap + 2)]\<rparr>"
  have "mdb_midl_grow True junk m num = (0, ?m')"
    using assms cap2 by (simp add: mdb_midl_grow_def Let_def realloc_ids_grow midl_ok_def)
  moreover have "midl_ok ?m'"
    using assms cap cap2 by (auto simp: midl_ok_def idl_wf_def nth_append)
  ultimately show ?thesis using that cap by simp
qed

lemma elems_snoc:
  assumes "idl_wf xs" "unat (xs ! 0) + 1 < length xs" "length xs < 2 ^ 63"
  shows "elems (xs[0 := xs ! 0 + 1, unat (xs ! 0 + 1) := i]) = elems xs @ [i]"
proof (cases xs)
  case Nil
  then show ?thesis using assms(1) by (simp add: idl_wf_def)
next
  case (Cons c ys)
  have u: "unat (c + 1) = unat c + 1"
    using assms Cons by (simp add: unat_word_ariths)
  then show ?thesis
    using assms Cons by (simp add: elems_Cons take_Suc_conv_app_nth)
qed

lemma mdb_midl_append_room:
  assumes "midl_ok m" "unat (alloc_len m) < 2 ^ 61" "\<not> alloc_len m \<le> ids m ! 0"
  shows "\<exists>m'. mdb_midl_append ok junk m i = Some (0, m') \<and> midl_ok m' \<and>
              elems (ids m') = elems (ids m) @ [i]"
proof -
  let ?xs = "(ids m)[0 := ids m ! 0 + 1, unat (ids m ! 0 + 1) := i]"
  have lt: "unat (ids m ! 0) < unat (alloc_len m)"
    using assms(3) by (simp add: word_le_nat_alt)
  have u: "unat (ids m ! 0 + 1) = unat (ids m ! 0) + 1"
    using lt assms(2) by (simp add: unat_word_ariths)
  have len: "unat (ids m ! 0) + 1 < length (ids m)" "0 < length (ids m)"
    using lt assms(1) by (auto simp: midl_ok_def idl_wf_def)
  have "mdb_midl_append ok junk m i = Some (0, m\<lparr>ids := ?xs\<rparr>)"
    using assms(3) len u by (simp add: mdb_midl_append_def)
  moreover have "elems ?xs = elems (ids m) @ [i]"
    using assms(1,2) len by (intro elems_snoc) (auto simp: midl_ok_def)
  moreover have "midl_ok (m\<lparr>ids := ?xs\<rparr>)"
    using assms(1) len u by (auto simp: midl_ok_def idl_wf_def nth_list_update)
  ultimately show ?thesis by auto
qed

text \<open>
  Appending one ID to a well-formed list never leaves the allocation; it either succeeds,
  keeping the list well formed and adding the ID at the end, or reports ENOMEM with the
  list untouched, which happens only when the list was full and the allocator failed.
\<close>

lemma mdb_midl_append_correct:
  assumes "midl_ok m" "unat (alloc_len m) < 2 ^ 60"
  shows "\<exists>rc m'. mdb_midl_append ok junk m i = Some (rc, m') \<and> midl_ok m' \<and>
           (rc = 0 \<and> elems (ids m') = elems (ids m) @ [i] \<or>
            rc = ENOMEM \<and> m' = m \<and> \<not> ok \<and> alloc_len m \<le> ids m ! 0)"
proof (cases "alloc_len m \<le> ids m ! 0")
  case False
  then show ?thesis using mdb_midl_append_room [OF assms(1) _ False] assms(2) by force
next
  case full: True
  have ne: "0 < length (ids m)" using assms(1) by (auto simp: midl_ok_def idl_wf_def)
  show ?thesis
  proof (cases ok)
    case False
    then show ?thesis using full ne assms(1)
      by (auto simp: mdb_midl_append_def mdb_midl_grow_def ENOMEM_def)
  next
    case True
    obtain m' ys where g: "mdb_midl_grow True junk m (of_nat MDB_IDL_UM_MAX) = (0, m')" "midl_ok m'"
      "unat (alloc_len m') = unat (alloc_len m) + 131071" "ids m' = ids m @ ys"
      by (rule mdb_midl_grow_ok [OF assms, of "of_nat MDB_IDL_UM_MAX" junk]) (auto simp: MDB_IDL_UM_MAX_eq)
    have same: "ids m' ! 0 = ids m ! 0" using g(4) ne by (simp add: nth_append)
    have room: "\<not> alloc_len m' \<le> ids m' ! 0"
      using assms(1) g(3) same by (auto simp: midl_ok_def idl_wf_def word_le_nat_alt)
    have "mdb_midl_append ok junk m i = mdb_midl_append ok junk m' i"
      using full room True g(1) same ne g(4) by (simp add: mdb_midl_append_def)
    moreover have "elems (ids m') = elems (ids m)"
      using g(4) assms(1) by (simp add: midl_ok_def)
    ultimately show ?thesis
      using mdb_midl_append_room [OF g(2) _ room] g(3) assms(2) by force
  qed
qed

theorem mdb_midl_append_correct_witness:
  "midl_ok \<lparr>alloc_len = 2, ids = [1, 7, 0]\<rparr> \<and>
   (\<exists>m'. mdb_midl_append False (\<lambda>_. 0) \<lparr>alloc_len = 2, ids = [1, 7, 0]\<rparr> 4 = Some (0, m') \<and>
     midl_ok m' \<and> elems (ids m') = [7, 4])"
proof -
  have h: "midl_ok \<lparr>alloc_len = 2, ids = [1, 7, 0]\<rparr>" by (simp add: midl_ok_def idl_wf_def)
  show ?thesis
    using h mdb_midl_append_correct [OF h, of False "\<lambda>_. 0" 4] by (auto simp: elems_Cons word_le_nat_alt)
qed

lemma append_range_fill_eq:
  assumes "len + n < length xs"
  shows "append_range_fill xs len i n =
    Some (take (len + 1) xs @ rev (map (\<lambda>k. i + of_nat k) [0..<n]) @ drop (len + 1 + n) xs)"
  using assms
proof (induction n arbitrary: xs i)
  case (Suc n)
  let ?ys = "xs[len + Suc n := i]"
  have IH: "append_range_fill ?ys len (i + 1) n =
    Some (take (len + 1) ?ys @ rev (map (\<lambda>k. (i + 1) + of_nat k) [0..<n]) @ drop (len + 1 + n) ?ys)"
    by (rule Suc.IH) (use Suc.prems in simp)
  have dr: "drop (len + 1 + n) ?ys = i # drop (len + 1 + Suc n) xs"
    using Suc.prems by (simp add: Cons_nth_drop_Suc [symmetric] drop_update_swap)
  have "[0..<Suc n] = 0 # map Suc [0..<n]"
    by (simp add: map_Suc_upt upt_conv_Cons del: upt_Suc)
  then have "rev (map (\<lambda>k. i + of_nat k) [0..<Suc n]) =
      rev (map (\<lambda>k. (i + 1) + of_nat k) [0..<n]) @ [i]"
    by (simp add: o_def algebra_simps del: upt_Suc)
  then show ?case using Suc.prems IH dr by (simp del: upt_Suc)
qed simp

lemma elems_update_count:
  assumes "xs = c # ys" "unat n \<le> length ys"
  shows "elems (xs[0 := n]) = take (unat n) ys"
  using assms by (simp add: elems_Cons)

lemma midl_append_block:
  assumes "midl_ok m" "unat (ids m ! 0) + length b \<le> unat (alloc_len m)"
    "xs = take (unat (ids m ! 0) + 1) (ids m) @ b @ drop (unat (ids m ! 0) + 1 + length b) (ids m)"
    "unat n = unat (ids m ! 0) + length b"
  shows "midl_ok (m\<lparr>ids := xs[0 := n]\<rparr>) \<and> elems (xs[0 := n]) = elems (ids m) @ b"
proof (cases "ids m")
  case Nil
  then show ?thesis using assms(1) by (simp add: midl_ok_def idl_wf_def)
next
  case (Cons c ys)
  then show ?thesis using assms by (auto simp: midl_ok_def idl_wf_def elems_Cons)
qed

lemma mdb_midl_append_range_room:
  assumes "midl_ok m" "unat (alloc_len m) < 2 ^ 61" "\<not> alloc_len m < ids m ! 0 + ucast n"
  shows "\<exists>m'. mdb_midl_append_range ok junk m i n = Some (0, m') \<and> midl_ok m' \<and>
              elems (ids m') = elems (ids m) @ rev (map (\<lambda>k. i + of_nat k) [0..<unat n])"
proof -
  let ?c = "ids m ! 0" and ?b = "rev (map (\<lambda>k. i + of_nat k) [0..<unat n])"
  let ?xs = "take (unat ?c + 1) (ids m) @ ?b @ drop (unat ?c + 1 + length ?b) (ids m)"
  have c: "unat ?c \<le> unat (alloc_len m)" "length (ids m) = unat (alloc_len m) + 1"
    using assms(1) by (auto simp: midl_ok_def idl_wf_def)
  have nb: "unat n < 2 ^ 32" using unsigned_less [of n] by simp
  have u: "unat (?c + ucast n) = unat ?c + unat n"
    using c assms(2) nb by (simp add: unat_word_ariths unat_ucast_up)
  have room: "unat ?c + unat n \<le> unat (alloc_len m)"
    using assms(3) u by (simp add: word_less_nat_alt)
  let ?ys = "(ids m)[0 := ?c + ucast n]"
  have fill: "append_range_fill ?ys (unat ?c) i (unat n) =
    Some (take (unat ?c + 1) ?ys @ ?b @ drop (unat ?c + 1 + unat n) ?ys)"
    by (rule append_range_fill_eq) (use room c in simp)
  have "take (unat ?c + 1) ?ys @ ?b @ drop (unat ?c + 1 + unat n) ?ys = ?xs[0 := ?c + ucast n]"
    using c by (cases "ids m") auto
  then have "mdb_midl_append_range ok junk m i n = Some (0, m\<lparr>ids := ?xs[0 := ?c + ucast n]\<rparr>)"
    using assms(3) c fill by (simp add: mdb_midl_append_range_def)
  moreover have "midl_ok (m\<lparr>ids := ?xs[0 := ?c + ucast n]\<rparr>) \<and>
      elems (?xs[0 := ?c + ucast n]) = elems (ids m) @ ?b"
    by (rule midl_append_block [OF assms(1) _ refl]) (use room u in simp_all)
  ultimately show ?thesis by auto
qed

lemma unat_or_UM_MAX:
  fixes n :: "32 word"
  assumes "unat n < 2 ^ 31"
  shows "unat n \<le> unat (or n (of_nat MDB_IDL_UM_MAX))"
    and "unat (or n (of_nat MDB_IDL_UM_MAX)) < 2 ^ 31"
proof -
  show "unat n \<le> unat (or n (of_nat MDB_IDL_UM_MAX))"
    using le_word_or2 word_le_nat_alt by blast
  have "unat (take_bit 31 n) = unat n"
    using assms by (simp add: unsigned_take_bit_eq take_bit_nat_eq_self)
  then have "take_bit 31 n = n" by (simp only: word_unat_eq_iff)
  then have "take_bit 31 (or n (of_nat MDB_IDL_UM_MAX)) = or n (of_nat MDB_IDL_UM_MAX)"
    by (simp add: take_bit_or)
  then show "unat (or n (of_nat MDB_IDL_UM_MAX)) < 2 ^ 31"
    by (metis take_bit_nat_less_exp unsigned_take_bit_eq)
qed

text \<open>
  Appending a page range of \<open>n\<close> consecutive IDs stores them in descending
  order after the old ones, growing the allocation first when needed; the only failure is
  ENOMEM and it changes nothing.
\<close>

lemma mdb_midl_append_range_correct:
  assumes "midl_ok m" "unat (alloc_len m) < 2 ^ 60" "unat n < 2 ^ 31"
  shows "\<exists>rc m'. mdb_midl_append_range ok junk m i n = Some (rc, m') \<and> midl_ok m' \<and>
           (rc = 0 \<and> elems (ids m') = elems (ids m) @ rev (map (\<lambda>k. i + of_nat k) [0..<unat n]) \<or>
            rc = ENOMEM \<and> m' = m \<and> \<not> ok \<and> alloc_len m < ids m ! 0 + ucast n)"
proof (cases "alloc_len m < ids m ! 0 + ucast n")
  case False
  then show ?thesis using mdb_midl_append_range_room [OF assms(1) _ False] assms(2) by force
next
  case full: True
  have ne: "0 < length (ids m)" "unat (ids m ! 0) \<le> unat (alloc_len m)"
    using assms(1) by (auto simp: midl_ok_def idl_wf_def)
  show ?thesis
  proof (cases ok)
    case False
    then show ?thesis using full ne assms(1)
      by (auto simp: mdb_midl_append_range_def mdb_midl_grow_def ENOMEM_def)
  next
    case True
    let ?num = "or n (of_nat MDB_IDL_UM_MAX)"
    note num = unat_or_UM_MAX [OF assms(3)]
    obtain m' ys where g: "mdb_midl_grow True junk m ?num = (0, m')" "midl_ok m'"
      "unat (alloc_len m') = unat (alloc_len m) + unat ?num" "ids m' = ids m @ ys"
      by (rule mdb_midl_grow_ok [OF assms(1,2) num(2), of junk]) auto
    have same: "ids m' ! 0 = ids m ! 0" using g(4) ne by (simp add: nth_append)
    have "unat (ids m ! 0 + ucast n) = unat (ids m ! 0) + unat n"
      using ne assms by (simp add: unat_word_ariths unat_ucast_up)
    then have room: "\<not> alloc_len m' < ids m' ! 0 + ucast n"
      using ne g(3) same num(1) by (simp add: word_less_nat_alt)
    have "mdb_midl_append_range ok junk m i n = mdb_midl_append_range ok junk m' i n"
      using full room True g(1) same ne g(4) by (simp add: mdb_midl_append_range_def)
    moreover have "elems (ids m') = elems (ids m)"
      using g(4) assms(1) by (simp add: midl_ok_def)
    ultimately show ?thesis
      using mdb_midl_append_range_room [OF g(2) _ room] g(3) assms(2) num(2) by force
  qed
qed

lemma append_list_copy:
  assumes "midl_ok m" "unat (alloc_len m) < 2 ^ 61" "idl_wf app"
    "unat (ids m ! 0) + unat (app ! 0) \<le> unat (alloc_len m)"
  shows "\<exists>xs. memcpy (ids m) (unat (ids m ! 0 + 1)) app 1 (unat (app ! 0)) = Some xs \<and> 0 < length xs \<and>
              midl_ok (m\<lparr>ids := xs[0 := ids m ! 0 + app ! 0]\<rparr>) \<and>
              elems (xs[0 := ids m ! 0 + app ! 0]) = elems (ids m) @ elems app"
proof -
  let ?c = "ids m ! 0" and ?a = "app ! 0"
  have c: "length (ids m) = unat (alloc_len m) + 1"
    using assms(1) by (auto simp: midl_ok_def idl_wf_def)
  have app: "unat ?a < length app" "app \<noteq> []" using assms(3) by (auto simp: idl_wf_def)
  have u: "unat (?c + ?a) = unat ?c + unat ?a" "unat (?c + 1) = unat ?c + 1"
    using assms(2,4) by (simp_all add: unat_word_ariths)
  let ?xs = "take (unat ?c + 1) (ids m) @ elems app @ drop (unat ?c + 1 + length (elems app)) (ids m)"
  have el: "take (unat ?a) (drop 1 app) = elems app" "length (elems app) = unat ?a"
    using app by (auto simp: elems_def drop_Suc)
  have "memcpy (ids m) (unat (?c + 1)) app 1 (unat ?a) = Some ?xs"
    using c app assms(4) u(2) el by simp
  moreover have "midl_ok (m\<lparr>ids := ?xs[0 := ?c + ?a]\<rparr>) \<and>
      elems (?xs[0 := ?c + ?a]) = elems (ids m) @ elems app"
    by (rule midl_append_block [OF assms(1) _ refl]) (use assms(4) u el in simp_all)
  moreover have "0 < length ?xs" using c by (cases "ids m") auto
  ultimately show ?thesis by blast
qed

text \<open>
  Appending one ID list to another concatenates their elements, growing the allocation
  first when needed; the only failure is ENOMEM and it changes nothing.
\<close>

lemma mdb_midl_append_list_correct:
  assumes "midl_ok m" "unat (alloc_len m) < 2 ^ 60" "idl_wf app" "unat (app ! 0) < 2 ^ 31"
  shows "\<exists>rc m'. mdb_midl_append_list ok junk m app = Some (rc, m') \<and> midl_ok m' \<and>
           (rc = 0 \<and> elems (ids m') = elems (ids m) @ elems app \<or>
            rc = ENOMEM \<and> m' = m \<and> \<not> ok \<and> alloc_len m \<le> ids m ! 0 + app ! 0)"
proof -
  let ?c = "ids m ! 0" and ?a = "app ! 0"
  have ne: "0 < length (ids m)" "unat ?c \<le> unat (alloc_len m)" "0 < length app"
    using assms(1,3) by (auto simp: midl_ok_def idl_wf_def)
  have u: "unat (?c + ?a) = unat ?c + unat ?a"
    using ne assms(2,4) by (simp add: unat_word_ariths)
  consider "\<not> alloc_len m \<le> ?c + ?a" | "alloc_len m \<le> ?c + ?a" "\<not> ok" | "alloc_len m \<le> ?c + ?a" ok
    by blast
  then show ?thesis
  proof cases
    case 1
    then have room: "unat ?c + unat ?a \<le> unat (alloc_len m)" using u by (simp add: word_le_nat_alt)
    show ?thesis using append_list_copy [OF assms(1) _ assms(3) room] assms(2) 1 ne
      by (auto simp: mdb_midl_append_list_def)
  next
    case 2
    then show ?thesis using ne assms(1)
      by (auto simp: mdb_midl_append_list_def mdb_midl_grow_def ENOMEM_def)
  next
    case 3
    have num: "unat (ucast ?a :: 32 word) = unat ?a"
      using assms(4) by (simp add: unsigned_ucast_eq take_bit_nat_eq_self)
    obtain m' ys where g: "mdb_midl_grow True junk m (ucast ?a) = (0, m')" "midl_ok m'"
      "unat (alloc_len m') = unat (alloc_len m) + unat ?a" "ids m' = ids m @ ys"
      using mdb_midl_grow_ok [OF assms(1,2), of "ucast ?a" junk] num assms(4) by metis
    have same: "ids m' ! 0 = ?c" "elems (ids m') = elems (ids m)" "0 < length (ids m')"
      using g(4) ne assms(1) by (auto simp: nth_append midl_ok_def)
    obtain xs where "memcpy (ids m') (unat (?c + 1)) app 1 (unat ?a) = Some xs" "0 < length xs"
      "midl_ok (m'\<lparr>ids := xs[0 := ?c + ?a]\<rparr>)" "elems (xs[0 := ?c + ?a]) = elems (ids m) @ elems app"
      using append_list_copy [OF g(2) _ assms(3)] same g(3) ne(2) assms(2,4) by force
    then show ?thesis using 3 ne g(1) same by (auto simp: mdb_midl_append_list_def)
  qed
qed

theorem mdb_midl_append_list_correct_witness:
  "midl_ok \<lparr>alloc_len = 4, ids = [1, 9, 0, 0, 0]\<rparr> \<and>
   (\<exists>m'. mdb_midl_append_list False (\<lambda>_. 0) \<lparr>alloc_len = 4, ids = [1, 9, 0, 0, 0]\<rparr> [2, 6, 5] = Some (0, m') \<and>
     midl_ok m' \<and> elems (ids m') = [9, 6, 5])"
proof -
  have h: "midl_ok \<lparr>alloc_len = 4, ids = [1, 9, 0, 0, 0]\<rparr>" "idl_wf [2, 6, 5]" by (simp_all add: midl_ok_def idl_wf_def)
  show ?thesis
    using h mdb_midl_append_list_correct [OF h(1) _ h(2), of False "\<lambda>_. 0"]
    by (auto simp: elems_Cons word_le_nat_alt)
qed

lemma need_round_up:
  fixes n :: nat
  shows "n + 3 \<le> (n + n div 4 + 258) div 256 * 256"
    and "(n + n div 4 + 258) div 256 * 256 \<le> n + n div 4 + 258"
proof -
  let ?x = "n + n div 4 + 258"
  have "?x div 256 * 256 + ?x mod 256 = ?x" by (rule div_mult_mod_eq)
  moreover have "?x mod 256 < 256" by simp
  ultimately show "n + 3 \<le> ?x div 256 * 256" "?x div 256 * 256 \<le> ?x" by linarith+
qed

text \<open>
  Reserving room for \<open>num\<close> more IDs keeps the stored IDs and, unless the
  allocator fails, afterwards the allocation has room for them.
\<close>

lemma mdb_midl_need_correct:
  assumes "midl_ok m" "unat (ids m ! 0) + num < 2 ^ 31"
  shows "\<exists>rc m'. mdb_midl_need ok junk m num = Some (rc, m') \<and> midl_ok m' \<and>
           elems (ids m') = elems (ids m) \<and>
           (rc = 0 \<and> length (elems (ids m')) + num \<le> unat (alloc_len m') \<or>
            rc = ENOMEM \<and> m' = m \<and> \<not> ok \<and> unat (alloc_len m) < unat (ids m ! 0) + num)"
proof -
  define n where "n = unat (ids m ! 0) + num"
  define k where "k = (n + n div 4 + 258) div 256 * 256"
  have ne: "0 < length (ids m)" "length (ids m) = unat (alloc_len m) + 1" "idl_wf (ids m)"
    using assms(1) by (auto simp: midl_ok_def idl_wf_def)
  have n: "u32 (num + unat (ids m ! 0)) = n" "u32 (n + n div 4 + (256 + 2)) = n + n div 4 + 258"
    using assms(2) by (auto simp: u32_id n_def)
  have k: "n + 3 \<le> k" "k \<le> n + n div 4 + 258" unfolding k_def by (rule need_round_up)+
  have k2: "k < 2 ^ 32" using k(2) assms(2) by (simp add: n_def)
  have cap: "unat (of_nat (u32 (k + 2 ^ 32 - 2)) :: 64 word) = k - 2"
  proof -
    have "u32 (k + 2 ^ 32 - 2) = k - 2"
      using k k2 by (simp add: u32_def mod_if le_mod_geq)
    then show ?thesis using k2 by (simp add: unat_of_nat)
  qed
  have unf: "mdb_midl_need ok junk m num =
      (if unat (alloc_len m) < n
       then (case realloc_ids ok junk m k (of_nat (u32 (k + 2 ^ 32 - 2))) of
               None \<Rightarrow> Some (ENOMEM, m) | Some m' \<Rightarrow> Some (0, m'))
       else Some (0, m))"
    using ne n by (simp add: mdb_midl_need_def Let_def k_def)
  consider "\<not> unat (alloc_len m) < n" | "unat (alloc_len m) < n" "\<not> ok" | "unat (alloc_len m) < n" ok
    by blast
  then show ?thesis
  proof cases
    case 1
    then show ?thesis using unf assms(1) ne by (auto simp: n_def)
  next
    case 2
    then show ?thesis using unf assms(1) by (auto simp: n_def)
  next
    case 3
    let ?m = "m\<lparr>alloc_len := of_nat (u32 (k + 2 ^ 32 - 2)), ids := ids m @ map junk [length (ids m) + 1..<k]\<rparr>"
    have "mdb_midl_need ok junk m num = Some (0, ?m)"
      using unf 3 ne k k2 by (simp add: realloc_ids_grow)
    moreover have "midl_ok ?m"
      using 3 ne k cap by (auto simp: midl_ok_def idl_wf_def nth_append)
    ultimately show ?thesis using ne cap k by (auto simp: n_def)
  qed
qed

theorem mdb_midl_need_correct_witness:
  "midl_ok \<lparr>alloc_len = 1, ids = [1, 9]\<rparr> \<and>
   (\<exists>m'. mdb_midl_need True (\<lambda>_. 0) \<lparr>alloc_len = 1, ids = [1, 9]\<rparr> 300 = Some (0, m') \<and>
     midl_ok m' \<and> elems (ids m') = [9] \<and> 301 \<le> unat (alloc_len m'))"
proof -
  have h: "midl_ok \<lparr>alloc_len = 1, ids = [1, 9]\<rparr>" by (simp add: midl_ok_def idl_wf_def)
  show ?thesis
    using h mdb_midl_need_correct [OF h, of 300 True "\<lambda>_. 0"]
    by (auto simp: elems_Cons)
qed

section \<open>The merge\<close>

lemma dec64_Suc [simp]: "dec64 (Suc n) = n" and dec64_pos: "0 < n \<Longrightarrow> dec64 n = n - 1"
  by (simp_all add: dec64_def)

text \<open>
  The array during a merge: the delimiter, the old IDs still to be moved, the gap the
  merged IDs will fill, the part already merged, and the cells beyond.
\<close>

lemma xmerge_scan_eq:
  assumes "length G = Suc g" "old_id = (c0 # A) ! length A" "\<not> c0 < m"
  shows "\<exists>A1 A2 G'. A = A1 @ A2 \<and> (\<forall>x\<in>set A2. x < m) \<and> (A1 \<noteq> [] \<longrightarrow> m \<le> last A1) \<and>
           length G' = Suc g \<and>
           xmerge_scan (c0 # A @ G @ T) old_id m (length A) (length A + Suc g) =
             Some (c0 # A1 @ G' @ A2 @ T, (c0 # A1) ! length A1, length A1, length A1 + Suc g)"
  using assms(1,2)
proof (induction A arbitrary: G T old_id rule: rev_induct)
  case Nil
  then show ?case using assms(3)
    by (intro exI [of _ "[]"] exI [of _ G]) (simp add: xmerge_scan.simps)
next
  case (snoc x A)
  have old: "old_id = x" using snoc.prems(2) by (simp add: nth_append)
  show ?case
  proof (cases "x < m")
    case False
    then show ?thesis using snoc.prems old
      by (intro exI [of _ "A @ [x]"] exI [of _ "[]"] exI [of _ G])
         (simp add: xmerge_scan.simps nth_append)
  next
    case True
    obtain G0 y where G: "G = G0 @ [y]" "length G0 = g"
      using snoc.prems(1) by (cases G rule: rev_cases) auto
    have w: "wr (c0 # (A @ [x]) @ G @ T) (length (A @ [x]) + Suc g) x = Some (c0 # A @ (x # G0) @ (x # T))"
      using G by (simp add: list_update_append)
    obtain A1 A2 G' where IH: "A = A1 @ A2" "\<forall>x\<in>set A2. x < m" "A1 \<noteq> [] \<longrightarrow> m \<le> last A1"
      "length G' = Suc g"
      "xmerge_scan (c0 # A @ (x # G0) @ (x # T)) ((c0 # A) ! length A) m (length A) (length A + Suc g) =
         Some (c0 # A1 @ G' @ A2 @ (x # T), (c0 # A1) ! length A1, length A1, length A1 + Suc g)"
      using snoc.IH [of "x # G0" "(c0 # A) ! length A" "x # T", OF _ refl] G(2)
      by (metis length_Cons)
    have r: "rd (c0 # A @ (x # G0) @ (x # T)) (length A) = Some ((c0 # A) ! length A)"
      by (simp add: nth_append nth_Cons split: nat.splits)
    have "xmerge_scan (c0 # (A @ [x]) @ G @ T) old_id m (length (A @ [x])) (length (A @ [x]) + Suc g) =
        xmerge_scan (c0 # A @ (x # G0) @ (x # T)) ((c0 # A) ! length A) m (length A) (length A + Suc g)"
      using True old w r by (subst xmerge_scan.simps) simp
    then show ?thesis using IH True
      by (intro exI [of _ A1] exI [of _ "A2 @ [x]"] exI [of _ G']) auto
  qed
qed

lemma xmerge_loop_correct:
  assumes "merge = cm # M @ R" "length G = length M" "old_id = (c0 # A) ! length A"
    "c0 = - 1" "sorted_wrt (\<ge>) A" "sorted_wrt (\<ge>) M" "sorted_wrt (\<ge>) B"
    "\<forall>b\<in>set B. \<forall>x\<in>set A \<union> set M. b \<le> x"
  shows "\<exists>C. xmerge_loop merge (c0 # A @ G @ B @ T) old_id (length A) (length A + length M) (length M) =
           Some (c0 # C @ T) \<and> mset C = mset A + mset M + mset B \<and> sorted_wrt (\<ge>) C"
  using assms
proof (induction M arbitrary: A G B old_id R rule: rev_induct)
  case Nil
  then show ?case by (auto simp: sorted_wrt_append)
next
  case (snoc m M)
  have rdm: "rd merge (Suc (length M)) = Some m"
    using snoc.prems(1) by (simp add: nth_append)
  have "\<not> c0 < m" using snoc.prems(4) by simp
  then obtain A1 A2 G' where sc: "A = A1 @ A2" "\<forall>x\<in>set A2. x < m" "A1 \<noteq> [] \<longrightarrow> m \<le> last A1"
    "length G' = Suc (length M)"
    "xmerge_scan (c0 # A @ G @ B @ T) old_id m (length A) (length A + Suc (length M)) =
       Some (c0 # A1 @ G' @ A2 @ B @ T, (c0 # A1) ! length A1, length A1, length A1 + Suc (length M))"
    using xmerge_scan_eq [of G "length M" old_id c0 A m "B @ T", OF _ snoc.prems(3)] snoc.prems(2)
    by (metis length_append_singleton)
  obtain G0 y where G': "G' = G0 @ [y]" "length G0 = length M"
    using sc(4) by (cases G' rule: rev_cases) auto
  have w: "wr (c0 # A1 @ G' @ A2 @ B @ T) (length A1 + Suc (length M)) m =
      Some (c0 # A1 @ G0 @ (m # A2 @ B) @ T)"
    using G' by (simp add: list_update_append)
  have geA1: "\<forall>x\<in>set A1. m \<le> x"
    using sc(1,3) snoc.prems(5) by (cases A1 rule: rev_cases) (force simp: sorted_wrt_append)+
  have "\<exists>C. xmerge_loop merge (c0 # A1 @ G0 @ (m # A2 @ B) @ T) ((c0 # A1) ! length A1)
              (length A1) (length A1 + length M) (length M) =
           Some (c0 # C @ T) \<and> mset C = mset A1 + mset M + mset (m # A2 @ B) \<and> sorted_wrt (\<ge>) C"
  proof (rule snoc.IH [of "m # R"])
    show "merge = cm # M @ m # R" using snoc.prems(1) by simp
    show "length G0 = length M" by (rule G'(2))
    show "sorted_wrt (\<ge>) A1" "sorted_wrt (\<ge>) M"
      using snoc.prems(5,6) sc(1) by (auto simp: sorted_wrt_append)
    show "sorted_wrt (\<ge>) (m # A2 @ B)"
      using snoc.prems(5,7,8) sc(1,2) by (auto simp: sorted_wrt_append less_imp_le)
    show "\<forall>b\<in>set (m # A2 @ B). \<forall>x\<in>set A1 \<union> set M. b \<le> x"
      using snoc.prems(5,6,8) sc(1,2) geA1 by (fastforce simp: sorted_wrt_append)
  qed (use snoc.prems(4) in auto)
  then show ?case using rdm sc w by (auto simp: dec64_pos add_ac)
qed

text \<open>
  Property C30.
  The in-place merge of a descending list into a descending list with enough room
  terminates inside the array (the all-ones delimiter written to cell 0 stops the scan)
  and leaves the descending merge of both multisets.
\<close>

theorem mdb_midl_xmerge_correct:
  assumes "idl_wf xs" "idl_wf merge" "sorted_wrt (\<ge>) (elems xs)" "sorted_wrt (\<ge>) (elems merge)"
    "unat (xs ! 0) + unat (merge ! 0) < length xs" "length xs < 2 ^ 63"
  shows "\<exists>ys. mdb_midl_xmerge xs merge = Some ys \<and> length ys = length xs \<and> idl_wf ys \<and>
           sorted_wrt (\<ge>) (elems ys) \<and> mset (elems ys) = mset (elems xs) + mset (elems merge)"
proof -
  obtain c rest where xs: "xs = c # rest" using assms(1) by (cases xs) (auto simp: idl_wf_def)
  obtain cm mrest where me: "merge = cm # mrest" using assms(2) by (cases merge) (auto simp: idl_wf_def)
  let ?j = "unat c" and ?i = "unat cm"
  define A where "A = take ?j rest"
  define G where "G = take ?i (drop ?j rest)"
  define T where "T = drop (?j + ?i) rest"
  define M where "M = take ?i mrest"
  have len: "length A = ?j" "length G = ?i" "length M = ?i"
    using assms(1,2,5) xs me by (auto simp: A_def G_def M_def idl_wf_def)
  have "rest = A @ drop ?j rest" unfolding A_def by simp
  also have "drop ?j rest = G @ T" unfolding G_def T_def
    by (metis add.commute append_take_drop_id drop_drop)
  finally have rest: "rest = A @ G @ T" .
  have el: "elems xs = A" "elems merge = M" using xs me by (simp_all add: elems_Cons A_def M_def)
  have u: "unat (cm + c) = ?j + ?i"
    using assms(5,6) xs me by (simp add: unat_word_ariths)
  obtain C where C: "xmerge_loop merge (- 1 # A @ G @ [] @ T) ((- 1 # A) ! length A) (length A) (length A + length M) (length M) =
      Some (- 1 # C @ T)" "mset C = mset A + mset M + mset []" "sorted_wrt (\<ge>) C"
    using xmerge_loop_correct [of merge cm M "drop ?i mrest" G _ "- 1" A "[]" T] me len assms(3,4) el
    by (auto simp: M_def)
  have lC: "length C = ?j + ?i" using C(2) len by (metis add.right_neutral mset.simps(1) size_mset size_union)
  have ws: "rd merge 0 = Some cm" "rd xs 0 = Some c" "wr xs 0 (- 1) = Some (- 1 # A @ G @ T)"
    using xs me rest by auto
  have r: "rd (- 1 # A @ G @ T) ?j = Some ((- 1 # A) ! length A)"
    using len by (simp add: nth_append nth_Cons split: nat.splits)
  have "mdb_midl_xmerge xs merge = Some ((cm + c) # C @ T)"
    using ws r C(1) len u by (simp add: mdb_midl_xmerge_def)
  moreover have "elems ((cm + c) # C @ T) = C" using u lC by (simp add: elems_Cons)
  ultimately show ?thesis
    using C el u lC xs rest len by (intro exI [of _ "(cm + c) # C @ T"]) (auto simp: idl_wf_def)
qed

theorem mdb_midl_xmerge_correct_witness:
  "\<exists>ys. mdb_midl_xmerge [2, 9, 4, 0, 0] [2, 6, 5] = Some ys \<and> length ys = 5 \<and> idl_wf ys \<and>
     sorted_wrt (\<ge>) (elems ys) \<and> mset (elems ys) = {#9, 4, 6, 5#}"
proof -
  have h: "idl_wf [2, 9, 4, 0, 0]" "idl_wf [2, 6, 5]" by (simp_all add: idl_wf_def)
  show ?thesis
    using mdb_midl_xmerge_correct [OF h] by (auto simp: elems_def add_mset_commute)
qed

end
