(* ===== verification/Mid2l.thy ===== *)
theory Mid2l
  imports Midl
begin

text \<open>
  The ID/pointer lists of \<^verbatim>\<open>src/core/lmdb/midl.c\<close>: \<^verbatim>\<open>MDB_ID2L\<close> (the dirty pages of a
  transaction) and \<^verbatim>\<open>MDB_ID3L\<close> (cached read pages), ascending arrays of records keyed by
  \<open>mid\<close>. Cell 0's \<open>mid\<close> is the count. The payload type is a parameter, so the search and the
  insertion of the two lists share their definitions; as in \<open>Midl\<close>, the cell before the
  array is the field \<open>id2_hidden\<close> of the record that the allocating operations work on.
\<close>

section \<open>Model\<close>

record 'p mid2 =
  mid :: mdb_id
  mptr :: 'p

type_synonym 'p id2l = "'p mid2 list"

record 'p mid2l =
  id2_hidden :: "'p mid2"
  id2s :: "'p id2l"

text \<open>The entries an array holds, and the invariant of both lists.\<close>

definition id2_elems :: "'p id2l \<Rightarrow> 'p mid2 list" where
  "id2_elems xs = take (unat (mid (xs ! 0))) (tl xs)"

definition id2l_sorted :: "'p id2l \<Rightarrow> bool" where
  "id2l_sorted xs \<longleftrightarrow> xs \<noteq> [] \<and> unat (mid (xs ! 0)) < length xs \<and>
     sorted_wrt (\<lambda>x y. mid x < mid y) (id2_elems xs) \<and> unat (mid (xs ! 0)) + 1 < 2 ^ 32"

text \<open>The specification of an insertion: the entry at its place in the ascending order.\<close>

definition id2_insert :: "'p mid2 \<Rightarrow> 'p mid2 list \<Rightarrow> 'p mid2 list" where
  "id2_insert e xs = takeWhile (\<lambda>y. mid y < mid e) xs @ e # dropWhile (\<lambda>y. mid y < mid e) xs"

definition mdb_mid2l_alloc :: "bool \<Rightarrow> (nat \<Rightarrow> 'p mid2) \<Rightarrow> 31 word \<Rightarrow> 'p mid2l option" where
  "mdb_mid2l_alloc ok junk num =
     (if ok then Some \<lparr>id2_hidden = (junk 0)\<lparr>mid := ucast num\<rparr>,
                       id2s = (junk 1)\<lparr>mid := 0\<rparr> # map junk [2..<unat num + 2]\<rparr>
      else None)"

definition mdb_mid2l_need :: "bool \<Rightarrow> (nat \<Rightarrow> 'p mid2) \<Rightarrow> 'p mid2l \<Rightarrow> nat \<Rightarrow> (int \<times> 'p mid2l) option" where
  "mdb_mid2l_need ok junk m num0 =
     do {
       e0 \<leftarrow> rd (id2s m) 0;
       let num = u32 (num0 + unat (mid e0));
       if unat (mid (id2_hidden m)) < num
       then (let num' = u32 (num + num div 4 + (256 + 2)) div 256 * 256 in
             case realloc_cells ok junk (id2_hidden m # id2s m) 16 num' of
               None \<Rightarrow> Some (ENOMEM, m)
             | Some cells \<Rightarrow>
                 Some (0, \<lparr>id2_hidden = (hd cells)\<lparr>mid := of_nat (u32 (num' + 2 ^ 32 - 2))\<rparr>,
                           id2s = tl cells\<rparr>))
       else Some (0, m)
     }"

definition mdb_mid2l_probe :: "'p id2l \<Rightarrow> mdb_id \<Rightarrow> nat \<Rightarrow> int option" where
  "mdb_mid2l_probe xs i c = map_option (\<lambda>x. CMP i (mid x)) (rd xs c)"

definition mdb_mid2l_search :: "'p id2l \<Rightarrow> mdb_id \<Rightarrow> nat option" where
  "mdb_mid2l_search xs i =
     do { e \<leftarrow> rd xs 0; search_loop (mdb_mid2l_probe xs i) 0 1 0 (u32 (unat (mid e))) }"

text \<open>The shift \<^verbatim>\<open>for (i = ids[0].mid; i > x; i--) ids[i] = ids[i-1]\<close>.\<close>

fun shift_up :: "'a list \<Rightarrow> nat \<Rightarrow> nat \<Rightarrow> 'a list option" where
  "shift_up xs 0 x = Some xs"
| "shift_up xs (Suc i) x =
     (if x < Suc i then do { v \<leftarrow> rd xs i; xs \<leftarrow> wr xs (Suc i) v; shift_up xs i x }
      else Some xs)"

definition insert_cell :: "'p id2l \<Rightarrow> nat \<Rightarrow> 'p mid2 \<Rightarrow> 'p id2l option" where
  "insert_cell xs x e =
     do {
       e0 \<leftarrow> rd xs 0;
       xs \<leftarrow> wr xs 0 (e0\<lparr>mid := mid e0 + 1\<rparr>);
       xs \<leftarrow> shift_up xs (u32 (unat (mid e0 + 1))) x;
       wr xs x e
     }"

definition mdb_mid2l_insert :: "'p id2l \<Rightarrow> 'p mid2 \<Rightarrow> (int \<times> 'p id2l) option" where
  "mdb_mid2l_insert xs e =
     do {
       x \<leftarrow> mdb_mid2l_search xs (mid e);
       e0 \<leftarrow> rd xs 0;
       if x < 1 then Some (-2, xs)
       else do {
         dup \<leftarrow> (if x \<le> unat (mid e0) then map_option (\<lambda>y. mid y = mid e) (rd xs x) else Some False);
         if dup then Some (-1, xs)
         else if MDB_IDL_UM_MAX \<le> unat (mid e0) then Some (-2, xs)
         else do { xs \<leftarrow> insert_cell xs x e; Some (0, xs) }
       }
     }"

definition mdb_mid2l_append :: "'p id2l \<Rightarrow> 'p mid2 \<Rightarrow> (int \<times> 'p id2l) option" where
  "mdb_mid2l_append xs e =
     do {
       e0 \<leftarrow> rd xs 0;
       if MDB_IDL_UM_MAX \<le> unat (mid e0) then Some (-2, xs)
       else do {
         xs \<leftarrow> wr xs 0 (e0\<lparr>mid := mid e0 + 1\<rparr>);
         xs \<leftarrow> wr xs (unat (mid e0 + 1)) e;
         Some (0, xs)
       }
     }"

text \<open>\<^verbatim>\<open>mdb_mid3l_insert\<close> is the insertion without the capacity test.\<close>

definition mdb_mid3l_insert :: "'p id2l \<Rightarrow> 'p mid2 \<Rightarrow> (int \<times> 'p id2l) option" where
  "mdb_mid3l_insert xs e =
     do {
       x \<leftarrow> mdb_mid2l_search xs (mid e);
       e0 \<leftarrow> rd xs 0;
       if x < 1 then Some (-2, xs)
       else do {
         dup \<leftarrow> (if x \<le> unat (mid e0) then map_option (\<lambda>y. mid y = mid e) (rd xs x) else Some False);
         if dup then Some (-1, xs)
         else do { xs \<leftarrow> insert_cell xs x e; Some (0, xs) }
       }
     }"

section \<open>Search\<close>

lemma id2l_sorted_less:
  "id2l_sorted xs \<Longrightarrow> 1 \<le> c \<Longrightarrow> c < d \<Longrightarrow> d \<le> unat (mid (xs ! 0)) \<Longrightarrow>
   mid (xs ! c) < mid (xs ! d)"
  unfolding id2l_sorted_def id2_elems_def by (blast dest: sorted_wrt_take_tl_nth)

interpretation mid2l_probe: probed_array mdb_mid2l_probe "\<lambda>xs. unat (mid (xs ! 0))" id2l_sorted
proof
  fix a :: "'a id2l" and k :: mdb_id and c d :: nat and v w :: int
  assume wf: "id2l_sorted a"
  then have len: "unat (mid (a ! 0)) < length a" by (simp add: id2l_sorted_def)
  show "unat (mid (a ! 0)) + 1 < 2 ^ 32" using wf by (simp add: id2l_sorted_def)
  show "mdb_mid2l_probe a k c \<noteq> None" if "1 \<le> c" "c \<le> unat (mid (a ! 0))"
    using that len by (simp add: mdb_mid2l_probe_def)
  show "\<exists>v. mdb_mid2l_probe a k c = Some v \<and> 0 < v"
    if "1 \<le> c" "c < d" "d \<le> unat (mid (a ! 0))" "mdb_mid2l_probe a k d = Some w" "0 \<le> w"
    using that len id2l_sorted_less [OF wf that(1-3)]
    by (auto simp: mdb_mid2l_probe_def rd_Some_iff not_less [symmetric])
  show "\<exists>w. mdb_mid2l_probe a k d = Some w \<and> w < 0"
    if "1 \<le> c" "c < d" "d \<le> unat (mid (a ! 0))" "mdb_mid2l_probe a k c = Some v" "v \<le> 0"
    using that len id2l_sorted_less [OF wf that(1-3)]
    by (auto simp: mdb_mid2l_probe_def rd_Some_iff not_less [symmetric])
qed

lemma mdb_mid2l_search_loop:
  "id2l_sorted xs \<Longrightarrow>
   mdb_mid2l_search xs i = search_loop (mdb_mid2l_probe xs i) 0 1 0 (unat (mid (xs ! 0)))"
  by (auto simp: mdb_mid2l_search_def id2l_sorted_def u32_id)


lemma shift_up_eq:
  assumes "x \<le> n" "n < length xs"
  shows "shift_up xs n x = Some (take (x + 1) xs @ take (n - x) (drop x xs) @ drop (n + 1) xs)"
  using assms
proof (induction n arbitrary: xs)
  case (Suc n)
  show ?case
  proof (cases "x = Suc n")
    case True
    then show ?thesis using Suc.prems by (simp add: take_Suc_conv_app_nth Cons_nth_drop_Suc)
  next
    case False
    with Suc.prems have le: "x \<le> n" "n < length xs" by auto
    let ?ys = "xs[Suc n := xs ! n]"
    have IH: "shift_up ?ys n x = Some (take (x + 1) ?ys @ take (n - x) (drop x ?ys) @ drop (n + 1) ?ys)"
      by (rule Suc.IH) (use le in auto)
    have d: "drop (n + 1) ?ys = xs ! n # drop (Suc n + 1) xs"
      using Suc.prems by (simp add: Cons_nth_drop_Suc [symmetric] drop_update_swap)
    have t: "take (n - x) (drop x ?ys) = take (n - x) (drop x xs)"
      using le by (simp add: drop_update_swap)
    have t2: "take (Suc n - x) (drop x xs) = take (n - x) (drop x xs) @ [xs ! n]"
      using le by (simp add: Suc_diff_le take_Suc_conv_app_nth)
    have t1: "take (x + 1) ?ys = take (x + 1) xs" using le by simp
    show ?thesis using IH d t t1 t2 le Suc.prems by simp
  qed
qed simp

lemma mdb_mid2l_search_correct:
  assumes "id2l_sorted xs"
  shows "\<exists>r. mdb_mid2l_search xs i = Some r \<and> 1 \<le> r \<and> r \<le> unat (mid (xs ! 0)) + 1 \<and>
           (\<forall>c. 1 \<le> c \<and> c < r \<longrightarrow> mid (xs ! c) < i) \<and>
           (\<forall>c. r \<le> c \<and> c \<le> unat (mid (xs ! 0)) \<longrightarrow> i \<le> mid (xs ! c))"
proof -
  let ?n = "unat (mid (xs ! 0))"
  have len: "?n < length xs" using assms by (simp add: id2l_sorted_def)
  obtain r where r: "mdb_mid2l_search xs i = Some r"
    and res: "search_result (mdb_mid2l_probe xs i) ?n r"
    using mid2l_probe.search_total [OF assms, of i] mdb_mid2l_search_loop [OF assms] by auto
  have "1 \<le> r \<and> r \<le> ?n + 1" using res by (simp add: search_result_def)
  moreover have "(\<forall>c. 1 \<le> c \<and> c < r \<longrightarrow> mid (xs ! c) < i) \<and>
      (\<forall>c. r \<le> c \<and> c \<le> ?n \<longrightarrow> i \<le> mid (xs ! c))"
    using res len id2l_sorted_less [OF assms]
    by (fastforce simp: search_result_def mdb_mid2l_probe_def rd_Some_iff order_le_less)
  ultimately show ?thesis using r by blast
qed

lemma id2_insert_sorted:
  assumes "sorted_wrt (\<lambda>x y. mid x < mid y) xs" "\<forall>y\<in>set xs. mid y \<noteq> mid e"
  shows "sorted_wrt (\<lambda>x y. mid x < mid y) (id2_insert e xs)"
proof -
  let ?P = "\<lambda>y. mid y < mid e"
  have split: "xs = takeWhile ?P xs @ dropWhile ?P xs" by simp
  have lt: "\<forall>x\<in>set (takeWhile ?P xs). mid x < mid e" by (auto dest: set_takeWhileD)
  have gt: "\<forall>x\<in>set (dropWhile ?P xs). mid e < mid x"
  proof (cases "dropWhile ?P xs")
    case (Cons y ys)
    then have "\<not> ?P y" by (metis hd_dropWhile list.discI list.sel(1))
    moreover have "y \<in> set xs" using Cons by (metis list.set_intros(1) set_dropWhileD)
    ultimately have y: "mid e < mid y" using assms(2) by force
    have "sorted_wrt (\<lambda>x y. mid x < mid y) (y # ys)"
      using assms(1) Cons split by (metis sorted_wrt_append)
    then show ?thesis using y Cons by auto
  next
    case Nil
    then show ?thesis by (simp only: list.set ball_empty)
  qed
  have "sorted_wrt (\<lambda>x y. mid x < mid y) (takeWhile ?P xs)"
       "sorted_wrt (\<lambda>x y. mid x < mid y) (dropWhile ?P xs)"
    using assms(1) split by (metis sorted_wrt_append)+
  then show ?thesis using lt gt
    by (fastforce simp: id2_insert_def sorted_wrt_append dest: less_trans)
qed

lemma insert_cell_eq:
  assumes "xs = e0 # E @ t # T" "length E = unat (mid e0)" "length E + 1 < 2 ^ 32" "1 \<le> r" "r \<le> length E + 1"
  shows "insert_cell xs r e = Some (e0\<lparr>mid := mid e0 + 1\<rparr> # take (r - 1) E @ e # drop (r - 1) E @ T)"
proof -
  let ?e = "e0\<lparr>mid := mid e0 + 1\<rparr>"
  have u: "u32 (unat (mid e0 + 1)) = length E + 1"
    using assms(2,3) by (simp add: unat_word_ariths u32_id)
  obtain q where q: "r = Suc q" "q \<le> length E" using assms(4,5) by (cases r) auto
  have "shift_up (?e # E @ t # T) (length E + 1) r =
      Some (take (r + 1) (?e # E @ t # T) @ take (length E + 1 - r) (drop r (?e # E @ t # T)) @
            drop (length E + 1 + 1) (?e # E @ t # T))"
    by (rule shift_up_eq) (use assms in auto)
  also have "\<dots> = Some (?e # take (Suc q) (E @ t # T) @ drop q E @ T)"
    using q by simp
  finally have sh: "shift_up (?e # E @ t # T) (length E + 1) r =
      Some (?e # take (Suc q) (E @ t # T) @ drop q E @ T)" .
  have tk: "take (Suc q) (E @ t # T) = take q E @ [(E @ t # T) ! q]"
    using q(2) take_Suc_conv_app_nth [of q "E @ t # T"] by (simp del: take_append add: take_append [of q])
  have "wr (?e # take (Suc q) (E @ t # T) @ drop q E @ T) r e = Some (?e # take q E @ e # drop q E @ T)"
    using q tk by (simp add: list_update_append)
  then show ?thesis using assms(1) u sh q by (simp add: insert_cell_def)
qed

text \<open>
  Property C31.
  Inserting into the ascending dirty list rejects a duplicate key with -1 and a full list
  with -2, both without change, and otherwise puts the entry at its place in the ascending
  order. The array has room for one entry more than are in use.
\<close>

theorem mdb_mid2l_insert_correct:
  assumes "id2l_sorted xs" "unat (mid (xs ! 0)) + 1 < length xs"
  shows "\<exists>rc ys. mdb_mid2l_insert xs e = Some (rc, ys) \<and> id2l_sorted ys \<and>
           (if mid e \<in> mid ` set (id2_elems xs) then rc = -1 \<and> ys = xs
            else if MDB_IDL_UM_MAX \<le> length (id2_elems xs) then rc = -2 \<and> ys = xs
            else rc = 0 \<and> id2_elems ys = id2_insert e (id2_elems xs))"
proof -
  obtain e0 rest where xs: "xs = e0 # rest" using assms(1) by (cases xs) (auto simp: id2l_sorted_def)
  let ?n = "unat (mid e0)"
  define E where "E = take ?n rest"
  have lenE: "length E = ?n" using assms(2) xs by (simp add: E_def)
  have el: "id2_elems xs = E" using xs by (simp add: id2_elems_def E_def)
  obtain t T where tT: "drop ?n rest = t # T"
    using assms(2) xs by (cases "drop ?n rest") auto
  have rest: "rest = E @ t # T" using tT by (simp add: E_def flip: tT)
  have nth: "xs ! c = E ! (c - 1)" if "1 \<le> c" "c \<le> ?n" for c
    using that xs rest lenE by (cases c) (auto simp: nth_append)
  obtain r where r: "mdb_mid2l_search xs (mid e) = Some r" "1 \<le> r" "r \<le> ?n + 1"
    and lo: "\<forall>c. 1 \<le> c \<and> c < r \<longrightarrow> mid (xs ! c) < mid e"
    and hi: "\<forall>c. r \<le> c \<and> c \<le> ?n \<longrightarrow> mid e \<le> mid (xs ! c)"
    using mdb_mid2l_search_correct [OF assms(1), of "mid e"] xs by auto
  have tw: "takeWhile (\<lambda>y. mid y < mid e) E = take (r - 1) E"
  proof (rule takeWhile_eq_take_P_nth)
    show "mid (E ! i) < mid e" if "i < r - 1" "i < length E" for i
      using lo [rule_format, of "Suc i"] nth [of "Suc i"] that lenE by simp
    show "\<not> mid (E ! (r - 1)) < mid e" if "r - 1 < length E"
      using hi [rule_format, of r] nth [of r] that lenE r(2) by (simp add: not_less)
  qed
  have dw: "dropWhile (\<lambda>y. mid y < mid e) E = drop (r - 1) E"
    using tw by (metis append_eq_conv_conj append_take_drop_id dropWhile_eq_drop length_take takeWhile_dropWhile_id)
  have dup: "(r \<le> ?n \<and> mid (xs ! r) = mid e) = (mid e \<in> mid ` set E)"
  proof
    assume "r \<le> ?n \<and> mid (xs ! r) = mid e"
    then show "mid e \<in> mid ` set E" using nth [OF r(2)] lenE r(2)
      by (metis (no_types, lifting) Suc_le_eq Suc_pred' image_eqI less_eq_Suc_le nth_mem One_nat_def)
  next
    assume "mid e \<in> mid ` set E"
    then obtain i where i: "i < ?n" "mid (E ! i) = mid e" using lenE by (auto simp: in_set_conv_nth)
    then have "mid (xs ! Suc i) = mid e" using nth [of "Suc i"] by simp
    then have ge: "r \<le> Suc i" using lo [rule_format, of "Suc i"] by (metis le_add1 less_irrefl not_le_imp_less plus_1_eq_Suc)
    have "mid e \<le> mid (xs ! r)" using hi ge i(1) by simp
    moreover have "mid (xs ! r) \<le> mid e"
      using id2l_sorted_less [OF assms(1) r(2), of "Suc i"] ge i(1) \<open>mid (xs ! Suc i) = mid e\<close> xs
      by (cases "r = Suc i") (auto simp: less_imp_le)
    ultimately show "r \<le> ?n \<and> mid (xs ! r) = mid e" using ge i(1) by simp
  qed
  let ?dup = "mid e \<in> mid ` set E"
  have unf: "mdb_mid2l_insert xs e =
      (if ?dup then Some (-1, xs) else if MDB_IDL_UM_MAX \<le> ?n then Some (-2, xs)
       else do { ys \<leftarrow> insert_cell xs r e; Some (0, ys) })"
    using r xs dup assms(2) by (auto simp: mdb_mid2l_insert_def)
  show ?thesis
  proof (cases "?dup \<or> MDB_IDL_UM_MAX \<le> ?n")
    case True
    then show ?thesis using unf assms(1) el lenE by auto
  next
    case False
    let ?ys = "e0\<lparr>mid := mid e0 + 1\<rparr> # take (r - 1) E @ e # drop (r - 1) E @ T"
    have small: "length E + 1 < 2 ^ 32" using False lenE by simp
    have ic: "insert_cell xs r e = Some ?ys"
      by (rule insert_cell_eq) (use xs rest lenE small r in auto)
    have u: "unat (mid e0 + 1) = ?n + 1" using False by (simp add: unat_word_ariths)
    have ey: "id2_elems ?ys = id2_insert e E"
    proof -
      let ?F = "take (r - 1) E @ e # drop (r - 1) E"
      have "length ?F = unat (mid e0 + 1)" using u lenE r(3) by simp
      then have "take (unat (mid e0 + 1)) (?F @ T) = ?F" by (metis append_eq_conv_conj)
      then show ?thesis unfolding id2_insert_def tw dw by (simp add: id2_elems_def)
    qed
    have "sorted_wrt (\<lambda>x y. mid x < mid y) E" using assms(1) el by (simp add: id2l_sorted_def)
    then have "sorted_wrt (\<lambda>x y. mid x < mid y) (id2_insert e E)"
      by (rule id2_insert_sorted) (metis False image_eqI)
    then have "id2l_sorted ?ys" using ey u False lenE r(3) by (simp add: id2l_sorted_def)
    then show ?thesis using unf ic False ey el lenE by auto
  qed
qed

theorem mdb_mid2l_insert_correct_witness:
  "\<exists>ys. mdb_mid2l_insert [\<lparr>mid = 1, mptr = ()\<rparr>, \<lparr>mid = 5, mptr = ()\<rparr>, \<lparr>mid = 0, mptr = ()\<rparr>] \<lparr>mid = 3, mptr = ()\<rparr>
     = Some (0, ys) \<and> id2l_sorted ys \<and> map mid (id2_elems ys) = [3, 5]"
proof -
  have h: "id2l_sorted [\<lparr>mid = 1, mptr = ()\<rparr>, \<lparr>mid = 5, mptr = ()\<rparr>, \<lparr>mid = 0, mptr = ()\<rparr>]"
    by (simp add: id2l_sorted_def id2_elems_def)
  show ?thesis
    using mdb_mid2l_insert_correct [OF h, of "\<lparr>mid = 3, mptr = ()\<rparr>"]
    by (auto simp: id2_elems_def id2_insert_def)
qed

end
