(* ===== verification/Midl_Sort.thy ===== *)
theory Midl_Sort
  imports Midl
begin

text \<open>
  \<^verbatim>\<open>mdb_midl_sort\<close> of \<^verbatim>\<open>src/core/lmdb/midl.c\<close>: an in-place quicksort with an explicit stack
  of 64 machine integers and insertion sort for short segments, sorting the cells
  \<open>1 .. ids[0]\<close> in descending order. The model keeps the array, the stack array and the
  indices of the source; \<open>None\<close> is an access outside the ID array or outside the stack,
  so returning \<open>Some\<close> includes that the two scanning loops stop at their sentinels and that
  64 stack cells are enough. The indices are \<^verbatim>\<open>int\<close>s that do not become negative once
  \<^verbatim>\<open>(int)ids[0]\<close> is not; they are \<open>nat\<close> here, and the two sums that can exceed \<^verbatim>\<open>INT_MAX\<close>
  (\<^verbatim>\<open>l + ir\<close> and \<^verbatim>\<open>j++\<close> past the end of the segment) are \<open>int_sum\<close>, which is \<open>None\<close> on
  signed overflow.
\<close>

section \<open>Model\<close>

definition SMALL :: nat where "SMALL = 8"

text \<open>The sum of two \<^verbatim>\<open>int\<close>s that are not negative; signed overflow is undefined behaviour.\<close>

definition int_sum :: "nat \<Rightarrow> nat \<Rightarrow> nat option" where
  "int_sum a b = (if a + b < 2 ^ 31 then Some (a + b) else None)"

definition midl_swap :: "'a list \<Rightarrow> nat \<Rightarrow> nat \<Rightarrow> 'a list option" where
  "midl_swap xs p q =
     do { a \<leftarrow> rd xs p; b \<leftarrow> rd xs q; xs \<leftarrow> wr xs p b; wr xs q a }"

text \<open>\<^verbatim>\<open>if (ids[p] < ids[q]) MIDL_SWAP (ids[p], ids[q])\<close>\<close>

definition midl_order :: "idl \<Rightarrow> nat \<Rightarrow> nat \<Rightarrow> idl option" where
  "midl_order xs p q =
     do { a \<leftarrow> rd xs p; b \<leftarrow> rd xs q; if a < b then midl_swap xs p q else Some xs }"

text \<open>The inner loop of the insertion sort, with its \<^verbatim>\<open>break\<close>; returns the final \<^verbatim>\<open>i\<close>.\<close>

fun ins_shift :: "idl \<Rightarrow> mdb_id \<Rightarrow> nat \<Rightarrow> (idl \<times> nat) option" where
  "ins_shift xs a 0 = Some (xs, 0)"
| "ins_shift xs a (Suc i) =
     do {
       v \<leftarrow> rd xs (Suc i);
       if a \<le> v then Some (xs, Suc i)
       else do { xs \<leftarrow> wr xs (Suc (Suc i)) v; ins_shift xs a i }
     }"

function ins_sort :: "idl \<Rightarrow> nat \<Rightarrow> nat \<Rightarrow> idl option" where
  "ins_sort xs j ir =
     (if j \<le> ir
      then do {
        a \<leftarrow> rd xs j;
        (xs, i) \<leftarrow> ins_shift xs a (j - 1);
        xs \<leftarrow> wr xs (i + 1) a;
        j' \<leftarrow> int_sum j 1;
        ins_sort xs j' ir
      }
      else Some xs)"
  by pat_completeness auto
termination
  by (relation "measure (\<lambda>(xs, j, ir). ir + 1 - j)") (auto simp: int_sum_def split: if_splits)

declare ins_sort.simps [simp del]

text \<open>\<^verbatim>\<open>do i++; while (ids[i] > a)\<close> and \<^verbatim>\<open>do j--; while (ids[j] < a)\<close>\<close>

function scan_up :: "idl \<Rightarrow> mdb_id \<Rightarrow> nat \<Rightarrow> nat option" where
  "scan_up xs a i =
     do { v \<leftarrow> rd xs (i + 1); if a < v then scan_up xs a (i + 1) else Some (i + 1) }"
  by pat_completeness auto
termination
  by (relation "measure (\<lambda>(xs, a, i). length xs - i)") (auto simp: rd_Some_iff)

declare scan_up.simps [simp del]

fun scan_down :: "idl \<Rightarrow> mdb_id \<Rightarrow> nat \<Rightarrow> nat option" where
  "scan_down xs a 0 = None"
| "scan_down xs a (Suc j) =
     do { v \<leftarrow> rd xs j; if v < a then scan_down xs a j else Some j }"

partial_function (option) partition_loop ::
  "idl \<Rightarrow> mdb_id \<Rightarrow> nat \<Rightarrow> nat \<Rightarrow> (idl \<times> nat \<times> nat) option" where
  "partition_loop xs a i j =
     do {
       i \<leftarrow> scan_up xs a i;
       j \<leftarrow> scan_down xs a j;
       if j < i then Some (xs, i, j)
       else do { xs \<leftarrow> midl_swap xs i j; partition_loop xs a i j }
     }"

definition partition_step :: "idl \<Rightarrow> nat \<Rightarrow> nat \<Rightarrow> (idl \<times> nat \<times> nat) option" where
  "partition_step xs l ir =
     do {
       s \<leftarrow> int_sum l ir;
       let k = s div 2;
       xs \<leftarrow> midl_swap xs k (l + 1);
       xs \<leftarrow> midl_order xs l ir;
       xs \<leftarrow> midl_order xs (l + 1) ir;
       xs \<leftarrow> midl_order xs l (l + 1);
       a \<leftarrow> rd xs (l + 1);
       (xs, i, j) \<leftarrow> partition_loop xs a (l + 1) ir;
       v \<leftarrow> rd xs j;
       xs \<leftarrow> wr xs (l + 1) v;
       xs \<leftarrow> wr xs j a;
       Some (xs, i, j)
     }"

partial_function (option) sort_loop ::
  "idl \<Rightarrow> nat list \<Rightarrow> nat \<Rightarrow> nat \<Rightarrow> nat \<Rightarrow> idl option" where
  "sort_loop xs istack jstack l ir =
     (if ir < l + SMALL
      then do {
        xs \<leftarrow> ins_sort xs (l + 1) ir;
        if jstack = 0 then Some xs
        else do {
          ir \<leftarrow> rd istack jstack;
          l \<leftarrow> rd istack (jstack - 1);
          sort_loop xs istack (jstack - 2) l ir
        }
      }
      else do {
        (xs, i, j) \<leftarrow> partition_step xs l ir;
        let jstack = jstack + 2;
        if int j - int l \<le> int ir - int i + 1
        then do {
          istack \<leftarrow> wr istack jstack ir;
          istack \<leftarrow> wr istack (jstack - 1) i;
          sort_loop xs istack jstack l (j - 1)
        }
        else do {
          istack \<leftarrow> wr istack jstack (j - 1);
          istack \<leftarrow> wr istack (jstack - 1) l;
          sort_loop xs istack jstack i ir
        }
      })"

text \<open>
  \<open>istack\<close> is the uninitialised \<^verbatim>\<open>int istack[sizeof (int) * CHAR_BIT * 2]\<close>. A count whose
  \<^verbatim>\<open>(int)\<close> cast is negative gives an insertion sort of no cells, except that \<^verbatim>\<open>ir - l\<close> overflows for
  \<^verbatim>\<open>INT_MIN\<close>.
\<close>

definition mdb_midl_sort :: "nat list \<Rightarrow> idl \<Rightarrow> idl option" where
  "mdb_midl_sort istack xs =
     do {
       n \<leftarrow> rd xs 0;
       let ir = sint (ucast n :: 32 word);
       if ir = - (2 ^ 31) then None
       else if ir < 0 then Some xs
       else sort_loop xs istack 0 1 (nat ir)
     }"

section \<open>Permutations of one segment\<close>

text \<open>\<open>ys\<close> is \<open>xs\<close> with the cells \<open>l .. r\<close> permuted.\<close>

definition seg_perm :: "nat \<Rightarrow> nat \<Rightarrow> 'a list \<Rightarrow> 'a list \<Rightarrow> bool" where
  "seg_perm l r xs ys \<longleftrightarrow>
     length ys = length xs \<and> take l ys = take l xs \<and>
     drop (Suc r) ys = drop (Suc r) xs \<and> mset ys = mset xs"

lemma seg_perm_refl [simp]: "seg_perm l r xs xs"
  by (simp add: seg_perm_def)

lemma seg_perm_trans: "seg_perm l r xs ys \<Longrightarrow> seg_perm l r ys zs \<Longrightarrow> seg_perm l r xs zs"
  by (simp add: seg_perm_def)

lemma seg_perm_length: "seg_perm l r xs ys \<Longrightarrow> length ys = length xs"
  by (simp add: seg_perm_def)

lemma seg_perm_outside:
  assumes "seg_perm l r xs ys" "p < l \<or> r < p" "p < length xs"
  shows "ys ! p = xs ! p"
  using assms(2)
proof
  assume "p < l"
  then show ?thesis using assms(1) by (metis nth_take seg_perm_def)
next
  assume r: "r < p"
  have "drop (Suc r) ys ! (p - Suc r) = drop (Suc r) xs ! (p - Suc r)"
    using assms(1) by (simp only: seg_perm_def)
  then show ?thesis
    using r assms(3) seg_perm_length [OF assms(1)] by (simp only: nth_drop Suc_leI le_add_diff_inverse)
qed

lemma seg_split: "l \<le> Suc r \<Longrightarrow> xs = take l xs @ take (Suc r - l) (drop l xs) @ drop (Suc r) xs"
  by (metis append_take_drop_id drop_drop le_add_diff_inverse2)

lemma seg_perm_inside:
  assumes "seg_perm l r xs ys" "l \<le> p" "p \<le> r" "r < length xs"
  shows "\<exists>q. l \<le> q \<and> q \<le> r \<and> ys ! p = xs ! q"
proof -
  let ?mid = "\<lambda>zs. take (Suc r - l) (drop l zs)"
  have le: "l \<le> Suc r" using assms(2,3) by simp
  have "mset (take l xs) + (mset (?mid xs) + mset (drop (Suc r) xs)) = mset xs" for xs :: "'a list"
    using seg_split [OF le, of xs] by (metis mset_append)
  then have "mset (?mid ys) = mset (?mid xs)"
    using assms(1) unfolding seg_perm_def by (metis add_left_cancel add_right_cancel)
  then have eq: "set (?mid ys) = set (?mid xs)" by (rule mset_eq_setD)
  have len: "length ys = length xs" by (rule seg_perm_length [OF assms(1)])
  have "?mid ys ! (p - l) = ys ! p" "p - l < length (?mid ys)"
    using assms(2-4) len by auto
  then have "ys ! p \<in> set (?mid xs)" using eq nth_mem by metis
  then obtain i where i: "i < length (?mid xs)" "?mid xs ! i = ys ! p" by (auto simp: in_set_conv_nth)
  then show ?thesis using assms(4) by (intro exI [of _ "l + i"]) auto
qed

lemma seg_perm_swap:
  assumes "l \<le> p" "p \<le> r" "l \<le> q" "q \<le> r" "r < length xs"
  shows "seg_perm l r xs (xs[p := xs ! q, q := xs ! p])"
  using assms by (simp add: seg_perm_def mset_swap)

lemma midl_swap_eq:
  "p < length xs \<Longrightarrow> q < length xs \<Longrightarrow> midl_swap xs p q = Some (xs[p := xs ! q, q := xs ! p])"
  by (simp add: midl_swap_def)

lemma midl_order_eq:
  assumes "l \<le> p" "p \<le> r" "l \<le> q" "q \<le> r" "r < length xs"
  shows "\<exists>ys. midl_order xs p q = Some ys \<and> seg_perm l r xs ys \<and>
    ys = (if xs ! p < xs ! q then xs[p := xs ! q, q := xs ! p] else xs)"
  using assms seg_perm_swap [OF assms] by (simp add: midl_order_def midl_swap_eq)

section \<open>Insertion sort of a short segment\<close>

lemma ins_shift_eq:
  assumes "Suc i < length xs"
  shows "\<exists>i'. i' \<le> i \<and>
     ins_shift xs a i = Some (take (i' + 2) xs @ take (i - i') (drop (i' + 1) xs) @ drop (i + 2) xs, i') \<and>
     (\<forall>p. i' < p \<and> p \<le> i \<longrightarrow> xs ! p < a) \<and> (i' = 0 \<or> a \<le> xs ! i')"
  using assms
proof (induction i arbitrary: xs)
  case 0
  then show ?case by simp
next
  case (Suc i)
  show ?case
  proof (cases "a \<le> xs ! Suc i")
    case True
    have "take (Suc i + 2) xs @ take (Suc i - Suc i) (drop (Suc i + 1) xs) @ drop (Suc i + 2) xs = xs" by simp
    then show ?thesis using True Suc.prems by (intro exI [of _ "Suc i"]) (auto simp del: append_take_drop_id)
  next
    case False
    let ?ys = "xs[Suc (Suc i) := xs ! Suc i]"
    obtain i' where i': "i' \<le> i" "\<forall>p. i' < p \<and> p \<le> i \<longrightarrow> ?ys ! p < a" "i' = 0 \<or> a \<le> ?ys ! i'"
      "ins_shift ?ys a i = Some (take (i' + 2) ?ys @ take (i - i') (drop (i' + 1) ?ys) @ drop (i + 2) ?ys, i')"
      using Suc.IH [of ?ys] Suc.prems by auto
    have d: "drop (i + 2) ?ys = xs ! Suc i # drop (Suc i + 2) xs"
      using Suc.prems by (simp add: Cons_nth_drop_Suc [symmetric] drop_update_swap)
    have t: "take (i' + 2) ?ys = take (i' + 2) xs \<or> i' = i" using i'(1) by (cases "i' = i") auto
    have m: "take (i - i') (drop (i' + 1) ?ys) = take (i - i') (drop (i' + 1) xs)"
      using i'(1) by (simp add: drop_update_swap)
    have m2: "take (Suc i - i') (drop (i' + 1) xs) = take (i - i') (drop (i' + 1) xs) @ [xs ! Suc i]"
      using i'(1) Suc.prems by (simp add: Suc_diff_le take_Suc_conv_app_nth)
    have t1: "take (i' + 2) ?ys = take (i' + 2) xs" using i'(1) by simp
    have "ins_shift xs a (Suc i) = Some (take (i' + 2) xs @ take (Suc i - i') (drop (i' + 1) xs) @ drop (Suc i + 2) xs, i')"
      using False Suc.prems i'(4) d m m2 t1 by simp
    moreover have "\<forall>p. i' < p \<and> p \<le> Suc i \<longrightarrow> xs ! p < a"
      using i'(1,2) False by (auto simp: le_Suc_eq nth_list_update)
    moreover have "i' = 0 \<or> a \<le> xs ! i'" using i'(1,3) by auto
    ultimately show ?thesis using i'(1) by (intro exI [of _ i']) auto
  qed
qed

text \<open>One round of the insertion sort rotates cell \<open>j\<close> into its place.\<close>

lemma ins_round:
  assumes l: "1 \<le> l" "l < j" "j < length xs"
    and sorted: "\<forall>p q. l \<le> p \<and> p < q \<and> q < j \<longrightarrow> xs ! q \<le> xs ! p"
    and bound: "l = 1 \<or> xs ! j \<le> xs ! (l - 1)"
  shows "\<exists>xs' i ys. ins_shift xs (xs ! j) (j - 1) = Some (xs', i) \<and> wr xs' (i + 1) (xs ! j) = Some ys \<and>
     seg_perm l j xs ys \<and> (\<forall>p q. l \<le> p \<and> p < q \<and> q \<le> j \<longrightarrow> ys ! q \<le> ys ! p)"
proof -
  let ?a = "xs ! j"
  obtain i where i: "i \<le> j - 1" "\<forall>p. i < p \<and> p \<le> j - 1 \<longrightarrow> xs ! p < ?a" "i = 0 \<or> ?a \<le> xs ! i"
    and sh: "ins_shift xs ?a (j - 1) =
        Some (take (i + 2) xs @ take (j - 1 - i) (drop (i + 1) xs) @ drop (j - 1 + 2) xs, i)"
    using ins_shift_eq [of "j - 1" xs ?a] l by auto
  have li: "l - 1 \<le> i"
  proof (rule ccontr)
    assume "\<not> l - 1 \<le> i"
    then have "xs ! (l - 1) < ?a" using i(2) l by simp
    then show False using bound \<open>\<not> l - 1 \<le> i\<close> by auto
  qed
  let ?M = "take (j - 1 - i) (drop (i + 1) xs)"
  let ?ys = "take (i + 1) xs @ ?a # ?M @ drop (j + 1) xs"
  have ij: "i < j" "i + 1 < length xs" using i(1) l by auto
  have tk: "take (i + 2) xs = take (i + 1) xs @ [xs ! (i + 1)]"
    using ij take_Suc_conv_app_nth [of "i + 1" xs] by simp
  have w: "wr (take (i + 2) xs @ ?M @ drop (j - 1 + 2) xs) (i + 1) ?a = Some ?ys"
    using ij l tk by (simp add: list_update_append wr_def)
  have lenM: "length ?M = j - 1 - i" using l ij by simp
  have n1: "?ys ! p = xs ! p" if "p \<le> i" for p
    using that ij by (simp add: nth_append)
  have n2: "?ys ! (i + 1) = ?a" using ij by (simp add: nth_append)
  have n3: "?ys ! p = xs ! (p - 1)" if "i + 1 < p" "p \<le> j" for p
  proof -
    define d where "d = p - (i + 2)"
    have d: "p = i + 2 + d" using that(1) by (simp add: d_def)
    then have "d < j - 1 - i" using that(2) by simp
    then show ?thesis using d ij lenM by (simp add: nth_append)
  qed
  have xs_split: "xs = take (i + 1) xs @ ?M @ ?a # drop (j + 1) xs"
  proof -
    have "xs = take (i + 1) xs @ ?M @ drop j xs"
      using seg_split [of "i + 1" "j - 1" xs] ij by simp
    then show ?thesis using l(3) by (metis Cons_nth_drop_Suc Suc_eq_plus1)
  qed
  have "mset ?ys = mset xs" by (subst (5) xs_split) simp
  moreover have "drop (Suc j) ?ys = drop (Suc j) xs"
  proof -
    have "?ys = (take (i + 1) xs @ ?a # ?M) @ drop (j + 1) xs" by simp
    moreover have "length (take (i + 1) xs @ ?a # ?M) = Suc j" using ij lenM by simp
    ultimately show ?thesis by (metis Suc_eq_plus1 append_eq_conv_conj)
  qed
  moreover have "take l ?ys = take l xs" using li ij by simp
  moreover have "length ?ys = length xs" using l(3) ij lenM by simp
  ultimately have "seg_perm l j xs ?ys" by (simp only: seg_perm_def simp_thms)
  moreover have "?ys ! q \<le> ?ys ! p" if "l \<le> p" "p < q" "q \<le> j" for p q
  proof -
    consider "q \<le> i" | "q = i + 1" | "p \<le> i" "i + 1 < q" | "p = i + 1" | "i + 1 < p" using that by linarith
    then show ?thesis
    proof cases
      case 1 then show ?thesis using n1 [of p] n1 [of q] sorted that ij by simp
    next
      case 2
      have pi: "p \<le> i" using 2 that by simp
      have "?a \<le> xs ! i" using i(3) pi that l by auto
      also have "xs ! i \<le> xs ! p" using sorted pi that ij by (cases "p = i") auto
      finally have "?a \<le> xs ! p" .
      then show ?thesis using 2 n1 [of p] n2 that by simp
    next
      case 3
      then have "l \<le> p \<and> p < q - 1 \<and> q - 1 < j" using that by linarith
      then have "xs ! (q - 1) \<le> xs ! p" using sorted by blast
      then show ?thesis using 3 n1 [of p] n3 [of q] that by simp
    next
      case 4
      then have "i < q - 1 \<and> q - 1 \<le> j - 1" using that by linarith
      then have "xs ! (q - 1) < ?a" using i(2) by blast
      then show ?thesis using 4 n2 n3 [of q] that by (simp add: less_imp_le)
    next
      case 5
      then have "l \<le> p - 1 \<and> p - 1 < q - 1 \<and> q - 1 < j" using that li by linarith
      then have "xs ! (q - 1) \<le> xs ! (p - 1)" using sorted by blast
      then show ?thesis using 5 n3 [of p] n3 [of q] that by simp
    qed
  qed
  ultimately show ?thesis using sh w by blast
qed

definition seg_sorted :: "nat \<Rightarrow> nat \<Rightarrow> idl \<Rightarrow> bool" where
  "seg_sorted l r xs \<longleftrightarrow> (\<forall>p q. l \<le> p \<and> p < q \<and> q \<le> r \<longrightarrow> xs ! q \<le> xs ! p)"

lemma seg_perm_mono: "seg_perm l r xs ys \<Longrightarrow> r \<le> r' \<Longrightarrow> seg_perm l r' xs ys"
  unfolding seg_perm_def by (metis Suc_le_mono drop_drop le_add_diff_inverse2)

lemma seg_perm_mono_left: "seg_perm l r xs ys \<Longrightarrow> l' \<le> l \<Longrightarrow> seg_perm l' r xs ys"
  unfolding seg_perm_def by (metis min.absorb1 take_take)

lemma ins_sort_correct:
  assumes "1 \<le> l" "l < j" "ir < length xs" "seg_sorted l (j - 1) xs"
    "\<forall>p. l \<le> p \<and> p \<le> ir \<longrightarrow> l = 1 \<or> xs ! p \<le> xs ! (l - 1)" "ir + 1 < 2 ^ 31"
  shows "\<exists>ys. ins_sort xs j ir = Some ys \<and> seg_perm l ir xs ys \<and> (l \<le> ir \<longrightarrow> seg_sorted l ir ys)"
  using assms
proof (induction xs j ir rule: ins_sort.induct)
  case (1 xs j ir)
  show ?case
  proof (cases "j \<le> ir")
    case False
    then show ?thesis using "1.prems" by (auto simp: ins_sort.simps [of xs j ir] seg_sorted_def)
  next
    case True
    obtain xs' i ys where r: "ins_shift xs (xs ! j) (j - 1) = Some (xs', i)" "wr xs' (i + 1) (xs ! j) = Some ys"
      "seg_perm l j xs ys" "\<forall>p q. l \<le> p \<and> p < q \<and> q \<le> j \<longrightarrow> ys ! q \<le> ys ! p"
      using ins_round [of l j xs] "1.prems" True unfolding seg_sorted_def by force
    note len = seg_perm_length [OF r(3)]
    have rd: "rd xs j = Some (xs ! j)" using True "1.prems"(3) by simp
    have sum: "int_sum j 1 = Some (j + 1)" using "1.prems"(6) True by (simp add: int_sum_def)
    have "\<exists>zs. ins_sort ys (j + 1) ir = Some zs \<and> seg_perm l ir ys zs \<and> (l \<le> ir \<longrightarrow> seg_sorted l ir zs)"
    proof (rule "1.IH" [OF True rd r(1) refl r(2) sum])
      show "1 \<le> l" "l < j + 1" "ir < length ys" "ir + 1 < 2 ^ 31"
        using "1.prems" len True by auto
      show "seg_sorted l (j + 1 - 1) ys" using r(4) by (simp add: seg_sorted_def)
      show "\<forall>p. l \<le> p \<and> p \<le> ir \<longrightarrow> l = 1 \<or> ys ! p \<le> ys ! (l - 1)"
      proof (intro allI impI)
        fix p assume p: "l \<le> p \<and> p \<le> ir"
        have b: "ys ! (l - 1) = xs ! (l - 1)"
          using seg_perm_outside [OF r(3), of "l - 1"] "1.prems"(1-3) True by simp
        obtain q where "l \<le> q" "q \<le> ir" "ys ! p = xs ! q"
          using seg_perm_inside [OF seg_perm_mono [OF r(3) True], of p] p "1.prems"(3) by blast
        then show "l = 1 \<or> ys ! p \<le> ys ! (l - 1)" using "1.prems"(5) b by metis
      qed
    qed
    then obtain zs where "ins_sort ys (j + 1) ir = Some zs" "seg_perm l ir ys zs" "l \<le> ir \<longrightarrow> seg_sorted l ir zs"
      by blast
    then show ?thesis
      using True rd r sum seg_perm_trans [OF seg_perm_mono [OF r(3) True]] by (auto simp: ins_sort.simps [of xs j ir])
  qed
qed

section \<open>Partitioning\<close>

lemma scan_up_eq:
  assumes "i < s" "s < length xs" "\<not> a < xs ! s"
  shows "\<exists>i'. scan_up xs a i = Some i' \<and> i < i' \<and> i' \<le> s \<and> \<not> a < xs ! i' \<and> (\<forall>p. i < p \<and> p < i' \<longrightarrow> a < xs ! p)"
  using assms
proof (induction xs a i rule: scan_up.induct)
  case (1 xs a i)
  have rd: "rd xs (i + 1) = Some (xs ! (i + 1))" using "1.prems" by simp
  show ?case
  proof (cases "a < xs ! (i + 1)")
    case True
    then have "i + 1 < s" using "1.prems" by (metis Suc_eq_plus1 Suc_lessI)
    then obtain i' where i': "scan_up xs a (i + 1) = Some i'" "i + 1 < i'" "i' \<le> s" "\<not> a < xs ! i'"
      "\<forall>p. i + 1 < p \<and> p < i' \<longrightarrow> a < xs ! p"
      using "1.IH" [OF rd True] "1.prems" by blast
    have "a < xs ! p" if "i < p" "p < i'" for p
      using i'(5) True that by (cases "p = i + 1") auto
    then show ?thesis using i' rd True by (subst scan_up.simps) auto
  next
    case False
    then show ?thesis using rd "1.prems" by (subst scan_up.simps) auto
  qed
qed

lemma scan_down_eq:
  assumes "s < j" "j \<le> length xs" "\<not> xs ! s < a"
  shows "\<exists>j'. scan_down xs a j = Some j' \<and> s \<le> j' \<and> j' < j \<and> \<not> xs ! j' < a \<and> (\<forall>p. j' < p \<and> p < j \<longrightarrow> xs ! p < a)"
  using assms
proof (induction j)
  case (Suc j)
  show ?case
  proof (cases "xs ! j < a")
    case True
    then have "s < j" using Suc.prems by (metis less_Suc_eq)
    then obtain j' where j': "scan_down xs a j = Some j'" "s \<le> j'" "j' < j" "\<not> xs ! j' < a"
      "\<forall>p. j' < p \<and> p < j \<longrightarrow> xs ! p < a"
      using Suc.IH Suc.prems by auto
    have "xs ! p < a" if "j' < p" "p < Suc j" for p
      using j'(5) True that by (cases "p = j") auto
    then show ?thesis using j' True Suc.prems by auto
  next
    case False
    then show ?thesis using Suc.prems by auto
  qed
qed simp

definition part_inv :: "nat \<Rightarrow> nat \<Rightarrow> mdb_id \<Rightarrow> idl \<Rightarrow> nat \<Rightarrow> nat \<Rightarrow> bool" where
  "part_inv l ir a xs i j \<longleftrightarrow>
     l + 1 \<le> i \<and> i < ir \<and> l + 1 < j \<and> j \<le> ir \<and> ir < length xs \<and> xs ! (l + 1) = a \<and>
     (\<forall>p. l \<le> p \<and> p \<le> i \<longrightarrow> a \<le> xs ! p) \<and> (\<forall>p. j \<le> p \<and> p \<le> ir \<longrightarrow> xs ! p \<le> a)"

lemma partition_loop_correct:
  assumes "part_inv l ir a xs i j"
  shows "\<exists>ys i' j'. partition_loop xs a i j = Some (ys, i', j') \<and> seg_perm l ir xs ys \<and>
     l + 1 \<le> j' \<and> j' < i' \<and> i' \<le> ir \<and> ys ! (l + 1) = a \<and> a \<le> ys ! j' \<and>
     (\<forall>p. l \<le> p \<and> p < i' \<longrightarrow> a \<le> ys ! p) \<and> (\<forall>p. j' < p \<and> p \<le> ir \<longrightarrow> ys ! p \<le> a)"
  using assms
proof (induction "ir - i" arbitrary: xs i j rule: less_induct)
  case less
  note I = less.prems [unfolded part_inv_def]
  have su: "\<not> a < xs ! ir" and sd: "\<not> xs ! (l + 1) < a" and jl: "j \<le> length xs"
    using I by (auto simp: not_less)
  obtain i' where i': "scan_up xs a i = Some i'" "i < i'" "i' \<le> ir" "\<not> a < xs ! i'"
    "\<forall>p. i < p \<and> p < i' \<longrightarrow> a < xs ! p"
    using scan_up_eq [OF _ _ su, of i] I by blast
  obtain j' where j': "scan_down xs a j = Some j'" "l + 1 \<le> j'" "j' < j" "\<not> xs ! j' < a"
    "\<forall>p. j' < p \<and> p < j \<longrightarrow> xs ! p < a"
    using scan_down_eq [OF _ jl sd] I by blast
  have ge: "\<forall>p. l \<le> p \<and> p < i' \<longrightarrow> a \<le> xs ! p"
    using I i'(5) by (metis less_imp_le not_le)
  have le: "\<forall>p. j' < p \<and> p \<le> ir \<longrightarrow> xs ! p \<le> a"
    using I j'(5) by (metis less_imp_le not_le)
  have unf: "partition_loop xs a i j =
      (if j' < i' then Some (xs, i', j') else do { xs \<leftarrow> midl_swap xs i' j'; partition_loop xs a i' j' })"
    using i'(1) j'(1) by (subst partition_loop.simps) simp
  show ?case
  proof (cases "j' < i'")
    case True
    then show ?thesis using unf I i' j' ge le by (auto simp: not_less)
  next
    case False
    let ?ys = "xs[i' := xs ! j', j' := xs ! i']"
    have b: "i' \<le> j'" "j' < ir" "l + 1 < i'" using False j'(3) I i'(2) by auto
    have sw: "midl_swap xs i' j' = Some ?ys" using b I by (simp add: midl_swap_eq)
    have sp: "seg_perm l ir xs ?ys" using b I i'(2) by (intro seg_perm_swap) auto
    have pinv: "part_inv l ir a ?ys i' j'"
      unfolding part_inv_def
    proof (intro conjI allI impI)
      show "?ys ! (l + 1) = a" using b I by simp
      show "a \<le> ?ys ! p" if "l \<le> p \<and> p \<le> i'" for p
        using that ge b I j'(4) i'(4) by (auto simp: nth_list_update not_less)
      show "?ys ! p \<le> a" if "j' \<le> p \<and> p \<le> ir" for p
        using that le b I j'(4) i'(4) by (auto simp: nth_list_update not_less)
    qed (use b I in auto)
    have "ir - i' < ir - i" using i'(2) I by auto
    from less.hyps [OF this pinv] obtain zs i2 j2 where "partition_loop ?ys a i' j' = Some (zs, i2, j2)" "seg_perm l ir ?ys zs"
     "l + 1 \<le> j2" "j2 < i2" "i2 \<le> ir" "zs ! (l + 1) = a" "a \<le> zs ! j2"
     "\<forall>p. l \<le> p \<and> p < i2 \<longrightarrow> a \<le> zs ! p" "\<forall>p. j2 < p \<and> p \<le> ir \<longrightarrow> zs ! p \<le> a"
      by blast
    then show ?thesis using unf sw False seg_perm_trans [OF sp] by auto
  qed
qed

lemma median_of_three:
  assumes "l + 1 < ir" "ir < length xs"
  shows "\<exists>x2 x3 ys. midl_order xs l ir = Some x2 \<and> midl_order x2 (l + 1) ir = Some x3 \<and>
     midl_order x3 l (l + 1) = Some ys \<and> seg_perm l ir xs ys \<and>
     ys ! ir \<le> ys ! (l + 1) \<and> ys ! (l + 1) \<le> ys ! l"
proof -
  obtain x2 where x2: "midl_order xs l ir = Some x2" "seg_perm l ir xs x2"
    "x2 = (if xs ! l < xs ! ir then xs[l := xs ! ir, ir := xs ! l] else xs)"
    using midl_order_eq [of l l ir ir xs] assms by auto
  have l2: "length x2 = length xs" by (rule seg_perm_length [OF x2(2)])
  have a: "x2 ! ir \<le> x2 ! l" using x2(3) assms by (auto simp: nth_list_update)
  obtain x3 where x3: "midl_order x2 (l + 1) ir = Some x3" "seg_perm l ir x2 x3"
    "x3 = (if x2 ! (l + 1) < x2 ! ir then x2[l + 1 := x2 ! ir, ir := x2 ! (l + 1)] else x2)"
    using midl_order_eq [of l "l + 1" ir ir x2] assms l2 by auto
  have l3: "length x3 = length xs" using seg_perm_length [OF x3(2)] l2 by simp
  have b: "x3 ! ir \<le> x3 ! (l + 1)" "x3 ! ir \<le> x3 ! l"
    using x3(3) a assms l2 by (auto simp: nth_list_update)
  obtain ys where ys: "midl_order x3 l (l + 1) = Some ys" "seg_perm l ir x3 ys"
    "ys = (if x3 ! l < x3 ! (l + 1) then x3[l := x3 ! (l + 1), l + 1 := x3 ! l] else x3)"
    using midl_order_eq [of l l ir "l + 1" x3] assms l3 by auto
  have "ys ! ir \<le> ys ! (l + 1)" "ys ! (l + 1) \<le> ys ! l"
    using ys(3) b assms l3 by (auto simp: nth_list_update)
  then show ?thesis using x2 x3 ys seg_perm_trans by blast
qed

lemma partition_step_correct:
  assumes "l + 8 \<le> ir" "ir < length xs" "ir \<le> 2 ^ 30"
  shows "\<exists>ys i j a. partition_step xs l ir = Some (ys, i, j) \<and> seg_perm l ir xs ys \<and>
     l + 1 \<le> j \<and> j < i \<and> i \<le> ir \<and>
     (\<forall>p. l \<le> p \<and> p < i \<longrightarrow> a \<le> ys ! p) \<and> (\<forall>p. j \<le> p \<and> p \<le> ir \<longrightarrow> ys ! p \<le> a)"
proof -
  let ?k = "(l + ir) div 2"
  let ?x1 = "xs[?k := xs ! (l + 1), l + 1 := xs ! ?k]"
  have k: "l \<le> ?k" "?k \<le> ir" using assms by auto
  have s1: "midl_swap xs ?k (l + 1) = Some ?x1" using assms k by (simp add: midl_swap_eq)
  have p1: "seg_perm l ir xs ?x1" using assms k by (intro seg_perm_swap) auto
  have m: "l + 1 < ir" "ir < length ?x1" using assms by auto
  obtain x2 x3 x4 where med: "midl_order ?x1 l ir = Some x2" "midl_order x2 (l + 1) ir = Some x3"
     "midl_order x3 l (l + 1) = Some x4" "seg_perm l ir ?x1 x4"
     "x4 ! ir \<le> x4 ! (l + 1)" "x4 ! (l + 1) \<le> x4 ! l"
    using median_of_three [OF m] by blast
  have l4: "length x4 = length xs" using seg_perm_length [OF med(4)] by simp
  let ?a = "x4 ! (l + 1)"
  have "p = l \<or> p = l + 1" if "l \<le> p" "p \<le> l + 1" for p using that by linarith
  then have "part_inv l ir ?a x4 (l + 1) ir"
    using assms l4 med(5,6) by (auto simp: part_inv_def dest: le_antisym)
  then obtain ys i j where pl: "partition_loop x4 ?a (l + 1) ir = Some (ys, i, j)" "seg_perm l ir x4 ys"
     "l + 1 \<le> j" "j < i" "i \<le> ir" "ys ! (l + 1) = ?a" "?a \<le> ys ! j"
     "\<forall>p. l \<le> p \<and> p < i \<longrightarrow> ?a \<le> ys ! p" "\<forall>p. j < p \<and> p \<le> ir \<longrightarrow> ys ! p \<le> ?a"
    using partition_loop_correct by blast
  have ly: "length ys = length xs" using seg_perm_length [OF pl(2)] l4 by simp
  let ?zs = "ys[l + 1 := ys ! j, j := ?a]"
  have "?zs = ys[l + 1 := ys ! j, j := ys ! (l + 1)]" using pl(6) by simp
  then have pz: "seg_perm l ir ys ?zs"
    using seg_perm_swap [of l "l + 1" ir j ys] pl(3-5) assms ly by simp
  have ge: "\<forall>p. l \<le> p \<and> p < i \<longrightarrow> ?a \<le> ?zs ! p"
    using pl(3-8) assms ly by (auto simp: nth_list_update)
  have le: "\<forall>p. j \<le> p \<and> p \<le> ir \<longrightarrow> ?zs ! p \<le> ?a"
    using pl(3-5,9) assms ly by (auto simp: nth_list_update)
  have "partition_step xs l ir = Some (?zs, i, j)"
    using s1 med(1-3) l4 ly pl(1,3-5) assms by (simp add: partition_step_def int_sum_def)
  moreover have "seg_perm l ir xs ?zs" using p1 med(4) pl(2) pz seg_perm_trans by blast
  ultimately show ?thesis using ge le pl(3-5) by blast
qed

section \<open>The main loop\<close>

type_synonym seg = "nat \<times> nat"

definition in_seg :: "seg \<Rightarrow> nat \<Rightarrow> bool" where
  "in_seg s p \<longleftrightarrow> fst s \<le> p \<and> p \<le> snd s"

definition seg_len :: "seg \<Rightarrow> nat" where
  "seg_len s = Suc (snd s) - fst s"

text \<open>The part of the stack array that is in use, as a list of segments, top first.\<close>

fun stack_rep :: "nat list \<Rightarrow> seg list \<Rightarrow> bool" where
  "stack_rep istack [] \<longleftrightarrow> True"
| "stack_rep istack (s # ss) \<longleftrightarrow>
     istack ! (2 * length ss + 1) = fst s \<and> istack ! (2 * length ss + 2) = snd s \<and> stack_rep istack ss"

text \<open>A pending segment at depth \<open>d\<close> is at most \<open>N / 2 ^ d\<close> long: the stack never overflows.\<close>

fun depth_ok :: "nat \<Rightarrow> seg list \<Rightarrow> bool" where
  "depth_ok N [] \<longleftrightarrow> True"
| "depth_ok N (s # ss) \<longleftrightarrow> seg_len s * 2 ^ length ss \<le> N \<and> depth_ok N ss"

fun segs_disj :: "seg list \<Rightarrow> bool" where
  "segs_disj [] \<longleftrightarrow> True"
| "segs_disj (s # ss) \<longleftrightarrow> (\<forall>t\<in>set ss. \<forall>p. \<not> (in_seg s p \<and> in_seg t p)) \<and> segs_disj ss"

definition order_inv :: "nat \<Rightarrow> seg list \<Rightarrow> idl \<Rightarrow> bool" where
  "order_inv N ss xs \<longleftrightarrow>
     (\<forall>p q. 1 \<le> p \<and> p < q \<and> q \<le> N \<longrightarrow> xs ! q \<le> xs ! p \<or> (\<exists>s\<in>set ss. in_seg s p \<and> in_seg s q))"

definition segs_in :: "nat \<Rightarrow> seg list \<Rightarrow> bool" where
  "segs_in N ss \<longleftrightarrow> (\<forall>s\<in>set ss. 1 \<le> fst s \<and> snd s \<le> N)"

definition seg_weight :: "seg list \<Rightarrow> nat" where
  "seg_weight ss = sum_list (map (\<lambda>s. 2 * seg_len s + 1) ss)"

lemma stack_rep_write: "2 * length ss < i \<Longrightarrow> stack_rep (istack[i := v]) ss = stack_rep istack ss"
  by (induction ss) auto

lemma order_inv_perm:
  assumes "order_inv N ((l, r) # ss) xs" "seg_perm l r xs ys" "segs_disj ((l, r) # ss)" "1 \<le> l" "r \<le> N" "N < length xs"
  shows "order_inv N ((l, r) # ss) ys"
  unfolding order_inv_def
proof (intro allI impI)
  fix p q assume pq: "1 \<le> p \<and> p < q \<and> q \<le> N"
  have pre: "\<exists>p'. ys ! p = xs ! p' \<and> (in_seg (l, r) p = in_seg (l, r) p') \<and> (\<not> in_seg (l, r) p \<longrightarrow> p' = p)"
    if "p \<le> N" for p
  proof (cases "in_seg (l, r) p")
    case True
    then show ?thesis using seg_perm_inside [OF assms(2), of p] assms(5,6) by (auto simp: in_seg_def)
  next
    case False
    then show ?thesis using seg_perm_outside [OF assms(2), of p] assms(6) that
      by (auto simp: in_seg_def not_le)
  qed
  show "ys ! q \<le> ys ! p \<or> (\<exists>s\<in>set ((l, r) # ss). in_seg s p \<and> in_seg s q)"
  proof (cases "in_seg (l, r) p \<and> in_seg (l, r) q")
    case True
    then show ?thesis by auto
  next
    case False
    obtain p' where p': "ys ! p = xs ! p'" "in_seg (l, r) p = in_seg (l, r) p'" "\<not> in_seg (l, r) p \<longrightarrow> p' = p"
      using pre [of p] pq by auto
    obtain q' where q': "ys ! q = xs ! q'" "in_seg (l, r) q = in_seg (l, r) q'" "\<not> in_seg (l, r) q \<longrightarrow> q' = q"
      using pre [of q] pq by auto
    have "1 \<le> p' \<and> p' < q' \<and> q' \<le> N"
    proof (cases "in_seg (l, r) p")
      case True
      then have "\<not> in_seg (l, r) q" using False by blast
      then have "r < q" "q' = q" using True pq q'(3) by (auto simp: in_seg_def)
      moreover have "l \<le> p'" "p' \<le> r" using True p'(2) by (auto simp: in_seg_def)
      ultimately show ?thesis using pq assms(4) by linarith
    next
      case outp: False
      then have p: "p' = p" using p'(3) by blast
      show ?thesis
      proof (cases "in_seg (l, r) q")
        case True
        then have "p < l" using outp pq by (auto simp: in_seg_def)
        moreover have "l \<le> q'" "q' \<le> r" using True q'(2) by (auto simp: in_seg_def)
        ultimately show ?thesis using pq p assms(5) by linarith
      qed (use p q'(3) pq in blast)
    qed
    then consider "xs ! q' \<le> xs ! p'" | s where "s \<in> set ((l, r) # ss)" "in_seg s p'" "in_seg s q'"
      using assms(1) unfolding order_inv_def by blast
    then show ?thesis
    proof cases
      case 1
      then show ?thesis using p'(1) q'(1) by simp
    next
      case 2
      show ?thesis
      proof (cases "s = (l, r)")
        case True
        then show ?thesis using 2 False p'(2) q'(2) by blast
      next
        case neq: False
        then have "\<not> in_seg (l, r) p'" "\<not> in_seg (l, r) q'" using 2 assms(3) by auto
        then have "p' = p" "q' = q" using p'(2,3) q'(2,3) by blast+
        then show ?thesis using 2 by blast
      qed
    qed
  qed
qed

lemma order_inv_sorted_seg:
  assumes "order_inv N ((l, r) # ss) xs" "seg_sorted l r xs"
  shows "order_inv N ss xs"
  using assms unfolding order_inv_def seg_sorted_def in_seg_def by fastforce

lemma order_inv_cong: "set ss = set ts \<Longrightarrow> order_inv N ss xs = order_inv N ts xs"
  by (simp add: order_inv_def)

lemma order_inv_split:
  assumes "order_inv N ((l, r) # ss) xs" "l + 1 \<le> j" "j < i" "i \<le> r"
    "\<forall>p. l \<le> p \<and> p < i \<longrightarrow> a \<le> xs ! p" "\<forall>p. j \<le> p \<and> p \<le> r \<longrightarrow> xs ! p \<le> a"
  shows "order_inv N ((l, j - 1) # (i, r) # ss) xs"
  unfolding order_inv_def
proof (intro allI impI)
  fix p q assume pq: "1 \<le> p \<and> p < q \<and> q \<le> N"
  have "xs ! q \<le> xs ! p \<or> (\<exists>s\<in>set ((l, r) # ss). in_seg s p \<and> in_seg s q)"
    using assms(1) pq unfolding order_inv_def by blast
  then consider "xs ! q \<le> xs ! p" | s where "s \<in> set ss" "in_seg s p" "in_seg s q"
    | "in_seg (l, r) p" "in_seg (l, r) q"
    unfolding list.set by blast
  then show "xs ! q \<le> xs ! p \<or> (\<exists>s\<in>set ((l, j - 1) # (i, r) # ss). in_seg s p \<and> in_seg s q)"
  proof cases
    case 3
    then have b: "l \<le> p" "q \<le> r" by (auto simp: in_seg_def)
    consider "q \<le> j - 1" | "i \<le> p" | "j \<le> q" "p < i" using assms(2) by linarith
    then show ?thesis
    proof cases
      case 1
      then have "in_seg (l, j - 1) p" "in_seg (l, j - 1) q" using b pq by (auto simp: in_seg_def)
      then show ?thesis by simp
    next
      case 2
      then have "in_seg (i, r) p" "in_seg (i, r) q" using b pq by (auto simp: in_seg_def)
      then show ?thesis by simp
    next
      case 3
      then have "xs ! q \<le> a" "a \<le> xs ! p" using assms(5,6) b by auto
      then have "xs ! q \<le> xs ! p" by (rule order_trans)
      then show ?thesis by simp
    qed
  qed auto
qed

lemma segs_disj_split:
  assumes "segs_disj ((l, r) # ss)" "j < i" "i \<le> r" "l + 1 \<le> j"
  shows "segs_disj ((l, j - 1) # (i, r) # ss)" "segs_disj ((i, r) # (l, j - 1) # ss)"
proof -
  have sub: "in_seg (l, j - 1) p \<Longrightarrow> in_seg (l, r) p" "in_seg (i, r) p \<Longrightarrow> in_seg (l, r) p"
    "\<not> (in_seg (l, j - 1) p \<and> in_seg (i, r) p)" for p
    using assms(2-4) by (auto simp: in_seg_def)
  show "segs_disj ((l, j - 1) # (i, r) # ss)" "segs_disj ((i, r) # (l, j - 1) # ss)"
    using assms(1) sub by (simp_all, blast+)
qed

lemma segment_upper_bound:
  assumes "order_inv N ((l, r) # ss) xs" "segs_disj ((l, r) # ss)" "1 \<le> l" "r \<le> N" "l \<le> p" "p \<le> r"
  shows "l = 1 \<or> xs ! p \<le> xs ! (l - 1)"
proof (cases "l = 1")
  case False
  have "in_seg (l, r) p" using assms(5,6) by (simp add: in_seg_def)
  then have "\<not> in_seg s p" if "s \<in> set ss" for s using assms(2) that by auto
  moreover have "\<not> in_seg (l, r) (l - 1)" using assms(3) False by (simp add: in_seg_def)
  moreover have "1 \<le> l - 1 \<and> l - 1 < p \<and> p \<le> N" using assms(3-6) False by linarith
  ultimately show ?thesis using assms(1) unfolding order_inv_def by (metis set_ConsD)
qed simp

text \<open>What the main loop keeps, for the current segment \<open>(l, ir)\<close> and the pending ones.\<close>

definition sort_inv :: "nat \<Rightarrow> idl \<Rightarrow> nat list \<Rightarrow> seg list \<Rightarrow> nat \<Rightarrow> nat \<Rightarrow> bool" where
  "sort_inv N xs istack stk l ir \<longleftrightarrow>
     N < length xs \<and> N \<le> 2 ^ 30 \<and> length istack = 64 \<and> 2 * length stk < 64 \<and> stack_rep istack stk \<and>
     segs_disj ((l, ir) # stk) \<and> segs_in N ((l, ir) # stk) \<and> order_inv N ((l, ir) # stk) xs \<and>
     depth_ok N ((l, ir) # stk)"

lemma sort_stack_room:
  assumes "sort_inv N xs istack stk l ir" "l + 8 \<le> ir"
  shows "2 * length stk + 2 < 64"
proof -
  have "seg_len (l, ir) * 2 ^ length stk < 2 ^ 31" using assms(1) by (simp add: sort_inv_def)
  moreover have "(2::nat) ^ 3 * 2 ^ length stk \<le> seg_len (l, ir) * 2 ^ length stk"
    using assms(2) by (intro mult_right_mono) (auto simp: seg_len_def)
  ultimately have "(2::nat) ^ (3 + length stk) < 2 ^ 31" unfolding power_add by linarith
  then have "3 + length stk < 31" by (simp only: power_strict_increasing_iff [of 2] one_less_numeral_iff semiring_norm)
  then show ?thesis by simp
qed

lemma sort_inv_push:
  assumes inv: "sort_inv N xs istack stk l ir" and perm: "seg_perm l ir xs ys"
    and b: "l + 8 \<le> ir" "l + 1 \<le> j" "j < i" "i \<le> ir"
    and part: "\<forall>p. l \<le> p \<and> p < i \<longrightarrow> a \<le> ys ! p" "\<forall>p. j \<le> p \<and> p \<le> ir \<longrightarrow> ys ! p \<le> a"
    and cd: "(c = (l, j - 1) \<and> d = (i, ir)) \<or> (c = (i, ir) \<and> d = (l, j - 1))" "seg_len c \<le> seg_len d"
  shows "sort_inv N ys (istack[2 * length stk + 2 := snd d, 2 * length stk + 1 := fst d]) (d # stk) (fst c) (snd c)"
proof -
  note I = inv [unfolded sort_inv_def]
  have in1: "1 \<le> l" "ir \<le> N" using I by (auto simp: segs_in_def)
  have o: "order_inv N ((l, ir) # stk) ys"
    using order_inv_perm [OF _ perm] I in1 by simp
  have "order_inv N (c # d # stk) ys"
    using order_inv_split [OF o b(2-4) part] cd(1) order_inv_cong [of "c # d # stk" "(l, j - 1) # (i, ir) # stk"] by auto
  moreover have "segs_disj (c # d # stk)"
    using segs_disj_split [OF _ b(3,4,2)] I cd(1) by blast
  moreover have "segs_in N (c # d # stk)"
    using I b cd(1) by (auto simp: segs_in_def)
  moreover have "depth_ok N (c # d # stk)"
  proof -
    have sum: "seg_len c + seg_len d \<le> seg_len (l, ir)" using cd(1) b by (auto simp: seg_len_def)
    have d0: "seg_len (l, ir) * 2 ^ length stk \<le> N" "depth_ok N stk" using I by auto
    have "seg_len d * 2 ^ length stk \<le> seg_len (l, ir) * 2 ^ length stk" using sum by (intro mult_right_mono) auto
    moreover have "seg_len c * 2 * 2 ^ length stk \<le> seg_len (l, ir) * 2 ^ length stk"
      using sum cd(2) by (intro mult_right_mono) auto
    moreover have "seg_len c * 2 ^ length (d # stk) = seg_len c * 2 * 2 ^ length stk" by simp
    ultimately have "seg_len d * 2 ^ length stk \<le> N \<and> seg_len c * 2 ^ length (d # stk) \<le> N"
      using d0(1) by linarith
    then show ?thesis using d0(2) by (simp only: depth_ok.simps simp_thms)
  qed
  moreover have "stack_rep (istack[2 * length stk + 2 := snd d, 2 * length stk + 1 := fst d]) (d # stk)"
    using I sort_stack_room [OF inv b(1)] by (simp add: stack_rep_write)
  ultimately show ?thesis
    using I seg_perm_length [OF perm] sort_stack_room [OF inv b(1)] unfolding sort_inv_def by (simp del: segs_disj.simps depth_ok.simps stack_rep.simps)
qed

lemma sort_loop_correct:
  assumes "sort_inv N xs istack stk l ir"
  shows "\<exists>ys. sort_loop xs istack (2 * length stk) l ir = Some ys \<and> seg_perm 1 N xs ys \<and> order_inv N [] ys"
  using assms
proof (induction "seg_weight ((l, ir) # stk)" arbitrary: xs istack stk l ir rule: less_induct)
  case less
  note I = less.prems [unfolded sort_inv_def]
  have in1: "1 \<le> l" "ir \<le> N" using I by (auto simp: segs_in_def)
  have widen: "seg_perm 1 N xs ys" if "seg_perm l ir xs ys" for ys
    using that in1 by (meson seg_perm_mono seg_perm_mono_left)
  show ?case
  proof (cases "ir < l + SMALL")
    case True
    have "\<exists>ys. ins_sort xs (l + 1) ir = Some ys \<and> seg_perm l ir xs ys \<and> (l \<le> ir \<longrightarrow> seg_sorted l ir ys)"
      using in1 I segment_upper_bound [of N l ir stk xs]
      by (intro ins_sort_correct) (auto simp: seg_sorted_def)
    then obtain ys where ys: "ins_sort xs (l + 1) ir = Some ys" "seg_perm l ir xs ys" "l \<le> ir \<longrightarrow> seg_sorted l ir ys"
      by blast
    have o: "order_inv N stk ys"
    proof (rule order_inv_sorted_seg)
      show "order_inv N ((l, ir) # stk) ys" by (rule order_inv_perm [OF _ ys(2)]) (use I in1 in blast)+
      show "seg_sorted l ir ys" using ys(3) by (cases "l \<le> ir") (auto simp: seg_sorted_def)
    qed
    show ?thesis
    proof (cases stk)
      case Nil
      then show ?thesis using True ys widen o by (subst sort_loop.simps) auto
    next
      case (Cons s rest)
      have rec: "sort_loop xs istack (2 * length stk) l ir = sort_loop ys istack (2 * length rest) (fst s) (snd s)"
        using True ys(1) Cons I by (subst sort_loop.simps) (simp add: rd_def)
      have inv': "sort_inv N ys istack rest (fst s) (snd s)"
        using I o Cons seg_perm_length [OF ys(2)] by (simp add: sort_inv_def segs_in_def)
      have "seg_weight ((fst s, snd s) # rest) < seg_weight ((l, ir) # stk)"
        using Cons by (simp add: seg_weight_def)
      from less.hyps [OF this inv'] show ?thesis unfolding rec using widen [OF ys(2)] seg_perm_trans by blast
    qed
  next
    case False
    then have big: "l + 8 \<le> ir" by (simp add: SMALL_def)
    have seg_room: "ir < length xs" "ir \<le> 2 ^ 30" using I in1 by linarith+
    obtain ys i j a where ps: "partition_step xs l ir = Some (ys, i, j)" "seg_perm l ir xs ys"
      "l + 1 \<le> j" "j < i" "i \<le> ir"
      "\<forall>p. l \<le> p \<and> p < i \<longrightarrow> a \<le> ys ! p" "\<forall>p. j \<le> p \<and> p \<le> ir \<longrightarrow> ys ! p \<le> a"
      using partition_step_correct [OF big seg_room] by blast
    define c d where "c = (if int j - int l \<le> int ir - int i + 1 then (l, j - 1) else (i, ir))"
      and "d = (if int j - int l \<le> int ir - int i + 1 then (i, ir) else (l, j - 1))"
    let ?st = "istack[2 * length stk + 2 := snd d, 2 * length stk + 1 := fst d]"
    have room: "2 * length stk + 2 < length istack" using sort_stack_room [OF less.prems big] I by simp
    have rec: "sort_loop xs istack (2 * length stk) l ir = sort_loop ys ?st (2 * length (d # stk)) (fst c) (snd c)"
      using False ps(1) room by (subst sort_loop.simps) (auto simp: c_def d_def Let_def)
    have cd: "c = (l, j - 1) \<and> d = (i, ir) \<or> c = (i, ir) \<and> d = (l, j - 1)" "seg_len c \<le> seg_len d"
      using ps(3-5) by (auto simp: c_def d_def seg_len_def)
    have inv': "sort_inv N ys ?st (d # stk) (fst c) (snd c)"
      by (rule sort_inv_push [OF less.prems ps(2) big ps(3-7) cd])
    have "seg_weight ((fst c, snd c) # d # stk) < seg_weight ((l, ir) # stk)"
      using cd(1) ps(3-5) big by (auto simp: seg_weight_def seg_len_def)
    from less.hyps [OF this inv'] show ?thesis unfolding rec using widen [OF ps(2)] seg_perm_trans by blast
  qed
qed

lemma int_cast_count:
  fixes n :: mdb_id
  assumes "unat n \<le> 2 ^ 30"
  shows "sint (ucast n :: 32 word) = int (unat n)"
proof -
  have "int (unat n) \<le> int (2 ^ 30)" using assms by (simp only: of_nat_le_iff)
  then have n: "0 \<le> uint n" "uint n \<le> 2 ^ 30" by simp_all
  have "take_bit 32 (uint n) = uint n" using n by (intro take_bit_int_eq_self) auto
  then have u: "uint (ucast n :: 32 word) = uint n" by (simp add: unsigned_ucast_eq)
  have "- (2 ^ 31) \<le> uint n" by (rule order_trans [OF _ n(1)]) simp
  moreover have "uint n < 2 ^ 31" by (rule le_less_trans [OF n(2)]) simp
  ultimately have "signed_take_bit 31 (uint n) = uint n" by (rule signed_take_bit_int_eq_self)
  then show ?thesis using u by (simp add: sint_uint)
qed

text \<open>
  Property C29.
  The quicksort with its explicit stack terminates for every list of at most \<open>2 ^
  30\<close> IDs, for which \<^verbatim>\<open>l + ir\<close> fits an \<^verbatim>\<open>int\<close>, never leaves the ID array or its 64-cell stack, and leaves the same
  multiset of IDs in descending order.
\<close>

theorem mdb_midl_sort_correct:
  assumes "length istack = 64" "idl_wf xs" "unat (xs ! 0) \<le> 2 ^ 30"
  shows "\<exists>ys. mdb_midl_sort istack xs = Some ys \<and> length ys = length xs \<and> ys ! 0 = xs ! 0 \<and>
    mset (elems ys) = mset (elems xs) \<and> sorted_wrt (\<ge>) (elems ys)"
proof -
  define N where "N = unat (xs ! 0)"
  have n: "N < length xs" using assms(2) by (simp add: idl_wf_def N_def)
  have len: "xs \<noteq> []" using n by auto
  have "sort_inv N xs istack [] 1 N"
    using assms n by (auto simp: sort_inv_def segs_in_def order_inv_def in_seg_def seg_len_def N_def)
  then obtain ys where ys: "sort_loop xs istack 0 1 N = Some ys" "seg_perm 1 N xs ys" "order_inv N [] ys"
    using sort_loop_correct by force
  have nonneg: "uint (xs ! 0) \<noteq> - 2147483648" using uint_ge_0 [of "xs ! 0"] by linarith
  have "mdb_midl_sort istack xs = Some ys"
    using ys(1) len int_cast_count [OF assms(3)] nonneg
    by (simp add: mdb_midl_sort_def N_def rd_def Let_def not_less)
  moreover have l: "length ys = length xs" by (rule seg_perm_length [OF ys(2)])
  moreover have z: "ys ! 0 = xs ! 0" using seg_perm_outside [OF ys(2), of 0] n len by auto
  moreover have "mset (elems ys) = mset (elems xs)"
  proof -
    have split: "mset zs = {#zs ! 0#} + mset (take N (tl zs)) + mset (drop (Suc N) zs)" if "zs \<noteq> []" for zs :: idl
      using that by (cases zs) (auto simp flip: mset_append)
    have "ys \<noteq> []" using l n by auto
    moreover have "drop (Suc N) ys = drop (Suc N) xs" "mset ys = mset xs" using ys(2) by (auto simp: seg_perm_def)
    ultimately have "mset (take N (tl ys)) = mset (take N (tl xs))"
      using split [of xs] split [of ys] len z by (metis add_left_cancel add_right_cancel)
    then show ?thesis using z by (simp add: elems_def N_def)
  qed
  moreover have "sorted_wrt (\<ge>) (elems ys)"
  proof -
    have "take N (tl ys) ! q \<le> take N (tl ys) ! p" if "p < q" "q < N" for p q
      using ys(3) that l n by (auto simp: order_inv_def nth_tl)
    then show ?thesis using z l n by (auto simp: elems_def N_def sorted_wrt_iff_nth_less)
  qed
  ultimately show ?thesis by blast
qed

theorem mdb_midl_sort_correct_witness:
  "\<exists>ys. mdb_midl_sort (replicate 64 0) [3, 2, 9, 5] = Some ys \<and> length ys = 4 \<and> ys ! 0 = 3 \<and>
     mset (elems ys) = {#2, 9, 5#} \<and> sorted_wrt (\<ge>) (elems ys)"
proof -
  have h: "idl_wf [3, 2, 9, 5]" by (simp add: idl_wf_def)
  show ?thesis
    using mdb_midl_sort_correct [OF _ h, of "replicate 64 0"] by (auto simp: elems_def)
qed

end
