(* ===== verification/Binary_Le.thy ===== *)
theory Binary_Le
  imports Le_Bytes
begin

text \<open>
  \<^verbatim>\<open>src/graph_db/binary_le.h\<close>: the little-endian helpers of the graph database's record codecs,
  the 16-byte encodings of \<^verbatim>\<open>kimix::Guid\<close> and \<^verbatim>\<open>kimix::MD5\<close>, and the length-prefixed byte strings
  \<^verbatim>\<open>[4B len][bytes]\<close>. The readers of byte strings work on a window \<open>[cursor, fin)\<close> of a buffer that
  may hold arbitrary bytes; they return a success flag, the advanced cursor and the output.
\<close>

unbundle bit_operations_syntax

section \<open>Model\<close>

definition write_u8 :: "bytes \<Rightarrow> nat \<Rightarrow> 8 word \<Rightarrow> bytes option" where
  "write_u8 b p v = wr b p v"

definition read_u8 :: "bytes \<Rightarrow> nat \<Rightarrow> 8 word option" where
  "read_u8 b p = rd b p"

definition write_u16 :: "bytes \<Rightarrow> nat \<Rightarrow> 16 word \<Rightarrow> bytes option" where
  "write_u16 b p v =
     do { b \<leftarrow> wr b p (ucast (v AND 0xff)); wr b (p + 1) (ucast (drop_bit 8 v AND 0xff)) }"

definition read_u16 :: "bytes \<Rightarrow> nat \<Rightarrow> 16 word option" where
  "read_u16 b p =
     do { x \<leftarrow> rd b p; y \<leftarrow> rd b (p + 1); Some (ucast x OR push_bit 8 (ucast y)) }"

definition write_u32 :: "bytes \<Rightarrow> nat \<Rightarrow> 32 word \<Rightarrow> bytes option" where
  "write_u32 b p v =
     do {
       b \<leftarrow> wr b p (ucast (v AND 0xff));
       b \<leftarrow> wr b (p + 1) (ucast (drop_bit 8 v AND 0xff));
       b \<leftarrow> wr b (p + 2) (ucast (drop_bit 16 v AND 0xff));
       wr b (p + 3) (ucast (drop_bit 24 v AND 0xff))
     }"

definition read_u32 :: "bytes \<Rightarrow> nat \<Rightarrow> 32 word option" where
  "read_u32 b p =
     do {
       x0 \<leftarrow> rd b p;
       x1 \<leftarrow> rd b (p + 1);
       x2 \<leftarrow> rd b (p + 2);
       x3 \<leftarrow> rd b (p + 3);
       Some (((ucast x0 OR push_bit 8 (ucast x1)) OR push_bit 16 (ucast x2)) OR push_bit 24 (ucast x3))
     }"

definition write_u64 :: "bytes \<Rightarrow> nat \<Rightarrow> 64 word \<Rightarrow> bytes option" where
  "write_u64 b p v =
     do {
       b \<leftarrow> write_u32 b p (ucast (v AND 0xffffffff));
       write_u32 b (p + 4) (ucast (drop_bit 32 v AND 0xffffffff))
     }"

definition read_u64 :: "bytes \<Rightarrow> nat \<Rightarrow> 64 word option" where
  "read_u64 b p =
     do {
       lo \<leftarrow> read_u32 b p;
       hi \<leftarrow> read_u32 b (p + 4);
       Some (ucast lo OR push_bit 32 (ucast hi))
     }"

text \<open>\<^verbatim>\<open>Guid::GuidData\<close> and \<^verbatim>\<open>MD5::MD5Data\<close> have the same two words.\<close>

record words128 =
  data0 :: "64 word"
  data1 :: "64 word"

definition write_guid :: "bytes \<Rightarrow> nat \<Rightarrow> words128 \<Rightarrow> bytes option" where
  "write_guid b p w = do { b \<leftarrow> write_u64 b p (data0 w); write_u64 b (p + 8) (data1 w) }"

definition read_guid :: "bytes \<Rightarrow> nat \<Rightarrow> words128 option" where
  "read_guid b p =
     do { x \<leftarrow> read_u64 b p; y \<leftarrow> read_u64 b (p + 8); Some \<lparr>data0 = x, data1 = y\<rparr> }"

definition write_md5 :: "bytes \<Rightarrow> nat \<Rightarrow> words128 \<Rightarrow> bytes option" where
  "write_md5 b p w = do { b \<leftarrow> write_u64 b p (data0 w); write_u64 b (p + 8) (data1 w) }"

definition read_md5 :: "bytes \<Rightarrow> nat \<Rightarrow> words128 option" where
  "read_md5 b p =
     do { x \<leftarrow> read_u64 b p; y \<leftarrow> read_u64 b (p + 8); Some \<lparr>data0 = x, data1 = y\<rparr> }"

text \<open>\<^verbatim>\<open>write_bytes\<close> and \<^verbatim>\<open>write_text\<close> copy nothing when the source is empty.\<close>

definition write_bytes :: "bytes \<Rightarrow> nat \<Rightarrow> bytes \<Rightarrow> bytes option" where
  "write_bytes b p bs = (if bs \<noteq> [] then memcpy b p bs 0 (length bs) else Some b)"

definition write_text :: "bytes \<Rightarrow> nat \<Rightarrow> bytes \<Rightarrow> bytes option" where
  "write_text b p bs = (if bs \<noteq> [] then memcpy b p bs 0 (length bs) else Some b)"

definition write_blob :: "bytes \<Rightarrow> nat \<Rightarrow> bytes \<Rightarrow> (bytes \<times> nat) option" where
  "write_blob b p bs =
     do {
       b \<leftarrow> write_u32 b p (of_nat (length bs));
       b \<leftarrow> write_bytes b (p + 4) bs;
       Some (b, p + 4 + length bs)
     }"

definition read_blob :: "bytes \<Rightarrow> nat \<Rightarrow> nat \<Rightarrow> bytes \<Rightarrow> (bool \<times> nat \<times> bytes) option" where
  "read_blob b cursor fin out =
     (if fin < cursor + 4 then Some (False, cursor, out)
      else do {
        len \<leftarrow> read_u32 b cursor;
        let cursor = cursor + 4;
        if fin < cursor + unat len then Some (False, cursor, out)
        else if cursor + unat len \<le> length b
        then Some (True, cursor + unat len, block b cursor (unat len))
        else None
      })"

definition read_text :: "bytes \<Rightarrow> nat \<Rightarrow> nat \<Rightarrow> bytes \<Rightarrow> (bool \<times> nat \<times> bytes) option" where
  "read_text b cursor fin out =
     (if fin < cursor + 4 then Some (False, cursor, out)
      else do {
        len \<leftarrow> read_u32 b cursor;
        let cursor = cursor + 4;
        if fin < cursor + unat len then Some (False, cursor, out)
        else if cursor + unat len \<le> length b
        then Some (True, cursor + unat len, block b cursor (unat len))
        else None
      })"

section \<open>Fixed-width fields\<close>

text \<open>The two headers spell the same byte accesses.\<close>

lemma u8_le8: "write_u8 = put_le8" "read_u8 = read_le8"
  by (intro ext, simp add: write_u8_def put_le8_def read_u8_def read_le8_def)+

lemma u16_le16: "write_u16 = put_le16" "read_u16 = read_le16"
  by (intro ext, simp add: write_u16_def put_le16_def read_u16_def read_le16_def read_le8_def)+

lemma u32_le32: "write_u32 = put_le32" "read_u32 = read_le32"
  by (intro ext, simp add: write_u32_def put_le32_def read_u32_def read_le32_def read_le8_def)+

lemma u64_le64: "write_u64 = put_le64" "read_u64 = read_le64"
  by (intro ext, simp add: write_u64_def put_le64_def read_u64_def read_le64_def u32_le32)+

interpretation u8: fixed_codec "enc_w 1" dec_w 1 write_u8 read_u8
  unfolding u8_le8 by (rule le8.fixed_codec_axioms)

interpretation u16: fixed_codec "enc_w 2" dec_w 2 write_u16 read_u16
  unfolding u16_le16 by (rule le16.fixed_codec_axioms)

interpretation u32: fixed_codec "enc_w 4" dec_w 4 write_u32 read_u32
  unfolding u32_le32 by (rule le32.fixed_codec_axioms)

interpretation u64: fixed_codec "enc_w 8" dec_w 8 write_u64 read_u64
  unfolding u64_le64 by (rule le64.fixed_codec_axioms)

definition enc_128 :: "words128 \<Rightarrow> bytes" where
  "enc_128 w = enc_w 8 (data0 w) @ enc_w 8 (data1 w)"

definition dec_128 :: "bytes \<Rightarrow> words128" where
  "dec_128 bs = \<lparr>data0 = dec_w (take 8 bs), data1 = dec_w (drop 8 bs)\<rparr>"

interpretation guid: fixed_codec enc_128 dec_128 16 write_guid read_guid
proof
  fix v :: words128 and b bs :: bytes and p :: nat
  show "length (enc_128 v) = 16" by (simp add: enc_128_def)
  show "dec_128 (enc_128 v) = v" by (simp add: enc_128_def dec_128_def dec_enc_w)
  show "enc_128 (dec_128 bs) = bs" if "length bs = 16" using that by (simp add: enc_128_def dec_128_def enc_dec_w)
  show "write_guid b p v = (if p + 16 \<le> length b then Some (blit b p (enc_128 v)) else None)"
    using blit_blit_adjacent [of p "enc_w 8 (data0 v)" "enc_w 8 (data1 v)" b]
    by (auto simp: write_guid_def u64.put_eq enc_128_def)
  show "read_guid b p = (if p + 16 \<le> length b then Some (dec_128 (block b p 16)) else None)"
    using block_split [of p 8 8 b] by (auto simp: read_guid_def u64.get_eq dec_128_def)
qed

lemma md5_guid: "write_md5 = write_guid" "read_md5 = read_guid"
  by (intro ext, simp add: write_md5_def write_guid_def read_md5_def read_guid_def)+

interpretation md5: fixed_codec enc_128 dec_128 16 write_md5 read_md5
  unfolding md5_guid by (rule guid.fixed_codec_axioms)

section \<open>Length-prefixed byte strings\<close>

lemma write_bytes_eq:
  "write_bytes b p bs = (if p + length bs \<le> length b \<or> bs = [] then Some (blit b p bs) else None)"
  by (auto simp: write_bytes_def memcpy_blit block_def)

lemma write_blob_eq:
  assumes "p + 4 + length bs \<le> length b"
  shows "write_blob b p bs = Some (blit b p (enc_w 4 (of_nat (length bs) :: 32 word) @ bs), p + 4 + length bs)"
  using assms blit_blit_adjacent [of p "enc_w 4 (of_nat (length bs) :: 32 word)" bs b]
  by (simp add: write_blob_def u32.put_eq write_bytes_eq)

lemma read_text_blob: "read_text = read_blob"
  by (intro ext) (simp add: read_text_def read_blob_def)

text \<open>
  A byte string shorter than 4 GiB that \<^verbatim>\<open>write_blob\<close> put into a large enough buffer is read back
  by \<^verbatim>\<open>read_blob\<close> unchanged, both advance the cursor by the same amount, and the bytes outside the
  written window are untouched.
\<close>

lemma read_write_blob:
  assumes "length bs < 2 ^ 32" "p + 4 + length bs \<le> length b"
  shows "\<exists>b'. write_blob b p bs = Some (b', p + 4 + length bs) \<and>
     (\<forall>fin out. p + 4 + length bs \<le> fin \<longrightarrow>
        read_blob b' p fin out = Some (True, p + 4 + length bs, bs)) \<and>
     (\<forall>q n. (q + n \<le> p \<or> p + 4 + length bs \<le> q) \<and> q + n \<le> length b \<longrightarrow> block b' q n = block b q n)"
proof -
  let ?h = "enc_w 4 (of_nat (length bs) :: 32 word)"
  let ?b = "blit b p (?h @ bs)"
  have u: "unat (of_nat (length bs) :: 32 word) = length bs" using assms(1) by (simp add: unat_of_nat)
  have len: "length ?b = length b" using assms(2) by simp
  have h: "block ?b p 4 = ?h" "block ?b (p + 4) (length bs) = bs"
    using assms(2) by (simp_all add: block_blit_inside block_append_left block_append_right) (simp_all add: block_def)
  have "read_u32 ?b p = Some (of_nat (length bs))"
    using assms(2) h(1) len by (simp add: u32.get_eq dec_enc_w)
  then have "read_blob ?b p fin out = Some (True, p + 4 + length bs, bs)"
    if "p + 4 + length bs \<le> fin" for fin out
    using that assms(2) h(2) len u by (simp add: read_blob_def)
  moreover have "block ?b q n = block b q n"
    if "(q + n \<le> p \<or> p + 4 + length bs \<le> q) \<and> q + n \<le> length b" for q n
    using that assms(2) by (intro block_blit_disjoint) auto
  ultimately show ?thesis using write_blob_eq [OF assms(2)] by blast
qed

text \<open>
  Property C32.
  On every buffer, whatever its bytes, a reader of a length-prefixed byte string stays inside
  its window: it returns, a success consumes exactly the four length bytes and the declared
  number of bytes and returns those bytes, and a failure returns the output it was given and
  leaves the cursor in the window.
\<close>

theorem read_blob_window:
  assumes "cursor \<le> fin" "fin \<le> length b"
  shows "\<exists>ok cursor' out'. read_blob b cursor fin out = Some (ok, cursor', out') \<and>
     read_text b cursor fin out = Some (ok, cursor', out') \<and> cursor \<le> cursor' \<and> cursor' \<le> fin \<and>
     (if ok then cursor' = cursor + 4 + length out' \<and> out' = block b (cursor + 4) (length out') \<and>
                 dec_le (block b cursor 4) = length out'
      else out' = out \<and> (fin < cursor + 4 \<or> fin < cursor + 4 + dec_le (block b cursor 4)))"
proof (cases "fin < cursor + 4")
  case True
  then show ?thesis using assms by (auto simp: read_text_blob read_blob_def)
next
  case False
  have n: "unat (dec_w (block b cursor 4) :: 32 word) = dec_le (block b cursor 4)"
    using dec_le_less [of "block b cursor 4"] False assms by (simp add: dec_w_def unat_of_nat)
  have r: "read_u32 b cursor = Some (dec_w (block b cursor 4))"
    using False assms by (simp add: u32.get_eq)
  show ?thesis
  proof (cases "fin < cursor + 4 + dec_le (block b cursor 4)")
    case True
    then show ?thesis using False assms n r by (auto simp: read_text_blob read_blob_def)
  next
    case fits: False
    define n' where "n' = dec_le (block b cursor 4)"
    have le: "cursor + 4 + n' \<le> fin" using fits by (simp add: n'_def)
    then have l: "length (block b (cursor + 4) n') = n'" using assms(2) by simp
    have "read_blob b cursor fin out = Some (True, cursor + 4 + n', block b (cursor + 4) n')"
      using False le assms n r by (simp add: read_blob_def Let_def flip: n'_def)
    then show ?thesis using l le unfolding read_text_blob n'_def [symmetric]
      by (intro exI [of _ True] exI [of _ "cursor + 4 + n'"] exI [of _ "block b (cursor + 4) n'"]) simp
  qed
qed

theorem read_blob_window_witness:
  "\<exists>ok cursor' out'. read_blob [200, 0, 0, 0, 5] 0 5 [1] = Some (ok, cursor', out') \<and> \<not> ok \<and> out' = [1]"
proof -
  have "dec_le (block [200, 0, 0, 0, 5] 0 4) = 200" by (simp add: block_def)
  then show ?thesis
    using read_blob_window [of 0 5 "[200, 0, 0, 0, 5]" "[1]"] by (auto split: if_splits)
qed

text \<open>
  A GUID and an MD5 digest read back as written, and the surrounding record is not disturbed.
\<close>

lemma guid_md5_roundtrip:
  assumes "p + 16 \<le> length b"
  shows "\<exists>b'. write_guid b p w = Some b' \<and> write_md5 b p w = Some b' \<and> read_guid b' p = Some w \<and>
     read_md5 b' p = Some w \<and> length b' = length b \<and>
     (\<forall>q n. (q + n \<le> p \<or> p + 16 \<le> q) \<and> q + n \<le> length b \<longrightarrow> block b' q n = block b q n)"
proof -
  obtain b' where b': "write_guid b p w = Some b'" using guid.put_defined [of b p w] assms by blast
  then show ?thesis
    using guid.get_after_put [OF b'] guid.put_length [OF b'] guid.put_block_elsewhere [OF b'] md5_guid by auto
qed

theorem guid_md5_roundtrip_witness:
  "\<exists>b'. write_guid (replicate 17 0) 1 \<lparr>data0 = 5, data1 = 6\<rparr> = Some b' \<and>
     read_guid b' 1 = Some \<lparr>data0 = 5, data1 = 6\<rparr> \<and> block b' 0 1 = [0]"
  using guid_md5_roundtrip [of 1 "replicate 17 0" "\<lparr>data0 = 5, data1 = 6\<rparr>"]
  by (force simp: block_def)

end
