(* ===== verification/Lmdb_Page.thy ===== *)
theory Lmdb_Page
  imports Byte_Mem
begin

text \<open>
  The pages of the storage engine, \<^verbatim>\<open>src/core/lmdb/mdb.c\<close>: a header and a body of bytes. The body
  starts with the sorted array of 16-bit node offsets, which grows upwards to \<open>mp_lower\<close>; the
  nodes themselves are packed at the end and grow downwards to \<open>mp_upper\<close>. Because \<^verbatim>\<open>PAGEBASE\<close>
  equals \<^verbatim>\<open>PAGEHDRSZ\<close>, every offset is relative to the body. A node is eight header bytes
  (\<^verbatim>\<open>mn_lo\<close>, \<^verbatim>\<open>mn_hi\<close>, \<^verbatim>\<open>mn_flags\<close>, \<^verbatim>\<open>mn_ksize\<close>, host order), the key and, on leaf pages, the data,
  each rounded up to two bytes.

  The model works on those bytes: every pointer, header field, key and datum is loaded from and
  stored into the one byte list \<open>mp_body\<close>. \<open>None\<close> is an access outside the body or a failed
  \<^verbatim>\<open>mdb_cassert\<close>.
\<close>

unbundle bit_operations_syntax

section \<open>Data\<close>

record page =
  mp_pgno :: nat
  mp_txnid :: nat
  mp_flags :: "16 word"
  mp_lower :: nat
  mp_upper :: nat
  mp_pages :: nat
  mp_body :: bytes

record env =
  me_psize :: nat
  me_sumsize :: nat
  me_esumsize :: nat
  me_nodemax :: nat

definition P_BRANCH :: "16 word" where "P_BRANCH = 0x01"
definition P_LEAF :: "16 word" where "P_LEAF = 0x02"
definition P_OVERFLOW :: "16 word" where "P_OVERFLOW = 0x04"
definition P_LEAF2 :: "16 word" where "P_LEAF2 = 0x20"
definition P_SUBP :: "16 word" where "P_SUBP = 0x40"

definition F_BIGDATA :: "32 word" where "F_BIGDATA = 0x01"
definition MDB_RESERVE :: "32 word" where "MDB_RESERVE = 0x10000"

definition MDB_PAGE_FULL :: int where "MDB_PAGE_FULL = -30786"

definition PAGEHDRSZ :: nat where "PAGEHDRSZ = 24"
definition NODESIZE :: nat where "NODESIZE = 8"
definition SIZEOF_OVPAGE :: nat where "SIZEOF_OVPAGE = 24"

definition EVEN :: "nat \<Rightarrow> nat" where "EVEN n = (n + 1) div 2 * 2"

definition F_ISSET :: "'a::len word \<Rightarrow> 'a word \<Rightarrow> bool" where
  "F_ISSET w f \<longleftrightarrow> w AND f = f"

definition IS_LEAF :: "page \<Rightarrow> bool" where "IS_LEAF mp \<longleftrightarrow> F_ISSET (mp_flags mp) P_LEAF"
definition IS_LEAF2 :: "page \<Rightarrow> bool" where "IS_LEAF2 mp \<longleftrightarrow> F_ISSET (mp_flags mp) P_LEAF2"
definition IS_BRANCH :: "page \<Rightarrow> bool" where "IS_BRANCH mp \<longleftrightarrow> F_ISSET (mp_flags mp) P_BRANCH"

definition NUMKEYS :: "page \<Rightarrow> nat" where "NUMKEYS mp = mp_lower mp div 2"

text \<open>\<^verbatim>\<open>(indx_t)(MP_UPPER - MP_LOWER)\<close>\<close>

definition SIZELEFT :: "page \<Rightarrow> nat" where
  "SIZELEFT mp = nat ((int (mp_upper mp) - int (mp_lower mp)) mod 2 ^ 16)"

definition OVPAGES :: "env \<Rightarrow> nat \<Rightarrow> nat" where
  "OVPAGES e sz = (PAGEHDRSZ - 1 + sz + me_sumsize e + me_esumsize e) div me_psize e + 1"

text \<open>Pointer \<open>i\<close> of the offset array and the header fields of the node at offset \<open>p\<close>.\<close>

definition MP_PTR :: "bytes \<Rightarrow> nat \<Rightarrow> nat option" where "MP_PTR b i = ld b (2 * i) 2"
definition SET_PTR :: "bytes \<Rightarrow> nat \<Rightarrow> nat \<Rightarrow> bytes option" where "SET_PTR b i v = st b (2 * i) 2 v"
definition mn_flags :: "bytes \<Rightarrow> nat \<Rightarrow> nat option" where "mn_flags b p = ld b (p + 4) 2"
definition mn_ksize :: "bytes \<Rightarrow> nat \<Rightarrow> nat option" where "mn_ksize b p = ld b (p + 6) 2"

definition NODEDSZ :: "bytes \<Rightarrow> nat \<Rightarrow> nat option" where
  "NODEDSZ b p = do { lo \<leftarrow> ld b p 2; hi \<leftarrow> ld b (p + 2) 2; Some (lo + 65536 * hi) }"

definition NODEPGNO :: "bytes \<Rightarrow> nat \<Rightarrow> nat option" where
  "NODEPGNO b p =
     do { lo \<leftarrow> ld b p 2; hi \<leftarrow> ld b (p + 2) 2; top \<leftarrow> mn_flags b p; Some (lo + 65536 * hi + 2 ^ 32 * top) }"

definition SETDSZ :: "bytes \<Rightarrow> nat \<Rightarrow> nat \<Rightarrow> bytes option" where
  "SETDSZ b p sz = do { b \<leftarrow> st b p 2 (sz mod 65536); st b (p + 2) 2 (sz div 65536) }"

definition SETPGNO :: "bytes \<Rightarrow> nat \<Rightarrow> nat \<Rightarrow> bytes option" where
  "SETPGNO b p pgno =
     do { b \<leftarrow> st b p 2 (pgno mod 65536); b \<leftarrow> st b (p + 2) 2 (pgno div 65536); st b (p + 4) 2 (pgno div 2 ^ 32) }"

definition NODEKEY :: "bytes \<Rightarrow> nat \<Rightarrow> bytes option" where
  "NODEKEY b p = do { k \<leftarrow> mn_ksize b p; if p + NODESIZE + k \<le> length b then Some (block b (p + NODESIZE) k) else None }"

section \<open>Node sizes\<close>

definition LEAFSIZE :: "bytes \<Rightarrow> bytes \<Rightarrow> nat" where
  "LEAFSIZE k d = NODESIZE + EVEN (length k) + EVEN (length d)"

definition mdb_leaf_size :: "env \<Rightarrow> bytes \<Rightarrow> bytes \<Rightarrow> nat" where
  "mdb_leaf_size e k d =
     (let sz = LEAFSIZE k d;
          sz = (if me_nodemax e < sz then u64 (sz + 2 ^ 64 - u64 (length d + 2 ^ 64 - SIZEOF_OVPAGE)) else sz)
      in EVEN (sz + 2))"

definition mdb_branch_size :: "bytes option \<Rightarrow> nat" where
  "mdb_branch_size key = EVEN (NODESIZE + (case key of None \<Rightarrow> 0 | Some k \<Rightarrow> length k) + 2)"

section \<open>Adding a node\<close>

text \<open>\<^verbatim>\<open>for (i = NUMKEYS (mp); i > indx; i--) MP_PTRS (mp)[i] = MP_PTRS (mp)[i - 1]\<close>\<close>

fun ptrs_up :: "bytes \<Rightarrow> nat \<Rightarrow> nat \<Rightarrow> bytes option" where
  "ptrs_up b 0 indx = Some b"
| "ptrs_up b (Suc i) indx =
     (if indx < Suc i then do { v \<leftarrow> MP_PTR b i; b \<leftarrow> SET_PTR b (Suc i) v; ptrs_up b i indx }
      else Some b)"

text \<open>Where \<^verbatim>\<open>MDB_RESERVE\<close> tells the caller to write the data: a place in the page or on the overflow page.\<close>

datatype place = NoPlace | InPage nat | OnOverflow

record node_add_result =
  na_rc :: int
  na_page :: page
  na_ofp :: "page option"
  na_place :: place
  na_txn_error :: bool

text \<open>The header fields and the key of the node at \<open>ofs\<close>.\<close>

definition node_fields :: "bytes \<Rightarrow> nat \<Rightarrow> bool \<Rightarrow> bytes option \<Rightarrow> nat \<Rightarrow> nat \<Rightarrow> 32 word \<Rightarrow> bytes option" where
  "node_fields b ofs leaf key dsize pgno flags =
     do {
       b \<leftarrow> st b (ofs + 6) 2 (case key of None \<Rightarrow> 0 | Some k \<Rightarrow> length k);
       b \<leftarrow> st b (ofs + 4) 2 (unat flags);
       b \<leftarrow> (if leaf then SETDSZ b ofs dsize else SETPGNO b ofs pgno);
       case key of None \<Rightarrow> Some b | Some k \<Rightarrow> memcpy b (ofs + NODESIZE) k 0 (length k)
     }"

text \<open>The code from the label \<^verbatim>\<open>update\<close> to the writing of the key; \<open>ofs\<close> is where the node starts.\<close>

definition node_header :: "page \<Rightarrow> nat \<Rightarrow> nat \<Rightarrow> bytes option \<Rightarrow> nat \<Rightarrow> nat \<Rightarrow> 32 word \<Rightarrow> (page \<times> nat) option" where
  "node_header mp indx node_size key dsize pgno flags =
     do {
       b \<leftarrow> ptrs_up (mp_body mp) (NUMKEYS mp) indx;
       let ofs = nat ((int (mp_upper mp) - int node_size) mod 2 ^ 16);
       if ofs < mp_lower mp + 2 then None
       else do {
         b \<leftarrow> SET_PTR b indx ofs;
         b \<leftarrow> node_fields b ofs (IS_LEAF mp) key dsize pgno flags;
         Some (mp\<lparr>mp_body := b, mp_upper := ofs, mp_lower := u16 (mp_lower mp + 2)\<rparr>, ofs)
       }
     }"

definition enc_ovpage :: "nat \<Rightarrow> nat \<Rightarrow> nat \<Rightarrow> bytes" where
  "enc_ovpage pgno txnid pages = enc_le 8 pgno @ enc_le 8 txnid @ enc_le 8 pages"

text \<open>The data part of a leaf node, written at \<^verbatim>\<open>NODEDATA\<close>.\<close>

definition node_data :: "nat \<Rightarrow> page \<Rightarrow> nat \<Rightarrow> bytes \<Rightarrow> 32 word \<Rightarrow> page option \<Rightarrow> node_add_result option" where
  "node_data txnid mp ofs data flags ofp =
     do {
       k \<leftarrow> mn_ksize (mp_body mp) ofs;
       let ndata = ofs + NODESIZE + EVEN k;
       case ofp of
         None \<Rightarrow>
           if F_ISSET flags F_BIGDATA then do {
             b \<leftarrow> memcpy (mp_body mp) ndata data 0 SIZEOF_OVPAGE;
             Some \<lparr>na_rc = 0, na_page = mp\<lparr>mp_body := b\<rparr>, na_ofp = None, na_place = NoPlace, na_txn_error = False\<rparr>
           }
           else if F_ISSET flags MDB_RESERVE then
             Some \<lparr>na_rc = 0, na_page = mp, na_ofp = None, na_place = InPage ndata, na_txn_error = False\<rparr>
           else do {
             b \<leftarrow> memcpy (mp_body mp) ndata data 0 (length data);
             Some \<lparr>na_rc = 0, na_page = mp\<lparr>mp_body := b\<rparr>, na_ofp = None, na_place = NoPlace, na_txn_error = False\<rparr>
           }
       | Some op \<Rightarrow> do {
           b \<leftarrow> memcpy (mp_body mp) ndata (enc_ovpage (mp_pgno op) txnid (mp_pages op)) 0 SIZEOF_OVPAGE;
           let mp = mp\<lparr>mp_body := b\<rparr>;
           if F_ISSET flags MDB_RESERVE then
             Some \<lparr>na_rc = 0, na_page = mp, na_ofp = Some op, na_place = OnOverflow, na_txn_error = False\<rparr>
           else do {
             ob \<leftarrow> memcpy (mp_body op) 0 data 0 (length data);
             Some \<lparr>na_rc = 0, na_page = mp, na_ofp = Some (op\<lparr>mp_body := ob\<rparr>), na_place = NoPlace, na_txn_error = False\<rparr>
           }
         }
     }"

definition node_update :: "nat \<Rightarrow> page \<Rightarrow> nat \<Rightarrow> nat \<Rightarrow> bytes option \<Rightarrow> bytes option \<Rightarrow> nat \<Rightarrow> 32 word \<Rightarrow> page option \<Rightarrow>
    node_add_result option" where
  "node_update txnid mp indx node_size key data pgno flags ofp =
     do {
       (mp, ofs) \<leftarrow> node_header mp indx node_size key (case data of None \<Rightarrow> 0 | Some d \<Rightarrow> length d) pgno flags;
       case data of
         Some d \<Rightarrow>
           if IS_LEAF mp then node_data txnid mp ofs d flags ofp
           else Some \<lparr>na_rc = 0, na_page = mp, na_ofp = ofp, na_place = NoPlace, na_txn_error = False\<rparr>
       | None \<Rightarrow> Some \<lparr>na_rc = 0, na_page = mp, na_ofp = ofp, na_place = NoPlace, na_txn_error = False\<rparr>
     }"

definition node_full :: "page \<Rightarrow> node_add_result" where
  "node_full mp = \<lparr>na_rc = MDB_PAGE_FULL, na_page = mp, na_ofp = None, na_place = NoPlace, na_txn_error = True\<rparr>"

definition node_fit :: "nat \<Rightarrow> page \<Rightarrow> nat \<Rightarrow> nat \<Rightarrow> bytes option \<Rightarrow> bytes option \<Rightarrow> nat \<Rightarrow> 32 word \<Rightarrow> page option \<Rightarrow>
    node_add_result option" where
  "node_fit txnid mp indx node_size key data pgno flags ofp =
     (if int (SIZELEFT mp) - 2 < int node_size then Some (node_full mp)
      else node_update txnid mp indx node_size key data pgno flags ofp)"

text \<open>The branch for \<^verbatim>\<open>P_LEAF2\<close> pages, whose keys of \<^verbatim>\<open>md_pad\<close> bytes are stored contiguously.\<close>

definition leaf2_add :: "nat \<Rightarrow> page \<Rightarrow> nat \<Rightarrow> bytes \<Rightarrow> page option" where
  "leaf2_add ksize mp indx key =
     do {
       let p = indx * ksize;
       let dif = NUMKEYS mp - indx;
       b \<leftarrow> (if 0 < dif then memmove (mp_body mp) (p + ksize) p (dif * ksize) else Some (mp_body mp));
       b \<leftarrow> memcpy b p key 0 ksize;
       Some (mp\<lparr>mp_body := b, mp_lower := u16 (mp_lower mp + 2),
                mp_upper := nat ((int (mp_upper mp) - (int ksize - 2)) mod 2 ^ 16)\<rparr>)
     }"

text \<open>
  \<open>page_new\<close> is what \<^verbatim>\<open>mdb_page_new (mc, P_OVERFLOW, ovpages, &ofp)\<close> returns: an error code or the
  fresh overflow page.
\<close>

definition mdb_node_add :: "env \<Rightarrow> nat \<Rightarrow> nat \<Rightarrow> (nat \<Rightarrow> int + page) \<Rightarrow> page \<Rightarrow> nat \<Rightarrow> bytes option \<Rightarrow>
    bytes option \<Rightarrow> nat \<Rightarrow> 32 word \<Rightarrow> node_add_result option" where
  "mdb_node_add e txnid md_pad page_new mp indx key data pgno flags =
     (if mp_upper mp < mp_lower mp then None
      else if IS_LEAF2 mp then
        (case key of
           None \<Rightarrow> None
         | Some k \<Rightarrow> map_option (\<lambda>mp. \<lparr>na_rc = 0, na_page = mp, na_ofp = None, na_place = NoPlace, na_txn_error = False\<rparr>)
                       (leaf2_add md_pad mp indx k))
      else
        (let node_size = NODESIZE + (case key of None \<Rightarrow> 0 | Some k \<Rightarrow> EVEN (length k)) in
         if IS_LEAF mp then
           (case (key, data) of
              (Some k, Some d) \<Rightarrow>
                if F_ISSET flags F_BIGDATA then
                  node_fit txnid mp indx (node_size + SIZEOF_OVPAGE) key data pgno flags None
                else if me_nodemax e < node_size + length d then
                  (let node_size = EVEN (node_size + SIZEOF_OVPAGE) in
                   if int (SIZELEFT mp) - 2 < int node_size then Some (node_full mp)
                   else (case page_new (OVPAGES e (length d)) of
                           Inl rc \<Rightarrow> Some \<lparr>na_rc = rc, na_page = mp, na_ofp = None, na_place = NoPlace, na_txn_error = False\<rparr>
                         | Inr ofp \<Rightarrow> node_update txnid mp indx node_size key data pgno (flags OR F_BIGDATA) (Some ofp)))
                else node_fit txnid mp indx (node_size + EVEN (length d)) key data pgno flags None
            | _ \<Rightarrow> None)
         else node_fit txnid mp indx node_size key data pgno flags None))"

section \<open>Deleting a node and changing a key\<close>

text \<open>The loop that closes the gap in the offset array and relocates the nodes below the deleted one.\<close>

fun ptrs_close :: "bytes \<Rightarrow> nat \<Rightarrow> nat \<Rightarrow> nat \<Rightarrow> nat \<Rightarrow> nat \<Rightarrow> nat \<Rightarrow> bytes option" where
  "ptrs_close b numkeys indx ptr sz j 0 = Some b"
| "ptrs_close b numkeys indx ptr sz j (Suc left) =
     (let i = numkeys - Suc left in
      if i \<noteq> indx
      then do {
        v \<leftarrow> MP_PTR b i;
        b \<leftarrow> SET_PTR b j (if v < ptr then v + sz else v);
        ptrs_close b numkeys indx ptr sz (j + 1) left
      }
      else ptrs_close b numkeys indx ptr sz j left)"

definition node_size_at :: "page \<Rightarrow> nat \<Rightarrow> nat option" where
  "node_size_at mp p =
     do {
       k \<leftarrow> mn_ksize (mp_body mp) p;
       if IS_LEAF mp
       then do {
         f \<leftarrow> mn_flags (mp_body mp) p;
         if F_ISSET (of_nat f) F_BIGDATA then Some (NODESIZE + EVEN k + SIZEOF_OVPAGE)
         else do { d \<leftarrow> NODEDSZ (mp_body mp) p; Some (NODESIZE + EVEN k + EVEN d) }
       }
       else Some (NODESIZE + EVEN k)
     }"

definition mdb_node_del :: "page \<Rightarrow> nat \<Rightarrow> nat \<Rightarrow> page option" where
  "mdb_node_del mp indx ksize =
     (let numkeys = NUMKEYS mp in
      if numkeys \<le> indx then None
      else if IS_LEAF2 mp then
        (let x = numkeys - 1 - indx; base = indx * ksize in
         do {
           b \<leftarrow> (if x \<noteq> 0 then memmove (mp_body mp) base (base + ksize) (x * ksize) else Some (mp_body mp));
           Some (mp\<lparr>mp_body := b, mp_lower := nat ((int (mp_lower mp) - 2) mod 2 ^ 16),
                    mp_upper := nat ((int (mp_upper mp) + (int ksize - 2)) mod 2 ^ 16)\<rparr>)
         })
      else do {
        ptr \<leftarrow> MP_PTR (mp_body mp) indx;
        sz \<leftarrow> node_size_at mp ptr;
        b \<leftarrow> ptrs_close (mp_body mp) numkeys indx ptr sz 0 numkeys;
        b \<leftarrow> memmove b (mp_upper mp + sz) (mp_upper mp) (ptr - mp_upper mp);
        Some (mp\<lparr>mp_body := b, mp_lower := nat ((int (mp_lower mp) - 2) mod 2 ^ 16),
                 mp_upper := u16 (mp_upper mp + sz)\<rparr>)
      })"

text \<open>The loop of \<^verbatim>\<open>mdb_update_key\<close> that relocates the node and those below it by \<open>delta\<close>.\<close>

fun ptrs_shift :: "bytes \<Rightarrow> nat \<Rightarrow> int \<Rightarrow> nat \<Rightarrow> bytes option" where
  "ptrs_shift b ptr delta 0 = Some b"
| "ptrs_shift b ptr delta (Suc i) =
     do {
       b \<leftarrow> ptrs_shift b ptr delta i;
       v \<leftarrow> MP_PTR b i;
       if v \<le> ptr then SET_PTR b i (nat ((int v - delta) mod 2 ^ 16)) else Some b
     }"

text \<open>\<open>Inl\<close> asks for the delete-and-split path: the page after the deletion and the child page number.\<close>

definition mdb_update_key :: "page \<Rightarrow> nat \<Rightarrow> bytes \<Rightarrow> ((page \<times> nat) + page) option" where
  "mdb_update_key mp indx key =
     do {
       ptr \<leftarrow> MP_PTR (mp_body mp) indx;
       ok \<leftarrow> mn_ksize (mp_body mp) ptr;
       let ksize = EVEN (length key);
       let oksize = EVEN ok;
       let delta = int ksize - int oksize;
       if 0 < delta \<and> int (SIZELEFT mp) < delta
       then do {
         pgno \<leftarrow> NODEPGNO (mp_body mp) ptr;
         mp \<leftarrow> mdb_node_del mp indx 0;
         Some (Inl (mp, pgno))
       }
       else do {
         mp \<leftarrow> (if delta \<noteq> 0
               then do {
                 b \<leftarrow> ptrs_shift (mp_body mp) ptr delta (NUMKEYS mp);
                 b \<leftarrow> memmove b (nat (int (mp_upper mp) - delta)) (mp_upper mp) (ptr - mp_upper mp + NODESIZE);
                 Some (mp\<lparr>mp_body := b, mp_upper := nat ((int (mp_upper mp) - delta) mod 2 ^ 16)\<rparr>)
               }
               else Some mp);
         ptr \<leftarrow> MP_PTR (mp_body mp) indx;
         b \<leftarrow> st (mp_body mp) (ptr + 6) 2 (length key);
         b \<leftarrow> memcpy b (ptr + NODESIZE) key 0 (length key);
         Some (Inr (mp\<lparr>mp_body := b\<rparr>))
       }
     }"

end
