(* ===== verification/Lmdb_Node.thy ===== *)
theory Lmdb_Node
  imports Lmdb_Page
begin

text \<open>
  The contents of a page of \<^verbatim>\<open>Lmdb_Page\<close> as a list of nodes, and the proof that adding, deleting and
  re-keying a node on the byte level implement inserting, removing and updating an element of
  that list. A node is abstracted to its raw bytes (a chunk); its header fields, key and data
  are read from them.
\<close>

unbundle bit_operations_syntax

section \<open>Chunks\<close>

definition c_dsz :: "bytes \<Rightarrow> nat" where "c_dsz c = dec_le (block c 0 2) + 65536 * dec_le (block c 2 2)"
definition c_flags :: "bytes \<Rightarrow> nat" where "c_flags c = dec_le (block c 4 2)"
definition c_ksize :: "bytes \<Rightarrow> nat" where "c_ksize c = dec_le (block c 6 2)"
definition c_pgno :: "bytes \<Rightarrow> nat" where "c_pgno c = c_dsz c + 2 ^ 32 * c_flags c"
definition c_key :: "bytes \<Rightarrow> bytes" where "c_key c = block c NODESIZE (c_ksize c)"

definition c_big :: "bytes \<Rightarrow> bool" where
  "c_big c \<longleftrightarrow> F_ISSET (of_nat (c_flags c) :: 32 word) F_BIGDATA"

definition c_dlen :: "bytes \<Rightarrow> nat" where
  "c_dlen c = (if c_big c then SIZEOF_OVPAGE else c_dsz c)"

definition c_data :: "bytes \<Rightarrow> bytes" where
  "c_data c = block c (NODESIZE + EVEN (c_ksize c)) (c_dlen c)"

definition raw_sz :: "bool \<Rightarrow> bytes \<Rightarrow> nat" where
  "raw_sz leaf c =
     NODESIZE + EVEN (c_ksize c) + (if leaf then if c_big c then SIZEOF_OVPAGE else EVEN (c_dsz c) else 0)"

section \<open>Layout of a page\<close>

definition ptr :: "bytes \<Rightarrow> nat \<Rightarrow> nat" where "ptr b i = dec_le (block b (2 * i) 2)"
definition ptrs :: "bytes \<Rightarrow> nat \<Rightarrow> nat list" where "ptrs b n = map (ptr b) [0..<n]"

definition apart :: "nat \<times> 'a list \<Rightarrow> nat \<times> 'a list \<Rightarrow> bool" where
  "apart x y \<longleftrightarrow> fst x + length (snd x) \<le> fst y \<or> fst y + length (snd y) \<le> fst x"

definition placed :: "bool \<Rightarrow> bytes \<Rightarrow> nat \<Rightarrow> nat \<times> bytes \<Rightarrow> bool" where
  "placed leaf b upper x \<longleftrightarrow>
     upper \<le> fst x \<and> fst x + length (snd x) \<le> length b \<and> block b (fst x) (length (snd x)) = snd x \<and>
     length (snd x) = raw_sz leaf (snd x)"

definition lay :: "bool \<Rightarrow> bytes \<Rightarrow> nat \<Rightarrow> (nat \<times> bytes) list \<Rightarrow> bool" where
  "lay leaf b upper pcs \<longleftrightarrow> (\<forall>x\<in>set pcs. placed leaf b upper x) \<and> sorted_wrt apart pcs"

definition page_rep :: "page \<Rightarrow> bytes list \<Rightarrow> bool" where
  "page_rep mp cs \<longleftrightarrow>
     mp_lower mp = 2 * length cs \<and> mp_lower mp \<le> mp_upper mp \<and> mp_upper mp \<le> length (mp_body mp) \<and>
     length (mp_body mp) < 2 ^ 16 \<and>
     lay (IS_LEAF mp) (mp_body mp) (mp_upper mp) (zip (ptrs (mp_body mp) (length cs)) cs)"

lemma length_ptrs [simp]: "length (ptrs b n) = n"
  by (simp add: ptrs_def)

lemma nth_ptrs [simp]: "i < n \<Longrightarrow> ptrs b n ! i = ptr b i"
  by (simp add: ptrs_def)

lemma ptr_less: "2 * i + 2 \<le> length b \<Longrightarrow> ptr b i < 2 ^ 16"
  using dec_le_less [of "block b (2 * i) 2"] by (simp add: ptr_def)

lemma NUMKEYS_rep: "page_rep mp cs \<Longrightarrow> NUMKEYS mp = length cs"
  by (simp add: page_rep_def NUMKEYS_def)

lemma SIZELEFT_rep: "page_rep mp cs \<Longrightarrow> SIZELEFT mp = mp_upper mp - mp_lower mp"
  unfolding page_rep_def SIZELEFT_def by (subst mod_pos_pos_trivial) auto

lemma IS_LEAF_cong [simp]:
  "IS_LEAF (mp\<lparr>mp_body := b\<rparr>) = IS_LEAF mp" "IS_LEAF (mp\<lparr>mp_upper := u\<rparr>) = IS_LEAF mp"
  "IS_LEAF (mp\<lparr>mp_lower := l\<rparr>) = IS_LEAF mp"
  by (simp_all add: IS_LEAF_def)

lemma EVEN_ge: "n \<le> EVEN n" "EVEN n \<le> n + 1"
  by (auto simp: EVEN_def)

text \<open>A layout survives any change of the bytes below it.\<close>

lemma lay_frame:
  assumes "lay leaf b upper pcs" "length b' = length b" "upper' \<le> upper"
    "\<And>q m. upper \<le> q \<Longrightarrow> q + m \<le> length b \<Longrightarrow> block b' q m = block b q m"
  shows "lay leaf b' upper' pcs"
  using assms unfolding lay_def placed_def by fastforce

section \<open>Moving offsets\<close>

lemma blit_blit_before:
  "p + length xs + length ys \<le> length b \<Longrightarrow>
   blit (blit b (p + length xs) ys) p xs = blit b p (xs @ ys)"
  by (intro nth_equalityI) (auto simp: nth_blit nth_append)

lemma enc_dec_block: "p + n \<le> length b \<Longrightarrow> enc_le n (dec_le (block b p n)) = block b p n"
  using enc_dec_le [of "block b p n"] by simp

lemma block_join: "p + (m + n) \<le> length b \<Longrightarrow> q = p + m \<Longrightarrow> block b p m @ block b q n = block b p (m + n)"
  by (simp add: block_def take_add add.commute)

lemma ptrs_up_eq:
  assumes "indx \<le> n" "2 * n + 2 \<le> length b"
  shows "ptrs_up b n indx = Some (blit b (2 * indx + 2) (block b (2 * indx) (2 * (n - indx))))"
  using assms
proof (induction n arbitrary: b)
  case (Suc i)
  show ?case
  proof (cases "indx = Suc i")
    case False
    then have le: "indx \<le> i" using Suc.prems by simp
    let ?b = "blit b (2 * i + 2) (block b (2 * i) 2)"
    have st: "MP_PTR b i = Some (dec_le (block b (2 * i) 2))"
      "SET_PTR b (Suc i) (dec_le (block b (2 * i) 2)) = Some ?b"
      using Suc.prems by (simp_all add: MP_PTR_def SET_PTR_def enc_dec_block)
    have IH: "ptrs_up ?b i indx = Some (blit ?b (2 * indx + 2) (block ?b (2 * indx) (2 * (i - indx))))"
      using Suc.IH [OF le, of ?b] Suc.prems by simp
    have fr: "block ?b (2 * indx) (2 * (i - indx)) = block b (2 * indx) (2 * (i - indx))"
      using le Suc.prems by (intro block_blit_disjoint) auto
    have "2 * i + 2 = 2 * indx + 2 + length (block b (2 * indx) (2 * (i - indx)))"
      using le Suc.prems by simp
    then have "blit ?b (2 * indx + 2) (block b (2 * indx) (2 * (i - indx))) =
        blit b (2 * indx + 2) (block b (2 * indx) (2 * (i - indx)) @ block b (2 * i) 2)"
      using blit_blit_before [of "2 * indx + 2" "block b (2 * indx) (2 * (i - indx))" "block b (2 * i) 2" b] le Suc.prems
      by simp
    also have "block b (2 * indx) (2 * (i - indx)) @ block b (2 * i) 2 = block b (2 * indx) (2 * (Suc i - indx))"
    proof -
      have e: "2 * i = 2 * indx + 2 * (i - indx)" "2 * (Suc i - indx) = 2 * (i - indx) + 2" using le by auto
      have "2 * indx + (2 * (i - indx) + 2) \<le> length b" using Suc.prems le by simp
      then show ?thesis unfolding e(2) by (rule block_join [OF _ e(1)])
    qed
    finally show ?thesis using le st IH fr by simp
  qed simp
qed simp

text \<open>The offset array after a pointer has been inserted at \<open>indx\<close>.\<close>

lemma ptrs_inserted:
  assumes "indx \<le> n" "2 * n + 2 \<le> length b" "v < 2 ^ 16"
    "b' = blit (blit b (2 * indx + 2) (block b (2 * indx) (2 * (n - indx)))) (2 * indx) (enc_le 2 v)"
  shows "ptrs b' (Suc n) = take indx (ptrs b n) @ v # drop indx (ptrs b n)"
proof (rule nth_equalityI)
  show "length (ptrs b' (Suc n)) = length (take indx (ptrs b n) @ v # drop indx (ptrs b n))"
    using assms(1) by simp
  fix i assume i: "i < length (ptrs b' (Suc n))"
  let ?c = "blit b (2 * indx + 2) (block b (2 * indx) (2 * (n - indx)))"
  have len: "length ?c = length b" using assms(1,2) by simp
  have r: "(take indx (ptrs b n) @ v # drop indx (ptrs b n)) ! i =
      (if i < indx then ptr b i else if i = indx then v else ptr b (i - 1))"
    using i assms(1) by (auto simp: nth_append nth_Cons' min_def)
  consider "i < indx" | "i = indx" | "indx < i" by linarith
  then have "block b' (2 * i) 2 =
      (if i < indx then block b (2 * i) 2 else if i = indx then enc_le 2 v else block b (2 * (i - 1)) 2)"
  proof cases
    case 1
    then show ?thesis using assms len by (simp add: block_blit_disjoint)
  next
    case 2
    then show ?thesis using assms len by (simp add: block_blit_same)
  next
    case 3
    then have "block b' (2 * i) 2 = block ?c (2 * i) 2"
      using assms len i by (simp add: block_blit_disjoint)
    also have "\<dots> = block (block b (2 * indx) (2 * (n - indx))) (2 * i - (2 * indx + 2)) 2"
      using assms(1,2) 3 i by (intro block_blit_inside) auto
    also have "\<dots> = block b (2 * indx + (2 * i - (2 * indx + 2))) 2"
      using assms(1,2) 3 i by (intro block_block) auto
    also have "2 * indx + (2 * i - (2 * indx + 2)) = 2 * (i - 1)" using 3 by simp
    finally show ?thesis using 3 by simp
  qed
  then show "ptrs b' (Suc n) ! i = (take indx (ptrs b n) @ v # drop indx (ptrs b n)) ! i"
    using i r assms(3) by (auto simp: ptr_def dec_enc_le)
qed


section \<open>Adding a node\<close>

abbreviation klen :: "bytes option \<Rightarrow> nat" where
  "klen key \<equiv> (case key of None \<Rightarrow> 0 | Some k \<Rightarrow> length k)"

abbreviation kbytes :: "bytes option \<Rightarrow> bytes" where
  "kbytes key \<equiv> (case key of None \<Rightarrow> [] | Some k \<Rightarrow> k)"

text \<open>The bytes that \<open>node_header\<close> leaves, from the node's start: header fields and key.\<close>

definition header_fields :: "bool \<Rightarrow> bytes \<Rightarrow> nat \<Rightarrow> bytes option \<Rightarrow> nat \<Rightarrow> nat \<Rightarrow> 32 word \<Rightarrow> bool" where
  "header_fields leaf b ofs key dsize pgno flags \<longleftrightarrow>
     block b (ofs + 6) 2 = enc_le 2 (klen key) \<and> block b (ofs + 8) (klen key) = kbytes key \<and>
     (if leaf
      then block b (ofs + 4) 2 = enc_le 2 (unat flags) \<and> block b ofs 2 = enc_le 2 (dsize mod 65536) \<and>
           block b (ofs + 2) 2 = enc_le 2 (dsize div 65536)
      else block b (ofs + 4) 2 = enc_le 2 (pgno div 2 ^ 32) \<and> block b ofs 2 = enc_le 2 (pgno mod 65536) \<and>
           block b (ofs + 2) 2 = enc_le 2 (pgno div 65536))"

text \<open>The writes of the header and the key, one after the other, at a node start \<open>ofs\<close>.\<close>

lemma header_writes:
  assumes "ofs + 8 + klen key \<le> length b"
  shows "\<exists>b'. node_fields b ofs leaf key dsize pgno flags = Some b' \<and> length b' = length b \<and> header_fields leaf b' ofs key dsize pgno flags \<and>
     (\<forall>q m. (q + m \<le> ofs \<or> ofs + 8 + klen key \<le> q) \<and> q + m \<le> length b \<longrightarrow> block b' q m = block b q m)"
proof -
  let ?b1 = "blit b (ofs + 6) (enc_le 2 (klen key))"
  let ?b2 = "blit ?b1 (ofs + 4) (enc_le 2 (unat flags))"
  let ?b3 = "if leaf then blit (blit ?b2 ofs (enc_le 2 (dsize mod 65536))) (ofs + 2) (enc_le 2 (dsize div 65536))
             else blit (blit (blit ?b2 ofs (enc_le 2 (pgno mod 65536))) (ofs + 2) (enc_le 2 (pgno div 65536)))
                    (ofs + 4) (enc_le 2 (pgno div 2 ^ 32))"
  define b3 where "b3 = ?b3"
  let ?b4 = "blit b3 (ofs + 8) (kbytes key)"
  have kl: "length (kbytes key) = klen key" by (cases key) auto
  have le: "ofs + 8 \<le> length b" using assms by simp
  have len3: "length b3 = length b" using le by (simp add: b3_def)
  have run: "node_fields b ofs leaf key dsize pgno flags = Some ?b4"
    using assms le by (cases key) (auto simp: node_fields_def SETDSZ_def SETPGNO_def memcpy_all NODESIZE_def b3_def)
  have len: "length ?b4 = length b" using assms len3 kl by simp
  have key: "block ?b4 (ofs + 8) (klen key) = kbytes key"
    using assms len3 kl by (intro block_blit_same) auto
  have "header_fields leaf ?b4 ofs key dsize pgno flags"
    using le kl assms by (simp add: header_fields_def key b3_def block_blit_same block_blit_disjoint)
  moreover have "block ?b4 q m = block b q m"
    if "q + m \<le> ofs \<or> ofs + 8 + klen key \<le> q" "q + m \<le> length b" for q m
  proof -
    have "block ?b4 q m = block b3 q m"
      using that assms len3 kl by (intro block_blit_disjoint) auto
    also have "\<dots> = block b q m" using that le by (auto simp: b3_def block_blit_disjoint)
    finally show ?thesis .
  qed
  ultimately show ?thesis using run len by blast
qed

lemma node_header_spec:
  assumes rep: "page_rep mp cs" and indx: "indx \<le> length cs"
    and room: "int ns \<le> int (SIZELEFT mp) - 2" and ns: "8 + klen key \<le> ns"
  shows "\<exists>b. node_header mp indx ns key dsize pgno flags =
       Some (mp\<lparr>mp_body := b, mp_upper := mp_upper mp - ns, mp_lower := mp_lower mp + 2\<rparr>, mp_upper mp - ns) \<and>
     length b = length (mp_body mp) \<and> header_fields (IS_LEAF mp) b (mp_upper mp - ns) key dsize pgno flags \<and>
     ptrs b (Suc (length cs)) =
       take indx (ptrs (mp_body mp) (length cs)) @ (mp_upper mp - ns) # drop indx (ptrs (mp_body mp) (length cs)) \<and>
     (\<forall>q m. mp_upper mp \<le> q \<and> q + m \<le> length b \<longrightarrow> block b q m = block (mp_body mp) q m) \<and>
     mp_lower mp + 2 + ns \<le> mp_upper mp"
proof -
  let ?n = "length cs" and ?B = "mp_body mp" and ?ofs = "mp_upper mp - ns"
  have lo: "mp_lower mp = 2 * ?n" "mp_lower mp \<le> mp_upper mp" "mp_upper mp \<le> length ?B" "length ?B < 2 ^ 16"
    using rep by (auto simp: page_rep_def)
  have room2: "mp_lower mp + 2 + ns \<le> mp_upper mp"
    using room SIZELEFT_rep [OF rep] lo(2) by linarith
  have ofs: "nat ((int (mp_upper mp) - int ns) mod 2 ^ 16) = ?ofs"
  proof -
    have "(int (mp_upper mp) - int ns) mod 2 ^ 16 = int (mp_upper mp) - int ns"
      using room2 lo by (intro mod_pos_pos_trivial) auto
    then show ?thesis using room2 by simp
  qed
  let ?b1 = "blit ?B (2 * indx + 2) (block ?B (2 * indx) (2 * (?n - indx)))"
  let ?b2 = "blit ?b1 (2 * indx) (enc_le 2 ?ofs)"
  have up: "ptrs_up ?B ?n indx = Some ?b1" using ptrs_up_eq [OF indx, of ?B] room2 lo by simp
  have len2: "length ?b2 = length ?B" using room2 lo indx by simp
  have set: "SET_PTR ?b1 indx ?ofs = Some ?b2" using room2 lo indx by (simp add: SET_PTR_def)
  have ofsb: "?ofs + 8 + klen key \<le> length ?b2" using room2 ns lo len2 by simp
  obtain b where b: "node_fields ?b2 ?ofs (IS_LEAF mp) key dsize pgno flags = Some b" "length b = length ?b2" "header_fields (IS_LEAF mp) b ?ofs key dsize pgno flags"
     "\<forall>q m. (q + m \<le> ?ofs \<or> ?ofs + 8 + klen key \<le> q) \<and> q + m \<le> length ?b2 \<longrightarrow> block b q m = block ?b2 q m"
    using header_writes [OF ofsb] by blast
  have run: "node_header mp indx ns key dsize pgno flags =
      Some (mp\<lparr>mp_body := b, mp_upper := ?ofs, mp_lower := mp_lower mp + 2\<rparr>, ?ofs)"
    using b(1) up set ofs room2 lo NUMKEYS_rep [OF rep]
    by (simp add: node_header_def Let_def u16_id)
  have P: "ptrs b (Suc ?n) = ptrs ?b2 (Suc ?n)"
  proof -
    have "block b (2 * i) 2 = block ?b2 (2 * i) 2" if "i < Suc ?n" for i
    proof -
      have "2 * i + 2 \<le> ?ofs" "2 * i + 2 \<le> length ?b2" using that room2 lo len2 by auto
      then show ?thesis using b(4) by blast
    qed
    then show ?thesis by (simp add: ptrs_def ptr_def del: upt_Suc)
  qed
  have P2: "ptrs ?b2 (Suc ?n) = take indx (ptrs ?B ?n) @ ?ofs # drop indx (ptrs ?B ?n)"
    by (rule ptrs_inserted [OF indx _ _ refl]) (use room2 lo in auto)
  have fr: "block b q m = block ?B q m" if "mp_upper mp \<le> q \<and> q + m \<le> length b" for q m
  proof -
    have "?ofs + 8 + klen key \<le> q" "q + m \<le> length ?b2" using that b(2) ns room2 by auto
    then have "block b q m = block ?b2 q m" using b(4) by blast
    also have "\<dots> = block ?b1 q m"
      using that b(2) len2 indx lo room2 by (intro block_blit_disjoint) auto
    also have "\<dots> = block ?B q m"
      using that b(2) len2 indx lo room2 by (intro block_blit_disjoint) auto
    finally show ?thesis .
  qed
  show ?thesis using run b(2,3) len2 P P2 fr room2 by auto
qed

lemma page_rep_insert:
  assumes rep: "page_rep mp cs" and indx: "indx \<le> length cs"
    and len: "length b = length (mp_body mp)"
    and room: "mp_lower mp + 2 + ns \<le> mp_upper mp"
    and P: "ptrs b (Suc (length cs)) =
       take indx (ptrs (mp_body mp) (length cs)) @ (mp_upper mp - ns) # drop indx (ptrs (mp_body mp) (length cs))"
    and fr: "\<And>q m. mp_upper mp \<le> q \<Longrightarrow> q + m \<le> length b \<Longrightarrow> block b q m = block (mp_body mp) q m"
    and c: "c = block b (mp_upper mp - ns) ns" "raw_sz (IS_LEAF mp) c = ns"
  shows "page_rep (mp\<lparr>mp_body := b, mp_upper := mp_upper mp - ns, mp_lower := mp_lower mp + 2\<rparr>)
           (take indx cs @ c # drop indx cs)"
proof -
  let ?ps = "ptrs (mp_body mp) (length cs)" and ?ofs = "mp_upper mp - ns"
  note R = rep [unfolded page_rep_def]
  have zip: "zip (ptrs b (Suc (length cs))) (take indx cs @ c # drop indx cs) =
      take indx (zip ?ps cs) @ (?ofs, c) # drop indx (zip ?ps cs)"
    using P indx by (simp add: zip_append take_zip drop_zip)
  have old: "lay (IS_LEAF mp) b ?ofs (zip ?ps cs)"
    by (rule lay_frame [of _ "mp_body mp" "mp_upper mp"]) (use R len fr in auto)
  have lc: "length c = ns" using c(1) room R len by simp
  have new: "placed (IS_LEAF mp) b ?ofs (?ofs, c)"
    using c room R len lc by (simp add: placed_def)
  have ge: "mp_upper mp \<le> fst x" if "x \<in> set (zip ?ps cs)" for x
    using R that by (auto simp: lay_def placed_def)
  have ap: "apart x (?ofs, c)" "apart (?ofs, c) x" if "x \<in> set (zip ?ps cs)" for x
    using ge [OF that] lc room by (auto simp: apart_def)
  have sub: "set (take indx (zip ?ps cs)) \<subseteq> set (zip ?ps cs)" "set (drop indx (zip ?ps cs)) \<subseteq> set (zip ?ps cs)"
    by (rule set_take_subset, rule set_drop_subset)
  have "sorted_wrt apart (take indx (zip ?ps cs) @ drop indx (zip ?ps cs))"
    using old by (simp add: lay_def)
  then have "sorted_wrt apart (take indx (zip ?ps cs) @ (?ofs, c) # drop indx (zip ?ps cs))"
    using ap sub unfolding sorted_wrt_append sorted_wrt.simps list.set by blast
  then have "lay (IS_LEAF mp) b ?ofs (take indx (zip ?ps cs) @ (?ofs, c) # drop indx (zip ?ps cs))"
    using old new sub unfolding lay_def by (auto dest: in_set_takeD in_set_dropD)
  moreover have "length (take indx cs @ c # drop indx cs) = Suc (length cs)" using indx by simp
  ultimately show ?thesis
    using R len room zip unfolding page_rep_def by auto
qed


text \<open>The fields of a chunk, from the header bytes the code wrote.\<close>

lemma chunk_fields:
  assumes h: "header_fields leaf b ofs key dsize pgno flags" and b: "ofs + ns \<le> length b" "8 + klen key \<le> ns"
    and k: "klen key < 2 ^ 16"
  shows "c_ksize (block b ofs ns) = klen key" "c_key (block b ofs ns) = kbytes key"
    "leaf \<Longrightarrow> dsize < 2 ^ 32 \<Longrightarrow> c_dsz (block b ofs ns) = dsize"
    "leaf \<Longrightarrow> c_flags (block b ofs ns) = unat flags mod 2 ^ 16"
    "\<not> leaf \<Longrightarrow> pgno < 2 ^ 48 \<Longrightarrow> c_pgno (block b ofs ns) = pgno"
proof -
  let ?c = "block b ofs ns"
  have sub: "block ?c q m = block b (ofs + q) m" if "q + m \<le> ns" for q m
    using block_block [OF that b(1)] .
  show ks: "c_ksize ?c = klen key"
    using h k b sub [of 6 2] by (simp add: c_ksize_def header_fields_def dec_enc_le)
  show "c_key ?c = kbytes key"
    using h b sub [of 8 "klen key"] by (simp add: c_key_def ks header_fields_def NODESIZE_def)
  show "c_dsz ?c = dsize" if "leaf" "dsize < 2 ^ 32"
    using h that b sub [of 0 2] sub [of 2 2] by (simp add: c_dsz_def header_fields_def dec_enc_le)
  show "c_flags ?c = unat flags mod 2 ^ 16" if "leaf"
    using h that b sub [of 4 2] by (simp add: c_flags_def header_fields_def dec_enc_le)
  show "c_pgno ?c = pgno" if "\<not> leaf" "pgno < 2 ^ 48"
  proof -
    have "c_dsz ?c = pgno mod 65536 + 65536 * (pgno div 65536 mod 65536)" "c_flags ?c = pgno div 2 ^ 32 mod 65536"
      using h that(1) b sub [of 0 2] sub [of 2 2] sub [of 4 2]
      by (simp_all add: c_dsz_def c_flags_def header_fields_def dec_enc_le)
    moreover have "pgno mod 65536 + 65536 * (pgno div 65536 mod 65536) = pgno mod 2 ^ 32"
      using mod_mult2_eq [of pgno 65536 65536] by simp
    ultimately show ?thesis using that(2) by (simp add: c_pgno_def)
  qed
qed

lemma c_big_flags:
  assumes "c_flags c = unat (flags :: 32 word) mod 2 ^ 16"
  shows "c_big c = F_ISSET flags F_BIGDATA"
proof -
  have "(x AND 1 = 1) = odd (unat x)" for x :: "32 word"
  proof -
    have "(x AND 1 = 1) \<longleftrightarrow> bit x 0" by (simp add: and_one_eq bit_0 odd_iff_mod_2_eq_one)
    also have "\<dots> \<longleftrightarrow> bit (unat x) 0" by (simp only: bit_unsigned_iff) simp
    finally show ?thesis by (simp only: bit_0)
  qed
  moreover have "odd (unat (of_nat (unat flags mod 2 ^ 16) :: 32 word)) = odd (unat flags)"
    by (simp add: unat_of_nat dvd_mod_iff)
  ultimately show ?thesis unfolding c_big_def F_ISSET_def F_BIGDATA_def assms by simp
qed

text \<open>
  Writing the data part inside the new node keeps everything \<open>node_header\<close> established.
\<close>

lemma header_fields_data:
  assumes "header_fields leaf b ofs key dsize pgno flags" "p + length d \<le> length b" "ofs + 8 + klen key \<le> p"
  shows "header_fields leaf (blit b p d) ofs key dsize pgno flags"
  using assms unfolding header_fields_def by (auto simp: block_blit_disjoint)

lemma ptrs_cong:
  assumes "\<And>q m. q + m \<le> 2 * n \<Longrightarrow> block b' q m = block b q m"
  shows "ptrs b' n = ptrs b n"
  using assms by (simp add: ptrs_def ptr_def)

lemma mn_ksize_header:
  assumes "header_fields leaf b ofs key dsize pgno flags" "ofs + 8 \<le> length b" "klen key < 2 ^ 16"
  shows "mn_ksize b ofs = Some (klen key)"
  using assms by (simp add: mn_ksize_def header_fields_def dec_enc_le)

text \<open>
  The common part of the three ways to add a leaf node: after \<open>node_header\<close> and a write of
  \<open>d\<close> at the data position, the page holds the old nodes with the new one at \<open>indx\<close>.
\<close>

lemma leaf_insert:
  assumes rep: "page_rep mp cs" and leaf: "IS_LEAF mp" and indx: "indx \<le> length cs"
    and k: "length k < 2 ^ 16" and ds: "dsize < 2 ^ 32"
    and ns: "ns = 8 + EVEN (length k) + (if F_ISSET flags F_BIGDATA then SIZEOF_OVPAGE else EVEN dsize)"
    and room: "int ns \<le> int (SIZELEFT mp) - 2"
    and d: "length d = (if F_ISSET flags F_BIGDATA then SIZEOF_OVPAGE else dsize)"
  shows "\<exists>b ofs c. node_header mp indx ns (Some k) dsize pgno flags =
       Some (mp\<lparr>mp_body := b, mp_upper := ofs, mp_lower := mp_lower mp + 2\<rparr>, ofs) \<and>
     mn_ksize b ofs = Some (length k) \<and> ofs + 8 + EVEN (length k) + length d \<le> length b \<and>
     page_rep (mp\<lparr>mp_body := blit b (ofs + 8 + EVEN (length k)) d, mp_upper := ofs, mp_lower := mp_lower mp + 2\<rparr>)
       (take indx cs @ c # drop indx cs) \<and>
     c_key c = k \<and> c_data c = d \<and> c_dsz c = dsize \<and> c_flags c = unat flags mod 2 ^ 16"
proof -
  let ?ofs = "mp_upper mp - ns" and ?p = "mp_upper mp - ns + 8 + EVEN (length k)"
  have nsk: "8 + klen (Some k) \<le> ns" using ns EVEN_ge(1) [of "length k"] by simp
  obtain b where b: "node_header mp indx ns (Some k) dsize pgno flags =
       Some (mp\<lparr>mp_body := b, mp_upper := ?ofs, mp_lower := mp_lower mp + 2\<rparr>, ?ofs)"
     "length b = length (mp_body mp)" "header_fields True b ?ofs (Some k) dsize pgno flags"
     "ptrs b (Suc (length cs)) =
       take indx (ptrs (mp_body mp) (length cs)) @ ?ofs # drop indx (ptrs (mp_body mp) (length cs))"
     "\<forall>q m. mp_upper mp \<le> q \<and> q + m \<le> length b \<longrightarrow> block b q m = block (mp_body mp) q m"
     "mp_lower mp + 2 + ns \<le> mp_upper mp"
    using node_header_spec [OF rep indx room nsk, of dsize pgno flags] leaf by auto
  have up: "mp_upper mp \<le> length b" "mp_lower mp = 2 * length cs" using rep b(2) by (auto simp: page_rep_def)
  have dl: "length d \<le> (if F_ISSET flags F_BIGDATA then SIZEOF_OVPAGE else EVEN dsize)"
    using d EVEN_ge(1) [of dsize] by simp
  have pd: "?p + length d \<le> ?ofs + ns" using ns dl by simp
  have fits: "?p + length d \<le> length b" using pd b(6) up by simp
  let ?b = "blit b ?p d" and ?c = "block (blit b ?p d) ?ofs ns"
  have h: "header_fields True ?b ?ofs (Some k) dsize pgno flags"
    by (rule header_fields_data [OF b(3) fits]) (use EVEN_ge(1) [of "length k"] in simp)
  have cb: "?ofs + ns \<le> length ?b" using fits b(6) up by simp
  have F: "c_ksize ?c = length k" "c_key ?c = k" "c_dsz ?c = dsize" "c_flags ?c = unat flags mod 2 ^ 16"
    using chunk_fields [OF h cb nsk] k ds by simp_all
  have big: "c_big ?c = F_ISSET flags F_BIGDATA" by (rule c_big_flags [OF F(4)])
  have "block ?c (8 + EVEN (length k)) (length d) = block ?b ?p (length d)"
    using block_block [of "8 + EVEN (length k)" "length d" ns ?ofs ?b] cb pd by (simp add: add.assoc)
  also have "\<dots> = d" using fits by (intro block_blit_same) auto
  finally have data: "c_data ?c = d"
    using big d F by (auto simp: c_data_def c_dlen_def NODESIZE_def)
  have raw: "raw_sz (IS_LEAF mp) ?c = ns"
    using leaf F big ns by (auto simp: raw_sz_def NODESIZE_def)
  have "ptrs ?b (Suc (length cs)) = ptrs b (Suc (length cs))"
    using b(6) up fits by (intro ptrs_cong block_blit_disjoint) auto
  moreover have "block ?b q m = block (mp_body mp) q m" if "mp_upper mp \<le> q" "q + m \<le> length ?b" for q m
  proof -
    have "block ?b q m = block b q m" using that pd fits b(6) by (intro block_blit_disjoint) auto
    then show ?thesis using b(5) that fits by simp
  qed
  moreover have "length ?b = length (mp_body mp)" using fits b(2) by simp
  ultimately have "page_rep (mp\<lparr>mp_body := ?b, mp_upper := ?ofs, mp_lower := mp_lower mp + 2\<rparr>)
       (take indx cs @ ?c # drop indx cs)"
    using page_rep_insert [OF rep indx _ b(6), of ?b ?c] b(4) raw by simp
  moreover have "mn_ksize b ?ofs = Some (length k)"
    using mn_ksize_header [OF b(3)] fits k by simp
  ultimately show ?thesis using b(1) F data fits by blast
qed

lemma IS_LEAF2_cong [simp]:
  "IS_LEAF2 (mp\<lparr>mp_body := b\<rparr>) = IS_LEAF2 mp" "IS_LEAF2 (mp\<lparr>mp_upper := u\<rparr>) = IS_LEAF2 mp"
  "IS_LEAF2 (mp\<lparr>mp_lower := l\<rparr>) = IS_LEAF2 mp"
  by (simp_all add: IS_LEAF2_def)

lemma EVEN_even: "even n \<Longrightarrow> EVEN n = n"
  unfolding EVEN_def by presburger

lemma page_rep_lower_upper: "page_rep mp cs \<Longrightarrow> \<not> mp_upper mp < mp_lower mp"
  by (simp add: page_rep_def)

lemma node_fit_leaf_ok:
  assumes rep: "page_rep mp cs" and leaf: "IS_LEAF mp" and indx: "indx \<le> length cs"
    and k: "length k < 2 ^ 16" and d: "length d < 2 ^ 32"
    and flags: "\<not> F_ISSET flags F_BIGDATA" "\<not> F_ISSET flags MDB_RESERVE"
    and ns: "ns = 8 + EVEN (length k) + EVEN (length d)" and room: "ns + 2 \<le> SIZELEFT mp"
  shows "\<exists>r c. node_fit t mp indx ns (Some k) (Some d) pgno flags None = Some r \<and> na_rc r = 0 \<and>
     \<not> na_txn_error r \<and> page_rep (na_page r) (take indx cs @ c # drop indx cs) \<and>
     c_key c = k \<and> c_data c = d \<and> c_flags c = unat flags mod 2 ^ 16"
proof -
  have rm: "int ns \<le> int (SIZELEFT mp) - 2" using room by simp
  obtain b ofs c where h: "node_header mp indx ns (Some k) (length d) pgno flags =
       Some (mp\<lparr>mp_body := b, mp_upper := ofs, mp_lower := mp_lower mp + 2\<rparr>, ofs)"
     "mn_ksize b ofs = Some (length k)" "ofs + 8 + EVEN (length k) + length d \<le> length b"
     "page_rep (mp\<lparr>mp_body := blit b (ofs + 8 + EVEN (length k)) d, mp_upper := ofs, mp_lower := mp_lower mp + 2\<rparr>)
       (take indx cs @ c # drop indx cs)"
     "c_key c = k" "c_data c = d" "c_flags c = unat flags mod 2 ^ 16"
    using leaf_insert [OF rep leaf indx k d _ rm, of flags d pgno] flags(1) ns by auto
  have "node_fit t mp indx ns (Some k) (Some d) pgno flags None =
      Some \<lparr>na_rc = 0, na_page = mp\<lparr>mp_body := blit b (ofs + 8 + EVEN (length k)) d, mp_upper := ofs, mp_lower := mp_lower mp + 2\<rparr>,
            na_ofp = None, na_place = NoPlace, na_txn_error = False\<rparr>"
    using rm h(1-3) leaf flags
    by (simp add: node_fit_def node_update_def node_data_def memcpy_all NODESIZE_def add.assoc Let_def)
  then show ?thesis using h(4-7) by auto
qed

text \<open>
  Property C4.
  Adding a leaf node whose data fits the page: either the page has less free space than the
  node and its pointer need, and the call reports \<^verbatim>\<open>MDB_PAGE_FULL\<close> with the page untouched, or it
  succeeds and the page holds its old nodes, in order and byte for byte, with one new node at
  the index, carrying exactly the given key, data and flags.
\<close>

theorem mdb_node_add_leaf:
  assumes rep: "page_rep mp cs" and leaf: "IS_LEAF mp" "\<not> IS_LEAF2 mp" and indx: "indx \<le> length cs"
    and k: "length k < 2 ^ 16" and d: "length d < 2 ^ 32"
    and flags: "\<not> F_ISSET flags F_BIGDATA" "\<not> F_ISSET flags MDB_RESERVE"
    and small: "NODESIZE + EVEN (length k) + length d \<le> me_nodemax e"
  shows "if SIZELEFT mp < LEAFSIZE k d + 2
         then mdb_node_add e t pad page_new mp indx (Some k) (Some d) pgno flags = Some (node_full mp)
         else \<exists>r c. mdb_node_add e t pad page_new mp indx (Some k) (Some d) pgno flags = Some r \<and> na_rc r = 0 \<and>
                page_rep (na_page r) (take indx cs @ c # drop indx cs) \<and>
                c_key c = k \<and> c_data c = d \<and> c_flags c = unat flags mod 2 ^ 16"
proof -
  let ?ns = "8 + EVEN (length k) + EVEN (length d)"
  have unf: "mdb_node_add e t pad page_new mp indx (Some k) (Some d) pgno flags =
      node_fit t mp indx ?ns (Some k) (Some d) pgno flags None"
    using page_rep_lower_upper [OF rep] leaf flags(1) small
    by (simp add: mdb_node_add_def Let_def NODESIZE_def)
  show ?thesis
  proof (cases "SIZELEFT mp < ?ns + 2")
    case True
    then show ?thesis using unf by (auto simp: node_fit_def LEAFSIZE_def NODESIZE_def)
  next
    case False
    then show ?thesis
      using node_fit_leaf_ok [OF rep leaf(1) indx k d flags refl, of t pgno] unf
      by (auto simp: LEAFSIZE_def NODESIZE_def)
  qed
qed

lemma flags_or_bigdata:
  fixes flags :: "32 word"
  shows "F_ISSET (flags OR F_BIGDATA) F_BIGDATA"
    "\<not> F_ISSET flags MDB_RESERVE \<Longrightarrow> \<not> F_ISSET (flags OR F_BIGDATA) MDB_RESERVE"
proof -
  show "F_ISSET (flags OR F_BIGDATA) F_BIGDATA" by (auto simp: F_ISSET_def bit_eq_iff bit_simps)
  have "F_BIGDATA AND MDB_RESERVE = 0" by (simp add: F_BIGDATA_def MDB_RESERVE_def)
  then have "((flags OR F_BIGDATA) AND MDB_RESERVE) = (flags AND MDB_RESERVE)"
    by (simp add: bit.conj_disj_distrib2)
  then show "\<not> F_ISSET flags MDB_RESERVE \<Longrightarrow> \<not> F_ISSET (flags OR F_BIGDATA) MDB_RESERVE"
    by (simp add: F_ISSET_def)
qed

lemma node_update_overflow_ok:
  assumes rep: "page_rep mp cs" and leaf: "IS_LEAF mp" and indx: "indx \<le> length cs"
    and k: "length k < 2 ^ 16" and d: "length d < 2 ^ 32" and flags: "\<not> F_ISSET flags MDB_RESERVE"
    and ns: "ns = 8 + EVEN (length k) + SIZEOF_OVPAGE" and room: "ns + 2 \<le> SIZELEFT mp"
    and fresh: "length d \<le> length (mp_body ofp)"
  shows "\<exists>r c ofp'. node_update t mp indx ns (Some k) (Some d) pgno (flags OR F_BIGDATA) (Some ofp) = Some r \<and>
     na_rc r = 0 \<and> \<not> na_txn_error r \<and> page_rep (na_page r) (take indx cs @ c # drop indx cs) \<and> c_key c = k \<and> c_big c \<and>
     c_data c = enc_ovpage (mp_pgno ofp) t (mp_pages ofp) \<and> c_dsz c = length d \<and>
     na_ofp r = Some ofp' \<and> take (length d) (mp_body ofp') = d"
proof -
  let ?fl = "flags OR F_BIGDATA" and ?o = "enc_ovpage (mp_pgno ofp) t (mp_pages ofp)"
  note fl = flags_or_bigdata(1) [of flags] flags_or_bigdata(2) [OF flags]
  have rm: "int ns \<le> int (SIZELEFT mp) - 2" using room by simp
  have lo: "length ?o = SIZEOF_OVPAGE" by (simp add: enc_ovpage_def SIZEOF_OVPAGE_def)
  obtain b ofs c where h: "node_header mp indx ns (Some k) (length d) pgno ?fl =
       Some (mp\<lparr>mp_body := b, mp_upper := ofs, mp_lower := mp_lower mp + 2\<rparr>, ofs)"
     "mn_ksize b ofs = Some (length k)" "ofs + 8 + EVEN (length k) + length ?o \<le> length b"
     "page_rep (mp\<lparr>mp_body := blit b (ofs + 8 + EVEN (length k)) ?o, mp_upper := ofs, mp_lower := mp_lower mp + 2\<rparr>)
       (take indx cs @ c # drop indx cs)"
     "c_key c = k" "c_data c = ?o" "c_dsz c = length d" "c_flags c = unat ?fl mod 2 ^ 16"
    using leaf_insert [OF rep leaf indx k d _ rm, of ?fl ?o pgno] fl(1) lo ns by auto
  have cp: "memcpy b (ofs + 8 + EVEN (length k)) ?o 0 SIZEOF_OVPAGE = Some (blit b (ofs + 8 + EVEN (length k)) ?o)"
    using memcpy_all [of _ ?o b] h(3) lo by simp
  have cp2: "memcpy (mp_body ofp) 0 d 0 (length d) = Some (blit (mp_body ofp) 0 d)"
    using fresh by (simp add: memcpy_all)
  have "node_update t mp indx ns (Some k) (Some d) pgno ?fl (Some ofp) =
      Some \<lparr>na_rc = 0, na_page = mp\<lparr>mp_body := blit b (ofs + 8 + EVEN (length k)) ?o, mp_upper := ofs, mp_lower := mp_lower mp + 2\<rparr>,
            na_ofp = Some (ofp\<lparr>mp_body := blit (mp_body ofp) 0 d\<rparr>), na_place = NoPlace, na_txn_error = False\<rparr>"
    using h(1,2) cp cp2 leaf fl by (simp add: node_update_def node_data_def NODESIZE_def Let_def)
  moreover have "take (length d) (blit (mp_body ofp) 0 d) = d" by (simp add: blit_def)
  moreover have "c_big c" using c_big_flags [OF h(8)] fl(1) by simp
  ultimately show ?thesis using h(4-8) by auto
qed

text \<open>
  Adding a leaf node whose data is too large for the page: with room for the key and the overflow
  reference, the data goes byte for byte onto the freshly allocated overflow page, the new node
  is flagged \<^verbatim>\<open>F_BIGDATA\<close> and refers to that page (number, transaction, page count), its size
  field still holds the size of the data, and the other nodes are kept. When the allocation of
  the overflow page fails its error code is returned and the page is untouched.
\<close>

lemma mdb_node_add_overflow:
  assumes rep: "page_rep mp cs" and leaf: "IS_LEAF mp" "\<not> IS_LEAF2 mp" and indx: "indx \<le> length cs"
    and k: "length k < 2 ^ 16" and d: "length d < 2 ^ 32"
    and flags: "\<not> F_ISSET flags F_BIGDATA" "\<not> F_ISSET flags MDB_RESERVE"
    and big: "me_nodemax e < NODESIZE + EVEN (length k) + length d"
    and room: "NODESIZE + EVEN (length k) + SIZEOF_OVPAGE + 2 \<le> SIZELEFT mp"
    and fresh: "\<And>ofp. page_new (OVPAGES e (length d)) = Inr ofp \<Longrightarrow> length d \<le> length (mp_body ofp)"
  shows "case page_new (OVPAGES e (length d)) of
      Inl rc \<Rightarrow> \<exists>r. mdb_node_add e t pad page_new mp indx (Some k) (Some d) pgno flags = Some r \<and>
                  na_rc r = rc \<and> na_page r = mp
    | Inr ofp \<Rightarrow> \<exists>r c ofp'. mdb_node_add e t pad page_new mp indx (Some k) (Some d) pgno flags = Some r \<and> na_rc r = 0 \<and>
                  page_rep (na_page r) (take indx cs @ c # drop indx cs) \<and> c_key c = k \<and> c_big c \<and>
                  c_data c = enc_ovpage (mp_pgno ofp) t (mp_pages ofp) \<and> c_dsz c = length d \<and>
                  na_ofp r = Some ofp' \<and> take (length d) (mp_body ofp') = d"
proof -
  let ?ns = "8 + EVEN (length k) + SIZEOF_OVPAGE"
  have ev: "EVEN ?ns = ?ns" by (rule EVEN_even) (simp add: EVEN_def SIZEOF_OVPAGE_def)
  have rm: "?ns + 2 \<le> SIZELEFT mp" using room by (simp add: NODESIZE_def)
  have unf: "mdb_node_add e t pad page_new mp indx (Some k) (Some d) pgno flags =
      (case page_new (OVPAGES e (length d)) of
         Inl rc \<Rightarrow> Some \<lparr>na_rc = rc, na_page = mp, na_ofp = None, na_place = NoPlace, na_txn_error = False\<rparr>
       | Inr ofp \<Rightarrow> node_update t mp indx ?ns (Some k) (Some d) pgno (flags OR F_BIGDATA) (Some ofp))"
    using page_rep_lower_upper [OF rep] leaf flags(1) big rm ev
    by (auto simp: mdb_node_add_def Let_def NODESIZE_def split: sum.split)
  show ?thesis
  proof (cases "page_new (OVPAGES e (length d))")
    case (Inl rc)
    then show ?thesis using unf by simp
  next
    case (Inr ofp)
    then show ?thesis
      using node_update_overflow_ok [OF rep leaf(1) indx k d flags(2) refl rm fresh [OF Inr], of t pgno] unf by auto
  qed
qed

lemma EVEN_add2: "EVEN (n + 2) = EVEN n + 2"
  by (simp add: EVEN_def)

lemma EVEN_8: "EVEN (8 + n) = 8 + EVEN n"
  unfolding EVEN_def by presburger

text \<open>
  Adding a branch node: full pages are reported unchanged, otherwise the old nodes are kept and
  the new one at the index carries the key and the child page number (below \<open>2 ^ 48\<close>).
\<close>

lemma mdb_node_add_branch:
  assumes rep: "page_rep mp cs" and br: "\<not> IS_LEAF mp" "\<not> IS_LEAF2 mp" and indx: "indx \<le> length cs"
    and k: "klen key < 2 ^ 16" and pg: "pgno < 2 ^ 48"
  shows "if SIZELEFT mp < mdb_branch_size key
         then mdb_node_add e t pad page_new mp indx key data pgno flags = Some (node_full mp)
         else \<exists>r c. mdb_node_add e t pad page_new mp indx key data pgno flags = Some r \<and> na_rc r = 0 \<and>
                page_rep (na_page r) (take indx cs @ c # drop indx cs) \<and>
                c_key c = kbytes key \<and> c_pgno c = pgno"
proof -
  let ?ns = "8 + EVEN (klen key)"
  have sz: "mdb_branch_size key = ?ns + 2"
    using EVEN_add2 [of "8 + klen key"] EVEN_8 by (auto simp: mdb_branch_size_def NODESIZE_def)
  have unf: "mdb_node_add e t pad page_new mp indx key data pgno flags =
      node_fit t mp indx ?ns key data pgno flags None"
    using page_rep_lower_upper [OF rep] br
    by (cases key) (simp_all add: mdb_node_add_def Let_def NODESIZE_def EVEN_def)
  show ?thesis
  proof (cases "SIZELEFT mp < ?ns + 2")
    case True
    then show ?thesis using unf sz by (auto simp: node_fit_def)
  next
    case False
    then have room: "int ?ns \<le> int (SIZELEFT mp) - 2" by simp
    have nsk: "8 + klen key \<le> ?ns" using EVEN_ge(1) [of "klen key"] by simp
    let ?ofs = "mp_upper mp - ?ns" and ?ds = "case data of None \<Rightarrow> 0 | Some d \<Rightarrow> length d"
    obtain b where b: "node_header mp indx ?ns key ?ds pgno flags =
         Some (mp\<lparr>mp_body := b, mp_upper := ?ofs, mp_lower := mp_lower mp + 2\<rparr>, ?ofs)"
       "length b = length (mp_body mp)" "header_fields False b ?ofs key ?ds pgno flags"
       "ptrs b (Suc (length cs)) =
         take indx (ptrs (mp_body mp) (length cs)) @ ?ofs # drop indx (ptrs (mp_body mp) (length cs))"
       "\<forall>q m. mp_upper mp \<le> q \<and> q + m \<le> length b \<longrightarrow> block b q m = block (mp_body mp) q m"
       "mp_lower mp + 2 + ?ns \<le> mp_upper mp"
      using node_header_spec [OF rep indx room nsk, of ?ds pgno flags] br by auto
    let ?c = "block b ?ofs ?ns"
    have cb: "?ofs + ?ns \<le> length b" using b(2,6) rep by (simp add: page_rep_def)
    have F: "c_ksize ?c = klen key" "c_key ?c = kbytes key" "c_pgno ?c = pgno"
      using chunk_fields [OF b(3) cb nsk] k pg by auto
    have raw: "raw_sz (IS_LEAF mp) ?c = ?ns" using br(1) F(1) by (simp add: raw_sz_def NODESIZE_def)
    have "page_rep (mp\<lparr>mp_body := b, mp_upper := ?ofs, mp_lower := mp_lower mp + 2\<rparr>) (take indx cs @ ?c # drop indx cs)"
      using page_rep_insert [OF rep indx b(2,6,4) _ refl raw] b(5) by blast
    moreover have "mdb_node_add e t pad page_new mp indx key data pgno flags =
        Some \<lparr>na_rc = 0, na_page = mp\<lparr>mp_body := b, mp_upper := ?ofs, mp_lower := mp_lower mp + 2\<rparr>,
              na_ofp = None, na_place = NoPlace, na_txn_error = False\<rparr>"
      unfolding unf using room b(1) br(1) by (simp add: node_fit_def node_update_def split: option.split)
    ultimately show ?thesis using False sz F by auto
  qed
qed

section \<open>Deleting a node\<close>

lemma node_size_at_chunk:
  assumes "placed (IS_LEAF mp) (mp_body mp) u (p, c)"
  shows "node_size_at mp p = Some (length c)"
proof -
  let ?b = "mp_body mp"
  have c: "p + length c \<le> length ?b" "block ?b p (length c) = c" "length c = raw_sz (IS_LEAF mp) c"
    using assms by (auto simp: placed_def)
  have ge: "8 \<le> length c" using c(3) by (simp add: raw_sz_def NODESIZE_def)
  have sub: "block c q m = block ?b (p + q) m" if "q + m \<le> length c" for q m
    using block_block [OF that c(1)] c(2) by simp
  have "mn_ksize ?b p = Some (c_ksize c)" "mn_flags ?b p = Some (c_flags c)" "NODEDSZ ?b p = Some (c_dsz c)"
    using ge c(1) sub [of 0 2] sub [of 2 2] sub [of 4 2] sub [of 6 2]
    by (simp_all add: mn_ksize_def mn_flags_def NODEDSZ_def c_ksize_def c_flags_def c_dsz_def)
  then show ?thesis
    using c(3) by (simp add: node_size_at_def raw_sz_def c_big_def)
qed

text \<open>
  The loop over the offsets: after \<open>left\<close> more rounds from \<open>i = numkeys - left\<close>, with the first
  \<open>j\<close> cells already rewritten.
\<close>

definition relocate :: "nat \<Rightarrow> nat \<Rightarrow> nat \<Rightarrow> nat" where
  "relocate p sz v = (if v < p then v + sz else v)"

lemma block_SET_PTR:
  assumes "2 * n \<le> length b" "j < n" "i < n"
  shows "block (blit b (2 * j) (enc_le 2 v)) (2 * i) 2 = (if i = j then enc_le 2 v else block b (2 * i) 2)"
proof (cases "i = j")
  case True
  then show ?thesis using assms by (simp add: block_blit_same)
next
  case False
  then have "2 * i + 2 \<le> 2 * j \<or> 2 * j + 2 \<le> 2 * i" by linarith
  then show ?thesis using assms False by (simp add: block_blit_disjoint)
qed

lemma ptr_SET_PTR:
  "2 * n \<le> length b \<Longrightarrow> j < n \<Longrightarrow> i < n \<Longrightarrow> v < 2 ^ 16 \<Longrightarrow>
   ptr (blit b (2 * j) (enc_le 2 v)) i = (if i = j then v else ptr b i)"
  by (simp add: ptr_def block_SET_PTR dec_enc_le)

lemma ptrs_close_eq:
  assumes "2 * n \<le> length b" "left \<le> n" "indx < n"
    "j = (if indx < n - left then n - left - 1 else n - left)"
    "\<forall>i. n - left \<le> i \<and> i < n \<longrightarrow> relocate p sz (ptr b i) < 2 ^ 16"
  shows "\<exists>b'. ptrs_close b n indx p sz j left = Some b' \<and> length b' = length b \<and>
     (\<forall>i<j. ptr b' i = ptr b i) \<and>
     (\<forall>i. j \<le> i \<and> i < n - 1 \<longrightarrow> ptr b' i = relocate p sz (ptr b (if i < indx then i else i + 1))) \<and>
     (\<forall>q m. 2 * n \<le> q \<and> q + m \<le> length b \<longrightarrow> block b' q m = block b q m)"
  using assms
proof (induction left arbitrary: b j)
  case 0
  then show ?case by auto
next
  case (Suc left)
  let ?i = "n - Suc left"
  have i: "?i < n" "n - left = Suc ?i" using Suc.prems(2) by auto
  show ?case
  proof (cases "?i = indx")
    case True
    have j: "j = ?i" using Suc.prems(4) True by simp
    have "\<exists>b'. ptrs_close b n indx p sz j left = Some b' \<and> length b' = length b \<and>
     (\<forall>i<j. ptr b' i = ptr b i) \<and>
     (\<forall>i. j \<le> i \<and> i < n - 1 \<longrightarrow> ptr b' i = relocate p sz (ptr b (if i < indx then i else i + 1))) \<and>
     (\<forall>q m. 2 * n \<le> q \<and> q + m \<le> length b \<longrightarrow> block b' q m = block b q m)"
      by (rule Suc.IH) (use Suc.prems i True j in auto)
    then show ?thesis using True by (simp add: Let_def)
  next
    case False
    let ?v = "relocate p sz (ptr b ?i)"
    let ?b = "blit b (2 * j) (enc_le 2 ?v)"
    have vb: "?v < 2 ^ 16" using Suc.prems(5) i by simp
    have jl: "j \<le> ?i" "j < n" using Suc.prems(4) i(1) by (auto split: if_splits)
    have len: "length ?b = length b" using Suc.prems(1) jl by simp
    have step: "ptrs_close b n indx p sz j (Suc left) = ptrs_close ?b n indx p sz (j + 1) left"
      using False Suc.prems(1) i jl
      by (simp add: Let_def MP_PTR_def SET_PTR_def relocate_def ptr_def)
    have pv: "ptr ?b i = (if i = j then ?v else ptr b i)" if "i < n" for i
      using ptr_SET_PTR [OF Suc.prems(1) jl(2) that vb] .
    have "\<exists>b'. ptrs_close ?b n indx p sz (j + 1) left = Some b' \<and> length b' = length ?b \<and>
     (\<forall>i<j + 1. ptr b' i = ptr ?b i) \<and>
     (\<forall>i. j + 1 \<le> i \<and> i < n - 1 \<longrightarrow> ptr b' i = relocate p sz (ptr ?b (if i < indx then i else i + 1))) \<and>
     (\<forall>q m. 2 * n \<le> q \<and> q + m \<le> length ?b \<longrightarrow> block b' q m = block ?b q m)"
    proof (rule Suc.IH)
      show "2 * n \<le> length ?b" using len Suc.prems(1) by simp
      show "j + 1 = (if indx < n - left then n - left - 1 else n - left)"
        using Suc.prems(3,4) False i by (auto split: if_splits)
      show "\<forall>i. n - left \<le> i \<and> i < n \<longrightarrow> relocate p sz (ptr ?b i) < 2 ^ 16"
        using Suc.prems(5) pv i jl by auto
    qed (use Suc.prems in auto)
    then obtain b' where b': "ptrs_close ?b n indx p sz (j + 1) left = Some b'" "length b' = length ?b"
      "\<forall>i<j + 1. ptr b' i = ptr ?b i"
      "\<forall>i. j + 1 \<le> i \<and> i < n - 1 \<longrightarrow> ptr b' i = relocate p sz (ptr ?b (if i < indx then i else i + 1))"
      "\<forall>q m. 2 * n \<le> q \<and> q + m \<le> length ?b \<longrightarrow> block b' q m = block ?b q m"
      by blast
    have src: "?i = (if j < indx then j else j + 1)" using Suc.prems(4) False i by (auto split: if_splits)
    have "ptr b' i = relocate p sz (ptr b (if i < indx then i else i + 1))" if "j \<le> i" "i < n - 1" for i
    proof (cases "i = j")
      case True
      then show ?thesis using b'(3) pv [of j] jl src by simp
    next
      case False
      then have "ptr b' i = relocate p sz (ptr ?b (if i < indx then i else i + 1))" using b'(4) that by simp
      then show ?thesis using pv [of i] pv [of "i + 1"] that False by (simp split: if_splits)
    qed
    moreover have "ptr b' i = ptr b i" if "i < j" for i using b'(3) pv [of i] that jl by simp
    moreover have "block b' q m = block b q m" if "2 * n \<le> q \<and> q + m \<le> length b" for q m
      using b'(5) that len jl by (simp add: block_blit_disjoint)
    ultimately show ?thesis using step b'(1,2) len by auto
  qed
qed

lemma sorted_wrt_sym_middle:
  assumes "sorted_wrt R (A @ x # B)" "\<And>x y. R x y \<Longrightarrow> R y x"
  shows "\<forall>y\<in>set (A @ B). R y x" "sorted_wrt R (A @ B)"
  using assms by (auto simp: sorted_wrt_append)

lemma apart_sym: "apart x y \<Longrightarrow> apart y x"
  by (auto simp: apart_def)

text \<open>Moving the bytes between the upper bound and the deleted node over the gap.\<close>

lemma lay_delete:
  assumes l: "lay leaf b u (A @ (p, c) # B)" and c: "0 < length c" and b': "b' = blit b (u + length c) (block b u (p - u))"
  shows "lay leaf b' (u + length c) (map (\<lambda>(q, d). (relocate p (length c) q, d)) (A @ B))"
proof -
  let ?f = "\<lambda>(q, d). (relocate p (length c) q, d)"
  have pc: "u \<le> p" "p + length c \<le> length b" using l by (auto simp: lay_def placed_def)
  have bl: "length b' = length b" using pc b' by simp
  have ap: "\<forall>y\<in>set (A @ B). apart y (p, c)" "sorted_wrt apart (A @ B)"
    using sorted_wrt_sym_middle [of apart A "(p, c)" B] l apart_sym by (auto simp: lay_def)
  have pl: "placed leaf b u x" if "x \<in> set (A @ B)" for x using l that by (auto simp: lay_def)
  have side: "if q < p then q + length d \<le> p else p + length c \<le> q"
    if "(q, d) \<in> set (A @ B)" for q d
  proof -
    have "apart (q, d) (p, c)" using ap(1) that by blast
    then have "q + length d \<le> p \<or> p + length c \<le> q" by (simp add: apart_def)
    moreover have "8 \<le> length d" using pl [OF that] by (simp add: placed_def raw_sz_def NODESIZE_def)
    ultimately have "q < p \<longrightarrow> q + length d \<le> p" "\<not> q < p \<longrightarrow> p + length c \<le> q" using c by linarith+
    then show ?thesis by simp
  qed
  have "placed leaf b' (u + length c) (?f (q, d))" if m: "(q, d) \<in> set (A @ B)" for q d
  proof -
    have q: "u \<le> q" "q + length d \<le> length b" "block b q (length d) = d" "length d = raw_sz leaf d"
      using pl [OF m] by (auto simp: placed_def)
    show ?thesis
    proof (cases "q < p")
      case True
      then have s: "q + length d \<le> p" using side [OF m] by simp
      have "block b' (q + length c) (length d) = block (block b u (p - u)) (q + length c - (u + length c)) (length d)"
        unfolding b' using pc q s by (intro block_blit_inside) auto
      also have "\<dots> = block b (u + (q - u)) (length d)"
        using block_block [of "q - u" "length d" "p - u" u b] pc q s by simp
      finally have "block b' (q + length c) (length d) = d" using q by simp
      then show ?thesis using True q s pc bl by (simp add: placed_def relocate_def)
    next
      case False
      then have s: "p + length c \<le> q" using side [OF m] by simp
      have "block b' q (length d) = block b q (length d)"
        unfolding b' using pc q s by (intro block_blit_disjoint) auto
      then show ?thesis using False q s pc bl by (simp add: placed_def relocate_def)
    qed
  qed
  moreover have "apart (?f x) (?f y)" if "x \<in> set (A @ B)" "y \<in> set (A @ B)" "apart x y" for x y
  proof -
    obtain q d r g where xy: "x = (q, d)" "y = (r, g)" by (cases x, cases y)
    show ?thesis
      using side [of q d] side [of r g] that xy by (auto simp: apart_def relocate_def split: if_splits)
  qed
  then have "sorted_wrt apart (map ?f (A @ B))"
    unfolding sorted_wrt_map by (rule sorted_wrt_mono_rel [rotated, OF ap(2)])
  ultimately show ?thesis unfolding lay_def by auto
qed

text \<open>
  Property C5.
  Deleting a node keeps every other node byte for byte and in order, closes the gap it leaves,
  and gives exactly the node's bytes and its pointer back to the free space of the page.
\<close>

theorem mdb_node_del_correct:
  assumes rep: "page_rep mp cs" and l2: "\<not> IS_LEAF2 mp" and indx: "indx < length cs"
  shows "\<exists>mp'. mdb_node_del mp indx ksize = Some mp' \<and> page_rep mp' (take indx cs @ drop (Suc indx) cs) \<and>
           SIZELEFT mp' = SIZELEFT mp + length (cs ! indx) + 2"
proof -
  let ?n = "length cs" and ?B = "mp_body mp" and ?u = "mp_upper mp"
  let ?ps = "ptrs ?B ?n" and ?c = "cs ! indx" and ?p = "ptr ?B indx"
  note R = rep [unfolded page_rep_def]
  let ?sz = "length ?c"
  define A where "A = take indx (zip ?ps cs)"
  define D where "D = drop (Suc indx) (zip ?ps cs)"
  have z: "zip ?ps cs = A @ (?p, ?c) # D"
    using indx id_take_nth_drop [of indx "zip ?ps cs"] by (simp add: A_def D_def)
  have L: "lay (IS_LEAF mp) ?B ?u (A @ (?p, ?c) # D)" using R z by simp
  have pl: "placed (IS_LEAF mp) ?B ?u (?p, ?c)" using L by (simp add: lay_def)
  have b: "?u \<le> ?p" "?p + ?sz \<le> length ?B" "8 \<le> ?sz"
    using pl by (auto simp: placed_def raw_sz_def NODESIZE_def)
  have rl: "relocate ?p ?sz (ptr ?B i) < 2 ^ 16" if "i < ?n" for i
    using b ptr_less [of i ?B] that R by (auto simp: relocate_def)
  obtain b1 where b1: "ptrs_close ?B ?n indx ?p ?sz 0 ?n = Some b1" "length b1 = length ?B"
    "\<forall>i. 0 \<le> i \<and> i < ?n - 1 \<longrightarrow> ptr b1 i = relocate ?p ?sz (ptr ?B (if i < indx then i else i + 1))"
    "\<forall>q m. 2 * ?n \<le> q \<and> q + m \<le> length ?B \<longrightarrow> block b1 q m = block ?B q m"
    using ptrs_close_eq [of ?n ?B ?n indx 0 ?p ?sz] R indx rl by auto
  have L1: "lay (IS_LEAF mp) b1 ?u (A @ (?p, ?c) # D)"
    by (rule lay_frame [OF L b1(2) order_refl]) (use b1(4) R in auto)
  let ?b2 = "blit b1 (?u + ?sz) (block b1 ?u (?p - ?u))"
  have mm: "memmove b1 (?u + ?sz) ?u (?p - ?u) = Some ?b2"
    using b b1(2) by (simp add: memmove_def memcpy_blit)
  have len2: "length ?b2 = length ?B" using b b1(2) by simp
  have L2: "lay (IS_LEAF mp) ?b2 (?u + ?sz) (map (\<lambda>(q, d). (relocate ?p ?sz q, d)) (A @ D))"
    by (rule lay_delete [OF L1 _ refl]) (use b in auto)
  have P2: "ptrs ?b2 (?n - 1) = map (relocate ?p ?sz) (take indx ?ps @ drop (Suc indx) ?ps)"
  proof (rule nth_equalityI)
    show "length (ptrs ?b2 (?n - 1)) = length (map (relocate ?p ?sz) (take indx ?ps @ drop (Suc indx) ?ps))"
      using indx by simp
    fix i assume "i < length (ptrs ?b2 (?n - 1))"
    then have i: "i < ?n - 1" by simp
    have "ptr ?b2 i = ptr b1 i"
      proof -
      have "block ?b2 (2 * i) 2 = block b1 (2 * i) 2"
        using i b b1(2) R by (intro block_blit_disjoint) auto
      then show ?thesis by (simp only: ptr_def [of ?b2] ptr_def [of b1])
    qed
    then show "ptrs ?b2 (?n - 1) ! i = map (relocate ?p ?sz) (take indx ?ps @ drop (Suc indx) ?ps) ! i"
      using i b1(3) indx by (auto simp: nth_append min_def)
  qed
  have zip: "zip (ptrs ?b2 (?n - 1)) (take indx cs @ drop (Suc indx) cs) =
      map (\<lambda>(q, d). (relocate ?p ?sz q, d)) (A @ D)"
  proof -
    have "zip (take indx ?ps @ drop (Suc indx) ?ps) (take indx cs @ drop (Suc indx) cs) = A @ D"
      by (simp add: zip_append A_def D_def take_zip drop_zip)
    then show ?thesis unfolding P2 zip_map1 by simp
  qed
  let ?mp = "mp\<lparr>mp_body := ?b2, mp_lower := mp_lower mp - 2, mp_upper := ?u + ?sz\<rparr>"
  have lw: "nat ((int (mp_lower mp) - 2) mod 65536) = mp_lower mp - 2"
    using R indx by (subst mod_pos_pos_trivial) auto
  have run: "mdb_node_del mp indx ksize = Some ?mp"
    using indx l2 b b1(1) mm lw R NUMKEYS_rep [OF rep] node_size_at_chunk [OF pl]
    by (simp add: mdb_node_del_def Let_def MP_PTR_def u16_id flip: ptr_def)
  have lens: "length (take indx cs @ drop (Suc indx) cs) = ?n - 1" using indx by simp
  have "page_rep ?mp (take indx cs @ drop (Suc indx) cs)"
    unfolding page_rep_def lens using R b len2 indx zip L2 by auto
  moreover from SIZELEFT_rep [OF this] have "SIZELEFT ?mp = SIZELEFT mp + ?sz + 2"
    using SIZELEFT_rep [OF rep] R indx by auto
  ultimately show ?thesis using run by blast
qed

section \<open>Callers that checked the size never see a full page\<close>

lemma mdb_leaf_size_eq:
  assumes "length k < 2 ^ 16" "length d < 2 ^ 32"
  shows "mdb_leaf_size e k d =
     (if me_nodemax e < LEAFSIZE k d then EVEN (8 + EVEN (length k) + (EVEN (length d) - length d) + 24 + 2)
      else LEAFSIZE k d + 2)"
proof -
  have b: "length d \<le> EVEN (length d)" "EVEN (length d) \<le> length d + 1" "EVEN (length k) \<le> length k + 1"
    using EVEN_ge by auto
  have "u64 (LEAFSIZE k d + 2 ^ 64 - u64 (length d + 2 ^ 64 - 24)) = 8 + EVEN (length k) + (EVEN (length d) - length d) + 24"
  proof (cases "length d < 24")
    case True
    then have "u64 (length d + 2 ^ 64 - 24) = length d + 2 ^ 64 - 24" by (simp add: u64_id)
    then show ?thesis using True b assms by (simp add: LEAFSIZE_def NODESIZE_def u64_id)
  next
    case False
    then have "length d + 2 ^ 64 - 24 = (length d - 24) + 2 ^ 64" by simp
    then have "u64 (length d + 2 ^ 64 - 24) = length d - 24" using assms by (simp only: u64_def mod_add_self2) simp
    moreover have "LEAFSIZE k d + 2 ^ 64 - (length d - 24) =
        (8 + EVEN (length k) + (EVEN (length d) - length d) + 24) + 2 ^ 64"
      using False b by (simp add: LEAFSIZE_def NODESIZE_def)
    ultimately show ?thesis using b assms by (simp only: u64_def mod_add_self2) simp
  qed
  moreover have "EVEN (LEAFSIZE k d + 2) = LEAFSIZE k d + 2"
    by (rule EVEN_even) (simp add: LEAFSIZE_def NODESIZE_def EVEN_def)
  ultimately show ?thesis by (simp add: mdb_leaf_size_def Let_def SIZEOF_OVPAGE_def)
qed

text \<open>
  A caller that compared \<^verbatim>\<open>mdb_leaf_size\<close> with the free space of the page first never gets
  \<^verbatim>\<open>MDB_PAGE_FULL\<close>, whether the data goes into the page or onto an overflow page. (The largest node
  size is even, as \<^verbatim>\<open>mdb_env_open2\<close> computes it.)
\<close>

lemma mdb_leaf_size_sufficient:
  assumes rep: "page_rep mp cs" and leaf: "IS_LEAF mp" "\<not> IS_LEAF2 mp" and indx: "indx \<le> length cs"
    and k: "length k < 2 ^ 16" and d: "length d < 2 ^ 32"
    and flags: "\<not> F_ISSET flags F_BIGDATA" "\<not> F_ISSET flags MDB_RESERVE"
    and nodemax: "even (me_nodemax e)" and room: "mdb_leaf_size e k d \<le> SIZELEFT mp"
    and fresh: "\<And>ofp. page_new (OVPAGES e (length d)) = Inr ofp \<Longrightarrow> length d \<le> length (mp_body ofp)"
  shows "\<exists>r. mdb_node_add e t pad page_new mp indx (Some k) (Some d) pgno flags = Some r \<and> \<not> na_txn_error r \<and>
     (na_rc r = 0 \<or> page_new (OVPAGES e (length d)) = Inl (na_rc r))"
proof -
  let ?ns = "8 + EVEN (length k)"
  have ev: "even ?ns" by (simp add: EVEN_def)
  have lb: "even (EVEN (length d))" "length d \<le> EVEN (length d)" "EVEN (length d) \<le> length d + 1"
    using EVEN_ge by (auto simp: EVEN_def)
  have eq: "(me_nodemax e < ?ns + length d) = (me_nodemax e < LEAFSIZE k d)"
    using nodemax ev lb unfolding LEAFSIZE_def NODESIZE_def by presburger
  have e1: "EVEN (?ns + 24) = ?ns + 24" by (rule EVEN_even) (use ev in simp)
  show ?thesis
  proof (cases "me_nodemax e < LEAFSIZE k d")
    case True
    have "?ns + 24 + 2 \<le> EVEN (?ns + (EVEN (length d) - length d) + 24 + 2)"
      using EVEN_ge(1) [of "?ns + (EVEN (length d) - length d) + 24 + 2"] by linarith
    then have rm: "?ns + SIZEOF_OVPAGE + 2 \<le> SIZELEFT mp"
      using True room unfolding mdb_leaf_size_eq [OF k d] by (simp add: SIZEOF_OVPAGE_def)
    have unf: "mdb_node_add e t pad page_new mp indx (Some k) (Some d) pgno flags =
      (case page_new (OVPAGES e (length d)) of
         Inl rc \<Rightarrow> Some \<lparr>na_rc = rc, na_page = mp, na_ofp = None, na_place = NoPlace, na_txn_error = False\<rparr>
       | Inr ofp \<Rightarrow> node_update t mp indx (?ns + SIZEOF_OVPAGE) (Some k) (Some d) pgno (flags OR F_BIGDATA) (Some ofp))"
      using page_rep_lower_upper [OF rep] leaf flags(1) True eq rm e1
      by (auto simp: mdb_node_add_def Let_def NODESIZE_def SIZEOF_OVPAGE_def split: sum.split)
    show ?thesis
    proof (cases "page_new (OVPAGES e (length d))")
      case (Inl rc)
      then show ?thesis using unf by simp
    next
      case (Inr ofp)
      then show ?thesis
        using node_update_overflow_ok [OF rep leaf(1) indx k d flags(2) refl rm fresh [OF Inr], of t pgno] unf by auto
    qed
  next
    case False
    then have rm: "?ns + EVEN (length d) + 2 \<le> SIZELEFT mp"
      using room unfolding mdb_leaf_size_eq [OF k d] by (simp add: LEAFSIZE_def NODESIZE_def)
    have "mdb_node_add e t pad page_new mp indx (Some k) (Some d) pgno flags =
        node_fit t mp indx (?ns + EVEN (length d)) (Some k) (Some d) pgno flags None"
      using page_rep_lower_upper [OF rep] leaf flags(1) False eq by (simp add: mdb_node_add_def Let_def NODESIZE_def)
    then show ?thesis using node_fit_leaf_ok [OF rep leaf(1) indx k d flags refl rm, of t pgno] by auto
  qed
qed

section \<open>Examples\<close>

text \<open>An empty leaf page with a 32-byte body, and one that holds the node of key \<open>[1, 2]\<close> and data \<open>[3]\<close>.\<close>

definition empty_leaf :: page where
  "empty_leaf = \<lparr>mp_pgno = 7, mp_txnid = 1, mp_flags = 2, mp_lower = 0, mp_upper = 32, mp_pages = 0, mp_body = replicate 32 0\<rparr>"

definition one_leaf :: page where
  "one_leaf = \<lparr>mp_pgno = 7, mp_txnid = 1, mp_flags = 2, mp_lower = 2, mp_upper = 20, mp_pages = 0,
     mp_body = [20, 0] @ replicate 18 0 @ [1, 0, 0, 0, 0, 0, 2, 0, 1, 2, 3, 0]\<rparr>"

definition one_node :: bytes where
  "one_node = [1, 0, 0, 0, 0, 0, 2, 0, 1, 2, 3, 0]"

lemma empty_leaf_rep: "page_rep empty_leaf []" "IS_LEAF empty_leaf" "\<not> IS_LEAF2 empty_leaf"
  by (simp_all add: empty_leaf_def page_rep_def lay_def IS_LEAF_def IS_LEAF2_def F_ISSET_def P_LEAF_def P_LEAF2_def)

lemma one_leaf_flags: "IS_LEAF one_leaf" "\<not> IS_LEAF2 one_leaf"
  by (simp_all add: one_leaf_def IS_LEAF_def IS_LEAF2_def F_ISSET_def P_LEAF_def P_LEAF2_def)

lemma one_node_fields: "c_key one_node = [1, 2]" "raw_sz True one_node = 12" "length one_node = 12" "c_data one_node = [3]"
  by (simp_all add: one_node_def c_key_def c_ksize_def block_def NODESIZE_def raw_sz_def c_big_def c_flags_def
      F_ISSET_def F_BIGDATA_def c_dsz_def EVEN_def c_data_def c_dlen_def)

lemma one_leaf_rep: "page_rep one_leaf [one_node]"
proof -
  have "ptrs (mp_body one_leaf) (length [one_node]) = [20]"
    by (simp add: ptrs_def ptr_def one_leaf_def block_def)
  moreover have "placed True (mp_body one_leaf) 20 (20, one_node)"
    unfolding placed_def using one_node_fields by (simp add: one_leaf_def one_node_def block_def)
  ultimately show ?thesis
    using one_leaf_flags by (simp add: page_rep_def lay_def) (simp add: one_leaf_def)
qed

lemma empty_leaf_left: "SIZELEFT empty_leaf = 32"
  by (simp add: SIZELEFT_def empty_leaf_def)

lemma no_flags: "\<not> F_ISSET (0 :: 32 word) F_BIGDATA" "\<not> F_ISSET (0 :: 32 word) MDB_RESERVE"
  by (simp_all add: F_ISSET_def F_BIGDATA_def MDB_RESERVE_def)

definition small_env :: env where
  "small_env = \<lparr>me_psize = 56, me_sumsize = 0, me_esumsize = 0, me_nodemax = 14\<rparr>"

theorem mdb_node_add_leaf_witness:
  "\<exists>r c. mdb_node_add small_env 1 0 (\<lambda>_. Inl 12) empty_leaf 0 (Some [1, 2]) (Some [3]) 0 0 = Some r \<and>
     page_rep (na_page r) [c] \<and> c_key c = [1, 2] \<and> c_data c = [3]"
  using mdb_node_add_leaf [OF empty_leaf_rep _ _ _ no_flags, of 0 "[1, 2]" "[3]" small_env 1 0 "\<lambda>_. Inl 12" 0]
  by (auto simp: empty_leaf_left LEAFSIZE_def NODESIZE_def EVEN_def small_env_def)

theorem mdb_node_del_correct_witness:
  "\<exists>mp'. mdb_node_del one_leaf 0 0 = Some mp' \<and> page_rep mp' [] \<and> SIZELEFT mp' = 32"
proof -
  have "SIZELEFT one_leaf = 18" by (simp add: SIZELEFT_def one_leaf_def)
  then show ?thesis
    using mdb_node_del_correct [OF one_leaf_rep one_leaf_flags(2), of 0 0] one_node_fields(3) by auto
qed

end
