(* ===== verification/Lmdb_Compare.thy ===== *)
theory Lmdb_Compare
  imports Byte_Mem
begin

text \<open>
  The key comparison functions of \<^verbatim>\<open>src/core/lmdb/mdb.c\<close>. A key is its bytes; a comparison returns an
  integer whose sign is the order. \<open>None\<close> is a read outside a key. The contract a comparison has
  to meet is the locale \<open>key_order\<close>: on the keys it is used for, a strict total order in which
  only equal keys compare equal.
\<close>

section \<open>Model\<close>

text \<open>\<^verbatim>\<open>memcmp\<close>: the difference of the first differing bytes; only its sign is specified and used.\<close>

fun memcmp :: "bytes \<Rightarrow> bytes \<Rightarrow> nat \<Rightarrow> int option" where
  "memcmp a b 0 = Some 0"
| "memcmp (x # a) (y # b) (Suc n) = (if x = y then memcmp a b n else Some (int (unat x) - int (unat y)))"
| "memcmp _ _ (Suc n) = None"

definition mdb_cmp_memn :: "bytes \<Rightarrow> bytes \<Rightarrow> int option" where
  "mdb_cmp_memn a b =
     (let len_diff = int (length a) - int (length b);
          len = u32 (if 0 < len_diff then length b else length a);
          len_diff = (if 0 < len_diff then 1 else len_diff)
      in do {
        diff \<leftarrow> memcmp a b len;
        Some (if diff \<noteq> 0 then diff else if len_diff < 0 then -1 else len_diff)
      })"

text \<open>The loop \<^verbatim>\<open>while (p1 > p1_lim)\<close> with the distances \<open>i\<close>, \<open>j\<close> of \<^verbatim>\<open>p1\<close>, \<^verbatim>\<open>p2\<close> from the starts.\<close>

fun memnr_loop :: "bytes \<Rightarrow> bytes \<Rightarrow> nat \<Rightarrow> nat \<Rightarrow> nat \<Rightarrow> int option" where
  "memnr_loop a b lim 0 j = Some 0"
| "memnr_loop a b lim (Suc i) j =
     (if lim < Suc i
      then case j of
             0 \<Rightarrow> None
           | Suc j \<Rightarrow> do {
               x \<leftarrow> rd a i;
               y \<leftarrow> rd b j;
               if x \<noteq> y then Some (int (unat x) - int (unat y)) else memnr_loop a b lim i j
             }
      else Some 0)"

definition mdb_cmp_memnr :: "bytes \<Rightarrow> bytes \<Rightarrow> int option" where
  "mdb_cmp_memnr a b =
     (let len_diff = int (length a) - int (length b);
          lim = (if 0 < len_diff then nat len_diff else 0);
          len_diff = (if 0 < len_diff then 1 else len_diff)
      in do {
        diff \<leftarrow> memnr_loop a b lim (length a) (length b);
        Some (if diff \<noteq> 0 then diff else if len_diff < 0 then -1 else len_diff)
      })"

definition cmp3 :: "nat \<Rightarrow> nat \<Rightarrow> int" where
  "cmp3 x y = (if x < y then -1 else if y < x then 1 else 0)"

definition mdb_cmp_long :: "bytes \<Rightarrow> bytes \<Rightarrow> int option" where
  "mdb_cmp_long a b = do { x \<leftarrow> ld a 0 8; y \<leftarrow> ld b 0 8; Some (cmp3 x y) }"

definition mdb_cmp_int :: "bytes \<Rightarrow> bytes \<Rightarrow> int option" where
  "mdb_cmp_int a b = do { x \<leftarrow> ld a 0 4; y \<leftarrow> ld b 0 4; Some (cmp3 x y) }"

text \<open>
  The \<^verbatim>\<open>do ... while (!x && u > a->mv_data)\<close> loop of \<^verbatim>\<open>mdb_cmp_cint\<close> on a little-endian host:
  16-bit units from the end, \<open>n\<close> bytes left.
\<close>

function cint_loop :: "bytes \<Rightarrow> bytes \<Rightarrow> nat \<Rightarrow> int option" where
  "cint_loop a b n =
     (if n < 2 then None
      else do {
        u \<leftarrow> ld a (n - 2) 2;
        c \<leftarrow> ld b (n - 2) 2;
        let x = int u - int c;
        if x = 0 \<and> 0 < n - 2 then cint_loop a b (n - 2) else Some x
      })"
  by pat_completeness auto
termination by (relation "measure (\<lambda>(a, b, n). n)") auto

declare cint_loop.simps [simp del]

definition mdb_cmp_cint :: "bytes \<Rightarrow> bytes \<Rightarrow> int option" where
  "mdb_cmp_cint a b = cint_loop a b (length a)"

section \<open>The contract\<close>

locale key_order =
  fixes cmp :: "bytes \<Rightarrow> bytes \<Rightarrow> int option"
    and key :: "bytes \<Rightarrow> bool"
  assumes cmp_defined: "key a \<Longrightarrow> key b \<Longrightarrow> cmp a b \<noteq> None"
    and cmp_eq: "key a \<Longrightarrow> key b \<Longrightarrow> cmp a b = Some x \<Longrightarrow> (x = 0) = (a = b)"
    and cmp_flip: "key a \<Longrightarrow> key b \<Longrightarrow> cmp a b = Some x \<Longrightarrow> cmp b a = Some y \<Longrightarrow> (x < 0) = (0 < y)"
    and cmp_trans: "key a \<Longrightarrow> key b \<Longrightarrow> key c \<Longrightarrow> cmp a b = Some x \<Longrightarrow> cmp b c = Some y \<Longrightarrow> x < 0 \<Longrightarrow> y < 0 \<Longrightarrow>
        \<exists>z. cmp a c = Some z \<and> z < 0"
begin

definition less_key :: "bytes \<Rightarrow> bytes \<Rightarrow> bool" where
  "less_key a b \<longleftrightarrow> (\<exists>x. cmp a b = Some x \<and> x < 0)"

lemma less_key_trans: "key a \<Longrightarrow> key b \<Longrightarrow> key c \<Longrightarrow> less_key a b \<Longrightarrow> less_key b c \<Longrightarrow> less_key a c"
  unfolding less_key_def using cmp_trans by blast

lemma less_key_linear: "key a \<Longrightarrow> key b \<Longrightarrow> less_key a b \<or> a = b \<or> less_key b a"
  unfolding less_key_def using cmp_defined [of a b] cmp_defined [of b a] cmp_eq [of a b] cmp_flip [of a b] cmp_flip [of b a]
  by (metis linorder_neqE_linordered_idom not_None_eq)

lemma less_key_irrefl: "key a \<Longrightarrow> \<not> less_key a a"
  unfolding less_key_def using cmp_eq [of a a] by fastforce

lemma cmp_pos: "key a \<Longrightarrow> key b \<Longrightarrow> cmp a b = Some x \<Longrightarrow> (0 < x) = less_key b a"
  unfolding less_key_def using cmp_flip [of b a] cmp_defined [of b a] by force

lemma cmp_neg: "cmp a b = Some x \<Longrightarrow> (x < 0) = less_key a b"
  unfolding less_key_def by simp

end

section \<open>Lexical order\<close>

lemma memcmp_flip: "memcmp a b n = Some x \<Longrightarrow> memcmp b a n = Some (- x)"
  by (induction a b n arbitrary: x rule: memcmp.induct) (auto split: if_splits)

lemma memcmp_total: "n \<le> length a \<Longrightarrow> n \<le> length b \<Longrightarrow> \<exists>x. memcmp a b n = Some x"
  by (induction a b n rule: memcmp.induct) auto

text \<open>The order the function computes: the first differing byte decides, a proper prefix is smaller.\<close>

fun lex_less :: "bytes \<Rightarrow> bytes \<Rightarrow> bool" where
  "lex_less _ [] = False"
| "lex_less [] (y # b) = True"
| "lex_less (x # a) (y # b) = (x < y \<or> x = y \<and> lex_less a b)"

lemma lex_less_irrefl: "\<not> lex_less a a"
  by (induction a) auto

lemma lex_less_trans: "lex_less a b \<Longrightarrow> lex_less b c \<Longrightarrow> lex_less a c"
proof (induction a b arbitrary: c rule: lex_less.induct)
  case (2 y b)
  then show ?case by (cases c) auto
next
  case (3 x a y b)
  then show ?case by (cases c) auto
qed simp

lemma lex_less_linear: "lex_less a b \<or> a = b \<or> lex_less b a"
proof (induction a b rule: lex_less.induct)
  case (1 a)
  then show ?case by (cases a) auto
qed auto

lemma memcmp_lex:
  assumes "memcmp a b (min (length a) (length b)) = Some x"
  shows "lex_less a b = (x < 0 \<or> x = 0 \<and> length a < length b)"
  using assms
proof (induction a b arbitrary: x rule: lex_less.induct)
  case (3 u a v b)
  then show ?case by (auto simp: word_less_def word_uint_eq_iff split: if_splits)
qed auto

lemma mdb_cmp_memn_lex:
  assumes "length a < 2 ^ 32" "length b < 2 ^ 32"
  shows "\<exists>x. mdb_cmp_memn a b = Some x \<and> (x < 0) = lex_less a b \<and> (0 < x) = lex_less b a"
proof -
  let ?n = "min (length a) (length b)"
  obtain x where x: "memcmp a b ?n = Some x" using memcmp_total [of ?n a b] by auto
  have y: "memcmp b a (min (length b) (length a)) = Some (- x)" using memcmp_flip [OF x] by (simp add: min.commute)
  have len: "u32 (if 0 < int (length a) - int (length b) then length b else length a) = ?n"
    using assms by (auto simp: u32_id min_def)
  show ?thesis using x memcmp_lex [OF x] memcmp_lex [OF y] unfolding mdb_cmp_memn_def Let_def len by auto
qed

lemma key_orderI:
  assumes "\<And>a b. key a \<Longrightarrow> key b \<Longrightarrow> \<exists>x. cmp a b = Some x \<and> (x < 0) = R a b \<and> (0 < x) = R b a"
    and "\<And>a. key a \<Longrightarrow> \<not> R a a" and "\<And>a b c. R a b \<Longrightarrow> R b c \<Longrightarrow> R a c"
    and "\<And>a b. key a \<Longrightarrow> key b \<Longrightarrow> R a b \<or> a = b \<or> R b a"
  shows "key_order cmp key"
proof
  fix a b c x y
  assume k: "key a" "key b"
  show "cmp a b \<noteq> None" using assms(1) [OF k] by auto
  show "(x = 0) = (a = b)" if "cmp a b = Some x"
    using assms(1) [OF k] assms(2) [OF k(1)] assms(4) [OF k] that by force
  show "(x < 0) = (0 < y)" if "cmp a b = Some x" "cmp b a = Some y"
    using assms(1) [OF k] assms(1) [OF k(2,1)] that by auto
  show "\<exists>z. cmp a c = Some z \<and> z < 0" if "key c" "cmp a b = Some x" "cmp b c = Some y" "x < 0" "y < 0"
    using assms(1) [OF k] assms(1) [OF k(2) that(1)] assms(1) [OF k(1) that(1)] assms(3) [of a b c] that by auto
qed

interpretation memn: key_order mdb_cmp_memn "\<lambda>a. length a < 2 ^ 32"
  by (rule key_orderI [where R = lex_less])
    (use mdb_cmp_memn_lex lex_less_irrefl lex_less_trans lex_less_linear in auto)

section \<open>Reverse lexical order\<close>

lemma memnr_loop_rev:
  assumes "i \<le> length a" "j \<le> length b" "i - lim \<le> j"
  shows "memnr_loop a b lim i j = memcmp (rev (take i a)) (rev (take j b)) (i - lim)"
  using assms
proof (induction i arbitrary: j)
  case (Suc i)
  show ?case
  proof (cases "lim < Suc i")
    case True
    then obtain j' where j: "j = Suc j'" using Suc.prems(3) by (cases j) auto
    have r: "rev (take (Suc i) a) = a ! i # rev (take i a)" "rev (take j b) = b ! j' # rev (take j' b)"
      using Suc.prems j by (simp_all add: take_Suc_conv_app_nth)
    have s: "Suc i - lim = Suc (i - lim)" using True by simp
    have "memnr_loop a b lim i j' = memcmp (rev (take i a)) (rev (take j' b)) (i - lim)"
      using Suc.IH [of j'] Suc.prems j True by simp
    then show ?thesis using True Suc.prems j unfolding r s by (auto simp del: rev_take take_Suc)
  qed simp
qed simp

lemma mdb_cmp_memnr_lex:
  "\<exists>x. mdb_cmp_memnr a b = Some x \<and> (x < 0) = lex_less (rev a) (rev b) \<and> (0 < x) = lex_less (rev b) (rev a)"
proof -
  let ?n = "min (length (rev a)) (length (rev b))"
  obtain x where x: "memcmp (rev a) (rev b) ?n = Some x" using memcmp_total [of ?n "rev a" "rev b"] by auto
  have y: "memcmp (rev b) (rev a) (min (length (rev b)) (length (rev a))) = Some (- x)"
    using memcmp_flip [OF x] by (simp add: min.commute)
  let ?lim = "if 0 < int (length a) - int (length b) then nat (int (length a) - int (length b)) else 0"
  have lim: "length a - ?lim = ?n" by (auto simp: min_def nat_diff_distrib)
  have "memnr_loop a b ?lim (length a) (length b) = Some x"
    using memnr_loop_rev [of "length a" a "length b" b ?lim] x unfolding lim by simp
  then show ?thesis
    using memcmp_lex [OF x] memcmp_lex [OF y] unfolding mdb_cmp_memnr_def Let_def by auto
qed

interpretation memnr: key_order mdb_cmp_memnr "\<lambda>a. True"
proof (rule key_orderI [where R = "\<lambda>a b. lex_less (rev a) (rev b)"])
  show "lex_less (rev a) (rev b) \<or> a = b \<or> lex_less (rev b) (rev a)" for a b
    using lex_less_linear [of "rev a" "rev b"] by auto
qed (use mdb_cmp_memnr_lex lex_less_irrefl lex_less_trans in auto)

section \<open>Integer keys\<close>

lemma cmp3_sign [simp]: "(cmp3 x y < 0) = (x < y)" "(0 < cmp3 x y) = (y < x)" "(cmp3 x y = 0) = (x = y)"
  by (auto simp: cmp3_def)

lemma dec_le_inj: "length a = length b \<Longrightarrow> dec_le a = dec_le b \<Longrightarrow> a = b"
  by (metis enc_dec_le)

interpretation cmp_long: key_order mdb_cmp_long "\<lambda>a. length a = 8"
  by (rule key_orderI [where R = "\<lambda>a b. dec_le a < dec_le b"])
    (auto simp: mdb_cmp_long_def block_def intro: dec_le_inj)

interpretation cmp_int: key_order mdb_cmp_int "\<lambda>a. length a = 4"
  by (rule key_orderI [where R = "\<lambda>a b. dec_le a < dec_le b"])
    (auto simp: mdb_cmp_int_def block_def intro: dec_le_inj)

text \<open>Comparing 16-bit units from the most significant end is comparing the integers.\<close>

lemma dec_le_split: "n \<le> length a \<Longrightarrow> dec_le a = dec_le (take n a) + 256 ^ n * dec_le (drop n a)"
proof -
  assume n: "n \<le> length a"
  have app: "dec_le (xs @ ys) = dec_le xs + 256 ^ length xs * dec_le ys" for xs ys :: bytes
    by (induction xs) (simp_all add: algebra_simps)
  show ?thesis using app [of "take n a" "drop n a"] n by simp
qed

lemma digit_less:
  fixes l h l' h' B :: nat
  assumes "l < B" "l' < B"
  shows "(l + B * h < l' + B * h') = (h < h' \<or> h = h' \<and> l < l')"
proof -
  have *: "u + B * x < v + B * y" if "x < y" "u < B" for u v x y
  proof -
    have "B * x + B \<le> B * y" using that(1) mult_le_mono2 [of "x + 1" y B] by simp
    then show ?thesis using that(2) by linarith
  qed
  show ?thesis using * [of h h' l l'] * [of h' h l' l] assms by (cases h h' rule: linorder_cases) auto
qed

lemma cint_loop_sign:
  assumes "even n" "0 < n" "n \<le> length a" "n \<le> length b"
  shows "\<exists>x. cint_loop a b n = Some x \<and> (x < 0) = (dec_le (take n a) < dec_le (take n b)) \<and>
     (0 < x) = (dec_le (take n b) < dec_le (take n a))"
  using assms
proof (induction n rule: less_induct)
  case (less n)
  define m where "m = n - 2"
  have n: "n = m + 2" using less.prems(1,2) by (auto simp: m_def elim: evenE)
  let ?u = "dec_le (block a m 2)" and ?c = "dec_le (block b m 2)"
  have split: "dec_le (take n s) = dec_le (take m s) + 256 ^ m * dec_le (block s m 2)" if "n \<le> length s" for s
    using dec_le_split [of m "take n s"] that by (simp add: n block_def take_drop)
  have bound: "dec_le (take m s) < 256 ^ m" if "n \<le> length s" for s
    using dec_le_less [of "take m s"] that by (simp add: n min_def split: if_splits)
  have unf: "cint_loop a b n = (if ?u = ?c \<and> 0 < m then cint_loop a b m else Some (int ?u - int ?c))"
    using less.prems n by (subst cint_loop.simps) (simp add: Let_def)
  have cmp: "(dec_le (take n s) < dec_le (take n t)) =
      (dec_le (block s m 2) < dec_le (block t m 2) \<or>
       dec_le (block s m 2) = dec_le (block t m 2) \<and> dec_le (take m s) < dec_le (take m t))"
    if "n \<le> length s" "n \<le> length t" for s t
    unfolding split [OF that(1)] split [OF that(2)]
    by (rule digit_less) (use bound that in auto)
  define u c where "u = ?u" and "c = ?c"
  note C = cmp [OF less.prems(3,4), folded u_def c_def] cmp [OF less.prems(4,3), folded u_def c_def]
  note U = unf [folded u_def c_def]
  show ?case
  proof (cases "u = c \<and> 0 < m")
    case True
    have m: "m < n" "even m" "0 < m" "m \<le> length a" "m \<le> length b" using less.prems n True by auto
    show ?thesis using less.IH [OF m] True unfolding U C by simp
  next
    case False
    then have "u \<noteq> c \<or> m = 0" by auto
    then show ?thesis using False unfolding U C by auto
  qed
qed

text \<open>
  Integer keys of 4 or 8 bytes compare the same with the unaligned comparison \<^verbatim>\<open>mdb_cmp_cint\<close> and
  with the aligned \<^verbatim>\<open>mdb_cmp_int\<close> and \<^verbatim>\<open>mdb_cmp_long\<close> that the page search substitutes for it on
  branch pages, and both compare the little-endian integers.
\<close>

lemma mdb_cmp_cint_agrees:
  assumes "length a = n" "length b = n" "n = 4 \<or> n = 8"
  shows "\<exists>x y. mdb_cmp_cint a b = Some x \<and> (if n = 8 then mdb_cmp_long a b else mdb_cmp_int a b) = Some y \<and>
     sgn x = sgn y \<and> (x < 0) = (dec_le a < dec_le b) \<and> (x = 0) = (a = b)"
proof -
  have e: "even n" "0 < n" using assms(3) by auto
  obtain x where x: "mdb_cmp_cint a b = Some x" "(x < 0) = (dec_le a < dec_le b)" "(0 < x) = (dec_le b < dec_le a)"
    using cint_loop_sign [OF e, of a b] assms(1,2) by (auto simp: mdb_cmp_cint_def)
  obtain y where y: "(if n = 8 then mdb_cmp_long a b else mdb_cmp_int a b) = Some y" "y = cmp3 (dec_le a) (dec_le b)"
    using assms by (auto simp: mdb_cmp_long_def mdb_cmp_int_def block_def)
  have "sgn x = sgn y" using x(2,3) y(2) by (auto simp: sgn_if cmp3_def)
  moreover have "(x = 0) = (a = b)" using x(2,3) dec_le_inj [of a b] assms(1,2) by auto
  ultimately show ?thesis using x y by blast
qed

text \<open>
  The default comparison \<^verbatim>\<open>mdb_cmp_memn\<close> is a strict total order on keys: it always returns, returns
  0 exactly for equal keys, changes sign when its arguments are swapped and is transitive; it
  is the lexical order in which a proper prefix is smaller.
\<close>

lemma mdb_cmp_memn_order:
  assumes "length a < 2 ^ 32" "length b < 2 ^ 32" "length c < 2 ^ 32"
  shows "\<exists>x y z. mdb_cmp_memn a b = Some x \<and> mdb_cmp_memn b a = Some y \<and> mdb_cmp_memn b c = Some z \<and>
     (x = 0) = (a = b) \<and> (x < 0) = (0 < y) \<and> (x < 0) = lex_less a b \<and>
     (x < 0 \<and> z < 0 \<longrightarrow> (\<exists>w. mdb_cmp_memn a c = Some w \<and> w < 0))"
  using memn.cmp_defined [of a b] memn.cmp_defined [of b a] memn.cmp_defined [of b c] memn.cmp_eq [of a b]
    memn.cmp_flip [of a b] memn.cmp_trans [of a b c] mdb_cmp_memn_lex [of a b] assms
  by fastforce

end
