(* ===== verification/Lmdb_Search.thy ===== *)
theory Lmdb_Search
  imports Lmdb_Node Lmdb_Compare
begin

text \<open>
  \<^verbatim>\<open>mdb_node_search\<close> of \<^verbatim>\<open>src/core/lmdb/mdb.c\<close>: the binary search for a key within a page. The
  comparison is a value, because the function compares function pointers: on branch pages it
  replaces \<^verbatim>\<open>mdb_cmp_cint\<close> by the aligned comparison of the same width. The result is the cursor
  index, whether the match was exact, and whether there is such an entry (a non-\<^verbatim>\<open>NULL\<close> return).
\<close>

section \<open>Model\<close>

datatype cmp_func = Cmp_long | Cmp_int | Cmp_cint | Cmp_memn | Cmp_memnr

fun run_cmp :: "cmp_func \<Rightarrow> bytes \<Rightarrow> bytes \<Rightarrow> int option" where
  "run_cmp Cmp_long = mdb_cmp_long"
| "run_cmp Cmp_int = mdb_cmp_int"
| "run_cmp Cmp_cint = mdb_cmp_cint"
| "run_cmp Cmp_memn = mdb_cmp_memn"
| "run_cmp Cmp_memnr = mdb_cmp_memnr"

text \<open>\<^verbatim>\<open>while (low <= high)\<close>; the state is \<open>low\<close>, \<open>high\<close>, the last probed index and its comparison.\<close>

function ns_loop :: "(nat \<Rightarrow> int option) \<Rightarrow> int \<Rightarrow> int \<Rightarrow> int \<Rightarrow> int \<Rightarrow> (int \<times> int) option" where
  "ns_loop probe low high i rc =
     (if low \<le> high
      then (let i = (low + high) div 2 in
            case probe (nat i) of
              None \<Rightarrow> None
            | Some rc \<Rightarrow>
                if rc = 0 then Some (i, rc)
                else if 0 < rc then ns_loop probe (i + 1) high i rc
                else ns_loop probe low (i - 1) i rc)
      else Some (i, rc))"
  by pat_completeness auto
termination
  by (relation "measure (\<lambda>(probe, low, high, i, rc). nat (high - low + 1))") auto

declare ns_loop.simps [simp del]

definition leaf2_key :: "page \<Rightarrow> nat \<Rightarrow> nat \<Rightarrow> bytes option" where
  "leaf2_key mp pad i = (if i * pad + pad \<le> length (mp_body mp) then Some (block (mp_body mp) (i * pad) pad) else None)"

definition node_key :: "page \<Rightarrow> nat \<Rightarrow> bytes option" where
  "node_key mp i = do { p \<leftarrow> MP_PTR (mp_body mp) i; NODEKEY (mp_body mp) p }"

record search_result =
  sr_ki :: nat
  sr_exact :: bool
  sr_found :: bool

definition mdb_node_search :: "cmp_func \<Rightarrow> nat \<Rightarrow> page \<Rightarrow> bytes \<Rightarrow> search_result option" where
  "mdb_node_search md_cmp md_pad mp key =
     do {
       let nkeys = NUMKEYS mp;
       let low = (if IS_LEAF mp then 0 else 1);
       let high = int nkeys - 1;
       cmp \<leftarrow> (if md_cmp = Cmp_cint \<and> IS_BRANCH mp
              then do {
                p \<leftarrow> MP_PTR (mp_body mp) 1;
                k \<leftarrow> mn_ksize (mp_body mp) p;
                Some (if k = 8 then Cmp_long else Cmp_int)
              }
              else Some md_cmp);
       (i, rc) \<leftarrow> ns_loop
          (\<lambda>i. do { nk \<leftarrow> (if IS_LEAF2 mp then leaf2_key mp md_pad i else node_key mp i); run_cmp cmp key nk })
          low high 0 0;
       let i = (if 0 < rc then i + 1 else i);
       Some \<lparr>sr_ki = nat i, sr_exact = (rc = 0 \<and> 0 < nkeys), sr_found = (nat i < nkeys)\<rparr>
     }"

section \<open>The loop\<close>

context key_order
begin

text \<open>
  The keys at \<open>low0 .. n - 1\<close> are ascending. The loop stops at an equal key, or between the
  keys below and the keys above.
\<close>

definition split_at :: "bytes list \<Rightarrow> bytes \<Rightarrow> int \<Rightarrow> int \<Rightarrow> bool" where
  "split_at ks k low0 p \<longleftrightarrow>
     low0 \<le> p \<and> p \<le> int (length ks) \<and>
     (\<forall>i. low0 \<le> int i \<and> int i < p \<longrightarrow> less_key (ks ! i) k) \<and>
     (\<forall>i<length ks. p \<le> int i \<longrightarrow> less_key k (ks ! i))"

lemma ns_loop_result:
  assumes sorted: "\<And>i j. low0 \<le> int i \<Longrightarrow> i < j \<Longrightarrow> j < length ks \<Longrightarrow> less_key (ks ! i) (ks ! j)"
    and keys: "\<forall>x\<in>set ks. key x" and k: "key k" and low0: "0 \<le> low0"
    and b: "low0 \<le> low" "high < int (length ks)" "low \<le> high + 1"
    and lo: "\<forall>i. low0 \<le> int i \<and> int i < low \<longrightarrow> less_key (ks ! i) k"
    and hi: "\<forall>i<length ks. high < int i \<longrightarrow> less_key k (ks ! i)"
    and prev: "low \<le> high \<or> (0 < rc \<and> i + 1 = low) \<or> (rc < 0 \<and> i = low)"
    and probe: "\<And>j. low0 \<le> int j \<Longrightarrow> j < length ks \<Longrightarrow> probe j = cmp k (ks ! j)"
  shows "\<exists>j rc'. ns_loop probe low high i rc = Some (j, rc') \<and>
     (if rc' = 0 then low0 \<le> j \<and> j < int (length ks) \<and> ks ! nat j = k
      else split_at ks k low0 (if 0 < rc' then j + 1 else j))"
  using b lo hi prev
proof (induction "nat (high - low + 1)" arbitrary: low high i rc rule: less_induct)
  case less
  show ?case
  proof (cases "low \<le> high")
    case False
    then have e: "low = high + 1" using less.prems(3) by simp
    have sp: "split_at ks k low0 low"
      unfolding split_at_def
    proof (intro conjI)
      show "\<forall>i<length ks. low \<le> int i \<longrightarrow> less_key k (ks ! i)" using less.prems(5) e by simp
    qed (use less.prems e in auto)
    have r: "ns_loop probe low high i rc = Some (i, rc)" using False by (subst ns_loop.simps) simp
    have "rc \<noteq> 0 \<and> (if 0 < rc then i + 1 else i) = low" using less.prems(6) False by auto
    then show ?thesis using r sp by (intro exI [of _ i] exI [of _ rc]) simp
  next
    case True
    let ?m = "(low + high) div 2"
    have m: "low \<le> ?m" "?m \<le> high" "0 \<le> ?m" "?m < int (length ks)" using True less.prems(1,2) low0 by auto
    have mk: "nat ?m < length ks" "low0 \<le> int (nat ?m)" "int (nat ?m) = ?m" using m less.prems(1) by auto
    have km: "key (ks ! nat ?m)" using keys mk(1) by simp
    obtain x where x: "cmp k (ks ! nat ?m) = Some x" using cmp_defined [OF k km] by auto
    have pr: "probe (nat ?m) = Some x" using probe [OF mk(2,1)] x by simp
    have kk: "key (ks ! i)" if "i < length ks" for i using keys that by simp
    consider "x = 0" | "0 < x" | "x < 0" by linarith
    then show ?thesis
    proof cases
      case 1
      then have "k = ks ! nat ?m" using cmp_eq [OF k km x] by simp
      then show ?thesis using True pr 1 m mk less.prems(1) by (subst ns_loop.simps) (simp add: Let_def)
    next
      case 2
      have lt: "less_key (ks ! nat ?m) k" using cmp_pos [OF k km x] 2 by simp
      have rec: "ns_loop probe low high i rc = ns_loop probe (?m + 1) high ?m x"
        using True pr 2 by (subst ns_loop.simps) (simp add: Let_def)
      have lo': "\<forall>i. low0 \<le> int i \<and> int i < ?m + 1 \<longrightarrow> less_key (ks ! i) k"
      proof (intro allI impI)
        fix i assume i: "low0 \<le> int i \<and> int i < ?m + 1"
        show "less_key (ks ! i) k"
        proof (cases "i = nat ?m")
          case False
          then have "i < nat ?m" using i by linarith
          then show ?thesis
            using sorted [of i "nat ?m"] less_key_trans [OF kk km k _ lt] i mk(1) by simp
        qed (use lt in simp)
      qed
      have dec: "nat (high - (?m + 1) + 1) < nat (high - low + 1)" using m True by linarith
      have pv: "?m + 1 \<le> high \<or> 0 < x \<and> ?m + 1 = ?m + 1 \<or> x < 0 \<and> ?m = ?m + 1" using 2 by simp
      show ?thesis unfolding rec
        by (rule less.hyps [OF dec _ less.prems(2) _ lo' less.prems(5) pv]) (use m less.prems(1) in auto)
    next
      case 3
      have lt: "less_key k (ks ! nat ?m)" using cmp_neg [OF x] 3 by simp
      have rec: "ns_loop probe low high i rc = ns_loop probe low (?m - 1) ?m x"
        using True pr 3 by (subst ns_loop.simps) (simp add: Let_def)
      have hi': "\<forall>i<length ks. ?m - 1 < int i \<longrightarrow> less_key k (ks ! i)"
      proof (intro allI impI)
        fix i assume i: "i < length ks" "?m - 1 < int i"
        show "less_key k (ks ! i)"
        proof (cases "i = nat ?m")
          case False
          then have "nat ?m < i" using i m(3) by linarith
          then show ?thesis
            using sorted [OF mk(2) _ i(1)] less_key_trans [OF k km kk lt] i(1) by simp
        qed (use lt in simp)
      qed
      have dec: "nat ((?m - 1) - low + 1) < nat (high - low + 1)" using m True by linarith
      have pv: "low \<le> ?m - 1 \<or> 0 < x \<and> ?m + 1 = low \<or> x < 0 \<and> ?m = low" using 3 m by auto
      show ?thesis unfolding rec
        by (rule less.hyps [OF dec less.prems(1) _ _ less.prems(4) hi' pv]) (use m in auto)
    qed
  qed
qed

text \<open>What the search promises about a page with the given keys, of which those from \<open>low0\<close> are compared.\<close>

definition finds :: "nat \<Rightarrow> bytes list \<Rightarrow> bytes \<Rightarrow> search_result \<Rightarrow> bool" where
  "finds low0 ks k r \<longleftrightarrow>
     low0 \<le> sr_ki r \<and> sr_ki r \<le> length ks \<and> sr_found r = (sr_ki r < length ks) \<and>
     sr_exact r = (sr_ki r < length ks \<and> ks ! sr_ki r = k) \<and>
     (\<forall>i. low0 \<le> i \<and> i < sr_ki r \<longrightarrow> less_key (ks ! i) k) \<and>
     (\<forall>i. sr_ki r \<le> i \<and> i < length ks \<and> ks ! i \<noteq> k \<longrightarrow> less_key k (ks ! i))"

lemma search_finds:
  assumes sorted: "\<And>i j. low0 \<le> i \<Longrightarrow> i < j \<Longrightarrow> j < length ks \<Longrightarrow> less_key (ks ! i) (ks ! j)"
    and keys: "\<forall>x\<in>set ks. key x" and k: "key k" and ne: "low0 < length ks"
    and probe: "\<And>j. low0 \<le> j \<Longrightarrow> j < length ks \<Longrightarrow> probe j = cmp k (ks ! j)"
  shows "\<exists>i rc. ns_loop probe (int low0) (int (length ks) - 1) 0 0 = Some (i, rc) \<and>
     finds low0 ks k \<lparr>sr_ki = nat (if 0 < rc then i + 1 else i), sr_exact = (rc = 0 \<and> 0 < length ks),
                      sr_found = (nat (if 0 < rc then i + 1 else i) < length ks)\<rparr>"
proof -
  have "\<exists>i rc. ns_loop probe (int low0) (int (length ks) - 1) 0 0 = Some (i, rc) \<and>
    (if rc = 0 then int low0 \<le> i \<and> i < int (length ks) \<and> ks ! nat i = k
      else split_at ks k (int low0) (if 0 < rc then i + 1 else i))"
    by (rule ns_loop_result) (use sorted keys k ne probe in auto)
  then obtain i rc where r: "ns_loop probe (int low0) (int (length ks) - 1) 0 0 = Some (i, rc)"
    "if rc = 0 then int low0 \<le> i \<and> i < int (length ks) \<and> ks ! nat i = k
      else split_at ks k (int low0) (if 0 < rc then i + 1 else i)"
    by blast
  have kk: "key (ks ! i)" if "i < length ks" for i using keys that by simp
  show ?thesis
  proof (cases "rc = 0")
    case True
    define m where "m = nat i"
    have m: "low0 \<le> m" "m < length ks" "ks ! m = k" using r(2) True by (auto simp: m_def)
    have "less_key (ks ! j) k" if "low0 \<le> j" "j < m" for j using sorted [OF that m(2)] m(3) by simp
    moreover have "less_key k (ks ! j)" if "m \<le> j" "j < length ks" "ks ! j \<noteq> k" for j
      using sorted [of m j] m that by (cases "j = m") auto
    ultimately show ?thesis using r(1) True m ne by (auto simp: finds_def m_def [symmetric])
  next
    case False
    define p where "p = (if 0 < rc then i + 1 else i)"
    have sp: "split_at ks k (int low0) p" using r(2) False by (simp add: p_def)
    have p: "int (nat p) = p" "int low0 \<le> p" "p \<le> int (length ks)" using sp by (auto simp: split_at_def)
    have lo: "less_key (ks ! j) k" if "low0 \<le> j" "j < nat p" for j
      using sp that p(1) by (auto simp: split_at_def)
    have hi: "less_key k (ks ! j)" if "nat p \<le> j" "j < length ks" for j
      using sp that p(1) by (auto simp: split_at_def)
    have "ks ! nat p \<noteq> k" if "nat p < length ks" using hi [OF order_refl that] less_key_irrefl [OF k] by metis
    then show ?thesis using r(1) False lo hi p ne by (auto simp: finds_def simp flip: p_def)
  qed
qed

end

section \<open>Keys of a page\<close>

lemma node_key_rep:
  assumes "page_rep mp cs" "i < length cs"
  shows "node_key mp i = Some (c_key (cs ! i))" "mn_ksize (mp_body mp) (ptr (mp_body mp) i) = Some (c_ksize (cs ! i))"
    "MP_PTR (mp_body mp) i = Some (ptr (mp_body mp) i)"
proof -
  let ?b = "mp_body mp" and ?c = "cs ! i" and ?p = "ptr (mp_body mp) i"
  note R = assms(1) [unfolded page_rep_def]
  have "zip (ptrs ?b (length cs)) cs ! i = (?p, ?c)" using assms(2) by simp
  then have "(?p, ?c) \<in> set (zip (ptrs ?b (length cs)) cs)" using assms(2) by (metis length_ptrs length_zip min.idem nth_mem)
  then have pl: "placed (IS_LEAF mp) ?b (mp_upper mp) (?p, ?c)" using R by (auto simp: lay_def)
  then have c: "?p + length ?c \<le> length ?b" "block ?b ?p (length ?c) = ?c" "length ?c = raw_sz (IS_LEAF mp) ?c"
    by (auto simp: placed_def)
  have ge: "8 + c_ksize ?c \<le> length ?c" using c(3) EVEN_ge(1) [of "c_ksize ?c"] by (simp add: raw_sz_def NODESIZE_def)
  have sub: "block ?c q m = block ?b (?p + q) m" if "q + m \<le> length ?c" for q m
    using block_block [OF that c(1)] c(2) by simp
  show P: "MP_PTR ?b i = Some ?p" using R assms(2) by (simp add: MP_PTR_def ptr_def)
  show K: "mn_ksize ?b ?p = Some (c_ksize ?c)" using sub [of 6 2] ge c(1) by (simp add: mn_ksize_def c_ksize_def)
  show "node_key mp i = Some (c_key ?c)"
    using P K sub [of 8 "c_ksize ?c"] ge c(1) by (simp add: node_key_def NODEKEY_def c_key_def NODESIZE_def)
qed

lemma node_search_memn:
  assumes rep: "page_rep mp cs" and l2: "\<not> IS_LEAF2 mp"
    and ne: "(if IS_LEAF mp then 0 else 1) < length cs"
    and sorted: "sorted_wrt lex_less (drop (if IS_LEAF mp then 0 else 1) (map c_key cs))"
    and small: "length k < 2 ^ 32" "\<forall>c\<in>set cs. length (c_key c) < 2 ^ 32"
  shows "\<exists>r. mdb_node_search Cmp_memn pad mp k = Some r \<and> (if IS_LEAF mp then 0 else 1) \<le> sr_ki r \<and> sr_ki r \<le> length cs \<and>
     (\<forall>i. (if IS_LEAF mp then 0 else 1) \<le> i \<and> i < sr_ki r \<longrightarrow> lex_less (c_key (cs ! i)) k) \<and>
     (\<forall>i. sr_ki r \<le> i \<and> i < length cs \<longrightarrow> \<not> lex_less (c_key (cs ! i)) k) \<and>
     sr_exact r = (sr_ki r < length cs \<and> c_key (cs ! sr_ki r) = k) \<and> sr_found r = (sr_ki r < length cs)"
proof -
  let ?low = "if IS_LEAF mp then 0 else 1 :: nat" and ?ks = "map c_key cs"
  have lk: "memn.less_key a b = lex_less a b" if "length a < 2 ^ 32" "length b < 2 ^ 32" for a b
    using mdb_cmp_memn_lex [OF that] by (auto simp: memn.less_key_def)
  have kb: "length (?ks ! i) < 2 ^ 32" if "i < length ?ks" for i using small(2) that by simp
  have st: "memn.less_key (?ks ! i) (?ks ! j)" if "?low \<le> i" "i < j" "j < length ?ks" for i j
  proof -
    have "i - ?low < j - ?low" "j - ?low < length (drop ?low ?ks)" using that by auto
    then have "lex_less (drop ?low ?ks ! (i - ?low)) (drop ?low ?ks ! (j - ?low))"
      using sorted_wrt_nth_less [OF sorted] by blast
    then show ?thesis using lk [OF kb kb, of i j] that by (simp add: le_add_diff_inverse)
  qed
  let ?probe = "\<lambda>i. do { nk \<leftarrow> (if IS_LEAF2 mp then leaf2_key mp pad i else node_key mp i); run_cmp Cmp_memn k nk }"
  have "\<exists>i rc. ns_loop ?probe (int ?low) (int (length ?ks) - 1) 0 0 = Some (i, rc) \<and>
    memn.finds ?low ?ks k \<lparr>sr_ki = nat (if 0 < rc then i + 1 else i), sr_exact = (rc = 0 \<and> 0 < length ?ks),
                      sr_found = (nat (if 0 < rc then i + 1 else i) < length ?ks)\<rparr>"
  proof (rule memn.search_finds)
    show "memn.less_key (?ks ! i) (?ks ! j)" if "?low \<le> i" "i < j" "j < length ?ks" for i j
      by (rule st [OF that])
    show "?probe j = mdb_cmp_memn k (?ks ! j)" if "?low \<le> j" "j < length ?ks" for j
      using that l2 node_key_rep(1) [OF rep, of j] by simp
  qed (use small ne in auto)
  then obtain i rc where r: "ns_loop ?probe (int ?low) (int (length ?ks) - 1) 0 0 = Some (i, rc)"
    "memn.finds ?low ?ks k \<lparr>sr_ki = nat (if 0 < rc then i + 1 else i), sr_exact = (rc = 0 \<and> 0 < length ?ks),
                      sr_found = (nat (if 0 < rc then i + 1 else i) < length ?ks)\<rparr>"
    by blast
  let ?r = "\<lparr>sr_ki = nat (if 0 < rc then i + 1 else i), sr_exact = (rc = 0 \<and> 0 < length cs),
             sr_found = (nat (if 0 < rc then i + 1 else i) < length cs)\<rparr>"
  have run: "mdb_node_search Cmp_memn pad mp k = Some ?r"
  proof -
    have low: "(if IS_LEAF mp then 0 else 1) = int ?low" by simp
    show ?thesis
      using r(1) unfolding mdb_node_search_def Let_def NUMKEYS_rep [OF rep] length_map low by auto
  qed
  define r0 where "r0 = ?r"
  have ge: "?low \<le> sr_ki r0" using r(2) unfolding memn.finds_def r0_def length_map by blast
  have F: "sr_ki r0 \<le> length cs" "sr_found r0 = (sr_ki r0 < length cs)"
    "sr_exact r0 = (sr_ki r0 < length cs \<and> ?ks ! sr_ki r0 = k)"
    "\<And>i. ?low \<le> i \<Longrightarrow> i < sr_ki r0 \<Longrightarrow> memn.less_key (?ks ! i) k"
    "\<And>i. sr_ki r0 \<le> i \<Longrightarrow> i < length cs \<Longrightarrow> ?ks ! i \<noteq> k \<Longrightarrow> memn.less_key k (?ks ! i)"
    using r(2) unfolding memn.finds_def r0_def length_map by blast+
  have hi: "\<not> lex_less (c_key (cs ! j)) k" if "sr_ki r0 \<le> j" "j < length cs" for j
  proof (cases "c_key (cs ! j) = k")
    case False
    then have "memn.less_key k (c_key (cs ! j))" using F(5) [OF that] that by simp
    then have "lex_less k (c_key (cs ! j))" using lk small that by simp
    then show ?thesis using lex_less_irrefl lex_less_trans by blast
  qed (simp add: lex_less_irrefl)
  have lo: "lex_less (c_key (cs ! j)) k" if "?low \<le> j" "j < sr_ki r0" for j
    using F(4) [OF that] F(1) that lk small by simp
  have "sr_exact r0 = (sr_ki r0 < length cs \<and> c_key (cs ! sr_ki r0) = k)" using F(3) by auto
  then show ?thesis using run ge F(1,2) lo hi unfolding r0_def [symmetric] by blast
qed

text \<open>
  Property C28.
  On a page whose keys are in lexical order (from the second one on a branch page, whose first
  key is never compared), \<^verbatim>\<open>mdb_node_search\<close> with the default comparison sets the cursor index
  to the first entry that is not smaller than the key, reports whether that entry equals the
  key, and returns \<^verbatim>\<open>NULL\<close> exactly when there is none.
\<close>

theorem mdb_node_search_correct:
  assumes rep: "page_rep mp cs" and l2: "\<not> IS_LEAF2 mp"
    and ne: "(if IS_LEAF mp then 0 else 1) < length cs"
    and sorted: "sorted_wrt lex_less (drop (if IS_LEAF mp then 0 else 1) (map c_key cs))"
    and small: "length k < 2 ^ 32" "\<forall>c\<in>set cs. length (c_key c) < 2 ^ 32"
  shows "\<exists>r. mdb_node_search Cmp_memn pad mp k = Some r \<and> sr_ki r \<le> length cs \<and>
     (\<forall>i. (if IS_LEAF mp then 0 else 1) \<le> i \<and> i < sr_ki r \<longrightarrow> lex_less (c_key (cs ! i)) k) \<and>
     (\<forall>i. sr_ki r \<le> i \<and> i < length cs \<longrightarrow> \<not> lex_less (c_key (cs ! i)) k) \<and>
     sr_exact r = (sr_ki r < length cs \<and> c_key (cs ! sr_ki r) = k) \<and> sr_found r = (sr_ki r < length cs)"
  using node_search_memn [OF assms] by blast

theorem mdb_node_search_correct_witness:
  "\<exists>r. mdb_node_search Cmp_memn 0 one_leaf [1, 2] = Some r \<and> sr_exact r \<and> sr_ki r = 0"
proof -
  obtain r where r: "mdb_node_search Cmp_memn 0 one_leaf [1, 2] = Some r" "sr_ki r \<le> 1"
     "\<forall>i. i < sr_ki r \<longrightarrow> lex_less (c_key ([one_node] ! i)) [1, 2]"
     "sr_exact r = (sr_ki r < 1 \<and> c_key ([one_node] ! sr_ki r) = [1, 2])"
    using mdb_node_search_correct [OF one_leaf_rep one_leaf_flags(2), of "[1, 2]" 0] one_leaf_flags(1) one_node_fields(1)
    by auto
  have "sr_ki r = 0" using r(2,3) one_node_fields(1) by (cases "sr_ki r") auto
  then show ?thesis using r(1,4) one_node_fields(1) by auto
qed

end
