(* ===== verification/Lmdb_Cursor.thy ===== *)
theory Lmdb_Cursor
  imports Lmdb_Search Mid2l
begin

text \<open>
  Cursors of \<^verbatim>\<open>src/core/lmdb/mdb.c\<close>: finding a page by its number (\<^verbatim>\<open>mdb_page_get\<close>), the descent
  from the root (\<^verbatim>\<open>mdb_page_search\<close> and its parts), reading a node's data, and the moves of a cursor,
  \<^verbatim>\<open>mdb_cursor_first\<close>, \<^verbatim>\<open>last\<close>, \<^verbatim>\<open>next\<close>, \<^verbatim>\<open>prev\<close>, \<^verbatim>\<open>set\<close>, \<^verbatim>\<open>sibling\<close>, up to \<^verbatim>\<open>mdb_cursor_get\<close> and \<^verbatim>\<open>mdb_get\<close>.

  A cursor is a stack of (page, index) pairs in two arrays of \<^verbatim>\<open>CURSOR_STACK\<close> cells. None of these
  functions writes to a page, so the cells hold pages by value (\<open>None\<close> is a null pointer). The
  transaction is passed along because the functions set \<^verbatim>\<open>MDB_TXN_ERROR\<close> and refresh stale database
  records in it.  \<^verbatim>\<open>MDB_val\<close> arguments are \<open>bytes option\<close>, \<open>None\<close> for a null pointer; the contents that
  a call leaves in them are part of its result. The outer \<open>option\<close> of every result is as in
  \<open>Lmdb_Page\<close>: \<open>None\<close> is a null or invalid access, a failed \<^verbatim>\<open>mdb_cassert\<close>, or an endless recursion.

  A cursor on a database with sorted duplicates owns a second cursor, \<^verbatim>\<open>mx_cursor\<close>, on which the same
  functions run. That second cursor has none of its own. The functions are therefore written
  over the type \<open>'x\<close> of the sub-cursor and a record \<open>'x ops\<close> of what they call on it; \<open>sub_ops\<close> ties
  the knot with the same functions at type \<open>unit\<close>. The record also has \<^verbatim>\<open>mdb_page_touch\<close>, which is called
  only under \<^verbatim>\<open>MDB_PS_MODIFY\<close>.

  The environment is one opened without \<^verbatim>\<open>MDB_REMAP_CHUNKS\<close> (the repository never sets that flag), so the
  reference counting of \<^verbatim>\<open>MDB_PAGE_UNREF\<close>, \<^verbatim>\<open>MDB_CURSOR_UNREF\<close> and \<^verbatim>\<open>MC_SET_OVPG\<close> does nothing.
\<close>

unbundle bit_operations_syntax

section \<open>Data\<close>

definition CURSOR_STACK :: nat where "CURSOR_STACK = 32"

definition C_INITIALIZED :: "32 word" where "C_INITIALIZED = 0x01"
definition C_EOF :: "32 word" where "C_EOF = 0x02"
definition C_SUB :: "32 word" where "C_SUB = 0x04"
definition C_DEL :: "32 word" where "C_DEL = 0x08"
definition C_UNTRACK :: "32 word" where "C_UNTRACK = 0x40"
definition C_ORIG_RDONLY :: "32 word" where "C_ORIG_RDONLY = 0x20000"
definition C_WRITEMAP :: "32 word" where "C_WRITEMAP = 0x80000"

definition MDB_TXN_ERROR :: "32 word" where "MDB_TXN_ERROR = 0x02"
definition MDB_TXN_BLOCKED :: "32 word" where "MDB_TXN_BLOCKED = 0x53"

definition DB_STALE :: "8 word" where "DB_STALE = 0x02"
definition DB_VALID :: "8 word" where "DB_VALID = 0x08"
definition DB_USRVALID :: "8 word" where "DB_USRVALID = 0x10"
definition DB_DUPDATA :: "8 word" where "DB_DUPDATA = 0x20"

definition MDB_DUPSORT :: "16 word" where "MDB_DUPSORT = 0x04"
definition MDB_INTEGERKEY :: "16 word" where "MDB_INTEGERKEY = 0x08"
definition MDB_DUPFIXED :: "16 word" where "MDB_DUPFIXED = 0x10"
definition MDB_INTEGERDUP :: "16 word" where "MDB_INTEGERDUP = 0x20"
definition PERSISTENT_FLAGS :: "16 word" where "PERSISTENT_FLAGS = 0x7fff"

definition F_SUBDATA :: "32 word" where "F_SUBDATA = 0x02"
definition F_DUPDATA :: "32 word" where "F_DUPDATA = 0x04"

definition MDB_PS_MODIFY :: "32 word" where "MDB_PS_MODIFY = 1"
definition MDB_PS_ROOTONLY :: "32 word" where "MDB_PS_ROOTONLY = 2"
definition MDB_PS_FIRST :: "32 word" where "MDB_PS_FIRST = 4"
definition MDB_PS_LAST :: "32 word" where "MDB_PS_LAST = 8"

definition MAIN_DBI :: nat where "MAIN_DBI = 1"
definition P_INVALID :: nat where "P_INVALID = 2 ^ 64 - 1"

definition MDB_NOTFOUND :: int where "MDB_NOTFOUND = -30798"
definition MDB_PAGE_NOTFOUND :: int where "MDB_PAGE_NOTFOUND = -30797"
definition MDB_CORRUPTED :: int where "MDB_CORRUPTED = -30796"
definition MDB_CURSOR_FULL :: int where "MDB_CURSOR_FULL = -30787"
definition MDB_INCOMPATIBLE :: int where "MDB_INCOMPATIBLE = -30784"
definition MDB_BAD_TXN :: int where "MDB_BAD_TXN = -30782"
definition MDB_BAD_VALSIZE :: int where "MDB_BAD_VALSIZE = -30781"
definition MDB_BAD_DBI :: int where "MDB_BAD_DBI = -30780"
definition EINVAL :: int where "EINVAL = 22"

datatype cursor_op =
  MDB_FIRST | MDB_FIRST_DUP | MDB_GET_BOTH | MDB_GET_BOTH_RANGE | MDB_GET_CURRENT | MDB_GET_MULTIPLE
| MDB_LAST | MDB_LAST_DUP | MDB_NEXT | MDB_NEXT_DUP | MDB_NEXT_MULTIPLE | MDB_NEXT_NODUP
| MDB_PREV | MDB_PREV_DUP | MDB_PREV_NODUP | MDB_SET | MDB_SET_KEY | MDB_SET_RANGE | MDB_PREV_MULTIPLE

record mdb_db =
  md_pad :: nat
  md_flags :: "16 word"
  md_depth :: nat
  md_branch_pages :: nat
  md_leaf_pages :: nat
  md_overflow_pages :: nat
  md_entries :: nat
  md_root :: nat

record mdb_dbx =
  md_name :: bytes
  md_cmp :: "cmp_func option"
  md_dcmp :: "cmp_func option"

text \<open>
  The lists of one transaction: its dirty pages and the numbers of the pages it spilled
  (\<open>None\<close> for a null pointer).
\<close>

record txn_lists =
  tl_dirty :: "page id2l"
  tl_spill :: "idl option"

text \<open>
  A transaction: \<open>mt_chain\<close> has its own lists and then those of its parents; \<open>me_map\<close> is the memory
  map of the environment, \<open>None\<close> beyond the mapped file; \<open>mt_cursors\<close> says that cursors are tracked.
\<close>

record txn =
  mt_flags :: "32 word"
  mt_next_pgno :: nat
  mt_chain :: "txn_lists list"
  mt_dbs :: "mdb_db list"
  mt_dbxs :: "mdb_dbx list"
  mt_dbflags :: "8 word list"
  mt_dbiseqs :: "nat list"
  mt_numdbs :: nat
  mt_cursors :: bool
  me_map :: "nat \<Rightarrow> page option"
  me_dbiseqs :: "nat list"

text \<open>The records that a sub-cursor points to lie in its own \<^verbatim>\<open>MDB_xcursor\<close>.\<close>

record sub_db =
  mx_db :: mdb_db
  mx_dbx :: mdb_dbx
  mx_dbflag :: "8 word"

record 'x cursor =
  mc_xcursor :: "'x option"
  mc_dbi :: nat
  mc_own :: "sub_db option"
  mc_snum :: nat
  mc_top :: nat
  mc_flags :: "32 word"
  mc_pg :: "page option list"
  mc_ki :: "nat list"

type_synonym sub_cursor = "unit cursor"
type_synonym main_cursor = "sub_cursor cursor"

record 'x ops =
  o_touch :: "txn \<Rightarrow> 'x cursor \<Rightarrow> (int \<times> txn \<times> 'x cursor) option"
  o_init0 :: "txn \<Rightarrow> 'x cursor \<Rightarrow> 'x \<Rightarrow> 'x option"
  o_init1 :: "txn \<Rightarrow> 'x cursor \<Rightarrow> bytes \<Rightarrow> nat \<Rightarrow> 'x option"
  o_clear :: "'x \<Rightarrow> 'x"
  o_flags :: "'x \<Rightarrow> 32 word"
  o_entries :: "'x \<Rightarrow> nat option"
  o_first :: "txn \<Rightarrow> 'x \<Rightarrow> bytes option \<Rightarrow> (int \<times> txn \<times> 'x \<times> bytes option) option"
  o_last :: "txn \<Rightarrow> 'x \<Rightarrow> bytes option \<Rightarrow> (int \<times> txn \<times> 'x \<times> bytes option) option"
  o_next :: "txn \<Rightarrow> 'x \<Rightarrow> bytes option \<Rightarrow> (int \<times> txn \<times> 'x \<times> bytes option) option"
  o_prev :: "txn \<Rightarrow> 'x \<Rightarrow> bytes option \<Rightarrow> (int \<times> txn \<times> 'x \<times> bytes option) option"
  o_current :: "txn \<Rightarrow> 'x \<Rightarrow> bytes option \<Rightarrow> (int \<times> txn \<times> 'x \<times> bytes option) option"
  o_set :: "txn \<Rightarrow> 'x \<Rightarrow> bytes option \<Rightarrow> bool option \<Rightarrow> (int \<times> txn \<times> 'x \<times> bytes option) option"
  o_sibling :: "txn \<Rightarrow> 'x \<Rightarrow> bool \<Rightarrow> (int \<times> txn \<times> 'x) option"
  o_fetchm :: "'x \<Rightarrow> (bytes \<times> 'x) option"

abbreviation has :: "'a::len word \<Rightarrow> 'a word \<Rightarrow> bool" where
  "has w f \<equiv> w AND f \<noteq> 0"

definition node_isset :: "nat \<Rightarrow> 32 word \<Rightarrow> bool" where
  "node_isset fl f = F_ISSET (of_nat fl :: 32 word) f"

text \<open>The records behind \<^verbatim>\<open>mc_db\<close>, \<^verbatim>\<open>mc_dbx\<close> and \<^verbatim>\<open>mc_dbflag\<close>.\<close>

definition mc_db :: "txn \<Rightarrow> 'x cursor \<Rightarrow> mdb_db option" where
  "mc_db txn mc = (case mc_own mc of None \<Rightarrow> rd (mt_dbs txn) (mc_dbi mc) | Some s \<Rightarrow> Some (mx_db s))"

definition mc_dbx :: "txn \<Rightarrow> 'x cursor \<Rightarrow> mdb_dbx option" where
  "mc_dbx txn mc = (case mc_own mc of None \<Rightarrow> rd (mt_dbxs txn) (mc_dbi mc) | Some s \<Rightarrow> Some (mx_dbx s))"

definition mc_dbflag :: "txn \<Rightarrow> 'x cursor \<Rightarrow> 8 word option" where
  "mc_dbflag txn mc = (case mc_own mc of None \<Rightarrow> rd (mt_dbflags txn) (mc_dbi mc) | Some s \<Rightarrow> Some (mx_dbflag s))"

definition txn_error :: "txn \<Rightarrow> txn" where
  "txn_error txn = txn\<lparr>mt_flags := mt_flags txn OR MDB_TXN_ERROR\<rparr>"

text \<open>\<^verbatim>\<open>mc->mc_pg[mc->mc_top]\<close>, \<^verbatim>\<open>mc->mc_ki[mc->mc_top]\<close> and the assignment to the latter.\<close>

definition top_pg :: "'x cursor \<Rightarrow> page option" where
  "top_pg mc = do { p \<leftarrow> rd (mc_pg mc) (mc_top mc); p }"

definition top_ki :: "'x cursor \<Rightarrow> nat option" where
  "top_ki mc = rd (mc_ki mc) (mc_top mc)"

definition set_ki :: "'x cursor \<Rightarrow> nat \<Rightarrow> 'x cursor option" where
  "set_ki mc i = do { ks \<leftarrow> wr (mc_ki mc) (mc_top mc) (u16 i); Some (mc\<lparr>mc_ki := ks\<rparr>) }"

text \<open>\<^verbatim>\<open>NUMKEYS (mp) - 1\<close> as an \<^verbatim>\<open>unsigned\<close> and as an \<^verbatim>\<open>indx_t\<close>.\<close>

definition last_u32 :: "page \<Rightarrow> nat" where "last_u32 mp = u32 (NUMKEYS mp + (2 ^ 32 - 1))"
definition last_u16 :: "page \<Rightarrow> nat" where "last_u16 mp = u16 (NUMKEYS mp + (2 ^ 16 - 1))"

section \<open>The page stack\<close>

definition mdb_cursor_pop :: "'x cursor \<Rightarrow> 'x cursor" where
  "mdb_cursor_pop mc =
     (if mc_snum mc \<noteq> 0 then
        let mc = mc\<lparr>mc_snum := mc_snum mc - 1\<rparr> in
        if mc_snum mc \<noteq> 0 then mc\<lparr>mc_top := u16 (mc_top mc + (2 ^ 16 - 1))\<rparr>
        else mc\<lparr>mc_flags := mc_flags mc AND NOT C_INITIALIZED\<rparr>
      else mc)"

definition mdb_cursor_push :: "txn \<Rightarrow> 'x cursor \<Rightarrow> page \<Rightarrow> (int \<times> txn \<times> 'x cursor) option" where
  "mdb_cursor_push txn mc mp =
     (if CURSOR_STACK \<le> mc_snum mc then Some (MDB_CURSOR_FULL, txn_error txn, mc)
      else do {
        let top = mc_snum mc;
        pg \<leftarrow> wr (mc_pg mc) top (Some mp);
        ki \<leftarrow> wr (mc_ki mc) top 0;
        Some (0, txn, mc\<lparr>mc_top := top, mc_snum := top + 1, mc_pg := pg, mc_ki := ki\<rparr>)
      })"

section \<open>Pages by number\<close>

text \<open>The dirty page with the given number, if the transaction has one.\<close>

definition dirty_page :: "page id2l \<Rightarrow> nat \<Rightarrow> page option option" where
  "dirty_page dl pgno =
     do {
       e0 \<leftarrow> rd dl 0;
       if mid e0 \<noteq> 0 then do {
         x \<leftarrow> mdb_mid2l_search dl (of_nat pgno);
         if x \<le> unat (mid e0) then do {
           e \<leftarrow> rd dl x;
           Some (if mid e = of_nat pgno then Some (mptr e) else None)
         } else Some None
       } else Some None
     }"

definition is_spilled :: "idl \<Rightarrow> nat \<Rightarrow> bool option" where
  "is_spilled sl pgno =
     do {
       let pn = push_bit 1 (of_nat pgno);
       x \<leftarrow> mdb_midl_search sl pn;
       n \<leftarrow> rd sl 0;
       if x \<le> unat n then do { v \<leftarrow> rd sl x; Some (v = pn) } else Some False
     }"

datatype page_source = Dirty page | Mapped | Unlisted

text \<open>The loop \<^verbatim>\<open>for (tx2 = txn;; )\<close> over the transaction and its parents.\<close>

fun find_source :: "txn_lists list \<Rightarrow> nat \<Rightarrow> page_source option" where
  "find_source [] pgno = None"
| "find_source (tx # parents) pgno =
     do {
       d \<leftarrow> dirty_page (tl_dirty tx) pgno;
       case d of
         Some p \<Rightarrow> Some (Dirty p)
       | None \<Rightarrow>
           if parents = [] then Some Unlisted
           else (case tl_spill tx of
                   None \<Rightarrow> find_source parents pgno
                 | Some sl \<Rightarrow> do { s \<leftarrow> is_spilled sl pgno; if s then Some Mapped else find_source parents pgno })
     }"

definition mdb_page_get :: "txn \<Rightarrow> 'x cursor \<Rightarrow> nat \<Rightarrow> (txn \<times> (int + page)) option" where
  "mdb_page_get txn mc pgno =
     do {
       s \<leftarrow> (if \<not> (has (mc_flags mc) (C_ORIG_RDONLY OR C_WRITEMAP) \<and> tl (mt_chain txn) = [])
             then find_source (mt_chain txn) pgno else Some Unlisted);
       case s of
         Dirty p \<Rightarrow> Some (txn, Inr p)
       | Mapped \<Rightarrow> do { p \<leftarrow> me_map txn pgno; Some (txn, Inr p) }
       | Unlisted \<Rightarrow>
           if mt_next_pgno txn \<le> pgno then Some (txn_error txn, Inl MDB_PAGE_NOTFOUND)
           else do { p \<leftarrow> me_map txn pgno; Some (txn, Inr p) }
     }"

section \<open>The descent\<close>

text \<open>The page number in node \<open>i\<close> of a branch page: \<^verbatim>\<open>NODEPGNO (NODEPTR (mp, i))\<close>.\<close>

definition child_pgno :: "page \<Rightarrow> nat \<Rightarrow> nat option" where
  "child_pgno mp i = do { p \<leftarrow> MP_PTR (mp_body mp) i; NODEPGNO (mp_body mp) p }"

text \<open>\<^verbatim>\<open>mdb_node_search (mc, key, exactp)\<close> on the top page; it sets the cursor's index.\<close>

definition node_search :: "txn \<Rightarrow> 'x cursor \<Rightarrow> bytes \<Rightarrow> (search_result \<times> 'x cursor) option" where
  "node_search txn mc key =
     do {
       mp \<leftarrow> top_pg mc;
       db \<leftarrow> mc_db txn mc;
       dbx \<leftarrow> mc_dbx txn mc;
       cmp \<leftarrow> md_cmp dbx;
       r \<leftarrow> mdb_node_search cmp (md_pad db) mp key;
       mc \<leftarrow> set_ki mc (sr_ki r);
       Some (r, mc)
     }"

text \<open>
  The child to follow: the index, whether the cursor is already there (\<^verbatim>\<open>goto ready\<close>), and
  the cursor with the index that the search stored in it.
\<close>

definition branch_index :: "txn \<Rightarrow> 'x cursor \<Rightarrow> page \<Rightarrow> bytes option \<Rightarrow> 32 word \<Rightarrow> (nat \<times> bool \<times> 'x cursor) option" where
  "branch_index txn mc mp key flags =
     (if has flags (MDB_PS_FIRST OR MDB_PS_LAST) then
        if has flags MDB_PS_LAST then do {
          let i = last_u16 mp;
          k \<leftarrow> top_ki mc;
          Some (i, has (mc_flags mc) C_INITIALIZED \<and> k = i, mc)
        }
        else Some (0, False, mc)
      else do {
        k \<leftarrow> key;
        (r, mc) \<leftarrow> node_search txn mc k;
        if \<not> sr_found r then Some (last_u16 mp, False, mc)
        else do {
          i \<leftarrow> top_ki mc;
          if sr_exact r then Some (i, False, mc)
          else if i = 0 then None
          else Some (i - 1, False, mc)
        }
      })"

text \<open>\<^verbatim>\<open>if (flags & MDB_PS_MODIFY)\<close>: touch the top page. \<^verbatim>\<open>mdb_page_touch\<close> does not change the stack's height.\<close>

definition touch_top :: "'x ops \<Rightarrow> txn \<Rightarrow> 'x cursor \<Rightarrow> 32 word \<Rightarrow> (int \<times> txn \<times> 'x cursor) option" where
  "touch_top X txn mc flags =
     (if has flags MDB_PS_MODIFY then do {
        (rc, txn, mc') \<leftarrow> o_touch X txn mc;
        Some (rc, txn, mc'\<lparr>mc_snum := mc_snum mc, mc_top := mc_top mc\<rparr>)
      } else Some (0, txn, mc))"

text \<open>One round of the loop, up to the label \<^verbatim>\<open>ready\<close>; a return code other than 0 is returned.\<close>

definition search_step :: "txn \<Rightarrow> 'x cursor \<Rightarrow> page \<Rightarrow> bytes option \<Rightarrow> 32 word \<Rightarrow> (int \<times> txn \<times> 'x cursor) option" where
  "search_step txn mc mp key flags =
     (if mc_dbi mc \<noteq> 0 \<and> NUMKEYS mp \<le> 1 then None
      else do {
        (i, there, mc) \<leftarrow> branch_index txn mc mp key flags;
        if there then
          if CURSOR_STACK \<le> mc_snum mc then None
          else Some (0, txn, mc\<lparr>mc_top := mc_snum mc, mc_snum := mc_snum mc + 1\<rparr>)
        else if NUMKEYS mp \<le> i then None
        else do {
          pgno \<leftarrow> child_pgno mp i;
          (txn, r) \<leftarrow> mdb_page_get txn mc pgno;
          case r of
            Inl rc \<Rightarrow> Some (rc, txn, mc)
          | Inr mp \<Rightarrow> do { mc \<leftarrow> set_ki mc i; mdb_cursor_push txn mc mp }
        }
      })"

lemma set_ki_snum: "set_ki mc i = Some mc' \<Longrightarrow> mc_snum mc' = mc_snum mc"
  by (auto simp: set_ki_def bind_eq_Some_conv)

lemma push_snum:
  "mdb_cursor_push txn mc mp = Some (0, txn', mc') \<Longrightarrow> mc_snum mc' = mc_snum mc + 1 \<and> mc_snum mc < CURSOR_STACK"
  by (auto simp: mdb_cursor_push_def bind_eq_Some_conv MDB_CURSOR_FULL_def Let_def split: if_splits)

lemma node_search_snum: "node_search txn mc key = Some (r, mc') \<Longrightarrow> mc_snum mc' = mc_snum mc"
  by (auto simp: node_search_def bind_eq_Some_conv dest: set_ki_snum)

lemma branch_index_snum: "branch_index txn mc mp key flags = Some (i, there, mc') \<Longrightarrow> mc_snum mc' = mc_snum mc"
  by (auto simp: branch_index_def bind_eq_Some_conv Let_def split: if_splits dest: node_search_snum)

lemma page_get_error:
  assumes "mdb_page_get txn mc pgno = Some (txn', Inl rc)"
  shows "rc = MDB_PAGE_NOTFOUND"
proof -
  obtain s where "(if \<not> (has (mc_flags mc) (C_ORIG_RDONLY OR C_WRITEMAP) \<and> tl (mt_chain txn) = [])
      then find_source (mt_chain txn) pgno else Some Unlisted) = Some s"
    using assms by (auto simp: mdb_page_get_def bind_eq_Some_conv)
  then show ?thesis
    using assms by (cases s) (auto simp: mdb_page_get_def bind_eq_Some_conv split: if_split_asm)
qed

lemma search_step_snum:
  assumes "search_step txn mc mp key flags = Some (0, txn', mc')"
  shows "mc_snum mc' = mc_snum mc + 1 \<and> mc_snum mc < CURSOR_STACK"
proof -
  obtain i there mc1 where b: "branch_index txn mc mp key flags = Some (i, there, mc1)"
    using assms by (auto simp: search_step_def bind_eq_Some_conv split: if_split_asm)
  show ?thesis
  proof (cases there)
    case True
    then show ?thesis
      using assms b branch_index_snum [OF b] by (auto simp: search_step_def split: if_split_asm)
  next
    case False
    then obtain pgno txn1 r where r: "child_pgno mp i = Some pgno" "mdb_page_get txn mc1 pgno = Some (txn1, r)"
      using assms b by (auto simp: search_step_def bind_eq_Some_conv split: if_split_asm)
    then show ?thesis
      using False assms b branch_index_snum [OF b] page_get_error [of txn mc1 pgno txn1]
      by (cases r) (auto simp: search_step_def bind_eq_Some_conv MDB_PAGE_NOTFOUND_def dest!: set_ki_snum push_snum
          split: if_split_asm)
  qed
qed

function mdb_page_search_root ::
  "'x ops \<Rightarrow> txn \<Rightarrow> 'x cursor \<Rightarrow> bytes option \<Rightarrow> 32 word \<Rightarrow> (int \<times> txn \<times> 'x cursor) option" where
  "mdb_page_search_root X txn mc key flags =
     do {
       mp \<leftarrow> top_pg mc;
       if IS_BRANCH mp then do {
         (rc, txn, mc) \<leftarrow> search_step txn mc mp key flags;
         if rc \<noteq> 0 then Some (rc, txn, mc)
         else do {
           (rc, txn, mc) \<leftarrow> touch_top X txn mc flags;
           if rc \<noteq> 0 then Some (rc, txn, mc)
           else mdb_page_search_root X txn mc key flags
         }
       }
       else if \<not> IS_LEAF mp then Some (MDB_CORRUPTED, txn_error txn, mc)
       else Some (0, txn, mc\<lparr>mc_flags := (mc_flags mc OR C_INITIALIZED) AND NOT C_EOF\<rparr>)
     }"
  by pat_completeness auto
termination
proof (relation "measure (\<lambda>(X, txn, mc, key, flags). CURSOR_STACK - mc_snum mc)", goal_cases)
  case (2 X txn mc key flags mp r rc r1 txn1 mc1 r2 rc2 r3 txn2 mc2)
  then have s: "search_step txn mc mp key flags = Some (0, txn1, mc1)" by simp
  have "mc_snum mc2 = mc_snum mc1" using 2 by (auto simp: touch_top_def bind_eq_Some_conv split: if_splits)
  then show ?case using search_step_snum [OF s] by auto
qed simp

text \<open>
  \<^verbatim>\<open>mdb_page_search_lowest\<close> enters the loop one level down, without the check of the number of keys.
\<close>

definition mdb_page_search_lowest :: "'x ops \<Rightarrow> txn \<Rightarrow> 'x cursor \<Rightarrow> (int \<times> txn \<times> 'x cursor) option" where
  "mdb_page_search_lowest X txn mc =
     do {
       mp \<leftarrow> top_pg mc;
       pgno \<leftarrow> child_pgno mp 0;
       (txn, r) \<leftarrow> mdb_page_get txn mc pgno;
       case r of
         Inl rc \<Rightarrow> Some (rc, txn, mc)
       | Inr mp \<Rightarrow> do {
           mc \<leftarrow> set_ki mc 0;
           (rc, txn, mc) \<leftarrow> mdb_cursor_push txn mc mp;
           if rc \<noteq> 0 then Some (rc, txn, mc)
           else mdb_page_search_root X txn mc None MDB_PS_FIRST
         }
     }"

section \<open>Reading a node\<close>

definition NODEDATA :: "bytes \<Rightarrow> nat \<Rightarrow> nat option" where
  "NODEDATA b p = do { k \<leftarrow> mn_ksize b p; Some (p + NODESIZE + EVEN k) }"

definition bytes_at :: "bytes \<Rightarrow> nat \<Rightarrow> nat \<Rightarrow> bytes option" where
  "bytes_at b p n = (if p + n \<le> length b then Some (block b p n) else None)"

text \<open>
  The node at \<open>p\<close> in \<open>b\<close>. The data are \<open>None\<close> when the overflow page is not found: then only
  \<^verbatim>\<open>mv_size\<close> has been set.
\<close>

definition mdb_node_read :: "txn \<Rightarrow> 'x cursor \<Rightarrow> bytes \<Rightarrow> nat \<Rightarrow> (int \<times> txn \<times> bytes option) option" where
  "mdb_node_read txn mc b p =
     do {
       n \<leftarrow> NODEDSZ b p;
       fl \<leftarrow> mn_flags b p;
       q \<leftarrow> NODEDATA b p;
       if \<not> node_isset fl F_BIGDATA then do { d \<leftarrow> bytes_at b q n; Some (0, txn, Some d) }
       else do {
         ovp \<leftarrow> bytes_at b q SIZEOF_OVPAGE;
         (txn, r) \<leftarrow> mdb_page_get txn mc (dec_le (block ovp 0 8));
         case r of
           Inl rc \<Rightarrow> Some (rc, txn, None)
         | Inr omp \<Rightarrow> do { d \<leftarrow> bytes_at (mp_body omp) 0 n; Some (0, txn, Some d) }
       }
     }"

section \<open>The search from the root\<close>

text \<open>The assignments of \<^verbatim>\<open>mdb_cursor_init\<close>; \<open>mc\<close> is the memory that it initialises.\<close>

definition cursor_reset :: "'x ops \<Rightarrow> txn \<Rightarrow> nat \<Rightarrow> 'x option \<Rightarrow> 'x cursor \<Rightarrow> 'x cursor option" where
  "cursor_reset X txn dbi mx mc =
     do {
       db \<leftarrow> rd (mt_dbs txn) dbi;
       pg \<leftarrow> wr (mc_pg mc) 0 None;
       ki \<leftarrow> wr (mc_ki mc) 0 0;
       let mc = mc\<lparr>mc_xcursor := None, mc_dbi := dbi, mc_own := None, mc_snum := 0, mc_top := 0,
                   mc_flags := mt_flags txn AND (C_ORIG_RDONLY OR C_WRITEMAP), mc_pg := pg, mc_ki := ki\<rparr>;
       if has (md_flags db) MDB_DUPSORT then do {
         x \<leftarrow> mx;
         x \<leftarrow> o_init0 X txn mc x;
         Some (mc\<lparr>mc_xcursor := Some x\<rparr>)
       } else Some mc
     }"

text \<open>A cursor in fresh memory. No operation reads the cells above the ones it has pushed.\<close>

definition new_cursor :: "'x cursor" where
  "new_cursor = \<lparr>mc_xcursor = None, mc_dbi = 0, mc_own = None, mc_snum = 0, mc_top = 0, mc_flags = 0,
                 mc_pg = replicate CURSOR_STACK None, mc_ki = replicate CURSOR_STACK 0\<rparr>"

text \<open>\<^verbatim>\<open>mdb_page_search\<close> from \<^verbatim>\<open>root = mc->mc_db->md_root\<close> on.\<close>

definition search_from_root ::
  "'x ops \<Rightarrow> txn \<Rightarrow> 'x cursor \<Rightarrow> bytes option \<Rightarrow> 32 word \<Rightarrow> (int \<times> txn \<times> 'x cursor) option" where
  "search_from_root X txn mc key flags =
     do {
       db \<leftarrow> mc_db txn mc;
       let root = md_root db;
       if root = P_INVALID then Some (MDB_NOTFOUND, txn, mc)
       else if root \<le> 1 then None
       else do {
         p0 \<leftarrow> rd (mc_pg mc) 0;
         (rc, txn, mc) \<leftarrow>
           (if (case p0 of None \<Rightarrow> True | Some p \<Rightarrow> mp_pgno p \<noteq> root) then do {
              (txn, r) \<leftarrow> mdb_page_get txn mc root;
              case r of
                Inl rc \<Rightarrow> Some (rc, txn, mc)
              | Inr p \<Rightarrow> do { pg \<leftarrow> wr (mc_pg mc) 0 (Some p); Some (0, txn, mc\<lparr>mc_pg := pg\<rparr>) }
            } else Some (0, txn, mc));
         if rc \<noteq> 0 then Some (rc, txn, mc)
         else do {
           (rc, txn, mc) \<leftarrow> touch_top X txn (mc\<lparr>mc_snum := 1, mc_top := 0\<rparr>) flags;
           if rc \<noteq> 0 then Some (rc, txn, mc)
           else if has flags MDB_PS_ROOTONLY then Some (0, txn, mc)
           else mdb_page_search_root X txn mc key flags
         }
       }
     }"

text \<open>\<^verbatim>\<open>MDB_db\<close> as it is stored in the data of a node.\<close>

definition dec_db :: "bytes \<Rightarrow> mdb_db option" where
  "dec_db b =
     (if length b < 48 then None
      else Some \<lparr>md_pad = dec_le (block b 0 4), md_flags = of_nat (dec_le (block b 4 2)), md_depth = dec_le (block b 6 2),
                 md_branch_pages = dec_le (block b 8 8), md_leaf_pages = dec_le (block b 16 8),
                 md_overflow_pages = dec_le (block b 24 8), md_entries = dec_le (block b 32 8), md_root = dec_le (block b 40 8)\<rparr>)"

definition put_db :: "txn \<Rightarrow> 'x cursor \<Rightarrow> mdb_db \<Rightarrow> 8 word \<Rightarrow> (txn \<times> 'x cursor) option" where
  "put_db txn mc db flag =
     (case mc_own mc of
        None \<Rightarrow> do {
          dbs \<leftarrow> wr (mt_dbs txn) (mc_dbi mc) db;
          fls \<leftarrow> wr (mt_dbflags txn) (mc_dbi mc) flag;
          Some (txn\<lparr>mt_dbs := dbs, mt_dbflags := fls\<rparr>, mc)
        }
      | Some s \<Rightarrow> Some (txn, mc\<lparr>mc_own := Some (s\<lparr>mx_db := db, mx_dbflag := flag\<rparr>)\<rparr>))"

text \<open>
  The block under \<^verbatim>\<open>if (*mc->mc_dbflag & DB_STALE)\<close>: read the record of a named database from the
  main database. The main database's own record is read when the transaction begins and is not
  marked stale; if it were, the nested \<^verbatim>\<open>mdb_page_search\<close> would call itself without end.
\<close>

definition refresh_db :: "'x ops \<Rightarrow> txn \<Rightarrow> 'x cursor \<Rightarrow> (int \<times> txn \<times> 'x cursor) option" where
  "refresh_db X txn mc =
     do {
       flag \<leftarrow> mc_dbflag txn mc;
       if \<not> has flag DB_STALE then Some (0, txn, mc)
       else do {
         seq \<leftarrow> rd (mt_dbiseqs txn) (mc_dbi mc);
         eseq \<leftarrow> rd (me_dbiseqs txn) (mc_dbi mc);
         if seq \<noteq> eseq then Some (MDB_BAD_DBI, txn, mc)
         else do {
           dbx \<leftarrow> mc_dbx txn mc;
           mc2 \<leftarrow> cursor_reset X txn MAIN_DBI None new_cursor;
           mflag \<leftarrow> mc_dbflag txn mc2;
           if has mflag DB_STALE then None
           else do {
             (rc, txn, mc2) \<leftarrow> search_from_root X txn mc2 (Some (md_name dbx)) 0;
             if rc \<noteq> 0 then Some (rc, txn, mc)
             else do {
               (r, mc2) \<leftarrow> node_search txn mc2 (md_name dbx);
               if \<not> sr_exact r then Some (MDB_BAD_DBI, txn, mc)
               else do {
                 mp \<leftarrow> top_pg mc2;
                 ki \<leftarrow> top_ki mc2;
                 p \<leftarrow> MP_PTR (mp_body mp) ki;
                 fl \<leftarrow> mn_flags (mp_body mp) p;
                 if of_nat fl AND (F_DUPDATA OR F_SUBDATA) \<noteq> F_SUBDATA then Some (MDB_INCOMPATIBLE, txn, mc)
                 else do {
                   (rc, txn, d) \<leftarrow> mdb_node_read txn mc2 (mp_body mp) p;
                   if rc \<noteq> 0 then Some (rc, txn, mc)
                   else do {
                     d \<leftarrow> d;
                     new \<leftarrow> dec_db d;
                     db \<leftarrow> mc_db txn mc;
                     if md_flags db AND PERSISTENT_FLAGS \<noteq> md_flags new then Some (MDB_INCOMPATIBLE, txn, mc)
                     else do {
                       (txn, mc) \<leftarrow> put_db txn mc new (flag AND NOT DB_STALE);
                       Some (0, txn, mc)
                     }
                   }
                 }
               }
             }
           }
         }
       }
     }"

definition mdb_page_search ::
  "'x ops \<Rightarrow> txn \<Rightarrow> 'x cursor \<Rightarrow> bytes option \<Rightarrow> 32 word \<Rightarrow> (int \<times> txn \<times> 'x cursor) option" where
  "mdb_page_search X txn mc key flags =
     (if has (mt_flags txn) MDB_TXN_BLOCKED then Some (MDB_BAD_TXN, txn, mc)
      else do {
        (rc, txn, mc) \<leftarrow> refresh_db X txn mc;
        if rc \<noteq> 0 then Some (rc, txn, mc) else search_from_root X txn mc key flags
      })"

definition mdb_cursor_init :: "'x ops \<Rightarrow> txn \<Rightarrow> nat \<Rightarrow> 'x option \<Rightarrow> 'x cursor \<Rightarrow> (txn \<times> 'x cursor) option" where
  "mdb_cursor_init X txn dbi mx mc =
     do {
       mc \<leftarrow> cursor_reset X txn dbi mx mc;
       flag \<leftarrow> mc_dbflag txn mc;
       if has flag DB_STALE then do {
         (rc, txn, mc) \<leftarrow> mdb_page_search X txn mc None MDB_PS_ROOTONLY;
         Some (txn, mc)
       } else Some (txn, mc)
     }"

section \<open>Siblings\<close>

text \<open>The end of \<^verbatim>\<open>mdb_cursor_sibling\<close>: load the child the parent's index selects.\<close>

definition sibling_load :: "txn \<Rightarrow> 'x cursor \<Rightarrow> bool \<Rightarrow> (int \<times> txn \<times> 'x cursor) option" where
  "sibling_load txn mc move_right =
     do {
       mp \<leftarrow> top_pg mc;
       ki \<leftarrow> top_ki mc;
       if \<not> IS_BRANCH mp then None
       else do {
         pgno \<leftarrow> child_pgno mp ki;
         (txn, r) \<leftarrow> mdb_page_get txn mc pgno;
         case r of
           Inl rc \<Rightarrow> Some (rc, txn, mc\<lparr>mc_flags := mc_flags mc AND NOT (C_INITIALIZED OR C_EOF)\<rparr>)
         | Inr mp \<Rightarrow> do {
             (rc, txn, mc) \<leftarrow> mdb_cursor_push txn mc mp;
             mc \<leftarrow> (if move_right then Some mc else set_ki mc (last_u16 mp));
             Some (0, txn, mc)
           }
       }
     }"

function mdb_cursor_sibling :: "txn \<Rightarrow> 'x cursor \<Rightarrow> bool \<Rightarrow> (int \<times> txn \<times> 'x cursor) option" where
  "mdb_cursor_sibling txn mc move_right =
     (if mc_snum mc < 2 then Some (MDB_NOTFOUND, txn, mc)
      else do {
        let mc1 = mdb_cursor_pop mc;
        mp \<leftarrow> top_pg mc1;
        ki \<leftarrow> top_ki mc1;
        if (if move_right then NUMKEYS mp \<le> ki + 1 else ki = 0) then do {
          (rc, txn, mc2) \<leftarrow> mdb_cursor_sibling txn mc1 move_right;
          if rc \<noteq> 0 then Some (rc, txn, mc2\<lparr>mc_top := u16 (mc_top mc2 + 1), mc_snum := mc_snum mc2 + 1\<rparr>)
          else sibling_load txn mc2 move_right
        }
        else do {
          mc2 \<leftarrow> set_ki mc1 (if move_right then ki + 1 else ki - 1);
          sibling_load txn mc2 move_right
        }
      })"
  by pat_completeness auto
termination
  by (relation "measure (\<lambda>(txn, mc, r). mc_snum mc)") (auto simp: mdb_cursor_pop_def Let_def)

declare mdb_cursor_sibling.simps [simp del] mdb_page_search_root.simps [simp del]

end
