(* ===== verification/Lmdb_Moves.thy ===== *)
theory Lmdb_Moves
  imports Lmdb_Cursor
begin

text \<open>
  The moves of a cursor, \<^verbatim>\<open>src/core/lmdb/mdb.c\<close>: first, last, next, previous and the positioning at
  a key, then \<^verbatim>\<open>mdb_cursor_get\<close>, \<^verbatim>\<open>mdb_cursor_count\<close>, \<^verbatim>\<open>mdb_cursor_renew\<close> and \<^verbatim>\<open>mdb_get\<close>. A move returns the code,
  the transaction, the cursor, and what the key and data arguments hold afterwards.
\<close>

unbundle bit_operations_syntax

type_synonym 'x moved = "(int \<times> txn \<times> 'x cursor \<times> bytes option \<times> bytes option) option"

section \<open>The item under the cursor\<close>

text \<open>\<^verbatim>\<open>MDB_GET_KEY (leaf, key)\<close> for the node at \<open>p\<close>.\<close>

definition MDB_GET_KEY :: "bytes \<Rightarrow> nat \<Rightarrow> bytes option \<Rightarrow> bytes option option" where
  "MDB_GET_KEY b p key = (case key of None \<Rightarrow> Some None | Some k \<Rightarrow> map_option Some (NODEKEY b p))"

definition clear_sub :: "'x ops \<Rightarrow> 'x cursor \<Rightarrow> 'x cursor" where
  "clear_sub X mc = mc\<lparr>mc_xcursor := map_option (o_clear X) (mc_xcursor mc)\<rparr>"

text \<open>
  The end of the moves: the key of a \<^verbatim>\<open>P_LEAF2\<close> page, or the data of the node, from the duplicates
  through \<open>sub\<close> if it has some, and its key. \<^verbatim>\<open>mdb_cursor_next\<close> and \<^verbatim>\<open>mdb_cursor_prev\<close> store into \<open>key\<close> on a
  \<^verbatim>\<open>P_LEAF2\<close> page without testing the pointer (\<open>tested = False\<close>).
\<close>

definition cursor_item :: "'x ops \<Rightarrow> (txn \<Rightarrow> 'x \<Rightarrow> bytes option \<Rightarrow> (int \<times> txn \<times> 'x \<times> bytes option) option) \<Rightarrow> bool \<Rightarrow>
    txn \<Rightarrow> 'x cursor \<Rightarrow> bytes option \<Rightarrow> bytes option \<Rightarrow> 'x moved" where
  "cursor_item X sub tested txn mc key data =
     do {
       mp \<leftarrow> top_pg mc;
       ki \<leftarrow> top_ki mc;
       if IS_LEAF2 mp then
         (case key of
            None \<Rightarrow> if tested then Some (0, txn, mc, None, data) else None
          | Some _ \<Rightarrow> do {
              db \<leftarrow> mc_db txn mc;
              k \<leftarrow> leaf2_key mp (md_pad db) ki;
              Some (0, txn, mc, Some k, data)
            })
       else if \<not> IS_LEAF mp then None
       else do {
         p \<leftarrow> MP_PTR (mp_body mp) ki;
         fl \<leftarrow> mn_flags (mp_body mp) p;
         (rc, txn, mc, data) \<leftarrow>
           (if node_isset fl F_DUPDATA then do {
              x \<leftarrow> o_init1 X txn mc (mp_body mp) p;
              (rc, txn, x, data) \<leftarrow> sub txn x data;
              Some (rc, txn, mc\<lparr>mc_xcursor := Some x\<rparr>, data)
            }
            else (case data of
                    None \<Rightarrow> Some (0, txn, mc, None)
                  | Some old \<Rightarrow> do {
                      (rc, txn, d) \<leftarrow> mdb_node_read txn mc (mp_body mp) p;
                      Some (rc, txn, mc, if rc = 0 then d else Some old)
                    }));
         if rc \<noteq> 0 then Some (rc, txn, mc, key, data)
         else do { key \<leftarrow> MDB_GET_KEY (mp_body mp) p key; Some (0, txn, mc, key, data) }
       }
     }"

section \<open>First and last\<close>

definition mdb_cursor_first :: "'x ops \<Rightarrow> txn \<Rightarrow> 'x cursor \<Rightarrow> bytes option \<Rightarrow> bytes option \<Rightarrow> 'x moved" where
  "mdb_cursor_first X txn mc key data =
     do {
       let mc = clear_sub X mc;
       (rc, txn, mc) \<leftarrow> (if \<not> has (mc_flags mc) C_INITIALIZED \<or> mc_top mc \<noteq> 0
                        then mdb_page_search X txn mc None MDB_PS_FIRST else Some (0, txn, mc));
       if rc \<noteq> 0 then Some (rc, txn, mc, key, data)
       else do {
         mp \<leftarrow> top_pg mc;
         if \<not> IS_LEAF mp then None
         else do {
           mc \<leftarrow> set_ki (mc\<lparr>mc_flags := (mc_flags mc OR C_INITIALIZED) AND NOT C_EOF\<rparr>) 0;
           cursor_item X (o_first X) True txn mc key data
         }
       }
     }"

definition mdb_cursor_last :: "'x ops \<Rightarrow> txn \<Rightarrow> 'x cursor \<Rightarrow> bytes option \<Rightarrow> bytes option \<Rightarrow> 'x moved" where
  "mdb_cursor_last X txn mc key data =
     do {
       let mc = clear_sub X mc;
       (rc, txn, mc) \<leftarrow> (if \<not> has (mc_flags mc) C_INITIALIZED \<or> mc_top mc \<noteq> 0
                        then mdb_page_search X txn mc None MDB_PS_LAST else Some (0, txn, mc));
       if rc \<noteq> 0 then Some (rc, txn, mc, key, data)
       else do {
         mp \<leftarrow> top_pg mc;
         if \<not> IS_LEAF mp then None
         else do {
           mc \<leftarrow> set_ki mc (last_u16 mp);
           cursor_item X (o_last X) True txn (mc\<lparr>mc_flags := mc_flags mc OR (C_INITIALIZED OR C_EOF)\<rparr>) key data
         }
       }
     }"

section \<open>Next and previous\<close>

text \<open>
  The part of \<^verbatim>\<open>mdb_cursor_next\<close> and \<^verbatim>\<open>mdb_cursor_prev\<close> for databases with sorted duplicates: move within
  the duplicates of the current key if \<open>plain\<close> (\<^verbatim>\<open>MDB_NEXT\<close>, \<^verbatim>\<open>MDB_PREV\<close>) or \<open>dup\<close> (\<^verbatim>\<open>MDB_NEXT_DUP\<close>,
  \<^verbatim>\<open>MDB_PREV_DUP\<close>) asks for it. \<open>Inl\<close> is what the function returns, \<open>Inr\<close> continues.
\<close>

definition move_dup :: "'x ops \<Rightarrow> (txn \<Rightarrow> 'x \<Rightarrow> bytes option \<Rightarrow> (int \<times> txn \<times> 'x \<times> bytes option) option) \<Rightarrow> bool \<Rightarrow> bool \<Rightarrow>
    ('x cursor \<Rightarrow> 'x cursor) \<Rightarrow> txn \<Rightarrow> 'x cursor \<Rightarrow> page \<Rightarrow> nat \<Rightarrow> bytes option \<Rightarrow> bytes option \<Rightarrow>
    ((int \<times> txn \<times> 'x cursor \<times> bytes option \<times> bytes option) + (txn \<times> 'x cursor \<times> bytes option)) option" where
  "move_dup X sub plain dup ok txn mc mp ki key data =
     do {
       p \<leftarrow> MP_PTR (mp_body mp) ki;
       fl \<leftarrow> mn_flags (mp_body mp) p;
       if node_isset fl F_DUPDATA then
         if plain \<or> dup then do {
           x \<leftarrow> mc_xcursor mc;
           (rc, txn, x, data) \<leftarrow> sub txn x data;
           let mc = mc\<lparr>mc_xcursor := Some x\<rparr>;
           if \<not> plain \<or> rc \<noteq> MDB_NOTFOUND then
             if rc = 0 then do { key \<leftarrow> MDB_GET_KEY (mp_body mp) p key; Some (Inl (rc, txn, ok mc, key, data)) }
             else Some (Inl (rc, txn, mc, key, data))
           else Some (Inr (txn, mc, data))
         }
         else Some (Inr (txn, mc, data))
       else do {
         x \<leftarrow> mc_xcursor mc;
         let mc = mc\<lparr>mc_xcursor := Some (o_clear X x)\<rparr>;
         Some (if dup then Inl (MDB_NOTFOUND, txn, mc, key, data) else Inr (txn, mc, data))
       }
     }"

definition mdb_cursor_next :: "'x ops \<Rightarrow> txn \<Rightarrow> 'x cursor \<Rightarrow> bytes option \<Rightarrow> bytes option \<Rightarrow> cursor_op \<Rightarrow> 'x moved" where
  "mdb_cursor_next X txn mc key data opn =
     (if has (mc_flags mc) C_DEL \<and> opn = MDB_NEXT_DUP then Some (MDB_NOTFOUND, txn, mc, key, data)
      else if \<not> has (mc_flags mc) C_INITIALIZED then mdb_cursor_first X txn mc key data
      else do {
        mp \<leftarrow> top_pg mc;
        ki \<leftarrow> top_ki mc;
        if has (mc_flags mc) C_EOF \<and> last_u32 mp \<le> ki then Some (MDB_NOTFOUND, txn, mc, key, data)
        else do {
          let mc = (if has (mc_flags mc) C_EOF then mc\<lparr>mc_flags := mc_flags mc XOR C_EOF\<rparr> else mc);
          db \<leftarrow> mc_db txn mc;
          r \<leftarrow> (if has (md_flags db) MDB_DUPSORT
               then move_dup X (o_next X) (opn = MDB_NEXT) (opn = MDB_NEXT_DUP) (\<lambda>mc. mc) txn mc mp ki key data
               else Some (Inr (txn, mc, data)));
          case r of
            Inl res \<Rightarrow> Some res
          | Inr (txn, mc, data) \<Rightarrow>
              if has (mc_flags mc) C_DEL then
                cursor_item X (o_first X) False txn (mc\<lparr>mc_flags := mc_flags mc XOR C_DEL\<rparr>) key data
              else if NUMKEYS mp \<le> ki + 1 then do {
                (rc, txn, mc) \<leftarrow> mdb_cursor_sibling txn mc True;
                if rc \<noteq> 0 then Some (rc, txn, mc\<lparr>mc_flags := mc_flags mc OR C_EOF\<rparr>, key, data)
                else cursor_item X (o_first X) False txn mc key data
              }
              else do {
                mc \<leftarrow> set_ki mc (ki + 1);
                cursor_item X (o_first X) False txn mc key data
              }
        }
      })"

definition mdb_cursor_prev :: "'x ops \<Rightarrow> txn \<Rightarrow> 'x cursor \<Rightarrow> bytes option \<Rightarrow> bytes option \<Rightarrow> cursor_op \<Rightarrow> 'x moved" where
  "mdb_cursor_prev X txn mc key data opn =
     do {
       (rc, txn, mc, key, data) \<leftarrow>
         (if has (mc_flags mc) C_INITIALIZED then Some (0, txn, mc, key, data)
          else do {
            (rc, txn, mc, key, data) \<leftarrow> mdb_cursor_last X txn mc key data;
            if rc \<noteq> 0 then Some (rc, txn, mc, key, data)
            else do { ki \<leftarrow> top_ki mc; mc \<leftarrow> set_ki mc (ki + 1); Some (0, txn, mc, key, data) }
          });
       if rc \<noteq> 0 then Some (rc, txn, mc, key, data)
       else do {
         mp \<leftarrow> top_pg mc;
         ki \<leftarrow> top_ki mc;
         db \<leftarrow> mc_db txn mc;
         r \<leftarrow> (if has (md_flags db) MDB_DUPSORT \<and> ki < NUMKEYS mp
              then move_dup X (o_prev X) (opn = MDB_PREV) (opn = MDB_PREV_DUP)
                     (\<lambda>mc. mc\<lparr>mc_flags := mc_flags mc AND NOT C_EOF\<rparr>) txn mc mp ki key data
              else Some (Inr (txn, mc, data)));
         case r of
           Inl res \<Rightarrow> Some res
         | Inr (txn, mc, data) \<Rightarrow> do {
             let mc = mc\<lparr>mc_flags := mc_flags mc AND NOT (C_EOF OR C_DEL)\<rparr>;
             (rc, txn, mc) \<leftarrow>
               (if ki = 0 then do {
                  (rc, txn, mc) \<leftarrow> mdb_cursor_sibling txn mc False;
                  if rc \<noteq> 0 then Some (rc, txn, mc)
                  else do { mp \<leftarrow> top_pg mc; mc \<leftarrow> set_ki mc (last_u16 mp); Some (0, txn, mc) }
                }
                else do { mc \<leftarrow> set_ki mc (ki - 1); Some (0, txn, mc) });
             if rc \<noteq> 0 then Some (rc, txn, mc, key, data)
             else do {
               mp \<leftarrow> top_pg mc;
               if \<not> IS_LEAF mp then Some (MDB_CORRUPTED, txn, mc, key, data)
               else cursor_item X (o_last X) False txn mc key data
             }
           }
       }
     }"

section \<open>Positioning at a key\<close>

definition key_at :: "page \<Rightarrow> nat \<Rightarrow> nat \<Rightarrow> bytes option" where
  "key_at mp pad i = (if IS_LEAF2 mp then leaf2_key mp pad i else node_key mp i)"

text \<open>What \<^verbatim>\<open>mdb_cursor_set\<close> does after looking at the page the cursor is on.\<close>

datatype set_next = SetReturn int | Set1 | Set2 | SetSearch

text \<open>\<^verbatim>\<open>for (i=0; i<mc->mc_top; i++) if (mc->mc_ki[i] < NUMKEYS (mc->mc_pg[i]) - 1) break;\<close>: does it break?\<close>

fun right_sibling :: "'x cursor \<Rightarrow> nat \<Rightarrow> bool option" where
  "right_sibling mc 0 = Some False"
| "right_sibling mc (Suc i) =
     do {
       b \<leftarrow> right_sibling mc i;
       if b then Some True
       else do { p \<leftarrow> rd (mc_pg mc) i; mp \<leftarrow> p; k \<leftarrow> rd (mc_ki mc) i; Some (k < last_u32 mp) }
     }"

text \<open>The block under \<^verbatim>\<open>if (mc->mc_flags & C_INITIALIZED)\<close>; \<open>exact\<close> is \<^verbatim>\<open>*exactp\<close>, \<open>None\<close> for a null pointer.\<close>

definition set_on_page :: "txn \<Rightarrow> 'x cursor \<Rightarrow> bytes \<Rightarrow> cursor_op \<Rightarrow> bool option \<Rightarrow> (set_next \<times> 'x cursor \<times> bool option) option" where
  "set_on_page txn mc key opn exact =
     do {
       mp \<leftarrow> top_pg mc;
       if NUMKEYS mp = 0 then do { mc \<leftarrow> set_ki mc 0; Some (SetReturn MDB_NOTFOUND, mc, exact) }
       else do {
         db \<leftarrow> mc_db txn mc;
         dbx \<leftarrow> mc_dbx txn mc;
         cmp \<leftarrow> md_cmp dbx;
         let found = map_option (\<lambda>_. True) exact;
         let nkeys = NUMKEYS mp;
         k0 \<leftarrow> key_at mp (md_pad db) 0;
         rc \<leftarrow> run_cmp cmp key k0;
         if rc = 0 then do { mc \<leftarrow> set_ki mc 0; Some (Set1, mc, found) }
         else do {
           stop \<leftarrow>
             (if 0 < rc then do {
                stop \<leftarrow>
                  (if 1 < nkeys then do {
                     kl \<leftarrow> key_at mp (md_pad db) (nkeys - 1);
                     rc \<leftarrow> run_cmp cmp key kl;
                     if rc = 0 then do { mc \<leftarrow> set_ki mc (nkeys - 1); Some (Some (Set1, mc, found)) }
                     else if rc < 0 then do {
                       ki \<leftarrow> top_ki mc;
                       here \<leftarrow> (if ki < nkeys then do {
                                 kc \<leftarrow> key_at mp (md_pad db) ki;
                                 rc \<leftarrow> run_cmp cmp key kc;
                                 Some (rc = 0)
                               } else Some False);
                       if here then Some (Some (Set1, mc, found))
                       else Some (Some (Set2, mc\<lparr>mc_flags := mc_flags mc AND NOT C_EOF\<rparr>, exact))
                     }
                     else Some None
                   } else Some None);
                case stop of
                  Some s \<Rightarrow> Some (Some s)
                | None \<Rightarrow> do {
                    b \<leftarrow> right_sibling mc (mc_top mc);
                    if b then Some None
                    else do { mc \<leftarrow> set_ki mc nkeys; Some (Some (SetReturn MDB_NOTFOUND, mc, exact)) }
                  }
              } else Some None);
           case stop of
             Some s \<Rightarrow> Some s
           | None \<Rightarrow>
               if mc_top mc = 0 then do {
                 mc \<leftarrow> set_ki mc 0;
                 Some (if opn = MDB_SET_RANGE \<and> exact = None then Set1 else SetReturn MDB_NOTFOUND, mc, exact)
               }
               else Some (SetSearch, mc, exact)
         }
       }
     }"

text \<open>From the label \<^verbatim>\<open>set1\<close> on. The node is the one under the cursor.\<close>

definition set1 :: "'x ops \<Rightarrow> txn \<Rightarrow> 'x cursor \<Rightarrow> bytes \<Rightarrow> bytes option \<Rightarrow> cursor_op \<Rightarrow> 'x moved" where
  "set1 X txn mc key data opn =
     do {
       let mc = mc\<lparr>mc_flags := (mc_flags mc OR C_INITIALIZED) AND NOT C_EOF\<rparr>;
       mp \<leftarrow> top_pg mc;
       ki \<leftarrow> top_ki mc;
       db \<leftarrow> mc_db txn mc;
       dbx \<leftarrow> mc_dbx txn mc;
       if IS_LEAF2 mp then
         if opn = MDB_SET_RANGE \<or> opn = MDB_SET_KEY then do {
           k \<leftarrow> leaf2_key mp (md_pad db) ki;
           Some (0, txn, mc, Some k, data)
         } else Some (0, txn, mc, Some key, data)
       else do {
         p \<leftarrow> MP_PTR (mp_body mp) ki;
         fl \<leftarrow> mn_flags (mp_body mp) p;
         (ret, rc, txn, mc, data) \<leftarrow>
           (if node_isset fl F_DUPDATA then do {
              x \<leftarrow> o_init1 X txn mc (mp_body mp) p;
              if opn = MDB_SET \<or> opn = MDB_SET_KEY \<or> opn = MDB_SET_RANGE then do {
                (rc, txn, x, data) \<leftarrow> o_first X txn x data;
                Some (False, rc, txn, mc\<lparr>mc_xcursor := Some x\<rparr>, data)
              }
              else do {
                (rc, txn, x, data) \<leftarrow> o_set X txn x data (if opn = MDB_GET_BOTH then Some False else None);
                Some (rc \<noteq> 0, rc, txn, mc\<lparr>mc_xcursor := Some x\<rparr>, data)
              }
            }
            else (case data of
              None \<Rightarrow> Some (False, 0, txn, mc, None)
            | Some d \<Rightarrow>
                if opn = MDB_GET_BOTH \<or> opn = MDB_GET_BOTH_RANGE then do {
                  (rc, txn, old) \<leftarrow> mdb_node_read txn mc (mp_body mp) p;
                  if rc \<noteq> 0 then Some (True, rc, txn, mc, data)
                  else do {
                    old \<leftarrow> old;
                    dcmp \<leftarrow> md_dcmp dbx;
                    rc \<leftarrow> run_cmp (if dcmp = Cmp_int \<and> length old = 8 then Cmp_long else dcmp) d old;
                    if rc \<noteq> 0 \<and> (opn = MDB_GET_BOTH \<or> 0 < rc) then Some (True, MDB_NOTFOUND, txn, mc, data)
                    else Some (False, 0, txn, mc, Some old)
                  }
                }
                else do {
                  let mc = clear_sub X mc;
                  (rc, txn, d') \<leftarrow> mdb_node_read txn mc (mp_body mp) p;
                  Some (rc \<noteq> 0, rc, txn, mc, if rc = 0 then d' else data)
                }));
         if ret then Some (rc, txn, mc, Some key, data)
         else do {
           k \<leftarrow> (if opn = MDB_SET_RANGE \<or> opn = MDB_SET_KEY then NODEKEY (mp_body mp) p else Some key);
           Some (rc, txn, mc, Some k, data)
         }
       }
     }"

definition set2 :: "'x ops \<Rightarrow> txn \<Rightarrow> 'x cursor \<Rightarrow> bytes \<Rightarrow> bytes option \<Rightarrow> cursor_op \<Rightarrow> bool option \<Rightarrow> 'x moved" where
  "set2 X txn mc key data opn exact =
     do {
       (r, mc) \<leftarrow> node_search txn mc key;
       if exact \<noteq> None \<and> \<not> sr_exact r then Some (MDB_NOTFOUND, txn, mc, Some key, data)
       else if \<not> sr_found r then do {
         (rc, txn, mc) \<leftarrow> mdb_cursor_sibling txn mc True;
         if rc \<noteq> 0 then Some (rc, txn, mc\<lparr>mc_flags := mc_flags mc OR C_EOF\<rparr>, Some key, data)
         else do {
           mp \<leftarrow> top_pg mc;
           if \<not> IS_LEAF mp then None else set1 X txn mc key data opn
         }
       }
       else set1 X txn mc key data opn
     }"

definition mdb_cursor_set :: "'x ops \<Rightarrow> txn \<Rightarrow> 'x cursor \<Rightarrow> bytes option \<Rightarrow> bytes option \<Rightarrow> cursor_op \<Rightarrow> bool option \<Rightarrow> 'x moved" where
  "mdb_cursor_set X txn mc key data opn exact =
     do {
       k \<leftarrow> key;
       if k = [] then Some (MDB_BAD_VALSIZE, txn, mc, key, data)
       else do {
         let mc = clear_sub X mc;
         (nxt, mc, exact) \<leftarrow>
           (if has (mc_flags mc) C_INITIALIZED then set_on_page txn mc k opn exact
            else do { pg \<leftarrow> wr (mc_pg mc) 0 None; Some (SetSearch, mc\<lparr>mc_pg := pg\<rparr>, exact) });
         case nxt of
           SetReturn rc \<Rightarrow> Some (rc, txn, mc, key, data)
         | Set1 \<Rightarrow> set1 X txn mc k data opn
         | Set2 \<Rightarrow> set2 X txn mc k data opn exact
         | SetSearch \<Rightarrow> do {
             (rc, txn, mc) \<leftarrow> mdb_page_search X txn mc key 0;
             if rc \<noteq> 0 then Some (rc, txn, mc, key, data)
             else do {
               mp \<leftarrow> top_pg mc;
               if \<not> IS_LEAF mp then None else set2 X txn mc k data opn exact
             }
           }
       }
     }"

section \<open>The interface\<close>

text \<open>\<^verbatim>\<open>MDB_GET_CURRENT\<close>\<close>

definition get_current :: "'x ops \<Rightarrow> txn \<Rightarrow> 'x cursor \<Rightarrow> bytes option \<Rightarrow> bytes option \<Rightarrow> 'x moved" where
  "get_current X txn mc key data =
     (if \<not> has (mc_flags mc) C_INITIALIZED then Some (EINVAL, txn, mc, key, data)
      else do {
        mp \<leftarrow> top_pg mc;
        ki \<leftarrow> top_ki mc;
        if NUMKEYS mp \<le> ki then do { mc \<leftarrow> set_ki mc (NUMKEYS mp); Some (MDB_NOTFOUND, txn, mc, key, data) }
        else if IS_LEAF2 mp then do {
          _ \<leftarrow> key;
          db \<leftarrow> mc_db txn mc;
          k \<leftarrow> leaf2_key mp (md_pad db) ki;
          Some (0, txn, mc, Some k, data)
        }
        else do {
          p \<leftarrow> MP_PTR (mp_body mp) ki;
          key \<leftarrow> MDB_GET_KEY (mp_body mp) p key;
          case data of
            None \<Rightarrow> Some (0, txn, mc, key, None)
          | Some old \<Rightarrow> do {
              fl \<leftarrow> mn_flags (mp_body mp) p;
              if node_isset fl F_DUPDATA then do {
                x \<leftarrow> mc_xcursor mc;
                (rc, txn, x, data) \<leftarrow> o_current X txn x data;
                Some (rc, txn, mc\<lparr>mc_xcursor := Some x\<rparr>, key, data)
              }
              else do {
                (rc, txn, d) \<leftarrow> mdb_node_read txn mc (mp_body mp) p;
                Some (rc, txn, mc, key, if rc = 0 then d else data)
              }
            }
        }
      })"

text \<open>The code at the label \<^verbatim>\<open>fetchm\<close>: all items of the sub-cursor's page.\<close>

definition fetchm :: "'x ops \<Rightarrow> txn \<Rightarrow> 'x cursor \<Rightarrow> bytes option \<Rightarrow> 'x moved" where
  "fetchm X txn mc key =
     do {
       x \<leftarrow> mc_xcursor mc;
       (d, x) \<leftarrow> o_fetchm X x;
       Some (0, txn, mc\<lparr>mc_xcursor := Some x\<rparr>, key, Some d)
     }"

text \<open>\<^verbatim>\<open>MDB_GET_MULTIPLE\<close>, \<^verbatim>\<open>MDB_NEXT_MULTIPLE\<close> and \<^verbatim>\<open>MDB_PREV_MULTIPLE\<close>\<close>

definition get_multiple :: "'x ops \<Rightarrow> txn \<Rightarrow> 'x cursor \<Rightarrow> bytes option \<Rightarrow> bytes option \<Rightarrow> 'x moved" where
  "get_multiple X txn mc key data =
     (if data = None \<or> \<not> has (mc_flags mc) C_INITIALIZED then Some (EINVAL, txn, mc, key, data)
      else do {
        db \<leftarrow> mc_db txn mc;
        if \<not> has (md_flags db) MDB_DUPFIXED then Some (MDB_INCOMPATIBLE, txn, mc, key, data)
        else do {
          x \<leftarrow> mc_xcursor mc;
          if \<not> has (o_flags X x) C_INITIALIZED \<or> has (o_flags X x) C_EOF then Some (0, txn, mc, key, data)
          else fetchm X txn mc key
        }
      })"

definition next_multiple :: "'x ops \<Rightarrow> txn \<Rightarrow> 'x cursor \<Rightarrow> bytes option \<Rightarrow> bytes option \<Rightarrow> 'x moved" where
  "next_multiple X txn mc key data =
     (if data = None then Some (EINVAL, txn, mc, key, data)
      else do {
        db \<leftarrow> mc_db txn mc;
        if \<not> has (md_flags db) MDB_DUPFIXED then Some (MDB_INCOMPATIBLE, txn, mc, key, data)
        else do {
          (rc, txn, mc, key, data) \<leftarrow> mdb_cursor_next X txn mc key data MDB_NEXT_DUP;
          if rc \<noteq> 0 then Some (rc, txn, mc, key, data)
          else do {
            x \<leftarrow> mc_xcursor mc;
            if has (o_flags X x) C_INITIALIZED then fetchm X txn mc key
            else Some (MDB_NOTFOUND, txn, mc, key, data)
          }
        }
      })"

definition prev_multiple :: "'x ops \<Rightarrow> txn \<Rightarrow> 'x cursor \<Rightarrow> bytes option \<Rightarrow> bytes option \<Rightarrow> 'x moved" where
  "prev_multiple X txn mc key data =
     (if data = None then Some (EINVAL, txn, mc, key, data)
      else do {
        db \<leftarrow> mc_db txn mc;
        if \<not> has (md_flags db) MDB_DUPFIXED then Some (MDB_INCOMPATIBLE, txn, mc, key, data)
        else do {
          (rc, txn, mc, key, data) \<leftarrow>
            (if \<not> has (mc_flags mc) C_INITIALIZED then mdb_cursor_last X txn mc key data
             else Some (0, txn, mc, key, data));
          if rc \<noteq> 0 then Some (rc, txn, mc, key, data)
          else do {
            x \<leftarrow> mc_xcursor mc;
            if has (o_flags X x) C_INITIALIZED then do {
              (rc, txn, x) \<leftarrow> o_sibling X txn x False;
              let mc = mc\<lparr>mc_xcursor := Some x\<rparr>;
              if rc = 0 then fetchm X txn mc key else Some (rc, txn, mc, key, data)
            }
            else Some (MDB_NOTFOUND, txn, mc, key, data)
          }
        }
      })"

text \<open>The code at the label \<^verbatim>\<open>mmove\<close>: the first or the last duplicate of the current key.\<close>

definition mmove :: "'x ops \<Rightarrow> (txn \<Rightarrow> 'x \<Rightarrow> bytes option \<Rightarrow> (int \<times> txn \<times> 'x \<times> bytes option) option) \<Rightarrow>
    txn \<Rightarrow> 'x cursor \<Rightarrow> bytes option \<Rightarrow> bytes option \<Rightarrow> 'x moved" where
  "mmove X mfunc txn mc key data =
     (if data = None \<or> \<not> has (mc_flags mc) C_INITIALIZED then Some (EINVAL, txn, mc, key, data)
      else case mc_xcursor mc of
        None \<Rightarrow> Some (MDB_INCOMPATIBLE, txn, mc, key, data)
      | Some x \<Rightarrow> do {
          mp \<leftarrow> top_pg mc;
          ki \<leftarrow> top_ki mc;
          if NUMKEYS mp \<le> ki then do { mc \<leftarrow> set_ki mc (NUMKEYS mp); Some (MDB_NOTFOUND, txn, mc, key, data) }
          else do {
            p \<leftarrow> MP_PTR (mp_body mp) ki;
            fl \<leftarrow> mn_flags (mp_body mp) p;
            if \<not> node_isset fl F_DUPDATA then do {
              key \<leftarrow> MDB_GET_KEY (mp_body mp) p key;
              (rc, txn, d) \<leftarrow> mdb_node_read txn mc (mp_body mp) p;
              Some (rc, txn, mc, key, if rc = 0 then d else data)
            }
            else if \<not> has (o_flags X x) C_INITIALIZED then Some (EINVAL, txn, mc, key, data)
            else do {
              (rc, txn, x, data) \<leftarrow> mfunc txn x data;
              Some (rc, txn, mc\<lparr>mc_xcursor := Some x\<rparr>, key, data)
            }
          }
        })"

text \<open>The positioning operations of the switch.\<close>

definition get_set :: "'x ops \<Rightarrow> txn \<Rightarrow> 'x cursor \<Rightarrow> bytes option \<Rightarrow> bytes option \<Rightarrow> cursor_op \<Rightarrow> 'x moved" where
  "get_set X txn mc key data opn =
     (if (opn = MDB_GET_BOTH \<or> opn = MDB_GET_BOTH_RANGE) \<and> data = None then Some (EINVAL, txn, mc, key, data)
      else if (opn = MDB_GET_BOTH \<or> opn = MDB_GET_BOTH_RANGE) \<and> mc_xcursor mc = None then
        Some (MDB_INCOMPATIBLE, txn, mc, key, data)
      else if key = None then Some (EINVAL, txn, mc, key, data)
      else mdb_cursor_set X txn mc key data opn (if opn = MDB_SET_RANGE then None else Some False))"

definition cursor_switch :: "'x ops \<Rightarrow> txn \<Rightarrow> 'x cursor \<Rightarrow> bytes option \<Rightarrow> bytes option \<Rightarrow> cursor_op \<Rightarrow> 'x moved" where
  "cursor_switch X txn mc key data opn =
     (case opn of
        MDB_GET_CURRENT \<Rightarrow> get_current X txn mc key data
      | MDB_GET_BOTH \<Rightarrow> get_set X txn mc key data opn
      | MDB_GET_BOTH_RANGE \<Rightarrow> get_set X txn mc key data opn
      | MDB_SET \<Rightarrow> get_set X txn mc key data opn
      | MDB_SET_KEY \<Rightarrow> get_set X txn mc key data opn
      | MDB_SET_RANGE \<Rightarrow> get_set X txn mc key data opn
      | MDB_GET_MULTIPLE \<Rightarrow> get_multiple X txn mc key data
      | MDB_NEXT_MULTIPLE \<Rightarrow> next_multiple X txn mc key data
      | MDB_PREV_MULTIPLE \<Rightarrow> prev_multiple X txn mc key data
      | MDB_NEXT \<Rightarrow> mdb_cursor_next X txn mc key data opn
      | MDB_NEXT_DUP \<Rightarrow> mdb_cursor_next X txn mc key data opn
      | MDB_NEXT_NODUP \<Rightarrow> mdb_cursor_next X txn mc key data opn
      | MDB_PREV \<Rightarrow> mdb_cursor_prev X txn mc key data opn
      | MDB_PREV_DUP \<Rightarrow> mdb_cursor_prev X txn mc key data opn
      | MDB_PREV_NODUP \<Rightarrow> mdb_cursor_prev X txn mc key data opn
      | MDB_FIRST \<Rightarrow> mdb_cursor_first X txn mc key data
      | MDB_FIRST_DUP \<Rightarrow> mmove X (o_first X) txn mc key data
      | MDB_LAST \<Rightarrow> mdb_cursor_last X txn mc key data
      | MDB_LAST_DUP \<Rightarrow> mmove X (o_last X) txn mc key data)"

definition mdb_cursor_get :: "'x ops \<Rightarrow> txn \<Rightarrow> 'x cursor \<Rightarrow> bytes option \<Rightarrow> bytes option \<Rightarrow> cursor_op \<Rightarrow> 'x moved" where
  "mdb_cursor_get X txn mc key data opn =
     (if has (mt_flags txn) MDB_TXN_BLOCKED then Some (MDB_BAD_TXN, txn, mc, key, data)
      else do {
        (rc, txn, mc, key, data) \<leftarrow> cursor_switch X txn mc key data opn;
        Some (rc, txn, if has (mc_flags mc) C_DEL then mc\<lparr>mc_flags := mc_flags mc XOR C_DEL\<rparr> else mc, key, data)
      })"

text \<open>\<open>mx\<close> is the \<^verbatim>\<open>MDB_xcursor\<close> in the caller's memory.\<close>

definition mdb_get :: "'x ops \<Rightarrow> 'x \<Rightarrow> txn \<Rightarrow> nat \<Rightarrow> bytes option \<Rightarrow> bytes option \<Rightarrow> (int \<times> txn \<times> bytes option) option" where
  "mdb_get X mx txn dbi key data =
     do {
       exist \<leftarrow> (if dbi < mt_numdbs txn then do { f \<leftarrow> rd (mt_dbflags txn) dbi; Some (has f DB_USRVALID) } else Some False);
       if key = None \<or> data = None \<or> \<not> exist then Some (EINVAL, txn, data)
       else if has (mt_flags txn) MDB_TXN_BLOCKED then Some (MDB_BAD_TXN, txn, data)
       else do {
         (txn, mc) \<leftarrow> mdb_cursor_init X txn dbi (Some mx) new_cursor;
         (rc, txn, mc, key, data) \<leftarrow> mdb_cursor_set X txn mc key data MDB_SET (Some False);
         Some (rc, txn, data)
       }
     }"

definition mdb_cursor_renew :: "'x ops \<Rightarrow> txn \<Rightarrow> 'x cursor \<Rightarrow> (int \<times> txn \<times> 'x cursor) option" where
  "mdb_cursor_renew X txn mc =
     do {
       exist \<leftarrow> (if mc_dbi mc < mt_numdbs txn then do { f \<leftarrow> rd (mt_dbflags txn) (mc_dbi mc); Some (has f DB_VALID) } else Some False);
       if \<not> exist then Some (EINVAL, txn, mc)
       else if has (mc_flags mc) C_UNTRACK \<or> mt_cursors txn then Some (EINVAL, txn, mc)
       else if has (mt_flags txn) MDB_TXN_BLOCKED then Some (MDB_BAD_TXN, txn, mc)
       else do { (txn, mc) \<leftarrow> mdb_cursor_init X txn (mc_dbi mc) (mc_xcursor mc) mc; Some (0, txn, mc) }
     }"

definition mdb_cursor_count :: "'x ops \<Rightarrow> txn \<Rightarrow> 'x cursor \<Rightarrow> (int \<times> 'x cursor \<times> nat option) option" where
  "mdb_cursor_count X txn mc =
     (case mc_xcursor mc of
        None \<Rightarrow> Some (MDB_INCOMPATIBLE, mc, None)
      | Some x \<Rightarrow>
          if has (mt_flags txn) MDB_TXN_BLOCKED then Some (MDB_BAD_TXN, mc, None)
          else if \<not> has (mc_flags mc) C_INITIALIZED then Some (EINVAL, mc, None)
          else if mc_snum mc = 0 then Some (MDB_NOTFOUND, mc, None)
          else do {
            mp \<leftarrow> top_pg mc;
            ki \<leftarrow> top_ki mc;
            if has (mc_flags mc) C_EOF \<and> NUMKEYS mp \<le> ki then Some (MDB_NOTFOUND, mc, None)
            else do {
              let mc = (if has (mc_flags mc) C_EOF then mc\<lparr>mc_flags := mc_flags mc XOR C_EOF\<rparr> else mc);
              p \<leftarrow> MP_PTR (mp_body mp) ki;
              fl \<leftarrow> mn_flags (mp_body mp) p;
              if \<not> node_isset fl F_DUPDATA then Some (0, mc, Some 1)
              else if \<not> has (o_flags X x) C_INITIALIZED then Some (EINVAL, mc, None)
              else do { n \<leftarrow> o_entries X x; Some (0, mc, Some n) }
            }
          })"

section \<open>The cursor of the duplicates\<close>

text \<open>A sub-cursor has no sub-cursor: whatever would use one dereferences a null pointer.\<close>

definition no_ops :: "(txn \<Rightarrow> sub_cursor \<Rightarrow> (int \<times> txn \<times> sub_cursor) option) \<Rightarrow> unit ops" where
  "no_ops touch =
     \<lparr>o_touch = touch, o_init0 = (\<lambda>txn mc x. None), o_init1 = (\<lambda>txn mc b p. None), o_clear = (\<lambda>x. x), o_flags = (\<lambda>x. 0),
      o_entries = (\<lambda>x. None), o_first = (\<lambda>txn x k. None), o_last = (\<lambda>txn x k. None), o_next = (\<lambda>txn x k. None),
      o_prev = (\<lambda>txn x k. None), o_current = (\<lambda>txn x k. None), o_set = (\<lambda>txn x k e. None),
      o_sibling = (\<lambda>txn x r. None), o_fetchm = (\<lambda>x. None)\<rparr>"

definition mdb_xcursor_init0 :: "txn \<Rightarrow> main_cursor \<Rightarrow> sub_cursor \<Rightarrow> sub_cursor option" where
  "mdb_xcursor_init0 txn mc x =
     do {
       dbx \<leftarrow> mc_dbx txn mc;
       s \<leftarrow> mc_own x;
       Some (x\<lparr>mc_xcursor := None, mc_dbi := mc_dbi mc,
               mc_own := Some (s\<lparr>mx_dbx := \<lparr>md_name = [], md_cmp = md_dcmp dbx, md_dcmp = None\<rparr>\<rparr>),
               mc_snum := 0, mc_top := 0,
               mc_flags := C_SUB OR (mc_flags mc AND (C_ORIG_RDONLY OR C_WRITEMAP))\<rparr>)
     }"

text \<open>The sub-page that starts at \<open>p\<close> and is \<open>n\<close> bytes long, and its \<^verbatim>\<open>mp_pad\<close>.\<close>

definition sub_page :: "bytes \<Rightarrow> nat \<Rightarrow> nat \<Rightarrow> (page \<times> nat) option" where
  "sub_page b p n =
     (if n < PAGEHDRSZ then None
      else do {
        h \<leftarrow> bytes_at b p n;
        Some (\<lparr>mp_pgno = dec_le (block h 0 8), mp_txnid = dec_le (block h 8 8), mp_flags = of_nat (dec_le (block h 18 2)),
               mp_lower = dec_le (block h 20 2), mp_upper = dec_le (block h 22 2), mp_pages = dec_le (block h 20 4),
               mp_body = drop PAGEHDRSZ h\<rparr>, dec_le (block h 16 2))
      })"

text \<open>\<^verbatim>\<open>NEED_CMP_CLONG\<close>; on hosts where misaligned access is allowed \<^verbatim>\<open>mdb_cmp_clong\<close> is \<^verbatim>\<open>mdb_cmp_long\<close>.\<close>

definition clong_if_needed :: "cmp_func option \<Rightarrow> nat \<Rightarrow> cmp_func option" where
  "clong_if_needed cmp ksize = (if cmp = Some Cmp_int \<and> ksize = 8 then Some Cmp_long else cmp)"

definition mdb_xcursor_init1 :: "txn \<Rightarrow> main_cursor \<Rightarrow> bytes \<Rightarrow> nat \<Rightarrow> sub_cursor option" where
  "mdb_xcursor_init1 txn mc b p =
     do {
       x \<leftarrow> mc_xcursor mc;
       s \<leftarrow> mc_own x;
       db \<leftarrow> mc_db txn mc;
       fl \<leftarrow> mn_flags b p;
       q \<leftarrow> NODEDATA b p;
       n \<leftarrow> NODEDSZ b p;
       let x = x\<lparr>mc_flags := mc_flags x AND (C_SUB OR C_ORIG_RDONLY OR C_WRITEMAP)\<rparr>;
       (x, sdb) \<leftarrow>
         (if has (of_nat fl) F_SUBDATA then do {
            d \<leftarrow> bytes_at b q 48;
            sdb \<leftarrow> dec_db d;
            pg \<leftarrow> wr (mc_pg x) 0 None;
            Some (x\<lparr>mc_pg := pg, mc_snum := 0, mc_top := 0\<rparr>, sdb)
          }
          else do {
            (fp, pad) \<leftarrow> sub_page b q n;
            pg \<leftarrow> wr (mc_pg x) 0 (Some fp);
            ki \<leftarrow> wr (mc_ki x) 0 0;
            let fixed = has (md_flags db) MDB_DUPFIXED;
            Some (x\<lparr>mc_pg := pg, mc_ki := ki, mc_snum := 1, mc_top := 0, mc_flags := mc_flags x OR C_INITIALIZED\<rparr>,
                  \<lparr>md_pad = (if fixed then pad else 0),
                   md_flags = (if fixed then if has (md_flags db) MDB_INTEGERDUP then MDB_DUPFIXED OR MDB_INTEGERKEY
                                             else MDB_DUPFIXED else 0),
                   md_depth = 1, md_branch_pages = 0, md_leaf_pages = 1, md_overflow_pages = 0,
                   md_entries = NUMKEYS fp, md_root = mp_pgno fp\<rparr>)
          });
       let dbx = mx_dbx s;
       Some (x\<lparr>mc_own := Some (s\<lparr>mx_db := sdb, mx_dbflag := DB_VALID OR DB_USRVALID OR DB_DUPDATA,
                                 mx_dbx := dbx\<lparr>md_cmp := clong_if_needed (md_cmp dbx) (md_pad sdb)\<rparr>\<rparr>)\<rparr>)
     }"

definition sub_move :: "unit moved \<Rightarrow> (int \<times> txn \<times> sub_cursor \<times> bytes option) option" where
  "sub_move r = map_option (\<lambda>(rc, txn, x, key, data). (rc, txn, x, key)) r"

text \<open>What a main cursor calls on its sub-cursor: the data argument is the sub-cursor's key.\<close>

definition sub_ops :: "(txn \<Rightarrow> main_cursor \<Rightarrow> (int \<times> txn \<times> main_cursor) option) \<Rightarrow>
    (txn \<Rightarrow> sub_cursor \<Rightarrow> (int \<times> txn \<times> sub_cursor) option) \<Rightarrow> sub_cursor ops" where
  "sub_ops touch subtouch =
     (let N = no_ops subtouch in
      \<lparr>o_touch = touch, o_init0 = mdb_xcursor_init0, o_init1 = mdb_xcursor_init1,
       o_clear = (\<lambda>x. x\<lparr>mc_flags := mc_flags x AND NOT (C_INITIALIZED OR C_EOF)\<rparr>),
       o_flags = mc_flags,
       o_entries = (\<lambda>x. map_option (\<lambda>s. md_entries (mx_db s)) (mc_own x)),
       o_first = (\<lambda>txn x k. sub_move (mdb_cursor_first N txn x k None)),
       o_last = (\<lambda>txn x k. sub_move (mdb_cursor_last N txn x k None)),
       o_next = (\<lambda>txn x k. sub_move (mdb_cursor_next N txn x k None MDB_NEXT)),
       o_prev = (\<lambda>txn x k. sub_move (mdb_cursor_prev N txn x k None MDB_PREV)),
       o_current = (\<lambda>txn x k. sub_move (mdb_cursor_get N txn x k None MDB_GET_CURRENT)),
       o_set = (\<lambda>txn x k e. sub_move (mdb_cursor_set N txn x k None MDB_SET_RANGE e)),
       o_sibling = (\<lambda>txn x r. mdb_cursor_sibling txn x r),
       o_fetchm = (\<lambda>x. do {
         s \<leftarrow> mc_own x;
         mp \<leftarrow> top_pg x;
         d \<leftarrow> bytes_at (mp_body mp) 0 (NUMKEYS mp * md_pad (mx_db s));
         x \<leftarrow> set_ki x (last_u16 mp);
         Some (d, x)
       })\<rparr>)"

end
