(* ===== verification/Lmdb_Tree.thy ===== *)
theory Lmdb_Tree
  imports Lmdb_Moves
begin

text \<open>
  The tree behind a database and the positions of a cursor in it. A page is found by its number
  through \<open>page_view\<close>; \<open>bt_ok\<close> says that the pages reachable from a root form a tree of the given
  height whose inner pages have at least two entries and whose leaf pages have at least one. A
  position is the list of the indices from the root to an entry. The neighbour of a position is
  described twice: from the bottom of the path (\<open>sib\<close>), the way \<^verbatim>\<open>mdb_cursor_sibling\<close> works, and by its
  rank in the sequence of all entries.
\<close>

unbundle bit_operations_syntax

section \<open>Flags\<close>

lemma has_1: "has (w :: 32 word) 1 = bit w 0"
  using and_exp_eq_0_iff_not_bit [of w 0] by simp

lemma has_2: "has (w :: 32 word) 2 = bit w 1"
  using and_exp_eq_0_iff_not_bit [of w 1] by simp

lemma has_4: "has (w :: 32 word) 4 = bit w 2"
  using and_exp_eq_0_iff_not_bit [of w 2] by simp

lemma has_8: "has (w :: 32 word) 8 = bit w 3"
  using and_exp_eq_0_iff_not_bit [of w 3] by simp

lemma has_or: "has (w :: 'a::len word) (a OR b) = (has w a \<or> has w b)"
  by (simp add: bit.conj_disj_distrib) (metis or_eq_0_iff)

lemma has_RDONLY: "has w C_ORIG_RDONLY = bit w 17"
  using and_exp_eq_0_iff_not_bit [of w 17] by (simp add: C_ORIG_RDONLY_def)

lemma has_WRITEMAP: "has w C_WRITEMAP = bit w 19"
  using and_exp_eq_0_iff_not_bit [of w 19] by (simp add: C_WRITEMAP_def)

lemmas flag_bits = has_or has_RDONLY has_WRITEMAP has_1 has_2 has_4 has_8 C_INITIALIZED_def C_EOF_def C_DEL_def
  bit_or_iff bit_and_iff bit_xor_iff bit_not_iff

definition on_map :: "'x cursor \<Rightarrow> bool" where
  "on_map mc = has (mc_flags mc) (C_ORIG_RDONLY OR C_WRITEMAP)"

section \<open>Pages by number\<close>

definition page_view :: "txn \<Rightarrow> bool \<Rightarrow> nat \<Rightarrow> page option" where
  "page_view txn b pgno =
     (case (if \<not> (b \<and> tl (mt_chain txn) = []) then find_source (mt_chain txn) pgno else Some Unlisted) of
        None \<Rightarrow> None
      | Some (Dirty p) \<Rightarrow> Some p
      | Some Mapped \<Rightarrow> me_map txn pgno
      | Some Unlisted \<Rightarrow> if mt_next_pgno txn \<le> pgno then None else me_map txn pgno)"

lemma page_get_view:
  assumes "page_view txn (on_map mc) pgno = Some p"
  shows "mdb_page_get txn mc pgno = Some (txn, Inr p)"
  using assms unfolding page_view_def mdb_page_get_def on_map_def
  by (auto split: option.split_asm page_source.split_asm if_split_asm)

section \<open>Nodes of a page\<close>

lemma chunk_at:
  assumes "page_rep mp cs" "i < length cs"
  shows "MP_PTR (mp_body mp) i = Some (ptr (mp_body mp) i)"
    "ptr (mp_body mp) i + length (cs ! i) \<le> length (mp_body mp)"
    "length (cs ! i) = raw_sz (IS_LEAF mp) (cs ! i)"
    "\<And>q m. q + m \<le> length (cs ! i) \<Longrightarrow> block (mp_body mp) (ptr (mp_body mp) i + q) m = block (cs ! i) q m"
proof -
  let ?b = "mp_body mp" and ?c = "cs ! i" and ?p = "ptr (mp_body mp) i"
  note R = assms(1) [unfolded page_rep_def]
  have "zip (ptrs ?b (length cs)) cs ! i = (?p, ?c)" using assms(2) by simp
  then have "(?p, ?c) \<in> set (zip (ptrs ?b (length cs)) cs)" using assms(2) by (metis length_ptrs length_zip min.idem nth_mem)
  then have "placed (IS_LEAF mp) ?b (mp_upper mp) (?p, ?c)" using R by (auto simp: lay_def)
  then have c: "?p + length ?c \<le> length ?b" "length ?c = raw_sz (IS_LEAF mp) ?c"
    and e: "block ?b ?p (length ?c) = ?c"
    unfolding placed_def by auto
  show "block ?b (?p + q) m = block ?c q m" if "q + m \<le> length ?c" for q m
    using block_block [OF that c(1)] e by simp
  show "?p + length ?c \<le> length ?b" "length ?c = raw_sz (IS_LEAF mp) ?c" by (rule c)+
  show "MP_PTR ?b i = Some ?p" using R assms(2) by (simp add: MP_PTR_def ptr_def)
qed

lemma chunk_header:
  assumes "page_rep mp cs" "i < length cs"
  shows "8 + EVEN (c_ksize (cs ! i)) \<le> length (cs ! i)"
    "mn_flags (mp_body mp) (ptr (mp_body mp) i) = Some (c_flags (cs ! i))"
    "mn_ksize (mp_body mp) (ptr (mp_body mp) i) = Some (c_ksize (cs ! i))"
    "NODEDSZ (mp_body mp) (ptr (mp_body mp) i) = Some (c_dsz (cs ! i))"
    "NODEKEY (mp_body mp) (ptr (mp_body mp) i) = Some (c_key (cs ! i))"
    "child_pgno mp i = Some (c_pgno (cs ! i))"
proof -
  let ?b = "mp_body mp" and ?c = "cs ! i" and ?p = "ptr (mp_body mp) i"
  note C = chunk_at [OF assms]
  show ge: "8 + EVEN (c_ksize ?c) \<le> length ?c" using C(3) by (simp add: raw_sz_def NODESIZE_def)
  then have ge': "8 + c_ksize ?c \<le> length ?c" using EVEN_ge(1) [of "c_ksize ?c"] by simp
  show fl: "mn_flags ?b ?p = Some (c_flags ?c)" using C(4) [of 4 2] ge C(2) by (simp add: mn_flags_def c_flags_def)
  show ks: "mn_ksize ?b ?p = Some (c_ksize ?c)" using C(4) [of 6 2] ge C(2) by (simp add: mn_ksize_def c_ksize_def)
  show ds: "NODEDSZ ?b ?p = Some (c_dsz ?c)"
    using C(4) [of 0 2] C(4) [of 2 2] ge C(2) by (simp add: NODEDSZ_def c_dsz_def)
  show "NODEKEY ?b ?p = Some (c_key ?c)"
    using ks C(4) [of 8 "c_ksize ?c"] ge' C(2) by (simp add: NODEKEY_def c_key_def NODESIZE_def)
  show "child_pgno mp i = Some (c_pgno ?c)"
    using C(1) fl C(4) [of 0 2] C(4) [of 2 2] ge C(2)
    by (simp add: child_pgno_def NODEPGNO_def c_pgno_def c_dsz_def)
qed

text \<open>The value of a leaf entry, which may lie on an overflow page.\<close>

definition item_value :: "(nat \<Rightarrow> page option) \<Rightarrow> bytes \<Rightarrow> bytes option" where
  "item_value view c =
     (if c_big c then do { omp \<leftarrow> view (dec_le (block (c_data c) 0 8)); bytes_at (mp_body omp) 0 (c_dsz c) }
      else Some (c_data c))"

lemma node_read_value:
  assumes rep: "page_rep mp cs" and i: "i < length cs" and leaf: "IS_LEAF mp"
    and v: "item_value (page_view txn (on_map mc)) (cs ! i) = Some v"
  shows "mdb_node_read txn mc (mp_body mp) (ptr (mp_body mp) i) = Some (0, txn, Some v)"
proof -
  let ?b = "mp_body mp" and ?c = "cs ! i" and ?p = "ptr (mp_body mp) i"
  note C = chunk_at [OF rep i] and H = chunk_header [OF rep i]
  let ?q = "?p + NODESIZE + EVEN (c_ksize ?c)"
  have q: "NODEDATA ?b ?p = Some ?q" using H(3) by (simp add: NODEDATA_def)
  have big: "node_isset (c_flags ?c) F_BIGDATA = c_big ?c" by (simp add: node_isset_def c_big_def)
  have sz: "NODESIZE + EVEN (c_ksize ?c) + c_dlen ?c \<le> length ?c"
    using C(3) leaf EVEN_ge(1) [of "c_dsz ?c"] by (auto simp: raw_sz_def c_dlen_def)
  have d: "bytes_at ?b ?q (c_dlen ?c) = Some (c_data ?c)"
    using C(2) sz C(4) [OF sz] by (simp add: bytes_at_def c_data_def add.assoc)
  show ?thesis
  proof (cases "c_big ?c")
    case False
    then show ?thesis using v q d H(2,4) big by (simp add: mdb_node_read_def item_value_def c_dlen_def)
  next
    case True
    then obtain omp where o: "page_view txn (on_map mc) (dec_le (block (c_data ?c) 0 8)) = Some omp"
      "bytes_at (mp_body omp) 0 (c_dsz ?c) = Some v"
      using v by (auto simp: item_value_def bind_eq_Some_conv)
    show ?thesis
      using True q d H(2,4) big o(2) page_get_view [OF o(1)] by (simp add: mdb_node_read_def c_dlen_def)
  qed
qed

section \<open>Trees\<close>

datatype bt = Lf page "bytes list" | Br page "bytes list" "bt list"

fun bt_page :: "bt \<Rightarrow> page" where
  "bt_page (Lf mp cs) = mp"
| "bt_page (Br mp cs ts) = mp"

fun bt_chunks :: "bt \<Rightarrow> bytes list" where
  "bt_chunks (Lf mp cs) = cs"
| "bt_chunks (Br mp cs ts) = cs"

fun entries :: "bt \<Rightarrow> bytes list" where
  "entries (Lf mp cs) = cs"
| "entries (Br mp cs ts) = concat (map entries ts)"

abbreviation width :: "bt \<Rightarrow> nat" where "width t \<equiv> length (bt_chunks t)"

fun bt_ok :: "(nat \<Rightarrow> page option) \<Rightarrow> nat \<Rightarrow> bt \<Rightarrow> bool" where
  "bt_ok view h (Lf mp cs) \<longleftrightarrow>
     h = 0 \<and> page_rep mp cs \<and> IS_LEAF mp \<and> \<not> IS_BRANCH mp \<and> \<not> IS_LEAF2 mp \<and> cs \<noteq> [] \<and>
     (\<forall>c\<in>set cs. \<not> node_isset (c_flags c) F_DUPDATA \<and> item_value view c \<noteq> None)"
| "bt_ok view h (Br mp cs ts) \<longleftrightarrow>
     0 < h \<and> page_rep mp cs \<and> IS_BRANCH mp \<and> \<not> IS_LEAF mp \<and> \<not> IS_LEAF2 mp \<and> 2 \<le> length cs \<and> length ts = length cs \<and>
     (\<forall>i<length cs. view (c_pgno (cs ! i)) = Some (bt_page (ts ! i))) \<and> (\<forall>t\<in>set ts. bt_ok view (h - 1) t)"

lemma bt_ok_rep: "bt_ok view h t \<Longrightarrow> page_rep (bt_page t) (bt_chunks t)"
  by (cases t) auto

lemma bt_ok_width: "bt_ok view h t \<Longrightarrow> 0 < width t"
  by (cases t) auto

lemma bt_ok_numkeys: "bt_ok view h t \<Longrightarrow> NUMKEYS (bt_page t) = width t"
  by (rule NUMKEYS_rep [OF bt_ok_rep])

lemma bt_ok_small: "bt_ok view h t \<Longrightarrow> width t < 2 ^ 15"
  using bt_ok_rep [of view h t] by (auto simp: page_rep_def)

lemma bt_ok_kind: "bt_ok view h t \<Longrightarrow> IS_BRANCH (bt_page t) = (0 < h) \<and> IS_LEAF (bt_page t) = (h = 0)"
  by (cases t) auto

lemma bt_last:
  assumes "bt_ok view h t"
  shows "last_u16 (bt_page t) = width t - 1" "last_u32 (bt_page t) = width t - 1"
proof -
  have n: "0 < width t" "width t < 2 ^ 15" using bt_ok_width [OF assms] bt_ok_small [OF assms] by auto
  then have "(width t + (2 ^ 16 - 1)) mod 2 ^ 16 = width t - 1" "(width t + (2 ^ 32 - 1)) mod 2 ^ 32 = width t - 1"
    by (auto simp: mod_if)
  then show "last_u16 (bt_page t) = width t - 1" "last_u32 (bt_page t) = width t - 1"
    unfolding last_u16_def last_u32_def u16_def u32_def bt_ok_numkeys [OF assms] by blast+
qed

section \<open>Positions\<close>

fun child :: "bt \<Rightarrow> nat \<Rightarrow> bt" where
  "child (Br mp cs ts) i = ts ! i"
| "child (Lf mp cs) i = Lf mp cs"

fun below :: "bt \<Rightarrow> nat list \<Rightarrow> bt" where
  "below t [] = t"
| "below t (i # p) = below (child t i) p"

fun pages :: "bt \<Rightarrow> nat list \<Rightarrow> page list" where
  "pages t [] = []"
| "pages t (i # p) = bt_page t # pages (child t i) p"

text \<open>Every index selects an entry.\<close>

fun path_ok :: "bt \<Rightarrow> nat list \<Rightarrow> bool" where
  "path_ok t [] = True"
| "path_ok t (i # p) = (i < width t \<and> path_ok (child t i) p)"

text \<open>The number of entries before a position.\<close>

fun before :: "bt \<Rightarrow> nat \<Rightarrow> nat" where
  "before (Lf mp cs) i = i"
| "before (Br mp cs ts) i = length (concat (map entries (take i ts)))"

fun rank :: "bt \<Rightarrow> nat list \<Rightarrow> nat" where
  "rank t [] = 0"
| "rank t (i # p) = before t i + rank (child t i) p"

lemma below_append [simp]: "below t (p @ q) = below (below t p) q"
  by (induction t p rule: below.induct) auto

lemma length_pages [simp]: "length (pages t p) = length p"
  by (induction t p rule: pages.induct) auto

lemma pages_snoc [simp]: "pages t (p @ [i]) = pages t p @ [bt_page (below t p)]"
  by (induction t p rule: pages.induct) auto

lemma path_ok_append [simp]: "path_ok t (p @ q) = (path_ok t p \<and> path_ok (below t p) q)"
  by (induction t p rule: path_ok.induct) auto

lemma child_ok: "bt_ok view h t \<Longrightarrow> 0 < h \<Longrightarrow> i < width t \<Longrightarrow> bt_ok view (h - 1) (child t i)"
  by (cases t) auto

lemma below_ok: "bt_ok view h t \<Longrightarrow> path_ok t p \<Longrightarrow> length p \<le> h \<Longrightarrow> bt_ok view (h - length p) (below t p)"
proof (induction t p arbitrary: h rule: below.induct)
  case (2 t i p)
  have "bt_ok view (h - 1) (child t i)" using 2 by (intro child_ok) auto
  then have "bt_ok view (h - 1 - length p) (below (child t i) p)" using 2 by (intro "2.IH") auto
  then show ?case by simp
qed simp

lemma child_view: "bt_ok view h t \<Longrightarrow> 0 < h \<Longrightarrow> i < width t \<Longrightarrow> view (c_pgno (bt_chunks t ! i)) = Some (bt_page (child t i))"
  by (cases t) auto

section \<open>Neighbours\<close>

text \<open>One step to the right (\<open>r\<close>) or to the left among \<open>n\<close> indices, and the index at which a page is entered.\<close>

definition step_ix :: "bool \<Rightarrow> nat \<Rightarrow> nat \<Rightarrow> nat option" where
  "step_ix r n i = (if r then if i + 1 < n then Some (i + 1) else None else if i = 0 then None else Some (i - 1))"

definition edge_ix :: "bool \<Rightarrow> bt \<Rightarrow> nat" where
  "edge_ix r t = (if r then 0 else width t - 1)"

text \<open>The outermost path of a given length.\<close>

fun edge :: "bool \<Rightarrow> bt \<Rightarrow> nat \<Rightarrow> nat list" where
  "edge r t 0 = []"
| "edge r t (Suc d) = edge_ix r t # edge r (child t (edge_ix r t)) d"

text \<open>The path of the same length to the neighbouring page, entered at its edge.\<close>

fun sib :: "bool \<Rightarrow> bt \<Rightarrow> nat list \<Rightarrow> nat list option" where
  "sib r t [] = None"
| "sib r t [i] = None"
| "sib r t (i # j # p) =
     (case sib r (child t i) (j # p) of
        Some q \<Rightarrow> Some (i # q)
      | None \<Rightarrow> map_option (\<lambda>i. i # edge r (child t i) (Suc (length p))) (step_ix r (width t) i))"

text \<open>The neighbouring entry.\<close>

fun nbr :: "bool \<Rightarrow> bt \<Rightarrow> nat list \<Rightarrow> nat list option" where
  "nbr r t [] = None"
| "nbr r t (i # p) =
     (case nbr r (child t i) p of
        Some q \<Rightarrow> Some (i # q)
      | None \<Rightarrow> map_option (\<lambda>i. i # edge r (child t i) (length p)) (step_ix r (width t) i))"

lemma length_edge [simp]: "length (edge r t d) = d"
  by (induction r t d rule: edge.induct) auto

lemma edge_snoc: "edge r t (Suc d) = edge r t d @ [edge_ix r (below t (edge r t d))]"
proof (induction d arbitrary: t)
  case (Suc d)
  let ?c = "child t (edge_ix r t)"
  have "edge r t (Suc (Suc d)) = edge_ix r t # edge r ?c d @ [edge_ix r (below ?c (edge r ?c d))]"
    using Suc.IH [of ?c] by simp
  then show ?case by simp
qed simp

lemma sib_snoc:
  "sib r t (p @ [i, j]) =
     (case step_ix r (width (below t p)) i of
        Some k \<Rightarrow> Some (p @ [k, edge_ix r (below t (p @ [k]))])
      | None \<Rightarrow> map_option (\<lambda>q. q @ [edge_ix r (below t q)]) (sib r t (p @ [i])))"
proof (induction p arbitrary: t)
  case Nil
  then show ?case by (simp split: option.split)
next
  case (Cons a p)
  obtain b q where q: "p @ [i] = b # q" "p @ [i, j] = b # q @ [j]" by (cases p) auto
  have len: "length p = length q" using q(1) by (metis length_Cons length_append_singleton nat.inject)
  have "edge r (child t k) (Suc (Suc (length p))) =
      edge r (child t k) (Suc (length p)) @ [edge_ix r (below (child t k) (edge r (child t k) (Suc (length p))))]" for k
    by (rule edge_snoc)
  then show ?case
    using Cons.IH [of "child t a"] len unfolding append_Cons q sib.simps
    by (simp add: option.map_comp comp_def split: option.split del: edge.simps)
qed

lemma nbr_snoc:
  "nbr r t (p @ [i]) =
     (case step_ix r (width (below t p)) i of Some k \<Rightarrow> Some (p @ [k]) | None \<Rightarrow> sib r t (p @ [i]))"
proof (induction p arbitrary: t)
  case Nil
  then show ?case by (simp split: option.split)
next
  case (Cons a p)
  obtain b q where q: "p @ [i] = b # q" by (cases p) auto
  have "length p = length q" using q by (metis length_Cons length_append_singleton nat.inject)
  then show ?case
    using Cons.IH [of "child t a"] unfolding append_Cons q by (simp split: option.split)
qed

lemma step_ix_less: "step_ix r n i = Some k \<Longrightarrow> i < n \<Longrightarrow> k < n"
  by (auto simp: step_ix_def split: if_split_asm)

lemma edge_ok: "bt_ok view h t \<Longrightarrow> d \<le> Suc h \<Longrightarrow> path_ok t (edge r t d)"
proof (induction d arbitrary: t h)
  case (Suc d)
  have i: "edge_ix r t < width t" using bt_ok_width [OF Suc.prems(1)] by (simp add: edge_ix_def)
  show ?case
  proof (cases d)
    case (Suc d')
    then have "bt_ok view (h - 1) (child t (edge_ix r t))" using Suc.prems i by (intro child_ok) auto
    then show ?thesis using Suc.IH [of "h - 1"] Suc.prems i Suc by auto
  qed (use i in simp)
qed simp

lemma nbr_ok:
  "bt_ok view h t \<Longrightarrow> path_ok t p \<Longrightarrow> length p \<le> Suc h \<Longrightarrow> nbr r t p = Some q \<Longrightarrow> path_ok t q \<and> length q = length p"
proof (induction p arbitrary: t h q)
  case (Cons i p)
  have c: "bt_ok view (h - 1) (child t k)" if "p \<noteq> []" "k < width t" for k
    using Cons.prems(1,3) that by (intro child_ok) (auto simp: neq_Nil_conv)
  show ?case
  proof (cases "nbr r (child t i) p")
    case None
    then obtain k where k: "step_ix r (width t) i = Some k" "q = k # edge r (child t k) (length p)"
      using Cons.prems(4) by auto
    have "k < width t" using step_ix_less [OF k(1)] Cons.prems(2) by simp
    then show ?thesis
      using k(2) c [of k] edge_ok [of view "h - 1" "child t k" "length p" r] Cons.prems(3) by (cases p) auto
  next
    case (Some q')
    then have "p \<noteq> []" by auto
    then show ?thesis
      using Some Cons.prems c [of i] Cons.IH [of "h - 1" "child t i" q'] by auto
  qed
qed simp

section \<open>Ranks\<close>

lemma entries_pos: "bt_ok view h t \<Longrightarrow> 0 < length (entries t)"
proof (induction t arbitrary: h)
  case (Br mp cs ts)
  then have "ts \<noteq> []" by auto
  then have "hd ts \<in> set ts" by simp
  then have "0 < length (entries (hd ts))" using Br by auto
  then show ?case using \<open>ts \<noteq> []\<close> by (cases ts) auto
qed simp

lemma before_Suc: "bt_ok view h t \<Longrightarrow> 0 < h \<Longrightarrow> i < width t \<Longrightarrow> before t (Suc i) = before t i + length (entries (child t i))"
  by (cases t) (auto simp: take_Suc_conv_app_nth)

lemma before_width: "bt_ok view h t \<Longrightarrow> before t (width t) = length (entries t)"
  by (cases t) auto

lemma before_0 [simp]: "before t 0 = 0"
  by (cases t) auto

lemma rank_edge:
  "bt_ok view h t \<Longrightarrow> d = Suc h \<Longrightarrow> rank t (edge r t d) = (if r then 0 else length (entries t) - 1)"
proof (induction d arbitrary: t h)
  case (Suc d)
  have w: "0 < width t" using bt_ok_width [OF Suc.prems(1)] .
  show ?case
  proof (cases h)
    case 0
    then show ?thesis using Suc.prems by (cases t) (auto simp: edge_ix_def)
  next
    case (Suc h')
    let ?i = "edge_ix r t"
    have i: "?i < width t" using w by (simp add: edge_ix_def)
    have c: "bt_ok view h' (child t ?i)" using child_ok [OF Suc.prems(1) _ i] Suc by simp
    have e: "0 < length (entries (child t ?i))" by (rule entries_pos [OF c])
    have "before t (Suc ?i) = before t ?i + length (entries (child t ?i))"
      using before_Suc [OF Suc.prems(1) _ i] Suc by simp
    moreover have "\<not> r \<Longrightarrow> before t (Suc ?i) = length (entries t)"
      using before_width [OF Suc.prems(1)] w by (simp add: edge_ix_def)
    moreover have "r \<Longrightarrow> before t ?i = 0" by (simp add: edge_ix_def)
    moreover have "rank (child t ?i) (edge r (child t ?i) d) = (if r then 0 else length (entries (child t ?i)) - 1)"
      using Suc.IH [OF c] Suc.prems(2) Suc by simp
    ultimately have "before t ?i + rank (child t ?i) (edge r (child t ?i) d) = (if r then 0 else length (entries t) - 1)"
      using e by (cases r) (simp_all, metis (no_types, lifting) Nat.add_diff_assoc One_nat_def Suc_leI length_greater_0_conv)
    then show ?thesis by simp
  qed
qed simp

text \<open>The neighbour is the next or the previous entry, and there is none only at the end.\<close>

lemma nbr_rank:
  "bt_ok view h t \<Longrightarrow> path_ok t p \<Longrightarrow> length p = Suc h \<Longrightarrow>
   case nbr r t p of
     Some q \<Rightarrow> if r then rank t q = rank t p + 1 else rank t q + 1 = rank t p
   | None \<Rightarrow> if r then rank t p + 1 = length (entries t) else rank t p = 0"
proof (induction p arbitrary: t h)
  case (Cons i p)
  have i: "i < width t" using Cons.prems(2) by simp
  show ?case
  proof (cases h)
    case 0
    then obtain mp cs where t: "t = Lf mp cs" using Cons.prems(1) by (cases t) auto
    show ?thesis using 0 Cons.prems by (auto simp: t step_ix_def)
  next
    case (Suc h')
    have ok: "bt_ok view h' (child t k)" if "k < width t" for k using child_ok [OF Cons.prems(1) _ that] Suc by simp
    have bs: "before t (Suc k) = before t k + length (entries (child t k))" if "k < width t" for k
      using before_Suc [OF Cons.prems(1) _ that] Suc by simp
    have IH: "case nbr r (child t i) p of
        Some q \<Rightarrow> if r then rank (child t i) q = rank (child t i) p + 1 else rank (child t i) q + 1 = rank (child t i) p
      | None \<Rightarrow> if r then rank (child t i) p + 1 = length (entries (child t i)) else rank (child t i) p = 0"
      using Cons.IH [OF ok [OF i]] Cons.prems Suc by simp
    show ?thesis
    proof (cases "nbr r (child t i) p")
      case (Some q)
      then show ?thesis using IH by auto
    next
      case None
      show ?thesis
      proof (cases "step_ix r (width t) i")
        case N: None
        have "r \<Longrightarrow> Suc i = width t" using N i by (auto simp: step_ix_def split: if_split_asm)
        moreover have "\<not> r \<Longrightarrow> i = 0" using N by (auto simp: step_ix_def split: if_split_asm)
        ultimately show ?thesis
          using None N IH bs [OF i] before_width [OF Cons.prems(1)] by auto
      next
        case (Some k)
        have k: "k < width t" by (rule step_ix_less [OF Some i])
        have e: "rank (child t k) (edge r (child t k) (length p)) = (if r then 0 else length (entries (child t k)) - 1)"
          by (rule rank_edge [OF ok [OF k]]) (use Cons.prems(3) Suc in simp)
        have kr: "k = Suc i" if r using Some that by (auto simp: step_ix_def split: if_split_asm)
        have kl: "i = Suc k" if "\<not> r" using Some that by (auto simp: step_ix_def split: if_split_asm)
        show ?thesis
          using None Some IH e bs [OF i] bs [OF k] kr kl entries_pos [OF ok [OF k]] by (cases r) auto
      qed
    qed
  qed
qed simp

lemma rank_entry:
  "bt_ok view h t \<Longrightarrow> path_ok t (p @ [i]) \<Longrightarrow> length p = h \<Longrightarrow>
   rank t (p @ [i]) < length (entries t) \<and> entries t ! rank t (p @ [i]) = bt_chunks (below t p) ! i"
proof (induction p arbitrary: t h)
  case Nil
  then show ?case by (cases t) auto
next
  case (Cons a p)
  obtain mp cs ts where t: "t = Br mp cs ts" using Cons.prems by (cases t) auto
  have a: "a < length ts" "bt_ok view (h - 1) (ts ! a)" using Cons.prems(1,2) by (auto simp: t)
  have IH: "rank (ts ! a) (p @ [i]) < length (entries (ts ! a))"
    "entries (ts ! a) ! rank (ts ! a) (p @ [i]) = bt_chunks (below (ts ! a) p) ! i"
    using Cons.IH [OF a(2)] Cons.prems(2,3) by (auto simp: t)
  have s: "concat (map entries ts) =
      concat (map entries (take a ts)) @ entries (ts ! a) @ concat (map entries (drop (Suc a) ts))"
    using id_take_nth_drop [OF a(1)] by (metis concat.simps(2) concat_append list.simps(9) map_append)
  show ?case using IH by (simp add: t s nth_append)
qed

end
