(* ===== verification/Lmdb_Walk.thy ===== *)
theory Lmdb_Walk
  imports Lmdb_Tree
begin

text \<open>
  The moves of \<open>Lmdb_Moves\<close> on a tree of \<open>Lmdb_Tree\<close>: a cursor whose stack is the path to an entry goes
  to the path of the neighbouring entry, and the search for the first or last entry ends on
  the outermost path.
\<close>

unbundle bit_operations_syntax

section \<open>The stack as a path\<close>

definition on_path :: "'x cursor \<Rightarrow> bt \<Rightarrow> nat list \<Rightarrow> bool" where
  "on_path mc t p \<longleftrightarrow>
     length (mc_pg mc) = CURSOR_STACK \<and> length (mc_ki mc) = CURSOR_STACK \<and> p \<noteq> [] \<and> length p \<le> CURSOR_STACK \<and>
     mc_snum mc = length p \<and> mc_top mc = length p - 1 \<and>
     take (length p) (mc_pg mc) = map Some (pages t p) \<and> take (length p) (mc_ki mc) = p"

text \<open>Two cursors that differ in their stacks only.\<close>

definition keeps :: "'x cursor \<Rightarrow> 'x cursor \<Rightarrow> bool" where
  "keeps mc mc' \<longleftrightarrow> mc_flags mc' = mc_flags mc \<and> mc_dbi mc' = mc_dbi mc \<and> mc_own mc' = mc_own mc \<and> mc_xcursor mc' = mc_xcursor mc"

lemma keeps_refl [simp]: "keeps mc mc"
  by (simp add: keeps_def)

lemma keeps_trans: "keeps a b \<Longrightarrow> keeps b c \<Longrightarrow> keeps a c"
  by (simp add: keeps_def)

lemma keeps_on_map: "keeps mc mc' \<Longrightarrow> on_map mc' = on_map mc"
  by (simp add: keeps_def on_map_def)

lemma keeps_db: "keeps mc mc' \<Longrightarrow> mc_db txn mc' = mc_db txn mc" "keeps mc mc' \<Longrightarrow> mc_dbx txn mc' = mc_dbx txn mc"
  by (auto simp: keeps_def mc_db_def mc_dbx_def split: option.split)

lemma take_snocD:
  assumes "take (Suc n) xs = ys @ [y]" "length ys = n" "n < length xs"
  shows "take n xs = ys" "xs ! n = y"
  using assms by (simp_all add: take_Suc_conv_app_nth)

lemma on_path_top:
  assumes "on_path mc t (p @ [i])"
  shows "top_pg mc = Some (bt_page (below t p))" "top_ki mc = Some i"
proof -
  note O = assms [unfolded on_path_def]
  have n: "length p < CURSOR_STACK" using O by simp
  have "mc_pg mc ! length p = Some (bt_page (below t p))" "mc_ki mc ! length p = i"
    using take_snocD(2) [of "length p" "mc_pg mc" "map Some (pages t p)" "Some (bt_page (below t p))"]
      take_snocD(2) [of "length p" "mc_ki mc" p i] O n by auto
  then show "top_pg mc = Some (bt_page (below t p))" "top_ki mc = Some i"
    using O n by (simp_all add: top_pg_def top_ki_def)
qed

lemma on_path_set_ki:
  assumes "on_path mc t (p @ [i])" "k < 2 ^ 16"
  shows "\<exists>mc'. set_ki mc k = Some mc' \<and> on_path mc' t (p @ [k]) \<and> keeps mc mc'"
proof -
  note O = assms(1) [unfolded on_path_def]
  have n: "length p < CURSOR_STACK" using O by simp
  have "take (length p) (mc_ki mc) = p" by (rule take_snocD(1)) (use O n in auto)
  then have "take (Suc (length p)) ((mc_ki mc)[length p := k]) = p @ [k]"
    using O n by (simp add: take_Suc_conv_app_nth)
  then show ?thesis using O n assms(2) by (simp add: set_ki_def on_path_def keeps_def u16_id)
qed

lemma on_path_push:
  assumes "on_path mc t p" "length p < CURSOR_STACK"
  shows "\<exists>mc'. mdb_cursor_push txn mc (bt_page (below t p)) = Some (0, txn, mc') \<and> on_path mc' t (p @ [0]) \<and> keeps mc mc'"
  using assms by (auto simp: mdb_cursor_push_def on_path_def keeps_def take_Suc_conv_app_nth Let_def)

lemma on_path_pop:
  assumes "on_path mc t (p @ [i])" "p \<noteq> []"
  shows "mdb_cursor_pop mc = mc\<lparr>mc_snum := length p, mc_top := length p - 1\<rparr>" "on_path (mdb_cursor_pop mc) t p"
proof -
  note O = assms(1) [unfolded on_path_def]
  have n: "0 < length p" "length p < CURSOR_STACK" using O assms(2) by auto
  then have "u16 (length p + (2 ^ 16 - 1)) = length p - 1" by (auto simp: u16_def CURSOR_STACK_def mod_if)
  then show e: "mdb_cursor_pop mc = mc\<lparr>mc_snum := length p, mc_top := length p - 1\<rparr>"
    using O n by (simp add: mdb_cursor_pop_def Let_def)
  show "on_path (mdb_cursor_pop mc) t p"
    using take_snocD(1) [of "length p" "mc_pg mc" "map Some (pages t p)" "Some (bt_page (below t p))"]
      take_snocD(1) [of "length p" "mc_ki mc" p i] O n assms(2) unfolding e by (simp add: on_path_def)
qed

section \<open>Loading a child\<close>

lemma child_get:
  assumes ok: "bt_ok (page_view txn (on_map mc)) h t" and p: "path_ok t (p @ [i])" "length p < h"
  shows "child_pgno (bt_page (below t p)) i = Some (c_pgno (bt_chunks (below t p) ! i))"
    "mdb_page_get txn mc (c_pgno (bt_chunks (below t p) ! i)) = Some (txn, Inr (bt_page (below t (p @ [i]))))"
proof -
  let ?u = "below t p"
  have u: "bt_ok (page_view txn (on_map mc)) (h - length p) ?u" using below_ok [OF ok, of p] p by simp
  have i: "i < width ?u" using p(1) by simp
  show "child_pgno (bt_page ?u) i = Some (c_pgno (bt_chunks ?u ! i))" by (rule chunk_header(6) [OF bt_ok_rep [OF u] i])
  show "mdb_page_get txn mc (c_pgno (bt_chunks ?u ! i)) = Some (txn, Inr (bt_page (below t (p @ [i]))))"
    using page_get_view [OF child_view [OF u _ i]] p(2) by simp
qed

lemma sibling_load_path:
  assumes ok: "bt_ok (page_view txn (on_map mc)) h t" and p: "path_ok t (p @ [i])" "length p < h" "h < CURSOR_STACK"
    and on: "on_path mc t (p @ [i])"
  shows "\<exists>mc'. sibling_load txn mc r = Some (0, txn, mc') \<and>
     on_path mc' t (p @ [i, edge_ix r (below t (p @ [i]))]) \<and> keeps mc mc'"
proof -
  let ?q = "p @ [i]"
  have u: "bt_ok (page_view txn (on_map mc)) (h - length p) (below t p)" using below_ok [OF ok, of p] p by simp
  have v: "bt_ok (page_view txn (on_map mc)) (h - length ?q) (below t ?q)" using below_ok [OF ok p(1)] p(2) by simp
  have br: "IS_BRANCH (bt_page (below t p))" using bt_ok_kind [OF u] p(2) by simp
  obtain mc1 where mc1: "mdb_cursor_push txn mc (bt_page (below t ?q)) = Some (0, txn, mc1)"
    "on_path mc1 t (?q @ [0])" "keeps mc mc1"
    using on_path_push [OF on] p(2,3) by auto
  have w: "width (below t ?q) - 1 < 2 ^ 16" using bt_ok_small [OF v] by simp
  obtain mc2 where mc2: "set_ki mc1 (width (below t ?q) - 1) = Some mc2" "on_path mc2 t (?q @ [width (below t ?q) - 1])"
    "keeps mc1 mc2"
    using on_path_set_ki [OF mc1(2) w] by blast
  have "sibling_load txn mc r = do { mc \<leftarrow> (if r then Some mc1 else set_ki mc1 (last_u16 (bt_page (below t ?q)))); Some (0, txn, mc) }"
    using on_path_top [OF on] br child_get [OF ok p(1,2)] mc1(1) by (simp add: sibling_load_def)
  then show ?thesis
    using mc1 mc2 bt_last(1) [OF v] keeps_trans [OF mc1(3) mc2(3)] by (cases r) (auto simp: edge_ix_def)
qed

section \<open>Siblings\<close>

lemma step_guard:
  assumes "i < n"
  shows "(if r then n \<le> i + 1 else i = 0) = (step_ix r n i = None)"
    "step_ix r n i = Some k \<Longrightarrow> (if r then i + 1 else i - 1) = k"
  using assms by (auto simp: step_ix_def split: if_split_asm)

lemma sib_length: "sib r t p = Some q \<Longrightarrow> length q = length p"
  by (induction r t p arbitrary: q rule: sib.induct) (auto split: option.split_asm)

lemma sib_ok:
  "bt_ok view h t \<Longrightarrow> path_ok t p \<Longrightarrow> length p \<le> Suc h \<Longrightarrow> sib r t p = Some q \<Longrightarrow> path_ok t q"
proof (induction p arbitrary: q rule: rev_induct)
  case (snoc j p)
  show ?case
  proof (cases p rule: rev_cases)
    case Nil
    then show ?thesis using snoc.prems(4) by simp
  next
    case (snoc p' i)
    have e: "sib r t (p' @ [i, j]) = Some q" using snoc.prems(4) snoc by simp
    have i: "i < width (below t p')" using snoc.prems(2) snoc by simp
    have en: "edge_ix r (below t u) < width (below t u)" if "path_ok t u" "length u \<le> h" for u
      using bt_ok_width [OF below_ok [OF snoc.prems(1) that]] by (simp add: edge_ix_def)
    show ?thesis
    proof (cases "step_ix r (width (below t p')) i")
      case (Some k)
      then have "path_ok t (p' @ [k])" using step_ix_less [OF Some i] snoc.prems(2) snoc by simp
      then show ?thesis using e Some en [of "p' @ [k]"] snoc.prems(3) snoc by (auto simp: sib_snoc)
    next
      case None
      then obtain u where u: "sib r t p = Some u" "q = u @ [edge_ix r (below t u)]" using e snoc by (auto simp: sib_snoc)
      then have "path_ok t u" using snoc.IH snoc.prems by simp
      then show ?thesis using u en [of u] sib_length [OF u(1)] snoc.prems(3) by simp
    qed
  qed
qed simp

lemma sibling_path:
  assumes "h < CURSOR_STACK" "on_path mc t p" "path_ok t (butlast p)" "length p \<le> Suc h" "bt_ok (page_view txn (on_map mc)) h t"
  shows "case sib r t p of
     None \<Rightarrow> mdb_cursor_sibling txn mc r = Some (MDB_NOTFOUND, txn, mc)
   | Some q \<Rightarrow> \<exists>mc'. mdb_cursor_sibling txn mc r = Some (0, txn, mc') \<and> on_path mc' t q \<and> keeps mc mc'"
  using assms
proof (induction p arbitrary: mc rule: rev_induct)
  case Nil
  then show ?case by (simp add: on_path_def)
next
  case (snoc j p)
  note on = snoc.prems(2) and ok = snoc.prems(5)
  show ?case
  proof (cases p rule: rev_cases)
    case Nil
    then show ?thesis using on by (simp add: mdb_cursor_sibling.simps on_path_def)
  next
    case (snoc p' i)
    let ?mc = "mdb_cursor_pop mc"
    have sn: "mc_snum mc = Suc (length p)" "mc_top mc = length p" "Suc (length p) \<le> CURSOR_STACK" using on by (auto simp: on_path_def)
    have pop: "?mc = mc\<lparr>mc_snum := length p, mc_top := length p - 1\<rparr>" and on1: "on_path ?mc t (p' @ [i])"
      using on_path_pop [OF on] snoc by auto
    have pk: "path_ok t (p' @ [i])" "length p' < h" using snoc.prems(4) butlast_snoc [of p j] snoc.prems(3) snoc by (auto simp del: butlast_append)
    have k1: "keeps mc ?mc" unfolding pop by (simp add: keeps_def)
    have ok1: "bt_ok (page_view txn (on_map ?mc)) h t" using ok keeps_on_map [OF k1] by simp
    have u: "bt_ok (page_view txn (on_map mc)) (h - length p') (below t p')" using below_ok [OF ok, of p'] pk by simp
    have i: "i < width (below t p')" using pk by simp
    have nk: "NUMKEYS (bt_page (below t p')) = width (below t p')" by (rule bt_ok_numkeys [OF u])
    note run = mdb_cursor_sibling.simps [of txn mc r, unfolded Let_def, simplified sn on_path_top [OF on1] nk
        bind.bind_lunit step_guard(1) [OF i]]
    show ?thesis
    proof (cases "step_ix r (width (below t p')) i")
      case (Some k)
      have k: "k < width (below t p')" by (rule step_ix_less [OF Some i])
      then obtain mc2 where mc2: "set_ki ?mc k = Some mc2" "on_path mc2 t (p' @ [k])" "keeps ?mc mc2"
        using on_path_set_ki [OF on1, of k] bt_ok_small [OF u] by auto
      have k2: "keeps mc mc2" by (rule keeps_trans [OF k1 mc2(3)])
      have "path_ok t (p' @ [k])" using pk k by simp
      then obtain mc3 where mc3: "sibling_load txn mc2 r = Some (0, txn, mc3)"
        "on_path mc3 t (p' @ [k, edge_ix r (below t (p' @ [k]))])" "keeps mc2 mc3"
        using sibling_load_path [of txn mc2 h t p' k r] ok keeps_on_map [OF k2] pk(2) snoc.prems(1) mc2(2) by auto
      have "mdb_cursor_sibling txn mc r = Some (0, txn, mc3)"
        using run Some mc2(1) mc3(1) step_guard(2) [OF i Some] snoc by (simp add: on_path_top [OF on1] nk)
      then show ?thesis
        using mc3 keeps_trans [OF k2 mc3(3)] Some snoc by (simp add: sib_snoc)
    next
      case None
      have IH: "case sib r t p of
          None \<Rightarrow> mdb_cursor_sibling txn ?mc r = Some (MDB_NOTFOUND, txn, ?mc)
        | Some q \<Rightarrow> \<exists>mc'. mdb_cursor_sibling txn ?mc r = Some (0, txn, mc') \<and> on_path mc' t q \<and> keeps ?mc mc'"
        using snoc.IH [OF snoc.prems(1) _ _ _ ok1] on1 pk snoc by simp
      show ?thesis
      proof (cases "sib r t p")
        case N: None
        have "u16 (length p - 1 + 1) = length p" using sn(3) snoc by (simp add: u16_def CURSOR_STACK_def)
        then have "?mc\<lparr>mc_top := u16 (mc_top ?mc + 1), mc_snum := mc_snum ?mc + 1\<rparr> = mc"
          unfolding pop using sn snoc by simp
        then have "mdb_cursor_sibling txn mc r = Some (MDB_NOTFOUND, txn, mc)"
          using run None IH N snoc by (simp add: on_path_top [OF on1] nk MDB_NOTFOUND_def)
        then show ?thesis using None N snoc by (simp add: sib_snoc)
      next
        case (Some q)
        then obtain mc2 where mc2: "mdb_cursor_sibling txn ?mc r = Some (0, txn, mc2)" "on_path mc2 t q" "keeps ?mc mc2"
          using IH by auto
        have k2: "keeps mc mc2" by (rule keeps_trans [OF k1 mc2(3)])
        have q: "length q = length p" "path_ok t q" using sib_length [OF Some] sib_ok [OF ok _ _ Some] pk snoc by auto
        then obtain q' k where qk: "q = q' @ [k]" using snoc by (cases q rule: rev_cases) auto
        obtain mc3 where mc3: "sibling_load txn mc2 r = Some (0, txn, mc3)"
          "on_path mc3 t (q' @ [k, edge_ix r (below t (q' @ [k]))])" "keeps mc2 mc3"
          using sibling_load_path [of txn mc2 h t q' k r] ok keeps_on_map [OF k2] q qk pk(2) snoc.prems(1) mc2(2) snoc by auto
        have "mdb_cursor_sibling txn mc r = Some (0, txn, mc3)"
          using run None mc2(1) mc3(1) snoc by (simp add: on_path_top [OF on1] nk)
        then show ?thesis
          using mc3 keeps_trans [OF k2 mc3(3)] None Some qk snoc by (simp add: sib_snoc)
      qed
    qed
  qed
qed

section \<open>The descent along an edge\<close>

definition dir_flag :: "bool \<Rightarrow> 32 word" where
  "dir_flag r = (if r then MDB_PS_FIRST else MDB_PS_LAST)"

lemma dir_flag_bits [simp]:
  "\<not> has (dir_flag r) MDB_PS_MODIFY" "\<not> has (dir_flag r) MDB_PS_ROOTONLY"
  "has (dir_flag r) (MDB_PS_FIRST OR MDB_PS_LAST)" "has (dir_flag r) MDB_PS_LAST = (\<not> r)"
  by (simp_all add: dir_flag_def MDB_PS_FIRST_def MDB_PS_LAST_def MDB_PS_MODIFY_def MDB_PS_ROOTONLY_def)

lemma touch_dir [simp]: "touch_top X txn mc (dir_flag r) = Some (0, txn, mc)"
  by (simp add: touch_top_def)

text \<open>What the search leaves: the cursor on a leaf page, with the flags set.\<close>

abbreviation arrived :: "'x cursor \<Rightarrow> 'x cursor" where
  "arrived mc \<equiv> mc\<lparr>mc_flags := (mc_flags mc OR C_INITIALIZED) AND NOT C_EOF\<rparr>"

lemma arrive_leaf:
  assumes ok: "bt_ok (page_view txn (on_map mc)) h t" and p: "path_ok t p" "length p = h" and on: "on_path mc t (p @ [x])"
  shows "mdb_page_search_root X txn mc key flags = Some (0, txn, arrived mc)" "on_path (arrived mc) t (p @ [x])"
proof -
  have "bt_ok (page_view txn (on_map mc)) 0 (below t p)" using below_ok [OF ok p(1)] p(2) by simp
  then show "mdb_page_search_root X txn mc key flags = Some (0, txn, arrived mc)"
    using on_path_top(1) [OF on] bt_ok_kind by (subst mdb_page_search_root.simps) fastforce
  show "on_path (arrived mc) t (p @ [x])" using on by (simp add: on_path_def)
qed

text \<open>One round of the loop that follows child \<open>i\<close>.\<close>

lemma search_step_down:
  assumes ok: "bt_ok (page_view txn (on_map mc)) h t" and p: "path_ok t (p @ [i])" "length p < h" "h < CURSOR_STACK"
    and on: "on_path mc t (p @ [x])"
    and ix: "branch_index txn mc (bt_page (below t p)) key flags = Some (i, False, mc1)" "on_path mc1 t (p @ [y])" "keeps mc mc1"
  shows "\<exists>mc'. search_step txn mc (bt_page (below t p)) key flags = Some (0, txn, mc') \<and> on_path mc' t (p @ [i, 0]) \<and> keeps mc mc'"
proof -
  have u: "bt_ok (page_view txn (on_map mc)) (h - length p) (below t p)" using below_ok [OF ok, of p] p by simp
  have w: "2 \<le> width (below t p)" using u p(2) by (cases "below t p") auto
  have i: "i < width (below t p)" "i < 2 ^ 16" using p(1) bt_ok_small [OF u] by auto
  obtain mc2 where mc2: "set_ki mc1 i = Some mc2" "on_path mc2 t (p @ [i])" "keeps mc1 mc2"
    using on_path_set_ki [OF ix(2) i(2)] by blast
  obtain mc3 where mc3: "mdb_cursor_push txn mc2 (bt_page (below t (p @ [i]))) = Some (0, txn, mc3)"
    "on_path mc3 t ((p @ [i]) @ [0])" "keeps mc2 mc3"
    using on_path_push [OF mc2(2)] p by auto
  have ok1: "bt_ok (page_view txn (on_map mc1)) h t" using ok keeps_on_map [OF ix(3)] by simp
  have "search_step txn mc (bt_page (below t p)) key flags = Some (0, txn, mc3)"
    using w i bt_ok_numkeys [OF u] ix(1) child_get [OF ok1 p(1,2)] mc2(1) mc3(1) by (simp add: search_step_def)
  then show ?thesis using mc3 keeps_trans [OF ix(3) keeps_trans [OF mc2(3) mc3(3)]] by auto
qed

lemma descend_edge:
  assumes h: "h < CURSOR_STACK" and ok: "bt_ok (page_view txn (on_map mc)) h t" and d: "d \<le> h"
    and on: "on_path mc t (edge r t d @ [x])"
    and x: "r \<or> \<not> has (mc_flags mc) C_INITIALIZED \<or> d = h \<or> x \<noteq> width (below t (edge r t d)) - 1"
  shows "\<exists>mc' y. mdb_page_search_root X txn mc key (dir_flag r) = Some (0, txn, mc') \<and>
     on_path mc' t (edge r t h @ [y]) \<and> keeps (arrived mc) mc'"
  using ok d on x
proof (induction "h - d" arbitrary: d mc x)
  case 0
  then have e: "path_ok t (edge r t h)" "d = h" using edge_ok [OF 0(2), of h r] by auto
  show ?case
    using arrive_leaf [OF 0(2) e(1) length_edge] 0(4) e(2) keeps_refl by blast
next
  case (Suc n)
  note ok = Suc.prems(1) and on = Suc.prems(3)
  let ?p = "edge r t d"
  let ?u = "below t ?p"
  have d: "d < h" and n: "n = h - Suc d" using Suc.hyps(2) by simp_all
  have pk: "path_ok t (edge r t (Suc d))" by (rule edge_ok [OF ok]) (use d in simp)
  then have p: "path_ok t (?p @ [edge_ix r ?u])" by (simp only: edge_snoc)
  have u: "bt_ok (page_view txn (on_map mc)) (h - d) ?u" using below_ok [OF ok, of ?p] p d by simp
  have w: "2 \<le> width ?u" using u d by (cases ?u) auto
  have ix: "branch_index txn mc (bt_page ?u) key (dir_flag r) = Some (edge_ix r ?u, False, mc)"
    using Suc.prems(4) d on_path_top(2) [OF on] bt_last(1) [OF u] by (auto simp: branch_index_def edge_ix_def Let_def)
  obtain mc1 where mc1: "search_step txn mc (bt_page ?u) key (dir_flag r) = Some (0, txn, mc1)"
    "on_path mc1 t (?p @ [edge_ix r ?u, 0])" "keeps mc mc1"
    using search_step_down [OF ok p _ h on ix on keeps_refl] d by auto
  have on1: "on_path mc1 t (edge r t (Suc d) @ [0])" using mc1(2) by (simp only: edge_snoc append.assoc append.simps)
  have ok1: "bt_ok (page_view txn (on_map mc1)) h t" using ok keeps_on_map [OF mc1(3)] by simp
  have x1: "r \<or> \<not> has (mc_flags mc1) C_INITIALIZED \<or> Suc d = h \<or> 0 \<noteq> width (below t (edge r t (Suc d))) - 1"
  proof (cases "Suc d = h")
    case False
    have "bt_ok (page_view txn (on_map mc)) (h - Suc d) (below t (edge r t (Suc d)))"
      using below_ok [OF ok pk] d by simp
    then have "2 \<le> width (below t (edge r t (Suc d)))" using False d by (cases "below t (edge r t (Suc d))") auto
    then show ?thesis by simp
  qed simp
  obtain mc' y where mc': "mdb_page_search_root X txn mc1 key (dir_flag r) = Some (0, txn, mc')"
    "on_path mc' t (edge r t h @ [y])" "keeps (arrived mc1) mc'"
    using Suc.hyps(1) [OF n ok1 _ on1 x1] d by auto
  have "mdb_page_search_root X txn mc key (dir_flag r) = Some (0, txn, mc')"
    using on_path_top(1) [OF on] bt_ok_kind [OF u] d mc1(1) mc'(1) by (subst mdb_page_search_root.simps) simp
  moreover have "keeps (arrived mc) mc'" using mc'(3) mc1(3) by (simp add: keeps_def)
  ultimately show ?case using mc'(2) by blast
qed

text \<open>
  The search for the last entry by a cursor that is already on an entry: as long as its
  indices are the last ones, the pages above are already on the stack.
\<close>

definition at_depth :: "'x cursor \<Rightarrow> bt \<Rightarrow> nat list \<Rightarrow> nat \<Rightarrow> bool" where
  "at_depth mc t p d \<longleftrightarrow> d < length p \<and> mc_snum mc = Suc d \<and> mc_top mc = d \<and>
     on_path (mc\<lparr>mc_snum := length p, mc_top := length p - 1\<rparr>) t p"

lemma pages_take: "pages t (take d p) = take d (pages t p)"
  by (induction t p arbitrary: d rule: pages.induct) (auto simp: take_Cons split: nat.split)

lemma at_depth_path:
  assumes "at_depth mc t p d"
  shows "on_path mc t (take d p @ [p ! d])"
proof -
  have d: "d < length p" using assms by (simp add: at_depth_def)
  have "take (Suc d) p = take d p @ [p ! d]" by (rule take_Suc_conv_app_nth [OF d])
  moreover have "take (Suc d) (mc_pg mc) = map Some (take (Suc d) (pages t p))" "take (Suc d) (mc_ki mc) = take (Suc d) p"
    using assms d unfolding at_depth_def on_path_def
    by (simp_all, metis min.absorb1 Suc_leI take_map take_take, metis min.absorb1 Suc_leI take_take)
  ultimately show ?thesis
    using assms d pages_take [of t "Suc d" p] by (auto simp: at_depth_def on_path_def)
qed

lemma descend_last:
  assumes h: "h < CURSOR_STACK" and ok: "bt_ok (page_view txn (on_map mc)) h t" and p: "length p = Suc h" and d: "d \<le> h"
    and at: "at_depth mc t p d" and e: "take d p = edge False t d"
  shows "\<exists>mc' y. mdb_page_search_root X txn mc key (dir_flag False) = Some (0, txn, mc') \<and>
     on_path mc' t (edge False t h @ [y]) \<and> keeps (arrived mc) mc'"
  using ok d at e
proof (induction "h - d" arbitrary: d mc)
  case 0
  then show ?case using descend_edge [OF h 0(2), of d False "p ! d" X key] at_depth_path [OF 0(4)] by simp
next
  case (Suc n)
  note ok = Suc.prems(1) and at = Suc.prems(3) and e = Suc.prems(4)
  let ?u = "below t (edge False t d)"
  have d: "d < h" and n: "n = h - Suc d" using Suc.hyps(2) by simp_all
  have on: "on_path mc t (edge False t d @ [p ! d])" using at_depth_path [OF at] e by simp
  show ?case
  proof (cases "has (mc_flags mc) C_INITIALIZED \<and> p ! d = width ?u - 1")
    case False
    then show ?thesis by (intro descend_edge [OF h ok _ on]) (use d in auto)
  next
    case True
    have pk: "path_ok t (edge False t d)" by (rule edge_ok [OF ok]) (use d in simp)
    have u: "bt_ok (page_view txn (on_map mc)) (h - d) ?u" using below_ok [OF ok pk] d by simp
    have w: "2 \<le> width ?u" using u d by (cases ?u) auto
    let ?mc = "mc\<lparr>mc_top := Suc d, mc_snum := Suc (Suc d)\<rparr>"
    have sn: "mc_snum mc = Suc d" using at by (simp add: at_depth_def)
    have "search_step txn mc (bt_page ?u) key (dir_flag False) = Some (0, txn, ?mc)"
      using True on_path_top(2) [OF on] bt_last(1) [OF u] bt_ok_numkeys [OF u] w d h sn
      by (simp add: search_step_def branch_index_def Let_def)
    then have run: "mdb_page_search_root X txn mc key (dir_flag False) = mdb_page_search_root X txn ?mc key (dir_flag False)"
      using on_path_top(1) [OF on] bt_ok_kind [OF u] d by (subst mdb_page_search_root.simps) simp
    have k: "keeps mc ?mc" by (simp add: keeps_def)
    have at1: "at_depth ?mc t p (Suc d)" using at d p by (simp add: at_depth_def on_path_def)
    have e1: "take (Suc d) p = edge False t (Suc d)"
      using e True take_Suc_conv_app_nth [of d p] p d by (simp add: edge_snoc edge_ix_def del: edge.simps)
    have "\<exists>mc' y. mdb_page_search_root X txn ?mc key (dir_flag False) = Some (0, txn, mc') \<and>
        on_path mc' t (edge False t h @ [y]) \<and> keeps (arrived ?mc) mc'"
      using Suc.hyps(1) [OF n _ _ at1 e1] d ok keeps_on_map [OF k] by auto
    then show ?thesis unfolding run by (simp add: keeps_def)
  qed
qed

section \<open>A cursor on a database\<close>

text \<open>
  The cursor's database has no sorted duplicates, its record is up to date, and its tree is
  \<open>t\<close>, of height \<open>h\<close>.
\<close>

definition db_ok :: "txn \<Rightarrow> 'x cursor \<Rightarrow> nat \<Rightarrow> bt \<Rightarrow> bool" where
  "db_ok txn mc h t \<longleftrightarrow>
     \<not> has (mt_flags txn) MDB_TXN_BLOCKED \<and> mc_xcursor mc = None \<and>
     (\<exists>f. mc_dbflag txn mc = Some f \<and> \<not> has f DB_STALE) \<and>
     (\<exists>db. mc_db txn mc = Some db \<and> \<not> has (md_flags db) MDB_DUPSORT \<and> \<not> has (md_flags db) MDB_DUPFIXED \<and>
           1 < md_root db \<and> md_root db \<noteq> P_INVALID \<and> page_view txn (on_map mc) (md_root db) = Some (bt_page t)) \<and>
     h < CURSOR_STACK \<and> bt_ok (page_view txn (on_map mc)) h t"

text \<open>Cursors on the same database, whatever their position.\<close>

definition same_db :: "'x cursor \<Rightarrow> 'x cursor \<Rightarrow> bool" where
  "same_db mc mc' \<longleftrightarrow> on_map mc' = on_map mc \<and> mc_dbi mc' = mc_dbi mc \<and> mc_own mc' = mc_own mc \<and> mc_xcursor mc' = mc_xcursor mc"

lemma keeps_same_db: "keeps mc mc' \<Longrightarrow> same_db mc mc'"
  by (simp add: keeps_def same_db_def on_map_def)

lemma same_db_trans: "same_db a b \<Longrightarrow> same_db b c \<Longrightarrow> same_db a c"
  by (simp add: same_db_def)

lemma same_db_records:
  "same_db mc mc' \<Longrightarrow> mc_db txn mc' = mc_db txn mc" "same_db mc mc' \<Longrightarrow> mc_dbx txn mc' = mc_dbx txn mc"
  "same_db mc mc' \<Longrightarrow> mc_dbflag txn mc' = mc_dbflag txn mc"
  by (auto simp: same_db_def mc_db_def mc_dbx_def mc_dbflag_def split: option.split)

lemma same_db_ok: "same_db mc mc' \<Longrightarrow> db_ok txn mc h t \<Longrightarrow> db_ok txn mc' h t"
  using same_db_records [of mc mc' txn] by (simp add: same_db_def db_ok_def)

lemma on_map_bits: "on_map mc = (bit (mc_flags mc) 17 \<or> bit (mc_flags mc) 19)"
  by (simp add: on_map_def has_or has_RDONLY has_WRITEMAP)

lemma same_db_flags:
  "bit f 17 = bit (mc_flags mc) 17 \<Longrightarrow> bit f 19 = bit (mc_flags mc) 19 \<Longrightarrow> same_db mc (mc\<lparr>mc_flags := f\<rparr>)"
  by (simp add: same_db_def on_map_bits)

lemma same_db_arrived: "same_db mc (arrived mc)"
  by (rule same_db_flags) (simp_all add: flag_bits)

definition fresh :: "'x cursor \<Rightarrow> bool" where
  "fresh mc \<longleftrightarrow> length (mc_pg mc) = CURSOR_STACK \<and> length (mc_ki mc) = CURSOR_STACK \<and> mc_pg mc ! 0 = None \<and>
     \<not> has (mc_flags mc) C_INITIALIZED \<and> \<not> has (mc_flags mc) C_DEL"

text \<open>The search starts with the root page at the bottom of the stack.\<close>

abbreviation rooted :: "'x cursor \<Rightarrow> bt \<Rightarrow> 'x cursor" where
  "rooted mc t \<equiv> mc\<lparr>mc_pg := (mc_pg mc)[0 := Some (bt_page t)], mc_snum := 1, mc_top := 0\<rparr>"

lemma page_search_rooted:
  assumes db: "db_ok txn mc h t" and st: "fresh mc \<or> (on_path mc t p \<and> length p = Suc h)"
    and fl: "\<not> has flags MDB_PS_MODIFY" "\<not> has flags MDB_PS_ROOTONLY"
  shows "mdb_page_search X txn mc key flags = mdb_page_search_root X txn (rooted mc t) key flags"
    "on_path (rooted mc t) t [mc_ki mc ! 0]" "keeps mc (rooted mc t)"
    "on_path mc t p \<Longrightarrow> (mc_pg mc)[0 := Some (bt_page t)] = mc_pg mc"
proof -
  obtain f db where D: "\<not> has (mt_flags txn) MDB_TXN_BLOCKED" "mc_dbflag txn mc = Some f" "\<not> has f DB_STALE"
    "mc_db txn mc = Some db" "1 < md_root db" "md_root db \<noteq> P_INVALID"
    "page_view txn (on_map mc) (md_root db) = Some (bt_page t)"
    using db by (auto simp: db_ok_def)
  note get = page_get_view [OF D(7)]
  have len: "length (mc_pg mc) = CURSOR_STACK" "length (mc_ki mc) = CURSOR_STACK" using st by (auto simp: fresh_def on_path_def)
  have p0: "mc_pg mc ! 0 = Some (bt_page t)" if on: "on_path mc t p"
  proof -
    obtain i q where p: "p = i # q" using on by (cases p) (auto simp: on_path_def)
    have "take (length p) (mc_pg mc) ! 0 = Some (bt_page t)" using on by (simp add: on_path_def p)
    then show ?thesis using p by simp
  qed
  then show same: "(mc_pg mc)[0 := Some (bt_page t)] = mc_pg mc" if "on_path mc t p"
    using that len by (simp add: list_update_same_conv CURSOR_STACK_def)
  have "search_from_root X txn mc key flags = mdb_page_search_root X txn (rooted mc t) key flags"
  proof (cases "mc_pg mc ! 0")
    case None
    then show ?thesis using D(4-6) get len fl by (simp add: search_from_root_def CURSOR_STACK_def Let_def touch_top_def)
  next
    case (Some pg)
    then have on: "on_path mc t p" using st by (auto simp: fresh_def)
    show ?thesis
      using Some p0 [OF on] same [OF on] D(4-6) get len fl
      by (cases "mp_pgno pg = md_root db") (simp_all add: search_from_root_def CURSOR_STACK_def Let_def touch_top_def)
  qed
  then show "mdb_page_search X txn mc key flags = mdb_page_search_root X txn (rooted mc t) key flags"
    using D(1-3) by (simp add: mdb_page_search_def refresh_db_def)
  show "on_path (rooted mc t) t [mc_ki mc ! 0]"
    using len by (simp add: on_path_def CURSOR_STACK_def take_Suc_conv_app_nth)
  show "keeps mc (rooted mc t)" by (simp add: keeps_def)
qed

lemma search_edge:
  assumes db: "db_ok txn mc h t" and st: "fresh mc \<or> (on_path mc t p \<and> length p = Suc h)"
  shows "\<exists>mc' y. mdb_page_search X txn mc key (dir_flag r) = Some (0, txn, mc') \<and>
     on_path mc' t (edge r t h @ [y]) \<and> keeps (arrived mc) mc'"
proof -
  note R = page_search_rooted [OF db st dir_flag_bits(1,2)]
  let ?mc = "rooted mc t"
  have h: "h < CURSOR_STACK" and ok: "bt_ok (page_view txn (on_map ?mc)) h t"
    using db keeps_on_map [OF R(3)] by (simp_all add: db_ok_def)
  have "\<exists>mc' y. mdb_page_search_root X txn ?mc key (dir_flag r) = Some (0, txn, mc') \<and>
     on_path mc' t (edge r t h @ [y]) \<and> keeps (arrived ?mc) mc'"
  proof (cases "r \<or> fresh mc")
    case True
    then have "r \<or> \<not> has (mc_flags ?mc) C_INITIALIZED" by (auto simp: fresh_def)
    then show ?thesis using descend_edge [OF h ok, of 0 r "mc_ki mc ! 0" X key] R(2) by auto
  next
    case False
    then have p: "on_path mc t p" "length p = Suc h" and [simp]: "r = False" using st by auto
    have "at_depth ?mc t p 0" using p R(4) [OF p(1)] by (simp add: at_depth_def on_path_def)
    then show ?thesis using descend_last [OF h ok p(2), of 0 X key] by simp
  qed
  then show ?thesis unfolding R(1) by (simp add: keeps_def)
qed

section \<open>The item under the cursor\<close>

definition item :: "txn \<Rightarrow> 'x cursor \<Rightarrow> bytes \<Rightarrow> bytes \<times> bytes" where
  "item txn mc c = (c_key c, the (item_value (page_view txn (on_map mc)) c))"

definition items :: "txn \<Rightarrow> 'x cursor \<Rightarrow> bt \<Rightarrow> (bytes \<times> bytes) list" where
  "items txn mc t = map (item txn mc) (entries t)"

definition put_item :: "bytes \<times> bytes \<Rightarrow> bytes option \<Rightarrow> bytes option \<Rightarrow> bytes option \<times> bytes option" where
  "put_item e key data = (map_option (\<lambda>_. fst e) key, map_option (\<lambda>_. snd e) data)"

lemma same_db_items: "same_db mc mc' \<Longrightarrow> items txn mc' t = items txn mc t"
  by (simp add: items_def item_def same_db_def)

lemma leaf_at:
  assumes db: "db_ok txn mc h t" and p: "path_ok t (p @ [i])" "length p = h"
  shows "rank t (p @ [i]) < length (entries t)" "items txn mc t ! rank t (p @ [i]) = item txn mc (bt_chunks (below t p) ! i)"
    "bt_ok (page_view txn (on_map mc)) 0 (below t p)" "i < width (below t p)"
    "item_value (page_view txn (on_map mc)) (bt_chunks (below t p) ! i) = Some (snd (item txn mc (bt_chunks (below t p) ! i)))"
    "\<not> node_isset (c_flags (bt_chunks (below t p) ! i)) F_DUPDATA"
proof -
  have ok: "bt_ok (page_view txn (on_map mc)) h t" using db by (simp add: db_ok_def)
  show r: "rank t (p @ [i]) < length (entries t)" using rank_entry [OF ok p] by simp
  show "items txn mc t ! rank t (p @ [i]) = item txn mc (bt_chunks (below t p) ! i)"
    using rank_entry [OF ok p] by (simp add: items_def)
  show u: "bt_ok (page_view txn (on_map mc)) 0 (below t p)" using below_ok [OF ok, of p] p by simp
  show i: "i < width (below t p)" using p by simp
  obtain mp cs where "below t p = Lf mp cs" using u by (cases "below t p") auto
  then show "item_value (page_view txn (on_map mc)) (bt_chunks (below t p) ! i) = Some (snd (item txn mc (bt_chunks (below t p) ! i)))"
    "\<not> node_isset (c_flags (bt_chunks (below t p) ! i)) F_DUPDATA"
    using u i by (auto simp: item_def)
qed

lemma cursor_item_path:
  assumes db: "db_ok txn mc h t" and p: "path_ok t (p @ [i])" "length p = h" and on: "on_path mc t (p @ [i])"
  shows "cursor_item X sub tested txn mc key data =
     (let (k, d) = put_item (items txn mc t ! rank t (p @ [i])) key data in Some (0, txn, mc, k, d))"
proof -
  note L = leaf_at [OF db p]
  let ?mp = "bt_page (below t p)" and ?c = "bt_chunks (below t p) ! i"
  note rep = bt_ok_rep [OF L(3)] and T = on_path_top [OF on]
  have kind: "IS_LEAF ?mp" "\<not> IS_LEAF2 ?mp" using L(3) by (cases "below t p"; auto)+
  note H = chunk_header [OF rep L(4)] and C = chunk_at(1) [OF rep L(4)]
  note R = node_read_value [OF rep L(4) kind(1) L(5)]
  show ?thesis
    using T kind H(2,5) C R L(2,6)
    by (cases key; cases data) (simp_all add: cursor_item_def put_item_def MDB_GET_KEY_def item_def)
qed

lemma get_current_path:
  assumes db: "db_ok txn mc h t" and p: "path_ok t (p @ [i])" "length p = h" and on: "on_path mc t (p @ [i])"
    and init: "has (mc_flags mc) C_INITIALIZED"
  shows "get_current X txn mc key data =
     (let (k, d) = put_item (items txn mc t ! rank t (p @ [i])) key data in Some (0, txn, mc, k, d))"
proof -
  note L = leaf_at [OF db p]
  let ?mp = "bt_page (below t p)" and ?c = "bt_chunks (below t p) ! i"
  note rep = bt_ok_rep [OF L(3)] and T = on_path_top [OF on]
  have kind: "IS_LEAF ?mp" "\<not> IS_LEAF2 ?mp" using L(3) by (cases "below t p"; auto)+
  note H = chunk_header [OF rep L(4)] and C = chunk_at(1) [OF rep L(4)]
  note R = node_read_value [OF rep L(4) kind(1) L(5)]
  show ?thesis
    using T kind H(2,5) C R L(2,4,6) init bt_ok_numkeys [OF L(3)]
    by (cases key; cases data) (simp_all add: get_current_def put_item_def MDB_GET_KEY_def item_def)
qed

section \<open>The moves\<close>

definition cur_at :: "'x cursor \<Rightarrow> nat \<Rightarrow> bt \<Rightarrow> nat \<Rightarrow> bool" where
  "cur_at mc h t n \<longleftrightarrow>
     (\<exists>p. on_path mc t p \<and> path_ok t p \<and> length p = Suc h \<and> rank t p = n) \<and>
     has (mc_flags mc) C_INITIALIZED \<and> \<not> has (mc_flags mc) C_DEL \<and>
     (has (mc_flags mc) C_EOF \<longrightarrow> n + 1 = length (entries t))"

lemma clear_sub_none [simp]: "mc_xcursor mc = None \<Longrightarrow> clear_sub X mc = mc"
  by (simp add: clear_sub_def)

lemma to_edge:
  assumes db: "db_ok txn mc h t" and st: "fresh mc \<or> cur_at mc h t n"
  shows "\<exists>mc' y. (if \<not> has (mc_flags mc) C_INITIALIZED \<or> mc_top mc \<noteq> 0
        then mdb_page_search X txn mc key (dir_flag r) else Some (0, txn, mc)) = Some (0, txn, mc') \<and>
     on_path mc' t (edge r t h @ [y]) \<and> same_db mc mc' \<and> \<not> has (mc_flags mc') C_DEL"
proof -
  have del: "\<not> has (mc_flags mc) C_DEL" using st by (auto simp: fresh_def cur_at_def)
  show ?thesis
  proof (cases "\<not> has (mc_flags mc) C_INITIALIZED \<or> mc_top mc \<noteq> 0")
    case True
    have st': "fresh mc \<or> (\<exists>p. on_path mc t p \<and> length p = Suc h)" using st by (auto simp: cur_at_def)
    then obtain mc' y where mc': "mdb_page_search X txn mc key (dir_flag r) = Some (0, txn, mc')"
      "on_path mc' t (edge r t h @ [y])" "keeps (arrived mc) mc'"
      using search_edge [OF db] by blast
    have "same_db mc mc'" by (rule same_db_trans [OF same_db_arrived keeps_same_db [OF mc'(3)]])
    moreover have "\<not> has (mc_flags mc') C_DEL" using mc'(3) del by (simp add: keeps_def flag_bits)
    ultimately show ?thesis using True mc' by auto
  next
    case False
    then obtain p where p: "on_path mc t p" "length p = Suc h" using st by (auto simp: fresh_def cur_at_def)
    then have "h = 0" using False by (simp add: on_path_def)
    then obtain i where "p = [i]" using p(2) by (cases p) auto
    then show ?thesis using False p del \<open>h = 0\<close> by (auto simp: same_db_def)
  qed
qed

lemma at_edge:
  assumes db: "db_ok txn mc h t" and on: "on_path mc t (edge r t h @ [y])" and del: "\<not> has (mc_flags mc) C_DEL"
  shows "\<exists>mc'. set_ki mc (edge_ix r (below t (edge r t h))) = Some mc' \<and> on_path mc' t (edge r t (Suc h)) \<and> keeps mc mc'"
    "IS_LEAF (bt_page (below t (edge r t h)))" "path_ok t (edge r t (Suc h))"
    "last_u16 (bt_page (below t (edge r t h))) = edge_ix False (below t (edge r t h))"
proof -
  have ok: "bt_ok (page_view txn (on_map mc)) h t" using db by (simp add: db_ok_def)
  have pk: "path_ok t (edge r t h)" by (rule edge_ok [OF ok]) simp
  show "path_ok t (edge r t (Suc h))" by (rule edge_ok [OF ok]) simp
  have u: "bt_ok (page_view txn (on_map mc)) 0 (below t (edge r t h))" using below_ok [OF ok pk] by simp
  show "IS_LEAF (bt_page (below t (edge r t h)))" using bt_ok_kind [OF u] by simp
  show "last_u16 (bt_page (below t (edge r t h))) = edge_ix False (below t (edge r t h))"
    using bt_last(1) [OF u] by (simp add: edge_ix_def)
  have "edge_ix r (below t (edge r t h)) < 2 ^ 16" using bt_ok_small [OF u] by (auto simp: edge_ix_def)
  then show "\<exists>mc'. set_ki mc (edge_ix r (below t (edge r t h))) = Some mc' \<and> on_path mc' t (edge r t (Suc h)) \<and> keeps mc mc'"
    using on_path_set_ki [OF on] by (simp only: edge_snoc)
qed

lemma first_path:
  assumes db: "db_ok txn mc h t" and st: "fresh mc \<or> cur_at mc h t n"
  shows "\<exists>mc'. mdb_cursor_first X txn mc key data =
       (let (k, d) = put_item (items txn mc t ! 0) key data in Some (0, txn, mc', k, d)) \<and> cur_at mc' h t 0 \<and> same_db mc mc'"
proof -
  obtain mc1 y where mc1: "(if \<not> has (mc_flags mc) C_INITIALIZED \<or> mc_top mc \<noteq> 0
        then mdb_page_search X txn mc None (dir_flag True) else Some (0, txn, mc)) = Some (0, txn, mc1)"
    "on_path mc1 t (edge True t h @ [y])" "same_db mc mc1" "\<not> has (mc_flags mc1) C_DEL"
    using to_edge [OF db st] by blast
  let ?mc = "arrived mc1"
  have s: "same_db mc ?mc" by (rule same_db_trans [OF mc1(3) same_db_arrived])
  have on: "on_path ?mc t (edge True t h @ [y])" "\<not> has (mc_flags ?mc) C_DEL"
    using mc1(2,4) by (auto simp: on_path_def flag_bits)
  note E = at_edge [OF same_db_ok [OF s db] on]
  obtain mc2 where mc2: "set_ki ?mc 0 = Some mc2" "on_path mc2 t (edge True t (Suc h))" "keeps ?mc mc2"
    using E(1) by (auto simp: edge_ix_def)
  have s2: "same_db mc mc2" by (rule same_db_trans [OF s keeps_same_db [OF mc2(3)]])
  have db2: "db_ok txn mc2 h t" by (rule same_db_ok [OF s2 db])
  have ok: "bt_ok (page_view txn (on_map mc)) h t" and xc: "mc_xcursor mc = None" using db by (simp_all add: db_ok_def)
  have rk: "rank t (edge True t (Suc h)) = 0" using rank_edge [OF ok refl, of True] by simp
  have "cursor_item X (o_first X) True txn mc2 key data =
      (let (k, d) = put_item (items txn mc2 t ! 0) key data in Some (0, txn, mc2, k, d))"
    using cursor_item_path [OF db2, of "edge True t h" "edge_ix True (below t (edge True t h))"] E(3) mc2(2) rk
    by (simp only: edge_snoc length_edge)
  then have "mdb_cursor_first X txn mc key data =
      (let (k, d) = put_item (items txn mc t ! 0) key data in Some (0, txn, mc2, k, d))"
    unfolding mdb_cursor_first_def Let_def clear_sub_none [OF xc] mc1(1) [unfolded dir_flag_def if_True]
    using E(2) mc2(1) on_path_top(1) [OF mc1(2)] same_db_items [OF s2] by simp
  moreover have "cur_at mc2 h t 0"
    unfolding cur_at_def using mc2(2,3) E(3) rk length_edge on(2) by (auto simp: keeps_def flag_bits simp del: edge.simps)
  ultimately show ?thesis using s2 by blast
qed

lemma last_path:
  assumes db: "db_ok txn mc h t" and st: "fresh mc \<or> cur_at mc h t n"
  shows "\<exists>mc'. mdb_cursor_last X txn mc key data =
       (let (k, d) = put_item (items txn mc t ! (length (entries t) - 1)) key data in Some (0, txn, mc', k, d)) \<and>
     cur_at mc' h t (length (entries t) - 1) \<and> same_db mc mc'"
proof -
  obtain mc1 y where mc1: "(if \<not> has (mc_flags mc) C_INITIALIZED \<or> mc_top mc \<noteq> 0
        then mdb_page_search X txn mc None (dir_flag False) else Some (0, txn, mc)) = Some (0, txn, mc1)"
    "on_path mc1 t (edge False t h @ [y])" "same_db mc mc1" "\<not> has (mc_flags mc1) C_DEL"
    using to_edge [OF db st] by blast
  note E = at_edge [OF same_db_ok [OF mc1(3) db] mc1(2,4)]
  obtain mc2 where mc2: "set_ki mc1 (edge_ix False (below t (edge False t h))) = Some mc2" "on_path mc2 t (edge False t (Suc h))"
    "keeps mc1 mc2"
    using E(1) by blast
  let ?mc = "mc2\<lparr>mc_flags := mc_flags mc2 OR (C_INITIALIZED OR C_EOF)\<rparr>"
  have "same_db mc2 ?mc" by (rule same_db_flags) (simp_all add: flag_bits)
  then have s2: "same_db mc ?mc" using same_db_trans [OF mc1(3) keeps_same_db [OF mc2(3)]] same_db_trans by blast
  have db2: "db_ok txn ?mc h t" by (rule same_db_ok [OF s2 db])
  have on2: "on_path ?mc t (edge False t (Suc h))" using mc2(2) by (simp add: on_path_def)
  have ok: "bt_ok (page_view txn (on_map mc)) h t" and xc: "mc_xcursor mc = None" using db by (simp_all add: db_ok_def)
  have rk: "rank t (edge False t (Suc h)) = length (entries t) - 1" using rank_edge [OF ok refl, of False] by simp
  have "cursor_item X (o_last X) True txn ?mc key data =
      (let (k, d) = put_item (items txn ?mc t ! (length (entries t) - 1)) key data in Some (0, txn, ?mc, k, d))"
    using cursor_item_path [OF db2, of "edge False t h" "edge_ix False (below t (edge False t h))"] E(3) on2 rk
    by (simp only: edge_snoc length_edge)
  then have "mdb_cursor_last X txn mc key data =
      (let (k, d) = put_item (items txn mc t ! (length (entries t) - 1)) key data in Some (0, txn, ?mc, k, d))"
    unfolding mdb_cursor_last_def Let_def clear_sub_none [OF xc] mc1(1) [unfolded dir_flag_def if_False]
    using E(2,4) mc2(1) on_path_top(1) [OF mc1(2)] same_db_items [OF s2] by simp
  moreover have "cur_at ?mc h t (length (entries t) - 1)"
    unfolding cur_at_def using on2 mc2(3) E(3) rk length_edge mc1(4) entries_pos [OF ok]
    by (auto simp: keeps_def flag_bits simp del: edge.simps)
  ultimately show ?thesis using s2 by blast
qed

lemma cur_atE:
  assumes "db_ok txn mc h t" "cur_at mc h t n"
  obtains p i where "on_path mc t (p @ [i])" "path_ok t (p @ [i])" "length p = h" "rank t (p @ [i]) = n"
    "bt_ok (page_view txn (on_map mc)) h t" "bt_ok (page_view txn (on_map mc)) 0 (below t p)" "i < width (below t p)"
    "n < length (entries t)"
proof -
  obtain q where q: "on_path mc t q" "path_ok t q" "length q = Suc h" "rank t q = n" using assms(2) by (auto simp: cur_at_def)
  then obtain p i where p: "q = p @ [i]" by (cases q rule: rev_cases) auto
  have l: "length p = h" using q(3) p by simp
  show ?thesis
    using that [of p i] q p l leaf_at [OF assms(1), of p i] assms(1) by (auto simp: db_ok_def)
qed

lemma cur_atI:
  assumes "on_path mc t p" "path_ok t p" "length p = Suc h" "has (mc_flags mc) C_INITIALIZED" "\<not> has (mc_flags mc) C_DEL"
    "has (mc_flags mc) C_EOF \<Longrightarrow> rank t p + 1 = length (entries t)"
  shows "cur_at mc h t (rank t p)"
  using assms by (auto simp: cur_at_def)

text \<open>The page of the neighbour: the same page or, at its end, the sibling's.\<close>

lemma nbr_move:
  assumes db: "db_ok txn mc h t" and on: "on_path mc t (p @ [i])" and p: "path_ok t (p @ [i])" "length p = h"
  shows "case nbr r t (p @ [i]) of
     None \<Rightarrow> step_ix r (width (below t p)) i = None \<and> mdb_cursor_sibling txn mc r = Some (MDB_NOTFOUND, txn, mc)
   | Some q \<Rightarrow> path_ok t q \<and> length q = Suc h \<and>
       (case step_ix r (width (below t p)) i of
          Some k \<Rightarrow> \<exists>mc'. set_ki mc k = Some mc' \<and> on_path mc' t q \<and> keeps mc mc'
        | None \<Rightarrow> \<exists>mc'. mdb_cursor_sibling txn mc r = Some (0, txn, mc') \<and> on_path mc' t q \<and> keeps mc mc')"
proof -
  have ok: "bt_ok (page_view txn (on_map mc)) h t" "h < CURSOR_STACK" using db by (simp_all add: db_ok_def)
  have u: "bt_ok (page_view txn (on_map mc)) 0 (below t p)" using below_ok [OF ok(1), of p] p by simp
  have i: "i < width (below t p)" using p by simp
  note S = sibling_path [OF ok(2) on _ _ ok(1), of r]
  have q: "path_ok t q \<and> length q = Suc h" if "nbr r t (p @ [i]) = Some q" for q
    using nbr_ok [OF ok(1) p(1) _ that] p(2) by simp
  show ?thesis
  proof (cases "step_ix r (width (below t p)) i")
    case None
    then show ?thesis using q S p by (auto simp: nbr_snoc split: option.split)
  next
    case (Some k)
    have "k < 2 ^ 16" using step_ix_less [OF Some i] bt_ok_small [OF u] by simp
    then show ?thesis using Some q on_path_set_ki [OF on] by (auto simp: nbr_snoc)
  qed
qed

definition next_pos :: "bt \<Rightarrow> nat \<Rightarrow> nat" where
  "next_pos t n = (if n + 1 < length (entries t) then n + 1 else n)"

lemma next_path:
  assumes db: "db_ok txn mc h t" and at: "cur_at mc h t n"
  shows "\<exists>mc'. mdb_cursor_next X txn mc key data opn =
      (if n + 1 < length (entries t)
       then let (k, d) = put_item (items txn mc t ! (n + 1)) key data in Some (0, txn, mc', k, d)
       else Some (MDB_NOTFOUND, txn, mc', key, data)) \<and> cur_at mc' h t (next_pos t n) \<and> same_db mc mc'"
proof -
  obtain p i where P: "on_path mc t (p @ [i])" "path_ok t (p @ [i])" "length p = h" "rank t (p @ [i]) = n"
    "bt_ok (page_view txn (on_map mc)) h t" "bt_ok (page_view txn (on_map mc)) 0 (below t p)" "i < width (below t p)"
    "n < length (entries t)"
    by (rule cur_atE [OF db at])
  obtain rec where rec: "mc_db txn mc = Some rec" "\<not> has (md_flags rec) MDB_DUPSORT" using db by (auto simp: db_ok_def)
  have F: "has (mc_flags mc) C_INITIALIZED" "\<not> has (mc_flags mc) C_DEL" "has (mc_flags mc) C_EOF \<longrightarrow> n + 1 = length (entries t)"
    using at by (auto simp: cur_at_def)
  note T = on_path_top [OF P(1)] and nk = bt_ok_numkeys [OF P(6)] and lu = bt_last(2) [OF P(6)]
  note M = nbr_move [OF db P(1-3), of True]
  have R: "case nbr True t (p @ [i]) of Some q \<Rightarrow> rank t q = n + 1 | None \<Rightarrow> n + 1 = length (entries t)"
    using nbr_rank [OF P(5) P(2), of True] P(3,4) by (simp split: option.split_asm)
  have g: "(width (below t p) \<le> i + 1) = (step_ix True (width (below t p)) i = None)"
    using step_guard(1) [OF P(7), of True] by simp
  show ?thesis
  proof (cases "nbr True t (p @ [i])")
    case None
    then have n: "n + 1 = length (entries t)" using R by simp
    show ?thesis
    proof (cases "has (mc_flags mc) C_EOF")
      case True
      moreover have "last_u32 (bt_page (below t p)) \<le> i" using lu M None g by (simp add: le_diff_conv)
      ultimately have "mdb_cursor_next X txn mc key data opn = Some (MDB_NOTFOUND, txn, mc, key, data)"
        using F T by (simp add: mdb_cursor_next_def)
      then show ?thesis using n at by (intro exI [of _ mc]) (simp add: next_pos_def same_db_def)
    next
      case False
      let ?mc = "mc\<lparr>mc_flags := mc_flags mc OR C_EOF\<rparr>"
      have "mdb_cursor_next X txn mc key data opn = Some (MDB_NOTFOUND, txn, ?mc, key, data)"
        using False F T nk M None g rec by (simp add: mdb_cursor_next_def Let_def MDB_NOTFOUND_def)
      moreover have "cur_at ?mc h t (rank t (p @ [i]))"
        using F P n by (intro cur_atI) (auto simp: on_path_def flag_bits)
      moreover have "same_db mc ?mc" by (rule same_db_flags) (simp_all add: flag_bits)
      ultimately show ?thesis using n P(4) by (intro exI [of _ ?mc]) (simp add: next_pos_def)
    qed
  next
    case (Some q)
    then have rq: "rank t q = n + 1" and q: "path_ok t q" "length q = Suc h" using R M by auto
    obtain q' j where qj: "q = q' @ [j]" "length q' = h" using q(2) by (cases q rule: rev_cases) auto
    have less: "n + 1 < length (entries t)" using leaf_at(1) [OF db, of q' j] q qj rq by simp
    then have eof: "\<not> has (mc_flags mc) C_EOF" using F(3) by auto
    have "\<exists>mc'. mdb_cursor_next X txn mc key data opn = cursor_item X (o_first X) False txn mc' key data \<and> on_path mc' t q \<and> keeps mc mc'"
    proof (cases "step_ix True (width (below t p)) i")
      case None
      then show ?thesis
        using Some M F T nk g rec eof by (auto simp: mdb_cursor_next_def Let_def)
    next
      case K: (Some k)
      then have "k = i + 1" using step_guard(2) [OF P(7) K] by simp
      then show ?thesis
        using K Some M F T nk g rec eof by (auto simp: mdb_cursor_next_def Let_def)
    qed
    then obtain mc' where mc': "mdb_cursor_next X txn mc key data opn = cursor_item X (o_first X) False txn mc' key data"
      "on_path mc' t q" "keeps mc mc'"
      by blast
    have s: "same_db mc mc'" by (rule keeps_same_db [OF mc'(3)])
    have "cur_at mc' h t (rank t q)" using mc' q F eof by (intro cur_atI) (auto simp: keeps_def)
    moreover have "mdb_cursor_next X txn mc key data opn =
        (let (k, d) = put_item (items txn mc t ! (n + 1)) key data in Some (0, txn, mc', k, d))"
      using cursor_item_path [OF same_db_ok [OF s db], of q' j] mc' q qj rq same_db_items [OF s] by simp
    ultimately show ?thesis using less rq s by (intro exI [of _ mc']) (simp add: next_pos_def)
  qed
qed

text \<open>\<^verbatim>\<open>mdb_cursor_prev\<close> of a cursor that is on an entry or, after \<^verbatim>\<open>mdb_cursor_last\<close>, one past the last.\<close>

definition cleared :: "'x cursor \<Rightarrow> 'x cursor" where
  "cleared mc = mc\<lparr>mc_flags := mc_flags mc AND NOT (C_EOF OR C_DEL)\<rparr>"

lemma cleared_same: "same_db mc (cleared mc)" "on_path (cleared mc) t p = on_path mc t p" "top_pg (cleared mc) = top_pg mc"
  unfolding cleared_def by (rule same_db_flags) (simp_all add: flag_bits on_path_def top_pg_def)

lemma cleared_flags:
  "has (mc_flags mc) C_INITIALIZED \<Longrightarrow> has (mc_flags (cleared mc)) C_INITIALIZED"
  "\<not> has (mc_flags (cleared mc)) C_DEL" "\<not> has (mc_flags (cleared mc)) C_EOF"
  by (simp_all add: cleared_def flag_bits)

lemma prev_item:
  assumes db: "db_ok txn mc h t" and q: "on_path mc' t (p @ [i])" "path_ok t (p @ [i])" "length p = h" and k: "keeps (cleared mc) mc'"
    and init: "has (mc_flags mc) C_INITIALIZED"
  shows "IS_LEAF (bt_page (below t p))"
    "cursor_item X (o_last X) False txn mc' key data =
       (let (k, d) = put_item (items txn mc t ! rank t (p @ [i])) key data in Some (0, txn, mc', k, d))"
    "cur_at mc' h t (rank t (p @ [i]))" "same_db mc mc'"
proof -
  show s: "same_db mc mc'" by (rule same_db_trans [OF cleared_same(1) keeps_same_db [OF k]])
  show "cursor_item X (o_last X) False txn mc' key data =
       (let (k, d) = put_item (items txn mc t ! rank t (p @ [i])) key data in Some (0, txn, mc', k, d))"
    using cursor_item_path [OF same_db_ok [OF s db] q(2,3,1)] same_db_items [OF s] by simp
  show "cur_at mc' h t (rank t (p @ [i]))"
    using k q cleared_flags [of mc] init by (intro cur_atI) (auto simp: keeps_def)
  show "IS_LEAF (bt_page (below t p))" using bt_ok_kind [OF leaf_at(3) [OF db q(2,3)]] by simp
qed

lemma prev_path:
  assumes db: "db_ok txn mc h t" and at: "cur_at mc h t n"
  shows "\<exists>mc'. mdb_cursor_prev X txn mc key data opn =
      (if 0 < n then let (k, d) = put_item (items txn mc t ! (n - 1)) key data in Some (0, txn, mc', k, d)
       else Some (MDB_NOTFOUND, txn, mc', key, data)) \<and> cur_at mc' h t (n - 1) \<and> same_db mc mc'"
proof -
  obtain p i where P: "on_path mc t (p @ [i])" "path_ok t (p @ [i])" "length p = h" "rank t (p @ [i]) = n"
    "bt_ok (page_view txn (on_map mc)) h t" "bt_ok (page_view txn (on_map mc)) 0 (below t p)" "i < width (below t p)"
    "n < length (entries t)"
    by (rule cur_atE [OF db at])
  obtain rec where rec: "mc_db txn mc = Some rec" "\<not> has (md_flags rec) MDB_DUPSORT" using db by (auto simp: db_ok_def)
  have F: "has (mc_flags mc) C_INITIALIZED" using at by (auto simp: cur_at_def)
  let ?mc = "cleared mc"
  have db1: "db_ok txn ?mc h t" by (rule same_db_ok [OF cleared_same(1) db])
  have on1: "on_path ?mc t (p @ [i])" using P(1) cleared_same(2) by blast
  note T = on_path_top [OF P(1)] 
  note M = nbr_move [OF db1 on1 P(2,3), of False]
  have R: "case nbr False t (p @ [i]) of Some q \<Rightarrow> rank t q + 1 = n | None \<Rightarrow> n = 0"
    using nbr_rank [OF P(5) P(2), of False] P(3,4) by (simp split: option.split_asm)
  note run = mdb_cursor_prev_def [of X txn mc key data opn, folded cleared_def]
  show ?thesis
  proof (cases "nbr False t (p @ [i])")
    case None
    then have n: "n = 0" and i: "i = 0" using R M by (auto simp: step_ix_def split: if_split_asm)
    then have "mdb_cursor_prev X txn mc key data opn = Some (MDB_NOTFOUND, txn, ?mc, key, data)"
      using None M F T rec unfolding run by (simp add: Let_def MDB_NOTFOUND_def)
    moreover have "cur_at ?mc h t (rank t (p @ [i]))"
      using cleared_flags [of mc] F on1 P by (intro cur_atI) auto
    ultimately show ?thesis using n P(4) cleared_same(1) by (intro exI [of _ ?mc]) simp
  next
    case (Some q)
    then have rq: "rank t q + 1 = n" and q: "path_ok t q" "length q = Suc h" using R M by auto
    obtain q' j where qj: "q = q' @ [j]" "length q' = h" using q(2) by (cases q rule: rev_cases) auto
    have "\<exists>mc'. mdb_cursor_prev X txn mc key data opn = (if IS_LEAF (bt_page (below t q')) then cursor_item X (o_last X) False txn mc' key data
        else Some (MDB_CORRUPTED, txn, mc', key, data)) \<and> on_path mc' t q \<and> keeps ?mc mc'"
    proof (cases "step_ix False (width (below t p)) i")
      case None
      then have i: "i = 0" by (simp add: step_ix_def split: if_split_asm)
      obtain mc1 where mc1: "mdb_cursor_sibling txn ?mc False = Some (0, txn, mc1)" "on_path mc1 t q" "keeps ?mc mc1"
        using None Some M by auto
      have ok1: "bt_ok (page_view txn (on_map mc)) 0 (below t q')" using below_ok [OF P(5), of q'] q qj by simp
      have "sib False t (p @ [i]) = Some q" using None Some by (simp add: nbr_snoc)
      then have j: "j = last_u16 (bt_page (below t q'))"
      proof (cases p rule: rev_cases)
        case Nil
        then show ?thesis using \<open>sib False t (p @ [i]) = Some q\<close> by simp
      next
        case (snoc p' a)
        then show ?thesis
          using \<open>sib False t (p @ [i]) = Some q\<close> qj bt_last(1) [OF ok1]
          by (auto simp: sib_snoc edge_ix_def split: option.split_asm)
      qed
      obtain mc2 where mc2: "set_ki mc1 j = Some mc2" "on_path mc2 t q" "keeps mc1 mc2"
        using on_path_set_ki [of mc1 t q' j j] mc1(2) qj bt_ok_small [OF ok1] q(1) by auto
      have "top_pg mc2 = Some (bt_page (below t q'))" "top_pg mc1 = Some (bt_page (below t q'))"
        using on_path_top(1) mc2(2) mc1(2) qj by blast+
      then have "mdb_cursor_prev X txn mc key data opn = (if IS_LEAF (bt_page (below t q')) then cursor_item X (o_last X) False txn mc2 key data
        else Some (MDB_CORRUPTED, txn, mc2, key, data))"
        using F T rec mc1(1) mc2(1) i j unfolding run by (simp add: Let_def)
      then show ?thesis using mc2 keeps_trans [OF mc1(3) mc2(3)] by blast
    next
      case K: (Some k)
      then have k: "k = i - 1" "i \<noteq> 0" by (auto simp: step_ix_def split: if_split_asm)
      obtain mc1 where mc1: "set_ki ?mc k = Some mc1" "on_path mc1 t q" "keeps ?mc mc1" using K Some M by auto
      have "top_pg mc1 = Some (bt_page (below t q'))" using on_path_top(1) mc1(2) qj by blast
      then have "mdb_cursor_prev X txn mc key data opn = (if IS_LEAF (bt_page (below t q')) then cursor_item X (o_last X) False txn mc1 key data
        else Some (MDB_CORRUPTED, txn, mc1, key, data))"
        using F T rec mc1(1) k unfolding run by (simp add: Let_def)
      then show ?thesis using mc1 by blast
    qed
    then obtain mc' where mc': "mdb_cursor_prev X txn mc key data opn = (if IS_LEAF (bt_page (below t q')) then cursor_item X (o_last X) False txn mc' key data
        else Some (MDB_CORRUPTED, txn, mc', key, data))" "on_path mc' t q" "keeps ?mc mc'" by blast
    note I = prev_item [OF db mc'(2) [unfolded qj(1)] q(1) [unfolded qj(1)] qj(2) mc'(3) F]
    show ?thesis using mc'(1) I qj(1) rq by (intro exI [of _ mc']) auto
  qed
qed

end
