(* ===== verification/Lmdb_Scan.thy ===== *)
theory Lmdb_Scan
  imports Lmdb_Walk
begin

text \<open>
  A cursor as a position in the sequence of all items of its database. Every operation of
  \<^verbatim>\<open>mdb_cursor_get\<close> except the positioning at a key is simulated by an abstract cursor, on a list; so a
  scan visits every item, in order, and ends.
\<close>

unbundle bit_operations_syntax

section \<open>The abstract cursor\<close>

datatype cpos = Fresh | At nat

type_synonym request = "cursor_op \<times> bytes option \<times> bytes option"
type_synonym reply = "int \<times> bytes option \<times> bytes option"

definition go :: "(bytes \<times> bytes) list \<Rightarrow> bytes option \<Rightarrow> bytes option \<Rightarrow> nat \<Rightarrow> reply \<times> cpos" where
  "go es key data n = ((0, put_item (es ! n) key data), At n)"

definition refuse :: "int \<Rightarrow> bytes option \<Rightarrow> bytes option \<Rightarrow> cpos \<Rightarrow> reply \<times> cpos" where
  "refuse rc key data s = ((rc, key, data), s)"

definition list_next :: "(bytes \<times> bytes) list \<Rightarrow> bytes option \<Rightarrow> bytes option \<Rightarrow> cpos \<Rightarrow> reply \<times> cpos" where
  "list_next es key data s =
     (case s of Fresh \<Rightarrow> go es key data 0
      | At n \<Rightarrow> if n + 1 < length es then go es key data (n + 1) else refuse MDB_NOTFOUND key data s)"

definition list_prev :: "(bytes \<times> bytes) list \<Rightarrow> bytes option \<Rightarrow> bytes option \<Rightarrow> cpos \<Rightarrow> reply \<times> cpos" where
  "list_prev es key data s =
     (case s of Fresh \<Rightarrow> go es key data (length es - 1)
      | At n \<Rightarrow> if 0 < n then go es key data (n - 1) else refuse MDB_NOTFOUND key data s)"

text \<open>The operations for sorted duplicates are refused: there are none.\<close>

definition list_get :: "(bytes \<times> bytes) list \<Rightarrow> cpos \<Rightarrow> request \<Rightarrow> reply \<times> cpos" where
  "list_get es s = (\<lambda>(opn, key, data).
     (case opn of
        MDB_FIRST \<Rightarrow> go es key data 0
      | MDB_LAST \<Rightarrow> go es key data (length es - 1)
      | MDB_NEXT \<Rightarrow> list_next es key data s
      | MDB_NEXT_DUP \<Rightarrow> list_next es key data s
      | MDB_NEXT_NODUP \<Rightarrow> list_next es key data s
      | MDB_PREV \<Rightarrow> list_prev es key data s
      | MDB_PREV_DUP \<Rightarrow> list_prev es key data s
      | MDB_PREV_NODUP \<Rightarrow> list_prev es key data s
      | MDB_GET_CURRENT \<Rightarrow> (case s of Fresh \<Rightarrow> refuse EINVAL key data s | At n \<Rightarrow> go es key data n)
      | MDB_NEXT_MULTIPLE \<Rightarrow> refuse (if data = None then EINVAL else MDB_INCOMPATIBLE) key data s
      | MDB_PREV_MULTIPLE \<Rightarrow> refuse (if data = None then EINVAL else MDB_INCOMPATIBLE) key data s
      | MDB_GET_BOTH \<Rightarrow> refuse (if data = None then EINVAL else MDB_INCOMPATIBLE) key data s
      | MDB_GET_BOTH_RANGE \<Rightarrow> refuse (if data = None then EINVAL else MDB_INCOMPATIBLE) key data s
      | _ \<Rightarrow> refuse (if data = None \<or> s = Fresh then EINVAL else MDB_INCOMPATIBLE) key data s))"

definition by_position :: "request \<Rightarrow> bool" where
  "by_position q \<longleftrightarrow> fst q \<notin> {MDB_SET, MDB_SET_KEY, MDB_SET_RANGE}"

section \<open>The simulation\<close>

definition cursor_step :: "'x ops \<Rightarrow> txn \<times> 'x cursor \<Rightarrow> request \<Rightarrow> (reply \<times> (txn \<times> 'x cursor)) option" where
  "cursor_step X s q =
     (case (s, q) of ((txn, mc), (opn, key, data)) \<Rightarrow>
        map_option (\<lambda>(rc, txn, mc, key, data). ((rc, key, data), (txn, mc))) (mdb_cursor_get X txn mc key data opn))"

definition pos_of :: "nat \<Rightarrow> bt \<Rightarrow> 'x cursor \<Rightarrow> cpos" where
  "pos_of h t mc = (if has (mc_flags mc) C_INITIALIZED then At (rank t (take (Suc h) (mc_ki mc))) else Fresh)"

text \<open>The cursor is new or on an item, in the database of the cursor \<open>mc0\<close>.\<close>

definition cur_ok :: "txn \<Rightarrow> 'x cursor \<Rightarrow> nat \<Rightarrow> bt \<Rightarrow> txn \<times> 'x cursor \<Rightarrow> bool" where
  "cur_ok txn0 mc0 h t s \<longleftrightarrow>
     fst s = txn0 \<and> same_db mc0 (snd s) \<and> db_ok txn0 (snd s) h t \<and> (fresh (snd s) \<or> (\<exists>n. cur_at (snd s) h t n))"

lemma pos_fresh: "fresh mc \<Longrightarrow> pos_of h t mc = Fresh"
  by (simp add: fresh_def pos_of_def)

lemma pos_at: "cur_at mc h t n \<Longrightarrow> pos_of h t mc = At n"
  by (auto simp: cur_at_def pos_of_def on_path_def)

lemma cur_ok_moved:
  assumes "cur_ok txn0 mc0 h t (txn0, mc)" "same_db mc mc'" "cur_at mc' h t n"
  shows "cur_ok txn0 mc0 h t (txn0, mc')"
proof -
  have "db_ok txn0 mc h t" "same_db mc0 mc" using assms(1) by (simp_all add: cur_ok_def)
  then show ?thesis using assms(2,3) same_db_ok [OF assms(2)] same_db_trans [OF _ assms(2)] by (auto simp: cur_ok_def)
qed

lemma prev_fresh:
  assumes db: "db_ok txn mc h t" and fr: "fresh mc"
  shows "\<exists>mc'. mdb_cursor_prev X txn mc key data opn =
      (let (k, d) = put_item (items txn mc t ! (length (entries t) - 1)) key data in Some (0, txn, mc', k, d)) \<and>
     cur_at mc' h t (length (entries t) - 1) \<and> same_db mc mc'"
proof -
  let ?n = "length (entries t) - 1"
  obtain mc1 where mc1: "mdb_cursor_last X txn mc key data =
      (let (k, d) = put_item (items txn mc t ! ?n) key data in Some (0, txn, mc1, k, d))" "cur_at mc1 h t ?n" "same_db mc mc1"
    using last_path [OF db disjI1 [OF fr]] by blast
  have db1: "db_ok txn mc1 h t" by (rule same_db_ok [OF mc1(3) db])
  obtain p i where P: "on_path mc1 t (p @ [i])" "path_ok t (p @ [i])" "length p = h" "rank t (p @ [i]) = ?n"
    "bt_ok (page_view txn (on_map mc1)) h t" "bt_ok (page_view txn (on_map mc1)) 0 (below t p)" "i < width (below t p)"
    by (rule cur_atE [OF db1 mc1(2)])
  have i: "i < 2 ^ 16" "i + 1 < 2 ^ 16" using P(7) bt_ok_small [OF P(6)] by auto
  obtain mc2 where mc2: "set_ki mc1 (i + 1) = Some mc2" "on_path mc2 t (p @ [i + 1])" "keeps mc1 mc2"
    using on_path_set_ki [OF P(1) i(2)] by blast
  have on2: "on_path (cleared mc2) t (p @ [i + 1])" using mc2(2) cleared_same(2) by blast
  obtain mc3 where mc3: "set_ki (cleared mc2) i = Some mc3" "on_path mc3 t (p @ [i])" "keeps (cleared mc2) mc3"
    using on_path_set_ki [OF on2 i(1)] by blast
  have s2: "same_db mc mc2" by (rule same_db_trans [OF mc1(3) keeps_same_db [OF mc2(3)]])
  have db2: "db_ok txn mc2 h t" by (rule same_db_ok [OF s2 db])
  have init: "has (mc_flags mc2) C_INITIALIZED" using mc1(2) mc2(3) by (simp add: cur_at_def keeps_def)
  note I = prev_item [OF db2 mc3(2) P(2,3) mc3(3) init]
  obtain rec where rec: "mc_db txn mc2 = Some rec" "\<not> has (md_flags rec) MDB_DUPSORT" using db2 by (auto simp: db_ok_def)
  have nk: "\<not> has (mc_flags mc) C_INITIALIZED" using fr by (simp add: fresh_def)
  have tk: "top_pg mc3 = Some (bt_page (below t p))" by (rule on_path_top(1) [OF mc3(2)])
  have "mdb_cursor_prev X txn mc key data opn =
      (let (k, d) = put_item (items txn mc t ! ?n) key data in cursor_item X (o_last X) False txn mc3 k d)"
    using nk mc1(1) on_path_top(2) [OF P(1)] mc2(1) on_path_top [OF mc2(2)] rec mc3(1) tk I(1)
    unfolding mdb_cursor_prev_def cleared_def [symmetric] by (simp add: Let_def split: prod.split)
  moreover have "items txn mc2 t = items txn mc t" by (rule same_db_items [OF s2])
  ultimately have "mdb_cursor_prev X txn mc key data opn =
      (let (k, d) = put_item (items txn mc t ! ?n) key data in Some (0, txn, mc3, k, d))"
    using I(2) P(4) by (cases key; cases data) (simp_all add: put_item_def)
  then show ?thesis using I(3,4) P(4) same_db_trans [OF s2] by (intro exI [of _ mc3]) auto
qed

lemma items_length [simp]: "length (items txn mc t) = length (entries t)"
  by (simp add: items_def)

text \<open>An operation that arrives on an item, and one that is refused.\<close>

lemma step_goes:
  assumes ok: "cur_ok txn0 mc0 h t (txn0, mc)"
    and run: "cursor_switch X txn0 mc key data opn =
        (let (k, d) = put_item (items txn0 mc t ! n) key data in Some (0, txn0, mc', k, d))"
      "cur_at mc' h t n" "same_db mc mc'"
  shows "\<exists>s'. cursor_step X (txn0, mc) (opn, key, data) = Some (fst (go (items txn0 mc0 t) key data n), s') \<and>
     cur_ok txn0 mc0 h t s' \<and> snd (go (items txn0 mc0 t) key data n) = pos_of h t (snd s')"
proof -
  have "\<not> has (mt_flags txn0) MDB_TXN_BLOCKED" using ok by (auto simp: cur_ok_def db_ok_def)
  moreover have "\<not> has (mc_flags mc') C_DEL" using run(2) by (auto simp: cur_at_def)
  moreover have "items txn0 mc t = items txn0 mc0 t" using ok same_db_items [of mc0 mc] by (simp add: cur_ok_def)
  ultimately have "cursor_step X (txn0, mc) (opn, key, data) = Some (fst (go (items txn0 mc0 t) key data n), (txn0, mc'))"
    using run(1) by (simp add: cursor_step_def mdb_cursor_get_def go_def split: prod.split)
  then show ?thesis using cur_ok_moved [OF ok run(3,2)] pos_at [OF run(2)] by (simp add: go_def)
qed

lemma step_refuses:
  assumes ok: "cur_ok txn0 mc0 h t (txn0, mc)" and run: "cursor_switch X txn0 mc key data opn = Some (rc, txn0, mc', key, data)"
    and mc': "mc' = mc \<or> (\<exists>n. cur_at mc' h t n \<and> pos_of h t mc' = pos_of h t mc \<and> same_db mc mc')"
  shows "\<exists>s'. cursor_step X (txn0, mc) (opn, key, data) = Some (fst (refuse rc key data (pos_of h t mc)), s') \<and>
     cur_ok txn0 mc0 h t s' \<and> snd (refuse rc key data (pos_of h t mc)) = pos_of h t (snd s')"
proof -
  have "\<not> has (mt_flags txn0) MDB_TXN_BLOCKED" using ok by (auto simp: cur_ok_def db_ok_def)
  moreover have "\<not> has (mc_flags mc') C_DEL" using mc' ok by (auto simp: cur_ok_def cur_at_def fresh_def)
  ultimately have "cursor_step X (txn0, mc) (opn, key, data) = Some (fst (refuse rc key data (pos_of h t mc)), (txn0, mc'))"
    using run by (simp add: cursor_step_def mdb_cursor_get_def refuse_def)
  then show ?thesis using mc' ok cur_ok_moved [OF ok] by (auto simp: refuse_def)
qed

lemma step_fresh:
  assumes ok: "cur_ok txn0 mc0 h t (txn0, mc)" and fr: "fresh mc" and q: "by_position (opn, key, data)"
  shows "\<exists>s'. cursor_step X (txn0, mc) (opn, key, data) = Some (fst (list_get (items txn0 mc0 t) Fresh (opn, key, data)), s') \<and>
     cur_ok txn0 mc0 h t s' \<and> snd (list_get (items txn0 mc0 t) Fresh (opn, key, data)) = pos_of h t (snd s')"
proof -
  have db: "db_ok txn0 mc h t" using ok by (simp add: cur_ok_def)
  have ni: "\<not> has (mc_flags mc) C_INITIALIZED" "\<not> has (mc_flags mc) C_DEL" using fr by (simp_all add: fresh_def)
  obtain rec where rec: "mc_db txn0 mc = Some rec" "\<not> has (md_flags rec) MDB_DUPFIXED" "mc_xcursor mc = None"
    using db by (auto simp: db_ok_def)
  obtain mc1 where mc1: "mdb_cursor_first X txn0 mc key data =
      (let (k, d) = put_item (items txn0 mc t ! 0) key data in Some (0, txn0, mc1, k, d))" "cur_at mc1 h t 0" "same_db mc mc1"
    using first_path [OF db disjI1 [OF fr]] by blast
  obtain mc2 where mc2: "mdb_cursor_last X txn0 mc key data =
      (let (k, d) = put_item (items txn0 mc t ! (length (entries t) - 1)) key data in Some (0, txn0, mc2, k, d))"
      "cur_at mc2 h t (length (entries t) - 1)" "same_db mc mc2"
    using last_path [OF db disjI1 [OF fr]] by blast
  obtain mc3 where mc3: "mdb_cursor_prev X txn0 mc key data opn =
      (let (k, d) = put_item (items txn0 mc t ! (length (entries t) - 1)) key data in Some (0, txn0, mc3, k, d))"
      "cur_at mc3 h t (length (entries t) - 1)" "same_db mc mc3"
    using prev_fresh [OF db fr] by blast
  have nx: "mdb_cursor_next X txn0 mc key data opn = mdb_cursor_first X txn0 mc key data"
    using ni by (simp add: mdb_cursor_next_def)
  consider (first) "opn \<in> {MDB_FIRST, MDB_NEXT, MDB_NEXT_DUP, MDB_NEXT_NODUP}" | (last) "opn = MDB_LAST"
    | (prev) "opn \<in> {MDB_PREV, MDB_PREV_DUP, MDB_PREV_NODUP}"
    | (no) "opn \<in> {MDB_FIRST_DUP, MDB_LAST_DUP, MDB_GET_CURRENT, MDB_GET_BOTH, MDB_GET_BOTH_RANGE, MDB_GET_MULTIPLE,
        MDB_NEXT_MULTIPLE, MDB_PREV_MULTIPLE}"
    using q by (cases opn) (auto simp: by_position_def)
  then show ?thesis
  proof cases
    case first
    then have "cursor_switch X txn0 mc key data opn = mdb_cursor_first X txn0 mc key data"
      "list_get (items txn0 mc0 t) Fresh (opn, key, data) = go (items txn0 mc0 t) key data 0"
      using nx by (auto simp: cursor_switch_def list_get_def list_next_def)
    then show ?thesis using step_goes [OF ok _ mc1(2,3), of X key data opn] mc1(1) by simp
  next
    case last
    then have "cursor_switch X txn0 mc key data opn = mdb_cursor_last X txn0 mc key data"
      "list_get (items txn0 mc0 t) Fresh (opn, key, data) = go (items txn0 mc0 t) key data (length (entries t) - 1)"
      by (simp_all add: cursor_switch_def list_get_def)
    then show ?thesis using step_goes [OF ok _ mc2(2,3), of X key data opn] mc2(1) by simp
  next
    case prev
    then have "cursor_switch X txn0 mc key data opn = mdb_cursor_prev X txn0 mc key data opn"
      "list_get (items txn0 mc0 t) Fresh (opn, key, data) = go (items txn0 mc0 t) key data (length (entries t) - 1)"
      by (auto simp: cursor_switch_def list_get_def list_prev_def)
    then show ?thesis using step_goes [OF ok _ mc3(2,3), of X key data opn] mc3(1) by simp
  next
    case no
    then have "\<exists>rc. cursor_switch X txn0 mc key data opn = Some (rc, txn0, mc, key, data) \<and>
        list_get (items txn0 mc0 t) Fresh (opn, key, data) = refuse rc key data Fresh"
      by (auto simp: cursor_switch_def list_get_def mmove_def get_current_def get_set_def get_multiple_def
          next_multiple_def prev_multiple_def ni rec)
    then show ?thesis using step_refuses [OF ok _ disjI1 [OF refl], of X key data opn] pos_fresh [OF fr] by auto
  qed
qed

lemma step_at:
  assumes ok: "cur_ok txn0 mc0 h t (txn0, mc)" and at: "cur_at mc h t n" and q: "by_position (opn, key, data)"
  shows "\<exists>s'. cursor_step X (txn0, mc) (opn, key, data) = Some (fst (list_get (items txn0 mc0 t) (At n) (opn, key, data)), s') \<and>
     cur_ok txn0 mc0 h t s' \<and> snd (list_get (items txn0 mc0 t) (At n) (opn, key, data)) = pos_of h t (snd s')"
proof -
  have db: "db_ok txn0 mc h t" using ok by (simp add: cur_ok_def)
  have init: "has (mc_flags mc) C_INITIALIZED" using at by (simp add: cur_at_def)
  obtain rec where rec: "mc_db txn0 mc = Some rec" "\<not> has (md_flags rec) MDB_DUPFIXED" "mc_xcursor mc = None"
    using db by (auto simp: db_ok_def)
  have it: "items txn0 mc t = items txn0 mc0 t" using ok same_db_items [of mc0 mc] by (simp add: cur_ok_def)
  consider (first) "opn = MDB_FIRST" | (last) "opn = MDB_LAST" | (cur) "opn = MDB_GET_CURRENT"
    | (nxt) "opn \<in> {MDB_NEXT, MDB_NEXT_DUP, MDB_NEXT_NODUP}" | (prev) "opn \<in> {MDB_PREV, MDB_PREV_DUP, MDB_PREV_NODUP}"
    | (no) "opn \<in> {MDB_FIRST_DUP, MDB_LAST_DUP, MDB_GET_BOTH, MDB_GET_BOTH_RANGE, MDB_GET_MULTIPLE,
        MDB_NEXT_MULTIPLE, MDB_PREV_MULTIPLE}"
    using q by (cases opn) (auto simp: by_position_def)
  then show ?thesis
  proof cases
    case first
    obtain mc1 where mc1: "mdb_cursor_first X txn0 mc key data =
        (let (k, d) = put_item (items txn0 mc t ! 0) key data in Some (0, txn0, mc1, k, d))" "cur_at mc1 h t 0" "same_db mc mc1"
      using first_path [OF db disjI2 [OF at]] by blast
    then show ?thesis
      using step_goes [OF ok _ mc1(2,3), of X key data opn] by (simp add: first cursor_switch_def list_get_def)
  next
    case last
    obtain mc1 where mc1: "mdb_cursor_last X txn0 mc key data =
        (let (k, d) = put_item (items txn0 mc t ! (length (entries t) - 1)) key data in Some (0, txn0, mc1, k, d))"
        "cur_at mc1 h t (length (entries t) - 1)" "same_db mc mc1"
      using last_path [OF db disjI2 [OF at]] by blast
    then show ?thesis
      using step_goes [OF ok _ mc1(2,3), of X key data opn] by (simp add: last cursor_switch_def list_get_def)
  next
    case cur
    obtain p i where P: "on_path mc t (p @ [i])" "path_ok t (p @ [i])" "length p = h" "rank t (p @ [i]) = n"
      by (rule cur_atE [OF db at])
    have "cursor_switch X txn0 mc key data opn =
        (let (k, d) = put_item (items txn0 mc t ! n) key data in Some (0, txn0, mc, k, d))"
      using get_current_path [OF db P(2,3,1) init] P(4) by (simp add: cur cursor_switch_def)
    then show ?thesis
      using step_goes [OF ok _ at, of X key data opn] by (simp add: cur list_get_def same_db_def)
  next
    case nxt
    have sw: "cursor_switch X txn0 mc key data opn = mdb_cursor_next X txn0 mc key data opn"
      "list_get (items txn0 mc0 t) (At n) (opn, key, data) = list_next (items txn0 mc0 t) key data (At n)"
      using nxt by (auto simp: cursor_switch_def list_get_def)
    obtain mc1 where mc1: "mdb_cursor_next X txn0 mc key data opn =
      (if n + 1 < length (entries t)
       then let (k, d) = put_item (items txn0 mc t ! (n + 1)) key data in Some (0, txn0, mc1, k, d)
       else Some (MDB_NOTFOUND, txn0, mc1, key, data))" "cur_at mc1 h t (next_pos t n)" "same_db mc mc1"
      using next_path [OF db at] by blast
    show ?thesis
    proof (cases "n + 1 < length (entries t)")
      case True
      then show ?thesis
        using mc1 step_goes [OF ok _ _ mc1(3), of X key data opn "n + 1"] unfolding sw(2)
        by (simp add: sw(1) list_next_def next_pos_def)
    next
      case False
      then show ?thesis
        using mc1 step_refuses [OF ok, of X key data opn MDB_NOTFOUND mc1] pos_at [OF at] pos_at [of mc1 h t n] unfolding sw(2)
        by (auto simp: sw(1) list_next_def next_pos_def)
    qed
  next
    case prev
    have sw: "cursor_switch X txn0 mc key data opn = mdb_cursor_prev X txn0 mc key data opn"
      "list_get (items txn0 mc0 t) (At n) (opn, key, data) = list_prev (items txn0 mc0 t) key data (At n)"
      using prev by (auto simp: cursor_switch_def list_get_def)
    obtain mc1 where mc1: "mdb_cursor_prev X txn0 mc key data opn =
      (if 0 < n then let (k, d) = put_item (items txn0 mc t ! (n - 1)) key data in Some (0, txn0, mc1, k, d)
       else Some (MDB_NOTFOUND, txn0, mc1, key, data))" "cur_at mc1 h t (n - 1)" "same_db mc mc1"
      using prev_path [OF db at] by blast
    show ?thesis
    proof (cases "0 < n")
      case True
      then show ?thesis
        using mc1 step_goes [OF ok _ mc1(2,3), of X key data opn] unfolding sw(2) by (simp add: sw(1) list_prev_def)
    next
      case False
      then show ?thesis
        using mc1 step_refuses [OF ok, of X key data opn MDB_NOTFOUND mc1] pos_at [OF at] pos_at [of mc1 h t n] unfolding sw(2)
        by (auto simp: sw(1) list_prev_def)
    qed
  next
    case no
    then have "\<exists>rc. cursor_switch X txn0 mc key data opn = Some (rc, txn0, mc, key, data) \<and>
        list_get (items txn0 mc0 t) (At n) (opn, key, data) = refuse rc key data (At n)"
      by (auto simp: cursor_switch_def list_get_def mmove_def get_set_def get_multiple_def
          next_multiple_def prev_multiple_def init rec)
    then show ?thesis using step_refuses [OF ok _ disjI1 [OF refl], of X key data opn] pos_at [OF at] by auto
  qed
qed

interpretation cur: simulation_on "cursor_step X" "list_get (items txn0 mc0 t)" "\<lambda>s. pos_of h t (snd s)" "cur_ok txn0 mc0 h t" by_position
  for X :: "'x ops" and txn0 mc0 h t
proof
  fix s :: "txn \<times> 'x cursor" and q
  assume ok: "cur_ok txn0 mc0 h t s" and q: "by_position q"
  obtain mc where s: "s = (txn0, mc)" using ok by (cases s) (simp add: cur_ok_def)
  obtain opn key data where q': "q = (opn, key, data)" by (cases q)
  have "\<exists>s'. cursor_step X s q = Some (fst (list_get (items txn0 mc0 t) (pos_of h t mc) q), s') \<and>
     cur_ok txn0 mc0 h t s' \<and> snd (list_get (items txn0 mc0 t) (pos_of h t mc) q) = pos_of h t (snd s')"
  proof (cases "fresh mc")
    case True
    then show ?thesis using step_fresh [of txn0 mc0 h t mc opn key data X] ok q by (simp add: s q' pos_fresh)
  next
    case False
    then obtain n where "cur_at mc h t n" using ok by (auto simp: cur_ok_def s)
    then show ?thesis using step_at [of txn0 mc0 h t mc n opn key data X] ok q by (simp add: s q' pos_at)
  qed
  then show "\<exists>r s'. cursor_step X s q = Some (r, s') \<and> cur_ok txn0 mc0 h t s' \<and>
      list_get (items txn0 mc0 t) (pos_of h t (snd s)) q = (r, pos_of h t (snd s'))"
    by (auto simp: s prod_eq_iff)
qed

end
