(* ===== verification/Lmdb_Lookup.thy ===== *)
theory Lmdb_Lookup
  imports Lmdb_Scan
begin

text \<open>
  Looking up a key: the descent by key, \<^verbatim>\<open>mdb_cursor_set\<close> on a new cursor and \<^verbatim>\<open>mdb_get\<close>, on a tree whose
  keys are in lexical order. The descent ends on the leaf page where the key belongs, and the
  position found is the number of items with smaller keys.
\<close>

unbundle bit_operations_syntax

section \<open>Sorted trees\<close>

abbreviation lex_le :: "bytes \<Rightarrow> bytes \<Rightarrow> bool" where "lex_le a b \<equiv> \<not> lex_less b a"

text \<open>
  The keys of a page ascend; the first key of a branch page is not used. The keys below an entry
  of a branch page are not smaller than its key, and those before it are smaller.
\<close>

fun bt_sorted :: "bt \<Rightarrow> bool" where
  "bt_sorted (Lf mp cs) \<longleftrightarrow> sorted_wrt lex_less (map c_key cs)"
| "bt_sorted (Br mp cs ts) \<longleftrightarrow>
     sorted_wrt lex_less (tl (map c_key cs)) \<and> (\<forall>t\<in>set ts. bt_sorted t) \<and>
     (\<forall>i<length ts. 0 < i \<longrightarrow>
        (\<forall>j<length ts. \<forall>c\<in>set (entries (ts ! j)).
           if i \<le> j then lex_le (c_key (cs ! i)) (c_key c) else lex_less (c_key c) (c_key (cs ! i))))"

definition smaller :: "bytes \<Rightarrow> bytes list \<Rightarrow> nat" where
  "smaller k cs = length (filter (\<lambda>c. lex_less (c_key c) k) cs)"

lemma smaller_append [simp]: "smaller k (xs @ ys) = smaller k xs + smaller k ys"
  by (simp add: smaller_def)

lemma smaller_all: "\<forall>c\<in>set cs. lex_less (c_key c) k \<Longrightarrow> smaller k cs = length cs"
  by (simp add: smaller_def)

lemma smaller_none: "\<forall>c\<in>set cs. lex_le k (c_key c) \<Longrightarrow> smaller k cs = 0"
  by (simp add: smaller_def)

lemma smaller_split:
  assumes "j \<le> length cs" "\<And>i. i < j \<Longrightarrow> lex_less (c_key (cs ! i)) k" "\<And>i. j \<le> i \<Longrightarrow> i < length cs \<Longrightarrow> lex_le k (c_key (cs ! i))"
  shows "smaller k cs = j"
proof -
  have "\<forall>c\<in>set (take j cs). lex_less (c_key c) k" using assms(1,2) by (auto simp: in_set_conv_nth)
  moreover have "\<forall>c\<in>set (drop j cs). lex_le k (c_key c)" using assms(3) by (auto simp: in_set_conv_nth)
  ultimately have "smaller k (take j cs @ drop j cs) = j"
    using assms(1) by (simp only: smaller_append smaller_all smaller_none) simp
  then show ?thesis by simp
qed

lemma lex_less_le: "lex_less a b \<Longrightarrow> lex_le a b"
  using lex_less_irrefl lex_less_trans by blast

lemma lex_le_trans1: "lex_less a b \<Longrightarrow> lex_le b c \<Longrightarrow> lex_less a c"
  using lex_less_linear lex_less_trans by blast

lemma lex_le_trans2: "lex_le a b \<Longrightarrow> lex_less b c \<Longrightarrow> lex_less a c"
  using lex_less_linear lex_less_trans by blast

section \<open>The descent by key\<close>

text \<open>Child \<open>i\<close> is the one where the key belongs.\<close>

definition pick_ok :: "bt \<Rightarrow> bytes \<Rightarrow> nat \<Rightarrow> bool" where
  "pick_ok t k i \<longleftrightarrow> i < width t \<and>
     (\<forall>j<i. \<forall>c\<in>set (entries (child t j)). lex_less (c_key c) k) \<and>
     (\<forall>j<width t. i < j \<longrightarrow> (\<forall>c\<in>set (entries (child t j)). lex_less k (c_key c)))"

fun seek_ok :: "bt \<Rightarrow> bytes \<Rightarrow> nat list \<Rightarrow> bool" where
  "seek_ok t k [] = True"
| "seek_ok t k (i # p) = (pick_ok t k i \<and> seek_ok (child t i) k p)"

lemma seek_ok_snoc [simp]: "seek_ok t k (p @ [i]) = (seek_ok t k p \<and> pick_ok (below t p) k i)"
  by (induction t k p rule: seek_ok.induct) auto

lemma seek_path_ok: "seek_ok t k p \<Longrightarrow> path_ok t p"
  by (induction t k p rule: seek_ok.induct) (auto simp: pick_ok_def)

lemma seek_rank:
  "bt_ok view h t \<Longrightarrow> seek_ok t k p \<Longrightarrow> length p = h \<Longrightarrow>
   smaller k (entries t) = rank t (p @ [smaller k (bt_chunks (below t p))])"
proof (induction p arbitrary: t h)
  case Nil
  then show ?case by (cases t) auto
next
  case (Cons i p)
  obtain mp cs ts where t: "t = Br mp cs ts" using Cons.prems by (cases t) auto
  have i: "i < length ts" "bt_ok view (h - 1) (ts ! i)" using Cons.prems(1,2) by (auto simp: t pick_ok_def)
  have s: "concat (map entries ts) =
      concat (map entries (take i ts)) @ entries (ts ! i) @ concat (map entries (drop (Suc i) ts))"
    using id_take_nth_drop [OF i(1)] by (metis concat.simps(2) concat_append list.simps(9) map_append)
  have "\<forall>c\<in>set (concat (map entries (take i ts))). lex_less (c_key c) k"
  proof
    fix c assume "c \<in> set (concat (map entries (take i ts)))"
    then obtain u where "u \<in> set (take i ts)" "c \<in> set (entries u)" by auto
    then obtain j where "j < i" "c \<in> set (entries (ts ! j))" by (auto simp: in_set_conv_nth [of u])
    then show "lex_less (c_key c) k" using Cons.prems(2) by (auto simp: t pick_ok_def)
  qed
  then have b: "smaller k (concat (map entries (take i ts))) = length (concat (map entries (take i ts)))" by (rule smaller_all)
  have "\<forall>c\<in>set (concat (map entries (drop (Suc i) ts))). lex_le k (c_key c)"
  proof
    fix c assume "c \<in> set (concat (map entries (drop (Suc i) ts)))"
    then obtain u where "u \<in> set (drop (Suc i) ts)" "c \<in> set (entries u)" by auto
    then obtain j where "j < length (drop (Suc i) ts)" "c \<in> set (entries (ts ! (Suc i + j)))" by (auto simp: in_set_conv_nth [of u])
    then have "lex_less k (c_key c)"
      using Cons.prems(1,2) by (auto simp: t pick_ok_def dest!: spec [of _ "Suc i + j"])
    then show "lex_le k (c_key c)" by (rule lex_less_le)
  qed
  then have a: "smaller k (concat (map entries (drop (Suc i) ts))) = 0" by (rule smaller_none)
  have "smaller k (entries (ts ! i)) = rank (ts ! i) (p @ [smaller k (bt_chunks (below (ts ! i) p))])"
    using Cons.IH [OF i(2)] Cons.prems(2,3) by (simp add: t)
  then show ?case by (simp add: t s b a)
qed

text \<open>The search on one page of the tree, with the default comparison.\<close>

definition by_memn :: "txn \<Rightarrow> 'x cursor \<Rightarrow> bool" where
  "by_memn txn mc \<longleftrightarrow> (\<exists>dbx. mc_dbx txn mc = Some dbx \<and> md_cmp dbx = Some Cmp_memn)"

lemma key_small: "page_rep mp cs \<Longrightarrow> \<forall>c\<in>set cs. length (c_key c) < 2 ^ 32"
proof
  fix c assume rep: "page_rep mp cs" and "c \<in> set cs"
  then obtain i where i: "i < length cs" "c = cs ! i" by (auto simp: in_set_conv_nth)
  have "length c < 2 ^ 16" using chunk_at(2) [OF rep i(1)] rep i(2) by (simp add: page_rep_def)
  then show "length (c_key c) < 2 ^ 32" by (simp add: c_key_def block_def)
qed

lemma node_search_path:
  assumes on: "on_path mc t (p @ [x])" and u: "bt_ok view h (below t p)" and s: "bt_sorted (below t p)"
    and db: "mc_db txn mc = Some db" and cmp: "by_memn txn mc" and k: "length k < 2 ^ 32"
  shows "\<exists>r mc'. node_search txn mc k = Some (r, mc') \<and> on_path mc' t (p @ [sr_ki r]) \<and> keeps mc mc' \<and>
     (if h = 0 then 0 else 1) \<le> sr_ki r \<and> sr_ki r \<le> width (below t p) \<and>
     (\<forall>i. (if h = 0 then 0 else 1) \<le> i \<and> i < sr_ki r \<longrightarrow> lex_less (c_key (bt_chunks (below t p) ! i)) k) \<and>
     (\<forall>i. sr_ki r \<le> i \<and> i < width (below t p) \<longrightarrow> lex_le k (c_key (bt_chunks (below t p) ! i))) \<and>
     sr_exact r = (sr_ki r < width (below t p) \<and> c_key (bt_chunks (below t p) ! sr_ki r) = k) \<and>
     sr_found r = (sr_ki r < width (below t p))"
proof -
  let ?u = "below t p"
  let ?low = "if IS_LEAF (bt_page ?u) then 0 else 1 :: nat"
  have kind: "\<not> IS_LEAF2 (bt_page ?u)" "?low = (if h = 0 then 0 else 1)" "?low < width ?u"
    "sorted_wrt lex_less (drop ?low (map c_key (bt_chunks ?u)))"
    using u s by (cases ?u; auto simp: drop_Suc)+
  note rep = bt_ok_rep [OF u]
  obtain dbx where dbx: "mc_dbx txn mc = Some dbx" "md_cmp dbx = Some Cmp_memn" using cmp by (auto simp: by_memn_def)
  obtain r where r: "mdb_node_search Cmp_memn (md_pad db) (bt_page ?u) k = Some r" "?low \<le> sr_ki r" "sr_ki r \<le> width ?u"
     "\<forall>i. ?low \<le> i \<and> i < sr_ki r \<longrightarrow> lex_less (c_key (bt_chunks ?u ! i)) k"
     "\<forall>i. sr_ki r \<le> i \<and> i < width ?u \<longrightarrow> lex_le k (c_key (bt_chunks ?u ! i))"
     "sr_exact r = (sr_ki r < width ?u \<and> c_key (bt_chunks ?u ! sr_ki r) = k)" "sr_found r = (sr_ki r < width ?u)"
    using node_search_memn [OF rep kind(1,3,4) k key_small [OF rep], of "md_pad db"] by blast
  have "sr_ki r < 2 ^ 16" using r(3) bt_ok_small [OF u] by simp
  then obtain mc' where mc': "set_ki mc (sr_ki r) = Some mc'" "on_path mc' t (p @ [sr_ki r])" "keeps mc mc'"
    using on_path_set_ki [OF on] by blast
  have "node_search txn mc k = Some (r, mc')"
    using on_path_top(1) [OF on] db dbx r(1) mc'(1) by (simp add: node_search_def)
  then show ?thesis using mc'(2,3) r(2-7) kind(2) by (intro exI [of _ r] exI [of _ mc']) simp
qed

text \<open>The child that the search on a branch page selects.\<close>

lemma branch_pick:
  assumes ok: "bt_ok view h u" "bt_sorted u" and h: "0 < h"
    and r: "1 \<le> ki" "ki \<le> width u" "\<And>i. 1 \<le> i \<Longrightarrow> i < ki \<Longrightarrow> lex_less (c_key (bt_chunks u ! i)) k"
      "\<And>i. ki \<le> i \<Longrightarrow> i < width u \<Longrightarrow> lex_le k (c_key (bt_chunks u ! i))"
  shows "pick_ok u k (if ki < width u \<and> c_key (bt_chunks u ! ki) = k then ki else ki - 1)"
proof -
  let ?i = "if ki < width u \<and> c_key (bt_chunks u ! ki) = k then ki else ki - 1"
  obtain mp cs ts where u: "u = Br mp cs ts" using ok(1) h by (cases u) auto
  have len: "length ts = length cs" using ok(1) by (simp add: u)
  have sep: "if i \<le> j then lex_le (c_key (cs ! i)) (c_key c) else lex_less (c_key c) (c_key (cs ! i))"
    if "0 < i" "i < length ts" "j < length ts" "c \<in> set (entries (ts ! j))" for i j c
    using ok(2) that unfolding u by auto
  have asc: "lex_less (c_key (cs ! i)) (c_key (cs ! j))" if "0 < i" "i < j" "j < length cs" for i j
  proof -
    have s: "sorted_wrt lex_less (tl (map c_key cs))" using ok(2) by (simp add: u)
    have "lex_less (tl (map c_key cs) ! (i - 1)) (tl (map c_key cs) ! (j - 1))"
      by (rule sorted_wrt_nth_less [OF s]) (use that in auto)
    then show ?thesis using that by (simp add: nth_tl)
  qed
  have lo: "lex_le (c_key (cs ! ?i)) k" if i: "0 < ?i"
  proof (cases "ki < width u \<and> c_key (bt_chunks u ! ki) = k")
    case True
    then show ?thesis by (simp add: u lex_less_irrefl)
  next
    case False
    then have e: "?i = ki - 1" by (rule if_not_P)
    then have "lex_less (c_key (bt_chunks u ! (ki - 1))) k" using i r(1) by (intro r(3)) auto
    then show ?thesis unfolding e using lex_less_le by (simp add: u)
  qed
  have hi: "lex_less k (c_key (cs ! Suc ?i))" if s: "Suc ?i < length cs"
  proof (cases "ki < width u \<and> c_key (bt_chunks u ! ki) = k")
    case True
    then show ?thesis using asc [of ki "Suc ki"] r(1) s by (simp add: u)
  next
    case False
    then have "lex_le k (c_key (cs ! ki))" "c_key (cs ! ki) \<noteq> k" using r(1) r(4) [of ki] s by (auto simp: u)
    moreover have "Suc ?i = ki" using False r(1) by simp
    ultimately show ?thesis using lex_less_linear [of k "c_key (cs ! ki)"] by (simp only: u bt_chunks.simps) auto
  qed
  define i where "i = ?i"
  have i: "i < length cs" using r(1,2) by (auto simp: i_def u)
  note lo = lo [folded i_def] and hi = hi [folded i_def]
  have "lex_less (c_key c) k" if "j < i" "c \<in> set (entries (ts ! j))" for j c
  proof -
    have "lex_less (c_key c) (c_key (cs ! i))" using sep [of i j c] that i len by simp
    then show ?thesis by (rule lex_le_trans1) (use lo that in simp)
  qed
  moreover have "lex_less k (c_key c)" if "j < length cs" "i < j" "c \<in> set (entries (ts ! j))" for j c
  proof -
    have "lex_le (c_key (cs ! Suc i)) (c_key c)" using sep [of "Suc i" j c] that len by simp
    then show ?thesis by (rule lex_le_trans1 [rotated]) (use hi that in simp)
  qed
  ultimately show ?thesis using i unfolding i_def [symmetric] by (simp add: pick_ok_def u)
qed

lemma below_sorted: "bt_ok view h t \<Longrightarrow> bt_sorted t \<Longrightarrow> path_ok t p \<Longrightarrow> length p \<le> h \<Longrightarrow> bt_sorted (below t p)"
proof (induction p arbitrary: t h)
  case (Cons i p)
  then have "bt_sorted (child t i)" "bt_ok view (h - 1) (child t i)" by (cases t; auto)+
  then show ?case using Cons.IH [of "h - 1" "child t i"] Cons.prems by simp
qed simp

lemma descend_key:
  assumes h: "h < CURSOR_STACK" and ok: "bt_ok (page_view txn (on_map mc)) h t" "bt_sorted t"
    and on: "on_path mc t (p @ [x])" and p: "seek_ok t k p" "length p \<le> h"
    and db: "mc_db txn mc = Some db" "by_memn txn mc" and k: "length k < 2 ^ 32"
  shows "\<exists>mc' q y. mdb_page_search_root X txn mc (Some k) 0 = Some (0, txn, mc') \<and>
     on_path mc' t (q @ [y]) \<and> length q = h \<and> seek_ok t k q \<and> keeps (arrived mc) mc'"
  using ok(1) on p db
proof (induction "h - length p" arbitrary: p mc x)
  case 0
  then show ?case
    using arrive_leaf [OF 0(2) seek_path_ok [OF 0(4)] _ 0(3)] keeps_refl by (metis diff_is_0_eq le_antisym)
next
  case (Suc n)
  let ?u = "below t p"
  have d: "length p < h" and n: "n = h - Suc (length p)" using Suc.hyps(2) by simp_all
  note pk = seek_path_ok [OF Suc.prems(3)]
  have u: "bt_ok (page_view txn (on_map mc)) (h - length p) ?u" "bt_sorted ?u"
    using below_ok [OF Suc.prems(1) pk] below_sorted [OF Suc.prems(1) ok(2) pk] d by simp_all
  obtain r mc1 where r: "node_search txn mc k = Some (r, mc1)" "on_path mc1 t (p @ [sr_ki r])" "keeps mc mc1"
     "1 \<le> sr_ki r" "sr_ki r \<le> width ?u"
     "\<And>i. 1 \<le> i \<Longrightarrow> i < sr_ki r \<Longrightarrow> lex_less (c_key (bt_chunks ?u ! i)) k"
     "\<And>i. sr_ki r \<le> i \<Longrightarrow> i < width ?u \<Longrightarrow> lex_le k (c_key (bt_chunks ?u ! i))"
     "sr_exact r = (sr_ki r < width ?u \<and> c_key (bt_chunks ?u ! sr_ki r) = k)" "sr_found r = (sr_ki r < width ?u)"
    using node_search_path [OF Suc.prems(2) u Suc.prems(5,6) k] d by auto
  let ?i = "if sr_ki r < width ?u \<and> c_key (bt_chunks ?u ! sr_ki r) = k then sr_ki r else sr_ki r - 1"
  have pick: "pick_ok ?u k ?i" using branch_pick [OF u _ r(4-7)] d by simp
  have wi: "\<not> sr_ki r < width ?u \<Longrightarrow> sr_ki r = width ?u" using r(5) by simp
  have ix: "branch_index txn mc (bt_page ?u) (Some k) 0 = Some (?i, False, mc1)"
    using r(1,4,8,9) on_path_top(2) [OF r(2)] bt_last(1) [OF u(1)] wi
    by (cases "sr_ki r < width ?u") (auto simp: branch_index_def)
  have sk: "seek_ok t k (p @ [?i])" using Suc.prems(3) pick by simp
  obtain mc2 where mc2: "search_step txn mc (bt_page ?u) (Some k) 0 = Some (0, txn, mc2)" "on_path mc2 t (p @ [?i, 0])" "keeps mc mc2"
    using search_step_down [OF Suc.prems(1) seek_path_ok [OF sk] d h Suc.prems(2) ix r(2,3)] by blast
  have "\<exists>mc' q y. mdb_page_search_root X txn mc2 (Some k) 0 = Some (0, txn, mc') \<and>
     on_path mc' t (q @ [y]) \<and> length q = h \<and> seek_ok t k q \<and> keeps (arrived mc2) mc'"
  proof (rule Suc.hyps(1))
    show "n = h - length (p @ [?i])" using n by simp
    show "bt_ok (page_view txn (on_map mc2)) h t" using Suc.prems(1) keeps_on_map [OF mc2(3)] by simp
    show "on_path mc2 t ((p @ [?i]) @ [0])" using mc2(2) by simp
    show "mc_db txn mc2 = Some db" "by_memn txn mc2" using Suc.prems(5,6) keeps_db [OF mc2(3)] by (simp_all add: by_memn_def)
  qed (use sk d in simp_all)
  moreover have "mdb_page_search_root X txn mc (Some k) 0 = mdb_page_search_root X txn mc2 (Some k) 0"
    using on_path_top(1) [OF Suc.prems(2)] bt_ok_kind [OF u(1)] d mc2(1)
    by (subst mdb_page_search_root.simps) (simp add: touch_top_def)
  ultimately show ?case using mc2(3) by (simp add: keeps_def)
qed

section \<open>All keys in order\<close>

lemma sorted_wrt_concat:
  assumes "\<And>xs. xs \<in> set xss \<Longrightarrow> sorted_wrt P xs" "\<And>i j x y. i < j \<Longrightarrow> j < length xss \<Longrightarrow> x \<in> set (xss ! i) \<Longrightarrow> y \<in> set (xss ! j) \<Longrightarrow> P x y"
  shows "sorted_wrt P (concat xss)"
  using assms
proof (induction xss)
  case (Cons xs xss)
  have "sorted_wrt P (concat xss)"
  proof (rule Cons.IH)
    show "P x y" if "i < j" "j < length xss" "x \<in> set (xss ! i)" "y \<in> set (xss ! j)" for i j x y
      using Cons.prems(2) [of "Suc i" "Suc j" x y] that by simp
  qed (use Cons.prems(1) in simp)
  moreover have "P x y" if x: "x \<in> set xs" and y: "y \<in> set (concat xss)" for x y
  proof -
    obtain ys where "ys \<in> set xss" "y \<in> set ys" using y by auto
    then obtain j where "j < length xss" "y \<in> set (xss ! j)" by (auto simp: in_set_conv_nth [of ys])
    then show ?thesis using Cons.prems(2) [of 0 "Suc j" x y] x by simp
  qed
  ultimately show ?case using Cons.prems(1) by (simp add: sorted_wrt_append)
qed simp

lemma entries_sorted: "bt_ok view h t \<Longrightarrow> bt_sorted t \<Longrightarrow> sorted_wrt (\<lambda>a b. lex_less (c_key a) (c_key b)) (entries t)"
proof (induction t arbitrary: h)
  case (Lf mp cs)
  then show ?case by (simp add: sorted_wrt_map)
next
  case (Br mp cs ts)
  have "lex_less (c_key a) (c_key b)"
    if "i < j" "j < length ts" "a \<in> set (entries (ts ! i))" "b \<in> set (entries (ts ! j))" for i j a b
  proof -
    have S: "\<forall>i<length ts. 0 < i \<longrightarrow> (\<forall>j<length ts. \<forall>c\<in>set (entries (ts ! j)).
           if i \<le> j then lex_le (c_key (cs ! i)) (c_key c) else lex_less (c_key c) (c_key (cs ! i)))"
      using Br.prems(2) by simp
    have "lex_less (c_key a) (c_key (cs ! j))" "lex_le (c_key (cs ! j)) (c_key b)"
      using S [rule_format, of j i a] S [rule_format, of j j b] that by simp_all
    then show ?thesis by (rule lex_le_trans1)
  qed
  moreover have "sorted_wrt (\<lambda>a b. lex_less (c_key a) (c_key b)) (entries u)" if "u \<in> set ts" for u
    using Br.IH [OF that] Br.prems that by auto
  ultimately show ?case unfolding entries.simps by (intro sorted_wrt_concat) auto
qed

lemma sorted_lex_distinct: "sorted_wrt lex_less xs \<Longrightarrow> distinct xs"
  by (induction xs) (auto simp: lex_less_irrefl)

lemma smaller_index:
  assumes "sorted_wrt (\<lambda>a b. lex_less (c_key a) (c_key b)) cs" "m < length cs"
  shows "smaller (c_key (cs ! m)) cs = m"
proof (rule smaller_split)
  show "lex_less (c_key (cs ! i)) (c_key (cs ! m))" if "i < m" for i
    using sorted_wrt_nth_less [OF assms(1) that assms(2)] .
  show "lex_le (c_key (cs ! m)) (c_key (cs ! i))" if "m \<le> i" "i < length cs" for i
    using sorted_wrt_nth_less [OF assms(1), of m i] that lex_less_le lex_less_irrefl by (cases "m = i") auto
qed (use assms(2) in simp)

lemma smaller_iff:
  assumes "sorted_wrt (\<lambda>a b. lex_less (c_key a) (c_key b)) cs" "i < length cs"
  shows "lex_less (c_key (cs ! i)) k = (i < smaller k cs)"
proof (cases "lex_less (c_key (cs ! i)) k")
  case True
  have "lex_less (c_key (cs ! j)) k" if "j \<le> i" for j
    using that True sorted_wrt_nth_less [OF assms(1), of j i] assms(2) lex_less_trans by (cases "j = i") auto
  then have "\<forall>c\<in>set (take (Suc i) cs). lex_less (c_key c) k" using assms(2) by (auto simp: in_set_conv_nth less_Suc_eq_le)
  then have "smaller k (take (Suc i) cs) = Suc i" using assms(2) by (simp add: smaller_all)
  then have "Suc i \<le> smaller k (take (Suc i) cs @ drop (Suc i) cs)" by (simp only: smaller_append)
  then show ?thesis using True by simp
next
  case False
  have "lex_le k (c_key (cs ! j))" if "i \<le> j" "j < length cs" for j
    using that False sorted_wrt_nth_less [OF assms(1), of i j] lex_less_trans by (cases "j = i") auto
  then have "\<forall>c\<in>set (drop i cs). lex_le k (c_key c)" using assms(2) by (auto simp: in_set_conv_nth)
  then have "smaller k (take i cs @ drop i cs) \<le> i"
    using length_filter_le [of _ "take i cs"] by (simp only: smaller_append smaller_none) (simp add: smaller_def le_trans)
  then show ?thesis using False by simp
qed

lemma map_of_items:
  assumes "bt_ok view h t" "bt_sorted t"
  shows "map_of (items txn mc t) k =
    (let n = smaller k (entries t) in
     if n < length (entries t) \<and> c_key (entries t ! n) = k then Some (snd (items txn mc t ! n)) else None)"
proof (cases "\<exists>m<length (entries t). c_key (entries t ! m) = k")
  case False
  then have "k \<notin> fst ` set (items txn mc t)" by (force simp: items_def item_def in_set_conv_nth)
  then have "map_of (items txn mc t) k = None" by (simp add: map_of_eq_None_iff)
  then show ?thesis using False by (simp add: Let_def)
next
  case True
  then obtain m where m: "m < length (entries t)" "c_key (entries t ! m) = k" by blast
  note S = entries_sorted [OF assms]
  have n: "smaller k (entries t) = m" using smaller_index [OF S m(1)] m(2) by simp
  have "sorted_wrt lex_less (map fst (items txn mc t))"
    using S by (simp add: items_def item_def comp_def sorted_wrt_map)
  then have "distinct (map fst (items txn mc t))" by (rule sorted_lex_distinct)
  moreover have "items txn mc t ! m \<in> set (items txn mc t)" using m by (intro nth_mem) simp
  moreover have "items txn mc t ! m = (k, snd (items txn mc t ! m))" using m by (simp add: items_def item_def)
  ultimately have "map_of (items txn mc t) k = Some (snd (items txn mc t ! m))" by (metis map_of_eq_Some_iff)
  then show ?thesis using n m by simp
qed

section \<open>Positioning\<close>

lemma search_key:
  assumes db: "db_ok txn mc h t" and fr: "fresh mc" and s: "bt_sorted t" and cmp: "by_memn txn mc" and k: "length k < 2 ^ 32"
  shows "\<exists>mc' q y. mdb_page_search X txn mc (Some k) 0 = Some (0, txn, mc') \<and>
     on_path mc' t (q @ [y]) \<and> length q = h \<and> seek_ok t k q \<and> keeps (arrived mc) mc'"
proof -
  have fl: "\<not> has (0 :: 32 word) MDB_PS_MODIFY" "\<not> has (0 :: 32 word) MDB_PS_ROOTONLY" by simp_all
  note R = page_search_rooted [OF db disjI1 [OF fr] fl]
  obtain rec where rec: "mc_db txn mc = Some rec" using db by (auto simp: db_ok_def)
  have h: "h < CURSOR_STACK" and ok: "bt_ok (page_view txn (on_map (rooted mc t))) h t"
    using db keeps_on_map [OF R(3)] by (simp_all add: db_ok_def)
  have "\<exists>mc' q y. mdb_page_search_root X txn (rooted mc t) (Some k) 0 = Some (0, txn, mc') \<and>
     on_path mc' t (q @ [y]) \<and> length q = h \<and> seek_ok t k q \<and> keeps (arrived (rooted mc t)) mc'"
    by (rule descend_key [OF h ok s _ _ _ _ _ k, of "[]" "mc_ki mc ! 0"])
      (use R(2) rec cmp keeps_db [OF R(3)] in \<open>simp_all add: by_memn_def\<close>)
  then show ?thesis unfolding R(1) by (simp add: keeps_def)
qed

lemma set1_path:
  assumes db: "db_ok txn mc h t" and p: "path_ok t (p @ [i])" "length p = h" and on: "on_path mc t (p @ [i])"
    and opn: "opn \<in> {MDB_SET, MDB_SET_KEY, MDB_SET_RANGE}" and cmp: "by_memn txn mc"
  shows "set1 X txn mc k data opn =
     Some (0, txn, arrived mc, Some (if opn = MDB_SET then k else fst (items txn mc t ! rank t (p @ [i]))),
           map_option (\<lambda>_. snd (items txn mc t ! rank t (p @ [i]))) data)"
proof -
  have s: "same_db mc (arrived mc)" by (rule same_db_arrived)
  have db1: "db_ok txn (arrived mc) h t" by (rule same_db_ok [OF s db])
  have on1: "on_path (arrived mc) t (p @ [i])" using on by (simp add: on_path_def)
  note L = leaf_at [OF db1 p]
  let ?mp = "bt_page (below t p)"
  note rep = bt_ok_rep [OF L(3)] and T = on_path_top [OF on1]
  have kind: "IS_LEAF ?mp" "\<not> IS_LEAF2 ?mp" using L(3) by (cases "below t p"; auto)+
  note H = chunk_header [OF rep L(4)] and C = chunk_at(1) [OF rep L(4)]
  note R = node_read_value [OF rep L(4) kind(1) L(5)]
  obtain rec dbx where rec: "mc_db txn (arrived mc) = Some rec" "mc_dbx txn (arrived mc) = Some dbx"
    "mc_xcursor (arrived mc) = None"
    using db1 cmp same_db_records(2) [OF s, of txn] by (auto simp: db_ok_def by_memn_def)
  have it: "items txn (arrived mc) t = items txn mc t" by (rule same_db_items [OF s])
  show ?thesis
    using T kind H(2,5) C R L(2,6) rec opn unfolding it [symmetric]
    by (cases data) (auto simp: set1_def Let_def item_def)
qed

lemma rank_last: "bt_ok view h t \<Longrightarrow> path_ok t p \<Longrightarrow> length p = h \<Longrightarrow> rank t (p @ [i]) = rank t (p @ [0]) + i"
proof (induction p arbitrary: t h)
  case Nil
  then show ?case by (cases t) auto
next
  case (Cons a p)
  then have "bt_ok view (h - 1) (child t a)" by (intro child_ok) auto
  then show ?case using Cons.IH [of "h - 1" "child t a"] Cons.prems by simp
qed

lemma sib_last: "sib r t (p @ [i]) = sib r t (p @ [j])"
  by (cases p rule: rev_cases) (simp_all add: sib_snoc)

text \<open>If the key is stored at all, it is on the leaf page where the descent ends.\<close>

lemma seek_exact:
  "bt_ok view h t \<Longrightarrow> seek_ok t k p \<Longrightarrow> length p = h \<Longrightarrow> c \<in> set (entries t) \<Longrightarrow> c_key c = k \<Longrightarrow> c \<in> set (bt_chunks (below t p))"
proof (induction p arbitrary: t h)
  case Nil
  then show ?case by (cases t) auto
next
  case (Cons i p)
  obtain mp cs ts where t: "t = Br mp cs ts" using Cons.prems by (cases t) auto
  obtain u where "u \<in> set ts" "c \<in> set (entries u)" using Cons.prems(4) by (auto simp: t)
  then obtain j where j: "j < length ts" "c \<in> set (entries (ts ! j))" by (auto simp: in_set_conv_nth [of u])
  have len: "length ts = length cs" "0 < h" using Cons.prems(1) by (auto simp: t)
  have "\<not> j < i" "\<not> i < j" using Cons.prems(2,5) j len lex_less_irrefl by (auto simp: t pick_ok_def)
  then have "j = i" by simp
  moreover have "bt_ok view (h - 1) (ts ! i)" using Cons.prems(1) \<open>j = i\<close> j(1) by (simp add: t)
  ultimately show ?case using Cons.IH [of "h - 1" "ts ! i"] Cons.prems(2,3,5) j(2) by (simp add: t)
qed

text \<open>
  What the positioning returns for the position \<open>n\<close> of the first item that is not smaller than the
  key; \<open>exact\<close> is null for \<^verbatim>\<open>MDB_SET_RANGE\<close>.
\<close>

definition set_reply :: "txn \<Rightarrow> 'x cursor \<Rightarrow> nat \<Rightarrow> bt \<Rightarrow> bytes \<Rightarrow> bytes option \<Rightarrow> cursor_op \<Rightarrow> bool option \<Rightarrow> 'x cursor \<Rightarrow> 'x moved \<Rightarrow> bool" where
  "set_reply txn mc h t k data opn exact mc' res \<longleftrightarrow>
     (let n = smaller k (entries t) in
      same_db mc mc' \<and>
      (if n < length (entries t) \<and> (exact = None \<or> c_key (entries t ! n) = k)
       then res = Some (0, txn, mc', Some (if opn = MDB_SET then k else fst (items txn mc t ! n)),
                        map_option (\<lambda>_. snd (items txn mc t ! n)) data) \<and> cur_at mc' h t n
       else res = Some (MDB_NOTFOUND, txn, mc', Some k, data)))"

lemma set1_reply:
  assumes db: "db_ok txn mc h t" and cmp: "by_memn txn mc" and opn: "opn \<in> {MDB_SET, MDB_SET_KEY, MDB_SET_RANGE}"
    and s: "same_db mc mc'" "\<not> has (mc_flags mc') C_DEL"
    and p: "on_path mc' t (p @ [i])" "path_ok t (p @ [i])" "length p = h" "rank t (p @ [i]) = smaller k (entries t)"
    and ex: "exact = None \<or> c_key (entries t ! smaller k (entries t)) = k"
  shows "set_reply txn mc h t k data opn exact (arrived mc') (set1 X txn mc' k data opn)"
proof -
  have "by_memn txn mc'" using cmp same_db_records(2) [OF s(1), of txn] by (simp add: by_memn_def)
  note R = set1_path [OF same_db_ok [OF s(1) db] p(2,3,1) opn this, of X k data]
  have "cur_at (arrived mc') h t (rank t (p @ [i]))"
    using p s(2) by (intro cur_atI) (auto simp: on_path_def flag_bits)
  moreover have "smaller k (entries t) < length (entries t)" using leaf_at(1) [OF db p(2,3)] p(4) by simp
  ultimately show ?thesis
    using R ex p(4) same_db_items [OF s(1)] same_db_trans [OF s(1) same_db_arrived] by (simp add: set_reply_def)
qed

text \<open>All keys of the leaf page are smaller: the next page is entered.\<close>

lemma set2_past:
  assumes db: "db_ok txn mc h t" and cmp: "by_memn txn mc" and opn: "opn \<in> {MDB_SET, MDB_SET_KEY, MDB_SET_RANGE}"
    and s: "same_db mc mc2" "\<not> has (mc_flags mc2) C_DEL"
    and q: "on_path mc2 t (q @ [width (below t q)])" "seek_ok t k q" "length q = h"
    and rk: "rank t (q @ [width (below t q)]) = smaller k (entries t)"
  shows "\<exists>mc'. set_reply txn mc h t k data opn None mc'
      (do {
         (rc, txn, mc) \<leftarrow> mdb_cursor_sibling txn mc2 True;
         if rc \<noteq> 0 then Some (rc, txn, mc\<lparr>mc_flags := mc_flags mc OR C_EOF\<rparr>, Some k, data)
         else do { mp \<leftarrow> top_pg mc; if \<not> IS_LEAF mp then None else set1 X txn mc k data opn }
       })"
proof -
  let ?u = "below t q" and ?n = "smaller k (entries t)"
  let ?j = "width ?u - 1"
  have ok: "bt_ok (page_view txn (on_map mc)) h t" and h: "h < CURSOR_STACK" using db by (simp_all add: db_ok_def)
  have ok2: "bt_ok (page_view txn (on_map mc2)) h t" using same_db_ok [OF s(1) db] by (simp add: db_ok_def)
  note pk = seek_path_ok [OF q(2)]
  have u: "bt_ok (page_view txn (on_map mc)) 0 ?u" using below_ok [OF ok pk] q(3) by simp
  have w: "0 < width ?u" by (rule bt_ok_width [OF u])
  have pj: "path_ok t (q @ [?j])" using pk w by simp
  have st: "step_ix True (width ?u) ?j = None" using w by (simp add: step_ix_def)
  have rj: "rank t (q @ [?j]) + 1 = ?n" using rank_last [OF ok pk q(3), of ?j] rank_last [OF ok pk q(3), of "width ?u"] rk w by linarith
  have sb: "sib True t (q @ [width ?u]) = nbr True t (q @ [?j])"
    unfolding nbr_snoc [of True t q ?j] st by (simp only: option.case) (rule sib_last)
  have S: "case nbr True t (q @ [?j]) of
      None \<Rightarrow> mdb_cursor_sibling txn mc2 True = Some (MDB_NOTFOUND, txn, mc2)
    | Some p \<Rightarrow> \<exists>mc'. mdb_cursor_sibling txn mc2 True = Some (0, txn, mc') \<and> on_path mc' t p \<and> keeps mc2 mc'"
    using sibling_path [OF h q(1) _ _ ok2, of True] pk q(3) sb by simp
  have N: "case nbr True t (q @ [?j]) of Some p \<Rightarrow> rank t p = ?n | None \<Rightarrow> ?n = length (entries t)"
    using nbr_rank [OF ok pj, of True] q(3) rj by (simp split: option.split_asm)
  show ?thesis
  proof (cases "nbr True t (q @ [?j])")
    case None
    have "same_db mc2 (mc2\<lparr>mc_flags := mc_flags mc2 OR C_EOF\<rparr>)" by (rule same_db_flags) (simp_all add: flag_bits)
    then show ?thesis
      using None S N same_db_trans [OF s(1)] by (auto simp: set_reply_def MDB_NOTFOUND_def)
  next
    case (Some p)
    obtain mc3 where mc3: "mdb_cursor_sibling txn mc2 True = Some (0, txn, mc3)" "on_path mc3 t p" "keeps mc2 mc3"
      using S Some by auto
    have p: "path_ok t p" "length p = Suc h" using nbr_ok [OF ok pj _ Some] q(3) by auto
    obtain p' i where pi: "p = p' @ [i]" "length p' = h" using p(2) by (cases p rule: rev_cases) auto
    have s3: "same_db mc mc3" by (rule same_db_trans [OF s(1) keeps_same_db [OF mc3(3)]])
    have "bt_ok (page_view txn (on_map mc)) 0 (below t p')" using below_ok [OF ok, of p'] p pi by simp
    then have "IS_LEAF (bt_page (below t p'))" using bt_ok_kind by blast
    moreover have "top_pg mc3 = Some (bt_page (below t p'))" using on_path_top(1) mc3(2) pi by blast
    moreover have "set_reply txn mc h t k data opn None (arrived mc3) (set1 X txn mc3 k data opn)"
      using set1_reply [OF db cmp opn s3 _ mc3(2) [unfolded pi(1)] p(1) [unfolded pi(1)] pi(2)] N Some pi mc3(3) s(2)
      by (simp add: keeps_def)
    ultimately show ?thesis using mc3(1) by auto
  qed
qed

lemma set2_reply:
  assumes db: "db_ok txn mc h t" and cmp: "by_memn txn mc" and opn: "opn \<in> {MDB_SET, MDB_SET_KEY, MDB_SET_RANGE}"
    and s: "same_db mc mc1" "\<not> has (mc_flags mc1) C_DEL" and sorted: "bt_sorted t" and k: "length k < 2 ^ 32"
    and q: "on_path mc1 t (q @ [y])" "seek_ok t k q" "length q = h"
  shows "\<exists>mc'. set_reply txn mc h t k data opn exact mc' (set2 X txn mc1 k data opn exact)"
proof -
  let ?u = "below t q" and ?n = "smaller k (entries t)"
  have ok: "bt_ok (page_view txn (on_map mc)) h t" using db by (simp add: db_ok_def)
  note pk = seek_path_ok [OF q(2)]
  have u: "bt_ok (page_view txn (on_map mc)) 0 ?u" "bt_sorted ?u"
    using below_ok [OF ok pk] below_sorted [OF ok sorted pk] q(3) by simp_all
  have cmp1: "by_memn txn mc1" using cmp same_db_records(2) [OF s(1), of txn] by (simp add: by_memn_def)
  obtain rec where rec: "mc_db txn mc1 = Some rec" using same_db_ok [OF s(1) db] by (auto simp: db_ok_def)
  obtain r mc2 where r: "node_search txn mc1 k = Some (r, mc2)" "on_path mc2 t (q @ [sr_ki r])" "keeps mc1 mc2"
     "sr_ki r \<le> width ?u" "\<And>i. i < sr_ki r \<Longrightarrow> lex_less (c_key (bt_chunks ?u ! i)) k"
     "\<And>i. sr_ki r \<le> i \<Longrightarrow> i < width ?u \<Longrightarrow> lex_le k (c_key (bt_chunks ?u ! i))"
     "sr_exact r = (sr_ki r < width ?u \<and> c_key (bt_chunks ?u ! sr_ki r) = k)" "sr_found r = (sr_ki r < width ?u)"
    using node_search_path [OF q(1) u rec cmp1 k] by auto
  have ki: "sr_ki r = smaller k (bt_chunks ?u)" using smaller_split [OF r(4-6)] by simp
  have rk: "rank t (q @ [sr_ki r]) = ?n" using seek_rank [OF ok q(2,3)] ki by simp
  have s2: "same_db mc mc2" "\<not> has (mc_flags mc2) C_DEL"
    using same_db_trans [OF s(1) keeps_same_db [OF r(3)]] r(3) s(2) by (simp_all add: keeps_def)
  have miss: "set_reply txn mc h t k data opn exact mc2 (set2 X txn mc1 k data opn exact)"
    if "exact \<noteq> None" "\<not> sr_exact r" "\<not> (?n < length (entries t) \<and> c_key (entries t ! ?n) = k)"
    using that r(1) s2(1) by (auto simp: set2_def set_reply_def Let_def)
  show ?thesis
  proof (cases "sr_ki r < width ?u")
    case True
    then have pi: "path_ok t (q @ [sr_ki r])" using pk by simp
    have e: "?n < length (entries t)" "entries t ! ?n = bt_chunks ?u ! sr_ki r" using rank_entry [OF ok pi q(3)] rk by simp_all
    show ?thesis
    proof (cases "exact = None \<or> c_key (entries t ! ?n) = k")
      case E: True
      then have "set2 X txn mc1 k data opn exact = set1 X txn mc2 k data opn" using r(1,7,8) True e(2) by (auto simp: set2_def)
      then show ?thesis using set1_reply [OF db cmp opn s2 r(2) pi q(3) rk E, of data X] by auto
    next
      case False
      then show ?thesis using miss r(7) e(2) by auto
    qed
  next
    case False
    then have w: "sr_ki r = width ?u" using r(4) by simp
    show ?thesis
    proof (cases "exact = None")
      case True
      then show ?thesis
        using set2_past [OF db cmp opn s2 _ q(2,3), of data X] r(1,2,8) w rk by (simp add: set2_def)
    next
      case E: False
      have "\<not> (?n < length (entries t) \<and> c_key (entries t ! ?n) = k)"
      proof
        assume a: "?n < length (entries t) \<and> c_key (entries t ! ?n) = k"
        then have "entries t ! ?n \<in> set (bt_chunks ?u)" using seek_exact [OF ok q(2,3)] by simp
        then obtain i where "i < width ?u" "c_key (bt_chunks ?u ! i) = k" using a by (auto simp: in_set_conv_nth)
        then show False using r(5) [of i] w lex_less_irrefl by simp
      qed
      then show ?thesis using miss E r(7) False by blast
    qed
  qed
qed

lemma set_fresh:
  assumes db: "db_ok txn mc h t" and fr: "fresh mc" and s: "bt_sorted t" and cmp: "by_memn txn mc"
    and k: "length k < 2 ^ 32" "k \<noteq> []" and opn: "opn \<in> {MDB_SET, MDB_SET_KEY, MDB_SET_RANGE}"
  shows "\<exists>mc'. set_reply txn mc h t k data opn exact mc' (mdb_cursor_set X txn mc (Some k) data opn exact)"
proof -
  obtain mc1 q y where mc1: "mdb_page_search X txn mc (Some k) 0 = Some (0, txn, mc1)" "on_path mc1 t (q @ [y])" "length q = h"
    "seek_ok t k q" "keeps (arrived mc) mc1"
    using search_key [OF db fr s cmp k(1)] by blast
  have s1: "same_db mc mc1" by (rule same_db_trans [OF same_db_arrived keeps_same_db [OF mc1(5)]])
  have del: "\<not> has (mc_flags mc1) C_DEL" using mc1(5) fr by (simp add: keeps_def fresh_def flag_bits)
  have "bt_ok (page_view txn (on_map mc)) 0 (below t q)"
    using below_ok [of _ h t q] seek_path_ok [OF mc1(4)] mc1(3) db by (simp add: db_ok_def)
  then have leaf: "IS_LEAF (bt_page (below t q))" using bt_ok_kind by blast
  have ni: "\<not> has (mc_flags mc) C_INITIALIZED" "mc\<lparr>mc_pg := (mc_pg mc)[0 := None]\<rparr> = mc" "0 < length (mc_pg mc)"
    "mc_xcursor mc = None"
    using fr db list_update_id [of "mc_pg mc" 0] by (simp_all add: fresh_def CURSOR_STACK_def db_ok_def)
  have "mdb_cursor_set X txn mc (Some k) data opn exact = set2 X txn mc1 k data opn exact"
    using k(2) ni mc1(1) on_path_top(1) [OF mc1(2)] leaf by (simp add: mdb_cursor_set_def Let_def)
  then show ?thesis using set2_reply [OF db cmp opn s1 del s k(1) mc1(2,4,3)] by simp
qed

end
