(* ===== verification/Lmdb_Database.thy ===== *)
theory Lmdb_Database
  imports Lmdb_Lookup
begin

text \<open>
  What the cursors and \<^verbatim>\<open>mdb_get\<close> promise about a database: a scan, any sequence of moves, the lookup of
  a key and the first key not smaller than a given one; and that the descent ends whatever the
  pages contain. The example is a database of three pages.
\<close>

unbundle bit_operations_syntax

section \<open>An example\<close>

text \<open>
  Page 9 is the root, with the children 7 (the key \<open>[1, 2]\<close>) and 8 (the key \<open>[4, 5]\<close>).
\<close>

definition right_node :: bytes where
  "right_node = [1, 0, 0, 0, 0, 0, 2, 0, 4, 5, 6, 0]"

definition right_leaf :: page where
  "right_leaf = \<lparr>mp_pgno = 8, mp_txnid = 1, mp_flags = 2, mp_lower = 2, mp_upper = 20, mp_pages = 0,
     mp_body = [20, 0] @ replicate 18 0 @ right_node\<rparr>"

definition left_entry :: bytes where "left_entry = [7, 0, 0, 0, 0, 0, 0, 0]"
definition right_entry :: bytes where "right_entry = [8, 0, 0, 0, 0, 0, 2, 0, 4, 5]"

definition root_page :: page where
  "root_page = \<lparr>mp_pgno = 9, mp_txnid = 1, mp_flags = 1, mp_lower = 4, mp_upper = 14, mp_pages = 0,
     mp_body = [24, 0, 14, 0] @ replicate 10 0 @ right_entry @ left_entry\<rparr>"

definition ex_map :: "nat \<Rightarrow> page option" where
  "ex_map = [7 \<mapsto> one_leaf, 8 \<mapsto> right_leaf, 9 \<mapsto> root_page]"

definition ex_db :: mdb_db where
  "ex_db = \<lparr>md_pad = 0, md_flags = 0, md_depth = 2, md_branch_pages = 1, md_leaf_pages = 2, md_overflow_pages = 0,
     md_entries = 2, md_root = 9\<rparr>"

definition ex_dbx :: mdb_dbx where
  "ex_dbx = \<lparr>md_name = [], md_cmp = Some Cmp_memn, md_dcmp = Some Cmp_memn\<rparr>"

definition ex_txn :: txn where
  "ex_txn = \<lparr>mt_flags = 0x20000, mt_next_pgno = 10, mt_chain = [\<lparr>tl_dirty = [], tl_spill = None\<rparr>],
     mt_dbs = [ex_db\<lparr>md_root := P_INVALID\<rparr>, ex_db], mt_dbxs = [ex_dbx, ex_dbx], mt_dbflags = [0x08, 0x18], mt_dbiseqs = [0, 0],
     mt_numdbs = 2, mt_cursors = False, me_map = ex_map, me_dbiseqs = [0, 0]\<rparr>"

definition ex_cursor :: main_cursor where
  "ex_cursor = new_cursor\<lparr>mc_dbi := 1, mc_flags := 0x20000\<rparr>"

definition ex_tree :: bt where
  "ex_tree = Br root_page [left_entry, right_entry] [Lf one_leaf [one_node], Lf right_leaf [right_node]]"

lemmas chunk_defs = c_key_def c_ksize_def block_def NODESIZE_def raw_sz_def c_big_def c_flags_def
  F_ISSET_def F_BIGDATA_def c_dsz_def EVEN_def c_data_def c_dlen_def c_pgno_def node_isset_def F_DUPDATA_def

lemma right_leaf_rep: "page_rep right_leaf [right_node]"
proof -
  have f: "IS_LEAF right_leaf" by (simp add: right_leaf_def IS_LEAF_def F_ISSET_def P_LEAF_def)
  have "ptrs (mp_body right_leaf) (length [right_node]) = [20]"
    by (simp add: ptrs_def ptr_def right_leaf_def block_def)
  moreover have "placed True (mp_body right_leaf) 20 (20, right_node)"
    unfolding placed_def by (simp add: right_leaf_def right_node_def chunk_defs)
  ultimately show ?thesis
    using f by (simp add: page_rep_def lay_def) (simp add: right_leaf_def right_node_def)
qed

lemma root_page_rep: "page_rep root_page [left_entry, right_entry]"
proof -
  have f: "\<not> IS_LEAF root_page" by (simp add: root_page_def IS_LEAF_def F_ISSET_def P_LEAF_def)
  have "ptrs (mp_body root_page) (length [left_entry, right_entry]) = [24, 14]"
    by (simp add: ptrs_def ptr_def root_page_def block_def right_entry_def left_entry_def)
  moreover have "placed False (mp_body root_page) 14 (24, left_entry)"
    unfolding placed_def by (simp add: root_page_def left_entry_def right_entry_def chunk_defs)
  moreover have "placed False (mp_body root_page) 14 (14, right_entry)"
    unfolding placed_def by (simp add: root_page_def left_entry_def right_entry_def chunk_defs)
  moreover have "apart (24, left_entry) (14, right_entry)" by (simp add: apart_def left_entry_def right_entry_def)
  ultimately show ?thesis
    using f by (simp add: page_rep_def lay_def) (simp add: root_page_def right_entry_def left_entry_def)
qed

lemma ex_view: "page_view ex_txn True n = (if 10 \<le> n then None else ex_map n)"
  by (simp add: page_view_def ex_txn_def)

lemma ex_tree_ok: "bt_ok (page_view ex_txn True) 1 ex_tree" "bt_sorted ex_tree"
proof -
  have k: "IS_LEAF right_leaf" "\<not> IS_BRANCH right_leaf" "\<not> IS_LEAF2 right_leaf" "\<not> IS_BRANCH one_leaf"
    "IS_BRANCH root_page" "\<not> IS_LEAF root_page" "\<not> IS_LEAF2 root_page"
    by (simp_all add: right_leaf_def one_leaf_def root_page_def IS_LEAF_def IS_LEAF2_def IS_BRANCH_def F_ISSET_def
        P_LEAF_def P_LEAF2_def P_BRANCH_def)
  have c: "c_pgno left_entry = 7" "c_pgno right_entry = 8" "\<not> c_big one_node" "\<not> c_big right_node"
    "\<not> node_isset (c_flags one_node) F_DUPDATA" "\<not> node_isset (c_flags right_node) F_DUPDATA"
    by (simp_all add: chunk_defs left_entry_def right_entry_def one_node_def right_node_def)
  show "bt_ok (page_view ex_txn True) 1 ex_tree"
    using one_leaf_rep right_leaf_rep root_page_rep one_leaf_flags k c
    by (auto simp: ex_tree_def item_value_def ex_view ex_map_def less_Suc_eq nth_Cons')
  show "bt_sorted ex_tree"
    by (auto simp: ex_tree_def chunk_defs left_entry_def right_entry_def one_node_def right_node_def less_Suc_eq nth_Cons')
qed

lemma ex_db_ok: "db_ok ex_txn ex_cursor 1 ex_tree" "fresh ex_cursor" "by_memn ex_txn ex_cursor"
proof -
  have m: "on_map ex_cursor" by (simp add: on_map_def ex_cursor_def C_ORIG_RDONLY_def C_WRITEMAP_def)
  have d: "mc_db ex_txn ex_cursor = Some ex_db" "mc_dbflag ex_txn ex_cursor = Some 0x18" "mc_xcursor ex_cursor = None"
    "\<not> has (mt_flags ex_txn) MDB_TXN_BLOCKED"
    by (simp_all add: mc_db_def mc_dbflag_def ex_cursor_def new_cursor_def ex_txn_def MDB_TXN_BLOCKED_def)
  have r: "page_view ex_txn True 9 = Some (bt_page ex_tree)" by (simp add: ex_view ex_map_def ex_tree_def)
  have f: "\<not> has (0x18 :: 8 word) DB_STALE" "\<not> has (md_flags ex_db) MDB_DUPSORT" "\<not> has (md_flags ex_db) MDB_DUPFIXED"
    "md_root ex_db = 9" "(9 :: nat) \<noteq> P_INVALID" "1 < CURSOR_STACK"
    by (simp_all add: DB_STALE_def ex_db_def P_INVALID_def CURSOR_STACK_def)
  show "db_ok ex_txn ex_cursor 1 ex_tree" unfolding db_ok_def using ex_tree_ok(1) m d r f by simp
  show "fresh ex_cursor"
    by (simp add: fresh_def ex_cursor_def new_cursor_def CURSOR_STACK_def C_INITIALIZED_def C_DEL_def)
  show "by_memn ex_txn ex_cursor"
    by (simp add: by_memn_def mc_dbx_def ex_cursor_def new_cursor_def ex_txn_def ex_dbx_def)
qed

lemma ex_items: "items ex_txn ex_cursor ex_tree = [([1, 2], [3]), ([4, 5], [6])]" "length (entries ex_tree) = 2"
  by (simp_all add: items_def item_def ex_tree_def item_value_def one_node_fields)
    (simp_all add: chunk_defs right_node_def one_node_def)

section \<open>Scans\<close>

lemma fresh_cur_ok: "db_ok txn mc h t \<Longrightarrow> fresh mc \<Longrightarrow> cur_ok txn mc h t (txn, mc)"
  by (simp add: cur_ok_def same_db_def)

text \<open>
  Property C1.
  On a database without sorted duplicates, any sequence of \<^verbatim>\<open>mdb_cursor_get\<close> operations other than the
  three that position at a key, in any order and with any key and data arguments, returns what
  an index into the list of the database's items returns: the same codes, keys and data.
\<close>

theorem mdb_cursor_get_refines_list:
  assumes "db_ok txn mc h t" "fresh mc" "list_all by_position qs"
  shows "\<exists>s'. run (cursor_step X) (txn, mc) qs = Some (fst (spec_run (list_get (items txn mc t)) Fresh qs), s') \<and>
     snd (spec_run (list_get (items txn mc t)) Fresh qs) = pos_of h t (snd s')"
  using cur.run_simulates_on [OF fresh_cur_ok [OF assms(1,2)] assms(3), of X] pos_fresh [OF assms(2), of h t] by auto

theorem mdb_cursor_get_refines_list_witness:
  "\<exists>s'. run (cursor_step (sub_ops (\<lambda>txn mc. None) (\<lambda>txn mc. None))) (ex_txn, ex_cursor)
     [(MDB_LAST, Some [], Some []), (MDB_PREV, Some [], None), (MDB_PREV, Some [0], None), (MDB_GET_CURRENT, None, Some []),
      (MDB_FIRST_DUP, None, Some [])] =
     Some ([(0, Some [4, 5], Some [6]), (0, Some [1, 2], None), (MDB_NOTFOUND, Some [0], None), (0, None, Some [3]),
            (MDB_INCOMPATIBLE, None, Some [])], s')"
proof -
  let ?qs = "[(MDB_LAST, Some [], Some []), (MDB_PREV, Some [], None), (MDB_PREV, Some [0], None), (MDB_GET_CURRENT, None, Some []),
      (MDB_FIRST_DUP, None, Some [])]"
  have "list_all by_position ?qs" by (simp add: by_position_def)
  note R = mdb_cursor_get_refines_list [OF ex_db_ok(1,2) this, of "sub_ops (\<lambda>txn mc. None) (\<lambda>txn mc. None)"]
  then show ?thesis
    unfolding ex_items
    by (simp add: list_get_def list_prev_def go_def refuse_def put_item_def) blast
qed

text \<open>The answers of a scan, from the item at \<open>i\<close> on.\<close>

lemma scan_next:
  "i + n \<le> length es \<Longrightarrow> 0 < i \<Longrightarrow>
   spec_run (list_get es) (At (i - 1)) (replicate n (MDB_NEXT, Some k, Some d)) =
     (map (\<lambda>e. (0, Some (fst e), Some (snd e))) (take n (drop i es)), At (i + n - 1))"
proof (induction n arbitrary: i)
  case (Suc n)
  have "drop i es = es ! i # drop (Suc i) es" using Suc.prems by (simp add: Cons_nth_drop_Suc)
  then show ?case
    using Suc.IH [of "Suc i"] Suc.prems by (simp add: list_get_def list_next_def go_def put_item_def)
qed simp

lemma scan_to_end:
  assumes "i < length es"
  shows "fst (spec_run (list_get es) (At i) (replicate (length es - i) (MDB_NEXT, Some k, Some d))) =
     map (\<lambda>e. (0, Some (fst e), Some (snd e))) (drop (Suc i) es) @ [(MDB_NOTFOUND, Some k, Some d)]"
proof -
  have r: "replicate (length es - i) q = replicate (length es - Suc i) q @ [q]" for q :: request
    using assms replicate_Suc [of "length es - Suc i"] by (simp add: replicate_append_same Suc_diff_Suc)
  have last: "Suc (length es - Suc 0) = length es" "Suc i + (length es - Suc i) = length es" using assms by simp_all
  show ?thesis
    unfolding r using scan_next [of "Suc i" "length es - Suc i" es k d] assms last
    by (simp add: spec_run_append list_get_def list_next_def refuse_def)
qed

lemma filter_drop:
  assumes "\<And>i. i < length xs \<Longrightarrow> P (xs ! i) = (i < n)"
  shows "filter (\<lambda>x. \<not> P x) xs = drop n xs"
proof -
  have "filter (\<lambda>x. \<not> P x) (take n xs) = []" using assms by (auto simp: filter_empty_conv in_set_conv_nth)
  moreover have "filter (\<lambda>x. \<not> P x) (drop n xs) = drop n xs" using assms by (auto simp: filter_id_conv in_set_conv_nth)
  ultimately show ?thesis by (metis append_take_drop_id filter_append append_Nil)
qed

section \<open>Lookups\<close>

text \<open>The cursor that \<^verbatim>\<open>mdb_get\<close> uses.\<close>

definition opened :: "txn \<Rightarrow> nat \<Rightarrow> 'x cursor" where
  "opened txn dbi = new_cursor\<lparr>mc_dbi := dbi, mc_flags := mt_flags txn AND (C_ORIG_RDONLY OR C_WRITEMAP)\<rparr>"

lemma opened_fresh: "fresh (opened txn dbi)"
  by (simp add: fresh_def opened_def new_cursor_def CURSOR_STACK_def flag_bits C_ORIG_RDONLY_def C_WRITEMAP_def)

lemma init_opened:
  assumes "db_ok txn (opened txn dbi :: 'x cursor) h t"
  shows "mdb_cursor_init X txn dbi mx (new_cursor :: 'x cursor) = Some (txn, opened txn dbi)"
proof -
  obtain rec f where r: "rd (mt_dbs txn) dbi = Some rec" "\<not> has (md_flags rec) MDB_DUPSORT" "rd (mt_dbflags txn) dbi = Some f"
    "\<not> has f DB_STALE"
    using assms by (auto simp: db_ok_def mc_db_def mc_dbflag_def opened_def new_cursor_def)
  have "cursor_reset X txn dbi mx (new_cursor :: 'x cursor) = Some (opened txn dbi)"
    using r(1,2) by (simp add: cursor_reset_def opened_def new_cursor_def CURSOR_STACK_def Let_def list_update_same_conv)
  moreover have "mc_dbflag txn (opened txn dbi :: 'x cursor) = Some f"
    using r(3) by (simp add: mc_dbflag_def opened_def new_cursor_def)
  ultimately show ?thesis using r(4) by (simp add: mdb_cursor_init_def)
qed

text \<open>
  Property C2.
  \<^verbatim>\<open>mdb_get\<close> on a database whose tree is sorted returns success and the value stored under the key, which
  may lie on an overflow page, if the key is present, and \<^verbatim>\<open>MDB_NOTFOUND\<close> with the data argument
  unchanged if it is not.
\<close>

theorem mdb_get_correct:
  fixes X :: "'x ops"
  assumes db: "db_ok txn (opened txn dbi :: 'x cursor) h t" and cmp: "by_memn txn (opened txn dbi :: 'x cursor)" and s: "bt_sorted t"
    and dbi: "dbi < mt_numdbs txn" "has (mt_dbflags txn ! dbi) DB_USRVALID"
    and k: "k \<noteq> []" "length k < 2 ^ 32"
  shows "mdb_get X mx txn dbi (Some k) (Some d) =
     Some (case map_of (items txn (opened txn dbi :: 'x cursor) t) k of
             Some v \<Rightarrow> (0, txn, Some v) | None \<Rightarrow> (MDB_NOTFOUND, txn, Some d))"
proof -
  let ?mc = "opened txn dbi :: 'x cursor"
  have ok: "bt_ok (page_view txn (on_map ?mc)) h t" "\<not> has (mt_flags txn) MDB_TXN_BLOCKED" using db by (simp_all add: db_ok_def)
  obtain f where f: "rd (mt_dbflags txn) dbi = Some f"
    using db by (auto simp: db_ok_def mc_dbflag_def opened_def new_cursor_def)
  then have "has f DB_USRVALID" using dbi(2) by (simp add: rd_Some_iff)
  then have run: "mdb_get X mx txn dbi (Some k) (Some d) =
      do { (rc, txn, mc, key, data) \<leftarrow> mdb_cursor_set X txn ?mc (Some k) (Some d) MDB_SET (Some False); Some (rc, txn, data) }"
    using dbi(1) ok(2) f init_opened [OF db, of X "Some mx"] by (simp add: mdb_get_def)
  obtain mc' where "set_reply txn ?mc h t k (Some d) MDB_SET (Some False) mc' (mdb_cursor_set X txn ?mc (Some k) (Some d) MDB_SET (Some False))"
    using set_fresh [OF db opened_fresh s cmp k(2,1)] by blast
  then show ?thesis
    unfolding run map_of_items [OF ok(1) s] by (auto simp: set_reply_def Let_def split: if_split_asm)
qed

lemma ex_opened: "opened ex_txn 1 = ex_cursor"
  by (simp add: opened_def ex_cursor_def ex_txn_def C_ORIG_RDONLY_def C_WRITEMAP_def)

theorem mdb_get_correct_witness:
  "mdb_get (sub_ops (\<lambda>txn mc. None) (\<lambda>txn mc. None)) new_cursor ex_txn 1 (Some [4, 5]) (Some []) = Some (0, ex_txn, Some [6]) \<and>
   mdb_get (sub_ops (\<lambda>txn mc. None) (\<lambda>txn mc. None)) new_cursor ex_txn 1 (Some [4]) (Some []) = Some (MDB_NOTFOUND, ex_txn, Some [])"
proof -
  have v: "1 < mt_numdbs ex_txn" "has (mt_dbflags ex_txn ! 1) DB_USRVALID" by (simp_all add: ex_txn_def DB_USRVALID_def)
  note G = mdb_get_correct [OF ex_db_ok(1,3) [folded ex_opened] ex_tree_ok(2) v, unfolded ex_opened ex_items]
  show ?thesis
    using G [of "[4, 5]" "sub_ops (\<lambda>txn mc. None) (\<lambda>txn mc. None)" new_cursor "[]"]
      G [of "[4]" "sub_ops (\<lambda>txn mc. None) (\<lambda>txn mc. None)" new_cursor "[]"]
    by simp
qed

lemma item_order:
  assumes "db_ok txn mc h t" "bt_sorted t"
  shows "sorted_wrt (\<lambda>a b. lex_less (fst a) (fst b)) (items txn mc t)"
    "i < length (entries t) \<Longrightarrow> lex_less (fst (items txn mc t ! i)) k = (i < smaller k (entries t))"
proof -
  have "bt_ok (page_view txn (on_map mc)) h t" using assms(1) by (simp add: db_ok_def)
  note o = entries_sorted [OF this assms(2)]
  show "sorted_wrt (\<lambda>a b. lex_less (fst a) (fst b)) (items txn mc t)" using o by (simp add: items_def item_def sorted_wrt_map)
  show "lex_less (fst (items txn mc t ! i)) k = (i < smaller k (entries t))" if "i < length (entries t)"
    using smaller_iff [OF o that, of k] that by (simp add: items_def item_def)
qed

lemma count_smaller: "length (filter (\<lambda>e. lex_less (fst e) k) (items txn mc t)) = smaller k (entries t)"
  by (simp add: smaller_def items_def item_def filter_map comp_def)

text \<open>Where \<^verbatim>\<open>MDB_SET_RANGE\<close> leaves a new cursor.\<close>

lemma set_range_get:
  assumes db: "db_ok txn mc h t" and fr: "fresh mc" and s: "bt_sorted t" and cmp: "by_memn txn mc"
    and k: "length k < 2 ^ 32" "k \<noteq> []"
  shows "\<exists>mc'. let n = smaller k (entries t) in
     same_db mc mc' \<and>
     (if n < length (entries t)
      then mdb_cursor_get X txn mc (Some k) (Some d) MDB_SET_RANGE =
             Some (0, txn, mc', Some (fst (items txn mc t ! n)), Some (snd (items txn mc t ! n))) \<and> cur_at mc' h t n
      else mdb_cursor_get X txn mc (Some k) (Some d) MDB_SET_RANGE = Some (MDB_NOTFOUND, txn, mc', Some k, Some d))"
proof -
  have ok: "\<not> has (mt_flags txn) MDB_TXN_BLOCKED" using db by (simp add: db_ok_def)
  obtain mc' where R: "set_reply txn mc h t k (Some d) MDB_SET_RANGE None mc' (mdb_cursor_set X txn mc (Some k) (Some d) MDB_SET_RANGE None)"
    using set_fresh [OF db fr s cmp k] by blast
  have sw: "cursor_switch X txn mc (Some k) (Some d) MDB_SET_RANGE = mdb_cursor_set X txn mc (Some k) (Some d) MDB_SET_RANGE None"
    by (simp add: cursor_switch_def get_set_def)
  let ?mc = "if has (mc_flags mc') C_DEL then mc'\<lparr>mc_flags := mc_flags mc' XOR C_DEL\<rparr> else mc'"
  have "same_db mc' ?mc" by (simp add: same_db_def on_map_def flag_bits)
  then have "same_db mc ?mc" using R same_db_trans unfolding set_reply_def Let_def by blast
  then show ?thesis
    using R ok sw by (intro exI [of _ ?mc]) (auto simp: set_reply_def Let_def mdb_cursor_get_def cur_at_def)
qed

text \<open>
  Property C3.
  \<^verbatim>\<open>MDB_SET_RANGE\<close> on a new cursor goes to the first item whose key is not smaller than the given
  one, on whichever page it is, returns its key and data and leaves the cursor there; if every key
  is smaller it returns \<^verbatim>\<open>MDB_NOTFOUND\<close>.
\<close>

theorem mdb_cursor_set_range:
  assumes db: "db_ok txn mc h t" and fr: "fresh mc" and s: "bt_sorted t" and cmp: "by_memn txn mc"
    and k: "length k < 2 ^ 32" "k \<noteq> []"
  shows "\<exists>mc'. let n = length (filter (\<lambda>e. lex_less (fst e) k) (items txn mc t)) in
     if n < length (items txn mc t)
     then mdb_cursor_get X txn mc (Some k) (Some d) MDB_SET_RANGE =
            Some (0, txn, mc', Some (fst (items txn mc t ! n)), Some (snd (items txn mc t ! n))) \<and>
          pos_of h t mc' = At n \<and> \<not> lex_less (fst (items txn mc t ! n)) k \<and> (\<forall>i<n. lex_less (fst (items txn mc t ! i)) k)
     else mdb_cursor_get X txn mc (Some k) (Some d) MDB_SET_RANGE = Some (MDB_NOTFOUND, txn, mc', Some k, Some d)"
proof -
  obtain mc' where "let n = smaller k (entries t) in
     same_db mc mc' \<and>
     (if n < length (entries t)
      then mdb_cursor_get X txn mc (Some k) (Some d) MDB_SET_RANGE =
             Some (0, txn, mc', Some (fst (items txn mc t ! n)), Some (snd (items txn mc t ! n))) \<and> cur_at mc' h t n
      else mdb_cursor_get X txn mc (Some k) (Some d) MDB_SET_RANGE = Some (MDB_NOTFOUND, txn, mc', Some k, Some d))"
    using set_range_get [OF db fr s cmp k] by blast
  then show ?thesis
    unfolding count_smaller items_length Let_def
    using item_order(2) [OF db s, of _ k] pos_at [of mc' h t] by (intro exI [of _ mc']) auto
qed

theorem mdb_cursor_set_range_witness:
  "\<exists>mc'. mdb_cursor_get (sub_ops (\<lambda>txn mc. None) (\<lambda>txn mc. None)) ex_txn ex_cursor (Some [1, 3]) (Some []) MDB_SET_RANGE =
     Some (0, ex_txn, mc', Some [4, 5], Some [6])"
  using mdb_cursor_set_range [OF ex_db_ok(1,2) ex_tree_ok(2) ex_db_ok(3), of "[1, 3]" "sub_ops (\<lambda>txn mc. None) (\<lambda>txn mc. None)" "[]"]
  unfolding ex_items by auto

text \<open>
  Property C26.
  A range scan: \<^verbatim>\<open>MDB_SET_RANGE\<close> on a new cursor and then \<^verbatim>\<open>MDB_NEXT\<close> until it fails returns every item whose key
  is not smaller than the given one, across all pages, each once and in strictly ascending order
  of the keys, and the call after the last one returns \<^verbatim>\<open>MDB_NOTFOUND\<close> with its arguments
  unchanged.
\<close>

theorem mdb_cursor_range_scan:
  assumes db: "db_ok txn mc h t" and fr: "fresh mc" and s: "bt_sorted t" and cmp: "by_memn txn mc"
    and k: "length k < 2 ^ 32" "k \<noteq> []"
    and es: "es = filter (\<lambda>e. \<not> lex_less (fst e) k) (items txn mc t)" "es \<noteq> []"
  shows "sorted_wrt lex_less (map fst es) \<and>
     (\<exists>s'. run (cursor_step X) (txn, mc) ((MDB_SET_RANGE, Some k, Some d) # replicate (length es) (MDB_NEXT, Some k', Some d')) =
        Some (map (\<lambda>e. (0, Some (fst e), Some (snd e))) es @ [(MDB_NOTFOUND, Some k', Some d')], s'))"
proof -
  let ?xs = "items txn mc t" and ?n = "smaller k (entries t)" and ?q = "(MDB_NEXT, Some k', Some d')"
  have ed: "es = drop ?n ?xs"
    unfolding es(1) by (rule filter_drop) (simp add: item_order(2) [OF db s] items_length)
  then have n: "?n < length (entries t)" using es(2) by (simp add: items_length)
  have len: "length es = length (entries t) - ?n" by (simp add: ed items_length)
  obtain mc' where get: "same_db mc mc'" "cur_at mc' h t ?n"
    "mdb_cursor_get X txn mc (Some k) (Some d) MDB_SET_RANGE = Some (0, txn, mc', Some (fst (?xs ! ?n)), Some (snd (?xs ! ?n)))"
    using set_range_get [OF db fr s cmp k, of X d] n by (auto simp: Let_def)
  have "cur_ok txn mc h t (txn, mc')" by (rule cur_ok_moved [OF fresh_cur_ok [OF db fr] get(1,2)])
  moreover have "list_all by_position (replicate (length es) ?q)" by (simp add: list_all_iff by_position_def)
  ultimately obtain rs s' where r: "run (cursor_step X) (txn, mc') (replicate (length es) ?q) = Some (rs, s')"
    "fst (spec_run (list_get ?xs) (At ?n) (replicate (length es) ?q)) = rs"
    using cur.run_simulates_on [of txn mc h t "(txn, mc')" "replicate (length es) ?q" X] pos_at [OF get(2)] by auto
  have "rs = map (\<lambda>e. (0, Some (fst e), Some (snd e))) (drop (Suc ?n) ?xs) @ [(MDB_NOTFOUND, Some k', Some d')]"
    using r(2) scan_to_end [of ?n ?xs k' d'] n by (simp add: items_length len)
  moreover have "es = ?xs ! ?n # drop (Suc ?n) ?xs" using n by (simp add: ed items_length Cons_nth_drop_Suc)
  moreover have "sorted_wrt lex_less (map fst es)"
    using item_order(1) [OF db s] by (simp add: es(1) sorted_wrt_map sorted_wrt_filter)
  moreover have "run (cursor_step X) (txn, mc) ((MDB_SET_RANGE, Some k, Some d) # replicate (length es) ?q) =
      Some ((0, Some (fst (?xs ! ?n)), Some (snd (?xs ! ?n))) # rs, s')"
    using r(1) get(3) by (simp add: cursor_step_def)
  ultimately show ?thesis by simp
qed

theorem mdb_cursor_range_scan_witness:
  "sorted_wrt lex_less [[1, 2], [4, 5]] \<and>
   (\<exists>s'. run (cursor_step (sub_ops (\<lambda>txn mc. None) (\<lambda>txn mc. None))) (ex_txn, ex_cursor)
      [(MDB_SET_RANGE, Some [1], Some []), (MDB_NEXT, Some [], Some []), (MDB_NEXT, Some [], Some [])] =
     Some ([(0, Some [1, 2], Some [3]), (0, Some [4, 5], Some [6]), (MDB_NOTFOUND, Some [], Some [])], s'))"
  using mdb_cursor_range_scan [OF ex_db_ok(1,2) ex_tree_ok(2) ex_db_ok(3), of "[1]", OF _ _ refl,
      of "sub_ops (\<lambda>txn mc. None) (\<lambda>txn mc. None)" "[]" "[]" "[]"]
  unfolding ex_items by simp

section \<open>Corrupted trees\<close>

text \<open>A set of pages, all branch pages, that is closed under going to the first child: the descent would never meet a leaf.\<close>

definition no_leaf :: "txn \<Rightarrow> bool \<Rightarrow> nat set \<Rightarrow> bool" where
  "no_leaf txn b S \<longleftrightarrow>
     (\<forall>n\<in>S. \<exists>p m. page_view txn b n = Some p \<and> IS_BRANCH p \<and> 1 < NUMKEYS p \<and> child_pgno p 0 = Some m \<and> m \<in> S)"

lemma step_no_leaf:
  assumes S: "no_leaf txn (on_map mc) S" and len: "length (mc_ki mc) = CURSOR_STACK"
    and top: "mc_top mc < CURSOR_STACK" "page_view txn (on_map mc) n = Some p" "n \<in> S"
  shows "IS_BRANCH p \<and> (\<exists>m p'. m \<in> S \<and> page_view txn (on_map mc) m = Some p' \<and>
     search_step txn mc p key MDB_PS_FIRST = mdb_cursor_push txn (mc\<lparr>mc_ki := (mc_ki mc)[mc_top mc := 0]\<rparr>) p')"
proof -
  obtain m where m: "IS_BRANCH p" "1 < NUMKEYS p" "child_pgno p 0 = Some m" "m \<in> S"
    using S top(2,3) unfolding no_leaf_def by (metis option.inject)
  obtain p' where p': "page_view txn (on_map mc) m = Some p'" using S m(4) unfolding no_leaf_def by blast
  have "branch_index txn mc p key MDB_PS_FIRST = Some (0, False, mc)"
    using dir_flag_bits(3,4) [of True] by (simp add: branch_index_def dir_flag_def)
  then have "search_step txn mc p key MDB_PS_FIRST = mdb_cursor_push txn (mc\<lparr>mc_ki := (mc_ki mc)[mc_top mc := 0]\<rparr>) p'"
    using m len top(1) page_get_view [OF p'] by (simp add: search_step_def set_ki_def u16_def)
  then show ?thesis using m p' by blast
qed

lemma descend_no_leaf:
  assumes "no_leaf txn (on_map mc) S" "length (mc_pg mc) = CURSOR_STACK" "length (mc_ki mc) = CURSOR_STACK"
    "mc_snum mc = Suc (mc_top mc)" "mc_top mc < CURSOR_STACK" "top_pg mc = Some p" "page_view txn (on_map mc) n = Some p" "n \<in> S"
  shows "\<exists>mc'. mdb_page_search_root X txn mc key MDB_PS_FIRST = Some (MDB_CURSOR_FULL, txn_error txn, mc') \<and> mc_snum mc' = CURSOR_STACK"
  using assms
proof (induction "CURSOR_STACK - mc_snum mc" arbitrary: mc p n)
  case 0
  then obtain m p' where st: "IS_BRANCH p"
    "search_step txn mc p key MDB_PS_FIRST = mdb_cursor_push txn (mc\<lparr>mc_ki := (mc_ki mc)[mc_top mc := 0]\<rparr>) p'"
    using step_no_leaf by blast
  have "mc_snum mc = CURSOR_STACK" using 0 by simp
  then have "mdb_page_search_root X txn mc key MDB_PS_FIRST =
      Some (MDB_CURSOR_FULL, txn_error txn, mc\<lparr>mc_ki := (mc_ki mc)[mc_top mc := 0]\<rparr>)"
    using st 0(7) by (subst mdb_page_search_root.simps) (simp add: mdb_cursor_push_def MDB_CURSOR_FULL_def)
  then show ?case using \<open>mc_snum mc = CURSOR_STACK\<close> by simp
next
  case (Suc k)
  obtain m p' where st: "IS_BRANCH p" "m \<in> S" "page_view txn (on_map mc) m = Some p'"
    "search_step txn mc p key MDB_PS_FIRST = mdb_cursor_push txn (mc\<lparr>mc_ki := (mc_ki mc)[mc_top mc := 0]\<rparr>) p'"
    using step_no_leaf [OF Suc.prems(1,3,5,7,8)] by blast
  let ?n = "mc_snum mc"
  let ?mc = "mc\<lparr>mc_top := ?n, mc_snum := ?n + 1, mc_pg := (mc_pg mc)[?n := Some p'], mc_ki := (mc_ki mc)[mc_top mc := 0, ?n := 0]\<rparr>"
  have n: "?n < CURSOR_STACK" using Suc.hyps(2) by simp
  have k: "on_map ?mc = on_map mc" by (simp add: on_map_def)
  have "search_step txn mc p key MDB_PS_FIRST = Some (0, txn, ?mc)"
    using st(4) n Suc.prems(2,3) by (simp add: mdb_cursor_push_def Let_def)
  moreover have "touch_top X txn ?mc MDB_PS_FIRST = Some (0, txn, ?mc)" using touch_dir [of X txn ?mc True] by (simp add: dir_flag_def)
  ultimately have "mdb_page_search_root X txn mc key MDB_PS_FIRST = mdb_page_search_root X txn ?mc key MDB_PS_FIRST"
    using st(1) Suc.prems(6) by (subst mdb_page_search_root.simps) simp
  moreover have "\<exists>mc'. mdb_page_search_root X txn ?mc key MDB_PS_FIRST = Some (MDB_CURSOR_FULL, txn_error txn, mc') \<and> mc_snum mc' = CURSOR_STACK"
  proof (rule Suc.hyps(1))
    show "k = CURSOR_STACK - mc_snum ?mc" using Suc.hyps(2) by simp
    show "top_pg ?mc = Some p'" using n Suc.prems(2) by (simp add: top_pg_def)
    show "page_view txn (on_map ?mc) m = Some p'" "no_leaf txn (on_map ?mc) S" using st(3) Suc.prems(1) k by simp_all
  qed (use st(2) n Suc.prems in simp_all)
  ultimately show ?case by simp
qed

text \<open>
  Property C27.
  The search for the first item ends even in a damaged file whose branch pages lead back to branch
  pages for ever: after \<^verbatim>\<open>CURSOR_STACK\<close> pages it returns \<^verbatim>\<open>MDB_CURSOR_FULL\<close> and marks the transaction as
  failed, without writing outside the cursor's arrays.
\<close>

theorem mdb_cursor_first_ends_on_cycle:
  assumes txn: "\<not> has (mt_flags txn) MDB_TXN_BLOCKED" and flag: "mc_dbflag txn mc = Some f" "\<not> has f DB_STALE"
    and db: "mc_db txn mc = Some db" "1 < md_root db" "md_root db \<noteq> P_INVALID"
    and S: "no_leaf txn (on_map mc) S" "md_root db \<in> S" and mc: "fresh mc" "mc_xcursor mc = None"
  shows "\<exists>mc'. mdb_cursor_first X txn mc key data = Some (MDB_CURSOR_FULL, txn_error txn, mc', key, data) \<and> mc_snum mc' = CURSOR_STACK"
proof -
  obtain p where p: "page_view txn (on_map mc) (md_root db) = Some p" using S unfolding no_leaf_def by blast
  let ?mc = "mc\<lparr>mc_pg := (mc_pg mc)[0 := Some p], mc_snum := 1, mc_top := 0\<rparr>"
  have F: "length (mc_pg mc) = CURSOR_STACK" "length (mc_ki mc) = CURSOR_STACK" "mc_pg mc ! 0 = None" "0 < CURSOR_STACK"
    "\<not> has (mc_flags mc) C_INITIALIZED"
    using mc(1) by (simp_all add: fresh_def CURSOR_STACK_def)
  have fl: "touch_top X txn ?mc MDB_PS_FIRST = Some (0, txn, ?mc)" "\<not> has MDB_PS_FIRST MDB_PS_ROOTONLY"
    using touch_dir [of X txn ?mc True] dir_flag_bits(2) [of True] by (simp_all add: dir_flag_def)
  have k: "on_map ?mc = on_map mc" by (simp add: on_map_def)
  obtain mc' where mc': "mdb_page_search_root X txn ?mc None MDB_PS_FIRST = Some (MDB_CURSOR_FULL, txn_error txn, mc')"
    "mc_snum mc' = CURSOR_STACK"
    using descend_no_leaf [of txn ?mc S p "md_root db" X None] S p F k by (auto simp: top_pg_def)
  have "mdb_page_search X txn mc None MDB_PS_FIRST = Some (MDB_CURSOR_FULL, txn_error txn, mc')"
    using txn flag db F fl mc'(1) page_get_view [OF p]
    by (simp add: mdb_page_search_def refresh_db_def search_from_root_def Let_def)
  then show ?thesis using F(5) mc'(2) mc(2) by (simp add: mdb_cursor_first_def Let_def MDB_CURSOR_FULL_def)
qed

text \<open>A root page whose first child is itself.\<close>

theorem mdb_cursor_first_ends_on_cycle_witness:
  "\<exists>mc'. mdb_cursor_first (sub_ops (\<lambda>txn mc. None) (\<lambda>txn mc. None)) (ex_txn\<lparr>me_map := [7 \<mapsto> root_page], mt_dbs := [ex_db, ex_db\<lparr>md_root := 7\<rparr>]\<rparr>)
     ex_cursor None None =
     Some (MDB_CURSOR_FULL, txn_error (ex_txn\<lparr>me_map := [7 \<mapsto> root_page], mt_dbs := [ex_db, ex_db\<lparr>md_root := 7\<rparr>]\<rparr>), mc', None, None)"
proof -
  let ?t = "ex_txn\<lparr>me_map := [7 \<mapsto> root_page], mt_dbs := [ex_db, ex_db\<lparr>md_root := 7\<rparr>]\<rparr>"
  have m: "on_map ex_cursor" "mc_xcursor ex_cursor = None"
    by (simp_all add: on_map_def ex_cursor_def new_cursor_def C_ORIG_RDONLY_def C_WRITEMAP_def)
  have d: "mc_db ?t ex_cursor = Some (ex_db\<lparr>md_root := 7\<rparr>)" "mc_dbflag ?t ex_cursor = Some 0x18"
    "\<not> has (mt_flags ?t) MDB_TXN_BLOCKED" "\<not> has (0x18 :: 8 word) DB_STALE"
    by (simp_all add: mc_db_def mc_dbflag_def ex_cursor_def new_cursor_def ex_txn_def MDB_TXN_BLOCKED_def DB_STALE_def)
  have "child_pgno root_page 0 = Some 7" using chunk_header(6) [OF root_page_rep, of 0] by (simp add: chunk_defs left_entry_def)
  moreover have "NUMKEYS root_page = 2" "IS_BRANCH root_page"
    by (simp_all add: NUMKEYS_def root_page_def IS_BRANCH_def F_ISSET_def P_BRANCH_def)
  ultimately have "no_leaf ?t (on_map ex_cursor) {7}"
    using m by (simp add: no_leaf_def page_view_def ex_txn_def)
  then show ?thesis
    using mdb_cursor_first_ends_on_cycle [OF d(3,2,4,1), of "{7}" "sub_ops (\<lambda>txn mc. None) (\<lambda>txn mc. None)" None None] ex_db_ok(2) m(2)
    by (auto simp: P_INVALID_def)
qed

end
