(* ===== verification/Ring_Buffer.thy ===== *)
theory Ring_Buffer
  imports Prelude
begin

text \<open>
  \<^verbatim>\<open>kimix::ring_buffer\<close> (\<^verbatim>\<open>src/core/stl/ring_buffer.h\<close>): a circular buffer that overwrites its oldest
  element when it is full. The interface it offers is the locale \<open>overwriting_queue\<close>; the
  facts that follow for whole sequences of pushes and pops are proved there once.
\<close>

section \<open>The contract\<close>

text \<open>The last \<open>n\<close> elements of a list.\<close>

definition keep_last :: "nat \<Rightarrow> 'a list \<Rightarrow> 'a list" where
  "keep_last n xs = drop (length xs - n) xs"

lemma keep_last_append: "keep_last n (keep_last n xs @ ys) = keep_last n (xs @ ys)"
proof (cases "length xs \<le> n")
  case False
  then show ?thesis by (simp add: keep_last_def add.commute)
qed (simp add: keep_last_def)

locale overwriting_queue =
  fixes push :: "'q \<Rightarrow> 'a \<Rightarrow> 'q option"
    and pop :: "'q \<Rightarrow> ('a option \<times> 'q) option"
    and contents :: "'q \<Rightarrow> 'a list"
    and cap :: "'q \<Rightarrow> nat"
    and inv :: "'q \<Rightarrow> bool"
  assumes push_ok: "inv q \<Longrightarrow> \<exists>q'. push q x = Some q' \<and> inv q' \<and> cap q' = cap q \<and>
                      contents q' = keep_last (cap q) (contents q @ [x])"
    and pop_ok: "inv q \<Longrightarrow> \<exists>q'. pop q = Some ((case contents q of [] \<Rightarrow> None | x # _ \<Rightarrow> Some x), q') \<and> inv q' \<and>
                      cap q' = cap q \<and> contents q' = tl (contents q)"
begin

fun push_all :: "'q \<Rightarrow> 'a list \<Rightarrow> 'q option" where
  "push_all q [] = Some q"
| "push_all q (x # xs) = do { q \<leftarrow> push q x; push_all q xs }"

fun pop_n :: "'q \<Rightarrow> nat \<Rightarrow> ('a list \<times> 'q) option" where
  "pop_n q 0 = Some ([], q)"
| "pop_n q (Suc n) =
     do { (x, q) \<leftarrow> pop q; (xs, q) \<leftarrow> pop_n q n; Some ((case x of None \<Rightarrow> xs | Some x \<Rightarrow> x # xs), q) }"

lemma push_all_ok:
  "inv q \<Longrightarrow> length (contents q) \<le> cap q \<Longrightarrow> \<exists>q'. push_all q xs = Some q' \<and> inv q' \<and> cap q' = cap q \<and>
     contents q' = keep_last (cap q) (contents q @ xs)"
proof (induction xs arbitrary: q)
  case Nil
  then show ?case by (simp add: keep_last_def)
next
  case (Cons x xs)
  obtain q1 where q1: "push q x = Some q1" "inv q1" "cap q1 = cap q" "contents q1 = keep_last (cap q) (contents q @ [x])"
    using push_ok [OF Cons.prems(1)] by blast
  have "length (contents q1) \<le> cap q1" using q1(3,4) by (simp add: keep_last_def)
  then obtain q2 where "push_all q1 xs = Some q2" "inv q2" "cap q2 = cap q1" "contents q2 = keep_last (cap q1) (contents q1 @ xs)"
    using Cons.IH [OF q1(2)] by blast
  then show ?case using q1 keep_last_append [of "cap q" "contents q @ [x]" xs] by auto
qed

lemma pop_n_ok:
  "inv q \<Longrightarrow> n \<le> length (contents q) \<Longrightarrow> \<exists>q'. pop_n q n = Some (take n (contents q), q') \<and> inv q' \<and>
     cap q' = cap q \<and> contents q' = drop n (contents q)"
proof (induction n arbitrary: q)
  case (Suc n)
  obtain q1 where q1: "pop q = Some ((case contents q of [] \<Rightarrow> None | x # _ \<Rightarrow> Some x), q1)" "inv q1" "cap q1 = cap q"
    "contents q1 = tl (contents q)"
    using pop_ok [OF Suc.prems(1)] by blast
  obtain y ys where c: "contents q = y # ys" using Suc.prems(2) by (cases "contents q") auto
  then have "n \<le> length (contents q1)" using Suc.prems(2) q1(4) by simp
  from Suc.IH [OF q1(2) this] show ?case using q1 c by auto
qed simp

end

section \<open>Model\<close>

record 'a ring_buffer =
  rb_data :: "'a list"
  rb_capacity :: nat
  rb_head :: nat
  rb_tail :: nat
  rb_count :: nat

text \<open>\<^verbatim>\<open>dflt\<close> is the value-initialised element the vector is filled with.\<close>

definition rb_new :: "'a \<Rightarrow> nat \<Rightarrow> 'a ring_buffer" where
  "rb_new dflt capacity =
     \<lparr>rb_data = replicate capacity dflt, rb_capacity = capacity, rb_head = 0, rb_tail = 0, rb_count = 0\<rparr>"

definition rb_push :: "'a ring_buffer \<Rightarrow> 'a \<Rightarrow> 'a ring_buffer option" where
  "rb_push r v =
     (if rb_count r < rb_capacity r
      then do {
        d \<leftarrow> wr (rb_data r) (rb_tail r) v;
        Some (r\<lparr>rb_data := d, rb_tail := (rb_tail r + 1) mod rb_capacity r, rb_count := rb_count r + 1\<rparr>)
      }
      else do {
        d \<leftarrow> wr (rb_data r) (rb_head r) v;
        let h = (rb_head r + 1) mod rb_capacity r;
        Some (r\<lparr>rb_data := d, rb_head := h, rb_tail := h\<rparr>)
      })"

definition rb_pop :: "'a ring_buffer \<Rightarrow> ('a option \<times> 'a ring_buffer) option" where
  "rb_pop r =
     (if rb_count r = 0 then Some (None, r)
      else do {
        v \<leftarrow> rd (rb_data r) (rb_head r);
        Some (Some v, r\<lparr>rb_head := (rb_head r + 1) mod rb_capacity r, rb_count := rb_count r - 1\<rparr>)
      })"

definition rb_front :: "'a ring_buffer \<Rightarrow> 'a option" where
  "rb_front r = rd (rb_data r) (rb_head r)"

definition rb_back :: "'a ring_buffer \<Rightarrow> 'a option" where
  "rb_back r = rd (rb_data r) (if rb_tail r = 0 then rb_capacity r - 1 else rb_tail r - 1)"

definition rb_size :: "'a ring_buffer \<Rightarrow> nat" where "rb_size r = rb_count r"
definition rb_empty :: "'a ring_buffer \<Rightarrow> bool" where "rb_empty r \<longleftrightarrow> rb_count r = 0"
definition rb_full :: "'a ring_buffer \<Rightarrow> bool" where "rb_full r \<longleftrightarrow> rb_count r = rb_capacity r"

definition rb_clear :: "'a ring_buffer \<Rightarrow> 'a ring_buffer" where
  "rb_clear r = r\<lparr>rb_count := 0, rb_head := 0, rb_tail := 0\<rparr>"

section \<open>Refinement\<close>

definition rb_ok :: "'a ring_buffer \<Rightarrow> bool" where
  "rb_ok r \<longleftrightarrow> length (rb_data r) = rb_capacity r \<and> 0 < rb_capacity r \<and> rb_head r < rb_capacity r \<and>
     rb_count r \<le> rb_capacity r \<and> rb_tail r = (rb_head r + rb_count r) mod rb_capacity r"

definition rb_list :: "'a ring_buffer \<Rightarrow> 'a list" where
  "rb_list r = map (\<lambda>i. rb_data r ! ((rb_head r + i) mod rb_capacity r)) [0..<rb_count r]"

lemma length_rb_list [simp]: "length (rb_list r) = rb_count r"
  by (simp add: rb_list_def)

lemma rb_slots_distinct:
  assumes "i < c" "j < c" "i < j" "0 < c"
  shows "(h + i) mod c \<noteq> (h + j) mod (c :: nat)"
proof
  assume "(h + i) mod c = (h + j) mod c"
  then have "(h + j) mod c = (h + i) mod c" by simp
  then have "c dvd (h + j) - (h + i)" using assms(3) mod_eq_dvd_iff_nat [of "h + i" "h + j" c] by simp
  then have "c dvd j - i" by simp
  then show False using assms by (auto dest: dvd_imp_le)
qed

lemma rb_push_room:
  assumes "rb_ok r" "rb_count r < rb_capacity r"
  shows "\<exists>r'. rb_push r v = Some r' \<and> rb_ok r' \<and> rb_capacity r' = rb_capacity r \<and> rb_list r' = rb_list r @ [v]"
proof -
  let ?c = "rb_capacity r" and ?h = "rb_head r" and ?n = "rb_count r"
  have t: "rb_tail r = (?h + ?n) mod ?c" "rb_tail r < ?c" "length (rb_data r) = ?c" "0 < ?c"
    using assms(1) by (auto simp: rb_ok_def)
  let ?r = "r\<lparr>rb_data := (rb_data r)[rb_tail r := v], rb_tail := (rb_tail r + 1) mod ?c, rb_count := ?n + 1\<rparr>"
  have run: "rb_push r v = Some ?r" using assms(2) t by (simp add: rb_push_def)
  have ok: "rb_ok ?r" using assms t by (auto simp: rb_ok_def mod_Suc_eq)
  have "rb_list ?r = rb_list r @ [v]"
  proof -
    have "(rb_data r)[rb_tail r := v] ! ((?h + i) mod ?c) = rb_data r ! ((?h + i) mod ?c)" if "i < ?n" for i
      using rb_slots_distinct [of i ?c ?n ?h] that assms(2) t by simp
    then show ?thesis using t by (simp add: rb_list_def)
  qed
  then show ?thesis using run ok by auto
qed

lemma rb_push_full:
  assumes "rb_ok r" "rb_count r = rb_capacity r"
  shows "\<exists>r'. rb_push r v = Some r' \<and> rb_ok r' \<and> rb_capacity r' = rb_capacity r \<and> rb_list r' = tl (rb_list r) @ [v]"
proof -
  let ?c = "rb_capacity r" and ?h = "rb_head r"
  have t: "?h < ?c" "length (rb_data r) = ?c" "0 < ?c" using assms(1) by (auto simp: rb_ok_def)
  let ?h' = "(?h + 1) mod ?c"
  let ?r = "r\<lparr>rb_data := (rb_data r)[?h := v], rb_head := ?h', rb_tail := ?h'\<rparr>"
  have run: "rb_push r v = Some ?r" using assms(2) t by (simp add: rb_push_def Let_def)
  have ok: "rb_ok ?r" using assms t by (auto simp: rb_ok_def)
  obtain m where m: "?c = Suc m" using t(3) by (cases ?c) auto
  have tl: "tl (rb_list r) = map (\<lambda>i. rb_data r ! ((?h + Suc i) mod ?c)) [0..<m]"
    using assms(2) m by (simp add: rb_list_def map_tl [symmetric] tl_upt map_Suc_upt [symmetric] del: upt_Suc)
  have "(rb_data r)[?h := v] ! ((?h + Suc i) mod ?c) = rb_data r ! ((?h + Suc i) mod ?c)" if "i < m" for i
    using rb_slots_distinct [of 0 ?c "Suc i" ?h] that m t by simp
  moreover have "(rb_data r)[?h := v] ! ((?h + Suc m) mod ?c) = v"
  proof -
    have "(?h + Suc m) mod ?c = ?h" using t(1) m by (metis mod_add_self2 mod_less)
    then show ?thesis using t by simp
  qed
  ultimately have "rb_list ?r = tl (rb_list r) @ [v]"
    using assms(2) m unfolding tl by (simp add: rb_list_def mod_add_left_eq)
  then show ?thesis using run ok by auto
qed

lemma rb_pop_ok:
  assumes "rb_ok r"
  shows "\<exists>r'. rb_pop r = Some ((case rb_list r of [] \<Rightarrow> None | x # _ \<Rightarrow> Some x), r') \<and> rb_ok r' \<and>
     rb_capacity r' = rb_capacity r \<and> rb_list r' = tl (rb_list r)"
proof (cases "rb_count r")
  case 0
  then show ?thesis using assms by (simp add: rb_pop_def rb_list_def)
next
  case (Suc n)
  let ?c = "rb_capacity r" and ?h = "rb_head r"
  have t: "?h < ?c" "length (rb_data r) = ?c" "0 < ?c" using assms(1) by (auto simp: rb_ok_def)
  let ?r = "r\<lparr>rb_head := (?h + 1) mod ?c, rb_count := n\<rparr>"
  have l: "rb_list r = rb_data r ! ?h # map (\<lambda>i. rb_data r ! ((?h + Suc i) mod ?c)) [0..<n]"
    using Suc t by (simp add: rb_list_def upt_conv_Cons map_Suc_upt [symmetric] del: upt_Suc)
  have run: "rb_pop r = Some (Some (rb_data r ! ?h), ?r)" using Suc t by (simp add: rb_pop_def)
  have "rb_ok ?r" using assms Suc t by (auto simp: rb_ok_def mod_add_left_eq)
  moreover have "rb_list ?r = tl (rb_list r)" unfolding l by (simp add: rb_list_def mod_add_left_eq)
  ultimately show ?thesis using run l by simp
qed

interpretation rb: overwriting_queue rb_push rb_pop rb_list rb_capacity rb_ok
proof
  fix q :: "'a ring_buffer" and x :: 'a
  assume ok: "rb_ok q"
  show "\<exists>q'. rb_push q x = Some q' \<and> rb_ok q' \<and> rb_capacity q' = rb_capacity q \<and>
          rb_list q' = keep_last (rb_capacity q) (rb_list q @ [x])"
  proof (cases "rb_count q < rb_capacity q")
    case True
    then show ?thesis using rb_push_room [OF ok True, of x] by (simp add: keep_last_def)
  next
    case False
    then have full: "rb_count q = rb_capacity q" using ok by (simp add: rb_ok_def)
    then have "keep_last (rb_capacity q) (rb_list q @ [x]) = tl (rb_list q) @ [x]"
      using ok by (cases "rb_list q") (auto simp: keep_last_def rb_ok_def dest: arg_cong [where f = length])
    then show ?thesis using rb_push_full [OF ok full, of x] by simp
  qed
  show "\<exists>q'. rb_pop q = Some ((case rb_list q of [] \<Rightarrow> None | x # _ \<Rightarrow> Some x), q') \<and> rb_ok q' \<and>
          rb_capacity q' = rb_capacity q \<and> rb_list q' = tl (rb_list q)"
    by (rule rb_pop_ok [OF ok])
qed

lemma rb_new_ok: "0 < c \<Longrightarrow> rb_ok (rb_new d c) \<and> rb_list (rb_new d c) = []"
  by (simp add: rb_ok_def rb_new_def rb_list_def)

text \<open>
  Property C34.
  Pushing any sequence into a fresh buffer of positive capacity never leaves the storage and keeps
  exactly the last \<open>capacity\<close> elements; popping as many as are there returns them in the
  order they were pushed and leaves the buffer empty.
\<close>

theorem ring_buffer_fifo:
  assumes "0 < c"
  shows "\<exists>r r'. rb.push_all (rb_new d c) xs = Some r \<and> rb_list r = keep_last c xs \<and>
     rb.pop_n r (rb_size r) = Some (keep_last c xs, r') \<and> rb_empty r'"
proof -
  have n: "rb_ok (rb_new d c)" "rb_list (rb_new d c) = []" "rb_capacity (rb_new d c) = c"
    using rb_new_ok [OF assms, of d] by (auto simp: rb_new_def [of d c])
  obtain r where r: "rb.push_all (rb_new d c) xs = Some r" "rb_ok r" "rb_list r = keep_last c xs"
    using rb.push_all_ok [OF n(1), of xs] n by auto
  obtain r' where r': "rb.pop_n r (rb_size r) = Some (take (rb_size r) (rb_list r), r')" "rb_list r' = drop (rb_size r) (rb_list r)"
    using rb.pop_n_ok [OF r(2), of "rb_size r"] by (auto simp: rb_size_def)
  have "length (rb_list r') = 0" using r'(2) by (simp add: rb_size_def)
  then have "rb_empty r'" by (simp add: rb_empty_def)
  moreover have "take (rb_size r) (rb_list r) = keep_last c xs" using r(3) by (simp add: rb_size_def flip: r(3))
  ultimately show ?thesis using r r' by auto
qed

theorem ring_buffer_fifo_witness:
  "\<exists>r r'. rb.push_all (rb_new 0 2) [1, 2, 3 :: nat] = Some r \<and> rb_list r = [2, 3] \<and>
     rb.pop_n r (rb_size r) = Some ([2, 3], r') \<and> rb_empty r'"
  using ring_buffer_fifo [of 2 0 "[1, 2, 3 :: nat]"] by (simp add: keep_last_def)

text \<open>
  On a non-empty buffer \<^verbatim>\<open>front\<close> is the oldest and \<^verbatim>\<open>back\<close> the most recently pushed element.
\<close>

lemma rb_front_back:
  assumes "rb_ok r" "0 < rb_count r"
  shows "rb_front r = Some (hd (rb_list r)) \<and> rb_back r = Some (last (rb_list r))"
proof -
  let ?c = "rb_capacity r" and ?h = "rb_head r" and ?n = "rb_count r"
  have t: "?h < ?c" "length (rb_data r) = ?c" "0 < ?c" "?n \<le> ?c" "rb_tail r = (?h + ?n) mod ?c"
    using assms(1) by (auto simp: rb_ok_def)
  obtain m where m: "?n = Suc m" using assms(2) by (cases ?n) auto
  have front: "rb_front r = Some (hd (rb_list r))"
    using t m by (simp add: rb_front_def rb_list_def hd_map upt_conv_Cons del: upt_Suc)
  have idx: "(if rb_tail r = 0 then ?c - 1 else rb_tail r - 1) = (?h + m) mod ?c"
    using t m by (auto simp: mod_Suc)
  have "rb_back r = Some (last (rb_list r))"
    using t m unfolding rb_back_def idx by (simp add: rb_list_def)
  then show ?thesis using front by blast
qed

theorem rb_front_back_witness:
  "rb_front \<lparr>rb_data = [3, 2 :: nat], rb_capacity = 2, rb_head = 1, rb_tail = 1, rb_count = 2\<rparr> = Some 2 \<and>
   rb_back \<lparr>rb_data = [3, 2 :: nat], rb_capacity = 2, rb_head = 1, rb_tail = 1, rb_count = 2\<rparr> = Some 3"
  using rb_front_back [of "\<lparr>rb_data = [3, 2 :: nat], rb_capacity = 2, rb_head = 1, rb_tail = 1, rb_count = 2\<rparr>"]
  by (simp add: rb_ok_def rb_list_def upt_conv_Cons)

end
