(* ===== verification/Flat_Maps.thy ===== *)
theory Flat_Maps
  imports Prelude
begin

text \<open>
  The two flat maps of \<^verbatim>\<open>src/core/stl\<close>: \<^verbatim>\<open>fixed_map\<close> (an unsorted prefix of a fixed array) and
  \<^verbatim>\<open>vector_map\<close> (a sorted vector of pairs). Both are maps filled through \<^verbatim>\<open>operator[]\<close>, which inserts a
  default value for a missing key and returns a reference; an assignment \<^verbatim>\<open>m[k] = v\<close> is that
  call followed by a write to the returned slot. The contract is the locale \<open>kv_map\<close>.
\<close>

section \<open>The contract\<close>

definition fits :: "nat option \<Rightarrow> nat \<Rightarrow> bool" where
  "fits limit n \<longleftrightarrow> (case limit of None \<Rightarrow> True | Some l \<Rightarrow> n \<le> l)"

locale kv_map =
  fixes lookup :: "'m \<Rightarrow> 'k \<Rightarrow> 'v option"
    and assign :: "'m \<Rightarrow> 'k \<Rightarrow> 'v \<Rightarrow> 'm option"
    and limit :: "'m \<Rightarrow> nat option"
    and inv :: "'m \<Rightarrow> bool"
  assumes finite_keys: "inv m \<Longrightarrow> finite (dom (lookup m))"
    and assign_ok: "inv m \<Longrightarrow> fits (limit m) (card (insert k (dom (lookup m)))) \<Longrightarrow>
          \<exists>m'. assign m k v = Some m' \<and> inv m' \<and> limit m' = limit m \<and> lookup m' = (lookup m)(k \<mapsto> v)"
begin

fun assign_all :: "'m \<Rightarrow> ('k \<times> 'v) list \<Rightarrow> 'm option" where
  "assign_all m [] = Some m"
| "assign_all m ((k, v) # kvs) = do { m \<leftarrow> assign m k v; assign_all m kvs }"

lemma fits_mono: "fits l n \<Longrightarrow> k \<le> n \<Longrightarrow> fits l k"
  by (cases l) (auto simp: fits_def)

lemma assign_all_ok:
  assumes "inv m" "fits (limit m) (card (dom (lookup m) \<union> fst ` set kvs))"
  shows "\<exists>m'. assign_all m kvs = Some m' \<and> inv m' \<and> limit m' = limit m \<and> lookup m' = lookup m ++ map_of (rev kvs)"
  using assms
proof (induction kvs arbitrary: m)
  case Nil
  then show ?case by simp
next
  case (Cons kv kvs)
  obtain k v where kv: "kv = (k, v)" by (cases kv)
  have fin: "finite (dom (lookup m) \<union> fst ` set (kv # kvs))" using finite_keys [OF Cons.prems(1)] by simp
  have "card (insert k (dom (lookup m))) \<le> card (dom (lookup m) \<union> fst ` set (kv # kvs))"
    by (rule card_mono [OF fin]) (auto simp: kv)
  then obtain m1 where m1: "assign m k v = Some m1" "inv m1" "limit m1 = limit m" "lookup m1 = (lookup m)(k \<mapsto> v)"
    using assign_ok [OF Cons.prems(1)] fits_mono [OF Cons.prems(2)] by blast
  have "dom (lookup m1) \<union> fst ` set kvs = dom (lookup m) \<union> fst ` set (kv # kvs)" using m1(4) kv by auto
  then obtain m2 where "assign_all m1 kvs = Some m2" "inv m2" "limit m2 = limit m1" "lookup m2 = lookup m1 ++ map_of (rev kvs)"
    using Cons.IH [OF m1(2)] Cons.prems(2) m1(3) by auto
  then show ?case using m1 kv by (simp add: map_add_def map_of_append fun_eq_iff split: option.split)
qed

end

section \<open>fixed\_map\<close>

record ('k, 'v) fixed_map =
  fm_data :: "('k \<times> 'v) list"
  fm_count :: nat

text \<open>The search loop shared by \<^verbatim>\<open>operator[]\<close> and \<^verbatim>\<open>find\<close>: the first index below \<^verbatim>\<open>_count\<close> with the key.\<close>

function fm_scan :: "('k \<times> 'v) list \<Rightarrow> nat \<Rightarrow> 'k \<Rightarrow> nat \<Rightarrow> nat option option" where
  "fm_scan d n k i =
     (if i < n
      then do { p \<leftarrow> rd d i; if fst p = k then Some (Some i) else fm_scan d n k (i + 1) }
      else Some None)"
  by pat_completeness auto
termination by (relation "measure (\<lambda>(d, n, k, i). n - i)") auto

declare fm_scan.simps [simp del]

definition fm_new :: "'k \<times> 'v \<Rightarrow> nat \<Rightarrow> ('k, 'v) fixed_map" where
  "fm_new dflt n = \<lparr>fm_data = replicate n dflt, fm_count = 0\<rparr>"

text \<open>\<^verbatim>\<open>operator[]\<close>: the map afterwards and the slot the reference points to.\<close>

definition fm_index :: "'v \<Rightarrow> ('k, 'v) fixed_map \<Rightarrow> 'k \<Rightarrow> (('k, 'v) fixed_map \<times> nat) option" where
  "fm_index dflt m k =
     do {
       r \<leftarrow> fm_scan (fm_data m) (fm_count m) k 0;
       case r of
         Some i \<Rightarrow> Some (m, i)
       | None \<Rightarrow> do {
           d \<leftarrow> wr (fm_data m) (fm_count m) (k, dflt);
           Some (\<lparr>fm_data = d, fm_count = fm_count m + 1\<rparr>, fm_count m)
         }
     }"

definition fm_assign :: "'v \<Rightarrow> ('k, 'v) fixed_map \<Rightarrow> 'k \<Rightarrow> 'v \<Rightarrow> ('k, 'v) fixed_map option" where
  "fm_assign dflt m k v =
     do {
       (m, i) \<leftarrow> fm_index dflt m k;
       p \<leftarrow> rd (fm_data m) i;
       d \<leftarrow> wr (fm_data m) i (fst p, v);
       Some (m\<lparr>fm_data := d\<rparr>)
     }"

text \<open>\<^verbatim>\<open>find\<close> returns an iterator; \<^verbatim>\<open>end ()\<close> is the index \<^verbatim>\<open>_count\<close>.\<close>

definition fm_find :: "('k, 'v) fixed_map \<Rightarrow> 'k \<Rightarrow> nat option" where
  "fm_find m k =
     do { r \<leftarrow> fm_scan (fm_data m) (fm_count m) k 0; Some (case r of Some i \<Rightarrow> i | None \<Rightarrow> fm_count m) }"

definition fm_clear :: "('k, 'v) fixed_map \<Rightarrow> ('k, 'v) fixed_map" where "fm_clear m = m\<lparr>fm_count := 0\<rparr>"
definition fm_full :: "('k, 'v) fixed_map \<Rightarrow> bool" where "fm_full m \<longleftrightarrow> fm_count m = length (fm_data m)"

text \<open>What a caller learns from \<^verbatim>\<open>find\<close>: the value behind the iterator, unless it is \<^verbatim>\<open>end ()\<close>.\<close>

definition fm_lookup :: "('k, 'v) fixed_map \<Rightarrow> 'k \<Rightarrow> 'v option" where
  "fm_lookup m k =
     (case fm_find m k of
        None \<Rightarrow> None
      | Some i \<Rightarrow> if i = fm_count m then None else map_option snd (rd (fm_data m) i))"

definition fm_items :: "('k, 'v) fixed_map \<Rightarrow> ('k \<times> 'v) list" where
  "fm_items m = take (fm_count m) (fm_data m)"

definition fm_ok :: "('k, 'v) fixed_map \<Rightarrow> bool" where
  "fm_ok m \<longleftrightarrow> fm_count m \<le> length (fm_data m) \<and> distinct (map fst (fm_items m))"

lemma fm_scan_result:
  assumes "n \<le> length d"
  shows "\<exists>r. fm_scan d n k i = Some r \<and>
     (case r of None \<Rightarrow> \<forall>j. i \<le> j \<and> j < n \<longrightarrow> fst (d ! j) \<noteq> k
              | Some j \<Rightarrow> i \<le> j \<and> j < n \<and> fst (d ! j) = k \<and> (\<forall>l. i \<le> l \<and> l < j \<longrightarrow> fst (d ! l) \<noteq> k))"
  using assms
proof (induction d n k i rule: fm_scan.induct)
  case (1 d n k i)
  show ?case
  proof (cases "i < n \<and> fst (d ! i) \<noteq> k")
    case True
    have rdi: "rd d i = Some (d ! i)" using True "1.prems" by simp
    obtain r where r: "fm_scan d n k (i + 1) = Some r"
      "case r of None \<Rightarrow> \<forall>j. i + 1 \<le> j \<and> j < n \<longrightarrow> fst (d ! j) \<noteq> k
              | Some j \<Rightarrow> i + 1 \<le> j \<and> j < n \<and> fst (d ! j) = k \<and> (\<forall>l. i + 1 \<le> l \<and> l < j \<longrightarrow> fst (d ! l) \<noteq> k)"
      using "1.IH" [OF _ rdi] True "1.prems" by blast
    have step: "fm_scan d n k i = Some r" using True rdi r(1) by (subst fm_scan.simps) simp
    have eq: "i \<le> l \<longleftrightarrow> l = i \<or> i + 1 \<le> l" for l by auto
    show ?thesis using step r(2) True by (cases r) (auto simp: eq)
  next
    case False
    then show ?thesis using "1.prems" by (subst fm_scan.simps) auto
  qed
qed

lemma fm_scan_map_of:
  assumes "n \<le> length d"
  shows "\<exists>r. fm_scan d n k 0 = Some r \<and>
     (case r of None \<Rightarrow> map_of (take n d) k = None | Some j \<Rightarrow> j < n \<and> fst (d ! j) = k \<and> k \<in> fst ` set (take n d))"
proof -
  obtain r where r: "fm_scan d n k 0 = Some r"
     "case r of None \<Rightarrow> \<forall>j. 0 \<le> j \<and> j < n \<longrightarrow> fst (d ! j) \<noteq> k
              | Some j \<Rightarrow> 0 \<le> j \<and> j < n \<and> fst (d ! j) = k \<and> (\<forall>l. 0 \<le> l \<and> l < j \<longrightarrow> fst (d ! l) \<noteq> k)"
    using fm_scan_result [OF assms, of k 0] by blast
  show ?thesis
  proof (cases r)
    case None
    have "k \<notin> fst ` set (take n d)"
    proof
      assume "k \<in> fst ` set (take n d)"
      then obtain x where "x \<in> set (take n d)" "fst x = k" by auto
      then obtain j where "j < n" "j < length d" "d ! j = x" by (auto simp: in_set_conv_nth)
      then show False using r(2) None \<open>fst x = k\<close> by auto
    qed
    then show ?thesis using r(1) None by (simp add: map_of_eq_None_iff)
  next
    case (Some j)
    then have "d ! j \<in> set (take n d)" using r(2) assms by (auto simp: in_set_conv_nth intro!: exI [of _ j])
    then show ?thesis using r Some by (auto intro!: rev_image_eqI)
  qed
qed

lemma fm_lookup_map_of: "fm_ok m \<Longrightarrow> fm_lookup m = map_of (fm_items m)"
proof
  fix k assume ok: "fm_ok m"
  have le: "fm_count m \<le> length (fm_data m)" using ok by (simp add: fm_ok_def)
  obtain r where r: "fm_scan (fm_data m) (fm_count m) k 0 = Some r"
     "case r of None \<Rightarrow> map_of (fm_items m) k = None
      | Some j \<Rightarrow> j < fm_count m \<and> fst (fm_data m ! j) = k \<and> k \<in> fst ` set (fm_items m)"
    using fm_scan_map_of [OF le, of k] unfolding fm_items_def by blast
  show "fm_lookup m k = map_of (fm_items m) k"
  proof (cases r)
    case None
    then show ?thesis using r by (simp add: fm_lookup_def fm_find_def)
  next
    case (Some j)
    then have j: "j < fm_count m" "fst (fm_data m ! j) = k" using r(2) by auto
    have "(k, snd (fm_data m ! j)) \<in> set (fm_items m)"
      using j le by (auto simp: fm_items_def in_set_conv_nth intro!: exI [of _ j] prod_eqI)
    then have "map_of (fm_items m) k = Some (snd (fm_data m ! j))" using ok by (simp add: fm_ok_def)
    then show ?thesis using r(1) Some j le by (simp add: fm_lookup_def fm_find_def)
  qed
qed

lemma fm_assign_hit:
  assumes ok: "fm_ok m" and hit: "fm_scan (fm_data m) (fm_count m) k 0 = Some (Some j)" "j < fm_count m" "fst (fm_data m ! j) = k"
  shows "\<exists>m'. fm_assign dflt m k v = Some m' \<and> fm_ok m' \<and> length (fm_data m') = length (fm_data m) \<and>
     fm_lookup m' = (fm_lookup m)(k \<mapsto> v)"
proof -
  let ?m = "m\<lparr>fm_data := (fm_data m)[j := (k, v)]\<rparr>"
  have j: "j < length (fm_data m)" "j < length (fm_items m)" "fm_items m ! j = fm_data m ! j"
    using ok hit(2) by (auto simp: fm_ok_def fm_items_def)
  have run: "fm_assign dflt m k v = Some ?m" using hit j by (simp add: fm_assign_def fm_index_def)
  have it: "fm_items ?m = (fm_items m)[j := (k, v)]" by (simp add: fm_items_def take_update_swap)
  have keys: "map fst (fm_items ?m) = map fst (fm_items m)"
    unfolding it map_update using j hit(3) by (metis fst_conv list_update_id nth_map)
  have ok': "fm_ok ?m" using ok keys by (simp add: fm_ok_def)
  have "map_of (fm_items ?m) = (map_of (fm_items m))(k \<mapsto> v)"
  proof
    fix x
    show "map_of (fm_items ?m) x = ((map_of (fm_items m))(k \<mapsto> v)) x"
    proof (cases "x = k")
      case True
      have "(k, v) \<in> set (fm_items ?m)" unfolding it using j by (metis set_update_memI)
      then show ?thesis using True ok' by (simp add: fm_ok_def)
    next
      case False
      have "((x, y) \<in> set (fm_items ?m)) = ((x, y) \<in> set (fm_items m))" for y
        unfolding it using False j hit(3) by (auto simp: in_set_conv_nth nth_list_update) (metis fst_conv)
      then have "map_of (fm_items ?m) x = map_of (fm_items m) x"
        using ok ok' unfolding fm_ok_def by (metis map_of_eq_Some_iff not_None_eq)
      then show ?thesis using False by simp
    qed
  qed
  then show ?thesis using run ok ok' by (simp add: fm_lookup_map_of)
qed

lemma fm_assign_miss:
  assumes ok: "fm_ok m" and miss: "fm_scan (fm_data m) (fm_count m) k 0 = Some None" "map_of (fm_items m) k = None"
    and room: "fm_count m < length (fm_data m)"
  shows "\<exists>m'. fm_assign dflt m k v = Some m' \<and> fm_ok m' \<and> length (fm_data m') = length (fm_data m) \<and>
     fm_lookup m' = (fm_lookup m)(k \<mapsto> v)"
proof -
  let ?m = "\<lparr>fm_data = (fm_data m)[fm_count m := (k, v)], fm_count = fm_count m + 1\<rparr>"
  have run: "fm_assign dflt m k v = Some ?m" using miss(1) room by (simp add: fm_assign_def fm_index_def)
  have it: "fm_items ?m = fm_items m @ [(k, v)]" using room by (simp add: fm_items_def take_Suc_conv_app_nth)
  have nk: "k \<notin> fst ` set (fm_items m)" using miss(2) by (simp add: map_of_eq_None_iff)
  have ok': "fm_ok ?m" using ok room nk unfolding fm_ok_def it by auto
  have "map_of (fm_items m @ [(k, v)]) = (map_of (fm_items m))(k \<mapsto> v)"
    using miss(2) by (auto simp: fun_eq_iff map_add_def split: option.split)
  then show ?thesis using run ok' fm_lookup_map_of [OF ok] fm_lookup_map_of [OF ok'] it by auto
qed

interpretation fm: kv_map fm_lookup "fm_assign dflt" "\<lambda>m. Some (length (fm_data m))" fm_ok
proof
  fix m :: "('a, 'b) fixed_map" and k :: 'a and v :: 'b
  assume ok: "fm_ok m"
  then show "finite (dom (fm_lookup m))" by (simp add: fm_lookup_map_of finite_dom_map_of)
  assume room: "fits (Some (length (fm_data m))) (card (insert k (dom (fm_lookup m))))"
  have le: "fm_count m \<le> length (fm_data m)" and di: "distinct (map fst (fm_items m))" using ok by (auto simp: fm_ok_def)
  obtain r where r: "fm_scan (fm_data m) (fm_count m) k 0 = Some r"
     "case r of None \<Rightarrow> map_of (fm_items m) k = None
      | Some j \<Rightarrow> j < fm_count m \<and> fst (fm_data m ! j) = k \<and> k \<in> fst ` set (fm_items m)"
    using fm_scan_map_of [OF le, of k] unfolding fm_items_def by blast
  show "\<exists>m'. fm_assign dflt m k v = Some m' \<and> fm_ok m' \<and> Some (length (fm_data m')) = Some (length (fm_data m)) \<and>
          fm_lookup m' = (fm_lookup m)(k \<mapsto> v)"
  proof (cases r)
    case None
    have "card (dom (fm_lookup m)) = fm_count m"
    proof -
      have "card (fst ` set (fm_items m)) = length (fm_items m)"
        using di distinct_card by fastforce
      then show ?thesis using le by (simp add: fm_lookup_map_of [OF ok] dom_map_of_conv_image_fst fm_items_def min_def)
    qed
    moreover have "k \<notin> dom (fm_lookup m)" using r(2) None by (simp add: fm_lookup_map_of [OF ok] domIff)
    ultimately have "fm_count m < length (fm_data m)"
      using room \<open>finite (dom (fm_lookup m))\<close> by (simp add: fits_def)
    then show ?thesis using fm_assign_miss [OF ok, of k dflt v] r None by simp
  next
    case (Some j)
    then show ?thesis using fm_assign_hit [OF ok, of k j dflt v] r by simp
  qed
qed

text \<open>
  Assigning a list of key/value pairs to an empty \<^verbatim>\<open>fixed_map\<close> with at least as many slots as there
  are distinct keys never writes outside the array, and afterwards \<^verbatim>\<open>find\<close> returns for every key
  the value assigned last.
\<close>

lemma fixed_map_assign_all:
  assumes "card (fst ` set kvs) \<le> n"
  shows "\<exists>m. fm.assign_all dflt (fm_new d n) kvs = Some m \<and> (\<forall>k. fm_lookup m k = map_of (rev kvs) k)"
proof -
  have ok: "fm_ok (fm_new d n)" by (simp add: fm_ok_def fm_new_def fm_items_def)
  have e: "fm_lookup (fm_new d n) = Map.empty" using fm_lookup_map_of [OF ok] by (simp add: fm_items_def fm_new_def)
  have "fits (Some (length (fm_data (fm_new d n)))) (card (dom (fm_lookup (fm_new d n)) \<union> fst ` set kvs))"
    using assms unfolding e by (simp add: fits_def fm_new_def)
  from fm.assign_all_ok [OF ok this, of dflt] show ?thesis unfolding e by auto
qed

text \<open>
  Property C35.
  A full \<^verbatim>\<open>fixed_map\<close> has no guard: \<^verbatim>\<open>operator[]\<close> with a new key writes one element past the array.
\<close>

theorem fixed_map_full_overflow:
  assumes "fm_ok m" "fm_full m" "fm_lookup m k = None"
  shows "fm_index dflt m k = None"
proof -
  have le: "fm_count m \<le> length (fm_data m)" using assms(1) by (simp add: fm_ok_def)
  obtain r where r: "fm_scan (fm_data m) (fm_count m) k 0 = Some r"
     "case r of None \<Rightarrow> map_of (fm_items m) k = None
      | Some j \<Rightarrow> j < fm_count m \<and> fst (fm_data m ! j) = k \<and> k \<in> fst ` set (fm_items m)"
    using fm_scan_map_of [OF le, of k] unfolding fm_items_def by blast
  have "map_of (fm_items m) k = None" using assms(3) fm_lookup_map_of [OF assms(1)] by simp
  then have "r = None" using r(2) by (cases r) (auto simp: map_of_eq_None_iff)
  then show ?thesis using r(1) assms(2) by (simp add: fm_index_def fm_full_def)
qed

theorem fixed_map_full_overflow_witness:
  "fm_index 0 \<lparr>fm_data = [(1 :: nat, 2 :: nat)], fm_count = 1\<rparr> 5 = None"
proof -
  let ?m = "\<lparr>fm_data = [(1 :: nat, 2 :: nat)], fm_count = 1\<rparr>"
  have ok: "fm_ok ?m" by (simp add: fm_ok_def fm_items_def)
  have "fm_lookup ?m 5 = None" unfolding fm_lookup_map_of [OF ok] by (simp add: fm_items_def)
  then show ?thesis using fixed_map_full_overflow [OF ok, of 5 0] by (simp add: fm_full_def)
qed

section \<open>vector\_map\<close>

type_synonym ('k, 'v) vector_map = "('k \<times> 'v) list"

text \<open>\<^verbatim>\<open>std::lower_bound\<close> on a sorted vector: the first position whose key is not smaller.\<close>

definition vm_lower_bound :: "('k::linorder, 'v) vector_map \<Rightarrow> 'k \<Rightarrow> nat" where
  "vm_lower_bound d k = length (takeWhile (\<lambda>p. fst p < k) d)"

definition vm_find :: "('k::linorder, 'v) vector_map \<Rightarrow> 'k \<Rightarrow> nat" where
  "vm_find d k = (let it = vm_lower_bound d k in if it < length d \<and> fst (d ! it) = k then it else length d)"

definition vm_index :: "'v \<Rightarrow> ('k::linorder, 'v) vector_map \<Rightarrow> 'k \<Rightarrow> ('k, 'v) vector_map \<times> nat" where
  "vm_index dflt d k =
     (let it = vm_find d k in
      if it \<noteq> length d then (d, it)
      else (let pos = vm_lower_bound d k in (take pos d @ (k, dflt) # drop pos d, pos)))"

definition vm_assign :: "'v \<Rightarrow> ('k::linorder, 'v) vector_map \<Rightarrow> 'k \<Rightarrow> 'v \<Rightarrow> ('k, 'v) vector_map option" where
  "vm_assign dflt d k v =
     (let (d, i) = vm_index dflt d k in do { p \<leftarrow> rd d i; wr d i (fst p, v) })"

definition vm_clear :: "('k, 'v) vector_map \<Rightarrow> ('k, 'v) vector_map" where "vm_clear d = []"

definition vm_lookup :: "('k::linorder, 'v) vector_map \<Rightarrow> 'k \<Rightarrow> 'v option" where
  "vm_lookup d k = (let it = vm_find d k in if it = length d then None else map_option snd (rd d it))"

definition vm_ok :: "('k::linorder, 'v) vector_map \<Rightarrow> bool" where
  "vm_ok d \<longleftrightarrow> sorted_wrt (<) (map fst d)"

lemma vm_clear_ok: "vm_ok (vm_clear d)" "vm_lookup (vm_clear d) k = None"
  by (simp_all add: vm_ok_def vm_clear_def vm_lookup_def vm_find_def vm_lower_bound_def)

lemma vm_split:
  assumes "vm_ok d"
  shows "\<exists>A B. d = A @ B \<and> length A = vm_lower_bound d k \<and> (\<forall>p\<in>set A. fst p < k) \<and>
     (\<forall>p\<in>set B. k \<le> fst p) \<and> vm_ok B"
proof -
  let ?P = "\<lambda>p. fst p < k"
  let ?A = "takeWhile ?P d" and ?B = "dropWhile ?P d"
  have d: "d = ?A @ ?B" by simp
  have s: "vm_ok ?A" "vm_ok ?B"
    using assms d by (metis vm_ok_def map_append sorted_wrt_append)+
  have "k \<le> fst p" if "p \<in> set ?B" for p
  proof (cases ?B)
    case (Cons b bs)
    then have "\<not> ?P b" by (metis hd_dropWhile list.discI list.sel(1))
    moreover have "p = b \<or> fst b < fst p" using s(2) that Cons by (auto simp: vm_ok_def)
    ultimately show ?thesis by auto
  next
    case Nil
    then show ?thesis using that by (simp only: list.set empty_iff)
  qed
  then show ?thesis using s(2)
    by (intro exI [of _ ?A] exI [of _ ?B]) (auto simp: vm_lower_bound_def dest: set_takeWhileD)
qed

lemma vm_find_cases:
  assumes "vm_ok d"
  obtains A v B where "d = A @ (k, v) # B" "vm_find d k = length A" "\<forall>p\<in>set A. fst p < k" "\<forall>p\<in>set B. k < fst p"
  | A B where "d = A @ B" "vm_find d k = length d" "vm_lower_bound d k = length A"
      "\<forall>p\<in>set A. fst p < k" "\<forall>p\<in>set B. k < fst p"
proof -
  obtain A B where s: "d = A @ B" "length A = vm_lower_bound d k" "\<forall>p\<in>set A. fst p < k" "\<forall>p\<in>set B. k \<le> fst p" "vm_ok B"
    using vm_split [OF assms, of k] by metis
  show ?thesis
  proof (cases B)
    case Nil
    then show ?thesis using that(2) [of A B] s by (simp add: vm_find_def Let_def)
  next
    case (Cons b bs)
    have bs: "\<forall>p\<in>set bs. fst b < fst p" using s(5) Cons by (auto simp: vm_ok_def)
    show ?thesis
    proof (cases "fst b = k")
      case True
      then show ?thesis using that(1) [of A "snd b" bs] s Cons bs
        by (cases b) (auto simp: vm_find_def Let_def nth_append simp flip: s(2))
    next
      case False
      then have "\<forall>p\<in>set B. k < fst p" using s(4) bs Cons by force
      then show ?thesis using that(2) [of A B] s Cons False
        by (auto simp: vm_find_def Let_def nth_append simp flip: s(2))
    qed
  qed
qed

lemma map_of_None_less: "\<forall>p\<in>set A. fst p < k \<or> k < fst (p :: 'k::linorder \<times> 'v) \<Longrightarrow> map_of A k = None"
  by (force simp: map_of_eq_None_iff)

lemma vm_lookup_map_of: "vm_ok d \<Longrightarrow> vm_lookup d = map_of d"
proof
  fix k assume ok: "vm_ok d"
  show "vm_lookup d k = map_of d k"
  proof (cases rule: vm_find_cases [OF ok, of k, case_names hit miss])
    case (hit A v B)
    then show ?thesis using map_of_None_less [of A k] by (simp add: vm_lookup_def Let_def map_add_def)
  next
    case (miss A B)
    then have "map_of d k = None" by (intro map_of_None_less) auto
    then show ?thesis using miss(2) by (simp add: vm_lookup_def Let_def)
  qed
qed

interpretation vm: kv_map vm_lookup "vm_assign dflt" "\<lambda>m. None" vm_ok
proof
  fix m :: "('a::linorder, 'b) vector_map" and k :: 'a and v :: 'b
  assume ok: "vm_ok m"
  then show "finite (dom (vm_lookup m))" by (simp add: vm_lookup_map_of finite_dom_map_of)
  have result: "\<exists>m'. vm_assign dflt m k v = Some m' \<and> vm_ok m' \<and> (None :: nat option) = None \<and> vm_lookup m' = (vm_lookup m)(k \<mapsto> v)"
    if "m = A @ M @ B" "vm_assign dflt m k v = Some (A @ (k, v) # B)" "\<forall>p\<in>set A. fst p < k" "\<forall>p\<in>set B. k < fst p"
       "\<forall>p\<in>set M. fst p = k" for A M B
  proof -
    have ok': "vm_ok (A @ (k, v) # B)" using ok that(1,3,4) by (auto simp: vm_ok_def sorted_wrt_append)
    have "map_of (A @ (k, v) # B) = (map_of m)(k \<mapsto> v)"
    proof
      fix x
      have "map_of A k = None" using that(3) map_of_None_less by blast
      moreover have "map_of M x = None" if "x \<noteq> k" using \<open>\<forall>p\<in>set M. fst p = k\<close> that by (auto simp: map_of_eq_None_iff)
      ultimately show "map_of (A @ (k, v) # B) x = ((map_of m)(k \<mapsto> v)) x"
        using that(1) by (auto simp: map_add_def split: option.split)
    qed
    then show ?thesis using that(2) ok' vm_lookup_map_of [OF ok] vm_lookup_map_of [OF ok'] by simp
  qed
  show "\<exists>m'. vm_assign dflt m k v = Some m' \<and> vm_ok m' \<and> (None :: nat option) = None \<and> vm_lookup m' = (vm_lookup m)(k \<mapsto> v)"
  proof (cases rule: vm_find_cases [OF ok, of k, case_names hit miss])
    case (hit A w B)
    have "vm_assign dflt m k v = Some (A @ (k, v) # B)" using hit by (simp add: vm_assign_def vm_index_def Let_def)
    then show ?thesis using result [of A "[(k, w)]" B] hit by simp
  next
    case (miss A B)
    have "vm_assign dflt m k v = Some (A @ (k, v) # B)" using miss by (simp add: vm_assign_def vm_index_def Let_def)
    then show ?thesis using result [of A "[]" B] miss by simp
  qed
qed

text \<open>
  A \<^verbatim>\<open>vector_map\<close> filled by assignments stays strictly sorted by key, and \<^verbatim>\<open>find\<close> returns for every
  key the value assigned last, so it behaves as a \<^verbatim>\<open>fixed_map\<close> filled by the same assignments.
\<close>

lemma vector_map_assign_all:
  fixes kvs :: "('k::linorder \<times> 'v) list"
  shows "\<exists>m. vm.assign_all dflt [] kvs = Some m \<and> sorted_wrt (<) (map fst m) \<and> (\<forall>k. vm_lookup m k = map_of (rev kvs) k)"
proof -
  have ok: "vm_ok ([] :: ('k, 'v) vector_map)" by (simp add: vm_ok_def)
  from vm.assign_all_ok [OF ok, of kvs dflt] show ?thesis
    by (auto simp: fits_def vm_lookup_map_of [OF ok] vm_ok_def)
qed

end
