(* ===== verification/Lru_Cache.thy ===== *)
theory Lru_Cache
  imports Prelude "HOL-Library.AList"
begin

text \<open>
  \<^verbatim>\<open>kimix::lru_cache\<close> (\<^verbatim>\<open>src/core/stl/lru_cache.h\<close>): a doubly linked list of key/value pairs, most
  recently used first, and a hash map from keys to list iterators. An iterator is the identity of
  a list node: nodes carry an address, \<open>lru_items\<close> is the list of nodes in list order, and
  \<open>lru_cache\<close> maps a key to a node address. \<open>lru_next\<close> is the address the next allocation
  returns. \<open>None\<close> is the use of an iterator that points to no node. The abstract cache is a list
  of pairs, most recently used first, without duplicates, cut to the capacity.
\<close>

section \<open>Model\<close>

type_synonym ('k, 'v) lru_node = "nat \<times> 'k \<times> 'v"

record ('k, 'v) lru =
  lru_max :: nat
  lru_items :: "('k, 'v) lru_node list"
  lru_cache :: "('k \<times> nat) list"
  lru_next :: nat

definition lru_new :: "nat \<Rightarrow> ('k, 'v) lru" where
  "lru_new n = \<lparr>lru_max = n, lru_items = [], lru_cache = [], lru_next = 0\<rparr>"

text \<open>\<^verbatim>\<open>std::list::erase\<close> of the node an iterator points to.\<close>

definition list_erase :: "('k, 'v) lru_node list \<Rightarrow> nat \<Rightarrow> ('k, 'v) lru_node list option" where
  "list_erase xs a = (if a \<in> fst ` set xs then Some (filter (\<lambda>n. fst n \<noteq> a) xs) else None)"

definition lru_drop :: "('k, 'v) lru \<Rightarrow> 'k \<Rightarrow> ('k, 'v) lru option" where
  "lru_drop c k =
     (case map_of (lru_cache c) k of
        None \<Rightarrow> Some c
      | Some a \<Rightarrow> do {
          xs \<leftarrow> list_erase (lru_items c) a;
          Some (c\<lparr>lru_items := xs, lru_cache := AList.delete k (lru_cache c)\<rparr>)
        })"

definition lru_put :: "('k, 'v) lru \<Rightarrow> 'k \<Rightarrow> 'v \<Rightarrow> ('k, 'v) lru option" where
  "lru_put c k v =
     do {
       c \<leftarrow> lru_drop c k;
       let a = lru_next c;
       let c = c\<lparr>lru_items := (a, k, v) # lru_items c, lru_next := a + 1, lru_cache := AList.update k a (lru_cache c)\<rparr>;
       if lru_max c < length (lru_cache c)
       then (case lru_items c of
               [] \<Rightarrow> None
             | n # ns \<Rightarrow> Some (c\<lparr>lru_cache := AList.delete (fst (snd (last (n # ns)))) (lru_cache c),
                                lru_items := butlast (n # ns)\<rparr>))
       else Some c
     }"

text \<open>\<^verbatim>\<open>splice\<close> moves the node to the front; its address, hence every iterator, stays valid.\<close>

definition lru_get :: "('k, 'v) lru \<Rightarrow> 'k \<Rightarrow> ('v option \<times> ('k, 'v) lru) option" where
  "lru_get c k =
     (case map_of (lru_cache c) k of
        None \<Rightarrow> Some (None, c)
      | Some a \<Rightarrow>
          (case filter (\<lambda>n. fst n = a) (lru_items c) of
             [] \<Rightarrow> None
           | n # _ \<Rightarrow> Some (Some (snd (snd n)), c\<lparr>lru_items := n # filter (\<lambda>n. fst n \<noteq> a) (lru_items c)\<rparr>)))"

definition lru_contains :: "('k, 'v) lru \<Rightarrow> 'k \<Rightarrow> bool" where
  "lru_contains c k \<longleftrightarrow> map_of (lru_cache c) k \<noteq> None"

definition lru_erase :: "('k, 'v) lru \<Rightarrow> 'k \<Rightarrow> ('k, 'v) lru option" where
  "lru_erase c k = lru_drop c k"

definition lru_clear :: "('k, 'v) lru \<Rightarrow> ('k, 'v) lru" where
  "lru_clear c = c\<lparr>lru_items := [], lru_cache := []\<rparr>"

definition lru_size :: "('k, 'v) lru \<Rightarrow> nat" where
  "lru_size c = length (lru_cache c)"

section \<open>Specification\<close>

type_synonym ('k, 'v) recency = "('k \<times> 'v) list"

definition spec_put :: "nat \<Rightarrow> ('k, 'v) recency \<Rightarrow> 'k \<Rightarrow> 'v \<Rightarrow> ('k, 'v) recency" where
  "spec_put n l k v = take n ((k, v) # filter (\<lambda>p. fst p \<noteq> k) l)"

definition spec_get :: "('k, 'v) recency \<Rightarrow> 'k \<Rightarrow> 'v option \<times> ('k, 'v) recency" where
  "spec_get l k =
     (case map_of l k of None \<Rightarrow> (None, l) | Some v \<Rightarrow> (Some v, (k, v) # filter (\<lambda>p. fst p \<noteq> k) l))"

definition lru_abs :: "('k, 'v) lru \<Rightarrow> ('k, 'v) recency" where
  "lru_abs c = map snd (lru_items c)"

definition lru_ok :: "('k, 'v) lru \<Rightarrow> bool" where
  "lru_ok c \<longleftrightarrow>
     distinct (map fst (lru_items c)) \<and> distinct (map (fst \<circ> snd) (lru_items c)) \<and>
     distinct (map fst (lru_cache c)) \<and>
     (\<forall>a\<in>fst ` set (lru_items c). a < lru_next c) \<and> length (lru_items c) \<le> lru_max c \<and>
     set (lru_cache c) = (\<lambda>(a, k, v). (k, a)) ` set (lru_items c)"

section \<open>Refinement\<close>

text \<open>The invariant without the capacity, which \<^verbatim>\<open>put\<close> violates for a moment.\<close>

definition lru_linked :: "('k, 'v) lru \<Rightarrow> bool" where
  "lru_linked c \<longleftrightarrow>
     distinct (map fst (lru_items c)) \<and> distinct (map (fst \<circ> snd) (lru_items c)) \<and>
     distinct (map fst (lru_cache c)) \<and> (\<forall>a\<in>fst ` set (lru_items c). a < lru_next c) \<and>
     set (lru_cache c) = (\<lambda>(a, k, v). (k, a)) ` set (lru_items c)"

lemma lru_ok_linked: "lru_ok c \<longleftrightarrow> lru_linked c \<and> length (lru_abs c) \<le> lru_max c"
  by (auto simp: lru_ok_def lru_linked_def lru_abs_def)

lemma lru_linkedD:
  assumes "lru_linked c"
  shows "distinct (lru_items c)" "distinct (lru_cache c)" "inj_on fst (set (lru_items c))"
    "inj_on (fst \<circ> snd) (set (lru_items c))"
  using assms by (auto simp: lru_linked_def distinct_map)

lemma lru_linked_size: "lru_linked c \<Longrightarrow> length (lru_cache c) = length (lru_items c)"
proof -
  assume l: "lru_linked c"
  have "inj_on (\<lambda>(a, k, v). (k, a)) (set (lru_items c))"
    using lru_linkedD(3) [OF l] by (fastforce simp: inj_on_def)
  moreover have "set (lru_cache c) = (\<lambda>(a, k, v). (k, a)) ` set (lru_items c)"
    using l by (simp add: lru_linked_def)
  ultimately have "card (set (lru_cache c)) = card (set (lru_items c))" by (simp add: card_image)
  then show ?thesis using lru_linkedD(1,2) [OF l] by (simp add: distinct_card)
qed

lemma lru_cache_Some:
  assumes "lru_linked c"
  shows "map_of (lru_cache c) k = Some a \<longleftrightarrow> (\<exists>v. (a, k, v) \<in> set (lru_items c))"
proof -
  have "map_of (lru_cache c) k = Some a \<longleftrightarrow> (k, a) \<in> set (lru_cache c)"
    using assms by (simp add: lru_linked_def map_of_eq_Some_iff)
  also have "\<dots> \<longleftrightarrow> (\<exists>v. (a, k, v) \<in> set (lru_items c))"
    using assms unfolding lru_linked_def by force
  finally show ?thesis .
qed

lemma lru_cache_None:
  assumes "lru_linked c"
  shows "map_of (lru_cache c) k = None \<longleftrightarrow> k \<notin> fst ` set (lru_abs c)"
proof -
  have "map_of (lru_cache c) k \<noteq> None \<longleftrightarrow> (\<exists>a v. (a, k, v) \<in> set (lru_items c))"
    using lru_cache_Some [OF assms] by auto
  also have "\<dots> \<longleftrightarrow> k \<in> fst ` set (lru_abs c)" by (force simp: lru_abs_def)
  finally show ?thesis by blast
qed

lemma node_unique:
  assumes "lru_linked c" "(a, k, v) \<in> set (lru_items c)" "n \<in> set (lru_items c)"
  shows "(fst n = a) = (fst (snd n) = k)"
  using inj_onD [OF lru_linkedD(3) [OF assms(1)] _ assms(3,2)]
    inj_onD [OF lru_linkedD(4) [OF assms(1)] _ assms(3,2)] by (metis comp_apply fst_conv snd_conv)

lemma filter_node_key:
  assumes "lru_linked c" "(a, k, v) \<in> set (lru_items c)"
  shows "map snd (filter (\<lambda>n. fst n \<noteq> a) (lru_items c)) = filter (\<lambda>p. fst p \<noteq> k) (lru_abs c)"
proof -
  have "filter (\<lambda>n. fst n \<noteq> a) (lru_items c) = filter (\<lambda>n. fst (snd n) \<noteq> k) (lru_items c)"
    using node_unique [OF assms] by (intro filter_cong) auto
  then show ?thesis by (simp add: lru_abs_def filter_map o_def)
qed

lemma distinct_abs: "lru_linked c \<Longrightarrow> distinct (map fst (lru_abs c))"
  by (simp add: lru_linked_def lru_abs_def)

lemma lru_abs_map_of:
  assumes "lru_linked c" "(a, k, v) \<in> set (lru_items c)"
  shows "map_of (lru_abs c) k = Some v"
  using assms distinct_abs [OF assms(1)] by (force simp: map_of_eq_Some_iff lru_abs_def)

lemma lru_contains_abs: "lru_linked c \<Longrightarrow> lru_contains c k \<longleftrightarrow> k \<in> fst ` set (lru_abs c)"
  using lru_cache_None [of c k] by (auto simp: lru_contains_def)

lemma delete_filter: "AList.delete k xs = filter (\<lambda>p. fst p \<noteq> k) xs"
  by (induction xs) auto

lemma update_absent: "k \<notin> fst ` set xs \<Longrightarrow> AList.update k v xs = xs @ [(k, v)]"
  by (induction xs) auto

text \<open>Removing one node and its entry of the map keeps the two structures linked.\<close>

lemma linked_remove:
  assumes "lru_linked c" "(a, k, v) \<in> set (lru_items c)"
  shows "lru_linked (c\<lparr>lru_items := filter (\<lambda>n. fst n \<noteq> a) (lru_items c),
                       lru_cache := AList.delete k (lru_cache c)\<rparr>)"
proof -
  have "set (lru_cache c) = (\<lambda>(a, k, v). (k, a)) ` set (lru_items c)" using assms(1) by (simp add: lru_linked_def)
  then have "{p \<in> set (lru_cache c). fst p \<noteq> k} = (\<lambda>(a, k, v). (k, a)) ` {n \<in> set (lru_items c). fst (snd n) \<noteq> k}"
    by (force simp: image_iff)
  also have "{n \<in> set (lru_items c). fst (snd n) \<noteq> k} = {n \<in> set (lru_items c). fst n \<noteq> a}"
    using node_unique [OF assms] by auto
  finally show ?thesis
    using assms(1) unfolding lru_linked_def by (simp add: delete_filter distinct_map_filter)
qed

lemma lru_drop_ok:
  assumes "lru_linked c"
  shows "\<exists>c'. lru_drop c k = Some c' \<and> lru_linked c' \<and> lru_abs c' = filter (\<lambda>p. fst p \<noteq> k) (lru_abs c) \<and>
     lru_max c' = lru_max c \<and> map_of (lru_cache c') k = None"
proof (cases "map_of (lru_cache c) k")
  case None
  then have "filter (\<lambda>p. fst p \<noteq> k) (lru_abs c) = lru_abs c"
    using lru_cache_None [OF assms, of k] by (auto simp: filter_id_conv)
  then show ?thesis using None assms by (simp add: lru_drop_def)
next
  case (Some a)
  obtain v where v: "(a, k, v) \<in> set (lru_items c)" using Some lru_cache_Some [OF assms] by blast
  then have "a \<in> fst ` set (lru_items c)" by force
  then show ?thesis
    using Some linked_remove [OF assms v] filter_node_key [OF assms v]
    by (simp add: lru_drop_def list_erase_def lru_abs_def delete_conv')
qed

lemma lru_insert_linked:
  assumes "lru_linked c" "map_of (lru_cache c) k = None"
  shows "lru_linked (c\<lparr>lru_items := (lru_next c, k, v) # lru_items c, lru_next := lru_next c + 1,
                       lru_cache := AList.update k (lru_next c) (lru_cache c)\<rparr>)"
proof -
  have nk: "k \<notin> fst ` set (lru_cache c)" using assms(2) by (simp add: map_of_eq_None_iff)
  have nk': "k \<notin> (fst \<circ> snd) ` set (lru_items c)"
    using lru_cache_None [OF assms(1), of k] assms(2) by (simp add: lru_abs_def image_comp o_def)
  show ?thesis
    using assms(1) nk nk' unfolding lru_linked_def by (auto simp: update_absent less_Suc_eq)
qed

text \<open>Evicting the last node, which \<^verbatim>\<open>put\<close> does when the map has outgrown the capacity.\<close>

lemma butlast_remove:
  assumes "distinct (map fst xs)" "xs \<noteq> []"
  shows "filter (\<lambda>n. fst n \<noteq> fst (last xs)) xs = butlast xs"
proof -
  have eq: "xs = butlast xs @ [last xs]" using assms(2) by simp
  then have "distinct (map fst (butlast xs @ [last xs]))" using assms(1) by simp
  then have "fst (last xs) \<notin> fst ` set (butlast xs)" by (simp only: map_append distinct_append) auto
  then have "filter (\<lambda>n. fst n \<noteq> fst (last xs)) (butlast xs) = butlast xs"
    by (metis (mono_tags, lifting) filter_True image_eqI)
  then show ?thesis by (subst eq) (simp del: append_butlast_last_id)
qed

lemma evict_linked:
  assumes "lru_linked c" "lru_items c \<noteq> []"
  shows "lru_linked (c\<lparr>lru_cache := AList.delete (fst (snd (last (lru_items c)))) (lru_cache c),
                       lru_items := butlast (lru_items c)\<rparr>)"
proof -
  obtain a k v where l: "last (lru_items c) = (a, k, v)" by (cases "last (lru_items c)")
  then have "(a, k, v) \<in> set (lru_items c)" using assms(2) last_in_set by metis
  moreover have "filter (\<lambda>n. fst n \<noteq> a) (lru_items c) = butlast (lru_items c)"
    using butlast_remove [of "lru_items c"] assms l by (simp add: lru_linked_def)
  ultimately show ?thesis using linked_remove [OF assms(1), of a k v] l by (simp add: lru_linked_def)
qed

lemma lru_put_ok:
  assumes "lru_ok c"
  shows "\<exists>c'. lru_put c k v = Some c' \<and> lru_ok c' \<and> lru_max c' = lru_max c \<and>
     lru_abs c' = spec_put (lru_max c) (lru_abs c) k v"
proof -
  have lk: "lru_linked c" and sz: "length (lru_abs c) \<le> lru_max c"
    using assms by (auto simp: lru_ok_linked)
  obtain d where d: "lru_drop c k = Some d" "lru_linked d" "lru_max d = lru_max c"
    "lru_abs d = filter (\<lambda>p. fst p \<noteq> k) (lru_abs c)" "map_of (lru_cache d) k = None"
    using lru_drop_ok [OF lk] by blast
  define e where "e = d\<lparr>lru_items := (lru_next d, k, v) # lru_items d, lru_next := lru_next d + 1,
                       lru_cache := AList.update k (lru_next d) (lru_cache d)\<rparr>"
  have e: "lru_linked e" "lru_max e = lru_max c" "lru_abs e = (k, v) # filter (\<lambda>p. fst p \<noteq> k) (lru_abs c)"
    "lru_items e = (lru_next d, k, v) # lru_items d"
    using lru_insert_linked [OF d(2,5)] d(3,4) by (simp_all add: e_def lru_abs_def)
  have le: "length (lru_abs e) \<le> Suc (lru_max c)"
    using e(3) le_trans [OF length_filter_le sz] by simp
  have len: "length (lru_cache e) = length (lru_abs e)" using lru_linked_size [OF e(1)] by (simp add: lru_abs_def)
  show ?thesis
  proof (cases "lru_max e < length (lru_cache e)")
    case False
    then have "lru_put c k v = Some e" using d(1) by (simp add: lru_put_def e_def Let_def)
    then show ?thesis using e(1-3) False len by (simp add: lru_ok_linked spec_put_def)
  next
    case True
    define f where "f = e\<lparr>lru_cache := AList.delete (fst (snd (last (lru_items e)))) (lru_cache e),
                       lru_items := butlast (lru_items e)\<rparr>"
    have "lru_put c k v = Some f" using d(1) True by (simp add: lru_put_def e_def f_def Let_def)
    moreover have "lru_linked f" unfolding f_def using evict_linked [OF e(1)] e(4) by simp
    moreover have "lru_abs f = butlast (lru_abs e)" by (simp add: f_def lru_abs_def map_butlast)
    moreover have "length (lru_abs e) = Suc (lru_max c)" using True le len e(2) by simp
    ultimately show ?thesis
      using e(2,3) by (simp add: lru_ok_linked spec_put_def f_def butlast_conv_take)
  qed
qed

lemma singleton_list: "set xs = {x} \<Longrightarrow> distinct xs \<Longrightarrow> xs = [x]"
  by (cases xs; cases "tl xs") auto

lemma lru_get_ok:
  assumes "lru_ok c"
  shows "\<exists>c'. lru_get c k = Some (fst (spec_get (lru_abs c) k), c') \<and> lru_ok c' \<and>
     lru_max c' = lru_max c \<and> lru_abs c' = snd (spec_get (lru_abs c) k)"
proof (cases "map_of (lru_cache c) k")
  case None
  have "map_of (lru_abs c) k = None"
    using None lru_cache_None [of c k] assms by (simp add: lru_ok_linked map_of_eq_None_iff)
  then show ?thesis using None assms by (simp add: lru_get_def spec_get_def)
next
  case (Some a)
  have lk: "lru_linked c" using assms by (simp add: lru_ok_linked)
  obtain v where v: "(a, k, v) \<in> set (lru_items c)" using Some lru_cache_Some [OF lk] by blast
  define rest where "rest = filter (\<lambda>n. fst n \<noteq> a) (lru_items c)"
  have "set (filter (\<lambda>n. fst n = a) (lru_items c)) = {(a, k, v)}"
  proof (intro set_eqI iffI)
    fix n assume "n \<in> set (filter (\<lambda>n. fst n = a) (lru_items c))"
    then show "n \<in> {(a, k, v)}" using inj_onD [OF lru_linkedD(3) [OF lk] _ _ v, of n] by simp
  qed (use v in auto)
  moreover have "distinct (filter (\<lambda>n. fst n = a) (lru_items c))" using lru_linkedD(1) [OF lk] by simp
  ultimately have one: "filter (\<lambda>n. fst n = a) (lru_items c) = [(a, k, v)]"
    by (rule singleton_list)
  have "mset (lru_items c) = mset ((a, k, v) # rest)"
    using multiset_partition [of "mset (lru_items c)" "\<lambda>n. fst n = a"]
    by (simp only: mset_filter [symmetric] one rest_def [symmetric]) simp
  then have ms: "mset (map f (lru_items c)) = mset (map f ((a, k, v) # rest))" for f by (metis mset_map)
  let ?c = "c\<lparr>lru_items := (a, k, v) # rest\<rparr>"
  have "lru_get c k = Some (Some v, ?c)" using Some one by (simp add: lru_get_def rest_def)
  moreover have "lru_ok ?c"
    using assms mset_eq_imp_distinct_iff [OF ms [of fst]] mset_eq_imp_distinct_iff [OF ms [of "fst \<circ> snd"]]
      mset_eq_length [OF ms [of id]] mset_eq_setD [OF ms [of id]]
    unfolding lru_ok_def by auto
  ultimately show ?thesis
    using filter_node_key [OF lk v] lru_abs_map_of [OF lk v] by (simp add: spec_get_def lru_abs_def rest_def)
qed

lemma lru_erase_ok:
  assumes "lru_ok c"
  shows "\<exists>c'. lru_erase c k = Some c' \<and> lru_ok c' \<and> lru_max c' = lru_max c \<and>
     lru_abs c' = filter (\<lambda>p. fst p \<noteq> k) (lru_abs c)"
proof -
  obtain d where "lru_drop c k = Some d" "lru_linked d" "lru_max d = lru_max c"
    "lru_abs d = filter (\<lambda>p. fst p \<noteq> k) (lru_abs c)"
    using lru_drop_ok [of c k] assms by (auto simp: lru_ok_linked)
  moreover have "length (filter (\<lambda>p. fst p \<noteq> k) (lru_abs c)) \<le> lru_max c"
    using assms by (intro le_trans [OF length_filter_le]) (simp add: lru_ok_linked)
  ultimately show ?thesis by (simp add: lru_erase_def lru_ok_linked)
qed

lemma lru_new_ok: "lru_ok (lru_new n)" "lru_abs (lru_new n) = []" "lru_max (lru_new n) = n"
  by (simp_all add: lru_ok_def lru_new_def lru_abs_def)

lemma lru_clear_ok: "lru_ok (lru_clear c)" "lru_abs (lru_clear c) = []" "lru_max (lru_clear c) = lru_max c"
  by (simp_all add: lru_ok_def lru_clear_def lru_abs_def)

section \<open>Sequences of operations\<close>

datatype ('k, 'v) lru_op = Put 'k 'v | Get 'k | Erase 'k | Clear

fun lru_step :: "('k, 'v) lru \<Rightarrow> ('k, 'v) lru_op \<Rightarrow> ('v option \<times> ('k, 'v) lru) option" where
  "lru_step c (Put k v) = map_option (Pair None) (lru_put c k v)"
| "lru_step c (Get k) = lru_get c k"
| "lru_step c (Erase k) = map_option (Pair None) (lru_erase c k)"
| "lru_step c Clear = Some (None, lru_clear c)"

fun recency_step :: "nat \<times> ('k, 'v) recency \<Rightarrow> ('k, 'v) lru_op \<Rightarrow> 'v option \<times> nat \<times> ('k, 'v) recency" where
  "recency_step (n, l) (Put k v) = (None, n, spec_put n l k v)"
| "recency_step (n, l) (Get k) = (fst (spec_get l k), n, snd (spec_get l k))"
| "recency_step (n, l) (Erase k) = (None, n, filter (\<lambda>p. fst p \<noteq> k) l)"
| "recency_step (n, l) Clear = (None, n, [])"

interpretation lru: simulation lru_step recency_step "\<lambda>c. (lru_max c, lru_abs c)" lru_ok
proof
  fix c :: "('k, 'v) lru" and opn :: "('k, 'v) lru_op"
  assume ok: "lru_ok c"
  show "\<exists>v c'. lru_step c opn = Some (v, c') \<and> lru_ok c' \<and>
      recency_step (lru_max c, lru_abs c) opn = (v, lru_max c', lru_abs c')"
  proof (cases opn)
    case (Put k v) then show ?thesis using lru_put_ok [OF ok, of k v] by auto
  next
    case (Get k) then show ?thesis using lru_get_ok [OF ok, of k] by auto
  next
    case (Erase k) then show ?thesis using lru_erase_ok [OF ok, of k] by auto
  next
    case Clear then show ?thesis using lru_clear_ok [of c] by auto
  qed
qed

lemma recency_cap: "fst (snd (spec_run recency_step (n, l) ops)) = n"
proof (induction ops arbitrary: l)
  case (Cons opn ops)
  then show ?case by (cases opn) (auto split: prod.splits, (metis fst_conv snd_conv)+)
qed simp

text \<open>
  Property C33.
  From an empty cache, every sequence of \<^verbatim>\<open>put\<close>, \<^verbatim>\<open>get\<close>, \<^verbatim>\<open>erase\<close> and \<^verbatim>\<open>clear\<close> runs without using an
  iterator that points to no node, every \<^verbatim>\<open>get\<close> returns what the most-recently-used list of the
  specification returns, and at the end the cache holds exactly that list, in its order; the hash map and the list
  have the same keys, \<^verbatim>\<open>size\<close> is the length of the list and never exceeds the capacity.
\<close>

theorem lru_cache_refines:
  "\<exists>outs c. run lru_step (lru_new n) ops = Some (outs, c) \<and>
     spec_run recency_step (n, []) ops = (outs, n, lru_abs c) \<and>
     lru_ok c \<and> lru_size c = length (lru_abs c) \<and> lru_size c \<le> n \<and>
     (\<forall>k. lru_contains c k \<longleftrightarrow> k \<in> fst ` set (lru_abs c))"
proof -
  obtain outs c where c: "run lru_step (lru_new n) ops = Some (outs, c)" "lru_ok c"
    "spec_run recency_step (n, []) ops = (outs, lru_max c, lru_abs c)"
    using lru.run_simulates [OF lru_new_ok(1), of n ops] by (auto simp: lru_new_ok)
  have "lru_max c = n" using recency_cap [of n "[]" ops] c(3) by simp
  then show ?thesis
    using c lru_linked_size [of c] lru_contains_abs [of c] by (auto simp: lru_ok_linked lru_size_def lru_abs_def)
qed

end
