(* ===== verification/Glob.thy ===== *)
theory Glob
  imports Prelude
begin

text \<open>
  The wildcard matcher of \<^verbatim>\<open>src/runtime/glob/gitignore.cpp\<close>: \<^verbatim>\<open>glob_match\<close> walks the pattern and the text
  with two indices, remembers only the last star and goes back to it on a mismatch. It is shown to
  decide the language of the pattern, which is defined by recursion over its atoms.

  A \<^verbatim>\<open>string_view\<close> is a \<open>string\<close>, subscripts go through \<open>rd\<close>; the bytes of characters are compared
  unsigned, as in the code. The loop of \<^verbatim>\<open>glob_match\<close> is a \<open>partial_function\<close>, since its end depends on the
  order of the two text indices.
\<close>

section \<open>The code\<close>

definition fold_ascii :: "nat \<Rightarrow> nat" where
  "fold_ascii c = (if of_char CHR ''A'' \<le> c \<and> c \<le> of_char CHR ''Z'' then u8 (c + 32) else c)"

text \<open>The byte to compare: folded if \<open>ci\<close>.\<close>

definition fold_ci :: "bool \<Rightarrow> char \<Rightarrow> nat" where
  "fold_ci ci c = (if ci then fold_ascii (of_char c) else of_char c)"

text \<open>The loop of \<^verbatim>\<open>match_bracket\<close>; \<open>folded_ch\<close> is the character of the text.\<close>

function bracket_loop :: "string \<Rightarrow> nat \<Rightarrow> nat \<Rightarrow> bool \<Rightarrow> bool \<Rightarrow> (bool \<times> nat) option" where
  "bracket_loop pat i folded_ch ci matched =
     (if i < length pat \<and> pat ! i \<noteq> CHR '']'' then
        let lo = pat ! i; i = i + 1 in
        if i + 1 < length pat \<and> pat ! i = CHR ''-'' \<and> pat ! (i + 1) \<noteq> CHR '']'' then
          let hi = pat ! (i + 1) in
          bracket_loop pat (i + 2) folded_ch ci (fold_ci ci lo \<le> folded_ch \<and> folded_ch \<le> fold_ci ci hi \<or> matched)
        else bracket_loop pat i folded_ch ci (folded_ch = fold_ci ci lo \<or> matched)
      else Some (matched, i))"
  by pat_completeness auto
termination
  by (relation "measure (\<lambda>(pat, i, ch, ci, m). length pat - i)") auto

definition match_bracket :: "string \<Rightarrow> nat \<Rightarrow> char \<Rightarrow> bool \<Rightarrow> (bool \<times> nat) option" where
  "match_bracket pat i ch ci =
     (if length pat \<le> i then Some (ch = CHR ''['', i)
      else do {
        c \<leftarrow> rd pat i;
        let negated = (c = CHR ''!'' \<or> c = CHR ''^'');
        let i = (if negated then i + 1 else i);
        (matched, i) \<leftarrow> bracket_loop pat i (fold_ci ci ch) ci False;
        let i = (if i < length pat \<and> pat ! i = CHR '']'' then i + 1 else i);
        Some (if negated then \<not> matched else matched, i)
      })"

text \<open>The result and the two indices; the caller does not use them after a mismatch.\<close>

definition match_one :: "string \<Rightarrow> nat \<Rightarrow> string \<Rightarrow> nat \<Rightarrow> bool \<Rightarrow> (bool \<times> nat \<times> nat) option" where
  "match_one pat i text t ci =
     (if length pat \<le> i \<or> length text \<le> t then Some (False, i, t)
      else do {
        pc \<leftarrow> rd pat i;
        tc \<leftarrow> rd text t;
        if pc = CHR ''?'' then Some (True, i + 1, t + 1)
        else if pc = CHR ''['' then do {
          (m, i) \<leftarrow> match_bracket pat (i + 1) tc ci;
          Some (m, i, t + 1)
        }
        else if ci then Some (fold_ascii (of_char pc) = fold_ascii (of_char tc), i + 1, t + 1)
        else Some (pc = tc, i + 1, t + 1)
      })"

partial_function (option) glob_loop ::
  "string \<Rightarrow> string \<Rightarrow> bool \<Rightarrow> nat \<Rightarrow> nat \<Rightarrow> nat \<Rightarrow> nat \<Rightarrow> (nat option) option" where
  "glob_loop pat text ci i t star_i star_t =
     (if t < length text then do {
        star \<leftarrow> (if i < length pat then do { c \<leftarrow> rd pat i; Some (c = CHR ''*'') } else Some False);
        if star then glob_loop pat text ci (i + 1) t i t
        else do {
          (m, i', t') \<leftarrow> (if i < length pat then match_one pat i text t ci else Some (False, i, t));
          if m then glob_loop pat text ci i' t' star_i star_t
          else if star_i \<noteq> length pat then glob_loop pat text ci (star_i + 1) (star_t + 1) star_i (star_t + 1)
          else Some None
        }
      }
      else Some (Some i))"

text \<open>\<^verbatim>\<open>while (pi < pat.size () && pat[pi] == '*') ++pi;\<close>\<close>

function skip_stars :: "string \<Rightarrow> nat \<Rightarrow> nat" where
  "skip_stars pat i = (if i < length pat \<and> pat ! i = CHR ''*'' then skip_stars pat (i + 1) else i)"
  by pat_completeness auto
termination
  by (relation "measure (\<lambda>(pat, i). length pat - i)") auto

definition glob_match :: "string \<Rightarrow> string \<Rightarrow> bool \<Rightarrow> bool option" where
  "glob_match pat text ci =
     do {
       r \<leftarrow> glob_loop pat text ci 0 0 (length pat) 0;
       Some (case r of None \<Rightarrow> False | Some i \<Rightarrow> skip_stars pat i = length pat)
     }"

declare bracket_loop.simps [simp del] skip_stars.simps [simp del]

section \<open>The language of a pattern\<close>

datatype atom = Star | Any | Lit char | Class bool "(char \<times> char) list"

text \<open>The upper end of a range \<^verbatim>\<open>-e\<close> and what follows it.\<close>

definition range_end :: "string \<Rightarrow> (char \<times> string) option" where
  "range_end cs = (case cs of d # e # r \<Rightarrow> if d = CHR ''-'' \<and> e \<noteq> CHR '']'' then Some (e, r) else None | _ \<Rightarrow> None)"

lemma range_end_Some: "range_end cs = Some (e, r) \<longleftrightarrow> cs = CHR ''-'' # e # r \<and> e \<noteq> CHR '']''"
  by (auto simp: range_end_def split: list.splits)

text \<open>The ranges up to the closing bracket, and the rest of the pattern.\<close>

function class_items :: "string \<Rightarrow> (char \<times> char) list \<times> string" where
  "class_items [] = ([], [])"
| "class_items (c # cs) =
     (if c = CHR '']'' then ([], cs)
      else case range_end cs of
        Some (e, r) \<Rightarrow> apfst (Cons (c, e)) (class_items r)
      | None \<Rightarrow> apfst (Cons (c, c)) (class_items cs))"
  by pat_completeness auto
termination
  by (relation "measure length") (auto simp: range_end_Some)

lemma class_items_length: "length (snd (class_items cs)) \<le> length cs"
proof (induction "length cs" arbitrary: cs rule: less_induct)
  case less
  show ?case
  proof (cases cs)
    case (Cons c ds)
    show ?thesis
    proof (cases "range_end ds")
      case None
      then show ?thesis using less [of ds] Cons by auto
    next
      case (Some er)
      then obtain e r where r: "range_end ds = Some (e, r)" by (cases er) auto
      then have "length r < length ds" by (auto simp: range_end_Some)
      then show ?thesis using r less [of r] Cons by simp
    qed
  qed simp
qed

definition class_start :: "string \<Rightarrow> bool \<times> string" where
  "class_start cs = (case cs of c # r \<Rightarrow> if c = CHR ''!'' \<or> c = CHR ''^'' then (True, r) else (False, cs) | [] \<Rightarrow> (False, []))"

lemma class_start_length: "length (snd (class_start cs)) \<le> length cs"
  by (auto simp: class_start_def split: list.splits)

function atoms :: "string \<Rightarrow> atom list" where
  "atoms [] = []"
| "atoms (c # cs) =
     (if c = CHR ''*'' then Star # atoms cs
      else if c = CHR ''?'' then Any # atoms cs
      else if c = CHR ''['' then
        if cs = [] then [Lit c]
        else let (neg, cs) = class_start cs; (is, rest) = class_items cs in Class neg is # atoms rest
      else Lit c # atoms cs)"
  by pat_completeness auto
termination
proof (relation "measure length", goal_cases)
  case (4 c cs x neg cs' y "is" rest)
  then have "length rest \<le> length cs'" "length cs' \<le> length cs"
    using class_items_length [of cs'] class_start_length [of cs] by (metis snd_conv)+
  then show ?case by simp
qed auto

fun atom_ok :: "bool \<Rightarrow> atom \<Rightarrow> char \<Rightarrow> bool" where
  "atom_ok ci Star c = False"
| "atom_ok ci Any c = True"
| "atom_ok ci (Lit d) c = (fold_ci ci d = fold_ci ci c)"
| "atom_ok ci (Class neg is) c =
     (neg \<noteq> (\<exists>(lo, hi) \<in> set is. fold_ci ci lo \<le> fold_ci ci c \<and> fold_ci ci c \<le> fold_ci ci hi))"

fun matches :: "bool \<Rightarrow> atom list \<Rightarrow> string \<Rightarrow> bool" where
  "matches ci [] t = (t = [])"
| "matches ci (a # as) t =
     (if a = Star then \<exists>k \<le> length t. matches ci as (drop k t)
      else case t of [] \<Rightarrow> False | c # t \<Rightarrow> atom_ok ci a c \<and> matches ci as t)"

section \<open>The code follows the atoms\<close>

lemma range_end_drop:
  "range_end (drop i pat) =
     (if i + 1 < length pat \<and> pat ! i = CHR ''-'' \<and> pat ! (i + 1) \<noteq> CHR '']'' then Some (pat ! (i + 1), drop (i + 2) pat) else None)"
proof (cases "i + 1 < length pat")
  case True
  then have "drop i pat = pat ! i # pat ! (i + 1) # drop (i + 2) pat"
    using Cons_nth_drop_Suc [of i pat] Cons_nth_drop_Suc [of "i + 1" pat] by simp
  then show ?thesis using True by (simp add: range_end_def)
next
  case False
  have "range_end (drop i pat) \<noteq> Some (e, r)" for e r
  proof
    assume "range_end (drop i pat) = Some (e, r)"
    then have "length (drop i pat) = length (CHR ''-'' # e # r)" by (metis range_end_Some)
    then show False using False by simp
  qed
  then show ?thesis using False by (cases "range_end (drop i pat)") auto
qed

abbreviation in_class :: "bool \<Rightarrow> (char \<times> char) list \<Rightarrow> nat \<Rightarrow> bool" where
  "in_class ci is n \<equiv> \<exists>(lo, hi) \<in> set is. fold_ci ci lo \<le> n \<and> n \<le> fold_ci ci hi"

abbreviation after_bracket :: "string \<Rightarrow> nat \<Rightarrow> nat" where
  "after_bracket pat j \<equiv> (if j < length pat \<and> pat ! j = CHR '']'' then j + 1 else j)"

lemma bracket_loop_items:
  assumes "class_items (drop i pat) = (is, rest)" "i \<le> length pat"
  shows "\<exists>j. bracket_loop pat i n ci m = Some (in_class ci is n \<or> m, j) \<and> i \<le> j \<and> j \<le> length pat \<and>
           rest = drop (after_bracket pat j) pat"
  using assms
proof (induction pat i n ci m arbitrary: "is" rule: bracket_loop.induct)
  case (1 pat i n ci m)
  show ?case
  proof (cases "i < length pat \<and> pat ! i \<noteq> CHR '']''")
    case False
    then have "class_items (drop i pat) = ([], drop (after_bracket pat i) pat)"
      using "1.prems"(2) Cons_nth_drop_Suc [of i pat, symmetric] by (cases "i < length pat") auto
    then show ?thesis using False "1.prems" by (subst bracket_loop.simps) auto
  next
    case True
    then have d: "drop i pat = pat ! i # drop (i + 1) pat" using Cons_nth_drop_Suc [of i pat] by simp
    let ?range = "i + 1 + 1 < length pat \<and> pat ! (i + 1) = CHR ''-'' \<and> pat ! (i + 1 + 1) \<noteq> CHR '']''"
    show ?thesis
    proof (cases ?range)
      case r: True
      obtain is' where is': "class_items (drop (i + 1 + 2) pat) = (is', rest)" "is = (pat ! i, pat ! (i + 1 + 1)) # is'"
        using "1.prems"(1) True r unfolding d by (auto simp: range_end_drop apfst_def map_prod_def split: prod.splits)
      obtain j where "bracket_loop pat (i + 1 + 2) n ci
            (fold_ci ci (pat ! i) \<le> n \<and> n \<le> fold_ci ci (pat ! (i + 1 + 1)) \<or> m) =
          Some (in_class ci is' n \<or> fold_ci ci (pat ! i) \<le> n \<and> n \<le> fold_ci ci (pat ! (i + 1 + 1)) \<or> m, j)"
        "i + 1 + 2 \<le> j" "j \<le> length pat" "rest = drop (after_bracket pat j) pat"
        using "1.IH"(1) [OF True refl refl r refl is'(1)] r by auto
      moreover have "bracket_loop pat i n ci m = bracket_loop pat (i + 1 + 2) n ci
            (fold_ci ci (pat ! i) \<le> n \<and> n \<le> fold_ci ci (pat ! (i + 1 + 1)) \<or> m)"
        by (subst bracket_loop.simps) (simp only: True r Let_def if_True simp_thms)
      ultimately show ?thesis using is'(2) by (intro exI [of _ j]) auto
    next
      case r: False
      obtain is' where is': "class_items (drop (i + 1) pat) = (is', rest)" "is = (pat ! i, pat ! i) # is'"
        using "1.prems"(1) True r unfolding d by (auto simp: range_end_drop apfst_def map_prod_def split: prod.splits)
      obtain j where "bracket_loop pat (i + 1) n ci (n = fold_ci ci (pat ! i) \<or> m) =
          Some (in_class ci is' n \<or> n = fold_ci ci (pat ! i) \<or> m, j)"
        "i + 1 \<le> j" "j \<le> length pat" "rest = drop (after_bracket pat j) pat"
        using "1.IH"(2) [OF True refl refl r is'(1)] True by auto
      moreover have "bracket_loop pat i n ci m = bracket_loop pat (i + 1) n ci (n = fold_ci ci (pat ! i) \<or> m)"
        by (subst bracket_loop.simps) (simp only: True r Let_def if_True if_False simp_thms)
      ultimately show ?thesis using is'(2) by (intro exI [of _ j]) auto
    qed
  qed
qed

lemma fold_ci_inject_bracket: "fold_ci ci CHR ''['' = fold_ci ci c \<longleftrightarrow> c = CHR ''[''"
proof -
  have "(of_char c :: nat) = 91 \<longleftrightarrow> c = CHR ''[''"
    using of_char_eq_iff [of c "CHR ''[''", where ?'a = nat] by simp
  then show ?thesis by (auto simp: fold_ci_def fold_ascii_def u8_def)
qed

lemma match_bracket_class:
  assumes "i < length pat" "class_start (drop i pat) = (neg, cs)" "class_items cs = (is, rest)"
  shows "\<exists>j. match_bracket pat i c ci = Some (atom_ok ci (Class neg is) c, j) \<and> i \<le> j \<and> j \<le> length pat \<and> rest = drop j pat"
proof -
  define i' where "i' = (if pat ! i = CHR ''!'' \<or> pat ! i = CHR ''^'' then i + 1 else i)"
  have d: "drop i pat = pat ! i # drop (i + 1) pat" using assms(1) Cons_nth_drop_Suc [of i pat] by simp
  then have "cs = drop i' pat" and neg: "neg \<longleftrightarrow> pat ! i = CHR ''!'' \<or> pat ! i = CHR ''^''"
    using assms(2) by (auto simp: class_start_def i'_def split: if_splits)
  moreover have i': "i' \<le> length pat" "i \<le> i'" using assms(1) by (auto simp: i'_def)
  ultimately obtain j where j: "bracket_loop pat i' (fold_ci ci c) ci False = Some (in_class ci is (fold_ci ci c), j)"
    "i' \<le> j" "j \<le> length pat" "rest = drop (after_bracket pat j) pat"
    using bracket_loop_items [of i' pat "is" rest "fold_ci ci c" ci False] assms(3) by auto
  have "match_bracket pat i c ci = Some (atom_ok ci (Class neg is) c, after_bracket pat j)"
    using assms(1) j(1) neg by (auto simp: match_bracket_def i'_def Let_def)
  then show ?thesis using j i' by (intro exI [of _ "after_bracket pat j"]) auto
qed

lemma match_one_atom:
  assumes "i < length pat" "t < length text" "pat ! i \<noteq> CHR ''*''"
  obtains a i' where "atoms (drop i pat) = a # atoms (drop i' pat)" "a \<noteq> Star" "i < i'" "i' \<le> length pat"
    "match_one pat i text t ci = Some (atom_ok ci a (text ! t), i', t + 1)"
proof -
  have d: "drop i pat = pat ! i # drop (i + 1) pat" using assms(1) Cons_nth_drop_Suc [of i pat] by simp
  consider "pat ! i = CHR ''?''" | "pat ! i = CHR ''[''" "i + 1 < length pat" | "pat ! i = CHR ''[''" "length pat = i + 1"
    | "pat ! i \<noteq> CHR ''?''" "pat ! i \<noteq> CHR ''[''"
    using assms(1) by fastforce
  then show thesis
  proof cases
    case 1
    then show ?thesis using d assms by (intro that [of Any "i + 1"]) (auto simp: match_one_def)
  next
    case 2
    obtain neg cs "is" rest where c: "class_start (drop (i + 1) pat) = (neg, cs)" "class_items cs = (is, rest)"
      by fastforce
    then obtain j where "match_bracket pat (i + 1) (text ! t) ci = Some (atom_ok ci (Class neg is) (text ! t), j)"
      "i + 1 \<le> j" "j \<le> length pat" "rest = drop j pat"
      using match_bracket_class [OF 2(2)] by blast
    then show ?thesis using 2 c assms by (intro that [of "Class neg is" j]) (auto simp: match_one_def d)
  next
    case 3
    then show ?thesis using d assms fold_ci_inject_bracket [of ci "text ! t"]
      by (intro that [of "Lit CHR ''[''" "i + 1"]) (auto simp: match_one_def match_bracket_def)
  next
    case 4
    then show ?thesis using d assms by (intro that [of "Lit (pat ! i)" "i + 1"]) (auto simp: match_one_def fold_ci_def)
  qed
qed

section \<open>Going back to the last star is enough\<close>

lemma matches_append:
  "list_all2 (atom_ok ci) mid u \<Longrightarrow> matches ci (mid @ as) (u @ v) \<longleftrightarrow> matches ci as v"
  by (induction rule: list_all2_induct) (auto split: if_splits)

lemma matches_mid:
  "Star \<notin> set mid \<Longrightarrow> matches ci (mid @ as) v \<longleftrightarrow>
     length mid \<le> length v \<and> list_all2 (atom_ok ci) mid (take (length mid) v) \<and> matches ci as (drop (length mid) v)"
proof (induction mid arbitrary: v)
  case (Cons a mid)
  then show ?case by (cases v) auto
qed simp

lemma no_star: "list_all2 (atom_ok ci) mid u \<Longrightarrow> Star \<notin> set mid"
  by (induction rule: list_all2_induct) auto

lemma matches_star_step:
  "matches ci (Star # as) (c # t) \<longleftrightarrow> matches ci as (c # t) \<or> matches ci (Star # as) t"
proof
  assume "matches ci (Star # as) (c # t)"
  then obtain k where "k \<le> Suc (length t)" "matches ci as (drop k (c # t))" by auto
  then show "matches ci as (c # t) \<or> matches ci (Star # as) t" by (cases k) auto
next
  assume "matches ci as (c # t) \<or> matches ci (Star # as) t"
  then show "matches ci (Star # as) (c # t)"
  proof
    assume "matches ci as (c # t)"
    then show ?thesis by (auto intro!: exI [of _ 0])
  next
    assume "matches ci (Star # as) t"
    then obtain k where "k \<le> length t" "matches ci as (drop k t)" by auto
    then show ?thesis by (auto intro!: exI [of _ "Suc k"])
  qed
qed

lemma matches_star_suffix: "matches ci (Star # as) v \<Longrightarrow> matches ci (Star # as) (u @ v)"
  by (induction u) (auto simp: matches_star_step simp del: matches.simps)

lemma matches_star_mid_star:
  assumes "list_all2 (atom_ok ci) mid u"
  shows "matches ci (Star # mid @ Star # as) (u @ v) \<longleftrightarrow> matches ci (Star # as) v"
proof
  assume "matches ci (Star # mid @ Star # as) (u @ v)"
  then obtain k where k: "k \<le> length (u @ v)" "matches ci (mid @ Star # as) (drop k (u @ v))" by auto
  then have "matches ci (Star # as) (drop (length mid) (drop k (u @ v)))"
    using matches_mid [OF no_star [OF assms]] by blast
  moreover have "drop (length mid) (drop k (u @ v)) = drop k v"
    using list_all2_lengthD [OF assms] by (auto simp: intro!: arg_cong [where f = "\<lambda>n. drop n v"])
  ultimately show "matches ci (Star # as) v"
    using matches_star_suffix [of ci as "drop k v" "take k v"] by (simp del: matches.simps)
next
  assume "matches ci (Star # as) v"
  then have "matches ci (mid @ Star # as) (u @ v)" using matches_append [OF assms] by simp
  then show "matches ci (Star # mid @ Star # as) (u @ v)" by (auto intro!: exI [of _ 0])
qed

lemma matches_star_mid_end:
  assumes "list_all2 (atom_ok ci) mid u"
  shows "matches ci (Star # mid @ as) u \<longleftrightarrow> matches ci as []"
proof
  assume "matches ci (Star # mid @ as) u"
  then obtain k where k: "k \<le> length u" "matches ci (mid @ as) (drop k u)" by auto
  then have "matches ci as (drop (length mid) (drop k u))" using matches_mid [OF no_star [OF assms]] by blast
  then show "matches ci as []" using list_all2_lengthD [OF assms] by simp
next
  assume "matches ci as []"
  then have "matches ci (mid @ as) u" using matches_append [OF assms, of as "[]"] by simp
  then show "matches ci (Star # mid @ as) u" by (auto intro!: exI [of _ 0])
qed

text \<open>
  What the loop knows: with no star so far, the rest of the pattern has to match the rest of the
  text; after a star, the atoms since then match the text from \<open>star_t\<close> on.
\<close>

definition glob_inv :: "string \<Rightarrow> string \<Rightarrow> bool \<Rightarrow> nat \<Rightarrow> nat \<Rightarrow> nat \<Rightarrow> nat \<Rightarrow> bool" where
  "glob_inv pat text ci i t star_i star_t \<longleftrightarrow>
     i \<le> length pat \<and> t \<le> length text \<and> star_t \<le> t \<and>
     (if star_i = length pat then matches ci (atoms pat) text = matches ci (atoms (drop i pat)) (drop t text)
      else star_i < length pat \<and>
           (\<exists>mid. atoms (drop (star_i + 1) pat) = mid @ atoms (drop i pat) \<and>
                  list_all2 (atom_ok ci) mid (take (t - star_t) (drop star_t text))) \<and>
           matches ci (atoms pat) text = matches ci (Star # atoms (drop (star_i + 1) pat)) (drop star_t text))"

lemma glob_inv_star:
  assumes inv: "glob_inv pat text ci i t star_i star_t" and i: "i < length pat" "pat ! i = CHR ''*''"
  shows "glob_inv pat text ci (i + 1) t i t"
proof -
  have d: "atoms (drop i pat) = Star # atoms (drop (i + 1) pat)"
    using i Cons_nth_drop_Suc [of i pat, symmetric] by simp
  have "matches ci (atoms pat) text = matches ci (Star # atoms (drop (i + 1) pat)) (drop t text)"
  proof (cases "star_i = length pat")
    case True
    then show ?thesis using inv d by (simp add: glob_inv_def)
  next
    case False
    then obtain mid where mid: "atoms (drop (star_i + 1) pat) = mid @ atoms (drop i pat)"
      "list_all2 (atom_ok ci) mid (take (t - star_t) (drop star_t text))"
      "matches ci (atoms pat) text = matches ci (Star # atoms (drop (star_i + 1) pat)) (drop star_t text)" "star_t \<le> t"
      using inv by (auto simp: glob_inv_def)
    then have "drop star_t text = take (t - star_t) (drop star_t text) @ drop t text"
      using append_take_drop_id [of "t - star_t" "drop star_t text"] by simp
    then show ?thesis using mid(1,3) matches_star_mid_star [OF mid(2)] d by metis
  qed
  then show ?thesis using inv i by (auto simp: glob_inv_def)
qed

lemma glob_inv_match:
  assumes inv: "glob_inv pat text ci i t star_i star_t" and t: "t < length text"
    and a: "atoms (drop i pat) = a # atoms (drop i' pat)" "a \<noteq> Star" "i' \<le> length pat" "atom_ok ci a (text ! t)"
  shows "glob_inv pat text ci i' (t + 1) star_i star_t"
proof (cases "star_i = length pat")
  case True
  have "drop t text = text ! t # drop (t + 1) text" using t Cons_nth_drop_Suc [of t "text"] by simp
  then show ?thesis using inv t a True by (simp add: glob_inv_def)
next
  case False
  then obtain mid where mid: "atoms (drop (star_i + 1) pat) = mid @ atoms (drop i pat)"
    "list_all2 (atom_ok ci) mid (take (t - star_t) (drop star_t text))" "star_t \<le> t"
    using inv by (auto simp: glob_inv_def)
  have "take (t + 1 - star_t) (drop star_t text) = take (t - star_t) (drop star_t text) @ [text ! t]"
    using t mid(3) take_Suc_conv_app_nth [of "t - star_t" "drop star_t text"] by (simp add: Suc_diff_le)
  then have "list_all2 (atom_ok ci) (mid @ [a]) (take (t + 1 - star_t) (drop star_t text))"
    using mid(2) a(4) by (simp add: list_all2_appendI)
  moreover have "atoms (drop (star_i + 1) pat) = (mid @ [a]) @ atoms (drop i' pat)" using mid(1) a(1) by simp
  ultimately show ?thesis using inv t a(3) False unfolding glob_inv_def
    by (auto intro!: exI [of _ "mid @ [a]"])
qed

text \<open>A mismatch at \<open>t\<close>: without a star there is no match, otherwise the star takes one more character.\<close>

lemma glob_inv_mismatch:
  assumes inv: "glob_inv pat text ci i t star_i star_t" and t: "t < length text"
    and no: "\<not> matches ci (atoms (drop i pat)) (drop t text)"
  shows "if star_i = length pat then \<not> matches ci (atoms pat) text
         else glob_inv pat text ci (star_i + 1) (star_t + 1) star_i (star_t + 1)"
proof (cases "star_i = length pat")
  case True
  then show ?thesis using inv no by (simp add: glob_inv_def)
next
  case False
  then obtain mid where mid: "atoms (drop (star_i + 1) pat) = mid @ atoms (drop i pat)"
    "list_all2 (atom_ok ci) mid (take (t - star_t) (drop star_t text))" "star_t \<le> t" "star_i < length pat"
    "matches ci (atoms pat) text = matches ci (Star # atoms (drop (star_i + 1) pat)) (drop star_t text)"
    using inv by (auto simp: glob_inv_def)
  have "drop star_t text = take (t - star_t) (drop star_t text) @ drop t text"
    using mid(3) append_take_drop_id [of "t - star_t" "drop star_t text"] by simp
  then have "\<not> matches ci (atoms (drop (star_i + 1) pat)) (drop star_t text)"
    using mid(1) matches_append [OF mid(2)] no by metis
  moreover have "drop star_t text = text ! star_t # drop (star_t + 1) text"
    using t mid(3) Cons_nth_drop_Suc [of star_t "text"] by simp
  ultimately have "matches ci (atoms pat) text = matches ci (Star # atoms (drop (star_i + 1) pat)) (drop (star_t + 1) text)"
    using mid(5) matches_star_step by metis
  then show ?thesis using False mid t by (simp add: glob_inv_def)
qed

lemma glob_inv_end:
  assumes inv: "glob_inv pat text ci i t star_i star_t" and t: "length text \<le> t"
  shows "matches ci (atoms pat) text = matches ci (atoms (drop i pat)) []"
proof (cases "star_i = length pat")
  case True
  then show ?thesis using inv t by (simp add: glob_inv_def)
next
  case False
  then obtain mid where mid: "atoms (drop (star_i + 1) pat) = mid @ atoms (drop i pat)"
    "list_all2 (atom_ok ci) mid (take (t - star_t) (drop star_t text))"
    "matches ci (atoms pat) text = matches ci (Star # atoms (drop (star_i + 1) pat)) (drop star_t text)"
    using inv by (auto simp: glob_inv_def)
  then have "list_all2 (atom_ok ci) mid (drop star_t text)" using t by simp
  then show ?thesis using mid(1,3) matches_star_mid_end by metis
qed

lemma glob_loop_correct:
  assumes "glob_inv pat text ci i t star_i star_t"
  shows "\<exists>r. glob_loop pat text ci i t star_i star_t = Some r \<and>
    (case r of None \<Rightarrow> \<not> matches ci (atoms pat) text
     | Some j \<Rightarrow> j \<le> length pat \<and> matches ci (atoms pat) text = matches ci (atoms (drop j pat)) [])"
  using assms
proof (induction "(length text - star_t, length pat - i)" arbitrary: i t star_i star_t
    rule: wf_induct_rule [OF wf_lex_prod [OF wf_less_than wf_less_than]])
  case (1 i star_t t star_i)
  have b: "i \<le> length pat" "t \<le> length text" "star_t \<le> t" using "1.prems" by (auto simp: glob_inv_def)
  show ?case
  proof (cases "t < length text")
    case False
    then show ?thesis using glob_inv_end [OF "1.prems"] b by (subst glob_loop.simps) auto
  next
    case t: True
    have mismatch: ?thesis
      if "\<not> matches ci (atoms (drop i pat)) (drop t text)"
        and eq: "glob_loop pat text ci i t star_i star_t =
          (if star_i \<noteq> length pat then glob_loop pat text ci (star_i + 1) (star_t + 1) star_i (star_t + 1) else Some None)"
    proof (cases "star_i = length pat")
      case True
      then show ?thesis using eq glob_inv_mismatch [OF "1.prems" t that(1)] by simp
    next
      case False
      have "length text - (star_t + 1) < length text - star_t" using b t by simp
      then show ?thesis
        using False eq glob_inv_mismatch [OF "1.prems" t that(1)]
          "1.hyps" [of "star_t + 1" "star_i + 1" "star_t + 1" star_i] by simp
    qed
    show ?thesis
    proof (cases "i < length pat \<and> pat ! i = CHR ''*''")
      case True
      have "glob_loop pat text ci i t star_i star_t = glob_loop pat text ci (i + 1) t i t"
        using t True by (subst glob_loop.simps) simp
      moreover have "length text - t < length text - star_t \<or> t = star_t \<and> length pat - (i + 1) < length pat - i"
        using True b t by auto
      ultimately show ?thesis using "1.hyps" [of t "i + 1" t i] glob_inv_star [OF "1.prems"] True by auto
    next
      case no_star: False
      show ?thesis
      proof (cases "i < length pat")
        case i: True
        then obtain a i' where a: "atoms (drop i pat) = a # atoms (drop i' pat)" "a \<noteq> Star" "i < i'" "i' \<le> length pat"
          "match_one pat i text t ci = Some (atom_ok ci a (text ! t), i', t + 1)"
          using match_one_atom [OF i t] no_star by blast
        show ?thesis
        proof (cases "atom_ok ci a (text ! t)")
          case True
          have "glob_loop pat text ci i t star_i star_t = glob_loop pat text ci i' (t + 1) star_i star_t"
            using t i no_star a(5) True by (subst glob_loop.simps) simp
          then show ?thesis
            using "1.hyps" [of star_t i'] glob_inv_match [OF "1.prems" t a(1,2,4) True] a(3,4) by auto
        next
          case False
          have "\<not> matches ci (atoms (drop i pat)) (drop t text)"
            using False a(1,2) t Cons_nth_drop_Suc [of t "text", symmetric] by simp
          then show ?thesis
            by (rule mismatch) (use t i no_star a(5) False in \<open>subst glob_loop.simps, simp\<close>)
        qed
      next
        case False
        have "\<not> matches ci (atoms (drop i pat)) (drop t text)" using False b t by simp
        then show ?thesis
          by (rule mismatch) (use t False in \<open>subst glob_loop.simps, simp\<close>)
      qed
    qed
  qed
qed

lemma skip_stars_matches:
  "i \<le> length pat \<Longrightarrow> skip_stars pat i = length pat \<longleftrightarrow> matches ci (atoms (drop i pat)) []"
proof (induction pat i rule: skip_stars.induct)
  case (1 pat i)
  show ?case
  proof (cases "i < length pat \<and> pat ! i = CHR ''*''")
    case True
    then have "atoms (drop i pat) = Star # atoms (drop (i + 1) pat)"
      using Cons_nth_drop_Suc [of i pat, symmetric] by simp
    then show ?thesis using 1 True by (subst skip_stars.simps) auto
  next
    case False
    have "\<not> matches ci (atoms (drop i pat)) []" if i: "i < length pat"
    proof -
      obtain a as where "atoms (drop i pat) = a # as" "a \<noteq> Star"
        by (rule match_one_atom [of i pat 0 "[CHR ''a'']"]) (use i False in auto)
      then show ?thesis by simp
    qed
    moreover have "skip_stars pat i = i" using False by (subst skip_stars.simps) auto
    moreover have "matches ci (atoms (drop i pat)) []" if "i = length pat" using that by simp
    ultimately show ?thesis using "1.prems" by (metis le_neq_implies_less)
  qed
qed

lemma glob_match_lang: "glob_match pat text ci = Some (matches ci (atoms pat) text)"
proof -
  have "glob_inv pat text ci 0 0 (length pat) 0" by (simp add: glob_inv_def)
  then obtain r where "glob_loop pat text ci 0 0 (length pat) 0 = Some r"
    "case r of None \<Rightarrow> \<not> matches ci (atoms pat) text
     | Some j \<Rightarrow> j \<le> length pat \<and> matches ci (atoms pat) text = matches ci (atoms (drop j pat)) []"
    using glob_loop_correct by blast
  then show ?thesis using skip_stars_matches [of _ pat ci] by (auto simp: glob_match_def split: option.splits)
qed

text \<open>
  Property C17.
  The wildcard matcher reads inside both strings, always returns, and returns whether the text
  is in the language of the pattern: \<^verbatim>\<open>*\<close> stands for any characters, \<^verbatim>\<open>?\<close> for one, a bracket for the
  characters in (or, after \<^verbatim>\<open>!\<close> or \<^verbatim>\<open>^\<close>, not in) its ranges, everything else for itself; all up to the case of
  letters if the caller asks for it. Going back only to the last star never misses a match.
\<close>

theorem glob_match_correct: "glob_match pat text ci = Some (matches ci (atoms pat) text)"
  by (rule glob_match_lang)

text \<open>
  Two places where the matcher differs from \<^verbatim>\<open>fnmatch\<close>, which it is said to mirror: a closing bracket
  right behind the opening one ends the class instead of belonging to it, and a bracket that is never
  closed is a class and not an ordinary character.
\<close>

lemma glob_bracket_differs:
  "glob_match ''[]]'' '']'' False = Some False" "glob_match ''[a'' ''[a'' False = Some False"
  "glob_match ''[a'' ''a'' False = Some True"
  by (simp_all add: glob_match_lang class_start_def range_end_def fold_ci_def)

end
