(* ===== verification/Gitignore.thy ===== *)
theory Gitignore
  imports Glob "HOL-Library.Sublist"
begin

text \<open>
  The ignore rules of \<^verbatim>\<open>src/runtime/glob/gitignore.cpp\<close>: reading a \<^verbatim>\<open>.gitignore\<close> file and deciding whether a
  path is ignored. Paths and patterns are strings; a
  \<^verbatim>\<open>string_view\<close> into a path is an offset and a length. The searches of \<^verbatim>\<open>std::string_view\<close> return \<open>None\<close> for
  \<^verbatim>\<open>npos\<close>; a \<^verbatim>\<open>substr\<close> that starts behind the end makes the whole result \<open>None\<close>.
\<close>

section \<open>String views\<close>

text \<open>\<^verbatim>\<open>s.find (sub, start)\<close>\<close>

function sv_find :: "string \<Rightarrow> string \<Rightarrow> nat \<Rightarrow> nat option" where
  "sv_find s sub start =
     (if length s < start + length sub then None
      else if take (length sub) (drop start s) = sub then Some start
      else sv_find s sub (start + 1))"
  by pat_completeness auto
termination
  by (relation "measure (\<lambda>(s, sub, start). length s + 1 - start)") auto

text \<open>\<^verbatim>\<open>s.find_last_of (c)\<close>\<close>

fun sv_find_last_of :: "string \<Rightarrow> char \<Rightarrow> nat option" where
  "sv_find_last_of [] c = None"
| "sv_find_last_of (d # ds) c =
     (case sv_find_last_of ds c of Some i \<Rightarrow> Some (i + 1) | None \<Rightarrow> if d = c then Some 0 else None)"

definition sv_substr :: "string \<Rightarrow> nat \<Rightarrow> nat \<Rightarrow> string option" where
  "sv_substr s pos n = (if pos \<le> length s then Some (take n (drop pos s)) else None)"

text \<open>\<^verbatim>\<open>s.compare (pos, lit.size (), lit) == 0\<close>\<close>

definition sv_has_at :: "string \<Rightarrow> nat \<Rightarrow> string \<Rightarrow> bool option" where
  "sv_has_at s pos lit = map_option (\<lambda>x. x = lit) (sv_substr s pos (length lit))"

definition isspace :: "char \<Rightarrow> bool" where
  "isspace c = (of_char c = (32::nat) \<or> 9 \<le> (of_char c :: nat) \<and> (of_char c :: nat) \<le> 13)"

section \<open>Helpers\<close>

definition rstrip :: "string \<Rightarrow> string" where
  "rstrip s = rev (dropWhile isspace (rev s))"

abbreviation slash :: char where "slash \<equiv> CHR ''/''"
abbreviation backslash :: char where "backslash \<equiv> CHR 0x5C"

definition normalize_slashes :: "string \<Rightarrow> string" where
  "normalize_slashes s = map (\<lambda>c. if c = backslash then slash else c) s"

definition normalized_view :: "string \<Rightarrow> string" where
  "normalized_view p = (if sv_find p [backslash] 0 = None then p else normalize_slashes p)"

text \<open>The loop of \<^verbatim>\<open>split_path\<close>: offset and length of the parts that are not empty.\<close>

function split_loop :: "string \<Rightarrow> nat \<Rightarrow> nat \<Rightarrow> (nat \<times> nat) list" where
  "split_loop s i start =
     (if i \<le> length s then
        if i = length s \<or> s ! i = slash then
          (if start < i then [(start, i - start)] else []) @ split_loop s (i + 1) (i + 1)
        else split_loop s (i + 1) start
      else [])"
  by pat_completeness auto
termination
  by (relation "measure (\<lambda>(s, i, start). length s + 1 - i)") auto

definition split_path :: "string \<Rightarrow> (nat \<times> nat) list" where
  "split_path s = split_loop s 0 0"

definition part :: "string \<Rightarrow> nat \<times> nat \<Rightarrow> string" where
  "part s p = take (snd p) (drop (fst p) s)"

text \<open>\<^verbatim>\<open>join_path (parts, a, b)\<close> on the parts of \<open>s\<close>\<close>

definition join_path :: "string \<Rightarrow> (nat \<times> nat) list \<Rightarrow> nat \<Rightarrow> nat \<Rightarrow> string option" where
  "join_path s parts a b =
     fold (\<lambda>i out. do { out \<leftarrow> out; p \<leftarrow> rd parts i; Some ((if a < i then out @ [slash] else out) @ part s p) })
       [a..<b] (Some [])"

section \<open>Matching one rule\<close>

record gitignore_rule =
  pattern :: string
  negated :: bool
  anchored :: bool
  dir_only :: bool

text \<open>The loop of \<^verbatim>\<open>match_unanchored\<close> over the directory components.\<close>

function unanchored_loop :: "string \<Rightarrow> string \<Rightarrow> bool \<Rightarrow> nat \<Rightarrow> bool option" where
  "unanchored_loop pat text ci start =
     (case sv_find text [slash] start of
        None \<Rightarrow> Some False
      | Some sl \<Rightarrow>
          if start \<le> sl \<and> sl < length text then do {
            comp \<leftarrow> sv_substr text start (sl - start);
            m \<leftarrow> glob_match pat comp ci;
            if m then Some True else unanchored_loop pat text ci (sl + 1)
          } else None)"
  by pat_completeness auto
termination
  by (relation "measure (\<lambda>(pat, text, ci, start). length text - start)") auto

definition match_unanchored :: "string \<Rightarrow> string \<Rightarrow> bool \<Rightarrow> bool option" where
  "match_unanchored pat text ci =
     do {
       basename \<leftarrow> (case sv_find_last_of text slash of
                      None \<Rightarrow> Some text
                    | Some i \<Rightarrow> sv_substr text (i + 1) (length text));
       m \<leftarrow> glob_match pat basename ci;
       if m then Some True else unanchored_loop pat text ci 0
     }"

text \<open>
  The loop over the parts in \<^verbatim>\<open>match_double_star\<close>: does \<open>suff\<close> match the path from one of the parts on, or
  the last part?
\<close>

fun sub_loop :: "string \<Rightarrow> string \<Rightarrow> (nat \<times> nat) list \<Rightarrow> (nat \<times> nat) list \<Rightarrow> bool \<Rightarrow> bool option" where
  "sub_loop suff path all [] ci = Some False"
| "sub_loop suff path all (p # ps) ci =
     do {
       m \<leftarrow> glob_match suff (drop (fst p) path) ci;
       if m then Some True
       else do {
         m \<leftarrow> glob_match suff (part path (last all)) ci;
         if m then Some True else sub_loop suff path all ps ci
       }
     }"

text \<open>\<^verbatim>\<open>rel_path\<close> below the directory \<open>pre\<close>: what follows the slash.\<close>

definition below_dir :: "string \<Rightarrow> string \<Rightarrow> string option option" where
  "below_dir pre path =
     (if length pre + 1 \<le> length path then do {
        b \<leftarrow> sv_has_at path 0 pre;
        c \<leftarrow> rd path (length pre);
        if b \<and> c = slash then do { r \<leftarrow> sv_substr path (length pre + 1) (length path); Some (Some r) } else Some None
      } else Some None)"

definition match_double_star :: "string \<Rightarrow> string \<Rightarrow> bool \<Rightarrow> bool option" where
  "match_double_star pat path ci =
     (if pat = ''**'' then Some True
      else do {
        let parts = split_path path;
        pre \<leftarrow> (if 3 \<le> length pat then sv_has_at pat 0 ''**/'' else Some False);
        if pre then do { suff \<leftarrow> sv_substr pat 3 (length pat); sub_loop suff path parts parts ci }
        else do {
          post \<leftarrow> (if 3 \<le> length pat then sv_has_at pat (length pat - 3) ''/**'' else Some False);
          if post then do {
            prefx \<leftarrow> sv_substr pat 0 (length pat - 3);
            r \<leftarrow> below_dir prefx path;
            Some (if r \<noteq> None then True else path = prefx)
          }
          else case sv_find pat ''/**/'' 0 of
            Some ds \<Rightarrow> do {
              prefx \<leftarrow> sv_substr pat 0 ds;
              suff \<leftarrow> sv_substr pat (ds + 4) (length pat);
              r \<leftarrow> below_dir prefx path;
              case (if r \<noteq> None then r else if path = prefx then Some [] else None) of
                Some rest \<Rightarrow>
                  if suff = [] then Some True
                  else sub_loop suff rest (split_path rest) (split_path rest) ci
              | None \<Rightarrow> Some False
            }
          | None \<Rightarrow> do {
              m \<leftarrow> glob_match pat path ci;
              if m then Some True
              else if parts \<noteq> [] then glob_match pat (part path (last parts)) ci
              else Some False
            }
        }
      })"

text \<open>\<^verbatim>\<open>gitignore_match_internal\<close> behind its first block.\<close>

definition match_pattern :: "string \<Rightarrow> gitignore_rule \<Rightarrow> bool \<Rightarrow> bool option" where
  "match_pattern path rule ci =
     (if sv_find (pattern rule) ''**'' 0 \<noteq> None then match_double_star (pattern rule) path ci
      else if anchored rule then glob_match (pattern rule) path ci
      else match_unanchored (pattern rule) path ci)"

text \<open>
  The loop over the ancestor directories. Its recursive call of \<^verbatim>\<open>gitignore_match_internal\<close> is for a
  directory and so does not come back to the loop.
\<close>

function ancestor_loop :: "string \<Rightarrow> gitignore_rule \<Rightarrow> bool \<Rightarrow> nat \<Rightarrow> bool option" where
  "ancestor_loop path rule ci from =
     (case sv_find path [slash] from of
        None \<Rightarrow> Some False
      | Some pos \<Rightarrow>
          if from \<le> pos \<and> pos < length path then do {
            dir \<leftarrow> sv_substr path 0 pos;
            m \<leftarrow> match_pattern dir rule ci;
            if m then Some True else ancestor_loop path rule ci (pos + 1)
          } else None)"
  by pat_completeness auto
termination
  by (relation "measure (\<lambda>(path, rule, ci, from). length path - from)") auto

definition gitignore_match_internal :: "string \<Rightarrow> bool \<Rightarrow> gitignore_rule \<Rightarrow> bool \<Rightarrow> bool option" where
  "gitignore_match_internal path is_dir rule ci =
     (if dir_only rule \<and> \<not> is_dir then ancestor_loop path rule ci 0 else match_pattern path rule ci)"

fun is_ignored_path_normalized :: "string \<Rightarrow> bool \<Rightarrow> gitignore_rule list \<Rightarrow> bool \<Rightarrow> bool \<Rightarrow> bool option" where
  "is_ignored_path_normalized path is_dir [] ci ignored = Some ignored"
| "is_ignored_path_normalized path is_dir (rule # rules) ci ignored =
     do {
       m \<leftarrow> gitignore_match_internal path is_dir rule ci;
       is_ignored_path_normalized path is_dir rules ci (if m then \<not> negated rule else ignored)
     }"

definition gitignore_match :: "string \<Rightarrow> bool \<Rightarrow> gitignore_rule \<Rightarrow> bool \<Rightarrow> bool option" where
  "gitignore_match path is_dir rule ci = gitignore_match_internal (normalized_view path) is_dir rule ci"

definition is_ignored_path :: "string \<Rightarrow> bool \<Rightarrow> gitignore_rule list \<Rightarrow> bool \<Rightarrow> bool option" where
  "is_ignored_path path is_dir rules ci = is_ignored_path_normalized (normalized_view path) is_dir rules ci False"

definition filter_paths :: "string list \<Rightarrow> bool list \<Rightarrow> gitignore_rule list \<Rightarrow> bool \<Rightarrow> bool list option" where
  "filter_paths paths is_dir_mask rules ci =
     fold (\<lambda>i out. do {
         out \<leftarrow> out;
         p \<leftarrow> rd paths i;
         is_dir \<leftarrow> (if i < length is_dir_mask then rd is_dir_mask i else Some False);
         b \<leftarrow> is_ignored_path_normalized (normalized_view p) is_dir rules ci False;
         wr out i b
       }) [0..<length paths] (Some (replicate (length paths) False))"

declare sv_find.simps [simp del] split_loop.simps [simp del] unanchored_loop.simps [simp del] ancestor_loop.simps [simp del]

section \<open>Reading a file of rules\<close>

text \<open>Line ends \<^verbatim>\<open>\r\n\<close> and \<^verbatim>\<open>\r\<close> become \<^verbatim>\<open>\n\<close>.\<close>

abbreviation cr :: char where "cr \<equiv> CHR 0x0D"
abbreviation nl :: char where "nl \<equiv> CHR 0x0A"

function cr_loop :: "string \<Rightarrow> nat \<Rightarrow> string" where
  "cr_loop s i =
     (if i < length s then
        if s ! i = cr then
          if i + 1 < length s \<and> s ! (i + 1) = nl then nl # cr_loop s (i + 2) else nl # cr_loop s (i + 1)
        else s ! i # cr_loop s (i + 1)
      else [])"
  by pat_completeness auto
termination
  by (relation "measure (\<lambda>(s, i). length s - i)") auto

text \<open>One line: the rule it stands for, if any.\<close>

definition parse_line :: "string \<Rightarrow> gitignore_rule option" where
  "parse_line line =
     (let line = rstrip line in
      if line = [] \<or> hd line = CHR ''#'' then None
      else
        let negated = (hd line = CHR ''!'');
            line = (if negated then tl line else line) in
        if line = [] then None
        else
          let dir_only = (last line = slash);
              line = (if dir_only then butlast line else line);
              anchored = (sv_find line [slash] 0 \<noteq> None);
              rooted = (line \<noteq> [] \<and> hd line = slash);
              line = (if rooted then tl line else line) in
          Some \<lparr>pattern = line, negated = negated, anchored = anchored \<or> rooted, dir_only = dir_only\<rparr>)"

function line_loop :: "string \<Rightarrow> nat \<Rightarrow> gitignore_rule list option" where
  "line_loop s start =
     (if start \<le> length s then
        let e = (case sv_find s [nl] start of None \<Rightarrow> length s | Some e \<Rightarrow> e) in
        if start \<le> e \<and> e \<le> length s then do {
          rules \<leftarrow> line_loop s (e + 1);
          Some (case parse_line (take (e - start) (drop start s)) of None \<Rightarrow> rules | Some r \<Rightarrow> r # rules)
        } else None
      else Some [])"
  by pat_completeness auto
termination
  by (relation "measure (\<lambda>(s, start). length s + 1 - start)") auto

definition parse_gitignore :: "string \<Rightarrow> gitignore_rule list option" where
  "parse_gitignore s = line_loop (if sv_find s [cr] 0 \<noteq> None then cr_loop s 0 else s) 0"

declare cr_loop.simps [simp del] line_loop.simps [simp del]

end
