(* ===== verification/Gitignore_Ok.thy ===== *)
theory Gitignore_Ok
  imports Gitignore
begin

text \<open>
  What the ignore rules mean. A path is a list of components; \<open>rule_ignores\<close> says which component lists
  a rule selects, in terms of the language of its pattern, and the matcher of \<open>Gitignore\<close>, which works on
  offsets into the path, is shown to decide it. The last rule that selects a path decides whether it is
  ignored. A file of rules is read line by line.
\<close>

section \<open>Components\<close>

text \<open>A string cut at every separator; empty fields count.\<close>

fun cut :: "char \<Rightarrow> string \<Rightarrow> string list" where
  "cut d [] = [[]]"
| "cut d (c # cs) = (if c = d then [] # cut d cs else (c # hd (cut d cs)) # tl (cut d cs))"

fun join :: "string list \<Rightarrow> string" where
  "join [] = []"
| "join [c] = c"
| "join (c # cs) = c @ slash # join cs"

lemma cut_not_Nil [simp]: "cut d s \<noteq> []"
  by (induction s) auto

lemma cut_single: "cut d s = [f] \<Longrightarrow> d \<notin> set s"
proof (induction s arbitrary: f)
  case (Cons c s)
  then show ?case by (cases "cut d s") (auto split: if_splits)
qed simp

lemma cut_append: "cut d (u @ d # v) = cut d u @ cut d v"
  by (induction u) auto

lemma cut_no_sep: "d \<notin> set s \<Longrightarrow> cut d s = [s]"
  by (induction s) auto

lemma cut_first: "d \<notin> set u \<Longrightarrow> cut d (u @ d # v) = u # cut d v"
  by (simp add: cut_append cut_no_sep)

lemma join_Cons: "cs \<noteq> [] \<Longrightarrow> join (c # cs) = c @ slash # join cs"
  by (cases cs) auto

lemma join_cut: "join (cut slash s) = s"
proof (induction s)
  case (Cons c s)
  obtain f fs where "cut slash s = f # fs" by (cases "cut slash s") auto
  then show ?case using Cons by (cases fs) auto
qed simp

definition wf_comps :: "string list \<Rightarrow> bool" where
  "wf_comps cs \<longleftrightarrow> cs \<noteq> [] \<and> (\<forall>c \<in> set cs. c \<noteq> [] \<and> slash \<notin> set c \<and> backslash \<notin> set c)"

lemma cut_join: "cs \<noteq> [] \<Longrightarrow> \<forall>c \<in> set cs. slash \<notin> set c \<Longrightarrow> cut slash (join cs) = cs"
  by (induction cs rule: join.induct) (auto simp: cut_no_sep cut_first)

lemma wf_cut: "wf_comps cs \<Longrightarrow> cut slash (join cs) = cs"
  by (auto simp: wf_comps_def intro: cut_join)

section \<open>Searching\<close>

definition occurs_at :: "string \<Rightarrow> string \<Rightarrow> nat \<Rightarrow> bool" where
  "occurs_at s sub i \<longleftrightarrow> i + length sub \<le> length s \<and> take (length sub) (drop i s) = sub"

lemma occurs_at_char: "occurs_at s [d] i \<longleftrightarrow> i < length s \<and> s ! i = d"
  by (auto simp: occurs_at_def take_Suc_conv_app_nth hd_drop_conv_nth take_Suc)

lemma occurs_at_split: "occurs_at s sub i \<longleftrightarrow> (\<exists>u v. s = u @ sub @ v \<and> length u = i)"
proof
  assume "occurs_at s sub i"
  then have "s = take i s @ sub @ drop (i + length sub) s" "length (take i s) = i"
    by (auto simp: occurs_at_def) (metis append_take_drop_id drop_drop add.commute)
  then show "\<exists>u v. s = u @ sub @ v \<and> length u = i" by blast
qed (auto simp: occurs_at_def)

lemma sv_find_first:
  "(sv_find s sub start = None \<longrightarrow> (\<forall>i \<ge> start. \<not> occurs_at s sub i)) \<and>
   (\<forall>i. sv_find s sub start = Some i \<longrightarrow> start \<le> i \<and> occurs_at s sub i \<and> (\<forall>j. start \<le> j \<and> j < i \<longrightarrow> \<not> occurs_at s sub j))"
proof (induction s sub start rule: sv_find.induct)
  case (1 s sub start)
  show ?case
  proof (cases "length s < start + length sub \<or> occurs_at s sub start")
    case True
    then show ?thesis by (subst (1 2) sv_find.simps) (auto simp: occurs_at_def)
  next
    case False
    then have f: "\<not> length s < start + length sub" "\<not> take (length sub) (drop start s) = sub"
      by (auto simp: occurs_at_def)
    then have eq: "sv_find s sub start = sv_find s sub (start + 1)" by (subst sv_find.simps) simp
    have split: "(\<forall>i. start \<le> i \<and> Q i \<longrightarrow> \<not> occurs_at s sub i) \<longleftrightarrow> (\<forall>i. start + 1 \<le> i \<and> Q i \<longrightarrow> \<not> occurs_at s sub i)" for Q
      using False by (metis Suc_eq_plus1 Suc_leD Suc_leI le_neq_implies_less)
    show ?thesis
      using "1.IH" [OF f] split [of "\<lambda>i. True"] split [of "\<lambda>j. j < i" for i] unfolding eq by (auto dest: Suc_leD)
  qed
qed

lemma sv_find_SomeD:
  assumes "sv_find s [d] start = Some i"
  shows "start \<le> i" "i < length s" "drop start s = take (i - start) (drop start s) @ d # drop (i + 1) s"
    "d \<notin> set (take (i - start) (drop start s))"
proof -
  have f: "start \<le> i" "i < length s" "s ! i = d" "\<And>j. start \<le> j \<Longrightarrow> j < i \<Longrightarrow> s ! j \<noteq> d"
    using sv_find_first [of s "[d]" start] assms by (auto simp: occurs_at_char)
  show "start \<le> i" "i < length s" using f by auto
  have "drop (i - start) (drop start s) = d # drop (i + 1) s" using f Cons_nth_drop_Suc [of i s] by simp
  then show "drop start s = take (i - start) (drop start s) @ d # drop (i + 1) s"
    by (metis append_take_drop_id)
  show "d \<notin> set (take (i - start) (drop start s))"
    using f(2,4) by (auto simp: in_set_conv_nth)
qed

lemma sv_find_NoneD: "sv_find s [d] start = None \<Longrightarrow> d \<notin> set (drop start s)"
  using sv_find_first [of s "[d]" start] by (auto simp: occurs_at_char in_set_conv_nth)

lemma sv_find_char_None: "sv_find s [d] 0 = None \<longleftrightarrow> d \<notin> set s"
proof (cases "sv_find s [d] 0")
  case (Some i)
  then show ?thesis using sv_find_SomeD(3) [OF Some] by (metis append_Cons drop_0 in_set_conv_decomp option.distinct(1))
qed (use sv_find_NoneD [of s d 0] in simp)

section \<open>One pattern\<close>

abbreviation lang :: "bool \<Rightarrow> string \<Rightarrow> string \<Rightarrow> bool" where
  "lang ci pat t \<equiv> matches ci (atoms pat) t"

lemma last_cut:
  "last (cut slash t) = (case sv_find_last_of t slash of None \<Rightarrow> t | Some i \<Rightarrow> drop (i + 1) t) \<and>
   (sv_find_last_of t slash = None \<longleftrightarrow> slash \<notin> set t) \<and>
   (\<forall>i. sv_find_last_of t slash = Some i \<longrightarrow> i < length t)"
proof (induction t)
  case (Cons c t)
  obtain f fs where "cut slash t = f # fs" by (cases "cut slash t") auto
  then show ?case using Cons cut_no_sep [of slash t] cut_single [of slash t f] by (cases fs) (auto split: option.splits)
qed simp

lemma unanchored_loop_cut:
  "start \<le> length t \<Longrightarrow> unanchored_loop pat t ci start = Some (\<exists>f \<in> set (butlast (cut slash (drop start t))). lang ci pat f)"
proof (induction pat t ci start rule: unanchored_loop.induct)
  case (1 pat t ci start)
  show ?case
  proof (cases "sv_find t [slash] start")
    case None
    then show ?thesis using sv_find_NoneD [OF None] by (subst unanchored_loop.simps) (simp add: cut_no_sep)
  next
    case (Some sl)
    note f = sv_find_SomeD [OF Some]
    have "cut slash (drop start t) = take (sl - start) (drop start t) # cut slash (drop (sl + 1) t)"
      by (subst f(3)) (rule cut_first [OF f(4)])
    moreover have "unanchored_loop pat t ci (sl + 1) = Some (\<exists>f \<in> set (butlast (cut slash (drop (sl + 1) t))). lang ci pat f)"
      if "\<not> lang ci pat (take (sl - start) (drop start t))"
      using "1.IH" [OF Some, of "take (sl - start) (drop start t)" False] f "1.prems" that
      by (simp add: sv_substr_def glob_match_lang)
    ultimately show ?thesis using Some f "1.prems"
      by (subst unanchored_loop.simps) (auto simp: sv_substr_def glob_match_lang)
  qed
qed

lemma match_unanchored_cut:
  "match_unanchored pat t ci = Some (\<exists>f \<in> set (cut slash t). lang ci pat f)"
proof -
  have "(case sv_find_last_of t slash of None \<Rightarrow> Some t | Some i \<Rightarrow> sv_substr t (i + 1) (length t)) = Some (last (cut slash t))"
    using last_cut [of t] by (auto simp: sv_substr_def split: option.splits)
  moreover have "set (cut slash t) = insert (last (cut slash t)) (set (butlast (cut slash t)))"
    by (metis append_butlast_last_id cut_not_Nil list.set(2) rotate1.simps(2) set_rotate1)
  ultimately show ?thesis
    using unanchored_loop_cut [of 0 t pat ci] by (simp add: match_unanchored_def glob_match_lang)
qed

text \<open>The offsets and lengths of the fields that are not empty.\<close>

fun offsets :: "nat \<Rightarrow> string list \<Rightarrow> (nat \<times> nat) list" where
  "offsets n [] = []"
| "offsets n (f # fs) = (if f \<noteq> [] then [(n, length f)] else []) @ offsets (n + length f + 1) fs"

lemma split_loop_cut:
  "start \<le> i \<Longrightarrow> i \<le> length s \<Longrightarrow> slash \<notin> set (take (i - start) (drop start s)) \<Longrightarrow>
   split_loop s i start = offsets start (cut slash (drop start s))"
proof (induction s i start rule: split_loop.induct)
  case (1 s i start)
  let ?u = "take (i - start) (drop start s)"
  show ?case
  proof (cases "i = length s")
    case True
    then have "split_loop s i start = (if start < i then [(start, i - start)] else [])"
      by (subst split_loop.simps, subst split_loop.simps) simp
    then show ?thesis using True "1.prems" by (simp add: cut_no_sep)
  next
    case False
    then have i: "i < length s" using "1.prems" by simp
    then have d: "drop start s = ?u @ s ! i # drop (i + 1) s"
      using "1.prems" Cons_nth_drop_Suc [of i s] append_take_drop_id [of "i - start" "drop start s"] by simp
    show ?thesis
    proof (cases "s ! i = slash")
      case True
      then have "split_loop s i start = (if start < i then [(start, i - start)] else []) @ split_loop s (i + 1) (i + 1)"
        using i by (subst split_loop.simps) simp
      moreover have "split_loop s (i + 1) (i + 1) = offsets (i + 1) (cut slash (drop (i + 1) s))"
        using "1.IH"(1) i True by simp
      moreover have "cut slash (drop start s) = ?u # cut slash (drop (i + 1) s)"
        using "1.prems"(3) cut_first [of slash ?u "drop (i + 1) s"] d True by simp
      ultimately show ?thesis using "1.prems" i by (auto simp: min_def)
    next
      case False
      have "take (i + 1 - start) (drop start s) = ?u @ [s ! i]"
        using "1.prems"(1) i take_Suc_conv_app_nth [of "i - start" "drop start s"] by (simp add: Suc_diff_le)
      then have "split_loop s (i + 1) start = offsets start (cut slash (drop start s))"
        using "1.IH"(2) "1.prems" i False by simp
      moreover have "split_loop s i start = split_loop s (i + 1) start"
        using i False by (subst split_loop.simps) simp
      ultimately show ?thesis by simp
    qed
  qed
qed

lemma split_path_cut: "split_path s = offsets 0 (cut slash s)"
  unfolding split_path_def by (subst split_loop_cut) auto

lemma wf_drop: "wf_comps cs \<Longrightarrow> k < length cs \<Longrightarrow> wf_comps (drop k cs)"
  by (auto simp: wf_comps_def dest: in_set_dropD)

lemma offsets_parts:
  "\<forall>c \<in> set cs. c \<noteq> [] \<Longrightarrow> cs \<noteq> [] \<Longrightarrow>
   offsets (length pre) cs \<noteq> [] \<and> part (pre @ join cs) (last (offsets (length pre) cs)) = last cs"
proof (induction cs arbitrary: pre)
  case (Cons c cs)
  show ?case
  proof (cases "cs = []")
    case True
    then show ?thesis using Cons.prems by (simp add: part_def)
  next
    case False
    then have "offsets (length pre + length c + 1) cs \<noteq> []"
      "part (pre @ join (c # cs)) (last (offsets (length pre + length c + 1) cs)) = last cs"
      using Cons.IH [of "pre @ c @ [slash]"] Cons.prems by (auto simp: join_Cons)
    then show ?thesis using False by simp
  qed
qed simp

lemma sub_loop_join:
  assumes "\<forall>c \<in> set cs. c \<noteq> []"
  shows "sub_loop suff (pre @ join cs) all (offsets (length pre) cs) ci =
    Some (cs \<noteq> [] \<and> lang ci suff (part (pre @ join cs) (last all)) \<or> (\<exists>k < length cs. lang ci suff (join (drop k cs))))"
  using assms
proof (induction cs arbitrary: pre)
  case (Cons c cs)
  have ex: "(\<exists>k < length (c # cs). lang ci suff (join (drop k (c # cs)))) \<longleftrightarrow>
      lang ci suff (join (c # cs)) \<or> (\<exists>k < length cs. lang ci suff (join (drop k cs)))"
    by (auto simp: less_Suc_eq_0_disj)
  have "sub_loop suff (pre @ join (c # cs)) all (offsets (length pre + length c + 1) cs) ci =
    Some (cs \<noteq> [] \<and> lang ci suff (part (pre @ join (c # cs)) (last all)) \<or> (\<exists>k < length cs. lang ci suff (join (drop k cs))))"
  proof (cases "cs = []")
    case False
    then show ?thesis using Cons.IH [of "pre @ c @ [slash]"] Cons.prems by (simp add: join_Cons)
  qed simp
  then show ?case unfolding ex using Cons.prems by (simp add: glob_match_lang)
qed simp

text \<open>The parts of a path below a directory.\<close>

lemma sub_loop_path:
  assumes "\<forall>c \<in> set (cut slash t). c \<noteq> []"
  shows "sub_loop suff t (split_path t) (split_path t) ci =
    Some (\<exists>k < length (cut slash t). lang ci suff (join (drop k (cut slash t))))"
proof -
  let ?cs = "cut slash t"
  have "part t (last (offsets 0 ?cs)) = join (drop (length ?cs - 1) ?cs)"
  proof -
    have "drop (length ?cs - 1) ?cs = [last ?cs]"
      using append_butlast_last_id [of ?cs] by (metis append_eq_conv_conj cut_not_Nil length_butlast)
    then show ?thesis using offsets_parts [of ?cs "[]"] assms by (simp add: join_cut)
  qed
  then have "lang ci suff (part t (last (offsets 0 ?cs))) \<Longrightarrow> \<exists>k < length ?cs. lang ci suff (join (drop k ?cs))"
    by (intro exI [of _ "length ?cs - 1"]) simp
  then show ?thesis
    using sub_loop_join [of ?cs suff "[]" "offsets 0 ?cs" ci] assms unfolding split_path_cut by (auto simp: join_cut)
qed

lemma below_dir_eq: "below_dir pre t = Some (if \<exists>rest. t = pre @ slash # rest then Some (drop (length pre + 1) t) else None)"
proof -
  have "(\<exists>rest. t = pre @ slash # rest) \<longleftrightarrow> length pre + 1 \<le> length t \<and> take (length pre) t = pre \<and> t ! length pre = slash"
  proof
    assume r: "length pre + 1 \<le> length t \<and> take (length pre) t = pre \<and> t ! length pre = slash"
    then have "t = pre @ slash # drop (length pre + 1) t"
      using append_take_drop_id [of "length pre" t] Cons_nth_drop_Suc [of "length pre" t] by simp
    then show "\<exists>rest. t = pre @ slash # rest" by blast
  qed auto
  then show ?thesis by (auto simp: below_dir_def sv_has_at_def sv_substr_def)
qed

section \<open>What a rule selects\<close>

text \<open>The first occurrence of \<open>sub\<close>: what is before and what is behind it.\<close>

definition first_occ :: "string \<Rightarrow> string \<Rightarrow> string \<Rightarrow> string \<Rightarrow> bool" where
  "first_occ sub p q s \<longleftrightarrow> p = q @ sub @ s \<and> (\<forall>q' s'. p = q' @ sub @ s' \<longrightarrow> length q \<le> length q')"

text \<open>Some path of components that ends \<open>cs\<close> is in the language of \<open>pat\<close>.\<close>

definition tail_in :: "bool \<Rightarrow> string \<Rightarrow> string list \<Rightarrow> bool" where
  "tail_in ci pat cs \<longleftrightarrow> (\<exists>k < length cs. lang ci pat (join (drop k cs)))"

definition double_star_selects :: "bool \<Rightarrow> string \<Rightarrow> string list \<Rightarrow> bool" where
  "double_star_selects ci p cs \<longleftrightarrow>
     (if p = ''**'' then True
      else if prefix ''**/'' p then tail_in ci (drop 3 p) cs
      else if suffix ''/**'' p then
        \<exists>dir. p = dir @ ''/**'' \<and> (join cs = dir \<or> (\<exists>rest. join cs = dir @ slash # rest))
      else if sublist ''/**/'' p then
        \<exists>dir s. first_occ ''/**/'' p dir s \<and>
          (s = [] \<and> join cs = dir \<or> (\<exists>rest. join cs = dir @ slash # rest \<and> (s = [] \<or> tail_in ci s (cut slash rest))))
      else lang ci p (join cs) \<or> lang ci p (last cs))"

definition pattern_selects :: "bool \<Rightarrow> gitignore_rule \<Rightarrow> string list \<Rightarrow> bool" where
  "pattern_selects ci rule cs \<longleftrightarrow>
     (if sublist ''**'' (pattern rule) then double_star_selects ci (pattern rule) cs
      else if anchored rule then lang ci (pattern rule) (join cs)
      else \<exists>c \<in> set cs. lang ci (pattern rule) c)"

definition rule_selects :: "bool \<Rightarrow> gitignore_rule \<Rightarrow> string list \<Rightarrow> bool \<Rightarrow> bool" where
  "rule_selects ci rule cs is_dir \<longleftrightarrow>
     (if dir_only rule \<and> \<not> is_dir then \<exists>k. 0 < k \<and> k < length cs \<and> pattern_selects ci rule (take k cs)
      else pattern_selects ci rule cs)"

lemma sv_find_sublist: "sv_find p sub 0 \<noteq> None \<longleftrightarrow> sublist sub p"
proof -
  have "(\<exists>i. occurs_at p sub i) \<longleftrightarrow> sublist sub p"
    by (auto simp: occurs_at_split sublist_def)
  then show ?thesis using sv_find_first [of p sub 0] by auto
qed

lemma sv_find_first_occ:
  assumes "sv_find p sub 0 = Some i"
  shows "first_occ sub p q s \<longleftrightarrow> q = take i p \<and> s = drop (i + length sub) p"
proof -
  have i: "occurs_at p sub i" "\<And>j. j < i \<Longrightarrow> \<not> occurs_at p sub j" using sv_find_first [of p sub 0] assms by auto
  then have "p = take i p @ sub @ drop (i + length sub) p" "length (take i p) = i"
    by (auto simp: occurs_at_split)
  moreover have "i \<le> length q'" if "p = q' @ sub @ s'" for q' s'
    using i(2) [of "length q'"] that by (auto simp: occurs_at_split not_less [symmetric])
  ultimately show ?thesis unfolding first_occ_def by (auto simp: append_eq_append_conv)
qed

lemma cut_below:
  assumes "wf_comps cs" "join cs = dir @ slash # rest"
  shows "\<forall>c \<in> set (cut slash rest). c \<noteq> []"
  using wf_cut [OF assms(1)] assms cut_append [of slash dir rest] by (auto simp: wf_comps_def)

lemma join_last: "cs \<noteq> [] \<Longrightarrow> \<forall>c \<in> set cs. c \<noteq> [] \<and> slash \<notin> set c \<Longrightarrow>
   split_path (join cs) \<noteq> [] \<and> part (join cs) (last (split_path (join cs))) = last cs"
  using offsets_parts [of cs "[]"] cut_join [of cs] by (simp add: split_path_cut)

lemma double_star_prefix:
  assumes "wf_comps cs" "prefix ''**/'' p"
  shows "match_double_star p (join cs) ci = Some (tail_in ci (drop 3 p) cs)"
proof -
  obtain s where p: "p = ''**/'' @ s" using assms(2) by (auto elim: prefixE)
  have "\<forall>c \<in> set (cut slash (join cs)). c \<noteq> []" using assms(1) wf_cut [OF assms(1)] by (auto simp: wf_comps_def)
  then show ?thesis using p sub_loop_path [of "join cs" s ci] wf_cut [OF assms(1)]
    by (auto simp: match_double_star_def sv_has_at_def sv_substr_def tail_in_def Let_def)
qed

lemma has_at_prefix: "(if 3 \<le> length p then sv_has_at p 0 ''**/'' else Some False) = Some (prefix ''**/'' p)"
proof (cases "prefix ''**/'' p")
  case True
  then show ?thesis by (auto simp: sv_has_at_def sv_substr_def elim!: prefixE)
next
  case False
  then show ?thesis by (auto simp: sv_has_at_def sv_substr_def numeral_eq_Suc) (metis append_take_drop_id prefixI)
qed

lemma has_at_suffix: "(if 3 \<le> length p then sv_has_at p (length p - 3) ''/**'' else Some False) = Some (suffix ''/**'' p)"
proof (cases "suffix ''/**'' p")
  case True
  then show ?thesis by (auto simp: sv_has_at_def sv_substr_def elim!: suffixE)
next
  case False
  moreover have "suffix (drop (length p - 3) p) p" by (rule suffix_drop)
  ultimately show ?thesis by (auto simp: sv_has_at_def sv_substr_def)
qed

lemma match_double_star_selects:
  assumes wf: "wf_comps cs"
  shows "match_double_star p (join cs) ci = Some (double_star_selects ci p cs)"
proof -
  let ?t = "join cs"
  consider "p = ''**''" | "p \<noteq> ''**''" "prefix ''**/'' p"
    | "p \<noteq> ''**''" "\<not> prefix ''**/'' p" "suffix ''/**'' p"
    | i where "p \<noteq> ''**''" "\<not> prefix ''**/'' p" "\<not> suffix ''/**'' p" "sv_find p ''/**/'' 0 = Some i"
    | "p \<noteq> ''**''" "\<not> prefix ''**/'' p" "\<not> suffix ''/**'' p" "sv_find p ''/**/'' 0 = None"
    by blast
  then show ?thesis
  proof cases
    case 1
    then show ?thesis by (simp add: match_double_star_def double_star_selects_def)
  next
    case 2
    then show ?thesis using double_star_prefix [OF wf] by (simp add: double_star_selects_def)
  next
    case 3
    then obtain dir where "p = dir @ ''/**''" by (auto elim: suffixE)
    then show ?thesis using 3 has_at_prefix [of p] has_at_suffix [of p]
      by (auto simp: match_double_star_def double_star_selects_def below_dir_eq sv_substr_def Let_def)
  next
    case (4 i)
    then have i: "sublist ''/**/'' p" "i + 4 \<le> length p"
      using sv_find_sublist [of p "''/**/''"] sv_find_first [of p "''/**/''" 0] by (auto simp: occurs_at_def)
    define dir suff where ds: "dir = take i p" "suff = drop (i + 4) p"
    have occ: "first_occ ''/**/'' p q s \<longleftrightarrow> q = dir \<and> s = suff" for q s
      using sv_find_first_occ [OF 4(4), of q s] by (simp add: ds numeral_eq_Suc)
    have code: "match_double_star p ?t ci =
        (case (if \<exists>rest. ?t = dir @ slash # rest then Some (drop (length dir + 1) ?t) else if ?t = dir then Some [] else None) of
           Some rest \<Rightarrow> if suff = [] then Some True else sub_loop suff rest (split_path rest) (split_path rest) ci
         | None \<Rightarrow> Some False)"
      using 4 i has_at_prefix [of p] has_at_suffix [of p]
      by (simp add: match_double_star_def below_dir_eq sv_substr_def Let_def ds)
    show ?thesis
    proof (cases "\<exists>rest. ?t = dir @ slash # rest")
      case True
      then obtain rest where rest: "?t = dir @ slash # rest" by blast
      then show ?thesis using code 4 i(1) sub_loop_path [OF cut_below [OF wf rest], of suff ci]
        by (auto simp: double_star_selects_def occ tail_in_def)
    next
      case False
      then show ?thesis using code 4 i(1) sub_loop_path
        by (auto simp: double_star_selects_def occ split_path_cut)
    qed
  next
    case 5
    then have "\<not> sublist ''/**/'' p" using sv_find_sublist [of p "''/**/''"] by simp
    then show ?thesis using 5 has_at_prefix [of p] has_at_suffix [of p] join_last [of cs] wf
      by (auto simp: match_double_star_def double_star_selects_def glob_match_lang wf_comps_def Let_def)
  qed
qed

lemma match_pattern_selects:
  assumes "wf_comps cs"
  shows "match_pattern (join cs) rule ci = Some (pattern_selects ci rule cs)"
  using assms sv_find_sublist [of "pattern rule" "''**''"] wf_cut [OF assms]
  by (auto simp: match_pattern_def pattern_selects_def match_double_star_selects glob_match_lang match_unanchored_cut)

lemma slash_prefixes:
  "wf_comps cs \<Longrightarrow> (\<exists>p < length (join cs). join cs ! p = slash \<and> P (take p (join cs))) \<longleftrightarrow>
     (\<exists>k. 0 < k \<and> k < length cs \<and> P (join (take k cs)))"
proof (induction cs arbitrary: P)
  case (Cons c cs)
  have c: "slash \<notin> set c" using Cons.prems by (simp add: wf_comps_def)
  show ?case
  proof (cases "cs = []")
    case True
    then show ?thesis using c by (auto simp: less_Suc_eq) (metis nth_mem)
  next
    case False
    then have wf: "wf_comps cs" using Cons.prems by (auto simp: wf_comps_def)
    have "(\<exists>p < length (join (c # cs)). join (c # cs) ! p = slash \<and> P (take p (join (c # cs)))) \<longleftrightarrow>
        P c \<or> (\<exists>p < length (join cs). join cs ! p = slash \<and> P (c @ slash # take p (join cs)))" (is "?L \<longleftrightarrow> ?R")
    proof
      assume ?L
      then obtain p where p: "p < length c + 1 + length (join cs)" "(c @ slash # join cs) ! p = slash" "P (take p (c @ slash # join cs))"
        using False by (auto simp: join_Cons)
      then have "\<not> p < length c" using c by (auto simp: nth_append) (metis nth_mem)
      then consider "p = length c" | q where "p = length c + 1 + q" by (metis add.commute le_Suc_ex less_Suc_eq not_less Suc_eq_plus1 add.assoc)
      then show ?R using p by cases (auto simp: nth_append)
    next
      assume ?R
      then show ?L
      proof (elim disjE exE conjE)
        assume "P c"
        then show ?L using False by (auto simp: join_Cons intro!: exI [of _ "length c"])
      next
        fix p assume "p < length (join cs)" "join cs ! p = slash" "P (c @ slash # take p (join cs))"
        then show ?L using False by (auto simp: join_Cons nth_append intro!: exI [of _ "length c + 1 + p"])
      qed
    qed
    also have "\<dots> \<longleftrightarrow> P c \<or> (\<exists>k. 0 < k \<and> k < length cs \<and> P (c @ slash # join (take k cs)))"
      using Cons.IH [OF wf, of "\<lambda>x. P (c @ slash # x)"] by simp
    also have "\<dots> \<longleftrightarrow> (\<exists>k. 0 < k \<and> k < length (c # cs) \<and> P (join (take k (c # cs))))" (is "?L \<longleftrightarrow> ?R")
    proof
      assume ?L
      then show ?R
      proof (elim disjE exE conjE)
        assume "P c"
        then show ?R using False by (auto intro!: exI [of _ 1])
      next
        fix k assume "0 < k" "k < length cs" "P (c @ slash # join (take k cs))"
        then show ?R using False by (auto simp: join_Cons intro!: exI [of _ "Suc k"])
      qed
    next
      assume ?R
      then obtain k where "k < length cs" "P (join (c # take k cs))" by (auto simp: gr0_conv_Suc)
      then show ?L using False by (cases "k = 0") (auto simp: join_Cons)
    qed
    finally show ?thesis .
  qed
qed (simp add: wf_comps_def)

lemma ancestor_loop_slashes:
  assumes pat: "\<And>p. p < length path \<Longrightarrow> path ! p = slash \<Longrightarrow> match_pattern (take p path) rule ci = Some (Q (take p path))"
  shows "ancestor_loop path rule ci from = Some (\<exists>p < length path. from \<le> p \<and> path ! p = slash \<and> Q (take p path))"
  using pat
proof (induction path rule ci "from" rule: ancestor_loop.induct)
  case (1 path rule ci "from")
  show ?case
  proof (cases "sv_find path [slash] from")
    case None
    then have "\<not> (\<exists>p < length path. from \<le> p \<and> path ! p = slash \<and> Q (take p path))"
      using sv_find_first [of path "[slash]" "from"] by (auto simp: occurs_at_char)
    then show ?thesis using None by (subst ancestor_loop.simps) simp
  next
    case (Some pos)
    note f = sv_find_SomeD(1,2) [OF Some]
    have pos: "path ! pos = slash" "\<And>j. from \<le> j \<Longrightarrow> j < pos \<Longrightarrow> path ! j \<noteq> slash"
      using sv_find_first [of path "[slash]" "from"] Some by (auto simp: occurs_at_char)
    have m: "match_pattern (take pos path) rule ci = Some (Q (take pos path))" using "1.prems" f pos by blast
    have ex: "(\<exists>p < length path. from \<le> p \<and> path ! p = slash \<and> Q (take p path)) \<longleftrightarrow>
        Q (take pos path) \<or> (\<exists>p < length path. pos + 1 \<le> p \<and> path ! p = slash \<and> Q (take p path))" (is "?L \<longleftrightarrow> ?R")
    proof
      assume ?L
      then obtain p where p: "p < length path" "from \<le> p" "path ! p = slash" "Q (take p path)" by blast
      then have "\<not> p < pos" using pos by blast
      then show ?R using p by (cases "p = pos") auto
    next
      assume ?R
      then show ?L using f pos(1) by auto
    qed
    have "ancestor_loop path rule ci (pos + 1) = Some (\<exists>p < length path. pos + 1 \<le> p \<and> path ! p = slash \<and> Q (take p path))"
      if "\<not> Q (take pos path)"
      using "1.IH" [OF Some, of "take pos path" False] "1.prems" f m that by (simp add: sv_substr_def)
    then show ?thesis unfolding ex using Some f m by (subst ancestor_loop.simps) (auto simp: sv_substr_def)
  qed
qed

lemma wf_take: "wf_comps cs \<Longrightarrow> 0 < k \<Longrightarrow> wf_comps (take k cs)"
  by (auto simp: wf_comps_def dest: in_set_takeD)

lemma slash_prefix_wf:
  assumes "wf_comps cs" "p < length (join cs)" "join cs ! p = slash"
  obtains k where "0 < k" "k < length cs" "take p (join cs) = join (take k cs)"
  using slash_prefixes [OF assms(1), of "\<lambda>x. x = take p (join cs)"] assms by metis

lemma gitignore_match_selects:
  assumes wf: "wf_comps cs"
  shows "gitignore_match_internal (join cs) is_dir rule ci = Some (rule_selects ci rule cs is_dir)"
proof (cases "dir_only rule \<and> \<not> is_dir")
  case True
  define Q where "Q x = pattern_selects ci rule (cut slash x)" for x
  have pre: "match_pattern (join (take k cs)) rule ci = Some (Q (join (take k cs)))" if "0 < k" for k
    using match_pattern_selects [OF wf_take [OF wf that]] wf_cut [OF wf_take [OF wf that]] by (simp add: Q_def)
  have "ancestor_loop (join cs) rule ci 0 = Some (\<exists>p < length (join cs). 0 \<le> p \<and> join cs ! p = slash \<and> Q (take p (join cs)))"
    by (rule ancestor_loop_slashes) (metis pre slash_prefix_wf [OF wf])
  also have "(\<exists>p < length (join cs). 0 \<le> p \<and> join cs ! p = slash \<and> Q (take p (join cs))) \<longleftrightarrow>
      (\<exists>k. 0 < k \<and> k < length cs \<and> pattern_selects ci rule (take k cs))"
    using slash_prefixes [OF wf, of Q] wf_cut [OF wf_take [OF wf]] by (auto simp: Q_def)
  finally show ?thesis using True by (simp add: gitignore_match_internal_def rule_selects_def)
next
  case False
  then show ?thesis using match_pattern_selects [OF wf] by (auto simp: gitignore_match_internal_def rule_selects_def)
qed

section \<open>The last rule decides\<close>

lemma normalized_join:
  assumes "wf_comps cs"
  shows "normalized_view (join cs) = join cs"
proof -
  have "backslash \<notin> set (join cs)" using assms unfolding wf_comps_def by (induction cs rule: join.induct) auto
  then show ?thesis by (simp add: normalized_view_def sv_find_char_None)
qed

lemma is_ignored_fold:
  assumes "wf_comps cs"
  shows "is_ignored_path_normalized (join cs) is_dir rules ci b =
    Some (case find (\<lambda>r. rule_selects ci r cs is_dir) (rev rules) of None \<Rightarrow> b | Some r \<Rightarrow> \<not> negated r)"
proof (induction rules arbitrary: b)
  case (Cons r rules)
  have "find P (xs @ [r]) = (case find P xs of None \<Rightarrow> if P r then Some r else None | Some y \<Rightarrow> Some y)" for P xs
    by (induction xs) auto
  then show ?case using Cons gitignore_match_selects [OF assms] by (auto split: option.splits)
qed simp

definition decided :: "bool \<Rightarrow> gitignore_rule list \<Rightarrow> string list \<Rightarrow> bool \<Rightarrow> bool" where
  "decided ci rules cs is_dir =
     (case find (\<lambda>r. rule_selects ci r cs is_dir) (rev rules) of None \<Rightarrow> False | Some r \<Rightarrow> \<not> negated r)"

lemma filter_paths_decided:
  assumes "\<forall>cs \<in> set css. wf_comps cs"
  shows "filter_paths (map join css) dmask rules ci =
    Some (map (\<lambda>i. decided ci rules (css ! i) (i < length dmask \<and> dmask ! i)) [0..<length css])"
proof -
  let ?d = "\<lambda>i. decided ci rules (css ! i) (i < length dmask \<and> dmask ! i)"
  let ?step = "\<lambda>i out. do {
         out \<leftarrow> out;
         p \<leftarrow> rd (map join css) i;
         is_dir \<leftarrow> (if i < length dmask then rd dmask i else Some False);
         b \<leftarrow> is_ignored_path_normalized (normalized_view p) is_dir rules ci False;
         wr out i b
       }"
  have "n \<le> length css \<Longrightarrow> fold ?step [0..<n] (Some (replicate (length css) False)) =
      Some (map ?d [0..<n] @ replicate (length css - n) False)" for n
  proof (induction n)
    case (Suc n)
    have r: "replicate (length css - n) False = False # replicate (length css - Suc n) False"
      using Suc.prems by (metis Suc_diff_Suc Suc_le_lessD replicate_Suc)
    have "wf_comps (css ! n)" using assms Suc.prems by simp
    then have "is_ignored_path_normalized (normalized_view (join (css ! n))) d rules ci False = Some (decided ci rules (css ! n) d)" for d
      using is_ignored_fold normalized_join by (simp add: decided_def)
    then show ?case using Suc r by (auto simp: list_update_append)
  qed simp
  from this [of "length css"] show ?thesis by (simp add: filter_paths_def)
qed

text \<open>
  Property C18.
  For a path of components without slashes, deciding whether it is ignored always returns, and
  returns what the last rule says that selects the path: ignored unless the rule is negated, and
  not ignored if no rule selects it. What a rule selects is \<open>rule_selects\<close>: an anchored pattern the
  whole path, another one any component, the double star forms the paths below or above a
  directory, and a rule for directories only, asked about a file, the files below such a directory.
\<close>

theorem is_ignored_path_correct:
  assumes "wf_comps cs"
  shows "is_ignored_path (join cs) is_dir rules ci =
    Some (case find (\<lambda>r. rule_selects ci r cs is_dir) (rev rules) of None \<Rightarrow> False | Some r \<Rightarrow> \<not> negated r)"
  unfolding is_ignored_path_def normalized_join [OF assms] by (rule is_ignored_fold [OF assms])

theorem is_ignored_path_correct_witness:
  "is_ignored_path ''src/a.o'' False
     [\<lparr>pattern = ''*.o'', negated = False, anchored = False, dir_only = False\<rparr>,
      \<lparr>pattern = ''src/*.c'', negated = True, anchored = True, dir_only = False\<rparr>] False = Some True"
  using is_ignored_path_correct [of "[''src'', ''a.o'']" False
     "[\<lparr>pattern = ''*.o'', negated = False, anchored = False, dir_only = False\<rparr>,
      \<lparr>pattern = ''src/*.c'', negated = True, anchored = True, dir_only = False\<rparr>]" False]
  by (simp add: wf_comps_def rule_selects_def pattern_selects_def fold_ci_def sublist_Cons_right le_Suc_eq
      conj_disj_distribR ex_disj_distrib all_conj_distrib)

end
