(* ===== verification/Gitignore_File.thy ===== *)
theory Gitignore_File
  imports Gitignore_Ok
begin

text \<open>
  Files of ignore rules: a list of rules that is written one per line, with any of the usual line
  ends, is read back by \<^verbatim>\<open>parse_gitignore\<close> of \<^verbatim>\<open>src/runtime/glob/gitignore.cpp\<close>.
\<close>

section \<open>Lines\<close>

fun norm_eol :: "string \<Rightarrow> string" where
  "norm_eol [] = []"
| "norm_eol (c # cs) = (if c = cr then nl # (if cs \<noteq> [] \<and> hd cs = nl then norm_eol (tl cs) else norm_eol cs) else c # norm_eol cs)"

lemma cr_loop_norm: "cr_loop s i = norm_eol (drop i s)"
proof (induction s i rule: cr_loop.induct)
  case (1 s i)
  show ?case
  proof (cases "i < length s")
    case False
    then show ?thesis by (subst cr_loop.simps) simp
  next
    case True
    then have d: "drop i s = s ! i # drop (i + 1) s" using Cons_nth_drop_Suc [of i s] by simp
    have "drop (i + 1) s \<noteq> [] \<and> hd (drop (i + 1) s) = nl \<longleftrightarrow> i + 1 < length s \<and> s ! (i + 1) = nl"
      by (auto simp: hd_drop_conv_nth)
    moreover have "tl (drop (i + 1) s) = drop (i + 2) s" by (simp add: tl_drop drop_Suc)
    ultimately show ?thesis using 1 True by (subst cr_loop.simps) (auto simp: d)
  qed
qed

lemma norm_eol_id: "cr \<notin> set s \<Longrightarrow> norm_eol s = s"
  by (induction s) auto

lemma line_loop_cut:
  "start \<le> length s \<Longrightarrow> line_loop s start = Some (List.map_filter parse_line (cut nl (drop start s)))"
proof (induction s start rule: line_loop.induct)
  case (1 s start)
  show ?case
  proof (cases "sv_find s [nl] start")
    case None
    have "line_loop s (length s + 1) = Some []" by (subst line_loop.simps) simp
    then show ?thesis using None "1.prems" sv_find_NoneD [OF None]
      by (subst line_loop.simps) (simp add: cut_no_sep map_filter_simps split: option.splits)
  next
    case (Some e)
    note f = sv_find_SomeD [OF Some]
    have "cut nl (drop start s) = take (e - start) (drop start s) # cut nl (drop (e + 1) s)"
      by (subst f(3)) (rule cut_first [OF f(4)])
    moreover have "line_loop s (e + 1) = Some (List.map_filter parse_line (cut nl (drop (e + 1) s)))"
      using "1.IH" "1.prems" Some f by simp
    ultimately show ?thesis using Some f "1.prems"
      by (subst line_loop.simps) (simp add: map_filter_simps split: option.splits)
  qed
qed

lemma parse_gitignore_lines: "parse_gitignore s = Some (List.map_filter parse_line (cut nl (norm_eol s)))"
  using line_loop_cut [of 0] by (auto simp: parse_gitignore_def cr_loop_norm sv_find_char_None norm_eol_id)

section \<open>Writing rules\<close>

definition print_rule :: "gitignore_rule \<Rightarrow> string" where
  "print_rule r = (if negated r then ''!'' else []) @ (if anchored r \<and> slash \<notin> set (pattern r) then ''/'' else []) @
     pattern r @ (if dir_only r then ''/'' else [])"

text \<open>
  Rules that a line can express: the pattern does not start like a comment, a negation or a root,
  does not end in white space or a slash, and is anchored if it has a slash.
\<close>

definition printable :: "gitignore_rule \<Rightarrow> bool" where
  "printable r \<longleftrightarrow> pattern r \<noteq> [] \<and> nl \<notin> set (pattern r) \<and> cr \<notin> set (pattern r) \<and>
     hd (pattern r) \<notin> {CHR ''#'', CHR ''!'', slash} \<and> \<not> isspace (last (pattern r)) \<and> last (pattern r) \<noteq> slash \<and>
     (slash \<in> set (pattern r) \<longrightarrow> anchored r)"

lemma rstrip_id: "s \<noteq> [] \<Longrightarrow> \<not> isspace (last s) \<Longrightarrow> rstrip s = s"
  by (cases s rule: rev_cases) (auto simp: rstrip_def)

lemma parse_line_print:
  assumes "printable r"
  shows "parse_line (print_rule r) = Some r"
proof -
  have p: "pattern r \<noteq> []" "hd (pattern r) \<noteq> CHR ''#''" "hd (pattern r) \<noteq> CHR ''!''" "hd (pattern r) \<noteq> slash"
    "\<not> isspace (last (pattern r))" "last (pattern r) \<noteq> slash" "slash \<in> set (pattern r) \<Longrightarrow> anchored r"
    using assms by (auto simp: printable_def)
  have "\<not> isspace slash" by (simp add: isspace_def)
  then have "rstrip (print_rule r) = print_rule r" using p(1,5)
    by (intro rstrip_id) (auto simp: print_rule_def last_append)
  moreover obtain c cs where "pattern r = c # cs" using p(1) by (cases "pattern r") auto
  moreover have "butlast (x @ pattern r @ ''/'') = x @ pattern r" for x by (simp add: butlast_append)
  ultimately show ?thesis using p
    by (cases r) (auto simp: parse_line_def print_rule_def Let_def sv_find_char_None butlast_append last_append)
qed

definition eols :: "string set" where
  "eols = {[nl], [cr, nl], [cr]}"

lemma norm_eol_line:
  assumes "cr \<notin> set l" "e \<in> eols" "rest = [] \<or> hd rest \<noteq> nl"
  shows "norm_eol (l @ e @ rest) = l @ nl # norm_eol rest"
  using assms(1)
proof (induction l)
  case Nil
  then show ?case using assms(2,3) by (cases rest) (auto simp: eols_def)
qed auto

lemma print_rule_chars: "printable r \<Longrightarrow> cr \<notin> set (print_rule r) \<and> nl \<notin> set (print_rule r) \<and> print_rule r \<noteq> []"
  by (auto simp: print_rule_def printable_def)

lemma norm_eol_print:
  "\<forall>(r, e) \<in> set ls. printable r \<and> e \<in> eols \<Longrightarrow>
   cut nl (norm_eol (concat (map (\<lambda>(r, e). print_rule r @ e) ls))) = map (print_rule \<circ> fst) ls @ [[]]"
proof (induction ls)
  case (Cons l ls)
  obtain r e where l: "l = (r, e)" by fastforce
  let ?rest = "concat (map (\<lambda>(r, e). print_rule r @ e) ls)"
  have r: "printable r" "e \<in> eols" using Cons.prems l by auto
  have "?rest = [] \<or> hd ?rest \<noteq> nl"
  proof (cases ls)
    case (Cons l' ls')
    then show ?thesis using Cons.prems print_rule_chars [of "fst l'"]
      by (cases l') (auto simp: hd_append, metis hd_in_set)
  qed simp
  then have "norm_eol (print_rule r @ e @ ?rest) = print_rule r @ nl # norm_eol ?rest"
    using norm_eol_line r print_rule_chars [OF r(1)] by blast
  then show ?case using Cons l r print_rule_chars [OF r(1)] by (simp add: cut_first)
qed simp

text \<open>
  Property C20.
  A list of rules that is written one rule per line, each line with any of the three usual line
  ends, is read back exactly: negation, anchoring and the restriction to directories included.
\<close>

theorem parse_gitignore_print:
  assumes "\<forall>(r, e) \<in> set ls. printable r \<and> e \<in> eols"
  shows "parse_gitignore (concat (map (\<lambda>(r, e). print_rule r @ e) ls)) = Some (map fst ls)"
proof -
  have "List.map_filter parse_line (map (print_rule \<circ> fst) ls) = map fst ls"
    using assms by (induction ls) (auto simp: map_filter_simps parse_line_print)
  moreover have "List.map_filter parse_line [[]] = []" by (simp add: map_filter_simps parse_line_def rstrip_def)
  moreover have "List.map_filter f (xs @ ys) = List.map_filter f xs @ List.map_filter f ys" for f :: "string \<Rightarrow> gitignore_rule option" and xs ys
    by (simp add: List.map_filter_def)
  ultimately show ?thesis using norm_eol_print [OF assms] by (simp add: parse_gitignore_lines)
qed

theorem parse_gitignore_print_witness:
  "parse_gitignore (''*.o'' @ [cr, nl] @ ''!/keep/'' @ [nl]) =
     Some [\<lparr>pattern = ''*.o'', negated = False, anchored = False, dir_only = False\<rparr>,
           \<lparr>pattern = ''keep'', negated = True, anchored = True, dir_only = True\<rparr>]"
  using parse_gitignore_print [of
      "[(\<lparr>pattern = ''*.o'', negated = False, anchored = False, dir_only = False\<rparr>, [cr, nl]),
        (\<lparr>pattern = ''keep'', negated = True, anchored = True, dir_only = True\<rparr>, [nl])]"]
  by (simp add: printable_def print_rule_def eols_def isspace_def)

end
