(* ===== verification/Ls_Files.thy ===== *)
theory Ls_Files
  imports Gitignore_Ok
begin

text \<open>
  \<^verbatim>\<open>is_ignored_name\<close> and \<^verbatim>\<open>parse_ls_files_output\<close> of \<^verbatim>\<open>src/runtime/glob/gitignore.cpp\<close>: the entries of
  \<^verbatim>\<open>git ls-files -z\<close>, each directory before the first entry below it, without what lies below a directory
  or file with an ignored name. The code remembers prefixes it has found to be ignored; they change nothing.
\<close>

section \<open>Ignored names\<close>

definition ignored_names :: "string list" where
  "ignored_names =
     [''.DS_Store'', ''.bzr'', ''.git'', ''.hg'', ''.svn'', ''.build'', ''.cache'', ''.coverage'', ''.fleet'', ''.gradle'',
      ''.idea'', ''.ipynb_checkpoints'', ''.pnpm-store'', ''.pytest_cache'', ''.pub-cache'', ''.ruff_cache'', ''.swiftpm'',
      ''.tox'', ''.venv'', ''.vs'', ''.vscode'', ''.yarn'', ''.yarn-cache'', ''.next'', ''.nuxt'', ''.parcel-cache'',
      ''.svelte-kit'', ''.turbo'', ''.vercel'', ''node_modules'', ''__pycache__'', ''build'', ''coverage'', ''dist'',
      ''htmlcov'', ''pip-wheel-metadata'', ''venv'', ''.mvn'', ''out'', ''target'', ''bin'', ''cmake-build-debug'',
      ''cmake-build-release'', ''obj'', ''bazel-bin'', ''bazel-out'', ''bazel-testlogs'', ''buck-out'', ''.dart_tool'',
      ''.serverless'', ''.stack-work'', ''.terraform'', ''.terragrunt-cache'', ''DerivedData'', ''Pods'', ''deps'', ''tmp'',
      ''vendor'']"

text \<open>
  The alternatives of \<^verbatim>\<open>ignored_name_regex\<close> all have the form \<^verbatim>\<open>.*\<close> followed by literal characters. The
  expression is matched against the whole name, without regard to the case of letters; a dot does not match a line end.
\<close>

definition ignored_suffixes :: "string list" where
  "ignored_suffixes =
     [''_cache'', ''-cache'', ''.egg-info'', ''.dist-info'', ''.pyc'', ''.pyo'', ''.class'', ''.swp'', ''.swo'', ''~'', ''.tmp'', ''.bak'']"

definition matches_regex :: "string \<Rightarrow> bool" where
  "matches_regex name =
     list_ex (\<lambda>suff. length suff \<le> length name \<and>
        map (fold_ci True) (drop (length name - length suff) name) = map (fold_ci True) suff \<and>
        nl \<notin> set (take (length name - length suff) name) \<and> cr \<notin> set (take (length name - length suff) name)) ignored_suffixes"

definition is_ignored_name :: "string \<Rightarrow> bool" where
  "is_ignored_name name \<longleftrightarrow> name = [] \<or> name \<in> set ignored_names \<or> matches_regex name"

section \<open>Listing\<close>

record ls_state =
  ls_paths :: "string list"
  ls_seen :: "string set"
  ls_ignored :: "string set"

text \<open>The loop over the prefixes of an entry: whether to skip it, and the prefixes known to be ignored.\<close>

fun skip_loop :: "string \<Rightarrow> (nat \<times> nat) list \<Rightarrow> nat list \<Rightarrow> string set \<Rightarrow> (bool \<times> string set) option" where
  "skip_loop entry parts [] ign = Some (False, ign)"
| "skip_loop entry parts (i # is) ign =
     do {
       pre \<leftarrow> join_path entry parts 0 (i + 1);
       p \<leftarrow> rd parts i;
       let pre = pre @ [slash];
       if pre \<in> ign then Some (True, ign)
       else if is_ignored_name (part entry p) then Some (True, insert pre ign)
       else skip_loop entry parts is ign
     }"

fun dir_loop :: "string \<Rightarrow> (nat \<times> nat) list \<Rightarrow> nat list \<Rightarrow> ls_state \<Rightarrow> ls_state option" where
  "dir_loop entry parts [] st = Some st"
| "dir_loop entry parts (i # is) st =
     do {
       pre \<leftarrow> join_path entry parts 0 i;
       let dir_path = pre @ [slash];
       dir_loop entry parts is
         (if dir_path \<in> ls_seen st then st
          else st\<lparr>ls_seen := insert dir_path (ls_seen st), ls_paths := ls_paths st @ [dir_path]\<rparr>)
     }"

definition ls_entry :: "bool \<Rightarrow> string \<Rightarrow> ls_state \<Rightarrow> ls_state option" where
  "ls_entry filter_ignored entry st =
     do {
       let parts = split_path entry;
       (skip, ign) \<leftarrow> (if filter_ignored \<and> parts \<noteq> [] then skip_loop entry parts [0..<length parts] (ls_ignored st)
                       else Some (False, ls_ignored st));
       let st = st\<lparr>ls_ignored := ign\<rparr>;
       if skip then Some st
       else do {
         st \<leftarrow> dir_loop entry parts [1..<length parts] st;
         Some (st\<lparr>ls_paths := ls_paths st @ [entry]\<rparr>)
       }
     }"

abbreviation nul :: char where "nul \<equiv> CHR 0x00"

text \<open>The inner loop \<^verbatim>\<open>while (end < size && bytes[end] != 0) ++end;\<close>\<close>

function entry_end :: "string \<Rightarrow> nat \<Rightarrow> nat" where
  "entry_end s e = (if e < length s \<and> s ! e \<noteq> nul then entry_end s (e + 1) else e)"
  by pat_completeness auto
termination
  by (relation "measure (\<lambda>(s, e). length s - e)") auto

declare entry_end.simps [simp del]

lemma entry_end_ge: "e \<le> entry_end s e"
proof (induction s e rule: entry_end.induct)
  case (1 s e)
  then show ?case by (subst entry_end.simps) auto
qed

function ls_loop :: "bool \<Rightarrow> string \<Rightarrow> nat \<Rightarrow> ls_state \<Rightarrow> ls_state option" where
  "ls_loop filter_ignored s start st =
     (if start \<le> length s then do {
        let e = entry_end s start;
        st \<leftarrow> (if start < e then ls_entry filter_ignored (take (e - start) (drop start s)) st else Some st);
        ls_loop filter_ignored s (e + 1) st
      } else Some st)"
  by pat_completeness auto
termination
proof (relation "measure (\<lambda>(f, s, start, st). length s + 1 - start)", goal_cases)
  case (2 f s start st e st')
  then show ?case using entry_end_ge [of start s] by simp
qed simp

definition parse_ls_files_output :: "string \<Rightarrow> bool \<Rightarrow> string list option" where
  "parse_ls_files_output s filter_ignored =
     map_option ls_paths (ls_loop filter_ignored s 0 \<lparr>ls_paths = [], ls_seen = {}, ls_ignored = {}\<rparr>)"

declare ls_loop.simps [simp del]

section \<open>The reference listing\<close>

text \<open>The directories above an entry, from the outermost on.\<close>

definition ancestors :: "string list \<Rightarrow> string list" where
  "ancestors cs = map (\<lambda>k. join (take k cs) @ [slash]) [1..<length cs]"

fun add_new :: "string set \<Rightarrow> string list \<Rightarrow> string list" where
  "add_new seen [] = []"
| "add_new seen (d # ds) = (if d \<in> seen then add_new seen ds else d # add_new (insert d seen) ds)"

fun listing :: "string set \<Rightarrow> string list list \<Rightarrow> string list" where
  "listing seen [] = []"
| "listing seen (e # es) = add_new seen (ancestors e) @ join e # listing (seen \<union> set (ancestors e)) es"

section \<open>Correctness\<close>

lemma offsets_nth:
  "\<forall>c \<in> set cs. c \<noteq> [] \<Longrightarrow> length (offsets (length pre) cs) = length cs \<and>
     (\<forall>k < length cs. part (pre @ join cs) (offsets (length pre) cs ! k) = cs ! k)"
proof (induction cs arbitrary: pre)
  case (Cons c cs)
  have rest: "length (offsets (length pre + length c + 1) cs) = length cs"
    "\<forall>k < length cs. part (pre @ join (c # cs)) (offsets (length pre + length c + 1) cs ! k) = cs ! k"
    using Cons.IH [of "pre @ c @ [slash]"] Cons.prems by (cases "cs = []"; auto simp: join_Cons)+
  have "part (pre @ join (c # cs)) (length pre, length c) = c"
    by (cases "cs = []") (auto simp: part_def join_Cons)
  then have "part (pre @ join (c # cs)) (((length pre, length c) # offsets (length pre + length c + 1) cs) ! k) = (c # cs) ! k"
    if "k < length (c # cs)" for k
    using that rest by (cases k) auto
  then show ?case using Cons.prems rest by simp
qed simp

lemma join_snoc: "xs \<noteq> [] \<Longrightarrow> join (xs @ [x]) = join xs @ slash # x"
  by (induction xs rule: join.induct) (auto simp: join_Cons)

lemma wf_parts:
  assumes "wf_comps cs"
  shows "split_path (join cs) = offsets 0 cs" "length (split_path (join cs)) = length cs"
    "\<And>k. k < length cs \<Longrightarrow> part (join cs) (split_path (join cs) ! k) = cs ! k"
  using offsets_nth [of cs "[]"] assms wf_cut [OF assms] by (auto simp: split_path_cut wf_comps_def)

lemma join_path_take:
  assumes "wf_comps cs" "n \<le> length cs"
  shows "join_path (join cs) (split_path (join cs)) 0 n = Some (join (take n cs))"
  using assms(2)
proof (induction n)
  case (Suc n)
  have "join (take (Suc n) cs) = (if 0 < n then join (take n cs) @ [slash] else join (take n cs)) @ cs ! n"
    using Suc.prems join_snoc [of "take n cs" "cs ! n"] by (cases "cs = []") (auto simp: take_Suc_conv_app_nth)
  then show ?case using Suc wf_parts [OF assms(1)] by (simp add: join_path_def)
qed (simp add: join_path_def)

lemma dir_loop_ancestors:
  assumes wf: "wf_comps cs" and "\<forall>i \<in> set is. i \<le> length cs"
  shows "dir_loop (join cs) (split_path (join cs)) is st =
    Some (st\<lparr>ls_seen := ls_seen st \<union> set (map (\<lambda>k. join (take k cs) @ [slash]) is),
             ls_paths := ls_paths st @ add_new (ls_seen st) (map (\<lambda>k. join (take k cs) @ [slash]) is)\<rparr>)"
  using assms(2)
proof (induction "is" arbitrary: st)
  case (Cons i "is")
  show ?case
  proof (cases "join (take i cs) @ [slash] \<in> ls_seen st")
    case True
    then show ?thesis using Cons by (simp add: join_path_take [OF wf] insert_absorb)
  next
    case False
    then show ?thesis using Cons by (simp add: join_path_take [OF wf] Let_def)
  qed
qed simp

text \<open>Every remembered prefix ends in an ignored name.\<close>

definition ign_ok :: "string set \<Rightarrow> bool" where
  "ign_ok ign \<longleftrightarrow> (\<forall>p \<in> ign. \<exists>cs. wf_comps cs \<and> p = join cs @ [slash] \<and> is_ignored_name (last cs))"

lemma join_inject: "wf_comps xs \<Longrightarrow> wf_comps ys \<Longrightarrow> join xs = join ys \<longleftrightarrow> xs = ys"
  by (metis wf_cut)

lemma skip_loop_ok:
  assumes wf: "wf_comps cs" and "\<forall>i \<in> set is. i < length cs" "ign_ok ign"
  shows "\<exists>ign'. skip_loop (join cs) (split_path (join cs)) is ign = Some (\<exists>i \<in> set is. is_ignored_name (cs ! i), ign') \<and> ign_ok ign'"
  using assms(2,3)
proof (induction "is")
  case (Cons i "is")
  have i: "i < length cs" using Cons.prems by simp
  have wfi: "wf_comps (take (i + 1) cs)" using wf_take [OF wf, of "i + 1"] by simp
  have last: "last (take (i + 1) cs) = cs ! i" using i by (simp add: take_Suc_conv_app_nth)
  have "is_ignored_name (cs ! i)" if "join (take (i + 1) cs) @ [slash] \<in> ign"
    using that Cons.prems(2) last join_inject [OF wfi] unfolding ign_ok_def by fastforce
  moreover have "ign_ok (insert (join (take (i + 1) cs) @ [slash]) ign)" if "is_ignored_name (cs ! i)"
    using Cons.prems(2) wfi last that by (auto simp: ign_ok_def)
  ultimately show ?case using Cons i join_path_take [OF wf, of "i + 1"] wf_parts [OF wf]
    by (auto simp: Let_def)
qed simp

definition kept :: "bool \<Rightarrow> string list \<Rightarrow> bool" where
  "kept filter_ignored cs \<longleftrightarrow> \<not> (filter_ignored \<and> (\<exists>c \<in> set cs. is_ignored_name c))"

lemma ls_entry_ok:
  assumes wf: "wf_comps cs" and "ign_ok (ls_ignored st)"
  shows "\<exists>ign. ign_ok ign \<and> ls_entry f (join cs) st =
    Some (if kept f cs then st\<lparr>ls_ignored := ign, ls_seen := ls_seen st \<union> set (ancestors cs),
                               ls_paths := ls_paths st @ add_new (ls_seen st) (ancestors cs) @ [join cs]\<rparr>
          else st\<lparr>ls_ignored := ign\<rparr>)"
proof -
  have ne: "split_path (join cs) \<noteq> []" using wf_parts(2) [OF wf] wf by (auto simp: wf_comps_def)
  have ex: "(\<exists>i \<in> set [0..<length cs]. is_ignored_name (cs ! i)) \<longleftrightarrow> (\<exists>c \<in> set cs. is_ignored_name c)"
    unfolding set_upt by (metis atLeastLessThan_iff in_set_conv_nth zero_le)
  obtain ign' where ign': "skip_loop (join cs) (split_path (join cs)) [0..<length cs] (ls_ignored st) = Some (\<exists>c \<in> set cs. is_ignored_name c, ign')" "ign_ok ign'"
    using skip_loop_ok [OF wf _ assms(2), of "[0..<length cs]"] unfolding ex by auto
  obtain ign where "(if f \<and> split_path (join cs) \<noteq> [] then skip_loop (join cs) (split_path (join cs)) [0..<length (split_path (join cs))] (ls_ignored st)
      else Some (False, ls_ignored st)) = Some (\<not> kept f cs, ign)" "ign_ok ign"
  proof (cases f)
    case True
    show ?thesis by (rule that [of ign']) (use True ign' ne wf_parts(2) [OF wf] in \<open>auto simp: kept_def\<close>)
  next
    case False
    show ?thesis by (rule that [of "ls_ignored st"]) (use False assms(2) in \<open>auto simp: kept_def\<close>)
  qed
  then show ?thesis using dir_loop_ancestors [OF wf, of "[1..<length cs]"] wf_parts(2) [OF wf]
    by (auto simp: ls_entry_def ancestors_def Let_def)
qed

lemma entry_end_field:
  "nul \<notin> set u \<Longrightarrow> entry_end (pre @ u @ nul # v) (length pre) = length pre + length u"
proof (induction u arbitrary: pre)
  case Nil
  then show ?case by (subst entry_end.simps) simp
next
  case (Cons c u)
  then have "c \<noteq> nul" "entry_end (pre @ c # u @ nul # v) (length pre + 1) = length pre + 1 + length u"
    using Cons.IH [of "pre @ [c]"] by auto
  then show ?case by (subst entry_end.simps) (simp add: nth_append)
qed

lemma ls_loop_ok:
  assumes "\<forall>e \<in> set es. wf_comps e \<and> nul \<notin> set (join e)" "ign_ok (ls_ignored st)"
  shows "map_option ls_paths (ls_loop f (pre @ concat (map (\<lambda>e. join e @ [nul]) es)) (length pre) st) =
    Some (ls_paths st @ listing (ls_seen st) (filter (kept f) es))"
  using assms
proof (induction es arbitrary: pre st)
  case Nil
  have "entry_end pre (length pre) = length pre" by (subst entry_end.simps) simp
  moreover have "ls_loop f pre (length pre + 1) st = Some st" by (subst ls_loop.simps) simp
  ultimately show ?case by (subst ls_loop.simps) simp
next
  case (Cons e es)
  let ?rest = "concat (map (\<lambda>e. join e @ [nul]) es)"
  have e: "wf_comps e" "nul \<notin> set (join e)" using Cons.prems by auto
  then have "join e \<noteq> []" by (cases e rule: join.cases) (auto simp: wf_comps_def)
  obtain ign where ign: "ign_ok ign" "ls_entry f (join e) st =
    Some (if kept f e then st\<lparr>ls_ignored := ign, ls_seen := ls_seen st \<union> set (ancestors e),
                              ls_paths := ls_paths st @ add_new (ls_seen st) (ancestors e) @ [join e]\<rparr>
          else st\<lparr>ls_ignored := ign\<rparr>)" (is "_ = Some ?st")
    using ls_entry_ok [OF e(1) Cons.prems(2)] by blast
  have "map_option ls_paths (ls_loop f ((pre @ join e @ [nul]) @ ?rest) (length (pre @ join e @ [nul])) ?st) =
      Some (ls_paths ?st @ listing (ls_seen ?st) (filter (kept f) es))"
    by (rule Cons.IH) (use Cons.prems ign(1) in auto)
  moreover have "ls_loop f (pre @ join e @ nul # ?rest) (length pre) st =
      ls_loop f (pre @ join e @ nul # ?rest) (length pre + length (join e) + 1) ?st"
    using \<open>join e \<noteq> []\<close> ign(2) entry_end_field [OF e(2), of pre ?rest] by (subst ls_loop.simps) simp
  ultimately show ?case by (simp split: if_splits)
qed

text \<open>
  Property C25.
  On the entries that \<^verbatim>\<open>git ls-files -z\<close> prints (paths without empty components and without backslashes, each ended by a zero
  byte) the parser returns the listing: the entries in their order, except those with an ignored
  name among their components when the caller asks for that, and before each entry those of the
  directories above it that were not listed before, outermost first. The set of ignored prefixes that
  the code keeps to save work does not change the result.
\<close>

theorem parse_ls_files_correct:
  assumes "\<forall>e \<in> set es. wf_comps e \<and> nul \<notin> set (join e)"
  shows "parse_ls_files_output (concat (map (\<lambda>e. join e @ [nul]) es)) f = Some (listing {} (filter (kept f) es))"
  using ls_loop_ok [OF assms, of "\<lparr>ls_paths = [], ls_seen = {}, ls_ignored = {}\<rparr>" f "[]"]
  by (simp add: parse_ls_files_output_def ign_ok_def)

theorem parse_ls_files_correct_witness:
  "parse_ls_files_output (''src/a.c'' @ [nul] @ ''src/obj/b.o'' @ [nul] @ ''src/c.c'' @ [nul]) True = Some [''src/'', ''src/a.c'', ''src/c.c'']"
  using parse_ls_files_correct [of "[[''src'', ''a.c''], [''src'', ''obj'', ''b.o''], [''src'', ''c.c'']]" True]
  by (simp add: wf_comps_def kept_def is_ignored_name_def ignored_names_def matches_regex_def ignored_suffixes_def fold_ci_def
      fold_ascii_def u8_def ancestors_def upt_rec)

end
