(* ===== verification/Recv_Buffer.thy ===== *)
theory Recv_Buffer
  imports Prelude "HOL-Library.Sublist"
begin

text \<open>
  The receive buffer of \<^verbatim>\<open>src/runtime/codec/recv_buffer.cpp\<close>: bytes are appended as they arrive, and frames
  are taken from the front, either with a big-endian length in front or ended by a delimiter. The
  buffer is shown to be a queue of bytes: whatever the sizes of the chunks and whenever a frame is
  asked for, the frames are those of the stream. The diagnostic counter \<^verbatim>\<open>_copied_bytes\<close> is left out.
\<close>

section \<open>The code\<close>

record recv_buffer =
  rv_buf :: bytes
  rv_consumed :: nat
  rv_scan :: nat

definition rv_new :: recv_buffer where
  "rv_new = \<lparr>rv_buf = [], rv_consumed = 0, rv_scan = 0\<rparr>"

definition kDefaultMaxFrame :: nat where "kDefaultMaxFrame = 10 * 1024 * 1024"

definition rv_append :: "recv_buffer \<Rightarrow> bytes \<Rightarrow> recv_buffer" where
  "rv_append rb bs = (if bs = [] then rb else rb\<lparr>rv_buf := rv_buf rb @ bs\<rparr>)"

definition rv_compact :: "recv_buffer \<Rightarrow> recv_buffer option" where
  "rv_compact rb =
     (if rv_consumed rb = 0 then Some rb
      else do {
        let remaining = length (rv_buf rb) - rv_consumed rb;
        b \<leftarrow> (if 0 < remaining then memmove (rv_buf rb) 0 (rv_consumed rb) remaining else Some (rv_buf rb));
        Some (rb\<lparr>rv_buf := take remaining b, rv_consumed := 0\<rparr>)
      })"

definition rv_maybe_compact :: "recv_buffer \<Rightarrow> recv_buffer option" where
  "rv_maybe_compact rb =
     (if 0 < rv_consumed rb \<and> length (rv_buf rb) div 2 < rv_consumed rb then rv_compact rb else Some rb)"

definition rv_clear :: "recv_buffer \<Rightarrow> recv_buffer" where
  "rv_clear rb = rb\<lparr>rv_buf := [], rv_consumed := 0, rv_scan := 0\<rparr>"

text \<open>
  \<^verbatim>\<open>out.assign (_buf.data () + pos, n)\<close>. \<open>None\<close> is every case in which the bytes are not all in the buffer: the
  string class refuses a length above its \<^verbatim>\<open>max_size\<close> before it reads anything, and a smaller one
  would read beyond the buffer. Neither is reached within the bounds of the properties.
\<close>

definition rv_assign :: "bytes \<Rightarrow> nat \<Rightarrow> nat \<Rightarrow> bytes option" where
  "rv_assign b pos n = (if pos + n \<le> length b then Some (take n (drop pos b)) else None)"

text \<open>The loop \<^verbatim>\<open>length = (length << 8) | b\<close>; the low eight bits are free for \<^verbatim>\<open>b\<close>.\<close>

fun decode_length :: "bytes \<Rightarrow> nat \<Rightarrow> nat \<Rightarrow> nat \<Rightarrow> nat option" where
  "decode_length buf pos 0 l = Some l"
| "decode_length buf pos (Suc n) l = do { b \<leftarrow> rd buf pos; decode_length buf (pos + 1) n (u64 (l * 256) + unat b) }"

text \<open>\<open>None\<close> stands for the result \<^verbatim>\<open>false\<close>, \<open>Some out\<close> for \<^verbatim>\<open>true\<close>.\<close>

definition take_frame_length_prefixed :: "recv_buffer \<Rightarrow> nat \<Rightarrow> nat \<Rightarrow> (bytes option \<times> recv_buffer) option" where
  "take_frame_length_prefixed rb header_size max_frame =
     (if header_size = 0 \<or> 8 < header_size then Some (None, rb)
      else do {
        let max_frame = (if max_frame = 0 then kDefaultMaxFrame else max_frame);
        let rb = rb\<lparr>rv_scan := 0\<rparr>;
        let avail = length (rv_buf rb) - rv_consumed rb;
        if avail < header_size then Some (None, rb)
        else do {
          len \<leftarrow> decode_length (rv_buf rb) (rv_consumed rb) header_size 0;
          if len = 0 then Some (None, rb)
          else if max_frame < len then Some (None, rb)
          else do {
            let frame_start = rv_consumed rb + header_size;
            if length (rv_buf rb) < u64 (frame_start + len) then Some (None, rb)
            else do {
              out \<leftarrow> rv_assign (rv_buf rb) frame_start len;
              rb \<leftarrow> rv_maybe_compact (rb\<lparr>rv_consumed := u64 (frame_start + len)\<rparr>);
              Some (Some out, rb)
            }
          }
        }
      })"

text \<open>\<^verbatim>\<open>memchr\<close> in \<open>u\<close> from an index on: the index of the first hit.\<close>

function memchr :: "bytes \<Rightarrow> byte \<Rightarrow> nat \<Rightarrow> nat option" where
  "memchr u c i = (if i < length u then if u ! i = c then Some i else memchr u c (i + 1) else None)"
  by pat_completeness auto
termination
  by (relation "measure (\<lambda>(u, c, i). length u - i)") auto

declare memchr.simps [simp del]

lemma memchr_Some: "memchr u c i = Some j \<Longrightarrow> i \<le> j \<and> j < length u \<and> u ! j = c \<and> (\<forall>k. i \<le> k \<and> k < j \<longrightarrow> u ! k \<noteq> c)"
proof (induction u c i rule: memchr.induct)
  case (1 u c i)
  then show ?case
    by (subst (asm) (2) memchr.simps) (auto split: if_splits, metis Suc_leI le_neq_implies_less)
qed

lemma memchr_None: "memchr u c i = None \<Longrightarrow> i \<le> k \<Longrightarrow> k < length u \<Longrightarrow> u ! k \<noteq> c"
proof (induction u c i rule: memchr.induct)
  case (1 u c i)
  then show ?case
    by (subst (asm) (2) memchr.simps) (auto split: if_splits, metis Suc_leI le_neq_implies_less)
qed

text \<open>How the scan for the delimiter in the unconsumed bytes \<open>u\<close> ends.\<close>

datatype scan_result = Crosses nat | Found nat | Absent

function delim_loop :: "bytes \<Rightarrow> bytes \<Rightarrow> nat \<Rightarrow> scan_result option" where
  "delim_loop u delim from =
     (case memchr u (hd delim) from of
        None \<Rightarrow> Some Absent
      | Some off \<Rightarrow>
          if length u < off + length delim then Some (Crosses off)
          else if take (length delim) (drop off u) = delim then Some (Found off)
          else delim_loop u delim (off + 1))"
  by pat_completeness auto
termination
  by (relation "measure (\<lambda>(u, d, i). length u - i)") (auto dest: memchr_Some)

declare delim_loop.simps [simp del]

definition take_frame_delimiter :: "recv_buffer \<Rightarrow> bytes \<Rightarrow> nat \<Rightarrow> (bytes option \<times> recv_buffer) option" where
  "take_frame_delimiter rb delim max_frame =
     (if delim = [] then Some (None, rb)
      else do {
        let max_frame = (if max_frame = 0 then kDefaultMaxFrame else max_frame);
        let u = drop (rv_consumed rb) (rv_buf rb);
        let avail = length (rv_buf rb) - rv_consumed rb;
        let scan_from = (if avail \<le> rv_scan rb then 0 else rv_scan rb);
        r \<leftarrow> delim_loop u delim scan_from;
        case r of
          Crosses off \<Rightarrow> Some (None, rb\<lparr>rv_scan := off\<rparr>)
        | Absent \<Rightarrow> Some (None, rb\<lparr>rv_scan := avail\<rparr>)
        | Found off \<Rightarrow>
            if max_frame < off then Some (None, rb)
            else do {
              out \<leftarrow> rv_assign u 0 off;
              rb \<leftarrow> rv_maybe_compact (rb\<lparr>rv_consumed := rv_consumed rb + (off + length delim), rv_scan := 0\<rparr>);
              Some (Some out, rb)
            }
      })"

section \<open>The queue of bytes\<close>

datatype rv_op = Append bytes | TakeLen nat nat | TakeDelim nat | Compact | Clear

definition frame_limit :: "nat \<Rightarrow> nat" where
  "frame_limit m = (if m = 0 then kDefaultMaxFrame else m)"

definition big_endian :: "bytes \<Rightarrow> nat" where
  "big_endian bs = foldl (\<lambda>l b. l * 256 + unat b) 0 bs"

text \<open>Where \<open>delim\<close> occurs first in \<open>p\<close>.\<close>

definition first_delim :: "bytes \<Rightarrow> bytes \<Rightarrow> nat option" where
  "first_delim delim p = find (\<lambda>i. prefix delim (drop i p)) [0..<length p]"

fun queue_step :: "bytes \<Rightarrow> bytes \<Rightarrow> rv_op \<Rightarrow> bytes option \<times> bytes" where
  "queue_step delim p (Append bs) = (None, p @ bs)"
| "queue_step delim p (TakeLen h m) =
     (let n = big_endian (take h p) in
      if h = 0 \<or> 8 < h \<or> length p < h \<or> n = 0 \<or> frame_limit m < n \<or> length p < h + n then (None, p)
      else (Some (take n (drop h p)), drop (h + n) p))"
| "queue_step delim p (TakeDelim m) =
     (case first_delim delim p of
        None \<Rightarrow> (None, p)
      | Some i \<Rightarrow> if frame_limit m < i then (None, p) else (Some (take i p), drop (i + length delim) p))"
| "queue_step delim p Compact = (None, p)"
| "queue_step delim p Clear = (None, [])"

fun rv_step :: "bytes \<Rightarrow> recv_buffer \<Rightarrow> rv_op \<Rightarrow> (bytes option \<times> recv_buffer) option" where
  "rv_step delim rb (Append bs) = Some (None, rv_append rb bs)"
| "rv_step delim rb (TakeLen h m) = take_frame_length_prefixed rb h m"
| "rv_step delim rb (TakeDelim m) = take_frame_delimiter rb delim m"
| "rv_step delim rb Compact = map_option (Pair None) (rv_compact rb)"
| "rv_step delim rb Clear = Some (None, rv_clear rb)"

abbreviation pending :: "recv_buffer \<Rightarrow> bytes" where
  "pending rb \<equiv> drop (rv_consumed rb) (rv_buf rb)"

section \<open>Refinement\<close>

text \<open>No delimiter starts at \<open>i\<close>, and none will, whatever arrives later.\<close>

definition refuted :: "bytes \<Rightarrow> bytes \<Rightarrow> nat \<Rightarrow> bool" where
  "refuted u delim i \<longleftrightarrow> i < length u \<and> \<not> prefix (take (length delim) (drop i u)) delim"

lemma refuted_append: "refuted u delim i \<Longrightarrow> refuted (u @ v) delim i"
  by (auto simp: refuted_def) (metis append_prefixD)

lemma refuted_no: "refuted u delim i \<Longrightarrow> \<not> prefix delim (drop i u)"
  by (auto simp: refuted_def elim!: prefixE)

lemma refuted_first:
  assumes "i < length u" "delim \<noteq> []" "u ! i \<noteq> hd delim"
  shows "refuted u delim i"
proof -
  obtain c cs where "delim = c # cs" using assms(2) by (cases delim) auto
  moreover have "drop i u = u ! i # drop (Suc i) u" using assms(1) by (simp add: Cons_nth_drop_Suc)
  ultimately show ?thesis using assms by (auto simp: refuted_def)
qed

lemma refuted_mismatch:
  assumes "i + length delim \<le> length u" "delim \<noteq> []" "take (length delim) (drop i u) \<noteq> delim"
  shows "refuted u delim i"
proof -
  have "length (take (length delim) (drop i u)) = length delim" using assms(1) by simp
  then have "\<not> prefix (take (length delim) (drop i u)) delim" using assms(3) by (metis append_eq_conv_conj prefix_def take_all order_refl)
  moreover have "i < length u" using assms(1,2) by (cases delim) auto
  ultimately show ?thesis by (simp add: refuted_def)
qed

lemma delim_loop_ok:
  assumes "delim \<noteq> []" "\<forall>i < from. refuted u delim i"
  shows "\<exists>r. delim_loop u delim from = Some r \<and>
    (case r of
       Absent \<Rightarrow> \<forall>i < length u. refuted u delim i
     | Crosses off \<Rightarrow> off < length u \<and> length u < off + length delim \<and> (\<forall>i < off. refuted u delim i)
     | Found off \<Rightarrow> off + length delim \<le> length u \<and> take (length delim) (drop off u) = delim \<and> (\<forall>i < off. refuted u delim i))"
  using assms
proof (induction u delim "from" rule: delim_loop.induct)
  case (1 u delim "from")
  show ?case
  proof (cases "memchr u (hd delim) from")
    case None
    have "refuted u delim i" if "i < length u" for i
      using "1.prems" refuted_first [OF that] memchr_None [OF None, of i] that by (cases "i < from") auto
    then show ?thesis using None by (subst delim_loop.simps) simp
  next
    case (Some off)
    note m = memchr_Some [OF Some]
    have before: "refuted u delim i" if "i < off" for i
      using "1.prems" refuted_first [of i u delim] m that by (cases "i < from") auto
    show ?thesis
    proof (cases "length u < off + length delim \<or> take (length delim) (drop off u) = delim")
      case True
      then show ?thesis using Some m before by (subst delim_loop.simps) auto
    next
      case False
      have "\<forall>i < off + 1. refuted u delim i"
        using before refuted_mismatch [of off delim u] False "1.prems"(1) by (auto simp: less_Suc_eq)
      then show ?thesis using "1.IH" [OF Some] "1.prems"(1) False Some
        by (subst delim_loop.simps) auto
    qed
  qed
qed

lemma first_delim_None: "delim \<noteq> [] \<Longrightarrow> \<forall>i < length u. \<not> prefix delim (drop i u) \<Longrightarrow> first_delim delim u = None"
  by (auto simp: first_delim_def find_None_iff)

lemma first_delim_Some:
  assumes "off < length u" "prefix delim (drop off u)" "\<forall>i < off. \<not> prefix delim (drop i u)"
  shows "first_delim delim u = Some off"
  unfolding first_delim_def find_Some_iff using assms by (auto intro!: exI [of _ off])

definition rv_ok :: "bytes \<Rightarrow> recv_buffer \<Rightarrow> bool" where
  "rv_ok delim rb \<longleftrightarrow> rv_consumed rb \<le> length (rv_buf rb) \<and> rv_scan rb \<le> length (pending rb) \<and>
     (\<forall>i < rv_scan rb. refuted (pending rb) delim i)"

lemma compact_ok:
  assumes "rv_consumed rb \<le> length (rv_buf rb)"
  shows "\<exists>rb'. rv_compact rb = Some rb' \<and> pending rb' = pending rb \<and> rv_scan rb' = rv_scan rb \<and>
    rv_consumed rb' \<le> length (rv_buf rb') \<and> length (rv_buf rb') \<le> length (rv_buf rb)"
  using assms by (auto simp: rv_compact_def memmove_def Let_def)

lemma maybe_compact_ok:
  assumes "rv_consumed rb \<le> length (rv_buf rb)"
  shows "\<exists>rb'. rv_maybe_compact rb = Some rb' \<and> pending rb' = pending rb \<and> rv_scan rb' = rv_scan rb \<and>
    rv_consumed rb' \<le> length (rv_buf rb') \<and> length (rv_buf rb') \<le> length (rv_buf rb)"
  using assms compact_ok [OF assms] by (auto simp: rv_maybe_compact_def)

lemma take_delimiter_ok:
  assumes ok: "rv_ok delim rb" and ne: "delim \<noteq> []"
  shows "\<exists>r rb'. take_frame_delimiter rb delim m = Some (r, rb') \<and> rv_ok delim rb' \<and> length (rv_buf rb') \<le> length (rv_buf rb) \<and>
    queue_step delim (pending rb) (TakeDelim m) = (r, pending rb')"
proof -
  let ?u = "pending rb" and ?from = "if length (rv_buf rb) - rv_consumed rb \<le> rv_scan rb then 0 else rv_scan rb"
  have "\<forall>i < ?from. refuted ?u delim i" using ok by (auto simp: rv_ok_def)
  then obtain r where r: "delim_loop ?u delim ?from = Some r"
    "case r of
       Absent \<Rightarrow> \<forall>i < length ?u. refuted ?u delim i
     | Crosses off \<Rightarrow> off < length ?u \<and> length ?u < off + length delim \<and> (\<forall>i < off. refuted ?u delim i)
     | Found off \<Rightarrow> off + length delim \<le> length ?u \<and> take (length delim) (drop off ?u) = delim \<and> (\<forall>i < off. refuted ?u delim i)"
    using delim_loop_ok [OF ne] by blast
  show ?thesis
  proof (cases r)
    case (Crosses off)
    have "\<not> prefix delim (drop i ?u)" if "i < length ?u" for i
      using r(2) Crosses refuted_no [of ?u delim i] prefix_length_le [of delim "drop i ?u"] that by (cases "i < off") auto
    then have "first_delim delim ?u = None" using first_delim_None [OF ne] by blast
    then show ?thesis using r Crosses ok ne
      by (auto simp: take_frame_delimiter_def rv_ok_def Let_def)
  next
    case Absent
    then have "first_delim delim ?u = None" using first_delim_None [OF ne, of ?u] refuted_no [of ?u delim] r(2) by simp
    then show ?thesis using Absent r ok ne
      by (auto simp: take_frame_delimiter_def rv_ok_def Let_def)
  next
    case (Found off)
    then have f: "off + length delim \<le> length ?u" "take (length delim) (drop off ?u) = delim" "\<forall>i < off. refuted ?u delim i"
      using r(2) by auto
    have "off < length ?u" using f(1) ne by (cases delim) auto
    moreover have "prefix delim (drop off ?u)" using f(2) take_is_prefix [of "length delim" "drop off ?u"] by simp
    ultimately have fd: "first_delim delim ?u = Some off" using f(3) refuted_no by (blast intro: first_delim_Some)
    let ?rb = "rb\<lparr>rv_consumed := rv_consumed rb + (off + length delim), rv_scan := 0\<rparr>"
    have "rv_consumed ?rb \<le> length (rv_buf ?rb)" using f(1) ok by (auto simp: rv_ok_def)
    from maybe_compact_ok [OF this] obtain rb' where rb': "rv_maybe_compact ?rb = Some rb'" "pending rb' = pending ?rb"
      "rv_scan rb' = 0" "rv_consumed rb' \<le> length (rv_buf rb')" "length (rv_buf rb') \<le> length (rv_buf rb)" by auto
    have p: "pending ?rb = drop (off + length delim) ?u" by (simp add: ac_simps)
    have code: "take_frame_delimiter rb delim m =
        (if frame_limit m < off then Some (None, rb) else Some (Some (take off ?u), rb'))"
      using r(1) Found ne f(1) rb'(1) by (simp add: take_frame_delimiter_def rv_assign_def frame_limit_def Let_def)
    show ?thesis
    proof (cases "frame_limit m < off")
      case True
      then show ?thesis using code fd ok by simp
    next
      case False
      then show ?thesis using code fd rb' p by (simp add: rv_ok_def del: drop_drop)
    qed
  qed
qed

lemma decode_length_be:
  "pos + n \<le> length buf \<Longrightarrow> l < 256 ^ k \<Longrightarrow> k + n \<le> 8 \<Longrightarrow>
   decode_length buf pos n l = Some (foldl (\<lambda>l b. l * 256 + unat b) l (take n (drop pos buf)))"
proof (induction n arbitrary: pos l k)
  case (Suc n)
  have d: "drop pos buf = buf ! pos # drop (pos + 1) buf" using Suc.prems(1) Cons_nth_drop_Suc [of pos buf] by simp
  have b: "unat (buf ! pos) < 256" using unsigned_less [of "buf ! pos"] by simp
  have k: "l * 256 + unat (buf ! pos) < 256 ^ (k + 1)" using Suc.prems(2) b by simp
  have "(256::nat) ^ (k + 1) \<le> 256 ^ 8" by (rule power_increasing) (use Suc.prems(3) in auto)
  then have "u64 (l * 256) = l * 256" using k by (intro u64_id) simp
  then show ?case using Suc.IH [of "pos + 1" _ "k + 1"] Suc.prems k d by simp
qed simp

lemma take_length_ok:
  assumes ok: "rv_ok delim rb" and bound: "length (rv_buf rb) < 2 ^ 63" "m < 2 ^ 63"
  shows "\<exists>r rb'. take_frame_length_prefixed rb h m = Some (r, rb') \<and> rv_ok delim rb' \<and> length (rv_buf rb') \<le> length (rv_buf rb) \<and>
    queue_step delim (pending rb) (TakeLen h m) = (r, pending rb')"
proof (cases "h = 0 \<or> 8 < h \<or> length (pending rb) < h")
  case True
  then show ?thesis using ok by (auto simp: take_frame_length_prefixed_def rv_ok_def Let_def)
next
  case False
  let ?n = "big_endian (take h (pending rb))"
  have h: "rv_consumed rb + h \<le> length (rv_buf rb)" using False ok by (auto simp: rv_ok_def)
  have n: "decode_length (rv_buf rb) (rv_consumed rb) h 0 = Some ?n"
    using decode_length_be [of "rv_consumed rb" h "rv_buf rb" 0 0] False h by (simp add: big_endian_def)
  let ?rb = "rb\<lparr>rv_scan := 0\<rparr>"
  have rb: "rv_ok delim ?rb" using ok by (simp add: rv_ok_def)
  have code: "take_frame_length_prefixed rb h m =
      (if ?n = 0 \<or> frame_limit m < ?n \<or> length (rv_buf rb) < u64 (rv_consumed rb + h + ?n) then Some (None, ?rb)
       else do {
         out \<leftarrow> rv_assign (rv_buf rb) (rv_consumed rb + h) ?n;
         rb' \<leftarrow> rv_maybe_compact (?rb\<lparr>rv_consumed := u64 (rv_consumed rb + h + ?n)\<rparr>);
         Some (Some out, rb')
       })"
    using False n by (simp add: take_frame_length_prefixed_def frame_limit_def Let_def)
  show ?thesis
  proof (cases "?n = 0 \<or> frame_limit m < ?n")
    case True
    then show ?thesis using code rb by auto
  next
    case n': False
    have "frame_limit m < 2 ^ 63" using bound(2) by (simp add: frame_limit_def kDefaultMaxFrame_def)
    then have sum: "u64 (rv_consumed rb + h + ?n) = rv_consumed rb + h + ?n" using n' h bound(1) by (intro u64_id) simp
    show ?thesis
    proof (cases "length (rv_buf rb) < rv_consumed rb + h + ?n")
      case True
      then have "length (pending rb) < h + ?n" using h unfolding length_drop by linarith
      then show ?thesis using code rb True sum by auto
    next
      case fits: False
      let ?rb2 = "?rb\<lparr>rv_consumed := rv_consumed rb + h + ?n\<rparr>"
      have "rv_consumed ?rb2 \<le> length (rv_buf ?rb2)" using fits by simp
      from maybe_compact_ok [OF this] obtain rb' where rb': "rv_maybe_compact ?rb2 = Some rb'" "pending rb' = pending ?rb2"
        "rv_scan rb' = 0" "rv_consumed rb' \<le> length (rv_buf rb')" "length (rv_buf rb') \<le> length (rv_buf rb)" by auto
      have "take_frame_length_prefixed rb h m = Some (Some (take ?n (drop (rv_consumed rb + h) (rv_buf rb))), rb')"
        using code n' fits sum rb'(1) by (simp add: rv_assign_def)
      moreover have "queue_step delim (pending rb) (TakeLen h m) = (Some (take ?n (drop (rv_consumed rb + h) (rv_buf rb))), pending rb')"
        using False n' fits rb'(2) by (simp add: Let_def ac_simps)
      ultimately show ?thesis using rb' by (simp add: rv_ok_def)
    qed
  qed
qed

section \<open>The property\<close>

text \<open>The number of bytes that a sequence of operations appends.\<close>

fun appended :: "rv_op list \<Rightarrow> nat" where
  "appended [] = 0"
| "appended (Append bs # ops) = length bs + appended ops"
| "appended (_ # ops) = appended ops"

definition limit_ok :: "rv_op \<Rightarrow> bool" where
  "limit_ok opn = (case opn of TakeLen h m \<Rightarrow> m < 2 ^ 63 | _ \<Rightarrow> True)"

lemma append_ok: "rv_ok delim rb \<Longrightarrow> rv_ok delim (rv_append rb bs) \<and> pending (rv_append rb bs) = pending rb @ bs"
  by (auto simp: rv_ok_def rv_append_def intro: refuted_append)

lemma rv_step_ok:
  assumes ok: "rv_ok delim rb" "delim \<noteq> []" and b: "length (rv_buf rb) + appended (opn # ops) < 2 ^ 63" "limit_ok opn"
  shows "\<exists>r rb'. rv_step delim rb opn = Some (r, rb') \<and> rv_ok delim rb' \<and> length (rv_buf rb') + appended ops < 2 ^ 63 \<and>
    queue_step delim (pending rb) opn = (r, pending rb')"
proof (cases opn)
  case (Append bs)
  then show ?thesis using append_ok [OF ok(1)] b(1) by (auto simp: rv_append_def)
next
  case (TakeLen h m)
  then show ?thesis using take_length_ok [OF ok(1), of m h] b by (fastforce simp: limit_ok_def)
next
  case (TakeDelim m)
  then show ?thesis using take_delimiter_ok [OF ok, of m] b(1) by fastforce
next
  case Compact
  obtain rb' where rb': "rv_compact rb = Some rb'" "pending rb' = pending rb" "rv_scan rb' = rv_scan rb"
    "rv_consumed rb' \<le> length (rv_buf rb')" "length (rv_buf rb') \<le> length (rv_buf rb)"
    using compact_ok [of rb] ok by (auto simp: rv_ok_def)
  then have "rv_ok delim rb'" using ok(1) unfolding rv_ok_def by simp
  then show ?thesis using Compact rb' b(1) by simp
next
  case Clear
  then show ?thesis using b(1) by (simp add: rv_clear_def rv_ok_def)
qed

lemma rv_run_ok:
  assumes "rv_ok delim rb" "delim \<noteq> []" "length (rv_buf rb) + appended ops < 2 ^ 63" "list_all limit_ok ops"
  shows "\<exists>rs rb'. run (rv_step delim) rb ops = Some (rs, rb') \<and> spec_run (queue_step delim) (pending rb) ops = (rs, pending rb')"
  using assms
proof (induction ops arbitrary: rb)
  case (Cons opn ops)
  then obtain r rb' where "rv_step delim rb opn = Some (r, rb')" "rv_ok delim rb'" "length (rv_buf rb') + appended ops < 2 ^ 63"
    "queue_step delim (pending rb) opn = (r, pending rb')"
    using rv_step_ok [of delim rb opn ops] by auto
  then show ?case using Cons.IH [of rb'] Cons.prems by fastforce
qed simp

text \<open>
  Property C19.
  Any sequence of appends, frame requests, compactions and resets behaves as a queue of bytes from
  which frames are cut off: the length-prefixed request takes the next frame if it is complete, not
  empty and within the limit, the delimiter request everything up to the first delimiter, and
  otherwise nothing is consumed. So the frames depend only on the bytes, not on how they arrived in
  chunks, and the position from which the search for the delimiter resumes never skips one. All
  accesses are inside the buffer. The sequence uses one delimiter, and sizes stay below
  \<^verbatim>\<open>2^63\<close>.
\<close>

theorem recv_buffer_refines:
  assumes "delim \<noteq> []" "appended ops < 2 ^ 63" "list_all limit_ok ops"
  shows "\<exists>rs rb. run (rv_step delim) rv_new ops = Some (rs, rb) \<and> spec_run (queue_step delim) [] ops = (rs, pending rb)"
  using rv_run_ok [of delim rv_new ops] assms by (simp add: rv_new_def rv_ok_def)

theorem recv_buffer_refines_witness:
  "\<exists>rs rb. run (rv_step [13, 10]) rv_new [Append [1, 13], TakeDelim 0, Append [10, 0, 2, 7], TakeDelim 0, Append [8], TakeLen 2 0] = Some (rs, rb) \<and>
     rs = [None, None, None, Some [1], None, Some [7, 8]]"
proof -
  have "first_delim [13, 10] [1, 13] = None" "first_delim [13, 10] [1, 13, 10, 0, 2, 7] = Some 1"
    by (simp_all add: first_delim_def upt_rec)
  then show ?thesis
    using recv_buffer_refines [of "[13, 10]" "[Append [1, 13], TakeDelim 0, Append [10, 0, 2, 7], TakeDelim 0, Append [8], TakeLen 2 0]"]
    by (simp add: limit_ok_def frame_limit_def kDefaultMaxFrame_def big_endian_def Let_def) blast
qed

end
