(* ===== verification/Wire_Codec.thy ===== *)
theory Wire_Codec
  imports Recv_Buffer Le_Bytes
begin

text \<open>
  The framing of the wire: \<^verbatim>\<open>src/runtime/codec/frame_writer.cpp\<close> (one JSON text per line),
  \<^verbatim>\<open>merge_buffer.cpp\<close> (consecutive parts of one kind are merged) and \<^verbatim>\<open>event_ring.cpp\<close> (serialized frames under
  a budget of bytes, handed out in batches).
\<close>

section \<open>The code\<close>

definition frame_write :: "bytes \<Rightarrow> bytes" where
  "frame_write payload = (if payload \<noteq> [] then payload else []) @ [10]"

definition jsonl_record :: "bytes \<Rightarrow> bytes" where
  "jsonl_record envelope_frame = (if envelope_frame \<noteq> [] then envelope_frame else []) @ [10]"

record merge_buffer =
  mg_kind :: bytes
  mg_data :: bytes

definition mg_new :: merge_buffer where
  "mg_new = \<lparr>mg_kind = [], mg_data = []\<rparr>"

definition is_mergeable_kind :: "bytes \<Rightarrow> bool" where
  "is_mergeable_kind kind \<longleftrightarrow> kind = map of_char ''text'' \<or> kind = map of_char ''args''"

definition mg_empty :: "merge_buffer \<Rightarrow> bool" where
  "mg_empty m \<longleftrightarrow> mg_data m = []"

definition mg_append :: "merge_buffer \<Rightarrow> bytes \<Rightarrow> bytes \<Rightarrow> bool \<times> merge_buffer" where
  "mg_append m kind delta =
     (if mg_empty m then (True, m\<lparr>mg_kind := kind, mg_data := delta\<rparr>)
      else if kind = mg_kind m \<and> is_mergeable_kind kind then (True, m\<lparr>mg_data := mg_data m @ delta\<rparr>)
      else (False, m))"

definition mg_snapshot :: "merge_buffer \<Rightarrow> bytes" where
  "mg_snapshot m = mg_data m"

definition mg_reset :: "merge_buffer \<Rightarrow> merge_buffer" where
  "mg_reset m = m\<lparr>mg_kind := [], mg_data := []\<rparr>"

text \<open>The counters of the ring are unsigned 64-bit numbers.\<close>

record event_ring =
  er_frames :: "bytes list"
  er_capacity :: nat
  er_bytes :: nat
  er_dropped :: nat

definition er_new :: "nat \<Rightarrow> event_ring" where
  "er_new capacity_bytes = \<lparr>er_frames = [], er_capacity = capacity_bytes, er_bytes = 0, er_dropped = 0\<rparr>"

definition sub64 :: "nat \<Rightarrow> nat \<Rightarrow> nat" where
  "sub64 a b = (if b \<le> a then a - b else u64 (2 ^ 64 + a - b))"

function er_make_room :: "event_ring \<Rightarrow> nat \<Rightarrow> event_ring" where
  "er_make_room r n =
     (case er_frames r of
        [] \<Rightarrow> r
      | f # fs \<Rightarrow>
          if er_capacity r < u64 (er_bytes r + n)
          then er_make_room (r\<lparr>er_bytes := sub64 (er_bytes r) (length f), er_frames := fs, er_dropped := u64 (er_dropped r + 1)\<rparr>) n
          else r)"
  by pat_completeness auto
termination
  by (relation "measure (\<lambda>(r, n). length (er_frames r))") auto

declare er_make_room.simps [simp del]

definition er_push :: "event_ring \<Rightarrow> bytes \<Rightarrow> bool \<times> event_ring" where
  "er_push r frame =
     (if er_capacity r < length frame then (False, r)
      else let r = er_make_room r (length frame) in
        (True, r\<lparr>er_bytes := u64 (er_bytes r + length frame), er_frames := er_frames r @ [frame]\<rparr>))"

text \<open>The first loop of \<^verbatim>\<open>pop_batch\<close>: the number of frames of the batch and its bsize.\<close>

fun batch_size :: "bytes list \<Rightarrow> nat \<Rightarrow> nat \<Rightarrow> nat \<Rightarrow> nat \<times> nat" where
  "batch_size [] max_items n bsize = (n, bsize)"
| "batch_size (f # fs) max_items n bsize =
     (if max_items \<le> n then (n, bsize) else batch_size fs max_items (n + 1) (bsize + (4 + length f)))"

fun pop_loop :: "nat \<Rightarrow> event_ring \<Rightarrow> bytes \<Rightarrow> nat \<Rightarrow> (bytes \<times> event_ring) option" where
  "pop_loop 0 r packed p = Some (packed, r)"
| "pop_loop (Suc n) r packed p =
     (case er_frames r of
        [] \<Rightarrow> None
      | f # fs \<Rightarrow>
          do {
            packed \<leftarrow> put_le32 packed p (word_of_nat (length f));
            packed \<leftarrow> (if f \<noteq> [] then memcpy packed (p + 4) f 0 (length f) else Some packed);
            pop_loop n (r\<lparr>er_bytes := sub64 (er_bytes r) (length f), er_frames := fs\<rparr>) packed (p + 4 + length f)
          })"

definition er_pop_batch :: "event_ring \<Rightarrow> nat \<Rightarrow> (bytes \<times> event_ring) option" where
  "er_pop_batch r max_items =
     (let (n, bsize) = batch_size (er_frames r) max_items 0 4 in
      do { packed \<leftarrow> put_le32 (replicate bsize 0) 0 (word_of_nat n); pop_loop n r packed 4 })"

definition er_clear :: "event_ring \<Rightarrow> event_ring" where
  "er_clear r = r\<lparr>er_frames := [], er_bytes := 0\<rparr>"

section \<open>Lines through the receive buffer\<close>

lemma first_delim_line: "b \<notin> set p \<Longrightarrow> first_delim [b] (p @ b # q) = Some (length p)"
  by (rule first_delim_Some) (auto simp: nth_append in_set_conv_nth drop_append Cons_nth_drop_Suc [symmetric])

lemma queue_appends: "spec_run (queue_step delim) p (map Append cs) = (replicate (length cs) None, p @ concat cs)"
  by (induction cs arbitrary: p) auto

lemma queue_takes:
  assumes "\<forall>p \<in> set ps. 10 \<notin> set p \<and> length p \<le> frame_limit m"
  shows "spec_run (queue_step [10]) (concat (map frame_write ps) @ q) (replicate (length ps) (TakeDelim m)) = (map Some ps, q)"
  using assms
proof (induction ps)
  case (Cons p ps)
  have "concat (map frame_write (p # ps)) @ q = p @ 10 # (concat (map frame_write ps) @ q)" by (simp add: frame_write_def)
  then show ?case using Cons first_delim_line [of 10 p "concat (map frame_write ps) @ q"] by simp
qed simp

text \<open>
  Property C21.
  The writer of line frames and the receive buffer are inverse to each other: if the frames of any payloads without a
  line feed, each within the limit, arrive in chunks that are cut anywhere, then taking delimited frames returns
  exactly the payloads, in order and unchanged, and nothing is left over.
\<close>

theorem frames_roundtrip:
  assumes "concat chunks = concat (map frame_write ps)" "\<forall>p \<in> set ps. 10 \<notin> set p \<and> length p \<le> frame_limit m"
    "length (concat chunks) < 2 ^ 63"
  shows "\<exists>rb. run (rv_step [10]) rv_new (map Append chunks @ replicate (length ps) (TakeDelim m)) =
      Some (replicate (length chunks) None @ map Some ps, rb) \<and> pending rb = []"
proof -
  let ?ops = "map Append chunks @ replicate (length ps) (TakeDelim m)"
  have t: "appended (replicate k (TakeDelim m)) = 0" for k by (induction k) auto
  have "appended (map Append cs @ os) = length (concat cs) + appended os" for cs os by (induction cs) auto
  then have "appended ?ops < 2 ^ 63" using assms(3) t by simp
  moreover have "list_all limit_ok ?ops" by (auto simp: list_all_iff limit_ok_def)
  ultimately have "\<exists>rs rb. run (rv_step [10]) rv_new ?ops = Some (rs, rb) \<and> spec_run (queue_step [10]) [] ?ops = (rs, pending rb)"
    using rv_run_ok [of "[10]" rv_new ?ops] by (simp add: rv_new_def rv_ok_def)
  then show ?thesis
    using queue_takes [OF assms(2), of "[]"] by (auto simp: spec_run_append queue_appends assms(1))
qed

theorem frames_roundtrip_witness:
  "\<exists>rb. run (rv_step [10]) rv_new [Append [65], Append [66, 10, 67], Append [10], TakeDelim 0, TakeDelim 0] =
      Some ([None, None, None, Some [65, 66], Some [67]], rb) \<and> pending rb = []"
proof -
  have "\<exists>rb. run (rv_step [10]) rv_new (map Append [[65], [66, 10, 67], [10]] @ replicate (length [[65, 66], [67 :: byte]]) (TakeDelim 0)) =
      Some (replicate (length [[65], [66, 10, 67], [10 :: byte]]) None @ map Some [[65, 66], [67]], rb) \<and> pending rb = []"
    by (rule frames_roundtrip) (simp_all add: frame_write_def frame_limit_def kDefaultMaxFrame_def)
  then show ?thesis by simp
qed

section \<open>Merging parts\<close>

text \<open>A sender as the class comment describes it: when a part does not merge, it takes the group out, resets the buffer
  and appends the part again.\<close>

fun mg_send :: "merge_buffer \<Rightarrow> (bytes \<times> bytes) list \<Rightarrow> (bytes \<times> bytes) list" where
  "mg_send m [] = [(mg_kind m, mg_snapshot m)]"
| "mg_send m ((kind, delta) # parts) =
     (case mg_append m kind delta of
        (True, m') \<Rightarrow> mg_send m' parts
      | (False, _) \<Rightarrow> (mg_kind m, mg_snapshot m) # mg_send (snd (mg_append (mg_reset m) kind delta)) parts)"

text \<open>No byte is lost or moved, and a refused part always starts a group of its own.\<close>

lemma mg_send_bytes: "concat (map snd (mg_send m parts)) = mg_data m @ concat (map snd parts)"
proof (induction parts arbitrary: m)
  case (Cons p parts)
  then show ?case
    by (cases p) (auto simp: mg_append_def mg_empty_def mg_reset_def mg_snapshot_def)
qed (simp add: mg_snapshot_def)

lemma mg_append_after_reset: "fst (mg_append (mg_reset m) kind delta)"
  by (simp add: mg_append_def mg_empty_def mg_reset_def)

section \<open>The ring of frames\<close>

definition frames_bytes :: "bytes list \<Rightarrow> nat" where
  "frames_bytes fs = sum_list (map length fs)"

lemma frames_bytes_simps [simp]:
  "frames_bytes [] = 0" "frames_bytes (f # fs) = length f + frames_bytes fs" "frames_bytes (fs @ gs) = frames_bytes fs + frames_bytes gs"
  by (simp_all add: frames_bytes_def)

lemma frames_bytes_drop: "frames_bytes (drop k fs) \<le> frames_bytes fs"
  using frames_bytes_simps(3) [of "take k fs" "drop k fs"] by simp

text \<open>The specification: a queue that drops its oldest frames, as few as possible, so that the new frame fits the
  budget, and the batch of frames with their number and lengths in front.\<close>

definition least_drop :: "nat \<Rightarrow> bytes list \<Rightarrow> nat \<Rightarrow> nat" where
  "least_drop cap fs n = (LEAST k. frames_bytes (drop k fs) + n \<le> cap)"

definition batch :: "bytes list \<Rightarrow> bytes" where
  "batch fs = enc_le 4 (length fs) @ concat (map (\<lambda>f. enc_le 4 (length f) @ f) fs)"

datatype er_op = ErPush bytes | ErPop nat | ErClear

datatype er_result = Pushed bool | Batch bytes | Cleared

fun er_spec :: "nat \<times> bytes list \<times> nat \<Rightarrow> er_op \<Rightarrow> er_result \<times> nat \<times> bytes list \<times> nat" where
  "er_spec (cap, fs, dropped) (ErPush f) =
     (if cap < length f then (Pushed False, cap, fs, dropped)
      else let k = least_drop cap fs (length f) in (Pushed True, cap, drop k fs @ [f], u64 (dropped + k)))"
| "er_spec (cap, fs, dropped) (ErPop n) = (Batch (batch (take n fs)), cap, drop n fs, dropped)"
| "er_spec (cap, fs, dropped) ErClear = (Cleared, cap, [], dropped)"

fun er_step :: "event_ring \<Rightarrow> er_op \<Rightarrow> (er_result \<times> event_ring) option" where
  "er_step r (ErPush f) = (let (b, r) = er_push r f in Some (Pushed b, r))"
| "er_step r (ErPop n) = do { (packed, r) \<leftarrow> er_pop_batch r n; Some (Batch packed, r) }"
| "er_step r ErClear = Some (Cleared, er_clear r)"

definition er_ok :: "event_ring \<Rightarrow> bool" where
  "er_ok r \<longleftrightarrow> er_bytes r = frames_bytes (er_frames r) \<and> er_bytes r \<le> er_capacity r \<and> er_capacity r < 2 ^ 63 \<and> er_dropped r < 2 ^ 64"

abbreviation er_abs :: "event_ring \<Rightarrow> nat \<times> bytes list \<times> nat" where
  "er_abs r \<equiv> (er_capacity r, er_frames r, er_dropped r)"

lemma least_drop_0: "frames_bytes fs + n \<le> cap \<Longrightarrow> least_drop cap fs n = 0"
  unfolding least_drop_def by (rule Least_eq_0) simp

lemma least_drop_Suc:
  assumes "cap < frames_bytes (f # fs) + n" "n \<le> cap"
  shows "least_drop cap (f # fs) n = Suc (least_drop cap fs n)"
proof -
  have "(LEAST k. frames_bytes (drop k (f # fs)) + n \<le> cap) = Suc (LEAST k. frames_bytes (drop (Suc k) (f # fs)) + n \<le> cap)"
    using assms by (intro Least_Suc [where n = "Suc (length fs)"]) auto
  then show ?thesis by (simp add: least_drop_def)
qed

lemma make_room_ok:
  assumes "er_ok r" "n \<le> er_capacity r"
  shows "er_make_room r n =
    (let k = least_drop (er_capacity r) (er_frames r) n in
     r\<lparr>er_frames := drop k (er_frames r), er_bytes := frames_bytes (drop k (er_frames r)), er_dropped := u64 (er_dropped r + k)\<rparr>) \<and>
    frames_bytes (drop (least_drop (er_capacity r) (er_frames r) n) (er_frames r)) + n \<le> er_capacity r"
  using assms
proof (induction "er_frames r" arbitrary: r)
  case Nil
  then show ?case by (subst er_make_room.simps, cases r) (simp add: least_drop_0 er_ok_def u64_id)
next
  case (Cons f fs)
  note f = Cons(2) [symmetric]
  show ?case
  proof (cases "er_capacity r < er_bytes r + n")
    case True
    let ?r = "r\<lparr>er_bytes := sub64 (er_bytes r) (length f), er_frames := fs, er_dropped := u64 (er_dropped r + 1)\<rparr>"
    have step: "er_make_room r n = er_make_room ?r n"
      using True Cons.prems f by (subst er_make_room.simps) (simp add: er_ok_def u64_id)
    have ok: "er_ok ?r" using Cons.prems f by (simp add: er_ok_def sub64_def u64_def)
    have k: "least_drop (er_capacity r) (er_frames r) n = Suc (least_drop (er_capacity r) fs n)"
      using True Cons.prems f least_drop_Suc [of "er_capacity r" f fs n] by (simp add: er_ok_def)
    have u: "u64 (u64 (Suc (er_dropped r)) + j) = u64 (Suc (er_dropped r + j))" for j by (simp add: u64_def mod_simps)
    show ?thesis
      using Cons(1) [of ?r] ok Cons.prems(2) by (simp only: step k) (simp add: f u Let_def)
  next
    case False
    then have "least_drop (er_capacity r) (er_frames r) n = 0" "er_make_room r n = r"
      using Cons.prems f least_drop_0 [of "er_frames r" n] by (simp_all add: er_ok_def er_make_room.simps [of r] u64_id)
    then show ?thesis using Cons.prems False by (cases r) (simp add: er_ok_def u64_id)
  qed
qed

lemma push_ok:
  assumes "er_ok r"
  shows "\<exists>b r'. er_push r f = (b, r') \<and> er_ok r' \<and> er_spec (er_abs r) (ErPush f) = (Pushed b, er_abs r')"
proof (cases "er_capacity r < length f")
  case False
  define k where "k = least_drop (er_capacity r) (er_frames r) (length f)"
  define r1 where "r1 = r\<lparr>er_frames := drop k (er_frames r), er_bytes := frames_bytes (drop k (er_frames r)), er_dropped := u64 (er_dropped r + k)\<rparr>"
  have "er_make_room r (length f) = r1" "frames_bytes (drop k (er_frames r)) + length f \<le> er_capacity r"
    using make_room_ok [OF assms, of "length f"] False by (simp_all add: k_def r1_def Let_def)
  moreover have "er_capacity r < 2 ^ 63" using assms by (simp add: er_ok_def)
  ultimately show ?thesis using False by (simp add: er_push_def er_ok_def Let_def u64_id r1_def k_def [symmetric]) (auto simp: u64_def)
qed (use assms in \<open>auto simp: er_push_def\<close>)

lemma batch_size_eq:
  "n \<le> m \<Longrightarrow> batch_size fs m n bsize =
    (n + min (m - n) (length fs), bsize + sum_list (map (\<lambda>f. 4 + length f) (take (m - n) fs)))"
proof (induction fs arbitrary: n bsize)
  case (Cons f fs)
  show ?case
  proof (cases "m = n")
    case False
    then have "m - n = Suc (m - Suc n)" using Cons.prems by simp
    then show ?thesis using Cons False by simp
  qed simp
qed simp

definition frame_rec :: "bytes \<Rightarrow> bytes" where
  "frame_rec f = enc_le 4 (length f) @ f"

lemma batch_rec: "batch fs = enc_le 4 (length fs) @ concat (map frame_rec fs)"
  by (simp add: batch_def frame_rec_def [abs_def])

lemma length_frame_rec [simp]: "length (frame_rec f) = 4 + length f"
  by (simp add: frame_rec_def)

lemma enc_w_of_nat: "enc_w 4 (word_of_nat n :: 32 word) = enc_le 4 n"
  using enc_le_mod [of 4 n] by (simp add: enc_w_def unat_of_nat)

lemma put_frame:
  assumes "p + 4 + length f \<le> length b"
  shows "do { b \<leftarrow> put_le32 b p (word_of_nat (length f)); if f \<noteq> [] then memcpy b (p + 4) f 0 (length f) else Some b } =
    Some (blit b p (frame_rec f))"
proof -
  have "memcpy (blit b p (enc_le 4 (length f))) (p + 4) f 0 (length f) = Some (blit (blit b p (enc_le 4 (length f))) (p + 4) f)"
    using assms by (intro memcpy_all) simp
  then show ?thesis
    using assms blit_blit_adjacent [of p "enc_le 4 (length f)" f b]
    by (simp add: put_le32_eq enc_w_of_nat frame_rec_def del: memcpy_in)
qed

lemma pop_loop_ok:
  assumes "n \<le> length (er_frames r)" "er_bytes r = frames_bytes (er_frames r)"
    "p + length (concat (map frame_rec (take n (er_frames r)))) \<le> length b"
  shows "pop_loop n r b p = Some (blit b p (concat (map frame_rec (take n (er_frames r)))),
    r\<lparr>er_frames := drop n (er_frames r), er_bytes := frames_bytes (drop n (er_frames r))\<rparr>)"
  using assms
proof (induction n arbitrary: r b p)
  case (Suc n)
  then obtain f fs where f: "er_frames r = f # fs" by (cases "er_frames r") auto
  let ?r = "r\<lparr>er_bytes := sub64 (er_bytes r) (length f), er_frames := fs\<rparr>"
  have "pop_loop (Suc n) r b p = pop_loop n ?r (blit b p (frame_rec f)) (p + 4 + length f)"
    using put_frame [of p f b] Suc.prems(3) f by (simp flip: bind_assoc)
  also have "\<dots> = Some (blit (blit b p (frame_rec f)) (p + length (frame_rec f)) (concat (map frame_rec (take n fs))),
      r\<lparr>er_frames := drop n fs, er_bytes := frames_bytes (drop n fs)\<rparr>)"
    using Suc.IH [of ?r "p + 4 + length f" "blit b p (frame_rec f)"] Suc.prems f by (simp add: sub64_def add.assoc)
  finally show ?case using Suc.prems(3) f blit_blit_adjacent [of p "frame_rec f" "concat (map frame_rec (take n fs))" b] by simp
qed (cases r; simp)

lemma pop_ok:
  assumes "er_ok r"
  shows "er_pop_batch r m = Some (batch (take m (er_frames r)),
    r\<lparr>er_frames := drop m (er_frames r), er_bytes := frames_bytes (drop m (er_frames r))\<rparr>)"
proof -
  let ?fs = "take m (er_frames r)"
  define n where "n = min m (length (er_frames r))"
  define recs where "recs = concat (map frame_rec ?fs)"
  have n: "take n (er_frames r) = ?fs" "drop n (er_frames r) = drop m (er_frames r)" "length ?fs = n"
    by (auto simp: n_def min_def)
  have len: "sum_list (map (\<lambda>f. 4 + length f) ?fs) = length recs"
    by (simp add: recs_def length_concat frame_rec_def o_def)
  have "er_pop_batch r m = pop_loop n r (blit (replicate (4 + length recs) 0) 0 (enc_le 4 n)) 4"
    using batch_size_eq [of 0 m "er_frames r" 4] len
    by (simp add: er_pop_batch_def put_le32_eq enc_w_of_nat n_def min.commute)
  also have "\<dots> = Some (blit (blit (replicate (4 + length recs) 0) 0 (enc_le 4 n)) 4 recs,
      r\<lparr>er_frames := drop m (er_frames r), er_bytes := frames_bytes (drop m (er_frames r))\<rparr>)"
    using pop_loop_ok [of n r 4 "blit (replicate (4 + length recs) 0) 0 (enc_le 4 n)"] assms n
    by (simp add: n_def recs_def er_ok_def)
  also have "blit (blit (replicate (4 + length recs) 0) 0 (enc_le 4 n)) 4 recs = enc_le 4 n @ recs"
    using blit_blit_adjacent [of 0 "enc_le 4 n" recs "replicate (4 + length recs) 0"] by (simp add: blit_def)
  finally show ?thesis by (simp only: batch_rec n(3) recs_def)
qed

interpretation er: simulation er_step er_spec er_abs er_ok
proof unfold_locales
  fix r opn assume ok: "er_ok r"
  show "\<exists>q r'. er_step r opn = Some (q, r') \<and> er_ok r' \<and> er_spec (er_abs r) opn = (q, er_abs r')"
  proof (cases opn)
    case (ErPush f)
    then show ?thesis using push_ok [OF ok, of f] by auto
  next
    case (ErPop n)
    then show ?thesis using pop_ok [OF ok, of n] ok frames_bytes_drop [of n "er_frames r"] by (auto simp: er_ok_def)
  next
    case ErClear
    then show ?thesis using ok by (auto simp: er_ok_def er_clear_def)
  qed
qed

lemma er_spec_capacity: "spec_run er_spec (cap, fs, d) ops = (rs, c, gs, e) \<Longrightarrow> c = cap"
proof (induction ops arbitrary: fs d rs)
  case (Cons opn ops)
  then show ?case by (cases opn) (auto simp: Let_def split: prod.splits if_splits)
qed simp

text \<open>A batch is decoded in one way only.\<close>

lemma enc_le_inj: "enc_le 4 a = enc_le 4 b \<Longrightarrow> a < 2 ^ 32 \<Longrightarrow> b < 2 ^ 32 \<Longrightarrow> a = b"
proof -
  assume "enc_le 4 a = enc_le 4 b" and l: "a < 2 ^ 32" "b < 2 ^ 32"
  then have "a mod 256 ^ 4 = b mod 256 ^ 4" by (metis dec_enc_le)
  then show "a = b" using l by simp
qed

lemma frame_rec_inj:
  assumes "length f < 2 ^ 32" "length g < 2 ^ 32" "frame_rec f @ xs = frame_rec g @ ys"
  shows "f = g \<and> xs = ys"
proof -
  have "enc_le 4 (length f) = enc_le 4 (length g)" "f @ xs = g @ ys" using assms(3) by (simp_all add: frame_rec_def)
  then have "length f = length g" using assms(1,2) enc_le_inj by blast
  then show ?thesis using \<open>f @ xs = g @ ys\<close> by simp
qed

lemma batch_inj:
  assumes "batch fs = batch gs" "length fs < 2 ^ 32" "length gs < 2 ^ 32" "\<forall>f \<in> set (fs @ gs). length f < 2 ^ 32"
  shows "fs = gs"
proof -
  have e: "enc_le 4 (length fs) = enc_le 4 (length gs)" "concat (map frame_rec fs) = concat (map frame_rec gs)"
    using assms(1) by (simp_all add: batch_rec)
  then have "length fs = length gs" using assms(2,3) enc_le_inj by blast
  then show ?thesis using e(2) assms(4)
  proof (induction fs gs rule: list_induct2)
    case (Cons f fs g gs)
    then show ?case using frame_rec_inj [of f g "concat (map frame_rec fs)" "concat (map frame_rec gs)"] by simp
  qed simp
qed

text \<open>
  Property C22.
  The ring of frames refines a queue under a budget of bytes, over every sequence of pushes, batch pops and clears: a
  push is refused exactly if the frame is larger than the whole budget and otherwise discards the fewest oldest frames
  that make room; a batch holds the number of its frames and each frame with its length; the count of pending bytes is
  exact and never exceeds the budget, and every write of a batch stays inside it.
\<close>

theorem event_ring_refines:
  assumes "cap < 2 ^ 63"
  shows "\<exists>rs r. run er_step (er_new cap) ops = Some (rs, r) \<and> spec_run er_spec (cap, [], 0) ops = (rs, cap, er_frames r, er_dropped r) \<and>
    er_bytes r = frames_bytes (er_frames r) \<and> er_bytes r \<le> cap"
proof -
  have "er_ok (er_new cap)" using assms by (simp add: er_ok_def er_new_def)
  moreover have "er_abs (er_new cap) = (cap, [], 0)" by (simp add: er_new_def)
  ultimately obtain rs r where r: "run er_step (er_new cap) ops = Some (rs, r)" "er_ok r" "spec_run er_spec (cap, [], 0) ops = (rs, er_abs r)"
    using er.run_simulates [of "er_new cap" ops] by metis
  then have "er_capacity r = cap" using er_spec_capacity by blast
  then show ?thesis using r by (intro exI [of _ rs] exI [of _ r]) (simp add: er_ok_def)
qed

theorem event_ring_refines_witness:
  "\<exists>rs r. run er_step (er_new 5) [ErPush [1, 2], ErPush [3, 4], ErPush [5, 6], ErPush [1, 2, 3, 4, 5, 6], ErPop 1] = Some (rs, r) \<and>
     er_bytes r \<le> 5 \<and> rs ! 3 = Pushed False"
proof -
  let ?ops = "[ErPush [1, 2], ErPush [3, 4], ErPush [5, 6], ErPush [1, 2, 3, 4, 5, 6], ErPop 1]"
  have "(5 :: nat) < 2 ^ 63" by simp
  from event_ring_refines [OF this, of ?ops]
  obtain rs r where r: "run er_step (er_new 5) ?ops = Some (rs, r)" "spec_run er_spec (5, [], 0) ?ops = (rs, 5, er_frames r, er_dropped r)" "er_bytes r \<le> 5"
    by blast
  from r(2) have "rs ! 3 = Pushed False" by (auto simp: Let_def)
  then show ?thesis using r by blast
qed

end
