(* ===== verification/Utf8.thy ===== *)
theory Utf8
  imports Prelude "HOL-Library.Sublist"
begin

text \<open>
  UTF-8 decoding, \<^verbatim>\<open>src/runtime/common/utf8.cpp\<close>. The pointer \<^verbatim>\<open>it\<close> is the list of the bytes from there to
  the end, and advancing it is reported as a number of bytes. The decoder is shown to invert the
  encoding of RFC 3629 (surrogates included) and to accept nothing else; the routines that look at
  eight bytes at a time agree with the byte-wise ones.
\<close>

unbundle bit_operations_syntax

section \<open>The code\<close>

text \<open>Eight bytes as \<^verbatim>\<open>memcpy\<close> puts them into a \<^verbatim>\<open>uint64_t\<close>.\<close>

definition load64 :: "bytes \<Rightarrow> 64 word" where
  "load64 bs = word_of_int (horner_sum uint 256 bs)"

definition HIGH_BITS :: "64 word" where "HIGH_BITS = 0x8080808080808080"

fun ascii_tail :: "bytes \<Rightarrow> bool" where
  "ascii_tail [] = True"
| "ascii_tail (b # bs) = (if 0x80 \<le> b then False else ascii_tail bs)"

function is_ascii :: "bytes \<Rightarrow> bool" where
  "is_ascii p = (if 8 \<le> length p then if load64 (take 8 p) AND HIGH_BITS \<noteq> 0 then False else is_ascii (drop 8 p)
                 else ascii_tail p)"
  by pat_completeness auto
termination
  by (relation "measure length") auto

text \<open>The loop over the continuation bytes.\<close>

fun continue_cp :: "bytes \<Rightarrow> nat \<Rightarrow> 32 word \<Rightarrow> 32 word option option" where
  "continue_cp p 0 cp = Some (Some cp)"
| "continue_cp p (Suc n) cp =
     do {
       b \<leftarrow> rd p 0;
       if b AND 0xC0 \<noteq> 0x80 then Some None
       else continue_cp (tl p) n (push_bit 6 cp OR (ucast b AND 0x3F))
     }"

text \<open>Length, first bits and smallest code point of the sequence that a byte leads.\<close>

definition lead_byte :: "byte \<Rightarrow> (nat \<times> 32 word \<times> 32 word) option" where
  "lead_byte b0 =
     (if b0 AND 0xE0 = 0xC0 then Some (2, ucast b0 AND 0x1F, 0x80)
      else if b0 AND 0xF0 = 0xE0 then Some (3, ucast b0 AND 0x0F, 0x800)
      else if b0 AND 0xF8 = 0xF0 then Some (4, ucast b0 AND 0x07, 0x10000)
      else None)"

definition decode_cp :: "bytes \<Rightarrow> (32 word \<times> nat) option" where
  "decode_cp p =
     do {
       b0 \<leftarrow> rd p 0;
       if b0 < 0x80 then Some (ucast b0, 1)
       else case lead_byte b0 of
         None \<Rightarrow> Some (0xFFFD, 1)
       | Some (len, cp, min_cp) \<Rightarrow>
           if length p < len then Some (0xFFFD, 1)
           else do {
             r \<leftarrow> continue_cp (tl p) (len - 1) cp;
             case r of
               None \<Rightarrow> Some (0xFFFD, 1)
             | Some cp \<Rightarrow> if cp < min_cp \<or> 0x10FFFF < cp then Some (0xFFFD, 1) else Some (cp, len)
           }
     }"

text \<open>The number of ASCII bytes at the front, eight at a time and then one by one.\<close>

fun run_bytes :: "bytes \<Rightarrow> nat" where
  "run_bytes [] = 0"
| "run_bytes (b # bs) = (if b < 0x80 then Suc (run_bytes bs) else 0)"

function ascii_run :: "bytes \<Rightarrow> nat" where
  "ascii_run p = (if 8 \<le> length p \<and> load64 (take 8 p) AND HIGH_BITS = 0 then 8 + ascii_run (drop 8 p) else run_bytes p)"
  by pat_completeness auto
termination
  by (relation "measure length") auto

partial_function (option) count_loop :: "bytes \<Rightarrow> nat \<Rightarrow> nat option" where
  "count_loop p n =
     (if p = [] then Some n
      else do {
        b \<leftarrow> rd p 0;
        if b < 0x80 then let run = ascii_run p in count_loop (drop run p) (n + run)
        else do { (cp, k) \<leftarrow> decode_cp p; count_loop (drop k p) (n + 1) }
      })"

definition utf8_code_point_count :: "bytes \<Rightarrow> nat option" where
  "utf8_code_point_count p = count_loop p 0"

definition utf8_byte_length :: "32 word \<Rightarrow> nat" where
  "utf8_byte_length cp = 1 + of_bool (0x80 \<le> cp) + of_bool (0x800 \<le> cp) + of_bool (0x10000 \<le> cp)"

declare is_ascii.simps [simp del] ascii_run.simps [simp del]

section \<open>Bytes\<close>

lemma unat_byte: "unat (b :: byte) < 256"
  using unat_bound [of b] by simp

lemma unat_and_high:
  fixes b :: byte
  shows "unat (b AND NOT (mask n)) = unat b div 2 ^ n * 2 ^ n"
proof -
  have "b AND NOT (mask n) = push_bit n (drop_bit n b)"
    by (rule bit_word_eqI) (auto simp: bit_simps)
  moreover have "unat b div 2 ^ n * 2 ^ n < 256" using unat_byte [of b] by (metis div_times_less_eq_dividend le_less_trans)
  moreover have "unat (drop_bit n b) = unat b div 2 ^ n" unfolding unsigned_drop_bit_eq by (simp add: drop_bit_eq_div take_bit_nat_eq_self unat_byte)
  ultimately show ?thesis by (simp only: unsigned_push_bit_eq) (simp add: push_bit_eq_mult take_bit_nat_eq_self)
qed

lemma byte_masks:
  fixes b :: byte
  shows "b AND 0xE0 = 0xC0 \<longleftrightarrow> unat b div 32 = 6"
    and "b AND 0xF0 = 0xE0 \<longleftrightarrow> unat b div 16 = 14"
    and "b AND 0xF8 = 0xF0 \<longleftrightarrow> unat b div 8 = 30"
    and "b AND 0xC0 = 0x80 \<longleftrightarrow> unat b div 64 = 2"
    and "b < 0x80 \<longleftrightarrow> unat b < 128"
proof -
  have m: "(0xE0 :: byte) = NOT (mask 5)" "(0xF0 :: byte) = NOT (mask 4)" "(0xF8 :: byte) = NOT (mask 3)" "(0xC0 :: byte) = NOT (mask 6)"
    by (simp_all add: mask_eq_exp_minus_1 not_eq_complement)
  have e: "b AND NOT (mask n) = c \<longleftrightarrow> unat b div 2 ^ n * 2 ^ n = unat c" for n c
    unfolding unat_and_high [symmetric] by (simp add: word_eq_iff_unsigned)
  show "b AND 0xE0 = 0xC0 \<longleftrightarrow> unat b div 32 = 6" unfolding m(1) e by (simp; presburger)
  show "b AND 0xF0 = 0xE0 \<longleftrightarrow> unat b div 16 = 14" unfolding m(2) e by (simp; presburger)
  show "b AND 0xF8 = 0xF0 \<longleftrightarrow> unat b div 8 = 30" unfolding m(3) e by (simp; presburger)
  show "b AND 0xC0 = 0x80 \<longleftrightarrow> unat b div 64 = 2" unfolding m(4) e by (simp; presburger)
  show "b < 0x80 \<longleftrightarrow> unat b < 128" by (simp add: word_less_nat_alt)
qed

lemma low_bits:
  fixes b :: byte
  shows "ucast b AND 0x1F = (word_of_nat (unat b mod 32) :: 32 word)"
    and "ucast b AND 0x0F = (word_of_nat (unat b mod 16) :: 32 word)"
    and "ucast b AND 0x07 = (word_of_nat (unat b mod 8) :: 32 word)"
    and "ucast b AND 0x3F = (word_of_nat (unat b mod 64) :: 32 word)"
proof -
  have e: "ucast b AND mask n = (word_of_nat (unat b mod 2 ^ n) :: 32 word)" for n
  proof -
    have "ucast b AND mask n = (take_bit n (ucast b) :: 32 word)" by (simp add: take_bit_eq_mask)
    also have "\<dots> = word_of_nat (take_bit n (unat b))" by (simp flip: take_bit_of_nat)
    finally show ?thesis by (simp add: take_bit_eq_mod)
  qed
  show "ucast b AND 0x1F = (word_of_nat (unat b mod 32) :: 32 word)" using e [of 5] by (simp add: mask_eq_exp_minus_1)
  show "ucast b AND 0x0F = (word_of_nat (unat b mod 16) :: 32 word)" using e [of 4] by (simp add: mask_eq_exp_minus_1)
  show "ucast b AND 0x07 = (word_of_nat (unat b mod 8) :: 32 word)" using e [of 3] by (simp add: mask_eq_exp_minus_1)
  show "ucast b AND 0x3F = (word_of_nat (unat b mod 64) :: 32 word)" using e [of 6] by (simp add: mask_eq_exp_minus_1)
qed

lemma shift_or_n:
  assumes "y < 2 ^ n"
  shows "push_bit n (word_of_nat x) OR word_of_nat y = (word_of_nat (x * 2 ^ n + y) :: 32 word)"
proof -
  have y: "\<not> bit y i" if "n \<le> i" for i
  proof -
    have "take_bit n y = y" using assms by (simp add: take_bit_nat_eq_self)
    then show ?thesis using that by (metis bit_take_bit_iff leD)
  qed
  have "push_bit n (word_of_nat x) AND word_of_nat y = (0 :: 32 word)"
    by (rule bit_word_eqI) (use y in \<open>auto simp: bit_simps\<close>)
  then have "push_bit n (word_of_nat x) OR word_of_nat y = push_bit n (word_of_nat x) + (word_of_nat y :: 32 word)"
    by (simp add: disjunctive_add_eq_or)
  then show ?thesis by (simp add: push_bit_eq_mult)
qed

lemmas shift_or = shift_or_n [of _ 6, simplified]

section \<open>Encoding and decoding\<close>

definition encode :: "nat \<Rightarrow> bytes" where
  "encode c =
     (if c < 0x80 then [word_of_nat c]
      else if c < 0x800 then [word_of_nat (0xC0 + c div 64), word_of_nat (0x80 + c mod 64)]
      else if c < 0x10000 then
        [word_of_nat (0xE0 + c div 4096), word_of_nat (0x80 + c div 64 mod 64), word_of_nat (0x80 + c mod 64)]
      else [word_of_nat (0xF0 + c div 262144), word_of_nat (0x80 + c div 4096 mod 64), word_of_nat (0x80 + c div 64 mod 64),
            word_of_nat (0x80 + c mod 64)])"

lemma continue_cp_Cons:
  "continue_cp (b # q) (Suc n) (word_of_nat x) =
     (if unat b div 64 = 2 then continue_cp q n (word_of_nat (x * 64 + unat b mod 64)) else Some None)"
  using shift_or [of "unat b mod 64" x] by (simp add: byte_masks low_bits)

lemma word_of_nat_cmp:
  "v < 2 ^ 32 \<Longrightarrow> (word_of_nat v :: 32 word) < w \<longleftrightarrow> v < unat w"
  "v < 2 ^ 32 \<Longrightarrow> w < (word_of_nat v :: 32 word) \<longleftrightarrow> unat w < v"
  by (simp_all add: word_less_nat_alt unsigned_of_nat take_bit_nat_eq_self)

lemma decode1: "unat b0 < 128 \<Longrightarrow> decode_cp (b0 # q) = Some (word_of_nat (unat b0), 1)"
  by (simp add: decode_cp_def byte_masks)

lemma lead_bytes:
  "unat b0 div 32 = 6 \<Longrightarrow> lead_byte b0 = Some (2, word_of_nat (unat b0 mod 32), 0x80)"
  "unat b0 div 16 = 14 \<Longrightarrow> lead_byte b0 = Some (3, word_of_nat (unat b0 mod 16), 0x800)"
  "unat b0 div 8 = 30 \<Longrightarrow> lead_byte b0 = Some (4, word_of_nat (unat b0 mod 8), 0x10000)"
proof -
  show "unat b0 div 32 = 6 \<Longrightarrow> lead_byte b0 = Some (2, word_of_nat (unat b0 mod 32), 0x80)"
    by (simp add: lead_byte_def byte_masks low_bits)
  assume "unat b0 div 16 = 14"
  moreover from this have "unat b0 div 32 \<noteq> 6" using div_mult2_eq [of "unat b0" 16 2] by simp
  ultimately show "lead_byte b0 = Some (3, word_of_nat (unat b0 mod 16), 0x800)"
    by (simp add: lead_byte_def byte_masks low_bits)
next
  assume "unat b0 div 8 = 30"
  moreover from this have "unat b0 div 32 \<noteq> 6" "unat b0 div 16 \<noteq> 14"
    using div_mult2_eq [of "unat b0" 8 4] div_mult2_eq [of "unat b0" 8 2] by simp_all
  ultimately show "lead_byte b0 = Some (4, word_of_nat (unat b0 mod 8), 0x10000)"
    by (simp add: lead_byte_def byte_masks low_bits)
qed

lemma lead_not_ascii: "x div 32 = 6 \<or> x div 16 = 14 \<or> x div 8 = 30 \<Longrightarrow> \<not> x < 128" for x :: nat
  using div_le_mono [of x 127 32] div_le_mono [of x 127 16] div_le_mono [of x 127 8] by auto

lemma decode_short:
  assumes "\<not> unat b0 < 128" "lead_byte b0 = Some (len, cp, m)" "length q + 1 < len"
  shows "decode_cp (b0 # q) = Some (0xFFFD, 1)"
  using assms by (simp add: decode_cp_def byte_masks)

lemma decode_lead:
  assumes "\<not> unat b0 < 128" "lead_byte b0 = Some (len, cp, m)" "len \<le> length q + 1"
    "continue_cp q (len - 1) cp = Some (if ok then Some (word_of_nat v) else None)" "v < 2 ^ 32"
  shows "decode_cp (b0 # q) = (if ok \<and> unat m \<le> v \<and> v \<le> 0x10FFFF then Some (word_of_nat v, len) else Some (0xFFFD, 1))"
proof -
  have "(word_of_nat v :: 32 word) < m \<longleftrightarrow> v < unat m" "0x10FFFF < (word_of_nat v :: 32 word) \<longleftrightarrow> 0x10FFFF < v"
    using word_of_nat_cmp [OF assms(5)] by auto
  then show ?thesis using assms(1-4) by (cases ok) (auto simp: decode_cp_def byte_masks)
qed

lemma decode2:
  assumes "unat b0 div 32 = 6"
  shows "decode_cp (b0 # q) =
    (case q of
       b1 # _ \<Rightarrow> if unat b1 div 64 = 2 \<and> 0x80 \<le> unat b0 mod 32 * 64 + unat b1 mod 64
                 then Some (word_of_nat (unat b0 mod 32 * 64 + unat b1 mod 64), 2) else Some (0xFFFD, 1)
     | _ \<Rightarrow> Some (0xFFFD, 1))"
proof (cases q)
  case Nil
  have "\<not> unat b0 < 128" using lead_not_ascii assms by blast
  then show ?thesis using decode_short [OF _ lead_bytes(1) [OF assms], of q] Nil by simp
next
  case (Cons b1 r)
  let ?v = "unat b0 mod 32 * 64 + unat b1 mod 64"
  have v: "?v < 2048" using mod_less_divisor [of 32 "unat b0"] mod_less_divisor [of 64 "unat b1"] by linarith
  have n: "\<not> unat b0 < 128" using lead_not_ascii assms by blast
  have c: "continue_cp q (2 - 1) (word_of_nat (unat b0 mod 32)) = Some (if unat b1 div 64 = 2 then Some (word_of_nat ?v) else None)"
    using continue_cp_Cons [of b1 r 0] Cons by simp
  have "decode_cp (b0 # q) = (if unat b1 div 64 = 2 \<and> unat (0x80 :: 32 word) \<le> ?v \<and> ?v \<le> 0x10FFFF then Some (word_of_nat ?v, 2) else Some (0xFFFD, 1))"
    by (rule decode_lead [OF n lead_bytes(1) [OF assms] _ c]) (use Cons v in auto)
  moreover have "?v \<le> 0x10FFFF" using v by simp
  ultimately show ?thesis using Cons by simp
qed

lemma decode3:
  assumes "unat b0 div 16 = 14"
  shows "decode_cp (b0 # q) =
    (case q of
       b1 # b2 # _ \<Rightarrow>
         let v = unat b0 mod 16 * 4096 + unat b1 mod 64 * 64 + unat b2 mod 64 in
         if unat b1 div 64 = 2 \<and> unat b2 div 64 = 2 \<and> 0x800 \<le> v then Some (word_of_nat v, 3) else Some (0xFFFD, 1)
     | _ \<Rightarrow> Some (0xFFFD, 1))"
proof (cases "2 \<le> length q")
  case False
  have "\<not> unat b0 < 128" using lead_not_ascii assms by blast
  then show ?thesis using decode_short [OF _ lead_bytes(2) [OF assms], of q] False by (auto split: list.splits)
next
  case True
  then obtain b1 b2 r where q: "q = b1 # b2 # r" by (metis Suc_le_length_iff numeral_2_eq_2)
  let ?v = "unat b0 mod 16 * 4096 + unat b1 mod 64 * 64 + unat b2 mod 64"
  have v: "?v < 65536"
    using mod_less_divisor [of 16 "unat b0"] mod_less_divisor [of 64 "unat b1"] mod_less_divisor [of 64 "unat b2"] by linarith
  have n: "\<not> unat b0 < 128" using lead_not_ascii assms by blast
  have c: "continue_cp q (3 - 1) (word_of_nat (unat b0 mod 16)) =
      Some (if unat b1 div 64 = 2 \<and> unat b2 div 64 = 2 then Some (word_of_nat ?v) else None)"
    using q continue_cp_Cons [of b1 "b2 # r" 1 "unat b0 mod 16"] continue_cp_Cons [of b2 r 0 "unat b0 mod 16 * 64 + unat b1 mod 64"]
    by (simp add: numeral_2_eq_2 algebra_simps)
  have "decode_cp (b0 # q) = (if (unat b1 div 64 = 2 \<and> unat b2 div 64 = 2) \<and> unat (0x800 :: 32 word) \<le> ?v \<and> ?v \<le> 0x10FFFF
      then Some (word_of_nat ?v, 3) else Some (0xFFFD, 1))"
    by (rule decode_lead [OF n lead_bytes(2) [OF assms] _ c]) (use q v in auto)
  moreover have "?v \<le> 0x10FFFF" using v by simp
  ultimately show ?thesis using q by (simp add: Let_def)
qed

lemma decode4:
  assumes "unat b0 div 8 = 30"
  shows "decode_cp (b0 # q) =
    (case q of
       b1 # b2 # b3 # _ \<Rightarrow>
         let v = unat b0 mod 8 * 262144 + unat b1 mod 64 * 4096 + unat b2 mod 64 * 64 + unat b3 mod 64 in
         if unat b1 div 64 = 2 \<and> unat b2 div 64 = 2 \<and> unat b3 div 64 = 2 \<and> 0x10000 \<le> v \<and> v \<le> 0x10FFFF
         then Some (word_of_nat v, 4) else Some (0xFFFD, 1)
     | _ \<Rightarrow> Some (0xFFFD, 1))"
proof (cases "3 \<le> length q")
  case False
  have "\<not> unat b0 < 128" using lead_not_ascii assms by blast
  then show ?thesis using decode_short [OF _ lead_bytes(3) [OF assms], of q] False by (auto split: list.splits)
next
  case True
  then obtain b1 b2 b3 r where q: "q = b1 # b2 # b3 # r"
    by (metis Suc_le_length_iff numeral_3_eq_3)
  let ?v = "unat b0 mod 8 * 262144 + unat b1 mod 64 * 4096 + unat b2 mod 64 * 64 + unat b3 mod 64"
  have v: "?v < 2097152"
    using mod_less_divisor [of 8 "unat b0"] mod_less_divisor [of 64 "unat b1"] mod_less_divisor [of 64 "unat b2"]
      mod_less_divisor [of 64 "unat b3"] by linarith
  have n: "\<not> unat b0 < 128" using lead_not_ascii assms by blast
  have c: "continue_cp q (4 - 1) (word_of_nat (unat b0 mod 8)) =
      Some (if unat b1 div 64 = 2 \<and> unat b2 div 64 = 2 \<and> unat b3 div 64 = 2 then Some (word_of_nat ?v) else None)"
    using q continue_cp_Cons [of b1 "b2 # b3 # r" 2 "unat b0 mod 8"] continue_cp_Cons [of b2 "b3 # r" 1 "unat b0 mod 8 * 64 + unat b1 mod 64"]
      continue_cp_Cons [of b3 r 0 "(unat b0 mod 8 * 64 + unat b1 mod 64) * 64 + unat b2 mod 64"]
    by (simp add: numeral_2_eq_2 numeral_3_eq_3 algebra_simps)
  have "decode_cp (b0 # q) = (if (unat b1 div 64 = 2 \<and> unat b2 div 64 = 2 \<and> unat b3 div 64 = 2) \<and>
        unat (0x10000 :: 32 word) \<le> ?v \<and> ?v \<le> 0x10FFFF then Some (word_of_nat ?v, 4) else Some (0xFFFD, 1))"
    by (rule decode_lead [OF n lead_bytes(3) [OF assms] _ c]) (use q v in auto)
  then show ?thesis using q by (simp add: Let_def)
qed

lemma decode_bad:
  "\<not> unat b0 < 128 \<Longrightarrow> unat b0 div 32 \<noteq> 6 \<Longrightarrow> unat b0 div 16 \<noteq> 14 \<Longrightarrow> unat b0 div 8 \<noteq> 30 \<Longrightarrow> decode_cp (b0 # q) = Some (0xFFFD, 1)"
  by (simp add: decode_cp_def lead_byte_def byte_masks)

lemma unat_byte_of: "n < 256 \<Longrightarrow> unat (word_of_nat n :: byte) = n"
  by (simp add: unsigned_of_nat take_bit_nat_eq_self)

lemma base_digits:
  fixes x d k :: nat
  assumes "x < d"
  shows "(k * d + x) div d = k" "(k * d + x) mod d = x"
  using assms by auto

lemma base_digits_of:
  fixes n :: nat
  assumes "n div d = k"
  shows "k * d + n mod d = n"
  using assms by auto

lemma div_4096: "(n::nat) div 4096 = n div 64 div 64" and div_262144: "(n::nat) div 262144 = n div 64 div 64 div 64"
  by (simp_all flip: div_mult2_eq)

lemma cont_byte: "x < 64 \<Longrightarrow> unat (word_of_nat (0x80 + x) :: byte) div 64 = 2 \<and> unat (word_of_nat (0x80 + x) :: byte) mod 64 = x"
  using base_digits [of x 64 2] by (subst (1 2) unat_byte_of) auto

lemma decode_encode:
  assumes "c \<le> 0x10FFFF"
  shows "decode_cp (encode c @ r) = Some (word_of_nat c, length (encode c))"
proof -
  consider "c < 0x80" | "0x80 \<le> c" "c < 0x800" | "0x800 \<le> c" "c < 0x10000" | "0x10000 \<le> c" using assms by linarith
  then show ?thesis
  proof cases
    case 1
    then have "unat (word_of_nat c :: byte) = c" by (intro unat_byte_of) simp
    then show ?thesis using 1 decode1 [of "word_of_nat c" r] by (simp add: encode_def)
  next
    case 2
    let ?x = "c div 64"
    let ?b = "word_of_nat (0xC0 + ?x) :: byte"
    have x: "?x < 32" using 2 by (simp add: less_mult_imp_div_less)
    then have "unat ?b = 6 * 32 + ?x" using unat_byte_of [of "0xC0 + ?x"] by simp
    then have d: "unat ?b div 32 = 6" "unat ?b mod 32 = ?x" using base_digits [OF x, of 6] by simp_all
    show ?thesis using 2 d decode2 [OF d(1), of "word_of_nat (0x80 + c mod 64) # r"] cont_byte [of "c mod 64"]
      by (simp add: encode_def)
  next
    case 3
    let ?x = "c div 64 div 64"
    let ?b = "word_of_nat (0xE0 + ?x) :: byte"
    have x: "?x < 16" using 3 by (simp add: less_mult_imp_div_less)
    then have "unat ?b = 14 * 16 + ?x" using unat_byte_of [of "0xE0 + ?x"] by simp
    then have d: "unat ?b div 16 = 14" "unat ?b mod 16 = ?x" using base_digits [OF x, of 14] by simp_all
    have v: "?x * 4096 + c div 64 mod 64 * 64 + c mod 64 = c"
      using div_mult_mod_eq [of c 64] div_mult_mod_eq [of "c div 64" 64] by linarith
    have e: "encode c = [?b, word_of_nat (0x80 + c div 64 mod 64), word_of_nat (0x80 + c mod 64)]"
      using 3 by (simp add: encode_def div_4096)
    have "decode_cp (?b # word_of_nat (0x80 + c div 64 mod 64) # word_of_nat (0x80 + c mod 64) # r) = Some (word_of_nat c, 3)"
      unfolding decode3 [OF d(1)] list.case Let_def d(2)
      using cont_byte [of "c mod 64"] cont_byte [of "c div 64 mod 64"] v 3(1) by (simp only: mod_less_divisor zero_less_numeral) simp
    then show ?thesis unfolding e by simp
  next
    case 4
    let ?x = "c div 64 div 64 div 64"
    let ?b = "word_of_nat (0xF0 + ?x) :: byte"
    have x: "?x < 8" using assms by (simp add: less_mult_imp_div_less)
    then have "unat ?b = 30 * 8 + ?x" using unat_byte_of [of "0xF0 + ?x"] by simp
    then have d: "unat ?b div 8 = 30" "unat ?b mod 8 = ?x" using base_digits [OF x, of 30] by simp_all
    have v: "?x * 262144 + c div 64 div 64 mod 64 * 4096 + c div 64 mod 64 * 64 + c mod 64 = c"
      using div_mult_mod_eq [of c 64] div_mult_mod_eq [of "c div 64" 64] div_mult_mod_eq [of "c div 64 div 64" 64] by linarith
    have e: "encode c = [?b, word_of_nat (0x80 + c div 64 div 64 mod 64), word_of_nat (0x80 + c div 64 mod 64), word_of_nat (0x80 + c mod 64)]"
      using 4 by (simp add: encode_def div_4096 div_262144)
    have "decode_cp (?b # word_of_nat (0x80 + c div 64 div 64 mod 64) # word_of_nat (0x80 + c div 64 mod 64) # word_of_nat (0x80 + c mod 64) # r) =
        Some (word_of_nat c, 4)"
      unfolding decode4 [OF d(1)] list.case Let_def d(2)
      using cont_byte [of "c mod 64"] cont_byte [of "c div 64 mod 64"] cont_byte [of "c div 64 div 64 mod 64"] v 4 assms
      by (simp only: mod_less_divisor zero_less_numeral) simp
    then show ?thesis unfolding e by simp
  qed
qed

text \<open>The bytes of a sequence that the decoder accepts are the encoding of the code point.\<close>

lemma encode2:
  assumes "unat b0 div 32 = 6" "unat b1 div 64 = 2" "0x80 \<le> unat b0 mod 32 * 64 + unat b1 mod 64"
  shows "encode (unat b0 mod 32 * 64 + unat b1 mod 64) = [b0, b1]"
proof -
  let ?v = "unat b0 mod 32 * 64 + unat b1 mod 64"
  have "?v < 2048" using mod_less_divisor [of 32 "unat b0"] mod_less_divisor [of 64 "unat b1"] by linarith
  moreover have "?v div 64 = unat b0 mod 32" "?v mod 64 = unat b1 mod 64" by simp_all
  moreover have "0xC0 + unat b0 mod 32 = unat b0" "0x80 + unat b1 mod 64 = unat b1"
    using base_digits_of [OF assms(1)] base_digits_of [OF assms(2)] by simp_all
  ultimately show ?thesis using assms(3) by (simp add: encode_def)
qed

lemma encode3:
  assumes "unat b0 div 16 = 14" "unat b1 div 64 = 2" "unat b2 div 64 = 2"
    "0x800 \<le> unat b0 mod 16 * 4096 + unat b1 mod 64 * 64 + unat b2 mod 64"
  shows "encode (unat b0 mod 16 * 4096 + unat b1 mod 64 * 64 + unat b2 mod 64) = [b0, b1, b2]"
proof -
  define x y z where xyz: "x = unat b0 mod 16" "y = unat b1 mod 64" "z = unat b2 mod 64"
  have l: "x < 16" "y < 64" "z < 64" by (simp_all add: xyz)
  define v where "v = x * 4096 + y * 64 + z"
  have v: "v = (x * 64 + y) * 64 + z" by (simp add: v_def)
  have "v < 65536" using l unfolding v_def by linarith
  moreover have "v div 64 = x * 64 + y" "v mod 64 = z" unfolding v by (rule base_digits [OF l(3)])+
  moreover have "(x * 64 + y) div 64 = x" "(x * 64 + y) mod 64 = y" by (rule base_digits [OF l(2)])+
  moreover have "0xE0 + x = unat b0" "0x80 + y = unat b1" "0x80 + z = unat b2"
    using base_digits_of [OF assms(1)] base_digits_of [OF assms(2)] base_digits_of [OF assms(3)] by (simp_all add: xyz)
  moreover have "0x800 \<le> v" using assms(4) by (simp add: v_def xyz)
  ultimately have "encode v = [b0, b1, b2]" by (simp add: encode_def div_4096)
  then show ?thesis by (simp add: v_def xyz)
qed

lemma encode4:
  assumes "unat b0 div 8 = 30" "unat b1 div 64 = 2" "unat b2 div 64 = 2" "unat b3 div 64 = 2"
    "0x10000 \<le> unat b0 mod 8 * 262144 + unat b1 mod 64 * 4096 + unat b2 mod 64 * 64 + unat b3 mod 64"
  shows "encode (unat b0 mod 8 * 262144 + unat b1 mod 64 * 4096 + unat b2 mod 64 * 64 + unat b3 mod 64) = [b0, b1, b2, b3]"
proof -
  define x y z w where xyz: "x = unat b0 mod 8" "y = unat b1 mod 64" "z = unat b2 mod 64" "w = unat b3 mod 64"
  have l: "y < 64" "z < 64" "w < 64" by (simp_all add: xyz)
  define v where "v = x * 262144 + y * 4096 + z * 64 + w"
  have v: "v = ((x * 64 + y) * 64 + z) * 64 + w" by (simp add: v_def)
  have "v div 64 = (x * 64 + y) * 64 + z" "v mod 64 = w" unfolding v by (rule base_digits [OF l(3)])+
  moreover have "((x * 64 + y) * 64 + z) div 64 = x * 64 + y" "((x * 64 + y) * 64 + z) mod 64 = z"
    by (rule base_digits [OF l(2)])+
  moreover have "(x * 64 + y) div 64 = x" "(x * 64 + y) mod 64 = y" by (rule base_digits [OF l(1)])+
  moreover have "0xF0 + x = unat b0" "0x80 + y = unat b1" "0x80 + z = unat b2" "0x80 + w = unat b3"
    using base_digits_of [OF assms(1)] base_digits_of [OF assms(2)] base_digits_of [OF assms(3)] base_digits_of [OF assms(4)]
    by (simp_all add: xyz)
  moreover have "0x10000 \<le> v" using assms(5) by (simp add: v_def xyz)
  ultimately have "encode v = [b0, b1, b2, b3]" by (simp only: encode_def div_4096 div_262144) simp
  then show ?thesis by (simp add: v_def xyz)
qed

lemma unat_cp: "v \<le> 0x10FFFF \<Longrightarrow> unat (word_of_nat v :: 32 word) = v"
  by (simp add: unsigned_of_nat take_bit_nat_eq_self)

lemma decode_cases:
  assumes "p \<noteq> []"
  shows "decode_cp p = Some (0xFFFD, 1) \<or>
    (\<exists>c \<le> 0x10FFFF. prefix (encode c) p \<and> decode_cp p = Some (word_of_nat c, length (encode c)))"
proof -
  obtain b0 q where p: "p = b0 # q" using assms by (cases p) auto
  consider "unat b0 < 128" | "\<not> unat b0 < 128" "unat b0 div 32 = 6" | "\<not> unat b0 < 128" "unat b0 div 16 = 14"
    | "\<not> unat b0 < 128" "unat b0 div 8 = 30"
    | "\<not> unat b0 < 128" "unat b0 div 32 \<noteq> 6" "unat b0 div 16 \<noteq> 14" "unat b0 div 8 \<noteq> 30" by blast
  then show ?thesis
  proof cases
    case 1
    then show ?thesis using p decode1 [OF 1, of q] by (auto simp: encode_def intro!: exI [of _ "unat b0"])
  next
    case 2
    let ?v = "\<lambda>b1. unat b0 mod 32 * 64 + unat b1 mod 64"
    have lt: "?v b1 \<le> 0x10FFFF" for b1 using mod_less_divisor [of 32 "unat b0"] mod_less_divisor [of 64 "unat b1"] by linarith
    show ?thesis
    proof (cases "\<exists>b1 r. q = b1 # r \<and> unat b1 div 64 = 2 \<and> 0x80 \<le> ?v b1")
      case True
      then obtain b1 r where q: "q = b1 # r" "unat b1 div 64 = 2" "0x80 \<le> ?v b1" by blast
      then show ?thesis using p lt [of b1] encode2 [OF 2(2) q(2,3)] decode2 [OF 2(2), of q]
        by (intro disjI2 exI [of _ "?v b1"]) simp
    next
      case False
      then show ?thesis using p decode2 [OF 2(2), of q] by (auto split: list.splits)
    qed
  next
    case 3
    let ?v = "\<lambda>b1 b2. unat b0 mod 16 * 4096 + unat b1 mod 64 * 64 + unat b2 mod 64"
    have lt: "?v b1 b2 \<le> 0x10FFFF" for b1 b2
      using mod_less_divisor [of 16 "unat b0"] mod_less_divisor [of 64 "unat b1"] mod_less_divisor [of 64 "unat b2"] by linarith
    show ?thesis
    proof (cases "\<exists>b1 b2 r. q = b1 # b2 # r \<and> unat b1 div 64 = 2 \<and> unat b2 div 64 = 2 \<and> 0x800 \<le> ?v b1 b2")
      case True
      then obtain b1 b2 r where q: "q = b1 # b2 # r" "unat b1 div 64 = 2" "unat b2 div 64 = 2" "0x800 \<le> ?v b1 b2" by blast
      then show ?thesis using p lt [of b1 b2] encode3 [OF 3(2) q(2-4)] decode3 [OF 3(2), of q]
        by (intro disjI2 exI [of _ "?v b1 b2"]) (simp add: Let_def)
    next
      case False
      then show ?thesis using p decode3 [OF 3(2), of q] by (auto simp: Let_def split: list.splits)
    qed
  next
    case 4
    let ?v = "\<lambda>b1 b2 b3. unat b0 mod 8 * 262144 + unat b1 mod 64 * 4096 + unat b2 mod 64 * 64 + unat b3 mod 64"
    show ?thesis
    proof (cases "\<exists>b1 b2 b3 r. q = b1 # b2 # b3 # r \<and> unat b1 div 64 = 2 \<and> unat b2 div 64 = 2 \<and> unat b3 div 64 = 2 \<and>
        0x10000 \<le> ?v b1 b2 b3 \<and> ?v b1 b2 b3 \<le> 0x10FFFF")
      case True
      then obtain b1 b2 b3 r where q: "q = b1 # b2 # b3 # r" "unat b1 div 64 = 2" "unat b2 div 64 = 2" "unat b3 div 64 = 2"
        "0x10000 \<le> ?v b1 b2 b3" "?v b1 b2 b3 \<le> 0x10FFFF" by blast
      then show ?thesis using p encode4 [OF 4(2) q(2-5)] decode4 [OF 4(2), of q]
        by (intro disjI2 exI [of _ "?v b1 b2 b3"]) (simp add: Let_def)
    next
      case no: False
      have "decode_cp p = Some (0xFFFD, 1)"
      proof (cases "\<exists>b1 b2 b3 r. q = b1 # b2 # b3 # r")
        case True
        then obtain b1 b2 b3 r where q: "q = b1 # b2 # b3 # r" by blast
        then have "\<not> (unat b1 div 64 = 2 \<and> unat b2 div 64 = 2 \<and> unat b3 div 64 = 2 \<and> 0x10000 \<le> ?v b1 b2 b3 \<and> ?v b1 b2 b3 \<le> 0x10FFFF)"
          using no by blast
        then show ?thesis unfolding p q decode4 [OF 4(2)] list.case Let_def by (simp only: if_False)
      next
        case False
        then show ?thesis unfolding p decode4 [OF 4(2)] by (simp only: split: list.split) simp
      qed
      then show ?thesis by blast
    qed
  next
    case 5
    then show ?thesis using p decode_bad by simp
  qed
qed

text \<open>
  Property C15.
  Decoding one code point: if the bytes begin with the encoding of a code point up to
  \<^verbatim>\<open>U+10FFFF\<close>, the decoder returns it and the length of its encoding, which is what \<^verbatim>\<open>utf8_byte_length\<close>
  computes; on all other bytes (overlong forms, stray or missing continuation bytes, a sequence cut
  off by the end, code points that are too large) it returns \<^verbatim>\<open>U+FFFD\<close> and moves on by one byte. It
  never reads beyond the end.
\<close>

theorem utf8_decode_correct:
  assumes "p \<noteq> []"
  shows "(\<forall>c \<le> 0x10FFFF. prefix (encode c) p \<longrightarrow> decode_cp p = Some (word_of_nat c, utf8_byte_length (word_of_nat c))) \<and>
    ((\<nexists>c. c \<le> 0x10FFFF \<and> prefix (encode c) p) \<longrightarrow> decode_cp p = Some (0xFFFD, 1))"
proof -
  have len: "utf8_byte_length (word_of_nat c) = length (encode c)" if "c \<le> 0x10FFFF" for c
    using that unat_cp [OF that] by (auto simp: utf8_byte_length_def encode_def word_le_nat_alt)
  have "decode_cp p = Some (word_of_nat c, utf8_byte_length (word_of_nat c))" if "c \<le> 0x10FFFF" "prefix (encode c) p" for c
    using that decode_encode len by (auto elim!: prefixE)
  then show ?thesis using decode_cases [OF assms] by auto
qed

theorem utf8_decode_correct_witness:
  "decode_cp [0xE2, 0x82, 0xAC, 0x21] = Some (0x20AC, 3) \<and> encode 0x20AC = [0xE2, 0x82, 0xAC]"
proof -
  have "encode 0x20AC = [0xE2, 0x82, 0xAC]" by (simp add: encode_def)
  then show ?thesis using utf8_decode_correct [of "[0xE2, 0x82, 0xAC, 0x21]"]
    by (auto simp: utf8_byte_length_def dest!: spec [of _ "0x20AC"])
qed

section \<open>Eight bytes at a time\<close>

lemma bit_byte_7: "bit (b :: byte) 7 \<longleftrightarrow> 128 \<le> unat b"
proof -
  have "bit b 7 \<longleftrightarrow> bit (unat b) 7" by (simp add: bit_simps)
  then have "bit b 7 \<longleftrightarrow> odd (unat b div 2 ^ 7)" by (simp only: bit_iff_odd)
  moreover have "unat b div 2 ^ 7 = (if 128 \<le> unat b then 1 else 0)" using unat_byte [of b] by auto
  ultimately show ?thesis by simp
qed

lemma bit_load64:
  assumes "length bs = 8" "n < 64"
  shows "bit (load64 bs) n \<longleftrightarrow> bit (bs ! (n div 8)) (n mod 8)"
proof -
  have "n div 8 < 8" using assms(2) by (simp add: less_mult_imp_div_less)
  then show ?thesis using bit_horner_sum_uint_exp_iff [of bs n] assms by (simp add: load64_def bit_simps)
qed

lemma bit_HIGH_BITS: "bit HIGH_BITS n \<longleftrightarrow> n < 64 \<and> n mod 8 = 7"
proof (cases "n < 64")
  case True
  let ?bs = "[0x80, 0x80, 0x80, 0x80, 0x80, 0x80, 0x80, 0x80] :: bytes"
  have "HIGH_BITS = load64 ?bs" by (simp add: HIGH_BITS_def load64_def)
  moreover have "n div 8 < 8" using True by (simp add: less_mult_imp_div_less)
  then have "?bs ! (n div 8) \<in> set ?bs" by (intro nth_mem) simp
  then have "?bs ! (n div 8) = 2 ^ 7" by (simp only: list.set insert_iff empty_iff) simp
  moreover have "bit (2 ^ 7 :: byte) (n mod 8) \<longleftrightarrow> n mod 8 = 7" by (simp only: bit_exp_iff) auto
  ultimately show ?thesis using True bit_load64 [of ?bs n] by simp
next
  case False
  then show ?thesis using bit_imp_le_length [of HIGH_BITS n] by auto
qed

lemma load64_high:
  assumes "length bs = 8"
  shows "load64 bs AND HIGH_BITS = 0 \<longleftrightarrow> (\<forall>b \<in> set bs. unat b < 128)"
proof -
  have "load64 bs AND HIGH_BITS = 0 \<longleftrightarrow> (\<forall>n < 64. n mod 8 = 7 \<longrightarrow> \<not> bit (load64 bs) n)"
    by (auto simp: bit_eq_iff bit_and_iff bit_HIGH_BITS)
  also have "\<dots> \<longleftrightarrow> (\<forall>n < 64. n mod 8 = 7 \<longrightarrow> \<not> bit (bs ! (n div 8)) 7)"
    using bit_load64 [OF assms] by auto
  also have "\<dots> \<longleftrightarrow> (\<forall>i < 8. \<not> bit (bs ! i) 7)"
  proof
    assume h: "\<forall>n < 64. n mod 8 = 7 \<longrightarrow> \<not> bit (bs ! (n div 8)) 7"
    show "\<forall>i < 8. \<not> bit (bs ! i) 7"
    proof (intro allI impI)
      fix i :: nat assume "i < 8"
      then show "\<not> bit (bs ! i) 7" using h [rule_format, of "i * 8 + 7"] base_digits [of 7 8 i] by simp
    qed
  next
    assume "\<forall>i < 8. \<not> bit (bs ! i) 7"
    then show "\<forall>n < 64. n mod 8 = 7 \<longrightarrow> \<not> bit (bs ! (n div 8)) 7" by (simp add: less_mult_imp_div_less)
  qed
  also have "\<dots> \<longleftrightarrow> (\<forall>b \<in> set bs. unat b < 128)"
    using assms by (auto simp: all_set_conv_all_nth bit_byte_7)
  finally show ?thesis .
qed

lemma is_ascii_iff: "is_ascii p \<longleftrightarrow> (\<forall>b \<in> set p. unat b < 128)"
proof (induction p rule: is_ascii.induct)
  case (1 p)
  have tail: "ascii_tail q \<longleftrightarrow> (\<forall>b \<in> set q. unat b < 128)" for q
    by (induction q) (auto simp: byte_masks(5) simp flip: not_less)
  show ?case
  proof (cases "8 \<le> length p")
    case True
    have "set p = set (take 8 p) \<union> set (drop 8 p)" by (metis append_take_drop_id set_append)
    then show ?thesis using 1 True load64_high [of "take 8 p"] by (subst is_ascii.simps) auto
  qed (subst is_ascii.simps, simp add: tail)
qed

section \<open>Counting\<close>

lemma decode_advances: "p \<noteq> [] \<Longrightarrow> \<exists>w n. decode_cp p = Some (w, n) \<and> 0 < n \<and> n \<le> length p"
  using decode_cases [of p] by (auto simp: Suc_le_eq encode_def dest: prefix_length_le split: if_splits)

text \<open>The code points of a byte string, decoded one after the other.\<close>

function code_points :: "bytes \<Rightarrow> 32 word list" where
  "code_points p = (if p = [] then [] else case decode_cp p of None \<Rightarrow> [] | Some (w, n) \<Rightarrow> w # code_points (drop n p))"
  by pat_completeness auto
termination
proof (relation "measure length", goal_cases)
  case (2 p x w n)
  then show ?case using decode_advances [of p] by auto
qed simp

declare code_points.simps [simp del]

lemma code_points_Nil [simp]: "code_points [] = []"
  by (subst code_points.simps) simp

lemma code_points_ascii:
  "\<forall>b \<in> set (take k p). unat b < 128 \<Longrightarrow> k \<le> length p \<Longrightarrow> length (code_points p) = k + length (code_points (drop k p))"
proof (induction k arbitrary: p)
  case (Suc k)
  then obtain b q where p: "p = b # q" by (cases p) auto
  then have "length (code_points p) = Suc (length (code_points q))"
    using Suc.prems decode1 [of b q] by (subst code_points.simps) simp
  then show ?case using Suc.IH [of q] Suc.prems p by simp
qed simp

lemma run_bytes_ascii: "run_bytes p \<le> length p \<and> (\<forall>b \<in> set (take (run_bytes p) p). unat b < 128)"
  by (induction p) (auto simp: byte_masks(5))

lemma ascii_run_ascii: "ascii_run p \<le> length p \<and> (\<forall>b \<in> set (take (ascii_run p) p). unat b < 128)"
proof (induction p rule: ascii_run.induct)
  case (1 p)
  show ?case
  proof (cases "8 \<le> length p \<and> load64 (take 8 p) AND HIGH_BITS = 0")
    case True
    then have "take (8 + ascii_run (drop 8 p)) p = take 8 p @ take (ascii_run (drop 8 p)) (drop 8 p)" by (simp add: take_add)
    then show ?thesis using 1 True load64_high [of "take 8 p"] by (subst (1 2) ascii_run.simps) auto
  next
    case False
    then have "ascii_run p = run_bytes p" by (subst ascii_run.simps) auto
    then show ?thesis using run_bytes_ascii [of p] by simp
  qed
qed

lemma ascii_run_pos: "unat b < 128 \<Longrightarrow> 0 < ascii_run (b # q)"
  by (subst ascii_run.simps) (simp add: byte_masks(5))

lemma count_loop_code_points: "count_loop p n = Some (n + length (code_points p))"
proof (induction "length p" arbitrary: p n rule: less_induct)
  case less
  show ?case
  proof (cases p)
    case Nil
    then show ?thesis by (subst count_loop.simps) simp
  next
    case (Cons b q)
    show ?thesis
    proof (cases "unat b < 128")
      case True
      have "count_loop p n = count_loop (drop (ascii_run p) p) (n + ascii_run p)"
        using Cons True by (subst count_loop.simps) (simp add: byte_masks(5) Let_def)
      also have "\<dots> = Some (n + ascii_run p + length (code_points (drop (ascii_run p) p)))"
        using less ascii_run_pos [OF True, of q] Cons by simp
      finally show ?thesis using code_points_ascii [of "ascii_run p" p] ascii_run_ascii [of p] by simp
    next
      case False
      obtain w k where d: "decode_cp p = Some (w, k)" "0 < k" "k \<le> length p" using decode_advances [of p] Cons by auto
      have "count_loop p n = count_loop (drop k p) (n + 1)"
        using Cons False d(1) by (subst count_loop.simps) (simp add: byte_masks(5))
      moreover have "code_points p = w # code_points (drop k p)" using d(1) Cons by (subst code_points.simps) simp
      ultimately show ?thesis using less [of "drop k p"] d by simp
    qed
  qed
qed

section \<open>Strings of code points\<close>

abbreviation enc :: "nat list \<Rightarrow> bytes" where
  "enc cs \<equiv> concat (map encode cs)"

definition valid :: "nat list \<Rightarrow> bool" where
  "valid cs \<longleftrightarrow> (\<forall>c \<in> set cs. c \<le> 0x10FFFF)"

lemma encode_pos: "0 < length (encode c)"
  by (simp add: encode_def)

lemma encode_nonempty [simp]: "encode c \<noteq> []"
  by (simp add: encode_def)

lemma code_points_enc: "valid cs \<Longrightarrow> code_points (enc cs) = map word_of_nat cs"
proof (induction cs)
  case (Cons c cs)
  have "encode c @ enc cs \<noteq> []" using encode_pos [of c] by auto
  then show ?case using Cons decode_encode [of c "enc cs"] by (subst code_points.simps) (simp add: valid_def)
qed simp

lemma is_ascii_enc:
  assumes "valid cs"
  shows "is_ascii (enc cs) \<longleftrightarrow> (\<forall>c \<in> set cs. c < 128)"
proof
  assume a: "is_ascii (enc cs)"
  show "\<forall>c \<in> set cs. c < 128"
  proof
    fix c assume c: "c \<in> set cs"
    obtain b q where e: "encode c = b # q" using encode_pos [of c] by (cases "encode c") auto
    then have b: "unat b < 128" using a c by (auto simp: is_ascii_iff)
    have "decode_cp (encode c) = Some (word_of_nat c, length (encode c))" using assms c decode_encode [of c "[]"] by (simp add: valid_def)
    then have "(word_of_nat c :: 32 word) = word_of_nat (unat b)" using decode1 [OF b, of q] e by simp
    moreover have "c \<le> 0x10FFFF" using assms c by (simp add: valid_def)
    moreover have "unat b \<le> 0x10FFFF" using b by simp
    ultimately have "c = unat b" by (metis unat_cp)
    then show "c < 128" using b by simp
  qed
next
  assume "\<forall>c \<in> set cs. c < 128"
  then show "is_ascii (enc cs)" by (auto simp: is_ascii_iff encode_def unat_byte_of)
qed

lemma enc_ascii_length: "\<forall>c \<in> set cs. c < 128 \<Longrightarrow> length (enc cs) = length cs"
  by (induction cs) (auto simp: encode_def)

text \<open>
  Property C23.
  Counting code points, with its runs of ASCII bytes that are skipped eight at a time, returns for
  every byte string exactly as many as decoding one code point after the other; and the test for
  ASCII, eight bytes at a time, agrees with looking at every byte.
\<close>

theorem utf8_count_correct:
  "utf8_code_point_count p = Some (length (code_points p)) \<and> (is_ascii p \<longleftrightarrow> list_all (\<lambda>b. unat b < 128) p)"
  by (simp add: utf8_code_point_count_def count_loop_code_points is_ascii_iff list_all_iff)

end
