(* ===== verification/Output_Ring.thy ===== *)
theory Output_Ring
  imports Utf8
begin

text \<open>
  The bounded output buffer of a background job, \<^verbatim>\<open>src/runtime/tools/output_ring.cpp\<close>. Once the output
  exceeds the capacity, which is counted in code points, the buffer keeps the first \<open>head_len\<close> and the last
  \<open>tail_len\<close> of them. The product of the capacity and the head ratio, a floating-point number converted to an
  integer, is an argument of the constructor.
\<close>

section \<open>The code\<close>

definition cp_count :: "bytes \<Rightarrow> nat option" where
  "cp_count s = (if is_ascii s then Some (length s) else utf8_code_point_count s)"

text \<open>The loop of \<^verbatim>\<open>byte_offset_at\<close>: the number of bytes of the first code points.\<close>

fun offset_loop :: "bytes \<Rightarrow> nat \<Rightarrow> nat option" where
  "offset_loop p 0 = Some 0"
| "offset_loop p (Suc i) =
     (if p = [] then Some 0 else do { (cp, n) \<leftarrow> decode_cp p; m \<leftarrow> offset_loop (drop n p) i; Some (n + m) })"

definition byte_offset_at :: "bytes \<Rightarrow> nat \<Rightarrow> nat option" where
  "byte_offset_at s char_index =
     (if is_ascii s then Some (if length s < char_index then length s else char_index) else offset_loop s char_index)"

definition trim_front_to :: "bytes \<Rightarrow> nat \<Rightarrow> bytes option" where
  "trim_front_to s keep =
     do {
       n \<leftarrow> cp_count s;
       if n \<le> keep then Some s
       else do { k \<leftarrow> byte_offset_at s (n - keep); Some (drop k s) }
     }"

record output_ring =
  or_cap :: nat
  or_head_len :: nat
  or_tail_len :: nat
  or_buf :: bytes
  or_head :: bytes
  or_tail :: bytes
  or_chars :: nat
  or_tail_chars :: nat
  or_truncated :: bool

text \<open>
  \<open>scaled\<close> is \<^verbatim>\<open>static_cast<int64_t> (static_cast<double> (_cap) * ratio)\<close>. The difference \<^verbatim>\<open>_tail_len\<close> is negative for a
  capacity of \<open>2 ^ 63\<close> or more; it is \<open>0\<close> here then, since the code compares it with zero before it truncates
  anything.
\<close>

definition i64 :: "nat \<Rightarrow> int" where
  "i64 n = signed_take_bit 63 (int n)"

definition or_new :: "nat \<Rightarrow> int \<Rightarrow> output_ring" where
  "or_new cap_chars scaled =
     (let head = (if scaled < 0 then 0 else nat scaled);
          head = (if cap_chars < head then cap_chars else head) in
      \<lparr>or_cap = cap_chars, or_head_len = head, or_tail_len = nat (i64 cap_chars - int head), or_buf = [], or_head = [], or_tail = [],
       or_chars = 0, or_tail_chars = 0, or_truncated = False\<rparr>)"

definition ascii_bytes :: "string \<Rightarrow> bytes" where
  "ascii_bytes s = map of_char s"

fun decimal :: "nat \<Rightarrow> string" where
  "decimal n = (if n < 10 then [char_of (48 + n)] else decimal (n div 10) @ [char_of (48 + n mod 10)])"

definition or_marker :: "output_ring \<Rightarrow> bytes" where
  "or_marker r =
     ascii_bytes ([CHR 0x0A] @ ''[... (output truncated, keeping first '' @ decimal (or_head_len r) @ '' and last '' @
       decimal (or_tail_len r) @ '' chars)]'' @ [CHR 0x0A])"

definition build_truncated :: "output_ring \<Rightarrow> bytes \<Rightarrow> nat \<Rightarrow> output_ring option" where
  "build_truncated r full total_chars =
     (if total_chars \<le> or_cap r then Some (r\<lparr>or_buf := full, or_chars := total_chars\<rparr>)
      else do {
        head_bytes \<leftarrow> byte_offset_at full (or_head_len r);
        tail_bytes \<leftarrow> (if 0 < or_tail_len r then byte_offset_at full (total_chars - or_tail_len r) else Some (length full));
        m \<leftarrow> cp_count (or_marker r);
        Some (r\<lparr>or_head := take head_bytes full, or_tail := drop tail_bytes full, or_tail_chars := or_tail_len r,
                or_truncated := True, or_chars := or_head_len r + m + or_tail_len r\<rparr>)
      })"

definition trim_tail :: "output_ring \<Rightarrow> output_ring option" where
  "trim_tail r =
     (if or_tail_len r = 0 then Some (r\<lparr>or_tail := [], or_tail_chars := 0\<rparr>)
      else if or_tail_chars r \<le> or_tail_len r then Some r
      else do {
        t \<leftarrow> trim_front_to (or_tail r) (or_tail_len r);
        Some (r\<lparr>or_tail := t, or_tail_chars := or_tail_len r\<rparr>)
      })"

definition or_append :: "output_ring \<Rightarrow> bytes \<Rightarrow> (bool \<times> output_ring) option" where
  "or_append r chunk =
     do {
       n \<leftarrow> cp_count chunk;
       if \<not> or_truncated r then
         if or_chars r + n \<le> or_cap r then Some (False, r\<lparr>or_buf := or_buf r @ chunk, or_chars := or_chars r + n\<rparr>)
         else do {
           r' \<leftarrow> build_truncated (r\<lparr>or_buf := []\<rparr>) (or_buf r @ chunk) (or_chars r + n);
           Some (True, r')
         }
       else do {
         r' \<leftarrow> trim_tail (r\<lparr>or_tail := or_tail r @ chunk, or_tail_chars := or_tail_chars r + n\<rparr>);
         Some (True, r')
       }
     }"

definition or_snapshot :: "output_ring \<Rightarrow> bytes" where
  "or_snapshot r = (if \<not> or_truncated r then or_buf r else or_head r @ or_marker r @ or_tail r)"

definition or_char_count :: "output_ring \<Rightarrow> nat option" where
  "or_char_count r =
     (if \<not> or_truncated r then Some (or_chars r)
      else do { m \<leftarrow> cp_count (or_marker r); Some (or_head_len r + m + or_tail_len r) })"

definition or_byte_count :: "output_ring \<Rightarrow> nat" where
  "or_byte_count r = (if \<not> or_truncated r then length (or_buf r) else length (or_head r) + length (or_marker r) + length (or_tail r))"

definition or_read :: "output_ring \<Rightarrow> nat \<Rightarrow> nat \<Rightarrow> bytes option" where
  "or_read r char_offset max_chars =
     (if max_chars = 0 then Some []
      else do {
        let full = or_snapshot r;
        n \<leftarrow> or_char_count r;
        if n \<le> char_offset then Some []
        else do {
          let n_take = (if n - char_offset < max_chars then n - char_offset else max_chars);
          b \<leftarrow> byte_offset_at full char_offset;
          e \<leftarrow> byte_offset_at full (char_offset + n_take);
          Some (take (e - b) (drop b full))
        }
      })"

definition or_clear :: "output_ring \<Rightarrow> output_ring" where
  "or_clear r = r\<lparr>or_buf := [], or_head := [], or_tail := [], or_chars := 0, or_tail_chars := 0, or_truncated := False\<rparr>"

declare decimal.simps [simp del]

section \<open>Positions in strings of code points\<close>

lemma cp_count_enc: "valid cs \<Longrightarrow> cp_count (enc cs) = Some (length cs)"
  using utf8_code_point_count_def count_loop_code_points [of "enc cs" 0] code_points_enc [of cs]
  by (simp add: cp_count_def is_ascii_enc enc_ascii_length)

lemma offset_loop_enc: "valid cs \<Longrightarrow> offset_loop (enc cs) i = Some (length (enc (take i cs)))"
proof (induction i arbitrary: cs)
  case (Suc i)
  show ?case
  proof (cases cs)
    case (Cons c ds)
    have "encode c \<noteq> []" using encode_pos [of c] by auto
    then show ?thesis using Cons Suc.IH [of ds] Suc.prems decode_encode [of c "enc ds"] by (simp add: valid_def)
  qed simp
qed simp

lemma byte_offset_enc:
  assumes "valid cs"
  shows "byte_offset_at (enc cs) i = Some (length (enc (take i cs)))"
proof (cases "is_ascii (enc cs)")
  case True
  then have a: "\<forall>c \<in> set cs. c < 128" using is_ascii_enc [OF assms] by simp
  then have "length (enc (take i cs)) = min (length cs) i" using enc_ascii_length [of "take i cs"] by (auto dest: in_set_takeD)
  then show ?thesis using True enc_ascii_length [OF a] by (auto simp: byte_offset_at_def)
next
  case False
  then show ?thesis using offset_loop_enc [OF assms] by (simp add: byte_offset_at_def)
qed

lemma take_enc: "take (length (enc (take i cs))) (enc cs) = enc (take i cs)"
  and drop_enc: "drop (length (enc (take i cs))) (enc cs) = enc (drop i cs)"
proof -
  have "enc cs = enc (take i cs) @ enc (drop i cs)" by (metis append_take_drop_id concat_append map_append)
  then show "take (length (enc (take i cs))) (enc cs) = enc (take i cs)" "drop (length (enc (take i cs))) (enc cs) = enc (drop i cs)"
    by (metis append_eq_conv_conj)+
qed

section \<open>The marker\<close>

lemma enc_ascii: "\<forall>b \<in> set p. unat b < 128 \<Longrightarrow> enc (map unat p) = p"
  by (induction p) (auto simp: encode_def)

lemma decimal_ascii: "c \<in> set (decimal n) \<Longrightarrow> of_char c < (128 :: nat)"
proof (induction n rule: decimal.induct)
  case (1 n)
  then show ?case
    by (subst (asm) decimal.simps) (auto simp: of_char_of split: if_splits)
qed

lemma ascii_bytes_ascii:
  assumes "\<forall>c \<in> set s. of_char c < (128 :: nat)" "b \<in> set (ascii_bytes s)"
  shows "unat b < 128"
proof -
  obtain c where c: "c \<in> set s" "b = of_char c" using assms(2) by (auto simp: ascii_bytes_def)
  then have "b = word_of_nat (of_char c)" by (simp add: of_nat_of_char)
  moreover have "(of_char c :: nat) < 128" using c assms(1) by simp
  ultimately show ?thesis using unat_byte_of [of "of_char c"] by simp
qed

lemma marker_ascii: "b \<in> set (or_marker r) \<Longrightarrow> unat b < 128"
  unfolding or_marker_def by (erule ascii_bytes_ascii [rotated]) (auto simp: decimal_ascii)

definition marker_cps :: "output_ring \<Rightarrow> nat list" where
  "marker_cps r = map unat (or_marker r)"

lemma enc_marker: "enc (marker_cps r) = or_marker r"
  unfolding marker_cps_def by (rule enc_ascii) (simp add: marker_ascii)

lemma valid_marker: "valid (marker_cps r)"
  using marker_ascii by (fastforce simp: valid_def marker_cps_def)

lemma cp_count_marker: "cp_count (or_marker r) = Some (length (marker_cps r))"
  using cp_count_enc [OF valid_marker, of r] by (simp add: enc_marker)

section \<open>What the buffer retains\<close>

text \<open>The specification: all of the output while it fits the capacity, afterwards its first \<open>h\<close> and its last
  \<open>t\<close> code points around the marker.\<close>

definition retained :: "nat \<Rightarrow> nat \<Rightarrow> nat list \<Rightarrow> nat list \<Rightarrow> nat list" where
  "retained h t m cs = (if length cs \<le> h + t then cs else take h cs @ m @ drop (length cs - t) cs)"

definition ring_ok :: "output_ring \<Rightarrow> nat list \<Rightarrow> bool" where
  "ring_ok r cs \<longleftrightarrow> valid cs \<and> or_head_len r + or_tail_len r = or_cap r \<and>
     (if or_truncated r
      then or_cap r < length cs \<and> or_head r = enc (take (or_head_len r) cs) \<and>
           or_tail r = enc (drop (length cs - or_tail_len r) cs) \<and> or_tail_chars r = or_tail_len r
      else length cs \<le> or_cap r \<and> or_buf r = enc cs \<and> or_chars r = length cs)"

definition same_shape :: "output_ring \<Rightarrow> output_ring \<Rightarrow> bool" where
  "same_shape r r' \<longleftrightarrow> or_cap r' = or_cap r \<and> or_head_len r' = or_head_len r \<and> or_tail_len r' = or_tail_len r"

lemma valid_append: "valid (cs @ ds) \<longleftrightarrow> valid cs \<and> valid ds"
  by (auto simp: valid_def)

lemma valid_drop: "valid cs \<Longrightarrow> valid (drop n cs)"
  by (auto simp: valid_def dest: in_set_dropD)

lemma i64_id: "n < 2 ^ 63 \<Longrightarrow> i64 n = int n"
  unfolding i64_def by (rule signed_take_bit_int_eq_self) simp_all

lemma ring_ok_new: "cap < 2 ^ 63 \<Longrightarrow> ring_ok (or_new cap scaled) []"
  by (auto simp: ring_ok_def or_new_def valid_def Let_def i64_id nat_le_iff)

lemma ring_ok_build:
  assumes "valid cs" "or_head_len r + or_tail_len r = or_cap r" "or_cap r < length cs"
  shows "\<exists>r'. build_truncated r (enc cs) (length cs) = Some r' \<and> ring_ok r' cs \<and> or_truncated r' \<and> same_shape r r'"
proof -
  let ?n = "length cs - or_tail_len r"
  have t: "(if 0 < or_tail_len r then byte_offset_at (enc cs) ?n else Some (length (enc cs))) = Some (length (enc (take ?n cs)))"
    using byte_offset_enc [OF assms(1)] by simp
  show ?thesis
    using assms t byte_offset_enc [OF assms(1), of "or_head_len r"] take_enc [of "or_head_len r" cs] drop_enc [of ?n cs]
    by (simp add: build_truncated_def cp_count_marker ring_ok_def same_shape_def)
qed

lemma trim_front_enc: "valid cs \<Longrightarrow> trim_front_to (enc cs) k = Some (enc (drop (length cs - k) cs))"
  using drop_enc [of "length cs - k" cs] by (simp add: trim_front_to_def cp_count_enc byte_offset_enc)

lemma ring_ok_append:
  assumes r: "ring_ok r cs" and d: "valid ds"
  shows "\<exists>r'. or_append r (enc ds) = Some (or_cap r < length (cs @ ds), r') \<and> ring_ok r' (cs @ ds) \<and> same_shape r r'"
proof (cases "or_truncated r")
  case False
  show ?thesis
  proof (cases "length (cs @ ds) \<le> or_cap r")
    case True
    then show ?thesis using False r d by (simp add: or_append_def cp_count_enc ring_ok_def same_shape_def valid_append)
  next
    case big: False
    then obtain r' where "build_truncated (r\<lparr>or_buf := []\<rparr>) (enc (cs @ ds)) (length (cs @ ds)) = Some r'"
      "ring_ok r' (cs @ ds)" "or_truncated r'" "same_shape (r\<lparr>or_buf := []\<rparr>) r'"
      using ring_ok_build [of "cs @ ds" "r\<lparr>or_buf := []\<rparr>"] r d by (auto simp: ring_ok_def valid_append)
    then show ?thesis using False big r d by (simp add: or_append_def cp_count_enc ring_ok_def same_shape_def)
  qed
next
  case True
  let ?t = "drop (length cs - or_tail_len r) cs"
  have c: "valid cs" "or_cap r < length cs" "or_head_len r + or_tail_len r = or_cap r" using r True by (simp_all add: ring_ok_def)
  then have l: "length ?t = or_tail_len r" by simp
  have v: "valid (?t @ ds)" using c d by (simp add: valid_append valid_drop)
  have e: "drop (length (?t @ ds) - or_tail_len r) (?t @ ds) = drop (length (cs @ ds) - or_tail_len r) (cs @ ds)"
    using c l by (simp add: add.commute)
  show ?thesis
    using True r d c l e trim_front_enc [OF v, of "or_tail_len r"]
    by (auto simp: or_append_def cp_count_enc trim_tail_def ring_ok_def same_shape_def valid_append)
qed

lemma snapshot_ok: "ring_ok r cs \<Longrightarrow> or_snapshot r = enc (retained (or_head_len r) (or_tail_len r) (marker_cps r) cs)"
  using enc_marker [of r] by (auto simp: ring_ok_def or_snapshot_def retained_def)

lemma char_count_ok:
  "ring_ok r cs \<Longrightarrow> or_char_count r = Some (length (retained (or_head_len r) (or_tail_len r) (marker_cps r) cs))"
  by (auto simp: ring_ok_def or_char_count_def retained_def cp_count_marker)

lemma valid_retained: "valid cs \<Longrightarrow> valid (retained h t (marker_cps r) cs)"
  using valid_marker [of r] by (auto simp: retained_def valid_def dest: in_set_takeD in_set_dropD)

lemma enc_segment:
  "take (length (enc (take (a + k) cs)) - length (enc (take a cs))) (drop (length (enc (take a cs))) (enc cs)) = enc (take k (drop a cs))"
proof -
  have s: "take (a + k) cs = take a cs @ take k (drop a cs)" by (simp add: take_add)
  have "enc (drop a cs) = enc (take k (drop a cs)) @ enc (drop k (drop a cs))"
    by (metis append_take_drop_id concat_append map_append)
  then show ?thesis using drop_enc [of a cs] by (simp add: s)
qed

lemma read_ok:
  assumes "ring_ok r cs"
  shows "or_read r a k = Some (enc (take k (drop a (retained (or_head_len r) (or_tail_len r) (marker_cps r) cs))))"
proof -
  define f where "f = retained (or_head_len r) (or_tail_len r) (marker_cps r) cs"
  have v: "valid f" using assms valid_retained by (simp add: ring_ok_def f_def)
  have s: "or_snapshot r = enc f" "or_char_count r = Some (length f)"
    using snapshot_ok [OF assms] char_count_ok [OF assms] by (simp_all add: f_def)
  have "or_read r a k = Some (enc (take k (drop a f)))" if "a < length f" "0 < k"
    using that enc_segment [of a "if length f - a < k then length f - a else k" f]
    by (simp add: or_read_def s byte_offset_enc [OF v] Let_def)
  moreover have "or_read r a k = Some (enc (take k (drop a f)))" if "length f \<le> a \<or> k = 0"
    using that by (auto simp: or_read_def s Let_def)
  ultimately show ?thesis unfolding f_def by (metis gr0I not_less)
qed

text \<open>A job that writes chunk after chunk.\<close>

fun or_append_all :: "output_ring \<Rightarrow> bytes list \<Rightarrow> output_ring option" where
  "or_append_all r [] = Some r"
| "or_append_all r (c # cs) = do { (t, r') \<leftarrow> or_append r c; or_append_all r' cs }"

lemma append_all_ok:
  assumes "ring_ok r cs" "\<forall>ds \<in> set dss. valid ds"
  shows "\<exists>r'. or_append_all r (map enc dss) = Some r' \<and> ring_ok r' (cs @ concat dss) \<and> same_shape r r'"
  using assms
proof (induction dss arbitrary: r cs)
  case (Cons d dss)
  obtain r1 where r1: "or_append r (enc d) = Some (or_cap r < length (cs @ d), r1)" "ring_ok r1 (cs @ d)" "same_shape r r1"
    using ring_ok_append [OF Cons.prems(1), of d] Cons.prems(2) by auto
  show ?case using Cons.IH [OF r1(2)] Cons.prems(2) r1 by (auto simp: same_shape_def)
qed (simp add: same_shape_def)


section \<open>Properties\<close>

text \<open>
  Property C14.
  The buffer, with a capacity below \<open>2 ^ 63\<close>, refines its specification over every sequence of chunks of UTF-8 text: whatever is written and however it
  is cut into chunks, each append succeeds, and a snapshot is the whole output while it has at most \<open>cap\<close> code points,
  afterwards exactly the first \<open>head_len\<close> code points, the marker and the last \<open>cap - head_len\<close> code points; the
  reported number of characters is that of the snapshot.
\<close>

theorem output_ring_retains:
  assumes "\<forall>cs \<in> set css. valid cs" "cap < 2 ^ 63"
  shows "\<exists>r. or_append_all (or_new cap scaled) (map enc css) = Some r \<and>
    or_head_len r = min cap (nat scaled) \<and> or_tail_len r = cap - or_head_len r \<and>
    or_snapshot r = enc (retained (or_head_len r) (or_tail_len r) (marker_cps r) (concat css)) \<and>
    or_char_count r = cp_count (or_snapshot r) \<and>
    (or_truncated r \<longleftrightarrow> cap < length (concat css))"
proof -
  obtain r where r: "or_append_all (or_new cap scaled) (map enc css) = Some r" "ring_ok r (concat css)" "same_shape (or_new cap scaled) r"
    using append_all_ok [OF ring_ok_new [OF assms(2)] assms(1)] by auto
  have "or_char_count r = cp_count (or_snapshot r)"
    using r(2) char_count_ok [OF r(2)] cp_count_enc [OF valid_retained] snapshot_ok [OF r(2)] by (simp add: ring_ok_def)
  then show ?thesis
    using r snapshot_ok [OF r(2)] assms(2) by (auto simp: i64_id nat_diff_distrib same_shape_def or_new_def ring_ok_def Let_def min_def split: if_splits)
qed

theorem output_ring_retains_witness:
  "\<exists>r. or_append_all (or_new 4 2) (map enc [[0xE9, 0x61], [0x20AC, 0x62, 0x1F600]]) = Some r \<and>
    or_snapshot r = encode 0xE9 @ encode 0x61 @ or_marker r @ encode 0x62 @ encode 0x1F600"
  using output_ring_retains [of "[[0xE9, 0x61], [0x20AC, 0x62, 0x1F600]]" 4 2] enc_marker
  by (auto simp: valid_def retained_def)

text \<open>
  Reading a range of a buffer that was filled with any chunks of UTF-8 text returns exactly the code points of the
  retained text in that range, whole code points only, and the empty string past the end.
\<close>

lemma output_ring_read:
  assumes "\<forall>cs \<in> set css. valid cs" "or_append_all (or_new cap scaled) (map enc css) = Some r" "cap < 2 ^ 63"
  shows "or_read r offset n = Some (enc (take n (drop offset (retained (or_head_len r) (or_tail_len r) (marker_cps r) (concat css)))))"
  using append_all_ok [OF ring_ok_new [OF assms(3)] assms(1), of scaled] assms(2) read_ok by auto

end
