(* ===== verification/Sanitize.thy ===== *)
theory Sanitize
  imports Output_Ring
begin

text \<open>
  The text sanitizer, \<^verbatim>\<open>src/runtime/text/sanitize.cpp\<close>. Filtering copies into a new string; stripping, collapsing
  repeated characters and truncation work in place on the bytes of one buffer, which is modelled with its read and write
  positions: \<open>None\<close> is a write outside of it.
\<close>

section \<open>The code\<close>

definition is_surrogate :: "32 word \<Rightarrow> bool" where
  "is_surrogate cp \<longleftrightarrow> 0xD800 \<le> cp \<and> cp \<le> 0xDFFF"

definition is_noncharacter :: "32 word \<Rightarrow> bool" where
  "is_noncharacter cp \<longleftrightarrow>
     0xFDD0 \<le> cp \<and> cp \<le> 0xFDEF \<or> (let low = cp AND 0xFFFF in low = 0xFFFE \<or> low = 0xFFFF)"

definition is_pua :: "32 word \<Rightarrow> bool" where
  "is_pua cp \<longleftrightarrow> 0xE000 \<le> cp \<and> cp \<le> 0xF8FF \<or> 0xF0000 \<le> cp \<and> cp \<le> 0xFFFFD \<or> 0x100000 \<le> cp \<and> cp \<le> 0x10FFFD"

definition is_zero_width :: "32 word \<Rightarrow> bool" where
  "is_zero_width cp \<longleftrightarrow>
     cp = 0x200B \<or> cp = 0x200C \<or> cp = 0x200D \<or> cp = 0x2060 \<or> cp = 0x00AD \<or> cp = 0xFEFF \<or> cp = 0x200E \<or> cp = 0x200F \<or>
     0x202A \<le> cp \<and> cp \<le> 0x202E \<or> 0x2066 \<le> cp \<and> cp \<le> 0x2069"

definition is_control :: "32 word \<Rightarrow> bool \<Rightarrow> bool" where
  "is_control cp keep_newlines =
     (if keep_newlines
      then cp \<le> 0x08 \<or> cp = 0x0B \<or> cp = 0x0C \<or> 0x0E \<le> cp \<and> cp \<le> 0x1F \<or> 0x7F \<le> cp \<and> cp \<le> 0x9F
      else cp \<le> 0x1F \<or> 0x7F \<le> cp \<and> cp \<le> 0x9F)"

definition is_unicode_space :: "32 word \<Rightarrow> bool" where
  "is_unicode_space cp \<longleftrightarrow>
     cp = 0x20 \<or> 0x09 \<le> cp \<and> cp \<le> 0x0D \<or> 0x1C \<le> cp \<and> cp \<le> 0x1F \<or> cp = 0x85 \<or> cp = 0xA0 \<or> cp = 0x1680 \<or>
     0x2000 \<le> cp \<and> cp \<le> 0x200A \<or> cp = 0x2028 \<or> cp = 0x2029 \<or> cp = 0x202F \<or> cp = 0x205F \<or> cp = 0x3000"

text \<open>The bytes that \<^verbatim>\<open>append_cp\<close> appends and \<^verbatim>\<open>encode_cp\<close> writes.\<close>

definition cp_bytes :: "32 word \<Rightarrow> bytes" where
  "cp_bytes cp =
     (if cp < 0x80 then [ucast cp]
      else if cp < 0x800 then [ucast (0xC0 OR drop_bit 6 cp), ucast (0x80 OR (cp AND 0x3F))]
      else if cp < 0x10000 then
        [ucast (0xE0 OR drop_bit 12 cp), ucast (0x80 OR (drop_bit 6 cp AND 0x3F)), ucast (0x80 OR (cp AND 0x3F))]
      else
        [ucast (0xF0 OR drop_bit 18 cp), ucast (0x80 OR (drop_bit 12 cp AND 0x3F)),
         ucast (0x80 OR (drop_bit 6 cp AND 0x3F)), ucast (0x80 OR (cp AND 0x3F))])"

definition append_cp :: "bytes \<Rightarrow> 32 word \<Rightarrow> bytes" where
  "append_cp out cp = out @ cp_bytes cp"

fun put_bytes :: "bytes \<Rightarrow> nat \<Rightarrow> bytes \<Rightarrow> (bytes \<times> nat) option" where
  "put_bytes s w [] = Some (s, w)"
| "put_bytes s w (b # bs) = do { s \<leftarrow> wr s w b; put_bytes s (w + 1) bs }"

definition encode_cp :: "bytes \<Rightarrow> nat \<Rightarrow> 32 word \<Rightarrow> (bytes \<times> nat) option" where
  "encode_cp s w cp = put_bytes s w (cp_bytes cp)"

definition ascii_ctl :: "64 word \<Rightarrow> 64 word \<Rightarrow> byte \<Rightarrow> bool" where
  "ascii_ctl kLo kHi c \<longleftrightarrow>
     (if c AND 0x40 \<noteq> 0 then drop_bit (unat (c AND 0x3F)) kHi else drop_bit (unat c) kLo) AND 1 \<noteq> 0"

definition ascii_ctl_keep :: "byte \<Rightarrow> bool" where
  "ascii_ctl_keep c = ascii_ctl 0xFFFFD9FF 0x8000000000000000 c"

definition ascii_ctl_strip :: "byte \<Rightarrow> bool" where
  "ascii_ctl_strip c = ascii_ctl 0xFFFFFFFF 0x8000000000000000 c"

text \<open>\<open>seg\<close> are the bytes from \<^verbatim>\<open>w\<close> to \<^verbatim>\<open>it\<close>, which are appended together.\<close>

fun append_ascii_run :: "bytes \<Rightarrow> bytes \<Rightarrow> bytes \<Rightarrow> bool \<Rightarrow> bytes \<times> bytes" where
  "append_ascii_run out seg [] keep_newlines = (out @ seg, [])"
| "append_ascii_run out seg (c # p) keep_newlines =
     (if 0x80 \<le> c then (out @ seg, c # p)
      else if (if keep_newlines then ascii_ctl_keep c else ascii_ctl_strip c) then append_ascii_run (out @ seg) [] p keep_newlines
      else append_ascii_run out (seg @ [c]) p keep_newlines)"

text \<open>The loop of the three filters, which differ in the code points they drop.\<close>

partial_function (option) filter_loop :: "(32 word \<Rightarrow> bool) \<Rightarrow> bool \<Rightarrow> bytes \<Rightarrow> bytes \<Rightarrow> bytes option" where
  "filter_loop dropped keep_newlines out p =
     (if p = [] then Some out
      else do {
        b \<leftarrow> rd p 0;
        let (out, p) = (if b < 0x80 then append_ascii_run out [] p keep_newlines else (out, p));
        if p = [] then Some out
        else do {
          (cp, n) \<leftarrow> decode_cp p;
          filter_loop dropped keep_newlines (if dropped cp then out else append_cp out cp) (drop n p)
        }
      })"

definition filter_pass :: "bytes \<Rightarrow> bool \<Rightarrow> bytes option" where
  "filter_pass utf8 keep_newlines =
     filter_loop (\<lambda>cp. is_surrogate cp \<or> is_noncharacter cp \<or> is_pua cp \<or> cp = 0xFFFD \<or> is_zero_width cp \<or> is_control cp keep_newlines)
       keep_newlines [] utf8"

definition strip_controls :: "bytes \<Rightarrow> bool \<Rightarrow> bytes option" where
  "strip_controls utf8 keep_newlines = filter_loop (\<lambda>cp. is_control cp keep_newlines) keep_newlines [] utf8"

text \<open>The positions of the first code point that is no space and behind the last one.\<close>

partial_function (option) space_loop :: "bytes \<Rightarrow> nat \<Rightarrow> nat option \<Rightarrow> nat \<Rightarrow> (nat option \<times> nat) option" where
  "space_loop s it first lst =
     (if length s \<le> it then Some (first, lst)
      else do {
        (cp, n) \<leftarrow> decode_cp (drop it s);
        if is_unicode_space cp then space_loop s (it + n) first lst
        else space_loop s (it + n) (if first = None then Some it else first) (it + n)
      })"

definition strip_inplace :: "bytes \<Rightarrow> bytes option" where
  "strip_inplace s =
     do {
       (first, lst) \<leftarrow> space_loop s 0 None 0;
       case first of
         None \<Rightarrow> Some []
       | Some first \<Rightarrow>
           do {
             let keep = lst - first;
             s \<leftarrow> (if first \<noteq> 0 then memmove s 0 first keep else Some s);
             Some (take keep s)
           }
     }"

definition clean_text :: "bytes \<Rightarrow> bool \<Rightarrow> bytes option" where
  "clean_text utf8 keep_newlines =
     do {
       out \<leftarrow> filter_loop (\<lambda>cp. is_zero_width cp \<or> is_control cp keep_newlines) keep_newlines [] utf8;
       strip_inplace out
     }"

partial_function (option) skip_spaces :: "bytes \<Rightarrow> nat \<Rightarrow> nat option option" where
  "skip_spaces s it =
     (if length s \<le> it then Some None
      else do {
        (cp, n) \<leftarrow> decode_cp (drop it s);
        if is_unicode_space cp then skip_spaces s (it + n) else Some (Some it)
      })"

record dedupe_state =
  dd_buf :: bytes
  dd_r :: nat
  dd_w :: nat
  dd_has_run :: bool
  dd_run_cp :: "32 word"
  dd_run_len :: nat
  dd_last_non_ws :: nat
  dd_last_run_is_ws :: bool

fun write_run :: "bytes \<Rightarrow> nat \<Rightarrow> 32 word \<Rightarrow> nat \<Rightarrow> (bytes \<times> nat) option" where
  "write_run s w cp 0 = Some (s, w)"
| "write_run s w cp (Suc k) =
     (if cp < 0x80 then do { s \<leftarrow> wr s w (ucast cp); write_run s (w + 1) cp k }
      else do { (s, w) \<leftarrow> encode_cp s w cp; write_run s w cp k })"

definition dd_flush :: "nat \<Rightarrow> nat \<Rightarrow> dedupe_state \<Rightarrow> dedupe_state option" where
  "dd_flush out_base max_repeat d =
     do {
       let keep = (if max_repeat \<noteq> 0 \<and> max_repeat < dd_run_len d then max_repeat else dd_run_len d);
       let ws = is_unicode_space (dd_run_cp d);
       (s, w) \<leftarrow> write_run (dd_buf d) (dd_w d) (dd_run_cp d) keep;
       Some (d\<lparr>dd_buf := s, dd_w := w, dd_last_run_is_ws := ws, dd_last_non_ws := (if ws then dd_last_non_ws d else w - out_base)\<rparr>)
     }"

partial_function (option) dedupe_loop :: "nat \<Rightarrow> nat \<Rightarrow> dedupe_state \<Rightarrow> dedupe_state option" where
  "dedupe_loop out_base max_repeat d =
     (if length (dd_buf d) \<le> dd_r d then Some d
      else do {
        b \<leftarrow> rd (dd_buf d) (dd_r d);
        (cp, n) \<leftarrow> (if b < 0x80 then Some (ucast b, 1) else decode_cp (drop (dd_r d) (dd_buf d)));
        let d = d\<lparr>dd_r := dd_r d + n\<rparr>;
        if dd_has_run d \<and> cp = dd_run_cp d then dedupe_loop out_base max_repeat (d\<lparr>dd_run_len := dd_run_len d + 1\<rparr>)
        else do {
          d \<leftarrow> (if dd_has_run d then dd_flush out_base max_repeat d else Some d);
          dedupe_loop out_base max_repeat (d\<lparr>dd_run_cp := cp, dd_run_len := 1, dd_has_run := True\<rparr>)
        }
      })"

definition strip_dedupe_inplace :: "bytes \<Rightarrow> nat \<Rightarrow> bytes option" where
  "strip_dedupe_inplace s max_repeat =
     (if s = [] then Some []
      else do {
        r \<leftarrow> skip_spaces s 0;
        case r of
          None \<Rightarrow> Some []
        | Some out_base \<Rightarrow>
            do {
              d \<leftarrow> dedupe_loop out_base max_repeat
                \<lparr>dd_buf = s, dd_r = out_base, dd_w = out_base, dd_has_run = False, dd_run_cp = 0, dd_run_len = 0,
                 dd_last_non_ws = 0, dd_last_run_is_ws = False\<rparr>;
              d \<leftarrow> (if dd_has_run d then dd_flush out_base max_repeat d else Some d);
              let written = (if dd_last_run_is_ws d then dd_last_non_ws d else dd_w d - out_base);
              s \<leftarrow> (if out_base \<noteq> 0 then memmove (dd_buf d) 0 out_base written else Some (dd_buf d));
              Some (take written s)
            }
      })"

fun walk_exact :: "bytes \<Rightarrow> nat \<Rightarrow> nat option" where
  "walk_exact p 0 = Some 0"
| "walk_exact p (Suc i) = do { (cp, n) \<leftarrow> decode_cp p; m \<leftarrow> walk_exact (drop n p) i; Some (n + m) }"

definition truncate_inplace :: "bytes \<Rightarrow> nat \<Rightarrow> bytes \<Rightarrow> bool \<Rightarrow> (bytes \<times> bool) option" where
  "truncate_inplace s max_chars msg truncated =
     (if max_chars = 0 then Some (s, truncated)
      else do {
        msg_cps \<leftarrow> (if msg \<noteq> [] then utf8_code_point_count msg else Some 0);
        let keep_msg = (msg \<noteq> [] \<and> msg_cps < max_chars);
        let keep_cps = (if keep_msg then max_chars - msg_cps else max_chars);
        it \<leftarrow> offset_loop s max_chars;
        if length s \<le> it then Some (s, truncated)
        else if keep_cps = max_chars then Some (take it s, True)
        else do { it \<leftarrow> walk_exact s keep_cps; Some (take it s @ msg, True) }
      })"

record sanitize_options =
  so_max_chars :: nat
  so_max_repeat :: nat
  so_truncate_msg :: bytes

definition sanitize_pre_nfc :: "bytes \<Rightarrow> bytes option" where
  "sanitize_pre_nfc utf8 = filter_pass utf8 True"

definition sanitize_post_nfc :: "bytes \<Rightarrow> sanitize_options \<Rightarrow> (bytes \<times> bool) option" where
  "sanitize_post_nfc utf8 opts =
     do {
       s \<leftarrow> strip_dedupe_inplace utf8 (so_max_repeat opts);
       truncate_inplace s (so_max_chars opts) (so_truncate_msg opts) False
     }"

definition sanitize_for_tokenizer :: "bytes \<Rightarrow> sanitize_options \<Rightarrow> (bytes \<times> bool) option" where
  "sanitize_for_tokenizer utf8 opts =
     do {
       s \<leftarrow> filter_pass utf8 True;
       s \<leftarrow> strip_dedupe_inplace s (so_max_repeat opts);
       truncate_inplace s (so_max_chars opts) (so_truncate_msg opts) False
     }"

section \<open>Encoding\<close>

lemma cp_parts:
  assumes "v < 2 ^ 32"
  shows "drop_bit n (word_of_nat v :: 32 word) = word_of_nat (v div 2 ^ n)"
    and "(word_of_nat v :: 32 word) AND 0x3F = word_of_nat (v mod 64)"
proof -
  have u: "unat (word_of_nat x :: 32 word) = x" if "x \<le> v" for x
    using that assms by (simp add: unsigned_of_nat take_bit_nat_eq_self)
  have "unat (drop_bit n (word_of_nat v :: 32 word)) = unat (word_of_nat (v div 2 ^ n) :: 32 word)"
    by (subst unat_drop_bit_eq) (simp only: u order_refl div_le_dividend drop_bit_eq_div)
  then show "drop_bit n (word_of_nat v :: 32 word) = word_of_nat (v div 2 ^ n)" by (simp only: word_unat_eq_iff)
  have "(word_of_nat v :: 32 word) AND mask 6 = word_of_nat (take_bit 6 v)"
    by (simp flip: take_bit_eq_mask take_bit_of_nat)
  then show "(word_of_nat v :: 32 word) AND 0x3F = word_of_nat (v mod 64)" by (simp add: take_bit_eq_mod mask_eq_exp_minus_1)
qed

lemma lead_or:
  "y < 64 \<Longrightarrow> 0x80 OR word_of_nat y = (word_of_nat (0x80 + y) :: 32 word)"
  "y < 32 \<Longrightarrow> 0xC0 OR word_of_nat y = (word_of_nat (0xC0 + y) :: 32 word)"
  "y < 16 \<Longrightarrow> 0xE0 OR word_of_nat y = (word_of_nat (0xE0 + y) :: 32 word)"
  "y < 8 \<Longrightarrow> 0xF0 OR word_of_nat y = (word_of_nat (0xF0 + y) :: 32 word)"
  using shift_or_n [of y 6 2] shift_or_n [of y 5 6] shift_or_n [of y 4 14] shift_or_n [of y 3 30] by (simp_all add: push_bit_eq_mult)

lemma ucast_byte_of_nat: "ucast (word_of_nat v :: 32 word) = (word_of_nat v :: byte)"
  by (rule bit_word_eqI) (simp add: bit_simps)

lemma byte_or:
  "y < 64 \<Longrightarrow> ucast (0x80 OR word_of_nat y :: 32 word) = (word_of_nat (0x80 + y) :: byte)"
  "y < 32 \<Longrightarrow> ucast (0xC0 OR word_of_nat y :: 32 word) = (word_of_nat (0xC0 + y) :: byte)"
  "y < 16 \<Longrightarrow> ucast (0xE0 OR word_of_nat y :: 32 word) = (word_of_nat (0xE0 + y) :: byte)"
  "y < 8 \<Longrightarrow> ucast (0xF0 OR word_of_nat y :: 32 word) = (word_of_nat (0xF0 + y) :: byte)"
  by (simp_all only: lead_or ucast_byte_of_nat)

lemma cp_bytes_encode:
  assumes "v \<le> 0x10FFFF"
  shows "cp_bytes (word_of_nat v) = encode v"
proof -
  have v: "v < 2 ^ 32" using assms by simp
  have lt: "(word_of_nat v :: 32 word) < 0x80 \<longleftrightarrow> v < 0x80" "(word_of_nat v :: 32 word) < 0x800 \<longleftrightarrow> v < 0x800"
    "(word_of_nat v :: 32 word) < 0x10000 \<longleftrightarrow> v < 0x10000"
    using word_of_nat_cmp(1) [OF v] by simp_all
  have p: "(word_of_nat (v div 64) :: 32 word) AND 0x3F = word_of_nat (v div 64 mod 64)"
    "(word_of_nat (v div 4096) :: 32 word) AND 0x3F = word_of_nat (v div 4096 mod 64)"
    using cp_parts(2) [of "v div 64"] cp_parts(2) [of "v div 4096"] v by (simp_all add: div_le_dividend [THEN le_less_trans])
  have d: "drop_bit 6 (word_of_nat v :: 32 word) = word_of_nat (v div 64)" "drop_bit 12 (word_of_nat v :: 32 word) = word_of_nat (v div 4096)"
    "drop_bit 18 (word_of_nat v :: 32 word) = word_of_nat (v div 262144)"
    using cp_parts(1) [OF v, of 6] cp_parts(1) [OF v, of 12] cp_parts(1) [OF v, of 18] by simp_all
  have b: "v < 0x800 \<Longrightarrow> v div 64 < 32" "v < 0x10000 \<Longrightarrow> v div 4096 < 16" "v div 262144 < 8"
    using assms by (simp_all add: less_mult_imp_div_less)
  show ?thesis
    unfolding cp_bytes_def encode_def lt d p cp_parts(2) [OF v]
    by (auto simp: byte_or b ucast_byte_of_nat simp del: of_nat_add)
qed

section \<open>Filtering\<close>

lemma ascii_ctl_control:
  assumes "unat c < 128"
  shows "ascii_ctl_keep c = is_control (ucast c) True" "ascii_ctl_strip c = is_control (ucast c) False"
proof -
  have "list_all (\<lambda>n. let c = word_of_nat n in ascii_ctl_keep c = is_control (ucast c) True \<and> ascii_ctl_strip c = is_control (ucast c) False) [0..<128]"
    by code_simp
  then have "ascii_ctl_keep c = is_control (ucast c) True \<and> ascii_ctl_strip c = is_control (ucast c) False"
    using assms by (auto simp: list_all_iff Let_def dest!: bspec [of _ _ "unat c"])
  then show "ascii_ctl_keep c = is_control (ucast c) True" "ascii_ctl_strip c = is_control (ucast c) False" by simp_all
qed

abbreviation cps :: "bytes \<Rightarrow> nat list" where
  "cps p \<equiv> map unat (code_points p)"

lemma decode_bounded: "decode_cp p = Some (w, n) \<Longrightarrow> p \<noteq> [] \<Longrightarrow> unat w \<le> 0x10FFFF"
  using decode_cases [of p] unat_cp by auto

lemma valid_cps: "valid (cps p)"
proof (induction p rule: code_points.induct)
  case (1 p)
  show ?case
  proof (cases "p = []")
    case False
    then obtain w n where d: "decode_cp p = Some (w, n)" using decode_advances by blast
    then have "code_points p = w # code_points (drop n p)" using False by (subst code_points.simps) simp
    then show ?thesis using 1 [OF False d refl] decode_bounded [OF d False] by (auto simp: valid_def)
  qed (simp add: valid_def)
qed

lemma append_cp_encode: "unat w \<le> 0x10FFFF \<Longrightarrow> append_cp out w = out @ encode (unat w)"
  using cp_bytes_encode [of "unat w"] by (simp add: append_cp_def)

abbreviation ascii_byte :: "byte \<Rightarrow> bool" where
  "ascii_byte b \<equiv> unat b < 128"

lemma code_points_prefix:
  "\<forall>b \<in> set a. ascii_byte b \<Longrightarrow> code_points (a @ p) = map ucast a @ code_points p"
proof (induction a)
  case (Cons b a)
  then show ?case using decode1 [of b "a @ p"] by (subst code_points.simps) simp
qed simp

lemma unat_ucast_byte32: "unat (ucast (b :: byte) :: 32 word) = unat b"
proof -
  have "(ucast b :: 32 word) = word_of_nat (unat b)" by simp
  then show ?thesis using unat_cp [of "unat b"] unat_byte [of b] by simp
qed

lemma enc_ascii_words: "\<forall>b \<in> set a. ascii_byte b \<Longrightarrow> enc (map unat (map (ucast :: byte \<Rightarrow> 32 word) a)) = a"
  by (induction a) (auto simp: encode_def unat_ucast_byte32)

lemma append_ascii_run_eq:
  assumes "\<And>c. ascii_byte c \<Longrightarrow> (if keep_newlines then ascii_ctl_keep c else ascii_ctl_strip c) = dropped (ucast c :: 32 word)"
  shows "append_ascii_run out seg p keep_newlines =
    (out @ seg @ filter (\<lambda>c. \<not> dropped (ucast c)) (takeWhile ascii_byte p), dropWhile ascii_byte p)"
proof (induction p arbitrary: out seg)
  case (Cons c p)
  show ?case
  proof (cases "ascii_byte c")
    case True
    then have "\<not> 0x80 \<le> c" by (simp add: word_le_nat_alt)
    then show ?thesis using True Cons assms [OF True] by simp
  qed (simp add: word_le_nat_alt)
qed simp

lemma filter_loop_eq:
  assumes "\<And>c. ascii_byte c \<Longrightarrow> (if keep_newlines then ascii_ctl_keep c else ascii_ctl_strip c) = dropped (ucast c :: 32 word)"
  shows "filter_loop dropped keep_newlines out p = Some (out @ enc (map unat (filter (\<lambda>c. \<not> dropped c) (code_points p))))"
proof (induction "length p" arbitrary: p out rule: less_induct)
  case less
  show ?case
  proof (cases "p = []")
    case True
    then show ?thesis by (subst filter_loop.simps) simp
  next
    case False
    define a where "a = takeWhile ascii_byte p"
    define q where "q = dropWhile ascii_byte p"
    have pq: "p = a @ q" "\<forall>b \<in> set a. ascii_byte b" by (auto simp: a_def q_def dest: set_takeWhileD)
    have a: "enc (map unat (filter (\<lambda>c. \<not> dropped c) (map ucast a))) = filter (\<lambda>c. \<not> dropped (ucast c)) a"
      using enc_ascii_words [of "filter (\<lambda>c. \<not> dropped (ucast c)) a"] pq(2) by (simp add: filter_map o_def)
    have head: "(if p ! 0 < 0x80 then append_ascii_run out [] p keep_newlines else (out, p)) = (out @ filter (\<lambda>c. \<not> dropped (ucast c)) a, q)"
    proof (cases "ascii_byte (p ! 0)")
      case True
      then show ?thesis using append_ascii_run_eq [OF assms, where out = out and seg = "[]" and p = p] by (simp add: word_less_nat_alt a_def q_def)
    next
      case nb: False
      then have "a = []" "q = p" using False by (cases p; simp add: a_def q_def)+
      then show ?thesis using nb by (simp add: word_less_nat_alt)
    qed
    show ?thesis
    proof (cases "q = []")
      case True
      then show ?thesis using False head a pq code_points_prefix [OF pq(2), of q] by (subst filter_loop.simps) simp
    next
      case ne: False
      obtain w n where d: "decode_cp q = Some (w, n)" "0 < n" "n \<le> length q" using decode_advances [OF ne] by blast
      have len: "length (drop n q) < length p" using d pq(1) by simp
      have cp: "code_points p = map ucast a @ w # code_points (drop n q)"
        using code_points_prefix [OF pq(2), of q] pq(1) d(1) ne by (simp add: code_points.simps [of q])
      have "filter_loop dropped keep_newlines out p =
          filter_loop dropped keep_newlines (if dropped w then out @ filter (\<lambda>c. \<not> dropped (ucast c)) a else append_cp (out @ filter (\<lambda>c. \<not> dropped (ucast c)) a) w) (drop n q)"
        using False head ne d(1) by (subst filter_loop.simps) simp
      also have "\<dots> = Some (out @ enc (map unat (filter (\<lambda>c. \<not> dropped c) (code_points p))))"
        using less [of "drop n q" "out @ filter (\<lambda>c. \<not> dropped (ucast c)) a"]
          less [of "drop n q" "out @ filter (\<lambda>c. \<not> dropped (ucast c)) a @ encode (unat w)"] len a append_cp_encode [OF decode_bounded [OF d(1) ne]] by (simp add: cp)
      finally show ?thesis .
    qed
  qed
qed

section \<open>Stripping\<close>

abbreviation sp :: "nat \<Rightarrow> bool" where
  "sp c \<equiv> is_unicode_space (word_of_nat c)"

fun trim_right :: "nat list \<Rightarrow> nat list" where
  "trim_right [] = []"
| "trim_right (c # cs) = (if trim_right cs = [] \<and> sp c then [] else c # trim_right cs)"

definition trim :: "nat list \<Rightarrow> nat list" where
  "trim cs = trim_right (dropWhile sp cs)"

lemma trim_right_empty: "trim_right cs = [] \<longleftrightarrow> (\<forall>c \<in> set cs. sp c)"
  by (induction cs) auto

lemma trim_right_prefix: "\<exists>k \<le> length cs. trim_right cs = take k cs"
proof (induction cs)
  case (Cons c cs)
  then obtain k where "k \<le> length cs" "trim_right cs = take k cs" by blast
  then show ?case by (cases "trim_right cs = [] \<and> sp c") (auto intro: exI [of _ 0] exI [of _ "Suc k"])
qed simp

lemma trim_right_split: "trim_right cs \<noteq> [] \<Longrightarrow> trim_right cs = takeWhile sp cs @ trim cs"
  by (induction cs) (auto simp: trim_def)

lemma trim_empty: "trim cs = [] \<longleftrightarrow> trim_right cs = []"
  by (induction cs) (auto simp: trim_def trim_right_empty)

lemma valid_parts: "valid (c # cs) \<longleftrightarrow> c \<le> 0x10FFFF \<and> valid cs"
  by (simp add: valid_def)

lemma decode_at:
  assumes "c \<le> 0x10FFFF"
  shows "decode_cp (drop (length (enc pre)) (enc (pre @ c # rest))) = Some (word_of_nat c, length (encode c))"
  using decode_encode [of c "enc rest"] assms by simp

lemma space_loop_eq:
  "valid rest \<Longrightarrow> space_loop (enc (pre @ rest)) (length (enc pre)) f l =
     Some (if f = None \<and> trim_right rest \<noteq> [] then Some (length (enc (pre @ takeWhile sp rest))) else f,
           if trim_right rest \<noteq> [] then length (enc (pre @ trim_right rest)) else l)"
proof (induction rest arbitrary: pre f l)
  case Nil
  then show ?case by (subst space_loop.simps) simp
next
  case (Cons c rest)
  have c: "c \<le> 0x10FFFF" "valid rest" using Cons.prems by (simp_all add: valid_parts)
  have "\<not> length (enc (pre @ c # rest)) \<le> length (enc pre)" using encode_pos [of c] by simp
  then have "space_loop (enc (pre @ c # rest)) (length (enc pre)) f l =
      (if sp c then space_loop (enc ((pre @ [c]) @ rest)) (length (enc (pre @ [c]))) f l
       else space_loop (enc ((pre @ [c]) @ rest)) (length (enc (pre @ [c]))) (if f = None then Some (length (enc pre)) else f) (length (enc (pre @ [c]))))"
    using decode_at [OF c(1), of pre rest] by (subst space_loop.simps) simp
  then show ?case unfolding Cons.IH [OF c(2)] by auto
qed

lemma strip_inplace_eq:
  assumes "valid cs"
  shows "strip_inplace (enc cs) = Some (enc (trim cs))"
proof (cases "trim_right cs = []")
  case True
  then show ?thesis using space_loop_eq [OF assms, of "[]" None 0] trim_empty [of cs] by (simp add: strip_inplace_def)
next
  case False
  obtain k where k: "k \<le> length cs" "trim_right cs = take k cs" using trim_right_prefix by blast
  let ?a = "enc (takeWhile sp cs)" and ?b = "enc (trim cs)" and ?c = "enc (drop k cs)"
  have "takeWhile sp cs @ trim cs @ drop k cs = cs" using trim_right_split [OF False] k(2) append_take_drop_id [of k cs] by simp
  then have e: "enc cs = ?a @ ?b @ ?c" by (metis concat_append map_append)
  have l: "space_loop (enc cs) 0 None 0 = Some (Some (length ?a), length ?a + length ?b)"
    using space_loop_eq [OF assms, of "[]" None 0] False trim_right_split [OF False] by simp
  show ?thesis
    unfolding strip_inplace_def l by (simp add: e memmove_def Let_def)
qed

section \<open>Collapsing runs\<close>

definition cap_run :: "nat \<Rightarrow> nat \<Rightarrow> nat" where
  "cap_run m n = (if m \<noteq> 0 \<and> m < n then m else n)"

text \<open>The specification: of every maximal run of one character at most \<open>m\<close> are kept.\<close>

function dedupe :: "nat \<Rightarrow> nat list \<Rightarrow> nat list" where
  "dedupe m [] = []"
| "dedupe m (c # cs) =
     (let k = length (takeWhile ((=) c) cs) in replicate (cap_run m (Suc k)) c @ dedupe m (drop k cs))"
  by pat_completeness auto
termination
  by (relation "measure (\<lambda>(m, cs). length cs)") auto

type_synonym runs = "(nat \<times> nat) list"

definition expand :: "runs \<Rightarrow> nat list" where
  "expand F = concat (map (\<lambda>(c, n). replicate n c) F)"

definition squeeze :: "nat \<Rightarrow> runs \<Rightarrow> nat list" where
  "squeeze m F = concat (map (\<lambda>(c, n). replicate (cap_run m n) c) F)"

definition wf_runs :: "runs \<Rightarrow> bool" where
  "wf_runs F \<longleftrightarrow> (\<forall>(c, n) \<in> set F. 0 < n \<and> c \<le> 0x10FFFF) \<and> distinct_adj (map fst F)"

fun trim_runs :: "runs \<Rightarrow> runs" where
  "trim_runs [] = []"
| "trim_runs ((c, n) # F) = (if trim_runs F = [] \<and> sp c then [] else (c, n) # trim_runs F)"

lemma expand_simps [simp]: "expand [] = []" "expand ((c, n) # F) = replicate n c @ expand F" "expand (F @ G) = expand F @ expand G"
  by (simp_all add: expand_def)

lemma squeeze_simps [simp]:
  "squeeze m [] = []" "squeeze m ((c, n) # F) = replicate (cap_run m n) c @ squeeze m F" "squeeze m (F @ G) = squeeze m F @ squeeze m G"
  by (simp_all add: squeeze_def)

lemma wf_runs_Cons: "wf_runs ((c, n) # F) \<longleftrightarrow> 0 < n \<and> c \<le> 0x10FFFF \<and> wf_runs F \<and> (F = [] \<or> c \<noteq> fst (hd F))"
  by (cases F) (auto simp: wf_runs_def)

lemma wf_runs_snoc: "wf_runs (F @ [(c, n)]) \<longleftrightarrow> wf_runs F \<and> 0 < n \<and> c \<le> 0x10FFFF \<and> (F = [] \<or> fst (last F) \<noteq> c)"
  by (auto simp: wf_runs_def distinct_adj_append_iff last_map)

lemma expand_hd: "wf_runs F \<Longrightarrow> F \<noteq> [] \<Longrightarrow> expand F \<noteq> [] \<and> hd (expand F) = fst (hd F)"
  by (cases F) (auto simp: wf_runs_Cons hd_append)

lemma dedupe_runs: "wf_runs F \<Longrightarrow> dedupe m (expand F) = squeeze m F"
proof (induction F)
  case (Cons r F)
  obtain c n where r: "r = (c, Suc n)" using Cons.prems by (cases r; cases "snd r") (auto simp: wf_runs_def)
  have "takeWhile ((=) c) (expand F) = []"
    using Cons.prems expand_hd [of F] by (cases "F = []"; cases "expand F") (auto simp: r wf_runs_Cons)
  moreover have "takeWhile ((=) c) (replicate k c @ xs) = replicate k c @ takeWhile ((=) c) xs" for k and xs :: "nat list"
    by (induction k) auto
  ultimately have "takeWhile ((=) c) (replicate n c @ expand F) = replicate n c" by simp
  then show ?case using Cons by (simp add: r wf_runs_Cons)
qed simp

lemma trim_right_replicate: "0 < n \<Longrightarrow> trim_right (replicate n c @ cs) = (if trim_right cs = [] \<and> sp c then [] else replicate n c @ trim_right cs)"
proof (induction n)
  case (Suc n)
  then show ?case by (cases "n = 0") auto
qed simp

lemma trim_right_runs: "wf_runs F \<Longrightarrow> trim_right (expand F) = expand (trim_runs F) \<and> (trim_right (expand F) = [] \<longleftrightarrow> trim_runs F = [])"
proof (induction F)
  case (Cons r F)
  then show ?case by (cases r) (auto simp: wf_runs_Cons trim_right_replicate)
qed simp

lemma trim_runs_prefix: "\<exists>k \<le> length F. trim_runs F = take k F"
proof (induction F)
  case (Cons r F)
  then obtain k where "k \<le> length F" "trim_runs F = take k F" by blast
  then show ?case by (cases r; cases "trim_runs F = [] \<and> sp (fst r)") (auto intro: exI [of _ 0] exI [of _ "Suc k"])
qed simp

lemma trim_runs_snoc: "trim_runs (F @ [(c, n)]) = (if sp c then trim_runs F else F @ [(c, n)])"
  by (induction F rule: trim_runs.induct) auto

lemma wf_runs_trim: "wf_runs F \<Longrightarrow> wf_runs (trim_runs F)"
  using trim_runs_prefix [of F]
  by (auto simp: wf_runs_def take_map distinct_adj_def successively_conv_nth) (fastforce dest: in_set_takeD)+

lemma dedupe_trim: "wf_runs F \<Longrightarrow> dedupe m (trim_right (expand F)) = squeeze m (trim_runs F)"
  using trim_right_runs dedupe_runs wf_runs_trim by simp

text \<open>Writing in place: everything that is written lies in the part that has been read already.\<close>

lemma put_bytes_eq:
  "length bs \<le> length G \<Longrightarrow> put_bytes (X @ G @ R) (length X) bs = Some (X @ bs @ drop (length bs) G @ R, length X + length bs)"
proof (induction bs arbitrary: X G)
  case (Cons b bs)
  then obtain g G' where G: "G = g # G'" by (cases G) auto
  then show ?case using Cons.IH [of G' "X @ [b]"] Cons.prems by (simp add: list_update_append)
qed simp

lemma write_run_eq:
  assumes "c \<le> 0x10FFFF" "k * length (encode c) \<le> length G"
  shows "write_run (X @ G @ R) (length X) (word_of_nat c) k =
    Some (X @ enc (replicate k c) @ drop (k * length (encode c)) G @ R, length X + k * length (encode c))"
  using assms(2)
proof (induction k arbitrary: X G)
  case (Suc k)
  have fit: "length (encode c) \<le> length G" "k * length (encode c) \<le> length (drop (length (encode c)) G)" using Suc.prems by auto
  have "write_run (X @ G @ R) (length X) (word_of_nat c) (Suc k) =
      write_run ((X @ encode c) @ drop (length (encode c)) G @ R) (length (X @ encode c)) (word_of_nat c) k"
  proof (cases "c < 128")
    case True
    then have "(word_of_nat c :: 32 word) < 0x80" "encode c = [ucast (word_of_nat c :: 32 word)]"
      using word_of_nat_cmp(1) [of c "0x80"] by (simp_all add: encode_def ucast_byte_of_nat)
    then show ?thesis using fit(1) by (cases G) (simp_all add: list_update_append)
  next
    case False
    then have "\<not> (word_of_nat c :: 32 word) < 0x80" using word_of_nat_cmp(1) [of c "0x80"] assms(1) by simp
    then show ?thesis using put_bytes_eq [OF fit(1), of X R] assms(1) by (simp add: encode_cp_def cp_bytes_encode)
  qed
  then show ?case using Suc.IH [OF fit(2), of "X @ encode c"] by (simp add: add.commute)
qed simp

definition dd_state :: "nat \<Rightarrow> bytes \<Rightarrow> runs \<Rightarrow> nat \<Rightarrow> nat \<Rightarrow> bytes \<Rightarrow> nat list \<Rightarrow> dedupe_state" where
  "dd_state m P F c n G rest =
     \<lparr>dd_buf = (P @ enc (squeeze m F)) @ G @ enc rest, dd_r = length ((P @ enc (squeeze m F)) @ G), dd_w = length (P @ enc (squeeze m F)),
      dd_has_run = True, dd_run_cp = word_of_nat c, dd_run_len = n,
      dd_last_non_ws = length (enc (squeeze m (trim_runs F))), dd_last_run_is_ws = (F \<noteq> [] \<and> sp (fst (last F)))\<rparr>"

lemma cap_run_le: "cap_run m n \<le> n"
  by (simp add: cap_run_def)

lemma dd_flush_eq:
  assumes "c \<le> 0x10FFFF" "n * length (encode c) \<le> length G"
  shows "dd_flush (length P) m (dd_state m P F c n G rest) =
    Some (dd_state m P (F @ [(c, n)]) c n (drop (cap_run m n * length (encode c)) G) rest)"
proof -
  have fit: "cap_run m n * length (encode c) \<le> length G" using assms(2) cap_run_le [of m n] by (meson le_trans mult_le_mono1)
  have len: "length (concat (replicate k (encode c))) = k * length (encode c)" for k by (induction k) auto
  have keep: "(if m \<noteq> 0 \<and> m < n then m else n) = cap_run m n" by (simp add: cap_run_def)
  show ?thesis
    unfolding dd_flush_def dd_state_def dedupe_state.simps keep Let_def write_run_eq [OF assms(1) fit]
    using fit by (simp add: trim_runs_snoc len)
qed

lemma next_cp:
  assumes "c \<le> 0x10FFFF"
  shows "do { b \<leftarrow> rd (X @ enc (c # rest)) (length X); if b < 0x80 then Some (ucast b, 1) else decode_cp (drop (length X) (X @ enc (c # rest))) } =
    Some (word_of_nat c, length (encode c))"
proof -
  obtain b q where e: "encode c @ enc rest = b # q" by (cases "encode c") auto
  have d: "decode_cp (b # q) = Some (word_of_nat c, length (encode c))" using decode_encode [of c "enc rest"] assms e by simp
  show ?thesis
  proof (cases "b < 0x80")
    case True
    then have "decode_cp (b # q) = Some (word_of_nat (unat b), 1)" by (intro decode1) (simp add: word_less_nat_alt)
    then show ?thesis using True d e by simp
  qed (use d e in simp)
qed

lemma word_of_nat_inject: "c \<le> 0x10FFFF \<Longrightarrow> d \<le> 0x10FFFF \<Longrightarrow> (word_of_nat c :: 32 word) = word_of_nat d \<longleftrightarrow> c = d"
  using unat_cp by metis

text \<open>One round of the loop, in a run of \<open>n\<close> characters \<open>c\<close>.\<close>

lemma dedupe_loop_step:
  assumes "c \<le> 0x10FFFF" "d \<le> 0x10FFFF" "n * length (encode c) \<le> length G"
  shows "dedupe_loop (length P) m (dd_state m P F c n G (d # rest)) =
    dedupe_loop (length P) m
      (if d = c then dd_state m P F c (n + 1) (G @ encode d) rest
       else dd_state m P (F @ [(c, n)]) d 1 (drop (cap_run m n * length (encode c)) (G @ encode d)) rest)"
proof -
  let ?s = "dd_state m P F c n G (d # rest)"
  let ?s' = "dd_state m P F c n (G @ encode d) rest"
  have adv: "?s\<lparr>dd_r := dd_r ?s + length (encode d)\<rparr> = ?s'" by (simp add: dd_state_def)
  have buf: "dd_buf ?s = ((P @ enc (squeeze m F)) @ G) @ enc (d # rest)" "dd_r ?s = length ((P @ enc (squeeze m F)) @ G)"
    by (simp_all add: dd_state_def)
  have "dedupe_loop (length P) m ?s =
      do {
        (cp, k) \<leftarrow> do { b \<leftarrow> rd (dd_buf ?s) (dd_r ?s); if b < 0x80 then Some (ucast b, 1) else decode_cp (drop (dd_r ?s) (dd_buf ?s)) };
        let d = ?s\<lparr>dd_r := dd_r ?s + k\<rparr>;
        if dd_has_run d \<and> cp = dd_run_cp d then dedupe_loop (length P) m (d\<lparr>dd_run_len := dd_run_len d + 1\<rparr>)
        else do {
          d \<leftarrow> (if dd_has_run d then dd_flush (length P) m d else Some d);
          dedupe_loop (length P) m (d\<lparr>dd_run_cp := cp, dd_run_len := 1, dd_has_run := True\<rparr>)
        }
      }"
    by (subst dedupe_loop.simps) (simp add: buf)
  also have "\<dots> = (if d = c then dedupe_loop (length P) m (?s'\<lparr>dd_run_len := dd_run_len ?s' + 1\<rparr>)
      else do {
        e \<leftarrow> dd_flush (length P) m ?s';
        dedupe_loop (length P) m (e\<lparr>dd_run_cp := word_of_nat d, dd_run_len := 1, dd_has_run := True\<rparr>) })"
    unfolding buf next_cp [OF assms(2)] using assms(1,2)
    by (simp add: adv Let_def word_of_nat_inject del: concat.simps map_append) (simp add: dd_state_def word_of_nat_inject add.assoc)
  finally show ?thesis
    using dd_flush_eq [OF assms(1), of n "G @ encode d" P m F rest] assms(3) by (auto simp: dd_state_def)
qed

lemma dedupe_loop_runs:
  assumes "wf_runs (F @ [(c, n)])" "n * length (encode c) \<le> length G" "valid rest"
  shows "\<exists>F' c' n' G'. dedupe_loop (length P) m (dd_state m P F c n G rest) = Some (dd_state m P F' c' n' G' []) \<and>
    wf_runs (F' @ [(c', n')]) \<and> n' * length (encode c') \<le> length G' \<and>
    expand (F' @ [(c', n')]) = expand (F @ [(c, n)]) @ rest"
  using assms
proof (induction rest arbitrary: F c n G)
  case Nil
  then show ?case
    by (intro exI [of _ F] exI [of _ c] exI [of _ n] exI [of _ G]) (simp add: dedupe_loop.simps dd_state_def)
next
  case (Cons d rest)
  have c: "c \<le> 0x10FFFF" and d: "d \<le> 0x10FFFF" "valid rest" using Cons.prems by (simp_all add: wf_runs_snoc valid_parts)
  note step = dedupe_loop_step [OF c d(1) Cons.prems(2), of P m F rest]
  show ?case
  proof (cases "d = c")
    case True
    have "wf_runs (F @ [(c, n + 1)])" "(n + 1) * length (encode c) \<le> length (G @ encode d)"
      using Cons.prems True by (simp_all add: wf_runs_snoc)
    from Cons.IH [OF this d(2)] show ?thesis using step True by (simp add: replicate_app_Cons_same)
  next
    case False
    let ?G = "drop (cap_run m n * length (encode c)) (G @ encode d)"
    have "cap_run m n * length (encode c) \<le> length G"
      using Cons.prems(2) cap_run_le [of m n] by (meson le_trans mult_le_mono1)
    then have "wf_runs ((F @ [(c, n)]) @ [(d, 1)])" "1 * length (encode d) \<le> length ?G"
      using Cons.prems d False wf_runs_snoc [of "F @ [(c, n)]" d 1] by simp_all
    from Cons.IH [OF this d(2)] show ?thesis using step False by simp
  qed
qed

lemma skip_spaces_eq:
  "valid rest \<Longrightarrow> skip_spaces (enc (pre @ rest)) (length (enc pre)) =
     Some (if dropWhile sp rest = [] then None else Some (length (enc (pre @ takeWhile sp rest))))"
proof (induction rest arbitrary: pre)
  case Nil
  then show ?case by (subst skip_spaces.simps) simp
next
  case (Cons c rest)
  have c: "c \<le> 0x10FFFF" "valid rest" using Cons.prems by (simp_all add: valid_parts)
  have "\<not> length (enc (pre @ c # rest)) \<le> length (enc pre)" by simp
  then have "skip_spaces (enc (pre @ c # rest)) (length (enc pre)) =
      (if sp c then skip_spaces (enc ((pre @ [c]) @ rest)) (length (enc (pre @ [c]))) else Some (Some (length (enc pre))))"
    using decode_at [OF c(1), of pre rest] by (subst skip_spaces.simps) simp
  then show ?case unfolding Cons.IH [OF c(2)] by auto
qed

text \<open>The loop starts without a run; its first round begins one.\<close>

lemma dedupe_loop_start:
  assumes "c \<le> 0x10FFFF"
  shows "dedupe_loop (length P) m
      \<lparr>dd_buf = P @ enc (c # rest), dd_r = length P, dd_w = length P, dd_has_run = False, dd_run_cp = 0, dd_run_len = 0,
       dd_last_non_ws = 0, dd_last_run_is_ws = False\<rparr> =
    dedupe_loop (length P) m (dd_state m P [] c 1 (encode c) rest)"
proof -
  let ?s = "\<lparr>dd_buf = P @ enc (c # rest), dd_r = length P, dd_w = length P, dd_has_run = False, dd_run_cp = 0, dd_run_len = 0,
       dd_last_non_ws = 0, dd_last_run_is_ws = False\<rparr>"
  have "dedupe_loop (length P) m ?s =
      do {
        (cp, k) \<leftarrow> do { b \<leftarrow> rd (P @ enc (c # rest)) (length P); if b < 0x80 then Some (ucast b, 1) else decode_cp (drop (length P) (P @ enc (c # rest))) };
        dedupe_loop (length P) m (?s\<lparr>dd_r := length P + k, dd_run_cp := cp, dd_run_len := 1, dd_has_run := True\<rparr>)
      }"
    by (subst dedupe_loop.simps) (simp add: Let_def)
  then show ?thesis unfolding next_cp [OF assms] by (simp add: dd_state_def)
qed

lemma strip_dedupe_eq:
  assumes "valid cs"
  shows "strip_dedupe_inplace (enc cs) m = Some (enc (dedupe m (trim cs)))"
proof (cases "dropWhile sp cs")
  case Nil
  then show ?thesis using skip_spaces_eq [OF assms, of "[]"]
    by (auto simp: strip_dedupe_inplace_def trim_def simp del: dropWhile_eq_Nil_conv)
next
  case (Cons c rest)
  define P where "P = enc (takeWhile sp cs)"
  have cs: "cs = takeWhile sp cs @ c # rest" using takeWhile_dropWhile_id [of sp cs] Cons by simp
  then have e: "enc cs = P @ enc (c # rest)" by (metis P_def concat_append map_append)
  have v: "c \<le> 0x10FFFF" "valid rest" using assms cs by (metis valid_append valid_parts)+
  obtain F d n G where loop: "dedupe_loop (length P) m (dd_state m P [] c 1 (encode c) rest) = Some (dd_state m P F d n G [])"
    and F: "wf_runs (F @ [(d, n)])" "n * length (encode d) \<le> length G" "expand (F @ [(d, n)]) = c # rest"
    using dedupe_loop_runs [of "[]" c 1 "encode c" rest P m] v by (auto simp: wf_runs_def)
  let ?F = "F @ [(d, n)]"
  define K where "K = drop (cap_run m n * length (encode d)) G"
  have flush: "dd_flush (length P) m (dd_state m P F d n G []) = Some (dd_state m P ?F d n K [])"
    using dd_flush_eq [OF _ F(2)] F(1) by (simp add: K_def wf_runs_snoc)
  obtain X where X: "squeeze m ?F = squeeze m (trim_runs ?F) @ X"
    using trim_runs_prefix [of ?F] squeeze_simps(3) [of m "take _ ?F" "drop _ ?F"] by (metis append_take_drop_id)
  have t: "dedupe m (trim cs) = squeeze m (trim_runs ?F)" using dedupe_trim [OF F(1), of m] F(3) Cons by (simp add: trim_def)
  have buf: "P @ enc (squeeze m ?F) @ K = P @ enc (squeeze m (trim_runs ?F)) @ enc X @ K" by (simp add: X del: squeeze_simps)
  define D where "D = dd_state m P ?F d n K []"
  have D: "dd_buf D = P @ enc (squeeze m (trim_runs ?F)) @ enc X @ K"
    using buf by (simp add: D_def dd_state_def del: squeeze_simps map_append)
  have D2: "(if dd_last_run_is_ws D then dd_last_non_ws D else dd_w D - length P) = length (enc (squeeze m (trim_runs ?F)))"
    by (simp add: D_def dd_state_def trim_runs_snoc)
  have sk: "skip_spaces (enc cs) 0 = Some (Some (length P))" using skip_spaces_eq [OF assms, of "[]"] Cons by (simp add: P_def)
  have "dd_has_run (dd_state m P F d n G [])" by (simp add: dd_state_def)
  then have "strip_dedupe_inplace (enc cs) m =
      do {
        s \<leftarrow> (if length P \<noteq> 0 then memmove (dd_buf D) 0 (length P) (length (enc (squeeze m (trim_runs ?F)))) else Some (dd_buf D));
        Some (take (length (enc (squeeze m (trim_runs ?F)))) s)
      }"
    using sk dedupe_loop_start [OF v(1), of P m rest] loop flush
    by (simp add: strip_dedupe_inplace_def e D_def [symmetric] D2 Let_def)
  then show ?thesis unfolding t D by (cases "P = []") (simp_all add: memmove_def del: squeeze_simps)
qed

section \<open>Truncation\<close>

lemma walk_exact_eq: "valid cs \<Longrightarrow> i \<le> length cs \<Longrightarrow> walk_exact (enc cs) i = Some (length (enc (take i cs)))"
proof (induction i arbitrary: cs)
  case (Suc i)
  then obtain c ds where cs: "cs = c # ds" by (cases cs) auto
  then show ?case using Suc decode_encode [of c "enc ds"] by (simp add: valid_parts)
qed simp

definition trunc :: "nat \<Rightarrow> nat list \<Rightarrow> nat list \<Rightarrow> nat list \<times> bool" where
  "trunc mx ms cs =
     (if mx = 0 \<or> length cs \<le> mx then (cs, False)
      else (if ms \<noteq> [] \<and> length ms < mx then take (mx - length ms) cs @ ms else take mx cs, True))"

lemma count_enc: "valid ms \<Longrightarrow> utf8_code_point_count (enc ms) = Some (length ms)"
  by (simp add: utf8_code_point_count_def count_loop_code_points code_points_enc)

lemma length_enc_take: "length (enc cs) \<le> length (enc (take k cs)) \<longleftrightarrow> length cs \<le> k"
proof -
  have "enc cs = enc (take k cs) @ enc (drop k cs)" by (metis append_take_drop_id concat_append map_append)
  then have "length (enc cs) \<le> length (enc (take k cs)) \<longleftrightarrow> enc (drop k cs) = []" by simp
  also have "\<dots> \<longleftrightarrow> length cs \<le> k" by (cases "drop k cs") auto
  finally show ?thesis .
qed

lemma truncate_eq:
  assumes "valid cs" "valid ms"
  shows "truncate_inplace (enc cs) mx (enc ms) False = Some (enc (fst (trunc mx ms cs)), snd (trunc mx ms cs))"
proof -
  have m: "(if enc ms \<noteq> [] then utf8_code_point_count (enc ms) else Some 0) = Some (length ms)"
    using count_enc [OF assms(2)] by (cases ms) simp_all
  have n: "enc ms \<noteq> [] \<longleftrightarrow> ms \<noteq> []" by (cases ms) simp_all
  show ?thesis
  proof (cases "mx = 0 \<or> length cs \<le> mx")
    case True
    then show ?thesis using m offset_loop_enc [OF assms(1), of mx] by (auto simp: truncate_inplace_def trunc_def Let_def)
  next
    case False
    moreover have "mx - length ms \<le> length cs" using False by arith
    moreover have "ms \<noteq> [] \<Longrightarrow> mx - length ms \<noteq> mx" using False by (cases ms) (simp_all, arith)
    ultimately show ?thesis
      using False offset_loop_enc [OF assms(1), of mx] length_enc_take [of cs mx] walk_exact_eq [OF assms(1), of "mx - length ms"] take_enc [of mx cs] take_enc [of "mx - length ms" cs]
      unfolding truncate_inplace_def m n trunc_def by (cases "ms = []") (simp_all add: Let_def count_enc [OF assms(2)])
  qed
qed

section \<open>Properties\<close>

definition rejected :: "bool \<Rightarrow> nat \<Rightarrow> bool" where
  "rejected kn c \<longleftrightarrow> 0xD800 \<le> c \<and> c \<le> 0xDFFF \<or> 0xFDD0 \<le> c \<and> c \<le> 0xFDEF \<or> c mod 0x10000 \<in> {0xFFFE, 0xFFFF} \<or>
     0xE000 \<le> c \<and> c \<le> 0xF8FF \<or> 0xF0000 \<le> c \<and> c \<le> 0xFFFFD \<or> 0x100000 \<le> c \<and> c \<le> 0x10FFFD \<or> c = 0xFFFD \<or>
     is_zero_width (word_of_nat c) \<or> is_control (word_of_nat c) kn"

lemma noncharacter_word:
  "is_noncharacter w \<longleftrightarrow> 0xFDD0 \<le> unat w \<and> unat w \<le> 0xFDEF \<or> unat w mod 0x10000 \<in> {0xFFFE, 0xFFFF}"
proof -
  have "take_bit 16 w = take_bit 16 (word_of_nat (unat w))" by simp
  also have "\<dots> = word_of_nat (take_bit 16 (unat w))" by (rule take_bit_of_nat)
  also have "take_bit 16 (unat w) = unat w mod 2 ^ 16" by (rule take_bit_eq_mod)
  finally have "w AND mask 16 = word_of_nat (unat w mod 2 ^ 16)" by (simp only: take_bit_eq_mask)
  then have low: "w AND 0xFFFF = word_of_nat (unat w mod 0x10000)" by (simp add: mask_eq_exp_minus_1)
  have "unat (word_of_nat (unat w mod 0x10000) :: 32 word) = unat w mod 0x10000" using unat_cp [of "unat w mod 0x10000"] by simp
  then have "(w AND 0xFFFF = 0xFFFE \<or> w AND 0xFFFF = 0xFFFF) \<longleftrightarrow> unat w mod 0x10000 \<in> {0xFFFE, 0xFFFF}"
    unfolding low by (simp add: word_unat_eq_iff)
  then show ?thesis by (simp add: is_noncharacter_def word_le_nat_alt Let_def)
qed

lemma rejected_word:
  "rejected kn (unat w) \<longleftrightarrow> is_surrogate w \<or> is_noncharacter w \<or> is_pua w \<or> w = 0xFFFD \<or> is_zero_width w \<or> is_control w kn"
  by (simp add: rejected_def is_surrogate_def noncharacter_word is_pua_def word_le_nat_alt word_unat_eq_iff)

lemma ctl_dropped:
  assumes "ascii_byte c"
  shows "(if kn then ascii_ctl_keep c else ascii_ctl_strip c) = is_control (ucast c) kn"
    "\<not> is_zero_width (ucast c)" "\<not> is_surrogate (ucast c)" "\<not> is_noncharacter (ucast c)" "\<not> is_pua (ucast c)" "(ucast c :: 32 word) \<noteq> 0xFFFD"
proof -
  show "(if kn then ascii_ctl_keep c else ascii_ctl_strip c) = is_control (ucast c) kn" using ascii_ctl_control [OF assms] by simp
  have u: "unat (ucast c :: 32 word) = unat c" by (rule unat_ucast_byte32)
  show "\<not> is_zero_width (ucast c)" using assms by (simp add: is_zero_width_def word_le_nat_alt word_unat_eq_iff u)
  show "\<not> is_surrogate (ucast c)" "\<not> is_noncharacter (ucast c)" "\<not> is_pua (ucast c)" "(ucast c :: 32 word) \<noteq> 0xFFFD"
    using assms u by (simp_all add: is_surrogate_def is_pua_def noncharacter_word word_le_nat_alt word_unat_eq_iff)
qed

lemma filter_pass_eq: "filter_pass p kn = Some (enc (filter (\<lambda>c. \<not> rejected kn c) (cps p)))"
proof -
  have "filter_pass p kn = Some (enc (map unat (filter (\<lambda>c. \<not> (is_surrogate c \<or> is_noncharacter c \<or> is_pua c \<or> c = 0xFFFD \<or> is_zero_width c \<or> is_control c kn)) (code_points p))))"
    unfolding filter_pass_def using ctl_dropped by (subst filter_loop_eq) auto
  then show ?thesis by (simp only: filter_map o_def rejected_word)
qed

lemma clean_filter_eq:
  "filter_loop (\<lambda>cp. is_zero_width cp \<or> is_control cp kn) kn [] p =
     Some (enc (filter (\<lambda>c. \<not> (is_zero_width (word_of_nat c) \<or> is_control (word_of_nat c) kn)) (cps p)))"
proof -
  have "filter_loop (\<lambda>cp. is_zero_width cp \<or> is_control cp kn) kn [] p =
      Some (enc (map unat (filter (\<lambda>c. \<not> (is_zero_width c \<or> is_control c kn)) (code_points p))))"
    using ctl_dropped by (subst filter_loop_eq) auto
  then show ?thesis by (simp add: filter_map o_def)
qed

lemma valid_filter: "valid cs \<Longrightarrow> valid (filter P cs)"
  by (auto simp: valid_def)

lemma set_trim: "set (trim cs) \<subseteq> set cs"
  using trim_right_prefix [of "dropWhile sp cs"] by (auto simp: trim_def dest!: in_set_takeD set_dropWhileD)

lemma set_dedupe: "set (dedupe m cs) \<subseteq> set cs"
  by (induction m cs rule: dedupe.induct) (auto simp: Let_def dest: in_set_dropD split: if_splits)

lemma valid_dedupe_trim: "valid cs \<Longrightarrow> valid (dedupe m (trim cs))"
  using set_trim [of cs] set_dedupe [of m "trim cs"] by (auto simp: valid_def)

lemma post_nfc_eq:
  assumes "valid cs" "so_truncate_msg opts = enc ms" "valid ms"
  shows "do { s \<leftarrow> strip_dedupe_inplace (enc cs) (so_max_repeat opts); truncate_inplace s (so_max_chars opts) (so_truncate_msg opts) False } =
    (let r = trunc (so_max_chars opts) ms (dedupe (so_max_repeat opts) (trim cs)) in Some (enc (fst r), snd r))"
  using strip_dedupe_eq [OF assms(1)] truncate_eq [OF valid_dedupe_trim [OF assms(1)] assms(3)] by (simp add: assms(2) Let_def)

text \<open>
  Property C12.
  The sanitizer computes the documented steps for every input, also one that is not UTF-8, although it works on one
  buffer in place: it removes the rejected code points, strips white space on both sides, keeps at most
  \<^verbatim>\<open>max_repeat\<close> of every run of one character and, only if more than \<^verbatim>\<open>max_chars\<close> code points are left,
  truncates and appends the message when it fits. No write leaves the buffer.
\<close>

theorem sanitize_for_tokenizer_correct:
  assumes "so_truncate_msg opts = enc ms" "valid ms"
  shows "sanitize_for_tokenizer utf8 opts =
    (let cs = dedupe (so_max_repeat opts) (trim (filter (\<lambda>c. \<not> rejected True c) (cps utf8)));
         (cs, truncated) = trunc (so_max_chars opts) ms cs in
     Some (enc cs, truncated))"
  using post_nfc_eq [OF valid_filter [OF valid_cps] assms, of "\<lambda>c. \<not> rejected True c" utf8]
  by (simp add: sanitize_for_tokenizer_def filter_pass_eq Let_def case_prod_beta)

theorem sanitize_for_tokenizer_correct_witness:
  "sanitize_for_tokenizer [0x20, 0x61, 0x61, 0x61, 0xFF, 0x07, 0x62, 0x0A] \<lparr>so_max_chars = 0, so_max_repeat = 2, so_truncate_msg = []\<rparr> =
     Some ([0x61, 0x61, 0x62], False)"
proof -
  have "code_points [0x20, 0x61, 0x61, 0x61, 0xFF, 0x07, 0x62, 0x0A] = [0x20, 0x61, 0x61, 0x61, 0xFFFD, 0x07, 0x62, 0x0A]"
    by code_simp
  moreover have r2: "replicate 2 x = [x, x]" for x :: nat by (simp add: numeral_2_eq_2)
  ultimately show ?thesis
    using sanitize_for_tokenizer_correct [of "\<lparr>so_max_chars = 0, so_max_repeat = 2, so_truncate_msg = []\<rparr>" "[]" "[0x20, 0x61, 0x61, 0x61, 0xFF, 0x07, 0x62, 0x0A]"]
    by (simp add: valid_def rejected_def is_zero_width_def is_control_def trim_def is_unicode_space_def trunc_def cap_run_def encode_def r2)
qed

text \<open>
  Property C13.
  Whatever bytes go in, what comes out is well-formed UTF-8 of permitted code points only: no surrogates, no
  noncharacters, no private use, no replacement, invisible or control characters except the line breaks and the
  tabulator, provided the truncation message is of that form; and it has at most \<^verbatim>\<open>max_chars\<close> code points when a
  limit is set.
\<close>

theorem sanitize_well_formed:
  assumes "so_truncate_msg opts = enc ms" "valid ms" "\<forall>c \<in> set ms. \<not> rejected True c"
  shows "\<exists>cs truncated. sanitize_for_tokenizer utf8 opts = Some (enc cs, truncated) \<and> valid cs \<and> (\<forall>c \<in> set cs. \<not> rejected True c) \<and>
    (so_max_chars opts \<noteq> 0 \<longrightarrow> length cs \<le> so_max_chars opts)"
proof -
  define ds where "ds = dedupe (so_max_repeat opts) (trim (filter (\<lambda>c. \<not> rejected True c) (cps utf8)))"
  have ds: "valid ds" "\<forall>c \<in> set ds. \<not> rejected True c"
    using valid_dedupe_trim [OF valid_filter [OF valid_cps]] set_dedupe set_trim by (fastforce simp: ds_def)+
  have "sanitize_for_tokenizer utf8 opts = Some (enc (fst (trunc (so_max_chars opts) ms ds)), snd (trunc (so_max_chars opts) ms ds))"
    using post_nfc_eq [OF valid_filter [OF valid_cps] assms(1,2), of "\<lambda>c. \<not> rejected True c" utf8]
    by (simp add: sanitize_for_tokenizer_def filter_pass_eq ds_def Let_def)
  then show ?thesis
    using ds assms by (intro exI [of _ "fst (trunc (so_max_chars opts) ms ds)"] exI [of _ "snd (trunc (so_max_chars opts) ms ds)"])
      (auto simp: trunc_def valid_def dest: in_set_takeD)
qed

theorem sanitize_well_formed_witness:
  "\<exists>cs truncated. sanitize_for_tokenizer [0xED, 0xA0, 0x80, 0x1B, 0x61, 0x62] \<lparr>so_max_chars = 1, so_max_repeat = 100, so_truncate_msg = []\<rparr> = Some (enc cs, truncated) \<and>
     length cs \<le> 1"
  using sanitize_well_formed [of "\<lparr>so_max_chars = 1, so_max_repeat = 100, so_truncate_msg = []\<rparr>" "[]" "[0xED, 0xA0, 0x80, 0x1B, 0x61, 0x62]"]
  by (auto simp: valid_def)

text \<open>Bytes that are neither ASCII nor the first of a sequence: stray continuation bytes and impossible ones.\<close>

definition stray :: "byte \<Rightarrow> bool" where
  "stray b \<longleftrightarrow> \<not> b < 0x80 \<and> lead_byte b = None"

lemma decode_stray: "stray b \<Longrightarrow> decode_cp (b # bs) = Some (0xFFFD, 1)"
  by (simp add: stray_def decode_cp_def)

lemma replacement_char:
  "length (encode 0xFFFD) = 3" "length (cp_bytes 0xFFFD) = 3" "\<not> is_unicode_space 0xFFFD" "(word_of_nat 0xFFFD :: 32 word) = 0xFFFD"
  by (simp add: encode_def, code_simp, code_simp, simp)

lemma stray_run:
  assumes "\<forall>b\<in>set bs. stray b" "dd_buf d = bs" "dd_r d \<le> length bs" "dd_has_run d" "dd_run_cp d = 0xFFFD"
  shows "dedupe_loop base m d = Some (d\<lparr>dd_r := length bs, dd_run_len := dd_run_len d + (length bs - dd_r d)\<rparr>)"
  using assms
proof (induction "length bs - dd_r d" arbitrary: d)
  case 0
  then show ?case by (subst dedupe_loop.simps) simp
next
  case (Suc n)
  let ?r = "dd_r d" and ?d = "d\<lparr>dd_r := dd_r d + 1, dd_run_len := dd_run_len d + 1\<rparr>"
  have r: "?r < length bs" using Suc.hyps(2) by simp
  then have b: "drop ?r bs = bs ! ?r # drop (Suc ?r) bs" "stray (bs ! ?r)"
    using Suc.prems(1) by (simp_all add: Cons_nth_drop_Suc)
  have "dedupe_loop base m d = dedupe_loop base m ?d"
    using r b Suc.prems decode_stray [OF b(2)] by (subst dedupe_loop.simps) (simp add: stray_def Let_def)
  also have "\<dots> = Some (?d\<lparr>dd_r := length bs, dd_run_len := dd_run_len ?d + (length bs - dd_r ?d)\<rparr>)"
    using Suc.prems Suc.hyps(2) r by (intro Suc.hyps(1)) auto
  finally show ?case using r by (simp add: Suc_diff_Suc)
qed

lemma put_bytes_fits:
  "put_bytes s w bs = Some (s', w') \<Longrightarrow> w \<le> length s \<Longrightarrow> length s' = length s \<and> w' = w + length bs \<and> w' \<le> length s"
proof (induction bs arbitrary: s w)
  case (Cons b bs)
  have "w < length s" using Cons.prems(1) by (cases "w < length s") (simp_all add: wr_def)
  moreover have "put_bytes (s[w := b]) (w + 1) bs = Some (s', w')" using Cons.prems(1) calculation by simp
  ultimately show ?case using Cons.IH [of "s[w := b]" "w + 1"] by simp
qed simp

lemma write_run_fits: "write_run s w 0xFFFD k = Some (s', w') \<Longrightarrow> w \<le> length s \<Longrightarrow> w + 3 * k \<le> length s"
proof (induction k arbitrary: s w)
  case (Suc k)
  have "write_run s w 0xFFFD (Suc k) = do { (s, w) \<leftarrow> put_bytes s w (cp_bytes 0xFFFD); write_run s w 0xFFFD k }"
    by (simp add: encode_cp_def)
  then obtain s1 w1 where p: "put_bytes s w (cp_bytes 0xFFFD) = Some (s1, w1)" "write_run s1 w1 0xFFFD k = Some (s', w')"
    using Suc.prems(1) by (cases "put_bytes s w (cp_bytes 0xFFFD)") auto
  then show ?case using put_bytes_fits [OF p(1) Suc.prems(2)] Suc.IH [OF p(2)] by (simp add: replacement_char)
qed simp

lemma strip_dedupe_stray:
  assumes "\<forall>b\<in>set bs. stray b"
  shows "strip_dedupe_inplace bs m =
     (if length bs < 3 * cap_run m (length bs) then None else Some (enc (replicate (cap_run m (length bs)) 0xFFFD)))"
proof (cases bs)
  case Nil
  then show ?thesis by (simp add: strip_dedupe_inplace_def cap_run_def)
next
  case (Cons b q)
  let ?k = "cap_run m (length bs)"
  let ?d = "\<lparr>dd_buf = bs, dd_r = 1, dd_w = 0, dd_has_run = True, dd_run_cp = 0xFFFD, dd_run_len = 1, dd_last_non_ws = 0, dd_last_run_is_ws = False\<rparr>"
  have b: "stray b" "decode_cp bs = Some (0xFFFD, 1)" using assms Cons decode_stray [of b q] by auto
  have skip: "skip_spaces bs 0 = Some (Some 0)" using b Cons by (subst skip_spaces.simps) (simp add: replacement_char)
  have "dedupe_loop 0 m \<lparr>dd_buf = bs, dd_r = 0, dd_w = 0, dd_has_run = False, dd_run_cp = 0, dd_run_len = 0, dd_last_non_ws = 0, dd_last_run_is_ws = False\<rparr> =
      dedupe_loop 0 m ?d"
    using b Cons by (subst dedupe_loop.simps) (simp add: stray_def Let_def)
  also have "\<dots> = Some (?d\<lparr>dd_r := length bs, dd_run_len := length bs\<rparr>)"
    using stray_run [OF assms, of ?d 0 m] Cons by simp
  finally have loop: "dedupe_loop 0 m \<lparr>dd_buf = bs, dd_r = 0, dd_w = 0, dd_has_run = False, dd_run_cp = 0, dd_run_len = 0, dd_last_non_ws = 0, dd_last_run_is_ws = False\<rparr> =
      Some (?d\<lparr>dd_r := length bs, dd_run_len := length bs\<rparr>)" .
  have flush: "dd_flush 0 m (?d\<lparr>dd_r := length bs, dd_run_len := length bs\<rparr>) =
      do { (s, w) \<leftarrow> write_run bs 0 0xFFFD ?k;
           Some (?d\<lparr>dd_r := length bs, dd_run_len := length bs, dd_buf := s, dd_w := w, dd_last_non_ws := w\<rparr>) }"
    by (simp add: dd_flush_def Let_def replacement_char cap_run_def)
  have ne: "bs \<noteq> []" using Cons by simp
  have body: "strip_dedupe_inplace bs m = do { (s, w) \<leftarrow> write_run bs 0 0xFFFD ?k; Some (take w s) }"
    using ne flush by (cases "write_run bs 0 0xFFFD ?k") (simp_all add: strip_dedupe_inplace_def skip loop Let_def case_prod_beta)
  show ?thesis
  proof (cases "length bs < 3 * ?k")
    case True
    then have "write_run bs 0 0xFFFD ?k = None" using write_run_fits [of bs 0 ?k] by (cases "write_run bs 0 0xFFFD ?k") auto
    then show ?thesis using True body by simp
  next
    case False
    then have "write_run bs 0 0xFFFD ?k = Some (enc (replicate ?k 0xFFFD) @ drop (?k * 3) bs, ?k * 3)"
      using write_run_eq [of "0xFFFD" ?k bs "[]" "[]"] by (simp add: replacement_char mult.commute)
    moreover have "length (enc (replicate k 0xFFFD)) = k * 3" for k by (induction k) (simp_all add: replacement_char)
    ultimately show ?thesis using False body by simp
  qed
qed

text \<open>
  Property C39.
  The comment on the in-place pass says that the write position never overtakes the read position. That fails for
  bytes that are not UTF-8, which are read as \<^verbatim>\<open>U+FFFD\<close>, one byte each, and written back as three. The
  second half of the pipeline, called on its own on bytes that all are neither ASCII nor the
  first of a sequence, writes beyond the end of the buffer exactly if three times the number of
  characters kept is more than the number of bytes; otherwise it returns the characters kept, truncated.
\<close>

theorem sanitize_post_nfc_overflow:
  assumes "\<forall>b\<in>set bs. stray b" "so_truncate_msg opts = enc ms" "valid ms"
  shows "sanitize_post_nfc bs opts =
    (let k = cap_run (so_max_repeat opts) (length bs); (cs, truncated) = trunc (so_max_chars opts) ms (replicate k 0xFFFD) in
     if length bs < 3 * k then None else Some (enc cs, truncated))"
proof -
  let ?cs = "replicate (cap_run (so_max_repeat opts) (length bs)) (0xFFFD :: nat)"
  have "valid ?cs" by (simp add: valid_def)
  from truncate_eq [OF this assms(3)] strip_dedupe_stray [OF assms(1)]
  show ?thesis by (simp only: sanitize_post_nfc_def assms(2) Let_def case_prod_beta bind.bind_lunit bind.bind_lzero split: if_split) simp
qed

theorem sanitize_post_nfc_overflow_witness:
  "sanitize_post_nfc [0xFF, 0x80] \<lparr>so_max_chars = 0, so_max_repeat = 1, so_truncate_msg = []\<rparr> = None \<and>
   sanitize_post_nfc [0xFF, 0x80, 0xFF] \<lparr>so_max_chars = 0, so_max_repeat = 1, so_truncate_msg = []\<rparr> = Some (encode 0xFFFD, False)"
proof -
  have "stray 0xFF" "stray 0x80" by (simp_all add: stray_def lead_byte_def)
  then show ?thesis
    using sanitize_post_nfc_overflow [of "[0xFF, 0x80]" "\<lparr>so_max_chars = 0, so_max_repeat = 1, so_truncate_msg = []\<rparr>" "[]"]
      sanitize_post_nfc_overflow [of "[0xFF, 0x80, 0xFF]" "\<lparr>so_max_chars = 0, so_max_repeat = 1, so_truncate_msg = []\<rparr>" "[]"]
    by (simp add: valid_def cap_run_def trunc_def)
qed

text \<open>
  Cleaning removes exactly the invisible and control characters and then the white space at both ends; everything else
  is kept in order, and bytes that are not UTF-8 become \<^verbatim>\<open>U+FFFD\<close>.
\<close>

lemma clean_text_correct:
  "clean_text utf8 kn = Some (enc (trim (filter (\<lambda>c. \<not> (is_zero_width (word_of_nat c) \<or> is_control (word_of_nat c) kn)) (cps utf8))))"
  unfolding clean_text_def clean_filter_eq using strip_inplace_eq [OF valid_filter [OF valid_cps]] by simp

end
