(* ===== verification/Ansi.thy ===== *)
theory Ansi
  imports Prelude "HOL-Library.Word"
begin

text \<open>
  The streaming remover of terminal escape sequences, \<^verbatim>\<open>src/runtime/stream/ansi.cpp\<close>: a state machine that holds back
  the bytes of an escape sequence until it is complete or impossible. The header states as its specification a regular
  expression, which is \<open>esc_match\<close> below.
\<close>

section \<open>The code\<close>

datatype ansi_mode = Normal | After_esc | Osclike | Osclike_esc | Csi_params | Csi_inter

record ansi_stripper =
  as_state :: ansi_mode
  as_pending :: bytes
  as_first :: byte

definition as_new :: ansi_stripper where
  "as_new = \<lparr>as_state = Normal, as_pending = [], as_first = 0\<rparr>"

definition is_fe_byte :: "byte \<Rightarrow> bool" where
  "is_fe_byte b \<longleftrightarrow> 0x40 \<le> b \<and> b \<le> 0x5A \<or> 0x5C \<le> b \<and> b \<le> 0x5F"

definition is_dcs_like :: "byte \<Rightarrow> bool" where
  "is_dcs_like b \<longleftrightarrow> b = 0x50 \<or> b = 0x5E \<or> b = 0x5F"

definition as_reset :: "ansi_stripper \<Rightarrow> ansi_stripper" where
  "as_reset a = a\<lparr>as_state := Normal, as_pending := [], as_first := 0\<rparr>"

text \<open>What is held goes into the text.\<close>

definition as_emit :: "ansi_stripper \<Rightarrow> bytes \<Rightarrow> ansi_stripper \<times> bytes" where
  "as_emit a out = (a\<lparr>as_pending := [], as_state := Normal\<rparr>, out @ as_pending a)"

definition fail_escape :: "ansi_stripper \<Rightarrow> bytes \<Rightarrow> ansi_stripper \<times> bytes" where
  "fail_escape a out =
     (if as_state a = Osclike \<or> as_state a = Osclike_esc then
        let has_trailing_esc = (as_state a = Osclike_esc);
            content_len = length (as_pending a) - 2 - (if has_trailing_esc then 1 else 0);
            out = out @ take content_len (drop 2 (as_pending a)) in
        if has_trailing_esc then (a\<lparr>as_pending := [0x1B], as_state := After_esc\<rparr>, out)
        else (a\<lparr>as_pending := [], as_state := Normal\<rparr>, out)
      else as_emit a out)"

fun mode_rank :: "ansi_mode \<Rightarrow> nat" where
  "mode_rank Normal = 0"
| "mode_rank Osclike_esc = 2"
| "mode_rank _ = 1"

lemma rank_after: "mode_rank (as_state (fst (fail_escape a out))) < mode_rank (as_state a)" if "as_state a \<noteq> Normal"
  using that by (cases "as_state a") (simp_all add: fail_escape_def as_emit_def Let_def)

function as_flush :: "ansi_stripper \<Rightarrow> bytes \<Rightarrow> ansi_stripper \<times> bytes" where
  "as_flush a out =
     (case as_state a of
        Normal \<Rightarrow> (a, out)
      | Osclike \<Rightarrow> (let (a, out) = fail_escape a out in as_flush a out)
      | Osclike_esc \<Rightarrow> (let (a, out) = fail_escape a out in as_flush a out)
      | _ \<Rightarrow> (let (a, out) = as_emit a out in as_flush a out))"
  by pat_completeness auto
termination
  by (relation "measure (\<lambda>(a, out). mode_rank (as_state a))")
    (auto simp: as_emit_def fail_escape_def Let_def split: if_splits)

text \<open>The loop of \<^verbatim>\<open>feed\<close> over the rest \<open>p\<close> of the chunk; where the code continues without consuming a byte, the
  state has changed.\<close>

function as_feed :: "ansi_stripper \<Rightarrow> bytes \<Rightarrow> bytes \<Rightarrow> ansi_stripper \<times> bytes" where
  "as_feed a [] out = (a, out)"
| "as_feed a (b # p) out =
     (case as_state a of
        Normal \<Rightarrow>
          (let run = takeWhile (\<lambda>c. c \<noteq> 0x1B) (b # p); rest = dropWhile (\<lambda>c. c \<noteq> 0x1B) (b # p); out = out @ run in
           if rest = [] then (a, out) else as_feed (a\<lparr>as_pending := [0x1B], as_state := After_esc\<rparr>) (tl rest) out)
      | After_esc \<Rightarrow>
          if b = 0x5D \<or> is_dcs_like b then as_feed (a\<lparr>as_pending := as_pending a @ [b], as_first := b, as_state := Osclike\<rparr>) p out
          else if b = 0x5B then as_feed (a\<lparr>as_pending := as_pending a @ [b], as_state := Csi_params\<rparr>) p out
          else if is_fe_byte b then as_feed (a\<lparr>as_pending := [], as_state := Normal\<rparr>) p out
          else (let (a, out) = as_emit a out in as_feed a (b # p) out)
      | Osclike \<Rightarrow>
          if b = 0x07 then as_feed (a\<lparr>as_pending := [], as_state := Normal\<rparr>) p out
          else if b = 0x1B then as_feed (a\<lparr>as_pending := as_pending a @ [b], as_state := Osclike_esc\<rparr>) p out
          else (let run = takeWhile (\<lambda>c. c \<noteq> 0x07 \<and> c \<noteq> 0x1B) (b # p) in
                as_feed (a\<lparr>as_pending := as_pending a @ run\<rparr>) (drop (length run) (b # p)) out)
      | Osclike_esc \<Rightarrow>
          if b = 0x5C then as_feed (a\<lparr>as_pending := [], as_state := Normal\<rparr>) p out
          else (let (a, out) = fail_escape a out in as_feed a (b # p) out)
      | Csi_params \<Rightarrow>
          if 0x30 \<le> b \<and> b \<le> 0x3F then as_feed (a\<lparr>as_pending := as_pending a @ [b]\<rparr>) p out
          else if 0x20 \<le> b \<and> b \<le> 0x2F then as_feed (a\<lparr>as_pending := as_pending a @ [b], as_state := Csi_inter\<rparr>) p out
          else if 0x40 \<le> b \<and> b \<le> 0x7E then as_feed (a\<lparr>as_pending := [], as_state := Normal\<rparr>) p out
          else (let (a, out) = as_emit a out in as_feed a (b # p) out)
      | Csi_inter \<Rightarrow>
          if 0x20 \<le> b \<and> b \<le> 0x2F then as_feed (a\<lparr>as_pending := as_pending a @ [b]\<rparr>) p out
          else if 0x40 \<le> b \<and> b \<le> 0x7E then as_feed (a\<lparr>as_pending := [], as_state := Normal\<rparr>) p out
          else (let (a, out) = as_emit a out in as_feed a (b # p) out))"
  by pat_completeness auto
termination
proof (relation "measure (\<lambda>(a, p, out). 3 * length p + mode_rank (as_state a))", goal_cases)
  case (2 a b p out run rest out')
  have "length (dropWhile (\<lambda>c. c \<noteq> 0x1B) (b # p)) \<le> Suc (length p)" by (metis length_Cons length_dropWhile_le)
  then show ?case using 2 by (cases rest) auto
qed (auto simp: as_emit_def fail_escape_def Let_def le_imp_less_Suc split: if_splits)

definition strip_ansi :: "bytes \<Rightarrow> bytes" where
  "strip_ansi utf8 = (let (a, out) = as_feed as_new utf8 [] in snd (as_flush a out))"

declare as_flush.simps [simp del] as_feed.simps(2) [simp del]

section \<open>The regular expression\<close>

text \<open>
  The length of the match at an \<^verbatim>\<open>ESC\<close>, the alternatives tried in the order in which they are written. The greedy
  repetitions need no backtracking, since no class contains a byte that may follow it.
\<close>

abbreviation osc_first :: "byte \<Rightarrow> bool" where
  "osc_first b \<equiv> b = 0x5D \<or> is_dcs_like b"

abbreviation osc_char :: "byte \<Rightarrow> bool" where
  "osc_char c \<equiv> c \<noteq> 0x07 \<and> c \<noteq> 0x1B"

abbreviation param_byte :: "byte \<Rightarrow> bool" where
  "param_byte b \<equiv> 0x30 \<le> b \<and> b \<le> 0x3F"

abbreviation inter_byte :: "byte \<Rightarrow> bool" where
  "inter_byte b \<equiv> 0x20 \<le> b \<and> b \<le> 0x2F"

abbreviation final_byte :: "byte \<Rightarrow> bool" where
  "final_byte b \<equiv> 0x40 \<le> b \<and> b \<le> 0x7E"

definition osc_match :: "bytes \<Rightarrow> nat option" where
  "osc_match p =
     (case p of
        [] \<Rightarrow> None
      | f # q \<Rightarrow>
          let n = length (takeWhile osc_char q) in
          if \<not> osc_first f then None
          else (case drop n q of
                  [] \<Rightarrow> None
                | c # r \<Rightarrow> if c = 0x07 then Some (n + 3) else if r \<noteq> [] \<and> hd r = 0x5C then Some (n + 4) else None))"

definition fe_match :: "bytes \<Rightarrow> nat option" where
  "fe_match p = (if p \<noteq> [] \<and> is_fe_byte (hd p) then Some 2 else None)"

definition csi_match :: "bytes \<Rightarrow> nat option" where
  "csi_match p =
     (if p \<noteq> [] \<and> hd p = 0x5B then
        let q = tl p; n = length (takeWhile param_byte q); r = drop n q; k = length (takeWhile inter_byte r); r = drop k r in
        if r \<noteq> [] \<and> final_byte (hd r) then Some (n + k + 3) else None
      else None)"

definition esc_match :: "bytes \<Rightarrow> nat option" where
  "esc_match p =
     (case osc_match p of Some n \<Rightarrow> Some n
      | None \<Rightarrow> (case fe_match p of Some n \<Rightarrow> Some n | None \<Rightarrow> csi_match p))"

text \<open>Replacing every match by nothing, from left to right.\<close>

function re_sub :: "bytes \<Rightarrow> bytes" where
  "re_sub [] = []"
| "re_sub (b # p) =
     (if b = 0x1B then case esc_match p of Some n \<Rightarrow> re_sub (drop (n - 1) p) | None \<Rightarrow> b # re_sub p else b # re_sub p)"
  by pat_completeness auto
termination
  by (relation "measure length") auto

lemma osc_match_Cons:
  "osc_first f \<Longrightarrow> list_all osc_char cs \<Longrightarrow> osc_match (f # cs @ 0x07 # r) = Some (length cs + 3)"
  "osc_first f \<Longrightarrow> list_all osc_char cs \<Longrightarrow> osc_match (f # cs @ 0x1B # 0x5C # r) = Some (length cs + 4)"
  "list_all osc_char cs \<Longrightarrow> osc_match (f # cs @ 0x1B # b # r) = (if osc_first f \<and> b = 0x5C then Some (length cs + 4) else None)"
  "list_all osc_char cs \<Longrightarrow> osc_match (f # cs) = None"
  "list_all osc_char cs \<Longrightarrow> osc_match (f # cs @ [0x1B]) = None"
  by (simp_all add: osc_match_def takeWhile_append1 takeWhile_append2 list_all_iff Let_def takeWhile_eq_all_conv [THEN iffD2])

lemma re_sub_plain: "list_all (\<lambda>c. c \<noteq> 0x1B) cs \<Longrightarrow> re_sub (cs @ p) = cs @ re_sub p"
  by (induction cs) auto

lemma fe_osc: "osc_first f \<Longrightarrow> is_fe_byte f"
  by (auto simp: is_dcs_like_def is_fe_byte_def)

lemma osc_no_esc: "list_all osc_char cs \<Longrightarrow> list_all (\<lambda>c. c \<noteq> 0x1B) cs"
  by (auto simp: list_all_iff)

lemma esc_match_osc_fail: "osc_first f \<Longrightarrow> osc_match (f # p) = None \<Longrightarrow> esc_match (f # p) = Some 2"
  by (simp add: esc_match_def fe_match_def fe_osc)

lemma esc_match_csi: "esc_match (0x5B # p) = csi_match (0x5B # p)"
  by (simp add: esc_match_def osc_match_def fe_match_def is_fe_byte_def is_dcs_like_def)

lemma inter_not_param: "inter_byte b \<Longrightarrow> \<not> param_byte b"
  by (auto simp: word_le_nat_alt)

lemma csi_match_eq:
  assumes "list_all param_byte ps" "list_all inter_byte is" "\<not> inter_byte b" "\<not> (is = [] \<and> param_byte b)"
  shows "csi_match (0x5B # ps @ is @ b # p) = (if final_byte b then Some (length ps + length is + 3) else None)"
proof -
  have t: "takeWhile param_byte (ps @ is @ b # p) = ps"
    using assms inter_not_param by (cases "is") (auto simp: list_all_iff takeWhile_append2)
  have u: "takeWhile inter_byte (is @ b # p) = is" using assms(2,3) by (auto simp: list_all_iff takeWhile_append2)
  show ?thesis by (simp add: csi_match_def t u Let_def)
qed

lemma csi_match_end:
  assumes "list_all param_byte ps" "list_all inter_byte is"
  shows "csi_match (0x5B # ps @ is) = None"
proof -
  have t: "takeWhile param_byte (ps @ is) = ps"
    using assms inter_not_param by (cases "is") (auto simp: list_all_iff takeWhile_append2 takeWhile_eq_all_conv)
  have u: "takeWhile inter_byte is = is" using assms(2) by (simp add: list_all_iff takeWhile_eq_all_conv)
  show ?thesis by (simp add: csi_match_def t u Let_def)
qed

section \<open>The state machine\<close>

text \<open>What is held back in each state.\<close>

definition holds :: "ansi_stripper \<Rightarrow> bool" where
  "holds a \<longleftrightarrow>
     (case as_state a of
        Normal \<Rightarrow> as_pending a = []
      | After_esc \<Rightarrow> as_pending a = [0x1B]
      | Osclike \<Rightarrow> \<exists>f cs. as_pending a = 0x1B # f # cs \<and> osc_first f \<and> list_all osc_char cs
      | Osclike_esc \<Rightarrow> \<exists>f cs. as_pending a = 0x1B # f # cs @ [0x1B] \<and> osc_first f \<and> list_all osc_char cs
      | Csi_params \<Rightarrow> \<exists>ps. as_pending a = 0x1B # 0x5B # ps \<and> list_all param_byte ps
      | Csi_inter \<Rightarrow> \<exists>ps is. as_pending a = 0x1B # 0x5B # ps @ is \<and> is \<noteq> [] \<and> list_all param_byte ps \<and> list_all inter_byte is)"

lemma csi_no_esc: "list_all param_byte ps \<Longrightarrow> list_all (\<lambda>c. c \<noteq> 0x1B) ps" "list_all inter_byte is \<Longrightarrow> list_all (\<lambda>c. c \<noteq> 0x1B) is"
  by (auto simp: list_all_iff)

text \<open>A control sequence that the byte \<open>b\<close> ends or makes impossible.\<close>

lemma re_sub_csi:
  assumes "list_all param_byte ps" "list_all inter_byte is" "\<not> inter_byte b" "\<not> (is = [] \<and> param_byte b)"
  shows "re_sub (0x1B # 0x5B # ps @ is @ b # p) = (if final_byte b then re_sub p else 0x1B # 0x5B # ps @ is @ re_sub (b # p))"
proof -
  have "esc_match (0x5B # ps @ is @ b # p) = (if final_byte b then Some (length ps + length is + 3) else None)"
    using csi_match_eq [OF assms, of p] by (simp add: esc_match_csi)
  moreover have "re_sub (0x5B # ps @ is @ b # p) = 0x5B # ps @ is @ re_sub (b # p)"
    using re_sub_plain [of "0x5B # ps @ is" "b # p"] csi_no_esc(1) [of ps] csi_no_esc(2) [of "is"] assms(1,2) by simp
  ultimately show ?thesis by (simp add: numeral_3_eq_3 del: re_sub.simps(2)) (simp add: re_sub.simps(2) [of "0x1B"])
qed

lemma re_sub_csi_end:
  assumes "list_all param_byte ps" "list_all inter_byte is"
  shows "re_sub (0x1B # 0x5B # ps @ is) = 0x1B # 0x5B # ps @ is"
  using csi_match_end [OF assms] re_sub_plain [of "0x5B # ps @ is" "[]"] csi_no_esc(1) [of ps] csi_no_esc(2) [of "is"] assms
  by (simp add: esc_match_csi)

lemma re_sub_osc:
  assumes "osc_first f" "list_all osc_char cs"
  shows "re_sub (0x1B # f # cs @ 0x07 # p) = re_sub p" "re_sub (0x1B # f # cs @ 0x1B # 0x5C # p) = re_sub p"
    "b \<noteq> 0x5C \<Longrightarrow> re_sub (0x1B # f # cs @ 0x1B # b # p) = cs @ re_sub (0x1B # b # p)"
    "re_sub (0x1B # f # cs) = cs" "re_sub (0x1B # f # cs @ [0x1B]) = cs @ [0x1B]"
proof -
  note m = osc_match_Cons(1,2) [OF assms] osc_match_Cons(3-5) [OF assms(2)]
  show "re_sub (0x1B # f # cs @ 0x07 # p) = re_sub p" "re_sub (0x1B # f # cs @ 0x1B # 0x5C # p) = re_sub p"
    using assms(1) by (simp_all add: esc_match_def m eval_nat_numeral)
  have "re_sub (cs @ q) = cs @ re_sub q" for q using re_sub_plain [OF osc_no_esc [OF assms(2)]] .
  from this [of "0x1B # b # p"] this [of "[]"] this [of "[0x1B]"]
  show "b \<noteq> 0x5C \<Longrightarrow> re_sub (0x1B # f # cs @ 0x1B # b # p) = cs @ re_sub (0x1B # b # p)"
    "re_sub (0x1B # f # cs) = cs" "re_sub (0x1B # f # cs @ [0x1B]) = cs @ [0x1B]"
    using esc_match_osc_fail [OF assms(1)] m by (simp_all add: esc_match_def osc_match_def fe_match_def csi_match_def)
qed

text \<open>One round of the loop keeps the text that is still to come out, whatever follows the chunk.\<close>

definition advances :: "ansi_stripper \<Rightarrow> bytes \<Rightarrow> bytes \<Rightarrow> ansi_stripper \<Rightarrow> bytes \<Rightarrow> bytes \<Rightarrow> bool" where
  "advances a p out a' p' out' \<longleftrightarrow>
     as_feed a p out = as_feed a' p' out' \<and> 3 * length p' + mode_rank (as_state a') < 3 * length p + mode_rank (as_state a) \<and> holds a' \<and>
     (\<forall>rest. out' @ re_sub (as_pending a' @ p' @ rest) = out @ re_sub (as_pending a @ p @ rest))"

lemma step_normal:
  assumes "holds a" "as_state a = Normal"
  shows "\<exists>a' p' out'. advances a (b # p) out a' p' out'"
proof -
  define run where "run = takeWhile (\<lambda>c. c \<noteq> 0x1B) (b # p)"
  define r where "r = dropWhile (\<lambda>c. c \<noteq> 0x1B) (b # p)"
  have bp: "b # p = run @ r" "list_all (\<lambda>c. c \<noteq> 0x1B) run" by (auto simp: run_def r_def list_all_iff dest: set_takeWhileD)
  have len: "length r \<le> Suc (length p)" using bp(1) by (metis length_Cons length_append le_add2)
  have feed: "as_feed a (b # p) out =
      (if r = [] then (a, out @ run) else as_feed (a\<lparr>as_pending := [0x1B], as_state := After_esc\<rparr>) (tl r) (out @ run))"
    using assms(2) by (simp add: as_feed.simps(2) run_def r_def Let_def)
  show ?thesis
  proof (cases r)
    case Nil
    moreover have "length run = Suc (length p)" using bp(1) Nil by (metis append_Nil2 length_Cons)
    ultimately have "advances a (b # p) out a [] (out @ run)"
      using assms feed re_sub_plain [OF bp(2)] bp(1) by (simp add: advances_def holds_def)
    then show ?thesis by blast
  next
    case (Cons c q)
    then have c: "c = 0x1B" using hd_dropWhile [of "\<lambda>c. c \<noteq> 0x1B" "b # p"] by (auto simp: r_def)
    have "advances a (b # p) out (a\<lparr>as_pending := [0x1B], as_state := After_esc\<rparr>) q (out @ run)"
      unfolding advances_def using assms feed re_sub_plain [OF bp(2)] bp(1) Cons c len by (simp add: holds_def)
    then show ?thesis by blast
  qed
qed

lemma step_after_esc:
  assumes "holds a" "as_state a = After_esc"
  shows "\<exists>a' p' out'. advances a (b # p) out a' p' out'"
proof -
  have h: "as_pending a = [0x1B]" using assms by (simp add: holds_def)
  consider "osc_first b" | "b = 0x5B" | "\<not> osc_first b" "b \<noteq> 0x5B" "is_fe_byte b" | "\<not> osc_first b" "b \<noteq> 0x5B" "\<not> is_fe_byte b" by blast
  then show ?thesis
  proof cases
    case 1
    then have "advances a (b # p) out (a\<lparr>as_pending := [0x1B, b], as_first := b, as_state := Osclike\<rparr>) p out"
      using assms(2) h by (auto simp: advances_def holds_def as_feed.simps(2))
    then show ?thesis by blast
  next
    case 2
    then have "advances a (b # p) out (a\<lparr>as_pending := [0x1B, b], as_state := Csi_params\<rparr>) p out"
      using assms(2) h by (simp add: advances_def holds_def as_feed.simps(2) is_dcs_like_def)
    then show ?thesis by blast
  next
    case 3
    then have "esc_match (b # q) = Some 2" for q by (simp add: esc_match_def osc_match_def fe_match_def)
    then have "advances a (b # p) out (a\<lparr>as_pending := [], as_state := Normal\<rparr>) p out"
      using 3 assms(2) h by (simp add: advances_def holds_def as_feed.simps(2))
    then show ?thesis by blast
  next
    case 4
    then have "esc_match (b # q) = None" for q by (simp add: esc_match_def osc_match_def fe_match_def csi_match_def)
    then have "advances a (b # p) out (a\<lparr>as_pending := [], as_state := Normal\<rparr>) (b # p) (out @ [0x1B])"
      using 4 assms(2) h by (simp add: advances_def holds_def as_feed.simps(2) [of a] as_emit_def)
    then show ?thesis by blast
  qed
qed

lemma step_osclike:
  assumes "holds a" "as_state a = Osclike"
  shows "\<exists>a' p' out'. advances a (b # p) out a' p' out'"
proof -
  obtain f cs where h: "as_pending a = 0x1B # f # cs" "osc_first f" "list_all osc_char cs" using assms by (auto simp: holds_def)
  consider "b = 0x07" | "b = 0x1B" | "osc_char b" by blast
  then show ?thesis
  proof cases
    case 1
    then have "advances a (b # p) out (a\<lparr>as_pending := [], as_state := Normal\<rparr>) p out"
      using assms(2) h re_sub_osc(1) [OF h(2,3)] by (simp add: advances_def holds_def as_feed.simps(2) del: re_sub.simps)
    then show ?thesis by blast
  next
    case 2
    then have "advances a (b # p) out (a\<lparr>as_pending := as_pending a @ [b], as_state := Osclike_esc\<rparr>) p out"
      using assms(2) h by (auto simp: advances_def holds_def as_feed.simps(2))
    then show ?thesis by blast
  next
    case 3
    define run where "run = takeWhile osc_char (b # p)"
    define r where "r = drop (length run) (b # p)"
    have bp: "b # p = run @ r" unfolding run_def r_def dropWhile_eq_drop [symmetric] takeWhile_dropWhile_id ..
    have feed: "as_feed a (b # p) out = as_feed (a\<lparr>as_pending := as_pending a @ run\<rparr>) r out"
      using assms(2) 3 by (simp add: as_feed.simps(2) run_def r_def Let_def)
    have "list_all osc_char run" by (auto simp: run_def list_all_iff dest: set_takeWhileD)
    then have "holds (a\<lparr>as_pending := as_pending a @ run\<rparr>)" using assms(2) h by (simp add: holds_def)
    moreover have "length r < length (b # p)" using 3 by (simp add: r_def run_def)
    ultimately have "advances a (b # p) out (a\<lparr>as_pending := as_pending a @ run\<rparr>) r out"
      unfolding advances_def using assms(2) feed by (simp add: bp)
    then show ?thesis by blast
  qed
qed

lemma step_osclike_esc:
  assumes "holds a" "as_state a = Osclike_esc"
  shows "\<exists>a' p' out'. advances a (b # p) out a' p' out'"
proof -
  obtain f cs where h: "as_pending a = 0x1B # f # cs @ [0x1B]" "osc_first f" "list_all osc_char cs" using assms by (auto simp: holds_def)
  show ?thesis
  proof (cases "b = 0x5C")
    case True
    then have "advances a (b # p) out (a\<lparr>as_pending := [], as_state := Normal\<rparr>) p out"
      using assms(2) h re_sub_osc(2) [OF h(2,3)] by (simp add: advances_def holds_def as_feed.simps(2) del: re_sub.simps)
    then show ?thesis by blast
  next
    case False
    then have "advances a (b # p) out (a\<lparr>as_pending := [0x1B], as_state := After_esc\<rparr>) (b # p) (out @ cs)"
      using assms(2) h re_sub_osc(3) [OF h(2,3)]
      by (simp add: advances_def holds_def as_feed.simps(2) [of a] fail_escape_def Let_def del: re_sub.simps)
    then show ?thesis by blast
  qed
qed

lemma holds_inter:
  "list_all param_byte ps \<Longrightarrow> list_all inter_byte is \<Longrightarrow> is \<noteq> [] \<Longrightarrow> as_state a = Csi_inter \<Longrightarrow> as_pending a = 0x1B # 0x5B # ps @ is \<Longrightarrow> holds a"
  by (auto simp: holds_def)

lemma step_csi_params:
  assumes "holds a" "as_state a = Csi_params"
  shows "\<exists>a' p' out'. advances a (b # p) out a' p' out'"
proof -
  obtain ps where h: "as_pending a = 0x1B # 0x5B # ps" "list_all param_byte ps" using assms by (auto simp: holds_def)
  consider "param_byte b" | "\<not> param_byte b" "inter_byte b" | "\<not> param_byte b" "\<not> inter_byte b" by blast
  then show ?thesis
  proof cases
    case 1
    then have "advances a (b # p) out (a\<lparr>as_pending := as_pending a @ [b]\<rparr>) p out"
      using assms(2) h by (simp add: advances_def holds_def as_feed.simps(2))
    then show ?thesis by blast
  next
    case 2
    then have "advances a (b # p) out (a\<lparr>as_pending := as_pending a @ [b], as_state := Csi_inter\<rparr>) p out"
      using assms(2) h holds_inter [of ps "[b]"] by (auto simp: advances_def as_feed.simps(2))
    then show ?thesis by blast
  next
    case 3
    have r: "re_sub (0x1B # 0x5B # ps @ b # q) = (if final_byte b then re_sub q else 0x1B # 0x5B # ps @ re_sub (b # q))" for q
      using re_sub_csi [OF h(2), of "[]" b q] 3 by simp
    have "advances a (b # p) out (a\<lparr>as_pending := [], as_state := Normal\<rparr>)
        (if final_byte b then p else b # p) (if final_byte b then out else out @ as_pending a)"
      using 3 assms(2) h r by (auto simp: advances_def holds_def as_feed.simps(2) [of a] as_emit_def simp del: re_sub.simps)
    then show ?thesis by blast
  qed
qed

lemma step_csi_inter:
  assumes "holds a" "as_state a = Csi_inter"
  shows "\<exists>a' p' out'. advances a (b # p) out a' p' out'"
proof -
  obtain ps "is" where h: "as_pending a = 0x1B # 0x5B # ps @ is" "is \<noteq> []" "list_all param_byte ps" "list_all inter_byte is"
    using assms by (auto simp: holds_def)
  show ?thesis
  proof (cases "inter_byte b")
    case True
    then have "advances a (b # p) out (a\<lparr>as_pending := as_pending a @ [b]\<rparr>) p out"
      using assms(2) h holds_inter [of ps "is @ [b]" "a\<lparr>as_pending := as_pending a @ [b]\<rparr>"] by (simp add: advances_def as_feed.simps(2))
    then show ?thesis by blast
  next
    case False
    have r: "re_sub (0x1B # 0x5B # ps @ is @ b # q) = (if final_byte b then re_sub q else 0x1B # 0x5B # ps @ is @ re_sub (b # q))" for q
      using re_sub_csi [OF h(3,4), of b q] False h(2) by simp
    have "advances a (b # p) out (a\<lparr>as_pending := [], as_state := Normal\<rparr>)
        (if final_byte b then p else b # p) (if final_byte b then out else out @ as_pending a)"
      using False assms(2) h r by (auto simp: advances_def holds_def as_feed.simps(2) [of a] as_emit_def simp del: re_sub.simps)
    then show ?thesis by blast
  qed
qed

lemma feed_advances: "holds a \<Longrightarrow> \<exists>a' p' out'. advances a (b # p) out a' p' out'"
  using step_normal step_after_esc step_osclike step_osclike_esc step_csi_params step_csi_inter by (cases "as_state a") blast+

lemma feed_ok:
  "holds a \<Longrightarrow> \<exists>a' out'. as_feed a p out = (a', out') \<and> holds a' \<and>
     (\<forall>rest. out' @ re_sub (as_pending a' @ rest) = out @ re_sub (as_pending a @ p @ rest))"
proof (induction "3 * length p + mode_rank (as_state a)" arbitrary: a p out rule: less_induct)
  case less
  show ?case
  proof (cases p)
    case (Cons b q)
    obtain a' p' out' where step: "advances a p out a' p' out'" using feed_advances [OF less.prems] Cons by blast
    then show ?thesis using less.hyps [of p' a' out'] by (simp add: advances_def)
  qed (use less.prems in simp)
qed

lemma flush_ok: "holds a \<Longrightarrow> snd (as_flush a out) = out @ re_sub (as_pending a)"
proof (cases "as_state a")
  case After_esc
  then show "holds a \<Longrightarrow> ?thesis" by (simp add: holds_def as_flush.simps as_emit_def esc_match_def osc_match_def fe_match_def csi_match_def)
next
  case Osclike
  then show "holds a \<Longrightarrow> ?thesis" by (auto simp: holds_def as_flush.simps fail_escape_def re_sub_osc simp del: re_sub.simps)
next
  case Osclike_esc
  then show "holds a \<Longrightarrow> ?thesis" by (auto simp: holds_def as_flush.simps fail_escape_def as_emit_def re_sub_osc simp del: re_sub.simps)
next
  case Csi_params
  then show "holds a \<Longrightarrow> ?thesis" using re_sub_csi_end [of _ "[]"] by (auto simp: holds_def as_flush.simps as_emit_def simp del: re_sub.simps)
next
  case Csi_inter
  then show "holds a \<Longrightarrow> ?thesis" by (auto simp: holds_def as_flush.simps as_emit_def re_sub_csi_end simp del: re_sub.simps)
qed (simp add: holds_def as_flush.simps)

section \<open>Properties\<close>

fun as_feed_all :: "ansi_stripper \<Rightarrow> bytes list \<Rightarrow> bytes \<Rightarrow> ansi_stripper \<times> bytes" where
  "as_feed_all a [] out = (a, out)"
| "as_feed_all a (c # cs) out = (let (a, out) = as_feed a c out in as_feed_all a cs out)"

lemma feed_all_ok:
  "holds a \<Longrightarrow> \<exists>a' out'. as_feed_all a cs out = (a', out') \<and> holds a' \<and> out' @ re_sub (as_pending a') = out @ re_sub (as_pending a @ concat cs)"
proof (induction cs arbitrary: a out)
  case (Cons c cs)
  obtain a1 out1 where 1: "as_feed a c out = (a1, out1)" "holds a1" "\<forall>rest. out1 @ re_sub (as_pending a1 @ rest) = out @ re_sub (as_pending a @ c @ rest)"
    using feed_ok [OF Cons.prems] by blast
  then show ?case using Cons.IH [OF 1(2), of out1] by auto
qed simp

text \<open>
  Property C11.
  The streaming stripper computes the substitution of the regular expression in its header: whatever the text and
  however it is cut into chunks, the bytes that come out of the feeds and the final flush are those of the text with
  every match removed from left to right, also where an unterminated string falls back to the two-byte escape and
  where a match is broken up between chunks. The one-shot function gives the same for the whole text.
\<close>

theorem ansi_stripper_correct:
  "(let (a, out) = as_feed_all as_new cs [] in snd (as_flush a out)) = re_sub (concat cs) \<and> strip_ansi p = re_sub p"
proof -
  have new: "holds as_new" by (simp add: holds_def as_new_def)
  have "(let (a, out) = as_feed_all as_new ds [] in snd (as_flush a out)) = re_sub (concat ds)" for ds
    using feed_all_ok [OF new, of ds "[]"] flush_ok by (auto simp: as_new_def)
  from this [of cs] this [of "[p]"] show ?thesis by (auto simp: strip_ansi_def Let_def case_prod_beta)
qed

end
