(* ===== verification/Edit_Cost.thy ===== *)
theory Edit_Cost
  imports "HOL-Library.Multiset"
begin

text \<open>
  The reference for the string distance of the code: the least number of edits, the recurrence for it over prefixes,
  and two lower bounds, by the rows of its table and by the numbers of characters.
\<close>

section \<open>The distance as the cost of edits\<close>

text \<open>\<open>edits n s t\<close>: the string \<open>s\<close> becomes \<open>t\<close> by \<open>n\<close> insertions, deletions, substitutions and transpositions of
  neighbours, none of which touches a character that an earlier one has.\<close>

inductive edits :: "nat \<Rightarrow> 'a list \<Rightarrow> 'a list \<Rightarrow> bool" where
  none: "edits 0 [] []"
| keep: "edits n s t \<Longrightarrow> edits n (s @ [c]) (t @ [c])"
| subst: "edits n s t \<Longrightarrow> edits (Suc n) (s @ [c]) (t @ [d])"
| ins: "edits n s t \<Longrightarrow> edits (Suc n) s (t @ [d])"
| del: "edits n s t \<Longrightarrow> edits (Suc n) (s @ [c]) t"
| swap: "edits n s t \<Longrightarrow> edits (Suc n) (s @ [c, d]) (t @ [d, c])"

lemma edits_sym: "edits n s t \<Longrightarrow> edits n t s"
  by (induction rule: edits.induct) (auto intro: edits.intros)

lemma edits_insert_all: "edits (length t) [] t"
  by (induction t rule: rev_induct) (auto intro: edits.intros)

lemma edits_length: "edits n s t \<Longrightarrow> length t \<le> n + length s"
  by (induction rule: edits.induct) auto

lemma edits_length': "edits n s t \<Longrightarrow> length s \<le> n + length t"
  using edits_length edits_sym by blast

text \<open>The least cost of turning the first \<open>i\<close> characters of \<open>s\<close> into the first \<open>j\<close> of \<open>t\<close>.\<close>

fun osa :: "'a list \<Rightarrow> 'a list \<Rightarrow> nat \<Rightarrow> nat \<Rightarrow> nat" where
  "osa s t 0 j = j"
| "osa s t (Suc i) 0 = Suc i"
| "osa s t (Suc i) (Suc j) =
     (let d = min (min (osa s t (Suc i) j + 1) (osa s t i (Suc j) + 1)) (osa s t i j + (if s ! i = t ! j then 0 else 1)) in
      if 0 < i \<and> 0 < j \<and> s ! i = t ! (j - 1) \<and> s ! (i - 1) = t ! j then min d (osa s t (i - 1) (j - 1) + 1) else d)"


lemma osa_0_right [simp]: "osa s t i 0 = i"
  by (cases i) simp_all

declare osa.simps(3) [simp del]

lemma osa_max: "osa s t i j \<le> max i j"
proof (induction s t i j rule: osa.induct)
  case (3 s t i j)
  then show ?case by (auto simp: osa.simps(3) Let_def min_def)
qed simp_all

lemma osa_append: "i \<le> length u \<Longrightarrow> j \<le> length v \<Longrightarrow> osa (u @ x) (v @ y) i j = osa u v i j"
proof (induction u v i j rule: osa.induct)
  case (3 s t i j)
  then show ?case by (auto simp: osa.simps(3) nth_append Let_def)
qed simp_all

lemma min_cases:
  fixes a b c e :: nat
  shows "(let d = min (min a b) c in if P then min d e else d) = a \<or> (let d = min (min a b) c in if P then min d e else d) = b \<or>
    (let d = min (min a b) c in if P then min d e else d) = c \<or> P \<and> (let d = min (min a b) c in if P then min d e else d) = e"
  by (simp add: min_def Let_def)

lemma osa_cases:
  obtains (ins) "osa s t (Suc i) (Suc j) = Suc (osa s t (Suc i) j)"
  | (del) "osa s t (Suc i) (Suc j) = Suc (osa s t i (Suc j))"
  | (keep) "osa s t (Suc i) (Suc j) = osa s t i j" "s ! i = t ! j"
  | (subst) "osa s t (Suc i) (Suc j) = Suc (osa s t i j)"
  | (swap) "osa s t (Suc i) (Suc j) = Suc (osa s t (i - 1) (j - 1))" "0 < i" "0 < j" "s ! i = t ! (j - 1)" "s ! (i - 1) = t ! j"
  using min_cases [of "osa s t (Suc i) j + 1" "osa s t i (Suc j) + 1" "osa s t i j + (if s ! i = t ! j then 0 else 1)"
      "0 < i \<and> 0 < j \<and> s ! i = t ! (j - 1) \<and> s ! (i - 1) = t ! j" "osa s t (i - 1) (j - 1) + 1"]
  unfolding osa.simps(3) [symmetric] by (auto split: if_splits)

lemma osa_le_ins: "osa s t i (Suc j) \<le> osa s t i j + 1"
  by (cases i) (auto simp: osa.simps(3) Let_def)

lemma osa_le_del: "osa s t (Suc i) j \<le> osa s t i j + 1"
  by (cases j) (auto simp: osa.simps(3) Let_def)

lemma osa_le_subst: "osa s t (Suc i) (Suc j) \<le> osa s t i j + (if s ! i = t ! j then 0 else 1)"
  by (auto simp: osa.simps(3) Let_def)

lemma osa_le_swap:
  "s ! Suc i = t ! j \<Longrightarrow> s ! i = t ! Suc j \<Longrightarrow> osa s t (Suc (Suc i)) (Suc (Suc j)) \<le> osa s t i j + 1"
  by (simp add: osa.simps(3) [of _ _ "Suc i" "Suc j"] Let_def)

lemma osa_least: "edits n u v \<Longrightarrow> osa u v (length u) (length v) \<le> n"
proof (induction rule: edits.induct)
  case (keep n s t c)
  then show ?case
    using osa_le_subst [of "s @ [c]" "t @ [c]" "length s" "length t"] osa_append [of "length s" s "length t" t "[c]" "[c]"] by simp
next
  case (subst n s t c d)
  then show ?case
    using osa_le_subst [of "s @ [c]" "t @ [d]" "length s" "length t"] osa_append [of "length s" s "length t" t "[c]" "[d]"]
    by (simp split: if_splits)
next
  case (ins n s t d)
  then show ?case
    using osa_le_ins [of "s" "t @ [d]" "length s" "length t"] osa_append [of "length s" s "length t" t "[]" "[d]"] by simp
next
  case (del n s t c)
  then show ?case
    using osa_le_del [of "s @ [c]" "t" "length s" "length t"] osa_append [of "length s" s "length t" t "[c]" "[]"] by simp
next
  case (swap n s t c d)
  then show ?case
    using osa_le_swap [of "s @ [c, d]" "length s" "t @ [d, c]" "length t"] osa_append [of "length s" s "length t" t "[c, d]" "[d, c]"]
    by (simp add: nth_append)
qed simp

lemma osa_edits: "i \<le> length s \<Longrightarrow> j \<le> length t \<Longrightarrow> edits (osa s t i j) (take i s) (take j t)"
proof (induction s t i j rule: osa.induct)
  case (1 s t j)
  then show ?case using edits_insert_all [of "take j t"] by simp
next
  case (2 s t i)
  then show ?case using edits_sym [OF edits_insert_all [of "take (Suc i) s"]] by (simp add: min_absorb2)
next
  case (3 s t i j)
  have s: "take (Suc i) s = take i s @ [s ! i]" and t: "take (Suc j) t = take j t @ [t ! j]"
    using 3(5,6) by (simp_all add: take_Suc_conv_app_nth)
  let ?d = "osa s t (Suc i) (Suc j)"
  show ?case
  proof (cases rule: osa_cases [of s t i j])
    case ins
    then show ?thesis using 3(1) 3(5,6) by (simp only: t) (auto intro: edits.ins)
  next
    case del
    then show ?thesis using 3(2) 3(5,6) by (simp only: s) (auto intro: edits.del)
  next
    case keep
    then show ?thesis using "3.IH"(3) "3.prems" s t by (auto intro: edits.keep)
  next
    case subst
    then show ?thesis using 3(3) 3(5,6) s t by (auto intro: edits.subst)
  next
    case swap
    then obtain i' j' where ij: "i = Suc i'" "j = Suc j'" by (metis gr0_conv_Suc)
    then have "take (Suc i) s = take i' s @ [t ! j, t ! j']" "take (Suc j) t = take j' t @ [t ! j', t ! j]"
      using swap 3(5,6) s t by (simp_all add: take_Suc_conv_app_nth)
    then show ?thesis using swap 3(4) 3(5,6) ij by (auto intro: edits.swap)
  qed
qed

text \<open>Every row bounds all later cells from below, also across a transposition, which skips a row.\<close>

lemma osa_row_bound: "i \<le> i' \<Longrightarrow> \<exists>j' \<le> j. osa s t i j' \<le> osa s t i' j"
proof (induction s t i' j rule: osa.induct)
  case (3 s t i' j)
  show ?case
  proof (cases "i = Suc i'")
    case False
    then have i: "i \<le> i'" using 3(5) by simp
    let ?d = "osa s t (Suc i') (Suc j)"
    show ?thesis
    proof (cases rule: osa_cases [of s t i' j])
      case ins
      then obtain j' where "j' \<le> j" "osa s t i j' \<le> osa s t (Suc i') j" using "3.IH"(1) "3.prems" by blast
      then show ?thesis using ins by (intro exI [of _ j']) simp
    next
      case del
      then obtain j' where "j' \<le> Suc j" "osa s t i j' \<le> osa s t i' (Suc j)" using "3.IH"(2) i by blast
      then show ?thesis using del by (intro exI [of _ j']) simp
    next
      case keep
      then obtain j' where "j' \<le> j" "osa s t i j' \<le> osa s t i' j" using "3.IH"(3) i by blast
      then show ?thesis using keep by (intro exI [of _ j']) simp
    next
      case subst
      then obtain j' where "j' \<le> j" "osa s t i j' \<le> osa s t i' j" using "3.IH"(3) i by blast
      then show ?thesis using subst by (intro exI [of _ j']) simp
    next
      case swap
      show ?thesis
      proof (cases "i = i'")
        case True
        then have "osa s t i (j - 1) \<le> ?d" using swap osa_le_del [of s t "i' - 1" "j - 1"] by simp
        then show ?thesis by (intro exI [of _ "j - 1"]) simp
      next
        case neq: False
        then have "i \<le> i' - 1" using i by simp
        then obtain j' where "j' \<le> j - 1" "osa s t i j' \<le> osa s t (i' - 1) (j - 1)" using "3.IH"(4) swap i by auto
        then show ?thesis using swap(1) by (intro exI [of _ j']) simp
      qed
    qed
  qed auto
qed (auto intro: exI [of _ 0])


text \<open>The characters of two strings, counted with multiplicity, differ by at most two for every edit.\<close>

definition char_diff :: "'a list \<Rightarrow> 'a list \<Rightarrow> nat" where
  "char_diff s t = size (mset s - mset t) + size (mset t - mset s)"

lemma size_diff_add: "size (add_mset c A - B) \<le> Suc (size (A - B))"
proof -
  have "add_mset c A - B \<subseteq># add_mset c (A - B)" by (auto simp: subseteq_mset_def)
  then show ?thesis using size_mset_mono by fastforce
qed

lemma size_diff_sub: "size (A - add_mset c B) \<le> size (A - B)"
  by (rule size_mset_mono) (simp add: diff_union_swap2 subseteq_mset_def)

lemma char_diff_edits: "edits n s t \<Longrightarrow> char_diff s t \<le> 2 * n"
proof (induction rule: edits.induct)
  case (subst n s t c d)
  have "char_diff (s @ [c]) (t @ [d]) \<le> char_diff s t + 2"
    using size_diff_add [of c "mset s" "add_mset d (mset t)"] size_diff_sub [of "mset s" d "mset t"]
      size_diff_add [of d "mset t" "add_mset c (mset s)"] size_diff_sub [of "mset t" c "mset s"]
    by (simp add: char_diff_def)
  then show ?case using subst by simp
next
  case (ins n s t d)
  then show ?case using size_diff_sub [of "mset s" d "mset t"] size_diff_add [of d "mset t" "mset s"] by (simp add: char_diff_def)
next
  case (del n s t c)
  then show ?case using size_diff_sub [of "mset t" c "mset s"] size_diff_add [of c "mset s" "mset t"] by (simp add: char_diff_def)
next
  case (swap n s t c d)
  have "char_diff (s @ [c, d]) (t @ [d, c]) = char_diff s t" by (simp add: char_diff_def add_mset_commute)
  then show ?case using swap by simp
qed (simp_all add: char_diff_def)

end
