(* ===== verification/Distance.thy ===== *)
theory Distance
  imports Utf8 Edit_Cost "HOL-Library.AList" "HOL-Library.Signed_Division"
begin

text \<open>
  The string distances of \<^verbatim>\<open>src/runtime/search/distance.cpp\<close>: the Damerau-Levenshtein distance with restricted
  transpositions, computed row by row with an early exit, and the lower bound of it from the numbers of characters.
  The cells and counters are \<^verbatim>\<open>int32_t\<close>: every conversion and sum is cut to 32 bits by \<open>s32\<close>. (A sum
  that overflows, undefined in C++, wraps around here; the properties bound the lengths so that
  none does.) \<^verbatim>\<open>max_dist + 1\<close> is computed only where \<^verbatim>\<open>max_dist\<close> is smaller than some \<^verbatim>\<open>int32_t\<close>.
\<close>

section \<open>The code\<close>

definition s32 :: "int \<Rightarrow> int" where
  "s32 x = signed_take_bit 31 x"

record cp_seq =
  cs_ascii :: bool
  cs_cps :: "32 word list"

abbreviation cs_len :: "cp_seq \<Rightarrow> nat" where
  "cs_len s \<equiv> length (cs_cps s)"

abbreviation cs_at :: "cp_seq \<Rightarrow> nat \<Rightarrow> 32 word" where
  "cs_at s i \<equiv> cs_cps s ! i"

text \<open>The bytes of an ASCII string are its code points; any other string is decoded.\<close>

definition make_seq :: "bytes \<Rightarrow> cp_seq" where
  "make_seq sv =
     (if is_ascii sv then \<lparr>cs_ascii = True, cs_cps = map (\<lambda>b. ucast b) sv\<rparr>
      else \<lparr>cs_ascii = False, cs_cps = code_points sv\<rparr>)"

definition dl_cap :: "int \<Rightarrow> int \<Rightarrow> int" where
  "dl_cap max_dist d = (if 0 \<le> max_dist \<and> max_dist < d then max_dist + 1 else d)"

text \<open>One cell of the table: the inner loop's body, given the cell to the left.\<close>

definition dl_cell :: "32 word list \<Rightarrow> 32 word list \<Rightarrow> int list \<Rightarrow> int list \<Rightarrow> nat \<Rightarrow> nat \<Rightarrow> int \<Rightarrow> int" where
  "dl_cell s t prev_prev prev i j left =
     (let si_1 = s ! (i - 1);
          cost = (if si_1 = t ! (j - 1) then 0 else 1);
          v = s32 (left + 1);
          v = (if s32 (prev ! j + 1) < v then s32 (prev ! j + 1) else v);
          v = (if s32 (prev ! (j - 1) + cost) < v then s32 (prev ! (j - 1) + cost) else v) in
      if 1 < i \<and> 1 < j \<and> si_1 = t ! (j - 2) \<and> s ! (i - 2) = t ! (j - 1)
      then let trans = s32 (prev_prev ! (j - 2) + 1) in if trans < v then trans else v
      else v)"

definition dl_row :: "32 word list \<Rightarrow> 32 word list \<Rightarrow> int list \<Rightarrow> int list \<Rightarrow> nat \<Rightarrow> int list" where
  "dl_row s t prev_prev prev i =
     foldl (\<lambda>row j. row @ [dl_cell s t prev_prev prev i j (row ! (j - 1))]) [s32 (int i)] [1..<length t + 1]"

definition row_min :: "int list \<Rightarrow> int" where
  "row_min row = foldl (\<lambda>m x. if x < m then x else m) (hd row) (tl row)"

fun dl_rows :: "32 word list \<Rightarrow> 32 word list \<Rightarrow> int \<Rightarrow> int list \<Rightarrow> int list \<Rightarrow> nat list \<Rightarrow> int" where
  "dl_rows s t max_dist prev_prev prev [] = dl_cap max_dist (prev ! length t)"
| "dl_rows s t max_dist prev_prev prev (i # is) =
     (let cur = dl_row s t prev_prev prev i in
      if 0 \<le> max_dist \<and> max_dist < row_min cur then max_dist + 1 else dl_rows s t max_dist prev cur is)"

definition dl_dp :: "32 word list \<Rightarrow> 32 word list \<Rightarrow> int \<Rightarrow> int" where
  "dl_dp s t max_dist =
     (let m = length s; n = length t in
      if n = 0 then dl_cap max_dist (s32 (int m))
      else if n = 1 then dl_cap max_dist (if s ! 0 = t ! 0 then 0 else 1)
      else if m = 2 \<and> n = 2 then
        dl_cap max_dist
          (if s ! 0 = t ! 0 \<and> s ! 1 = t ! 1 then 0
           else if s ! 0 = t ! 0 \<or> s ! 1 = t ! 1 then 1
           else if s ! 0 = t ! 1 \<and> s ! 1 = t ! 0 then 1 else 2)
      else dl_rows s t max_dist (map (\<lambda>j. s32 (int j)) [0..<n + 1]) (map (\<lambda>j. s32 (int j)) [0..<n + 1]) [1..<m + 1])"

definition damerau_levenshtein :: "bytes \<Rightarrow> bytes \<Rightarrow> int \<Rightarrow> int" where
  "damerau_levenshtein a b max_dist =
     (let sa = make_seq a; tb = make_seq b in
      if cs_len sa < cs_len tb then dl_dp (cs_cps tb) (cs_cps sa) max_dist else dl_dp (cs_cps sa) (cs_cps tb) max_dist)"

text \<open>The counters of \<^verbatim>\<open>freq_lower_bound\<close>: an array of 256 for ASCII strings, a map otherwise.\<close>

definition count_array :: "32 word list \<Rightarrow> int list" where
  "count_array cs = foldl (\<lambda>counts c. counts[unat c := s32 (counts ! unat c + 1)]) (replicate 256 0) cs"

definition count_map :: "32 word list \<Rightarrow> (32 word \<times> int) list" where
  "count_map cs = foldl (\<lambda>counts c. AList.update c (case map_of counts c of None \<Rightarrow> 1 | Some k \<Rightarrow> s32 (k + 1)) counts) [] cs"

definition freq_step :: "int \<Rightarrow> int \<Rightarrow> int \<times> int \<Rightarrow> int \<times> int" where
  "freq_step pc tc acc =
     (let (total, matched) = acc; matched = s32 (matched + tc) in
      (if pc \<noteq> tc then s32 (total + (if tc < pc then s32 (pc - tc) else s32 (tc - pc))) else total, matched))"

definition freq_lower_bound :: "bytes \<Rightarrow> bytes \<Rightarrow> int" where
  "freq_lower_bound pattern term =
     (let pv = make_seq pattern; tv = make_seq term;
          (total, matched) =
            (if cs_ascii pv \<and> cs_ascii tv then
               let pcounts = count_array (cs_cps pv); tcounts = count_array (cs_cps tv) in
               foldl (\<lambda>acc c. if pcounts ! c = 0 then acc else freq_step (pcounts ! c) (tcounts ! c) acc) (0, 0) [0..<256]
             else
               let pcounts = count_map (cs_cps pv); tcounts = count_map (cs_cps tv) in
               foldl (\<lambda>acc (c, pc). freq_step pc (case map_of tcounts c of None \<Rightarrow> 0 | Some k \<Rightarrow> k) acc) (0, 0) pcounts);
          total = s32 (total + s32 (s32 (int (cs_len tv)) - matched)) in
      s32 (total + 1) sdiv 2)"


section \<open>Numbers of 32 bits\<close>

lemma s32_id: "- (2 ^ 31) \<le> x \<Longrightarrow> x < 2 ^ 31 \<Longrightarrow> s32 x = x"
  unfolding s32_def by (rule signed_take_bit_int_eq_self)

lemma s32_nat: "n < 2 ^ 31 \<Longrightarrow> s32 (int n) = int n"
  by (rule s32_id) simp_all

lemma s32_sums [simp]: "s32 (s32 a + b) = s32 (a + b)" "s32 (a + s32 b) = s32 (a + b)" "s32 (s32 a - b) = s32 (a - b)" "s32 (a - s32 b) = s32 (a - b)"
proof -
  have i: "signed_take_bit 31 (signed_take_bit 31 x) = signed_take_bit 31 x" for x :: int by simp
  show "s32 (s32 a + b) = s32 (a + b)" "s32 (a + s32 b) = s32 (a + b)" unfolding s32_def by (metis i signed_take_bit_add)+
  show "s32 (s32 a - b) = s32 (a - b)" "s32 (a - s32 b) = s32 (a - b)" unfolding s32_def by (metis i signed_take_bit_diff)+
qed

section \<open>The table row by row\<close>

definition osa_row :: "32 word list \<Rightarrow> 32 word list \<Rightarrow> nat \<Rightarrow> int list" where
  "osa_row s t i = map (\<lambda>j. int (osa s t i j)) [0..<length t + 1]"

lemma osa_row_nth: "j \<le> length t \<Longrightarrow> osa_row s t i ! j = int (osa s t i j)"
  by (simp add: osa_row_def nth_append del: upt_Suc)

lemma if_less_min: "(if x < y then x else y) = min y x" for x y :: int
  by simp

lemma s32_osa:
  assumes "i < 2 ^ 31 - 1" "j < 2 ^ 31 - 1"
  shows "s32 (int (osa s t i j)) = int (osa s t i j)" "s32 (int (osa s t i j) + 1) = int (osa s t i j) + 1"
proof -
  have "osa s t i j < 2 ^ 31 - 1" using osa_max [of s t i j] assms by (simp add: max_def split: if_splits)
  then show "s32 (int (osa s t i j)) = int (osa s t i j)" "s32 (int (osa s t i j) + 1) = int (osa s t i j) + 1"
    using s32_nat [of "osa s t i j"] s32_nat [of "osa s t i j + 1"] by (simp_all add: add.commute)
qed

lemma dl_cell_osa:
  assumes "j < length t" "0 < i \<Longrightarrow> pp = osa_row s t (i - 1)" and small: "Suc i < 2 ^ 31 - 1" "length t < 2 ^ 31 - 1"
  shows "dl_cell s t pp (osa_row s t i) (Suc i) (Suc j) (int (osa s t (Suc i) j)) = int (osa s t (Suc i) (Suc j))"
proof -
  have pp: "pp ! (j - 1) = int (osa s t (i - 1) (j - 1))" if "0 < i" using that assms by (simp add: osa_row_nth)
  have b: "i < 2 ^ 31 - 1" "i - 1 < 2 ^ 31 - 1" "j < 2 ^ 31 - 1" "j - 1 < 2 ^ 31 - 1" "Suc j < 2 ^ 31 - 1" using assms(1) small by simp_all
  have "s32 (int (osa s t (Suc i) j) + 1) = int (osa s t (Suc i) j) + 1" "s32 (int (osa s t i (Suc j)) + 1) = int (osa s t i (Suc j)) + 1"
    "s32 (int (osa s t i j) + 1) = int (osa s t i j) + 1" "s32 (int (osa s t i j)) = int (osa s t i j)"
    "s32 (int (osa s t (i - 1) (j - 1)) + 1) = int (osa s t (i - 1) (j - 1)) + 1"
    by (rule s32_osa [OF small(1) b(3)] s32_osa [OF b(1,5)] s32_osa [OF b(1,3)] s32_osa [OF b(2,4)])+
  with pp show ?thesis
    using assms(1) by (simp add: dl_cell_def osa.simps(3) osa_row_nth Let_def if_less_min of_nat_min if_distrib [of int] add.commute min_add_distrib_right cong: if_cong)
qed

lemma dl_row_osa:
  assumes "0 < i \<Longrightarrow> pp = osa_row s t (i - 1)" "Suc i < 2 ^ 31 - 1" "length t < 2 ^ 31 - 1"
  shows "dl_row s t pp (osa_row s t i) (Suc i) = osa_row s t (Suc i)"
proof -
  have "foldl (\<lambda>row j. row @ [dl_cell s t pp (osa_row s t i) (Suc i) j (row ! (j - 1))]) [s32 (int (Suc i))] [1..<k + 1] =
      map (\<lambda>j. int (osa s t (Suc i) j)) [0..<k + 1]" if "k \<le> length t" for k
    using that
  proof (induction k)
    case (Suc k)
    then show ?case using dl_cell_osa [OF _ assms, of k] by (simp add: nth_append)
  qed (use s32_nat [of "Suc i"] assms(2) in simp)
  then show ?thesis by (simp add: dl_row_def osa_row_def)
qed

lemma row_min_le: "x \<in> set row \<Longrightarrow> row_min row \<le> x"
proof -
  have "foldl (\<lambda>m x. if x < m then x else m) m xs \<le> m \<and> (\<forall>x \<in> set xs. foldl (\<lambda>m x. if x < m then x else m) m xs \<le> x)"
    for m :: int and xs
    by (induction xs arbitrary: m) (auto, smt+)
  then show "x \<in> set row \<Longrightarrow> row_min row \<le> x" by (cases row) (auto simp: row_min_def)
qed

lemma row_min_osa: "i \<le> i' \<Longrightarrow> row_min (osa_row s t i) \<le> int (osa s t i' (length t))"
proof -
  assume "i \<le> i'"
  then obtain j where j: "j \<le> length t" "osa s t i j \<le> osa s t i' (length t)" using osa_row_bound by blast
  then have "int (osa s t i j) \<in> set (osa_row s t i)" by (auto simp: osa_row_def simp del: upt_Suc)
  then show ?thesis using row_min_le j(2) by fastforce
qed

lemma dl_rows_osa:
  assumes "0 < i \<Longrightarrow> pp = osa_row s t (i - 1)" "i \<le> length s" "length s < 2 ^ 31 - 1" "length t < 2 ^ 31 - 1"
  shows "dl_rows s t max_dist pp (osa_row s t i) [Suc i..<length s + 1] = dl_cap max_dist (int (osa s t (length s) (length t)))"
  using assms
proof (induction "length s - i" arbitrary: i pp)
  case 0
  then show ?case by (simp add: osa_row_nth)
next
  case (Suc k)
  then have u: "[Suc i..<Suc (length s)] = Suc i # [Suc (Suc i)..<Suc (length s)]" by (simp add: upt_conv_Cons del: upt_Suc)
  have "row_min (osa_row s t (Suc i)) \<le> int (osa s t (length s) (length t))" using Suc by (intro row_min_osa) simp
  moreover have "Suc i < 2 ^ 31 - 1" using Suc.prems(3) Suc(2) by simp
  ultimately show ?case using Suc(1) [of "Suc i" "osa_row s t i"] Suc.prems Suc(2) dl_row_osa [OF Suc.prems(1) _ Suc.prems(4)]
    by (auto simp: u dl_cap_def Let_def simp del: upt_Suc)
qed

section \<open>The counters\<close>

lemma count_absent: "x \<notin> set cs \<Longrightarrow> count (mset cs) x = 0"
  by (simp add: count_eq_zero_iff)

lemma count_bound: "length cs < 2 ^ 31 \<Longrightarrow> count (mset cs) c < 2 ^ 31"
  using count_le_length [of cs c] by (simp add: count_mset)

lemma s32_count: "length cs < 2 ^ 31 \<Longrightarrow> s32 (int (count (mset cs) c)) = int (count (mset cs) c)"
  by (intro s32_nat count_bound)

lemma count_map_correct:
  "length cs < 2 ^ 31 \<Longrightarrow> distinct (map fst (count_map cs)) \<and> fst ` set (count_map cs) = set cs \<and>
   map_of (count_map cs) c = (if c \<in> set cs then Some (int (count (mset cs) c)) else None)"
proof (induction cs arbitrary: c rule: rev_induct)
  case (snoc x cs)
  have "count_map (cs @ [x]) = AList.update x (int (count (mset (cs @ [x])) x)) (count_map cs)"
  proof -
    have "count_map (cs @ [x]) = AList.update x (case map_of (count_map cs) x of None \<Rightarrow> 1 | Some k \<Rightarrow> s32 (k + 1)) (count_map cs)"
      by (simp add: count_map_def)
    then show ?thesis
      using snoc.IH [of x] snoc.prems s32_count [OF snoc.prems, of x] by (cases "x \<in> set cs") (simp_all add: count_absent add.commute)
  qed
  then show ?case using snoc.IH snoc.prems by (auto simp: update_conv' distinct_update dom_update)
qed (simp add: count_map_def)

lemma count_array_correct:
  assumes "\<forall>c \<in> set cs. unat c < 256" "length cs < 2 ^ 31"
  shows "length (count_array cs) = 256 \<and> (\<forall>i < 256. count_array cs ! i = int (count (mset cs) (word_of_nat i)))"
  using assms
proof (induction cs rule: rev_induct)
  case (snoc x cs)
  have "count_array (cs @ [x]) = (count_array cs)[unat x := s32 (count_array cs ! unat x + 1)]" by (simp add: count_array_def)
  moreover have "s32 (int (count (mset cs) x) + 1) = int (count (mset cs) x) + 1" using s32_count [OF snoc.prems(2), of x] by (simp add: add.commute)
  moreover have "x = word_of_nat i \<longleftrightarrow> unat x = i" if "i < 256" for i
    using that unat_cp [of i] by auto
  ultimately show ?case using snoc by (simp add: nth_list_update add.commute)
qed (simp add: count_array_def)

lemma freq_fold:
  assumes "\<forall>x\<in>set xs. 0 \<le> f x \<and> f x < 2 ^ 31 \<and> 0 \<le> g x \<and> g x < 2 ^ 31"
  shows "foldl (\<lambda>acc x. freq_step (f x) (g x) acc) (s32 T, s32 M) xs = (s32 (T + (\<Sum>x\<leftarrow>xs. \<bar>f x - g x\<bar>)), s32 (M + (\<Sum>x\<leftarrow>xs. g x)))"
  using assms
proof (induction xs arbitrary: T M)
  case (Cons x xs)
  have "freq_step (f x) (g x) (s32 T, s32 M) = (s32 (T + \<bar>f x - g x\<bar>), s32 (M + g x))"
    by (cases "f x" "g x" rule: linorder_cases) (simp_all add: freq_step_def)
  then show ?case using Cons.IH [of "T + \<bar>f x - g x\<bar>" "M + g x"] Cons.prems by (simp add: add.assoc)
qed simp

lemma freq_fold_nonzero:
  "foldl (\<lambda>acc x. if f x = 0 then acc else freq_step (f x) (g x) acc) (T, M) xs =
   foldl (\<lambda>acc x. freq_step (f x) (g x) acc) (T, M) (filter (\<lambda>x. f x \<noteq> 0) xs)"
  by (induction xs arbitrary: T M) (auto simp: freq_step_def)

lemma size_diff_sum:
  assumes "finite S" "set_mset A \<subseteq> S"
  shows "size (A - B) = (\<Sum>c\<in>S. count A c - count B c)"
proof -
  have "size (A - B) = (\<Sum>c\<in>S. count (A - B) c)"
    unfolding size_multiset_overloaded_eq using assms
    by (intro sum.mono_neutral_left) (auto simp: not_in_iff dest: in_diffD)
  then show ?thesis by simp
qed

lemma sum_union_rest: "finite A \<Longrightarrow> finite B \<Longrightarrow> sum f (A \<union> B) = sum f A + sum f (B - A)" for f :: "'a \<Rightarrow> int"
  using sum.union_disjoint [of A "B - A" f] by (simp add: Int_Diff)

lemma char_diff_sum:
  "int (char_diff p t) = (\<Sum>c\<in>set p. \<bar>int (count (mset p) c) - int (count (mset t) c)\<bar>) +
     (int (length t) - (\<Sum>c\<in>set p. int (count (mset t) c)))"
proof -
  let ?p = "\<lambda>c. int (count (mset p) c)" and ?t = "\<lambda>c. int (count (mset t) c)"
  let ?S = "set p \<union> set t"
  have "int (char_diff p t) = (\<Sum>c\<in>?S. int (count (mset p) c - count (mset t) c) + int (count (mset t) c - count (mset p) c))"
    using size_diff_sum [of ?S "mset p" "mset t"] size_diff_sum [of ?S "mset t" "mset p"]
    by (simp add: char_diff_def sum.distrib)
  also have "\<dots> = (\<Sum>c\<in>?S. \<bar>?p c - ?t c\<bar>)" by (intro sum.cong) auto
  also have "\<dots> = (\<Sum>c\<in>set p. \<bar>?p c - ?t c\<bar>) + (\<Sum>c\<in>set t - set p. \<bar>?p c - ?t c\<bar>)"
    by (rule sum_union_rest) simp_all
  also have "(\<Sum>c\<in>set t - set p. \<bar>?p c - ?t c\<bar>) = (\<Sum>c\<in>set t - set p. ?t c)"
    by (intro sum.cong) (auto simp: count_absent)
  also have "\<dots> = int (length t) - (\<Sum>c\<in>set p. ?t c)"
  proof -
    have "int (length t) = (\<Sum>c\<in>?S. ?t c)" using size_diff_sum [of ?S "mset t" "{#}"] by simp
    also have "\<dots> = (\<Sum>c\<in>set p. ?t c) + (\<Sum>c\<in>set t - set p. ?t c)"
      by (rule sum_union_rest) simp_all
    finally show ?thesis by simp
  qed
  finally show ?thesis by simp
qed

section \<open>The lower bound\<close>

lemma make_seq_cps: "cs_cps (make_seq a) = code_points a"
proof (cases "is_ascii a")
  case True
  have "code_points p = map ucast p" if "\<forall>b \<in> set p. unat b < 128" for p :: bytes
    using that
  proof (induction p)
    case (Cons b p)
    then show ?case using decode1 [of b p] by (subst code_points.simps) simp
  qed simp
  then show ?thesis using True by (simp add: make_seq_def is_ascii_iff)
qed (simp add: make_seq_def)

lemma make_seq_ascii: "cs_ascii (make_seq a) \<Longrightarrow> \<forall>c \<in> set (code_points a). unat c < 256"
proof -
  have "unat (ucast b :: 32 word) = unat b" for b :: byte
  proof -
    have "(ucast b :: 32 word) = word_of_nat (unat b)" by simp
    then show ?thesis using unat_cp [of "unat b"] unat_byte [of b] by simp
  qed
  moreover assume "cs_ascii (make_seq a)"
  then have "code_points a = map ucast a" using make_seq_cps [of a] by (simp add: make_seq_def split: if_splits)
  ultimately show ?thesis using unat_byte by auto
qed

lemma freq_array:
  assumes "\<forall>c \<in> set p. unat c < 256" "\<forall>c \<in> set t. unat c < 256" "length p < 2 ^ 31" "length t < 2 ^ 31"
  shows "foldl (\<lambda>acc c. if count_array p ! c = 0 then acc else freq_step (count_array p ! c) (count_array t ! c) acc) (0, 0) [0..<256] =
    (s32 (\<Sum>c\<in>set p. \<bar>int (count (mset p) c) - int (count (mset t) c)\<bar>), s32 (\<Sum>c\<in>set p. int (count (mset t) c)))"
proof -
  let ?I = "{i. i < 256 \<and> word_of_nat i \<in> set p}"
  have I: "set (filter (\<lambda>i. count_array p ! i \<noteq> 0) [0..<256]) = ?I"
    using count_array_correct [OF assms(1,3)] by (auto simp: count_eq_zero_iff)
  have reindex: "(\<Sum>i\<leftarrow>filter (\<lambda>i. count_array p ! i \<noteq> 0) [0..<256]. f i) = (\<Sum>c\<in>set p. h c)"
    if "\<And>i. i < 256 \<Longrightarrow> f i = h (word_of_nat i)" for f :: "nat \<Rightarrow> int" and h
  proof -
    have "(\<Sum>i\<leftarrow>filter (\<lambda>i. count_array p ! i \<noteq> 0) [0..<256]. f i) = (\<Sum>i\<in>?I. f i)"
      by (subst sum_list_distinct_conv_sum_set) (simp_all add: I del: set_filter)
    also have "\<dots> = (\<Sum>c\<in>set p. h c)"
      using assms(1) unat_cp that by (intro sum.reindex_bij_witness [of _ unat word_of_nat]) auto
    finally show ?thesis .
  qed
  note A = count_array_correct [OF assms(1,3)] count_array_correct [OF assms(2,4)]
  have "foldl (\<lambda>acc c. freq_step (count_array p ! c) (count_array t ! c) acc) (s32 0, s32 0) (filter (\<lambda>i. count_array p ! i \<noteq> 0) [0..<256]) =
      (s32 (\<Sum>c\<in>set p. \<bar>int (count (mset p) c) - int (count (mset t) c)\<bar>), s32 (\<Sum>c\<in>set p. int (count (mset t) c)))"
    using A count_bound [OF assms(3)] count_bound [OF assms(4)] by (subst freq_fold) (auto simp: reindex)
  then show ?thesis unfolding freq_fold_nonzero by (simp add: s32_def)
qed

lemma freq_map:
  assumes "length p < 2 ^ 31" "length t < 2 ^ 31"
  shows "foldl (\<lambda>acc (c, pc). freq_step pc (case map_of (count_map t) c of None \<Rightarrow> 0 | Some k \<Rightarrow> k) acc) (0, 0) (count_map p) =
   (s32 (\<Sum>c\<in>set p. \<bar>int (count (mset p) c) - int (count (mset t) c)\<bar>), s32 (\<Sum>c\<in>set p. int (count (mset t) c)))"
proof -
  note P = count_map_correct [OF assms(1)]
  let ?tc = "\<lambda>c. case map_of (count_map t) c of None \<Rightarrow> 0 | Some k \<Rightarrow> k"
  have tc: "?tc c = int (count (mset t) c)" for c using count_map_correct [OF assms(2), of c] by (simp add: count_eq_zero_iff)
  have entry: "fst x \<in> set p \<and> snd x = int (count (mset p) (fst x))" if x: "x \<in> set (count_map p)" for x
  proof -
    have "map_of (count_map p) (fst x) = Some (snd x)" using x P map_of_is_SomeI [of "count_map p" "fst x" "snd x"] by simp
    then show ?thesis using P [of "fst x"] by (metis option.distinct(1) option.inject)
  qed
  have reindex: "(\<Sum>x\<leftarrow>count_map p. f x) = (\<Sum>c\<in>set p. h c)"
    if h: "\<And>c. c \<in> set p \<Longrightarrow> f (c, int (count (mset p) c)) = h c" for f h :: "_ \<Rightarrow> int"
  proof -
    have "f x = h (fst x)" if x: "x \<in> set (count_map p)" for x using entry [OF x] h [of "fst x"] by (metis prod.collapse)
    then have "(\<Sum>x\<leftarrow>count_map p. f x) = (\<Sum>x\<leftarrow>map fst (count_map p). h x)" by (simp add: o_def cong: map_cong)
    also have "\<dots> = sum h (set (map fst (count_map p)))"
      using P by (intro sum_list_distinct_conv_sum_set) blast
    finally show ?thesis using P by simp
  qed
  have "foldl (\<lambda>acc (c, pc). freq_step pc (?tc c) acc) (0, 0) (count_map p) =
      foldl (\<lambda>acc x. freq_step (snd x) (?tc (fst x)) acc) (s32 0, s32 0) (count_map p)"
    by (rule foldl_cong) (simp_all add: case_prod_beta s32_def)
  also have "\<dots> = (s32 (\<Sum>c\<in>set p. \<bar>int (count (mset p) c) - int (count (mset t) c)\<bar>), s32 (\<Sum>c\<in>set p. int (count (mset t) c)))"
    using entry count_bound [OF assms(1)] count_bound [OF assms(2)] by (subst freq_fold) (auto simp: tc reindex)
  finally show ?thesis .
qed

lemma freq_lower_bound_char_diff:
  assumes "length (code_points p) + length (code_points t) < 2 ^ 31 - 1"
  shows "freq_lower_bound p t = (int (char_diff (code_points p) (code_points t)) + 1) div 2"
proof -
  let ?p = "code_points p" and ?t = "code_points t" and ?d = "char_diff (code_points p) (code_points t)"
  have b: "length ?p < 2 ^ 31" "length ?t < 2 ^ 31" using assms by simp_all
  have "?d \<le> length ?p + length ?t"
    unfolding char_diff_def size_mset [symmetric] by (intro add_mono size_mset_mono) simp_all
  then have d: "s32 (int ?d + 1) = int ?d + 1" using assms by (intro s32_id) auto
  have cut: "s32 (s32 x + (l - s32 m) + 1) = s32 (x + (l - m) + 1)" for x l m
    using s32_sums(4) [of "s32 x + l + 1" m] s32_sums(1) [of x "l - m + 1"] by (simp add: algebra_simps del: s32_sums)
  have "freq_lower_bound p t = s32 (int ?d + 1) sdiv 2"
    using freq_array [OF make_seq_ascii make_seq_ascii b] freq_map [OF b]
    by (simp add: freq_lower_bound_def make_seq_cps char_diff_sum Let_def cut)
  then show ?thesis by (simp add: d signed_divide_int_def)
qed

section \<open>Properties\<close>

lemma osa_two:
  "osa [a, b] [c, d] (Suc (Suc 0)) (Suc (Suc 0)) =
    (if a = c \<and> b = d then 0 else if a = c \<or> b = d then 1 else if a = d \<and> b = c then 1 else 2)"
proof -
  have 1: "osa [a, b] [c, d] (Suc 0) (Suc 0) = (if a = c then 0 else 1)"
    "osa [a, b] [c, d] (Suc 0) (Suc (Suc 0)) = (if a = c \<or> a = d then 1 else 2)"
    "osa [a, b] [c, d] (Suc (Suc 0)) (Suc 0) = (if a = c \<or> b = c then 1 else 2)"
    by (simp_all add: osa.simps(3) Let_def)
  show ?thesis unfolding osa.simps(3) [of _ _ "Suc 0" "Suc 0"] 1
    by (cases "a = c"; cases "b = d"; cases "a = d"; cases "b = c") (simp_all add: Let_def)
qed

lemma dl_dp_osa:
  assumes "length t \<le> length s" "length t = 1 \<Longrightarrow> length s = 1" "length s < 2 ^ 31 - 1"
  shows "dl_dp s t max_dist = dl_cap max_dist (int (osa s t (length s) (length t)))"
proof -
  consider "t = []" | a b where "s = [a]" "t = [b]" | a b c d where "s = [a, b]" "t = [c, d]"
    | "length t \<noteq> 0" "length t \<noteq> 1" "\<not> (length s = 2 \<and> length t = 2)"
  proof -
    have one: "\<exists>a. xs = [a]" if "length xs = 1" for xs :: "32 word list" using that by (simp add: length_Suc_conv)
    have two: "\<exists>a b. xs = [a, b]" if "length xs = 2" for xs :: "32 word list" using that by (auto simp: length_Suc_conv numeral_2_eq_2)
    show thesis using that assms one [of s] one [of t] two [of s] two [of t] by (metis length_0_conv)
  qed
  then show ?thesis
  proof cases
    case 2
    then show ?thesis by (simp add: dl_dp_def osa.simps(3) Let_def)
  next
    case 3
    then show ?thesis using osa_two [of a b c d] by (simp add: dl_dp_def Let_def)
  next
    case 4
    have "map (\<lambda>j. s32 (int j)) [0..<length t + 1] = osa_row s t 0"
      using assms(1,3) unfolding osa_row_def by (intro map_cong) (auto intro!: s32_nat)
    then show ?thesis using 4 dl_rows_osa [of 0 "osa_row s t 0" s t max_dist] assms(1,3) by (auto simp: dl_dp_def Let_def simp del: upt_Suc)
  qed (use assms(3) in \<open>simp add: dl_dp_def s32_nat\<close>)
qed

text \<open>
  Property C10.
  The distance of two strings is the least number of insertions, deletions, substitutions and transpositions of
  neighbours that turn the code points of one into those of the other, cut off at one above the limit when a limit is
  given: the row-wise computation with its early exit agrees with that minimum over all edits. The strings have less
  than \<open>2 ^ 31 - 1\<close> code points, so that no 32-bit cell overflows. The exception are a
  string of one character and a longer one, for which the code compares the first characters only.
\<close>

theorem damerau_levenshtein_least:
  assumes "\<not> (min (length (code_points a)) (length (code_points b)) = 1 \<and> max (length (code_points a)) (length (code_points b)) > 1)"
    "length (code_points a) < 2 ^ 31 - 1" "length (code_points b) < 2 ^ 31 - 1"
  shows "\<exists>d. edits d (code_points a) (code_points b) \<and> (\<forall>n. edits n (code_points a) (code_points b) \<longrightarrow> d \<le> n) \<and>
    damerau_levenshtein a b max_dist = (if 0 \<le> max_dist \<and> max_dist < int d then max_dist + 1 else int d)"
proof (cases "length (code_points a) < length (code_points b)")
  case True
  let ?d = "osa (code_points b) (code_points a) (length (code_points b)) (length (code_points a))"
  have "damerau_levenshtein a b max_dist = dl_cap max_dist (int ?d)"
    using True assms dl_dp_osa [of "code_points a" "code_points b"] by (auto simp: damerau_levenshtein_def make_seq_cps Let_def)
  then show ?thesis
    using osa_edits [of "length (code_points b)" "code_points b" "length (code_points a)" "code_points a"] osa_least
    by (intro exI [of _ ?d]) (auto simp: dl_cap_def intro: edits_sym dest: edits_sym)
next
  case False
  let ?d = "osa (code_points a) (code_points b) (length (code_points a)) (length (code_points b))"
  have "damerau_levenshtein a b max_dist = dl_cap max_dist (int ?d)"
    using False assms dl_dp_osa [of "code_points b" "code_points a"] by (auto simp: damerau_levenshtein_def make_seq_cps Let_def)
  then show ?thesis
    using osa_edits [of "length (code_points a)" "code_points a" "length (code_points b)" "code_points b"] osa_least
    by (intro exI [of _ ?d]) (auto simp: dl_cap_def)
qed

lemma code_points_ascii_bytes: "list_all (\<lambda>b. unat b < 128) p \<Longrightarrow> code_points p = map ucast p"
  using make_seq_cps [of p] by (simp add: make_seq_def is_ascii_iff list_all_iff)

theorem damerau_levenshtein_least_witness:
  "damerau_levenshtein [0x61, 0x62, 0x63] [0x62, 0x61, 0x63] (-1) \<le> 1 \<and> 0 \<le> damerau_levenshtein [0x61, 0x62, 0x63] [0x62, 0x61, 0x63] (-1)"
proof -
  have c: "code_points [0x61, 0x62, 0x63] = [0x61, 0x62, 0x63]" "code_points [0x62, 0x61, 0x63] = [0x62, 0x61, 0x63]"
    by (simp_all add: code_points_ascii_bytes)
  have "edits 1 [0x61, 0x62, 0x63] [0x62, 0x61, 0x63 :: 32 word]"
    using edits.keep [OF edits.swap [OF edits.none], of "0x61" "0x62" "0x63"] by simp
  then show ?thesis using damerau_levenshtein_least [of "[0x61, 0x62, 0x63]" "[0x62, 0x61, 0x63]" "-1"] by (auto simp: c)
qed

text \<open>
  Property C24.
  The filter on the numbers of characters is safe: its value never exceeds the number of edits that turn the pattern
  into the term, so no term within the limit is discarded by it. Both of its counters, the array for ASCII strings and
  the map for all others, compute the same bound; pattern and term have together less than
  \<open>2 ^ 31 - 1\<close> code points, so that the 32-bit totals do not overflow.
\<close>

theorem freq_lower_bound_safe:
  assumes "edits n (code_points pattern) (code_points term)" "length (code_points pattern) + length (code_points term) < 2 ^ 31 - 1"
  shows "freq_lower_bound pattern term \<le> int n"
  using char_diff_edits [OF assms(1)] by (simp add: freq_lower_bound_char_diff [OF assms(2)])

theorem freq_lower_bound_safe_witness:
  "edits 1 (code_points [0x61, 0x62]) (code_points [0x61, 0x63]) \<and> freq_lower_bound [0x61, 0x62] [0x61, 0x63] \<le> 1"
proof -
  have c: "code_points [0x61, 0x62] = [0x61, 0x62]" "code_points [0x61, 0x63] = [0x61, 0x63]"
    by (simp_all add: code_points_ascii_bytes)
  have "edits 1 [0x61, 0x62] [0x61, 0x63 :: 32 word]"
    using edits.subst [OF edits.keep [OF edits.none, of "0x61"], of "0x62" "0x63"] by simp
  then show ?thesis using freq_lower_bound_safe [of 1 "[0x61, 0x62]" "[0x61, 0x63]"] by (simp add: c)
qed

end
