(* ===== verification/Spec2Isabelle.thy ===== *)
theory Spec2Isabelle
  imports Hash_Map_Ok Kmb2 Mid2l Midl_Sort Binary_Le Lmdb_Database Ring_Buffer Flat_Maps Lru_Cache
    Gitignore_File Ls_Files Wire_Codec Output_Ring Sanitize Ansi Distance
begin

text \<open>
  A verification development for KimiX-native, the native runtime of a coding agent.

  \<^bold>\<open>The program.\<close> The repository's own code lies in \<^verbatim>\<open>src/\<close>: \<^verbatim>\<open>core\<close> (containers, allocation, binary
  encodings, JSON, and a copy of the LMDB storage engine), \<^verbatim>\<open>graph_db\<close> (a property graph stored in LMDB),
  \<^verbatim>\<open>runtime\<close> (the packed message history, text tools, codecs and the Python bindings), \<^verbatim>\<open>llm\<close>, \<^verbatim>\<open>mcp\<close> and
  \<^verbatim>\<open>api\<close> (clients of the model providers and of tool servers), \<^verbatim>\<open>builtin_tools\<close>, \<^verbatim>\<open>agent\<close>, \<^verbatim>\<open>script\<close> and
  \<^verbatim>\<open>cli\<close>. Everything that persists goes through the storage engine, everything that is kept in memory
  through the containers, and every conversation through the packed message history. The development
  starts with these three, because the other parts rest on them.

  \<^bold>\<open>How effects are modelled.\<close> An operation that may go wrong in the way C and C++ leave undefined (an
  access outside an array, a null or dangling pointer, a failed assertion) returns an \<open>option\<close>, with
  \<open>None\<close> for that outcome; so every theorem that says \<open>\<exists>r. f x = Some r\<close> includes memory safety. Return
  codes are values, as in the code. Arrays are lists read and written by \<open>rd\<close> and \<open>wr\<close> (\<open>Prelude\<close>),
  which fail outside the bounds. Integers are words or naturals with the wrap-around written out
  (\<open>u16\<close>, \<open>u32\<close>, \<open>of_nat\<close>). Heap structures are stores from addresses to nodes. Loops are \<open>fun\<close> or
  \<open>function\<close> with a measure; a loop whose end depends on the heap or on the data being well formed
  (the rebalancing loops of the red-black tree, the sort's scans) is a \<open>partial_function (option)\<close>, and
  the theorems state that it returns. There is no fuel anywhere.

  \<^bold>\<open>Storage engine\<close>, \<^verbatim>\<open>src/core/lmdb\<close>.
  \<^item> \<open>Binary_Search\<close> is the search loop that \<^verbatim>\<open>midl.c\<close> and \<^verbatim>\<open>mdb.c\<close> share, as a locale with one correctness
    lemma; \<open>Midl\<close>, \<open>Mid2l\<close> and \<open>Lmdb_Search\<close> interpret it.
  \<^item> \<open>Midl\<close>, \<open>Midl_Sort\<close>, \<open>Mid2l\<close> model \<^verbatim>\<open>midl.c\<close>: ID lists with their capacity cell, growth, append, range
    append, in-place merge, the explicit-stack quicksort, and the sorted list of dirty pages.
  \<^item> \<open>Lmdb_Page\<close> models pages as bytes with the header fields (\<^verbatim>\<open>MDB_page\<close>, \<^verbatim>\<open>MDB_node\<close>) and \<^verbatim>\<open>mdb_node_add\<close>,
    \<^verbatim>\<open>mdb_node_del\<close>, \<^verbatim>\<open>mdb_update_key\<close> on them; \<open>Lmdb_Node\<close> shows that a page is a list of nodes and that
    these functions insert into and delete from that list.
  \<^item> \<open>Lmdb_Compare\<close> has the built-in comparisons, \<open>Lmdb_Search\<close> the search within a page.
  \<^item> \<open>Lmdb_Cursor\<close> and \<open>Lmdb_Moves\<close> model reading: pages by number through the dirty and spilled lists
    of nested transactions, the descent, \<^verbatim>\<open>mdb_cursor_get\<close> with all its operations, the sub-cursors of
    sorted duplicates, \<^verbatim>\<open>mdb_get\<close>.
  \<^item> \<open>Lmdb_Tree\<close>, \<open>Lmdb_Walk\<close>, \<open>Lmdb_Scan\<close>, \<open>Lmdb_Lookup\<close> are the proofs about them. \<open>Lmdb_Tree\<close> defines when
    pages form a tree and what items it holds; \<open>Lmdb_Walk\<close> follows the moves; \<open>Lmdb_Scan\<close> instantiates the
    locale \<open>simulation_on\<close> of the \<open>Prelude\<close> with them; \<open>Lmdb_Lookup\<close> is about positioning at a key.
    \<open>Lmdb_Database\<close> states the resulting properties of the interface and applies them to a tree of
    three pages. The height of a tree is bounded by \<^verbatim>\<open>CURSOR_STACK\<close>, as in the code; it is the measure
    of the descent.

  \<^bold>\<open>Containers and allocation\<close>, \<^verbatim>\<open>src/core\<close>.
  \<^item> \<open>Rb_Heap\<close> models the red-black tree code of \<^verbatim>\<open>hash_map.h\<close> (\<^verbatim>\<open>TreeMapUtility\<close>) on a heap of nodes with
    parent pointers; \<open>Rb_Rep\<close> relates heaps to trees, \<open>Rb_Insert\<close> and \<open>Rb_Delete\<close> prove the rebalancing.
  \<^item> \<open>Pool\<close> models \<^verbatim>\<open>pool.h\<close>; \<open>Tree_Map\<close> the map in a bucket (\<^verbatim>\<open>SmallTreeMap\<close>) on top of both; \<open>Hash_Map\<close>
    the hash map, and \<open>Hash_Map_Ok\<close> its refinement of an association list.
  \<^item> \<open>Ring_Buffer\<close>, \<open>Flat_Maps\<close> and \<open>Lru_Cache\<close> model \<^verbatim>\<open>ring_buffer.h\<close>, \<^verbatim>\<open>fixed_map.h\<close>, \<^verbatim>\<open>vector_map.h\<close> and
    \<^verbatim>\<open>lru_cache.h\<close>, each as a refinement of its abstract data type.

  \<^bold>\<open>Encodings.\<close> \<open>Byte_Mem\<close> and \<open>Le_Bytes\<close> have memory blocks and little-endian integers; \<open>Binary_Le\<close> the
  helpers of \<^verbatim>\<open>core/binary_le.h\<close> and \<^verbatim>\<open>graph_db\<close>; \<open>Kmb2\<close> the packed message structure of
  \<^verbatim>\<open>runtime/soul/kmb2.cpp\<close>, writer, parser and views, byte for byte.

  \<^bold>\<open>Text and codecs of the runtime\<close>, \<^verbatim>\<open>src/runtime\<close>. All of them work on bytes (8-bit words).
  \<^item> \<open>Utf8\<close> models \<^verbatim>\<open>common/utf8.cpp\<close>: \<^verbatim>\<open>decode_cp\<close> inverts an independent encoding and reads everything else as
    one replacement character per byte, and the counting loops over eight bytes at a time agree with it.
    \<open>Output_Ring\<close> (\<^verbatim>\<open>tools/output_ring.cpp\<close>), \<open>Sanitize\<close> (\<^verbatim>\<open>text/sanitize.cpp\<close>, its passes on one mutable buffer) and
    \<open>Distance\<close> rest on it. The product of a capacity and a ratio, a floating-point number, is an
    argument of \<open>or_new\<close>; the normalisation between the two halves of the sanitizer is the caller's.
  \<^item> \<open>Ansi\<close> models the streaming removal of escape sequences (\<^verbatim>\<open>stream/ansi.cpp\<close>) as its state machine, against a
    left-to-right substitution on the whole text.
  \<^item> \<open>Edit_Cost\<close> has the edit relation and the table of least costs, \<open>Distance\<close> the row-wise computation of
    \<^verbatim>\<open>search/distance.cpp\<close> and its lower bound by character counts, with 32-bit cells; the floating-point
    similarities of that file are not modelled.
  \<^item> \<open>Glob\<close>, \<open>Gitignore\<close>, \<open>Gitignore_Ok\<close>, \<open>Gitignore_File\<close> and \<open>Ls_Files\<close> model the matcher of wildcards, the ignore
    rules (offsets into normalised paths, against a selection on lists of components), the reader
    of rule files, and the reader of \<^verbatim>\<open>git ls-files -z\<close>.
  \<^item> \<open>Recv_Buffer\<close> models \<^verbatim>\<open>codec/recv_buffer.cpp\<close> and refines a queue of bytes through the locale
    \<open>simulation_on\<close>; \<open>Wire_Codec\<close> the writers of line frames, the merge buffer and the ring of frames.

  The loops there whose progress depends on the decoder or on the pattern (\<open>glob_loop\<close>, \<open>count_loop\<close>,
  \<open>filter_loop\<close>, \<open>space_loop\<close>, \<open>skip_spaces\<close>, \<open>dedupe_loop\<close>) are \<open>partial_function (option)\<close>, and the properties show that they
  return.

  \<^bold>\<open>Bounds in the properties.\<close> Where the code computes in a fixed width without a check, the model has the width
  and the property the bound: at most \<open>2 ^ 30\<close> IDs in \<^verbatim>\<open>mdb_midl_sort\<close> (a sum of two \<^verbatim>\<open>int\<close> indices), strings of
  less than \<open>2 ^ 31 - 1\<close> code points in the distances, capacity hints below \<open>2 ^ 58\<close> in the hash map, capacities
  below \<open>2 ^ 63\<close> in the output buffer, limits and totals below \<open>2 ^ 63\<close> in the receive buffer.

  \<^bold>\<open>Not modelled.\<close> The writing half of the storage engine above a page (allocation, splitting,
  rebalancing, \<^verbatim>\<open>mdb_put\<close>, \<^verbatim>\<open>mdb_del\<close>, commit) and its files, locks and memory maps; the code that talks
  to the network, to processes, to the terminal or to Python; the libraries under \<^verbatim>\<open>src/ext\<close>; in
  \<^verbatim>\<open>runtime\<close> the diffing, the search index and the scanners of shell and source text. Reading
  takes \<^verbatim>\<open>mdb_page_touch\<close> as a parameter, and an environment opened without \<^verbatim>\<open>MDB_REMAP_CHUNKS\<close>.
\<close>

end
